(* ===== verification/Prelude.thy ===== *)
theory Prelude
  imports Main "HOL-Library.Word" "HOL-Library.Monad_Syntax"
begin

text \<open>
  Shared vocabulary of the development: the types every component uses (bytes, machine
  words of the 32-bit ARM target, the flat byte memory that the string library works on),
  checked reads and writes of that memory, the collections of simplification rules, and
  the generic lemmas on lists, options and characters that the component proofs share.
\<close>

unbundle bit_operations_syntax

section \<open>Types of the target\<close>

text \<open>
  The program runs on a 32-bit ARM core: \<open>unsigned int\<close>, \<open>unsigned long\<close>, \<open>size_t\<close>
  and \<open>ulong\<close> are 32 bits wide, \<open>unsigned long long\<close> 64, and plain \<open>char\<close> is unsigned.
\<close>

type_synonym u8 = "8 word"
type_synonym u16 = "16 word"
type_synonym u32 = "32 word"
type_synonym u64 = "64 word"

type_synonym mem = "char list"
type_synonym ptr = nat

abbreviation NUL :: char where
  "NUL \<equiv> CHR 0x00"

text \<open>A byte as a character and back.\<close>

definition byte_of :: "char \<Rightarrow> u8" where
  "byte_of c = word_of_nat (of_char c)"

definition char_byte :: "u8 \<Rightarrow> char" where
  "char_byte b = char_of (unat b)"

section \<open>Collections of rules\<close>

named_theorems mem_simps \<open>checked reads and writes of the byte memory\<close>
named_theorems ctype_simps \<open>characterisations of the character classes\<close>

section \<open>The byte memory\<close>

text \<open>
  Memory is a list of bytes and a pointer is an index into it. A read or a write outside
  the list is the value \<open>None\<close>: the models keep an out-of-object access as a visible outcome.
\<close>

definition rd :: "mem \<Rightarrow> ptr \<Rightarrow> char option" where
  "rd m a = (if a < length m then Some (m ! a) else None)"

definition wr :: "mem \<Rightarrow> ptr \<Rightarrow> char \<Rightarrow> mem option" where
  "wr m a c = (if a < length m then Some (m[a := c]) else None)"

lemma rd_in [mem_simps]: "a < length m \<Longrightarrow> rd m a = Some (m ! a)"
  by (simp add: rd_def)

lemma rd_out [mem_simps]: "length m \<le> a \<Longrightarrow> rd m a = None"
  by (simp add: rd_def)

lemma rd_Some_iff: "rd m a = Some c \<longleftrightarrow> a < length m \<and> m ! a = c"
  by (auto simp: rd_def)

lemma wr_in [mem_simps]: "a < length m \<Longrightarrow> wr m a c = Some (m[a := c])"
  by (simp add: wr_def)

lemma wr_Some_iff: "wr m a c = Some m' \<longleftrightarrow> a < length m \<and> m' = m[a := c]"
  by (auto simp: wr_def)

lemma length_wr: "wr m a c = Some m' \<Longrightarrow> length m' = length m"
  by (simp add: wr_Some_iff)

section \<open>Generic lemmas\<close>

lemma less_of_char [simp]: "(of_char c :: nat) < 256"
  by simp

lemma unat_byte_of [simp]: "unat (byte_of c) = of_char c"
  by (simp add: byte_of_def unat_of_nat)

lemma char_byte_of [simp]: "char_byte (byte_of c) = c"
  by (simp add: char_byte_def)

lemma byte_of_char_byte [simp]: "byte_of (char_byte b) = b"
proof -
  have "unat (byte_of (char_byte b)) = unat b"
    using unsigned_less [of b, where 'a = nat] by (simp add: char_byte_def)
  then show ?thesis by (rule unsigned_word_eqI)
qed

lemma char_exhaust_nat:
  assumes "\<And>n. n < (256::nat) \<Longrightarrow> P (char_of n)"
  shows "P c"
proof -
  have "P (char_of (of_char c :: nat))" by (rule assms) simp
  then show ?thesis by simp
qed

text \<open>A property of all characters, checked over the 256 codes.\<close>

lemma char_check:
  assumes "list_all (\<lambda>n::nat. P (char_of n)) [0..<256]"
  shows "P c"
  by (rule char_exhaust_nat) (use assms in \<open>auto simp: list_all_iff\<close>)

lemma bind_Some_iff: "(f \<bind> g = Some y) \<longleftrightarrow> (\<exists>x. f = Some x \<and> g x = Some y)"
  by (cases f) auto

end
