(* ===== verification/Lmb.thy ===== *)
theory Lmb
  imports Prelude
begin

text \<open>
  Logical memory blocks (\<^verbatim>\<open>lib/lmb.c\<close>): the list of physical memory regions and the list of
  reserved regions from which \<^verbatim>\<open>bootm\<close> places the kernel's device tree and ramdisk. Addresses and
  sizes are 32-bit words and wrap. Each list is an array of nine entries of which the first
  \<open>cnt\<close> are in use; an access outside the array makes the call \<open>None\<close>. The theory shows what
  adding, freeing and allocating do to the set of addresses a list covers, and that allocated
  blocks never overlap.
\<close>

section \<open>Data\<close>

record lmb_property =
  lp_base :: u32
  lp_size :: u32

record lmb_region =
  rg_cnt :: nat
  rg_size :: u32
  rg_region :: "lmb_property list"

record lmb =
  lmb_memory :: lmb_region
  lmb_reserved :: lmb_region

definition MAX_LMB_REGIONS :: nat where "MAX_LMB_REGIONS = 8"

definition LMB_ALLOC_ANYWHERE :: u32 where "LMB_ALLOC_ANYWHERE = 0"

text \<open>Access to the array, and \<open>cnt - 1\<close> in unsigned arithmetic.\<close>

definition rget :: "lmb_property list \<Rightarrow> nat \<Rightarrow> lmb_property option" where
  "rget reg i = (if i < length reg then Some (reg ! i) else None)"

definition rput :: "lmb_property list \<Rightarrow> nat \<Rightarrow> lmb_property \<Rightarrow> lmb_property list option" where
  "rput reg i p = (if i < length reg then Some (reg[i := p]) else None)"

definition pred32 :: "nat \<Rightarrow> nat" where
  "pred32 c = (if c = 0 then 2 ^ 32 - 1 else c - 1)"

section \<open>Operations\<close>

definition lmb_addrs_overlap :: "u32 \<Rightarrow> u32 \<Rightarrow> u32 \<Rightarrow> u32 \<Rightarrow> bool" where
  "lmb_addrs_overlap base1 size1 base2 size2 \<longleftrightarrow> base1 < base2 + size2 \<and> base2 < base1 + size1"

definition lmb_addrs_adjacent :: "u32 \<Rightarrow> u32 \<Rightarrow> u32 \<Rightarrow> u32 \<Rightarrow> int" where
  "lmb_addrs_adjacent base1 size1 base2 size2 =
     (if base2 = base1 + size1 then 1 else if base1 = base2 + size2 then -1 else 0)"

definition lmb_regions_adjacent :: "lmb_region \<Rightarrow> nat \<Rightarrow> nat \<Rightarrow> int option" where
  "lmb_regions_adjacent rgn r1 r2 =
     do { p1 \<leftarrow> rget (rg_region rgn) r1; p2 \<leftarrow> rget (rg_region rgn) r2;
          Some (lmb_addrs_adjacent (lp_base p1) (lp_size p1) (lp_base p2) (lp_size p2)) }"

fun remove_loop :: "lmb_property list \<Rightarrow> nat \<Rightarrow> nat \<Rightarrow> lmb_property list option" where
  "remove_loop reg i 0 = Some reg"
| "remove_loop reg i (Suc n) =
     do { p \<leftarrow> rget reg (Suc i); reg' \<leftarrow> rput reg i p; remove_loop reg' (Suc i) n }"

definition lmb_remove_region :: "lmb_region \<Rightarrow> nat \<Rightarrow> lmb_region option" where
  "lmb_remove_region rgn r =
     do { reg \<leftarrow> remove_loop (rg_region rgn) r (pred32 (rg_cnt rgn) - r);
          Some (rgn\<lparr>rg_region := reg, rg_cnt := pred32 (rg_cnt rgn)\<rparr>) }"

definition lmb_coalesce_regions :: "lmb_region \<Rightarrow> nat \<Rightarrow> nat \<Rightarrow> lmb_region option" where
  "lmb_coalesce_regions rgn r1 r2 =
     do { p1 \<leftarrow> rget (rg_region rgn) r1; p2 \<leftarrow> rget (rg_region rgn) r2;
          reg \<leftarrow> rput (rg_region rgn) r1 (p1\<lparr>lp_size := lp_size p1 + lp_size p2\<rparr>);
          lmb_remove_region (rgn\<lparr>rg_region := reg\<rparr>) r2 }"

definition dummy_region :: "lmb_region \<Rightarrow> lmb_region" where
  "dummy_region rgn =
     rgn\<lparr>rg_region := (rg_region rgn)[0 := \<lparr>lp_base = 0, lp_size = 0\<rparr>], rg_cnt := 1, rg_size := 0\<rparr>"

definition lmb_init :: "lmb \<Rightarrow> lmb" where
  "lmb_init l = l\<lparr>lmb_memory := dummy_region (lmb_memory l), lmb_reserved := dummy_region (lmb_reserved l)\<rparr>"

text \<open>
  The search for a region to merge with, from index \<open>i\<close> over the remaining \<open>n\<close> regions: the very
  same region, a region to extend (with its new contents), or none.
\<close>

datatype adj = Have_it | Adj nat lmb_property | No_adj nat

fun adj_loop :: "lmb_property list \<Rightarrow> u32 \<Rightarrow> u32 \<Rightarrow> nat \<Rightarrow> nat \<Rightarrow> adj option" where
  "adj_loop reg base sz i 0 = Some (No_adj i)"
| "adj_loop reg base sz i (Suc n) =
     do { p \<leftarrow> rget reg i;
          if lp_base p = base \<and> lp_size p = sz then Some Have_it
          else let a = lmb_addrs_adjacent base sz (lp_base p) (lp_size p)
               in if a > 0 then Some (Adj i \<lparr>lp_base = lp_base p - sz, lp_size = lp_size p + sz\<rparr>)
                  else if a < 0 then Some (Adj i (p\<lparr>lp_size := lp_size p + sz\<rparr>))
                  else adj_loop reg base sz (Suc i) n }"

text \<open>The insertion into the sorted table, downwards from index \<open>n - 1\<close>.\<close>

fun insert_loop :: "lmb_property list \<Rightarrow> u32 \<Rightarrow> u32 \<Rightarrow> nat \<Rightarrow> lmb_property list option" where
  "insert_loop reg base sz 0 = Some reg"
| "insert_loop reg base sz (Suc i) =
     do { p \<leftarrow> rget reg i;
          if base < lp_base p then do { reg' \<leftarrow> rput reg (Suc i) p; insert_loop reg' base sz i }
          else rput reg (Suc i) \<lparr>lp_base = base, lp_size = sz\<rparr> }"

definition insert_region :: "lmb_region \<Rightarrow> u32 \<Rightarrow> u32 \<Rightarrow> (int \<times> lmb_region) option" where
  "insert_region rgn base sz =
     (if rg_cnt rgn \<ge> MAX_LMB_REGIONS then Some (-1, rgn)
      else do { reg \<leftarrow> insert_loop (rg_region rgn) base sz (rg_cnt rgn);
                p0 \<leftarrow> rget reg 0;
                reg' \<leftarrow> (if base < lp_base p0 then rput reg 0 \<lparr>lp_base = base, lp_size = sz\<rparr> else Some reg);
                Some (0, rgn\<lparr>rg_region := reg', rg_cnt := rg_cnt rgn + 1\<rparr>) })"

text \<open>The merge of regions \<open>i\<close> and \<open>i + 1\<close> if there are two and they touch.\<close>

definition merge_next :: "lmb_region \<Rightarrow> nat \<Rightarrow> (int \<times> lmb_region) option" where
  "merge_next rgn i =
     (if i < pred32 (rg_cnt rgn)
      then do { a \<leftarrow> lmb_regions_adjacent rgn i (i + 1);
                if a \<noteq> 0 then do { rgn' \<leftarrow> lmb_coalesce_regions rgn i (i + 1); Some (1, rgn') }
                else Some (0, rgn) }
      else Some (0, rgn))"

definition lmb_add_region :: "lmb_region \<Rightarrow> u32 \<Rightarrow> u32 \<Rightarrow> (int \<times> lmb_region) option" where
  "lmb_add_region rgn base sz =
     do { p0 \<leftarrow> rget (rg_region rgn) 0;
          if rg_cnt rgn = 1 \<and> lp_size p0 = 0
          then Some (0, rgn\<lparr>rg_region := (rg_region rgn)[0 := \<lparr>lp_base = base, lp_size = sz\<rparr>]\<rparr>)
          else do { a \<leftarrow> adj_loop (rg_region rgn) base sz 0 (rg_cnt rgn);
                    (case a of
                       Have_it \<Rightarrow> Some (0, rgn)
                     | Adj i p \<Rightarrow>
                         do { (c, rgn') \<leftarrow> merge_next (rgn\<lparr>rg_region := (rg_region rgn)[i := p]\<rparr>) i;
                              Some (1 + c, rgn') }
                     | No_adj i \<Rightarrow>
                         do { (c, rgn') \<leftarrow> merge_next rgn i;
                              if c \<noteq> 0 then Some (c, rgn') else insert_region rgn base sz }) } }"

definition lmb_add :: "lmb \<Rightarrow> u32 \<Rightarrow> u32 \<Rightarrow> (int \<times> lmb) option" where
  "lmb_add l base sz =
     do { (r, rgn) \<leftarrow> lmb_add_region (lmb_memory l) base sz; Some (r, l\<lparr>lmb_memory := rgn\<rparr>) }"

definition lmb_reserve :: "lmb \<Rightarrow> u32 \<Rightarrow> u32 \<Rightarrow> (int \<times> lmb) option" where
  "lmb_reserve l base sz =
     do { (r, rgn) \<leftarrow> lmb_add_region (lmb_reserved l) base sz; Some (r, l\<lparr>lmb_reserved := rgn\<rparr>) }"

text \<open>The loops over a list that look for a region: the first index, from \<open>i\<close> over \<open>n\<close> regions, whose
  region passes the test.\<close>

fun region_scan :: "(lmb_property \<Rightarrow> bool) \<Rightarrow> lmb_property list \<Rightarrow> nat \<Rightarrow> nat \<Rightarrow> nat option option" where
  "region_scan P reg i 0 = Some None"
| "region_scan P reg i (Suc n) =
     do { p \<leftarrow> rget reg i; if P p then Some (Some i) else region_scan P reg (Suc i) n }"

text \<open>Freeing \<open>base \<dots> e\<close> from region \<open>i\<close>, which holds it: the whole region, its front, its end, or a hole
  in the middle that splits it.\<close>

definition free_at :: "lmb_region \<Rightarrow> nat \<Rightarrow> u32 \<Rightarrow> u32 \<Rightarrow> (int \<times> lmb_region) option" where
  "free_at rgn i base sz =
     do { p \<leftarrow> rget (rg_region rgn) i;
          let e = base + sz;
          let rgnbegin = lp_base p;
          let rgnend = lp_base p + lp_size p;
          let upd = (\<lambda>q. rgn\<lparr>rg_region := (rg_region rgn)[i := q]\<rparr>);
          if rgnbegin = base \<and> rgnend = e
          then do { rgn' \<leftarrow> lmb_remove_region rgn i; Some (0, rgn') }
          else if rgnbegin = base
          then Some (0, upd \<lparr>lp_base = e, lp_size = lp_size p - sz\<rparr>)
          else if rgnend = e
          then Some (0, upd (p\<lparr>lp_size := lp_size p - sz\<rparr>))
          else lmb_add_region (upd (p\<lparr>lp_size := base - lp_base p\<rparr>)) e (rgnend - e) }"

definition free_region :: "lmb_region \<Rightarrow> u32 \<Rightarrow> u32 \<Rightarrow> (int \<times> lmb_region) option" where
  "free_region rgn base sz =
     do { f \<leftarrow> region_scan (\<lambda>p. lp_base p \<le> base \<and> base + sz \<le> lp_base p + lp_size p)
                 (rg_region rgn) 0 (rg_cnt rgn);
          (case f of None \<Rightarrow> Some (-1, rgn) | Some i \<Rightarrow> free_at rgn i base sz) }"

definition lmb_free :: "lmb \<Rightarrow> u32 \<Rightarrow> u32 \<Rightarrow> (int \<times> lmb) option" where
  "lmb_free l base sz =
     do { (r, rgn) \<leftarrow> free_region (lmb_reserved l) base sz; Some (r, l\<lparr>lmb_reserved := rgn\<rparr>) }"

text \<open>The index of the first overlapping region, or none (\<open>-1\<close>).\<close>

definition lmb_overlaps_region :: "lmb_region \<Rightarrow> u32 \<Rightarrow> u32 \<Rightarrow> nat option option" where
  "lmb_overlaps_region rgn base sz =
     region_scan (\<lambda>p. lmb_addrs_overlap base sz (lp_base p) (lp_size p)) (rg_region rgn) 0 (rg_cnt rgn)"

definition lmb_align_down :: "u32 \<Rightarrow> u32 \<Rightarrow> u32" where
  "lmb_align_down addr sz = addr AND NOT (sz - 1)"

definition lmb_align_up :: "u32 \<Rightarrow> u32 \<Rightarrow> u32" where
  "lmb_align_up addr sz = (addr + (sz - 1)) AND NOT (sz - 1)"

text \<open>
  The inner loop of the allocator on one memory region. \<open>Some None\<close>: nothing found in this region,
  \<open>Some (Some (b, l))\<close>: the function returns \<open>b\<close>. The loop need not end for arbitrary arguments,
  hence a partial function.
\<close>

partial_function (option) alloc_loop ::
  "lmb \<Rightarrow> u32 \<Rightarrow> u32 \<Rightarrow> u32 \<Rightarrow> u32 \<Rightarrow> (u32 \<times> lmb) option option" where
  "alloc_loop l sz align lmbbase base =
     (if base \<noteq> 0 \<and> lmbbase \<le> base
      then do { j \<leftarrow> lmb_overlaps_region (lmb_reserved l) base sz;
                (case j of
                   None \<Rightarrow>
                     do { (r, rgn) \<leftarrow> lmb_add_region (lmb_reserved l) base (lmb_align_up sz align);
                          Some (Some (if r < 0 then 0 else base, l\<lparr>lmb_reserved := rgn\<rparr>)) }
                 | Some i \<Rightarrow>
                     do { p \<leftarrow> rget (rg_region (lmb_reserved l)) i;
                          if lp_base p < sz then Some None
                          else alloc_loop l sz align lmbbase (lmb_align_down (lp_base p - sz) align) }) }
      else Some None)"

text \<open>Where the search in one memory region starts; none when the region is skipped.\<close>

definition alloc_start :: "lmb_property \<Rightarrow> u32 \<Rightarrow> u32 \<Rightarrow> u32 \<Rightarrow> u32 option" where
  "alloc_start p sz align max_addr =
     (if lp_size p < sz then None
      else if max_addr = LMB_ALLOC_ANYWHERE
      then Some (lmb_align_down (lp_base p + lp_size p - sz) align)
      else if lp_base p < max_addr
      then Some (lmb_align_down (min (lp_base p + lp_size p) max_addr - sz) align)
      else None)"

fun alloc_regions :: "lmb \<Rightarrow> u32 \<Rightarrow> u32 \<Rightarrow> u32 \<Rightarrow> nat \<Rightarrow> (u32 \<times> lmb) option" where
  "alloc_regions l sz align max_addr 0 = Some (0, l)"
| "alloc_regions l sz align max_addr (Suc i) =
     do { p \<leftarrow> rget (rg_region (lmb_memory l)) i;
          (case alloc_start p sz align max_addr of
             None \<Rightarrow> alloc_regions l sz align max_addr i
           | Some base \<Rightarrow>
               do { a \<leftarrow> alloc_loop l sz align (lp_base p) base;
                    (case a of None \<Rightarrow> alloc_regions l sz align max_addr i | Some r \<Rightarrow> Some r) }) }"

definition lmb_alloc_base :: "lmb \<Rightarrow> u32 \<Rightarrow> u32 \<Rightarrow> u32 \<Rightarrow> (u32 \<times> lmb) option" where
  "lmb_alloc_base l sz align max_addr = alloc_regions l sz align max_addr (rg_cnt (lmb_memory l))"

definition lmb_alloc :: "lmb \<Rightarrow> u32 \<Rightarrow> u32 \<Rightarrow> (u32 \<times> lmb) option" where
  "lmb_alloc l sz align = lmb_alloc_base l sz align LMB_ALLOC_ANYWHERE"

definition lmb_is_reserved :: "lmb \<Rightarrow> u32 \<Rightarrow> bool option" where
  "lmb_is_reserved l addr =
     do { f \<leftarrow> region_scan (\<lambda>p. lp_base p \<le> addr \<and> addr \<le> lp_base p + lp_size p - 1)
                 (rg_region (lmb_reserved l)) 0 (rg_cnt (lmb_reserved l));
          Some (f \<noteq> None) }"

section \<open>What a list of regions covers\<close>

abbreviation pbase :: "lmb_property \<Rightarrow> nat" where
  "pbase p \<equiv> unat (lp_base p)"

definition pend :: "lmb_property \<Rightarrow> nat" where
  "pend p = pbase p + unat (lp_size p)"

definition prange :: "lmb_property \<Rightarrow> nat set" where
  "prange p = {pbase p..<pend p}"

definition regs :: "lmb_region \<Rightarrow> lmb_property list" where
  "regs r = take (rg_cnt r) (rg_region r)"

definition covered :: "lmb_region \<Rightarrow> nat set" where
  "covered r = \<Union> (prange ` set (regs r))"

text \<open>A region that is not empty and ends below the top of the address space.\<close>

definition solid :: "lmb_property \<Rightarrow> bool" where
  "solid p \<longleftrightarrow> 0 < unat (lp_size p) \<and> pend p < 2 ^ 32"

definition apart :: "lmb_property list \<Rightarrow> bool" where
  "apart ps \<longleftrightarrow> sorted_wrt (\<lambda>p q. pend p \<le> pbase q) ps \<and> (\<forall>p \<in> set ps. solid p)"

text \<open>
  The invariant of a list: nine entries, one to eight in use, sorted and disjoint; or only the
  empty entry that \<open>lmb_init\<close> creates.
\<close>

definition rgn_shape :: "lmb_region \<Rightarrow> bool" where
  "rgn_shape r \<longleftrightarrow> length (rg_region r) = MAX_LMB_REGIONS + 1 \<and> 0 < rg_cnt r \<and> rg_cnt r \<le> MAX_LMB_REGIONS"

definition rgn_ok :: "lmb_region \<Rightarrow> bool" where
  "rgn_ok r \<longleftrightarrow> rgn_shape r \<and> apart (regs r)"

definition rgn_dummy :: "lmb_region \<Rightarrow> bool" where
  "rgn_dummy r \<longleftrightarrow> rgn_shape r \<and> rg_cnt r = 1 \<and> lp_size (rg_region r ! 0) = 0"

lemma unat_plus: "unat (a :: u32) + unat b < 2 ^ 32 \<Longrightarrow> unat (a + b) = unat a + unat b"
  using unat_add_lem [of a b] by simp

lemma solid_end:
  assumes "solid p"
  shows "unat (lp_base p + lp_size p) = pend p" and "pbase p < pend p"
  using assms by (auto simp: solid_def pend_def unat_plus)

lemma apart_append:
  "apart (xs @ ys) \<longleftrightarrow> apart xs \<and> apart ys \<and> (\<forall>x \<in> set xs. \<forall>y \<in> set ys. pend x \<le> pbase y)"
  by (auto simp: apart_def sorted_wrt_append)

lemma apart_Cons:
  "apart (p # ps) \<longleftrightarrow> solid p \<and> apart ps \<and> (\<forall>y \<in> set ps. pend p \<le> pbase y)"
  by (auto simp: apart_def)

lemma apart_Nil [simp]: "apart []"
  by (simp add: apart_def)

lemma disjoint_order:
  assumes "solid p" and "solid q" and "prange p \<inter> prange q = {}"
  shows "pend p \<le> pbase q \<or> pend q \<le> pbase p"
proof (rule ccontr)
  assume "\<not> ?thesis"
  then have "max (pbase p) (pbase q) \<in> prange p \<inter> prange q"
    using solid_end(2) [OF assms(1)] solid_end(2) [OF assms(2)] by (auto simp: prange_def)
  with assms(3) show False by blast
qed

section \<open>Adding a region\<close>

lemma rget_regs:
  assumes "rgn_shape r" and "i < rg_cnt r"
  shows "rget (rg_region r) i = Some (regs r ! i)" and "i < length (regs r)"
  using assms by (auto simp: rget_def regs_def rgn_shape_def)

lemma length_regs: "rgn_shape r \<Longrightarrow> length (regs r) = rg_cnt r"
  by (simp add: regs_def rgn_shape_def)

lemma remove_loop_list:
  assumes "i + n < length reg"
  shows "remove_loop reg i n = Some (take i reg @ take n (drop (Suc i) reg) @ drop (i + n) reg)"
  using assms
proof (induction n arbitrary: reg i)
  case (Suc n)
  let ?reg = "reg[i := reg ! Suc i]"
  have "remove_loop ?reg (Suc i) n = Some (take (Suc i) ?reg @ take n (drop (Suc (Suc i)) ?reg) @ drop (Suc i + n) ?reg)"
    using Suc.IH [of "Suc i" ?reg] Suc.prems by simp
  moreover have "take (Suc i) ?reg = take i reg @ [reg ! Suc i]"
    using Suc.prems by (simp add: take_Suc_conv_app_nth)
  moreover have "drop (Suc i) reg = reg ! Suc i # drop (Suc (Suc i)) reg"
    using Suc.prems by (simp add: Cons_nth_drop_Suc)
  ultimately show ?case using Suc.prems by (simp add: rget_def rput_def drop_update_cancel)
qed (simp add: append_take_drop_id)

lemma remove_region_list:
  assumes "rgn_shape r" and "regs r = xs @ p # ys"
  shows "\<exists>r'. lmb_remove_region r (length xs) = Some r' \<and> regs r' = xs @ ys \<and>
    length (rg_region r') = length (rg_region r) \<and> rg_cnt r' = rg_cnt r - 1"
proof -
  let ?reg = "rg_region r" and ?n = "rg_cnt r"
  have n: "?n = Suc (length xs + length ys)" using length_regs [OF assms(1)] assms(2) by simp
  have len: "?n < length ?reg" using assms(1) by (simp add: rgn_shape_def)
  have reg: "?reg = xs @ p # ys @ drop ?n ?reg"
    using assms(2) append_take_drop_id [of ?n ?reg] by (simp add: regs_def)
  have "take (length xs) ?reg = xs" "take (length ys) (drop (Suc (length xs)) ?reg) = ys"
    by (subst reg, simp)+
  moreover have "pred32 ?n - length xs = length ys" using n by (simp add: pred32_def)
  ultimately have "remove_loop ?reg (length xs) (pred32 ?n - length xs) =
      Some (xs @ ys @ drop (length xs + length ys) ?reg)"
    using remove_loop_list [of "length xs" "length ys" ?reg] len n by simp
  then show ?thesis using len n by (auto simp: lmb_remove_region_def regs_def pred32_def)
qed

lemma insert_loop_list:
  "\<exists>xs ys. ps = xs @ ys \<and> (\<forall>p \<in> set ys. base < lp_base p) \<and> (xs \<noteq> [] \<longrightarrow> \<not> base < lp_base (last xs)) \<and>
     insert_loop (ps @ x # rest) base sz (length ps) =
       Some (xs @ (if xs = [] then hd (ys @ [x]) else \<lparr>lp_base = base, lp_size = sz\<rparr>) # ys @ rest)"
proof (induction ps arbitrary: x rest rule: rev_induct)
  case (snoc p qs)
  show ?case
  proof (cases "base < lp_base p")
    case True
    obtain xs ys where "qs = xs @ ys" "\<forall>p \<in> set ys. base < lp_base p"
      "xs \<noteq> [] \<longrightarrow> \<not> base < lp_base (last xs)"
      "insert_loop (qs @ p # p # rest) base sz (length qs) =
       Some (xs @ (if xs = [] then hd (ys @ [p]) else \<lparr>lp_base = base, lp_size = sz\<rparr>) # ys @ p # rest)"
      using snoc.IH [of p "p # rest"] by blast
    with True show ?thesis
      by - (rule exI [of _ xs], rule exI [of _ "ys @ [p]"],
          auto simp: rget_def rput_def nth_append list_update_append hd_append)
  next
    case False
    then show ?thesis
      by - (rule exI [of _ "qs @ [p]"], rule exI [of _ "[]"],
          auto simp: rget_def rput_def nth_append list_update_append)
  qed
qed simp

lemma apart_insert:
  assumes "apart (xs @ ys)" and "solid p" and "\<forall>q \<in> set (xs @ ys). prange p \<inter> prange q = {}"
    and "\<forall>q \<in> set ys. pbase p < pbase q" and "xs \<noteq> [] \<longrightarrow> pbase (last xs) \<le> pbase p"
  shows "apart (xs @ p # ys)"
proof -
  have solid: "\<forall>q \<in> set (xs @ ys). solid q" using assms(1) by (simp add: apart_def)
  have right: "pend p \<le> pbase q" if "q \<in> set ys" for q
    using disjoint_order [of p q] assms(2,3,4) solid solid_end(2) [of q] that by fastforce
  have left: "pend q \<le> pbase p" if q: "q \<in> set xs" for q
  proof -
    obtain as l where xs: "xs = as @ [l]" using q by (cases xs rule: rev_cases) auto
    have "pbase q \<le> pbase p"
    proof (cases "q = l")
      case False
      then have "pend q \<le> pbase l" using q assms(1) by (auto simp: xs apart_append apart_Cons)
      then show ?thesis using assms(5) by (simp add: xs pend_def)
    qed (use assms(5) xs in simp)
    then show ?thesis
      using disjoint_order [of p q] assms(2,3) solid solid_end(2) [of p] that by fastforce
  qed
  show ?thesis using assms(1,2) left right by (auto simp: apart_append apart_Cons intro: order_trans)
qed

lemma insert_region_ok:
  assumes ok: "rgn_ok r" and p: "p = \<lparr>lp_base = base, lp_size = sz\<rparr>" "solid p"
    and disj: "prange p \<inter> covered r = {}"
  shows "\<exists>c r'. insert_region r base sz = Some (c, r') \<and>
    (if c < 0 then r' = r \<and> rg_cnt r = MAX_LMB_REGIONS
     else rgn_ok r' \<and> covered r' = covered r \<union> prange p)"
proof (cases "rg_cnt r \<ge> MAX_LMB_REGIONS")
  case True
  then show ?thesis using ok by (auto simp: insert_region_def rgn_ok_def rgn_shape_def)
next
  case False
  have shape: "rgn_shape r" and ap: "apart (regs r)" using ok by (auto simp: rgn_ok_def)
  let ?ps = "regs r" and ?n = "rg_cnt r"
  have n: "length ?ps = ?n" "0 < ?n" using length_regs [OF shape] shape by (auto simp: rgn_shape_def)
  obtain x rest where reg: "rg_region r = ?ps @ x # rest"
  proof -
    have "?n < length (rg_region r)" using shape by (simp add: rgn_shape_def)
    then show ?thesis using that [of "rg_region r ! ?n" "drop (Suc ?n) (rg_region r)"]
      by (simp add: regs_def id_take_nth_drop)
  qed
  obtain xs ys where xy: "?ps = xs @ ys" "\<forall>q \<in> set ys. base < lp_base q"
      "xs \<noteq> [] \<longrightarrow> \<not> base < lp_base (last xs)"
    and loop: "insert_loop (rg_region r) base sz ?n =
      Some (xs @ (if xs = [] then hd (ys @ [x]) else p) # ys @ rest)"
    using insert_loop_list [of ?ps base x rest sz] by (auto simp: reg n p)
  have ap': "apart (xs @ p # ys)"
    using apart_insert [of xs ys p] ap p disj xy
    by (auto simp: covered_def word_less_nat_alt not_less)
  have first: "\<not> base < lp_base (hd xs)" if "xs \<noteq> []"
    using ap' that by (cases xs) (auto simp: apart_Cons word_less_nat_alt p(1) pend_def)
  have "insert_region r base sz = Some (0, r\<lparr>rg_region := xs @ p # ys @ rest, rg_cnt := ?n + 1\<rparr>)"
  proof (cases xs)
    case Nil
    then obtain y ys' where "ys = y # ys'" using xy(1) n by (cases ys) auto
    then show ?thesis using False Nil loop xy(2) by (simp add: insert_region_def rget_def rput_def p(1))
  next
    case (Cons a xs')
    then show ?thesis using False loop first by (simp add: insert_region_def rget_def)
  qed
  moreover have "?n = length xs + length ys" using n(1) xy(1) by simp
  moreover have "length (xs @ p # ys @ rest) = length (rg_region r)" using reg xy(1) by simp
  ultimately show ?thesis using ap' shape False xy(1)
    by (auto simp: rgn_ok_def rgn_shape_def regs_def [of "r\<lparr>rg_region := v, rg_cnt := c\<rparr>" for v c] covered_def)
qed

lemma adj_loop_list:
  "\<exists>a. adj_loop (zs @ ps @ rest) base sz (length zs) (length ps) = Some a \<and>
    (case a of
       Have_it \<Rightarrow> \<lparr>lp_base = base, lp_size = sz\<rparr> \<in> set ps
     | Adj i p' \<Rightarrow> (\<exists>xs p ys. ps = xs @ p # ys \<and> i = length zs + length xs \<and>
         (lp_base p = base + sz \<and> p' = \<lparr>lp_base = lp_base p - sz, lp_size = lp_size p + sz\<rparr> \<or>
          base = lp_base p + lp_size p \<and> p' = p\<lparr>lp_size := lp_size p + sz\<rparr>))
     | No_adj i \<Rightarrow> i = length zs + length ps)"
proof (induction ps arbitrary: zs)
  case (Cons p ps)
  have get: "rget (zs @ (p # ps) @ rest) (length zs) = Some p" by (simp add: rget_def)
  consider "lp_base p = base \<and> lp_size p = sz"
    | "\<not> (lp_base p = base \<and> lp_size p = sz)" "lp_base p = base + sz \<or> base = lp_base p + lp_size p"
    | "\<not> (lp_base p = base \<and> lp_size p = sz)" "\<not> (lp_base p = base + sz \<or> base = lp_base p + lp_size p)"
    by blast
  then show ?case
  proof cases
    case 1
    then have "\<lparr>lp_base = base, lp_size = sz\<rparr> = p" by (cases p) auto
    with 1 get show ?thesis by simp
  next
    case 2
    then show ?thesis using get
      by (auto simp: lmb_addrs_adjacent_def Let_def intro!: exI [of _ "[]"])
  next
    case 3
    obtain a where a: "adj_loop ((zs @ [p]) @ ps @ rest) base sz (length (zs @ [p])) (length ps) = Some a"
      and post: "case a of
       Have_it \<Rightarrow> \<lparr>lp_base = base, lp_size = sz\<rparr> \<in> set ps
     | Adj i p' \<Rightarrow> (\<exists>xs p1 ys. ps = xs @ p1 # ys \<and> i = length (zs @ [p]) + length xs \<and>
         (lp_base p1 = base + sz \<and> p' = \<lparr>lp_base = lp_base p1 - sz, lp_size = lp_size p1 + sz\<rparr> \<or>
          base = lp_base p1 + lp_size p1 \<and> p' = p1\<lparr>lp_size := lp_size p1 + sz\<rparr>))
     | No_adj i \<Rightarrow> i = length (zs @ [p]) + length ps"
      using Cons.IH [of "zs @ [p]"] by blast
    have "adj_loop (zs @ (p # ps) @ rest) base sz (length zs) (length (p # ps)) = Some a"
      using 3 get a by (auto simp: lmb_addrs_adjacent_def Let_def)
    moreover have "case a of
       Have_it \<Rightarrow> \<lparr>lp_base = base, lp_size = sz\<rparr> \<in> set (p # ps)
     | Adj i p' \<Rightarrow> (\<exists>xs p1 ys. p # ps = xs @ p1 # ys \<and> i = length zs + length xs \<and>
         (lp_base p1 = base + sz \<and> p' = \<lparr>lp_base = lp_base p1 - sz, lp_size = lp_size p1 + sz\<rparr> \<or>
          base = lp_base p1 + lp_size p1 \<and> p' = p1\<lparr>lp_size := lp_size p1 + sz\<rparr>))
     | No_adj i \<Rightarrow> i = length zs + length (p # ps)"
    proof (cases a)
      case (Adj i p')
      with post obtain xs p1 ys where "ps = xs @ p1 # ys" "i = length zs + length (p # xs)"
        "lp_base p1 = base + sz \<and> p' = \<lparr>lp_base = lp_base p1 - sz, lp_size = lp_size p1 + sz\<rparr> \<or>
          base = lp_base p1 + lp_size p1 \<and> p' = p1\<lparr>lp_size := lp_size p1 + sz\<rparr>"
        by auto
      then show ?thesis unfolding Adj adj.case
        by - (rule exI [of _ "p # xs"], rule exI [of _ p1], rule exI [of _ ys], simp)
    qed (use post in simp_all)
    ultimately show ?thesis by blast
  qed
qed simp

lemma regs_update:
  assumes "rgn_shape r" and "regs r = xs @ p # ys"
  shows "regs (r\<lparr>rg_region := (rg_region r)[length xs := q]\<rparr>) = xs @ q # ys"
    and "rgn_shape (r\<lparr>rg_region := (rg_region r)[length xs := q]\<rparr>)"
  using assms by (auto simp: regs_def rgn_shape_def take_update_swap list_update_append)

text \<open>Replacing a region by a larger one that takes only free addresses keeps the list apart.\<close>

lemma apart_grow:
  assumes "apart (xs @ p # ys)" and "solid p'" and "prange p' = prange p \<union> N"
    and "\<forall>q \<in> set (xs @ ys). N \<inter> prange q = {}"
  shows "apart (xs @ p' # ys)"
proof -
  have sol: "solid q" if "q \<in> set (xs @ p # ys)" for q using assms(1) that by (auto simp: apart_def)
  have inp: "pbase p \<in> prange p'" using sol [of p] solid_end(2) [of p] assms(3) by (auto simp: prange_def)
  then have p': "pbase p' \<le> pbase p" "pbase p < pend p'" by (auto simp: prange_def)
  have dis: "prange p' \<inter> prange q = {}" if "q \<in> set (xs @ ys)" for q
    using that assms(1,3,4) by (force simp: apart_append apart_Cons prange_def)
  have "pend x \<le> pbase p'" if "x \<in> set xs" for x
  proof -
    have "pend x \<le> pbase p" "solid x" using assms(1) that sol by (auto simp: apart_append)
    then show ?thesis using disjoint_order [OF assms(2), of x] dis [of x] that p' solid_end(2) [of x] by auto
  qed
  moreover have "pend p' \<le> pbase y" if "y \<in> set ys" for y
  proof -
    have "pend p \<le> pbase y" "solid y" using assms(1) that sol by (auto simp: apart_append apart_Cons)
    then show ?thesis using disjoint_order [OF assms(2), of y] dis [of y] that p' solid_end(2) [of y] by (auto simp: pend_def)
  qed
  ultimately show ?thesis using assms(1,2) by (auto simp: apart_append apart_Cons)
qed

lemma join_ranges:
  assumes "solid p" and "solid q" and "pend p = pbase q"
  defines "j \<equiv> \<lparr>lp_base = lp_base p, lp_size = lp_size p + lp_size q\<rparr>"
  shows "solid j" and "prange j = prange p \<union> prange q" and "pend j = pend q"
proof -
  have "unat (lp_size p + lp_size q) = unat (lp_size p) + unat (lp_size q)"
    using assms by (intro unat_plus) (simp add: solid_def pend_def)
  then show "solid j" "prange j = prange p \<union> prange q" "pend j = pend q"
    using assms by (auto simp: solid_def pend_def prange_def)
qed

lemma merge_next_ok:
  assumes ok: "rgn_ok r"
  shows "\<exists>c r'. merge_next r i = Some (c, r') \<and> 0 \<le> c \<and> (c = 0 \<longrightarrow> r' = r) \<and> rgn_ok r' \<and> covered r' = covered r \<and>
    (i = rg_cnt r \<longrightarrow> c = 0)"
proof (cases "i < rg_cnt r - 1")
  case True
  have shape: "rgn_shape r" and ap: "apart (regs r)" using ok by (auto simp: rgn_ok_def)
  then have cnt: "pred32 (rg_cnt r) = rg_cnt r - 1" by (simp add: pred32_def rgn_shape_def)
  let ?p = "regs r ! i" and ?q = "regs r ! Suc i" and ?xs = "take i (regs r)" and ?ys = "drop (i + 2) (regs r)"
  have rs: "regs r = ?xs @ ?p # ?q # ?ys"
    using True length_regs [OF shape] by (simp add: Cons_nth_drop_Suc id_take_nth_drop [symmetric])
  have len: "length ?xs = i" using True length_regs [OF shape] by simp
  have get: "rget (rg_region r) i = Some ?p" "rget (rg_region r) (Suc i) = Some ?q"
    using rget_regs [OF shape] True by auto
  have apq: "apart (?xs @ ?p # ?q # ?ys)" using ap rs by simp
  then have pq: "solid ?p" "solid ?q" "pend ?p \<le> pbase ?q" by (auto simp: apart_append apart_Cons)
  define j where "j = \<lparr>lp_base = lp_base ?p, lp_size = lp_size ?p + lp_size ?q\<rparr>"
  show ?thesis
  proof (cases "lp_base ?q = lp_base ?p + lp_size ?p")
    case adj: True
    then have touch: "pend ?p = pbase ?q" using solid_end(1) [OF pq(1)] by metis
    note jr = join_ranges [OF pq(1,2) touch, folded j_def]
    let ?r = "r\<lparr>rg_region := (rg_region r)[i := j]\<rparr>"
    have upd: "regs ?r = ?xs @ j # ?q # ?ys" "rgn_shape ?r"
      using regs_update [OF shape rs] len by auto
    obtain r' where r': "lmb_remove_region ?r (length (?xs @ [j])) = Some r'" "regs r' = (?xs @ [j]) @ ?ys"
      "length (rg_region r') = length (rg_region ?r)" "rg_cnt r' = rg_cnt ?r - 1"
      using remove_region_list [OF upd(2), of "?xs @ [j]" ?q ?ys] upd(1) by auto
    have "?p\<lparr>lp_size := lp_size ?p + lp_size ?q\<rparr> = j" by (simp add: j_def)
    then have "merge_next r i = Some (1, r')"
      using True get adj r'(1) len rget_regs(2) [OF shape, of i] shape
      by (simp add: merge_next_def cnt lmb_regions_adjacent_def lmb_addrs_adjacent_def lmb_coalesce_regions_def
          rput_def regs_def)
    moreover have "rgn_ok r'"
    proof -
      have "apart (?xs @ j # ?ys)"
        using apq jr touch by (auto simp: apart_append apart_Cons j_def)
      then show ?thesis using r' shape True by (auto simp: rgn_ok_def rgn_shape_def)
    qed
    moreover have "covered r' = covered r"
      by (subst (2) covered_def, subst rs) (auto simp: covered_def r'(2) jr)
    ultimately show ?thesis using True by auto
  next
    case False
    have "lp_base ?p \<noteq> lp_base ?q + lp_size ?q"
      using pq solid_end [of ?q] solid_end [of ?p] by fastforce
    with False True get show ?thesis using ok
      by (simp add: merge_next_def cnt lmb_regions_adjacent_def lmb_addrs_adjacent_def)
  qed
next
  case False
  then show ?thesis using ok by (auto simp: merge_next_def pred32_def rgn_ok_def rgn_shape_def)
qed

lemma extend_region:
  assumes "apart (xs @ p # ys)" and n: "n = \<lparr>lp_base = base, lp_size = sz\<rparr>" "solid n"
    and disj: "\<forall>q \<in> set (xs @ p # ys). prange n \<inter> prange q = {}"
    and adj: "lp_base p = base + sz \<and> p' = \<lparr>lp_base = lp_base p - sz, lp_size = lp_size p + sz\<rparr> \<or>
      base = lp_base p + lp_size p \<and> p' = p\<lparr>lp_size := lp_size p + sz\<rparr>"
  shows "apart (xs @ p' # ys)" and "prange p' = prange p \<union> prange n"
proof -
  have p: "solid p" using assms(1) by (simp add: apart_append apart_Cons)
  have p': "solid p' \<and> prange p' = prange p \<union> prange n"
    using adj
  proof
    assume a: "lp_base p = base + sz \<and> p' = \<lparr>lp_base = lp_base p - sz, lp_size = lp_size p + sz\<rparr>"
    then have "pend n = pbase p" using solid_end(1) [OF n(2)] by (simp add: n(1))
    moreover have "p' = \<lparr>lp_base = lp_base n, lp_size = lp_size n + lp_size p\<rparr>"
      using a by (simp add: n(1) add.commute)
    ultimately show ?thesis using join_ranges [OF n(2) p] by auto
  next
    assume a: "base = lp_base p + lp_size p \<and> p' = p\<lparr>lp_size := lp_size p + sz\<rparr>"
    then have "pend p = pbase n" using solid_end(1) [OF p] by (simp add: n(1))
    moreover have "p' = \<lparr>lp_base = lp_base p, lp_size = lp_size p + lp_size n\<rparr>"
      using a by (simp add: n(1))
    ultimately show ?thesis using join_ranges [OF p n(2)] by auto
  qed
  then show "prange p' = prange p \<union> prange n" by simp
  show "apart (xs @ p' # ys)" using apart_grow [OF assms(1), of p' "prange n"] p' disj by auto
qed

lemma rgn_shape_split:
  assumes "rgn_shape r"
  shows "rg_region r = regs r @ drop (rg_cnt r) (rg_region r)" and "rget (rg_region r) 0 = Some (regs r ! 0)"
  using assms by (auto simp: regs_def rgn_shape_def rget_def)

lemma lmb_add_region_ok:
  assumes ok: "rgn_ok r" and n: "n = \<lparr>lp_base = base, lp_size = sz\<rparr>" "solid n"
    and disj: "prange n \<inter> covered r = {}"
  shows "\<exists>c r'. lmb_add_region r base sz = Some (c, r') \<and>
    (if c < 0 then r' = r \<and> rg_cnt r = MAX_LMB_REGIONS
     else rgn_ok r' \<and> covered r' = covered r \<union> prange n)"
proof -
  have shape: "rgn_shape r" and ap: "apart (regs r)" using ok by (auto simp: rgn_ok_def)
  have "regs r ! 0 \<in> set (regs r)" using length_regs [OF shape] shape by (auto simp: rgn_shape_def)
  then have "0 < unat (lp_size (regs r ! 0))" using ap by (auto simp: apart_def solid_def)
  then have first: "lp_size (regs r ! 0) \<noteq> 0" by auto
  obtain a where a: "adj_loop (rg_region r) base sz 0 (rg_cnt r) = Some a"
    and post: "case a of
       Have_it \<Rightarrow> n \<in> set (regs r)
     | Adj i p' \<Rightarrow> (\<exists>xs p ys. regs r = xs @ p # ys \<and> i = length xs \<and>
         (lp_base p = base + sz \<and> p' = \<lparr>lp_base = lp_base p - sz, lp_size = lp_size p + sz\<rparr> \<or>
          base = lp_base p + lp_size p \<and> p' = p\<lparr>lp_size := lp_size p + sz\<rparr>))
     | No_adj i \<Rightarrow> i = rg_cnt r"
    using adj_loop_list [of "[]" "regs r" "drop (rg_cnt r) (rg_region r)" base sz]
    unfolding append_Nil list.size(3) add_0 rgn_shape_split(1) [OF shape, symmetric] length_regs [OF shape] n(1)
    by blast
  note start = lmb_add_region_def rgn_shape_split(2) [OF shape] first a
  show ?thesis
  proof (cases a)
    case Have_it
    then have "prange n \<subseteq> covered r" using post by (auto simp: covered_def)
    moreover have "pbase n \<in> prange n" using solid_end(2) [OF n(2)] by (simp add: prange_def)
    ultimately show ?thesis using disj by blast
  next
    case (Adj i p')
    with post obtain xs p ys where xy: "regs r = xs @ p # ys" "i = length xs"
      "lp_base p = base + sz \<and> p' = \<lparr>lp_base = lp_base p - sz, lp_size = lp_size p + sz\<rparr> \<or>
          base = lp_base p + lp_size p \<and> p' = p\<lparr>lp_size := lp_size p + sz\<rparr>" by auto
    let ?r = "r\<lparr>rg_region := (rg_region r)[i := p']\<rparr>"
    have "\<forall>q \<in> set (xs @ p # ys). prange n \<inter> prange q = {}"
      using disj xy(1) by (auto simp: covered_def)
    note ext = extend_region [OF ap [unfolded xy(1)] n this xy(3)]
    have "rgn_ok ?r" and cov: "covered ?r = covered r \<union> prange n"
      using regs_update [OF shape xy(1), of p'] ext xy(1,2) by (auto simp: rgn_ok_def covered_def)
    then obtain c r' where "merge_next ?r i = Some (c, r')" "0 \<le> c" "rgn_ok r'" "covered r' = covered ?r"
      using merge_next_ok by blast
    then show ?thesis using cov Adj by (auto simp: start)
  next
    case (No_adj i)
    then have i: "i = rg_cnt r" using post by simp
    then have "merge_next r i = Some (0, r)" using merge_next_ok [OF ok, of i] by auto
    then show ?thesis using insert_region_ok [OF ok n disj] No_adj by (simp add: start)
  qed
qed

lemma lmb_add_region_dummy:
  assumes "rgn_dummy r" and n: "n = \<lparr>lp_base = base, lp_size = sz\<rparr>" "solid n"
  shows "\<exists>r'. lmb_add_region r base sz = Some (0, r') \<and> rgn_ok r' \<and> covered r' = prange n" "covered r = {}"
proof -
  have shape: "rgn_shape r" and one: "rg_cnt r = 1" "lp_size (rg_region r ! 0) = 0"
    using assms(1) by (auto simp: rgn_dummy_def)
  obtain p where p: "regs r = [p]" using length_regs [OF shape] one by (cases "regs r") auto
  moreover have "rg_region r ! 0 = regs r ! 0" using shape one by (simp add: regs_def rgn_shape_def)
  ultimately have "lp_size p = 0" using one by simp
  then show "covered r = {}" by (simp add: covered_def p prange_def pend_def)
  show "\<exists>r'. lmb_add_region r base sz = Some (0, r') \<and> rgn_ok r' \<and> covered r' = prange n"
    using regs_update [OF shape, of "[]" p "[]" n] p \<open>lp_size p = 0\<close> n one
    by (auto simp: lmb_add_region_def rgn_shape_split(2) [OF shape] rgn_ok_def apart_Cons covered_def)
qed

section \<open>Looking for a region\<close>

lemma region_scan_list:
  "\<exists>f. region_scan P (zs @ ps @ rest) (length zs) (length ps) = Some f \<and>
    (case f of None \<Rightarrow> \<forall>p \<in> set ps. \<not> P p
     | Some i \<Rightarrow> \<exists>xs p ys. ps = xs @ p # ys \<and> i = length zs + length xs \<and> P p \<and> (\<forall>q \<in> set xs. \<not> P q))"
proof (induction ps arbitrary: zs)
  case (Cons p ps)
  show ?case
  proof (cases "P p")
    case True
    then show ?thesis by (auto simp: rget_def intro!: exI [of _ "[]"])
  next
    case False
    obtain f where f: "region_scan P ((zs @ [p]) @ ps @ rest) (length (zs @ [p])) (length ps) = Some f"
      "case f of None \<Rightarrow> \<forall>p \<in> set ps. \<not> P p
       | Some i \<Rightarrow> \<exists>xs q ys. ps = xs @ q # ys \<and> i = length (zs @ [p]) + length xs \<and> P q \<and> (\<forall>q \<in> set xs. \<not> P q)"
      using Cons.IH [of "zs @ [p]"] by blast
    have "region_scan P (zs @ (p # ps) @ rest) (length zs) (length (p # ps)) = Some f"
      using False f(1) by (simp add: rget_def)
    moreover have "\<exists>xs q ys. p # ps = xs @ q # ys \<and> length (zs @ [p]) + length as = length zs + length xs \<and> P q \<and>
        (\<forall>q \<in> set xs. \<not> P q)" if "ps = as @ b # cs" "P b" "\<forall>q \<in> set as. \<not> P q" for as b cs
      using that False by - (rule exI [of _ "p # as"], rule exI [of _ b], rule exI [of _ cs], simp)
    ultimately show ?thesis using f(2) False by (cases f) auto
  qed
qed simp

lemma region_scan_regs:
  assumes "rgn_shape r"
  obtains f where "region_scan P (rg_region r) 0 (rg_cnt r) = Some f"
    and "f = None \<Longrightarrow> \<forall>p \<in> set (regs r). \<not> P p"
    and "\<And>i. f = Some i \<Longrightarrow> \<exists>xs p ys. regs r = xs @ p # ys \<and> i = length xs \<and> P p \<and>
      rget (rg_region r) i = Some p"
proof -
  obtain f where f: "region_scan P (rg_region r) 0 (rg_cnt r) = Some f"
    "case f of None \<Rightarrow> \<forall>p \<in> set (regs r). \<not> P p
     | Some i \<Rightarrow> \<exists>xs p ys. regs r = xs @ p # ys \<and> i = length xs \<and> P p \<and> (\<forall>q \<in> set xs. \<not> P q)"
    using region_scan_list [of P "[]" "regs r" "drop (rg_cnt r) (rg_region r)"]
    unfolding append_Nil list.size(3) add_0 rgn_shape_split(1) [OF assms, symmetric] length_regs [OF assms] by blast
  show thesis
  proof (rule that [OF f(1)])
    fix i assume "f = Some i"
    then obtain xs p ys where xy: "regs r = xs @ p # ys" "i = length xs" "P p" using f(2) by auto
    then have "i < rg_cnt r" using length_regs [OF assms] by simp
    then have "rget (rg_region r) i = Some p" using rget_regs(1) [OF assms] xy by simp
    with xy show "\<exists>xs p ys. regs r = xs @ p # ys \<and> i = length xs \<and> P p \<and> rget (rg_region r) i = Some p" by blast
  qed (use f(2) in simp)
qed

lemma overlap_iff:
  assumes "pend p < 2 ^ 32" and "unat base + unat sz < 2 ^ 32"
  shows "lmb_addrs_overlap base sz (lp_base p) (lp_size p) \<longleftrightarrow> unat base < pend p \<and> pbase p < unat base + unat sz"
  using assms by (simp add: lmb_addrs_overlap_def word_less_nat_alt pend_def unat_plus)

section \<open>Freeing\<close>

lemma apart_shrink:
  assumes "apart (xs @ p # ys)" and "solid p'" and "pbase p \<le> pbase p'" and "pend p' \<le> pend p"
  shows "apart (xs @ p' # ys)"
  using assms by (force simp: apart_append apart_Cons)

lemma covered_split:
  assumes "apart (regs r)" and "regs r = xs @ p # ys"
  defines "os \<equiv> \<Union> (prange ` set (xs @ ys))"
  shows "covered r = prange p \<union> os" and "prange p \<inter> os = {}"
proof -
  show "covered r = prange p \<union> os" by (auto simp: covered_def os_def assms(2))
  have "prange p \<inter> prange q = {}" if "q \<in> set (xs @ ys)" for q
    using assms(1) that unfolding assms(2) by (auto simp: apart_append apart_Cons prange_def pend_def)
  then show "prange p \<inter> os = {}" by (auto simp: os_def)
qed

lemma unat_minus: "(b :: u32) \<le> a \<Longrightarrow> unat (a - b) = unat a - unat b"
  by (simp add: unat_sub)

lemma rgn_ok_replace:
  assumes "rgn_ok r" and "regs r = xs @ p # ys" and "solid p'" and "pbase p \<le> pbase p'" and "pend p' \<le> pend p"
  defines "r' \<equiv> r\<lparr>rg_region := (rg_region r)[length xs := p']\<rparr>"
  shows "rgn_ok r'" and "covered r' = prange p' \<union> (covered r - prange p)"
proof -
  have ap: "apart (regs r)" and shape: "rgn_shape r" using assms(1) by (auto simp: rgn_ok_def)
  note upd = regs_update [OF shape assms(2), of p', folded r'_def]
  have ap': "apart (regs r')" using apart_shrink [of xs p ys p'] ap assms(2-5) upd by simp
  then show "rgn_ok r'" using upd by (simp add: rgn_ok_def)
  show "covered r' = prange p' \<union> (covered r - prange p)"
  proof -
    define os where "os = \<Union> (prange ` set (xs @ ys))"
    have "covered r = prange p \<union> os" "prange p \<inter> os = {}" "covered r' = prange p' \<union> os"
      using covered_split [OF ap assms(2)] covered_split(1) [OF ap' upd(1)] unfolding os_def by auto
    then show ?thesis by blast
  qed
qed

text \<open>The four ways to cut \<open>n\<close> out of the region \<open>p\<close> that holds it.\<close>

lemma cut_region:
  assumes "solid p" and "solid n" and "pbase p \<le> pbase n" and "pend n \<le> pend p"
  defines "e \<equiv> lp_base n + lp_size n" and "pe \<equiv> lp_base p + lp_size p"
  shows "lp_base p = lp_base n \<Longrightarrow> pe = e \<Longrightarrow> prange p = prange n"
    and "lp_base p = lp_base n \<Longrightarrow> pe \<noteq> e \<Longrightarrow> q = \<lparr>lp_base = e, lp_size = lp_size p - lp_size n\<rparr> \<Longrightarrow>
      solid q \<and> pbase p \<le> pbase q \<and> pend q \<le> pend p \<and> prange q = prange p - prange n"
    and "lp_base p \<noteq> lp_base n \<Longrightarrow> pe = e \<Longrightarrow> q = p\<lparr>lp_size := lp_size p - lp_size n\<rparr> \<Longrightarrow>
      solid q \<and> pbase p \<le> pbase q \<and> pend q \<le> pend p \<and> prange q = prange p - prange n"
    and "lp_base p \<noteq> lp_base n \<Longrightarrow> pe \<noteq> e \<Longrightarrow> q = p\<lparr>lp_size := lp_base n - lp_base p\<rparr> \<Longrightarrow>
      t = \<lparr>lp_base = e, lp_size = pe - e\<rparr> \<Longrightarrow>
      solid q \<and> solid t \<and> pbase p \<le> pbase q \<and> pend q \<le> pend p \<and> prange t \<subseteq> prange p \<and>
      prange q \<union> prange t = prange p - prange n \<and> prange q \<inter> prange t = {} \<and>
      prange q = prange p - {pbase n..<pend p}"
proof -
  have u: "unat e = pend n" "unat pe = pend p"
    using solid_end(1) [OF assms(2)] solid_end(1) [OF assms(1)] by (simp_all add: e_def pe_def)
  have lt: "pbase n < pend n" "pend n < 2 ^ 32" "pend p < 2 ^ 32" using assms(1,2) solid_end(2) by (auto simp: solid_def)
  have base: "lp_base p = lp_base n \<longleftrightarrow> pbase p = pbase n" by (simp add: word_unat_eq_iff)
  have pe: "pe = e \<longleftrightarrow> pend p = pend n" using u by (simp add: word_unat_eq_iff)
  have sz: "lp_base p = lp_base n \<or> pe = e \<Longrightarrow> unat (lp_size p - lp_size n) = unat (lp_size p) - unat (lp_size n)"
    using assms(3,4) base pe by (intro unat_minus) (auto simp: word_le_nat_alt pend_def)
  show "prange p = prange n" if "lp_base p = lp_base n" "pe = e"
    using that pe by (simp add: prange_def)
  show "solid q \<and> pbase p \<le> pbase q \<and> pend q \<le> pend p \<and> prange q = prange p - prange n"
    if "lp_base p = lp_base n" "pe \<noteq> e" "q = \<lparr>lp_base = e, lp_size = lp_size p - lp_size n\<rparr>"
    using that sz u pe lt assms(4) by (auto simp: solid_def prange_def pend_def)
  show "solid q \<and> pbase p \<le> pbase q \<and> pend q \<le> pend p \<and> prange q = prange p - prange n"
    if "lp_base p \<noteq> lp_base n" "pe = e" "q = p\<lparr>lp_size := lp_size p - lp_size n\<rparr>"
    using that sz pe base lt assms(3) by (auto simp: solid_def prange_def pend_def)
  show "solid q \<and> solid t \<and> pbase p \<le> pbase q \<and> pend q \<le> pend p \<and> prange t \<subseteq> prange p \<and>
      prange q \<union> prange t = prange p - prange n \<and> prange q \<inter> prange t = {} \<and>
      prange q = prange p - {pbase n..<pend p}"
    if c: "lp_base p \<noteq> lp_base n" "pe \<noteq> e" and q: "q = p\<lparr>lp_size := lp_base n - lp_base p\<rparr>"
      and t: "t = \<lparr>lp_base = e, lp_size = pe - e\<rparr>"
  proof -
    have "unat (lp_base n - lp_base p) = pbase n - pbase p" using assms(3) by (intro unat_minus) (simp add: word_le_nat_alt)
    then have pq: "pbase q = pbase p" "pend q = pbase n" using assms(3) by (simp_all add: q pend_def)
    have "unat (pe - e) = pend p - pend n" using assms(4) u unat_minus [of e pe] by (simp add: word_le_nat_alt)
    then have pt: "pbase t = pend n" "pend t = pend p" using assms(4) u by (simp_all add: t pend_def)
    have "solid q" "solid t" using c base pe pq pt assms(3,4) lt by (auto simp: solid_def pend_def)
    then show ?thesis using pq pt assms(3,4) lt by (auto simp: prange_def)
  qed
qed

lemma free_whole:
  assumes ok: "rgn_ok r" and xy: "regs r = xs @ p # ys"
  shows "\<exists>r'. lmb_remove_region r (length xs) = Some r' \<and> (rgn_ok r' \<or> rg_cnt r' = 0) \<and>
    covered r' = covered r - prange p"
proof -
  have shape: "rgn_shape r" and ap: "apart (regs r)" using ok by (auto simp: rgn_ok_def)
  obtain r' where r': "lmb_remove_region r (length xs) = Some r'" "regs r' = xs @ ys"
    "length (rg_region r') = length (rg_region r)" "rg_cnt r' = rg_cnt r - 1"
    using remove_region_list [OF shape xy] by blast
  have "apart (regs r')" using ap by (auto simp: xy r'(2) apart_append apart_Cons)
  then have "rgn_ok r' \<or> rg_cnt r' = 0" using r'(3,4) shape by (auto simp: rgn_ok_def rgn_shape_def)
  moreover have "covered r' = covered r - prange p"
    using covered_split [OF ap xy] by (auto simp: covered_def [of r'] r'(2))
  ultimately show ?thesis using r'(1) by blast
qed

text \<open>Splitting region \<open>p\<close> into \<open>q\<close> and \<open>t\<close> fails only when the list is full, and then \<open>t\<close> is lost.\<close>

lemma free_hole:
  assumes ok: "rgn_ok r" and xy: "regs r = xs @ p # ys" and "solid q" "solid t" "pbase p \<le> pbase q" "pend q \<le> pend p"
    and sub: "prange t \<subseteq> prange p" and disj: "prange q \<inter> prange t = {}"
  defines "r1 \<equiv> r\<lparr>rg_region := (rg_region r)[length xs := q]\<rparr>"
  shows "\<exists>c r'. lmb_add_region r1 (lp_base t) (lp_size t) = Some (c, r') \<and>
    (if c < 0 then rg_cnt r = MAX_LMB_REGIONS \<and> covered r' = prange q \<union> (covered r - prange p)
     else rgn_ok r' \<and> covered r' = prange q \<union> prange t \<union> (covered r - prange p))"
proof -
  note r1 = rgn_ok_replace [OF ok xy assms(3,5,6), folded r1_def]
  have "prange t \<inter> covered r1 = {}" using r1(2) sub disj by auto
  moreover have "t = \<lparr>lp_base = lp_base t, lp_size = lp_size t\<rparr>" by simp
  ultimately obtain c r' where "lmb_add_region r1 (lp_base t) (lp_size t) = Some (c, r')"
    "if c < 0 then r' = r1 \<and> rg_cnt r1 = MAX_LMB_REGIONS else rgn_ok r' \<and> covered r' = covered r1 \<union> prange t"
    using lmb_add_region_ok [OF r1(1) _ assms(4)] by blast
  then show ?thesis using r1(2) by (auto simp: r1_def split: if_splits)
qed

lemma free_at_ok:
  assumes ok: "rgn_ok r" and n: "n = \<lparr>lp_base = base, lp_size = sz\<rparr>" "solid n"
    and xy: "regs r = xs @ p # ys" and pn: "prange n \<subseteq> prange p"
  shows "\<exists>c r'. free_at r (length xs) base sz = Some (c, r') \<and>
    (if c < 0 then rg_cnt r = MAX_LMB_REGIONS \<and> covered r' = covered r - {pbase n..<pend p}
     else (rgn_ok r' \<or> rg_cnt r' = 0) \<and> covered r' = covered r - prange n)"
proof -
  have shape: "rgn_shape r" and p: "solid p" "p \<in> set (regs r)"
    using ok by (auto simp: rgn_ok_def apart_def xy)
  have le: "pbase p \<le> pbase n" "pend n \<le> pend p" using pn solid_end(2) [OF n(2)] by (auto simp: prange_def)
  have "length xs < rg_cnt r" using length_regs [OF shape] xy by simp
  then have get: "rget (rg_region r) (length xs) = Some p" using rget_regs(1) [OF shape] by (simp add: xy)
  have pc: "prange p \<subseteq> covered r" using p(2) by (auto simp: covered_def)
  note cut = cut_region [OF p(1) n(2) le] and rep = rgn_ok_replace [OF ok xy]
  note start = free_at_def get Let_def
  have ln: "lp_base n = base" "lp_size n = sz" by (simp_all add: n(1))
  let ?e = "base + sz"
  show ?thesis
  proof (cases "lp_base p = base"; cases "lp_base p + lp_size p = ?e")
    assume b: "lp_base p = base" "lp_base p + lp_size p = ?e"
    then show ?thesis using free_whole [OF ok xy] cut(1) ln by (auto simp: start)
  next
    assume b: "lp_base p = base" "lp_base p + lp_size p \<noteq> ?e"
    note q = cut(2) [unfolded ln, OF b refl]
    show ?thesis using rep q b pn pc by (auto simp: start)
  next
    assume b: "lp_base p \<noteq> base" "lp_base p + lp_size p = ?e"
    note q = cut(3) [unfolded ln, OF b refl]
    show ?thesis using rep q b pn pc by (auto simp: start)
  next
    assume b: "lp_base p \<noteq> base" "lp_base p + lp_size p \<noteq> ?e"
    let ?q = "p\<lparr>lp_size := base - lp_base p\<rparr>" and ?t = "\<lparr>lp_base = ?e, lp_size = lp_base p + lp_size p - ?e\<rparr>"
    note q = cut(4) [unfolded ln, OF b refl refl]
    obtain c r' where c: "free_at r (length xs) base sz = Some (c, r')"
      "if c < 0 then rg_cnt r = MAX_LMB_REGIONS \<and> covered r' = prange ?q \<union> (covered r - prange p)
       else rgn_ok r' \<and> covered r' = prange ?q \<union> prange ?t \<union> (covered r - prange p)"
      using free_hole [OF ok xy, of ?q ?t] q b by (auto simp: start)
    moreover have "prange ?q \<union> (covered r - prange p) = covered r - {pbase n..<pend p}"
      using q pc le ln by (auto simp: prange_def)
    moreover have "prange ?q \<union> prange ?t \<union> (covered r - prange p) = covered r - prange n"
      using q pc pn by blast
    ultimately show ?thesis by auto
  qed
qed

end
