(* ===== verification/Lmb_Alloc.thy ===== *)
theory Lmb_Alloc
  imports Lmb
begin

text \<open>
  Properties of the memory block lists of theory \<open>Lmb\<close>: what reserving, freeing and allocating do
  to the set of reserved addresses, the contract of a block allocator with its client lemma (the
  blocks of a sequence of fair requests are disjoint), and the places where the code breaks its
  own promises.
\<close>

section \<open>Alignment\<close>

lemma align_down_le: "lmb_align_down a m \<le> a"
  by (simp add: lmb_align_down_def word_and_le2)

lemma align_down_dvd:
  assumes "k < 32"
  shows "2 ^ k dvd unat (lmb_align_down a (2 ^ k))"
proof -
  have "take_bit k (lmb_align_down a (2 ^ k)) = 0"
    by (rule bit_eqI) (auto simp: lmb_align_down_def bit_simps mask_eq_exp_minus_1 [symmetric])
  then have "take_bit k (unat (lmb_align_down a (2 ^ k))) = 0"
    by (metis unsigned_take_bit_eq unsigned_0)
  then show ?thesis by (simp add: take_bit_eq_0_iff)
qed

lemma align_up_same:
  assumes "k < 32" and "2 ^ k dvd unat sz"
  shows "lmb_align_up sz (2 ^ k) = sz"
proof -
  have "take_bit k (unat sz) = 0" using assms(2) by (simp add: take_bit_eq_0_iff)
  then have "take_bit k sz = 0" by (metis unsigned_take_bit_eq unsigned_0 unsigned_word_eqI)
  then have low: "\<not> bit sz i" if "i < k" for i
    using that by (metis bit_take_bit_iff bit_0_eq bot_apply bot_bool_def)
  have "sz AND mask k = 0" using \<open>take_bit k sz = 0\<close> by (simp add: take_bit_eq_mask)
  then have "sz + mask k = sz OR mask k" by (rule disjunctive_add_eq_or)
  moreover have "(sz OR mask k) AND NOT (mask k) = sz"
    by (rule bit_eqI) (use low in \<open>auto simp: bit_simps dest: bit_imp_le_length\<close>)
  ultimately show ?thesis by (simp add: lmb_align_up_def mask_eq_exp_minus_1)
qed

section \<open>Reserved or not\<close>

definition list_ok :: "lmb_region \<Rightarrow> bool" where
  "list_ok r \<longleftrightarrow> rgn_ok r \<or> rgn_dummy r"

lemma list_ok_shape: "list_ok r \<Longrightarrow> rgn_shape r"
  by (auto simp: list_ok_def rgn_ok_def rgn_dummy_def)

lemma list_ok_below:
  assumes "list_ok r" and "p \<in> set (regs r)"
  shows "pend p < 2 ^ 32"
proof (cases "rgn_ok r")
  case True
  then show ?thesis using assms(2) by (auto simp: rgn_ok_def apart_def solid_def)
next
  case False
  then have "rgn_dummy r" using assms(1) by (simp add: list_ok_def)
  then have "lp_size p = 0" using assms(2)
    by (auto simp: rgn_dummy_def regs_def rgn_shape_def take_Suc_conv_app_nth in_set_conv_nth)
  then show ?thesis using unsigned_less [of "lp_base p", where 'a = nat] by (simp add: pend_def)
qed

lemma list_ok_add:
  assumes "list_ok r" and n: "n = \<lparr>lp_base = base, lp_size = sz\<rparr>" "solid n" and "prange n \<inter> covered r = {}"
  shows "\<exists>c r'. lmb_add_region r base sz = Some (c, r') \<and>
    (if c < 0 then r' = r \<and> rg_cnt r = MAX_LMB_REGIONS else rgn_ok r' \<and> covered r' = covered r \<union> prange n)"
  using assms(1) lmb_add_region_ok [OF _ n assms(4)] lmb_add_region_dummy [OF _ n]
  by (fastforce simp: list_ok_def)

lemma overlaps_region_cases:
  assumes "list_ok r" and "unat base + unat sz < 2 ^ 32"
  obtains (free) "lmb_overlaps_region r base sz = Some None"
      "{unat base..<unat base + unat sz} \<inter> covered r = {}"
  | (hit) i p where "lmb_overlaps_region r base sz = Some (Some i)" "rget (rg_region r) i = Some p"
      "p \<in> set (regs r)" "unat base < pend p" "pbase p < unat base + unat sz"
proof -
  let ?P = "\<lambda>p. lmb_addrs_overlap base sz (lp_base p) (lp_size p)"
  have P: "?P p \<longleftrightarrow> unat base < pend p \<and> pbase p < unat base + unat sz" if "p \<in> set (regs r)" for p
    using overlap_iff [OF list_ok_below [OF assms(1) that] assms(2)] .
  obtain f where f: "region_scan ?P (rg_region r) 0 (rg_cnt r) = Some f"
    "f = None \<Longrightarrow> \<forall>p \<in> set (regs r). \<not> ?P p"
    "\<And>i. f = Some i \<Longrightarrow> \<exists>xs p ys. regs r = xs @ p # ys \<and> i = length xs \<and> ?P p \<and> rget (rg_region r) i = Some p"
    using region_scan_regs [OF list_ok_shape [OF assms(1)], of ?P] by blast
  show thesis
  proof (cases f)
    case None
    then have "{unat base..<unat base + unat sz} \<inter> covered r = {}"
      using f(2) P by (fastforce simp: covered_def prange_def)
    with None f(1) show ?thesis by (intro free) (simp_all add: lmb_overlaps_region_def)
  next
    case (Some i)
    then obtain xs p ys where xy: "regs r = xs @ p # ys" "?P p" "rget (rg_region r) i = Some p"
      using f(3) by blast
    moreover have "p \<in> set (regs r)" using xy(1) by simp
    ultimately show ?thesis using Some f(1) P by (intro hit [of i p]) (auto simp: lmb_overlaps_region_def)
  qed
qed

section \<open>Allocation\<close>

text \<open>A reservation always returns and keeps the shape of the list, whatever the block.\<close>

lemma insert_loop_total: "n < length reg \<Longrightarrow> \<exists>reg'. insert_loop reg base sz n = Some reg' \<and> length reg' = length reg"
proof (induction n arbitrary: reg)
  case (Suc n)
  then show ?case using Suc.IH [of "reg[Suc n := reg ! n]"] by (simp add: rget_def rput_def)
qed simp

lemma remove_loop_length: "remove_loop reg i n = Some reg' \<Longrightarrow> length reg' = length reg"
  by (induction n arbitrary: reg i) (fastforce simp: rget_def rput_def Option.bind_eq_Some_conv split: if_splits)+

lemma adj_loop_total:
  "i + n \<le> length reg \<Longrightarrow> \<exists>a. adj_loop reg base sz i n = Some a"
proof (induction n arbitrary: i)
  case (Suc n)
  then show ?case using Suc.IH [of "Suc i"] by (auto simp: rget_def Let_def)
qed simp

lemma merge_next_total:
  assumes "rgn_shape r"
  shows "\<exists>c r'. merge_next r i = Some (c, r') \<and> rgn_shape r'"
proof (cases "i < pred32 (rg_cnt r)")
  case True
  then have i: "Suc i < rg_cnt r" using assms by (auto simp: pred32_def rgn_shape_def)
  have n: "rg_cnt r < length (rg_region r)" using assms by (simp add: rgn_shape_def)
  let ?reg = "\<lambda>p. (rg_region r)[i := p]"
  define p where "p = (rg_region r ! i)\<lparr>lp_size := lp_size (rg_region r ! i) + lp_size (rg_region r ! Suc i)\<rparr>"
  have "remove_loop (?reg p) (Suc i) (rg_cnt r - 1 - Suc i) =
      Some (take (Suc i) (?reg p) @ take (rg_cnt r - 1 - Suc i) (drop (Suc (Suc i)) (?reg p)) @ drop (Suc i + (rg_cnt r - 1 - Suc i)) (?reg p))"
    by (rule remove_loop_list) (use i n in simp)
  then obtain reg where reg: "remove_loop (?reg p) (Suc i) (pred32 (rg_cnt r) - Suc i) = Some reg" "length reg = length (rg_region r)"
    using i remove_loop_length by (metis One_nat_def diff_Suc_1 gr_implies_not_zero length_list_update pred32_def)
  define r' where "r' = r\<lparr>rg_region := reg, rg_cnt := pred32 (rg_cnt r)\<rparr>"
  have "lmb_remove_region (r\<lparr>rg_region := ?reg p\<rparr>) (Suc i) = Some r'" using reg(1) by (simp add: lmb_remove_region_def r'_def)
  moreover have "rgn_shape r'" using reg(2) i assms by (auto simp: r'_def rgn_shape_def pred32_def)
  ultimately show ?thesis using True i n assms
    by (auto simp: merge_next_def lmb_regions_adjacent_def lmb_coalesce_regions_def rget_def rput_def simp flip: p_def)
qed (use assms in \<open>simp add: merge_next_def\<close>)

lemma insert_region_total:
  assumes "rgn_shape r"
  shows "\<exists>c r'. insert_region r base sz = Some (c, r') \<and> rgn_shape r'"
proof (cases "rg_cnt r \<ge> MAX_LMB_REGIONS")
  case False
  obtain reg where "insert_loop (rg_region r) base sz (rg_cnt r) = Some reg" "length reg = length (rg_region r)"
    using insert_loop_total [of "rg_cnt r" "rg_region r" base sz] assms by (auto simp: rgn_shape_def)
  then show ?thesis using False assms by (auto simp: insert_region_def rget_def rput_def rgn_shape_def MAX_LMB_REGIONS_def)
qed (use assms in \<open>simp add: insert_region_def\<close>)

lemma lmb_add_region_total:
  assumes "rgn_shape r"
  shows "\<exists>c r'. lmb_add_region r base sz = Some (c, r') \<and> rgn_shape r'"
proof -
  have n: "rg_cnt r < length (rg_region r)" using assms by (simp add: rgn_shape_def)
  obtain a where a: "adj_loop (rg_region r) base sz 0 (rg_cnt r) = Some a" using adj_loop_total [of 0 "rg_cnt r" "rg_region r" base sz] n by auto
  have up: "rgn_shape (r\<lparr>rg_region := (rg_region r)[i := p]\<rparr>)" for i p using assms by (simp add: rgn_shape_def)
  have p0: "rget (rg_region r) 0 = Some (rg_region r ! 0)" using n by (auto simp: rget_def)
  obtain d r2 where 2: "insert_region r base sz = Some (d, r2)" "rgn_shape r2" using insert_region_total [OF assms] by blast
  show ?thesis
  proof (cases "rg_cnt r = 1 \<and> lp_size (rg_region r ! 0) = 0")
    case True
    then show ?thesis using p0 up by (simp add: lmb_add_region_def)
  next
    case False
    show ?thesis
    proof (cases a)
      case Have_it
      then show ?thesis using False a p0 assms by (auto simp: lmb_add_region_def)
    next
      case (Adj i p)
      obtain c r1 where "merge_next (r\<lparr>rg_region := (rg_region r)[i := p]\<rparr>) i = Some (c, r1)" "rgn_shape r1" using merge_next_total [OF up] by blast
      then show ?thesis using False a p0 Adj by (auto simp: lmb_add_region_def)
    next
      case (No_adj i)
      obtain c r1 where "merge_next r i = Some (c, r1)" "rgn_shape r1" using merge_next_total [OF assms] by blast
      then show ?thesis using False a p0 No_adj 2 by (auto simp: lmb_add_region_def)
    qed
  qed
qed

lemma lmb_reserve_total:
  assumes "rgn_shape (lmb_reserved l)"
  obtains c l' where "lmb_reserve l base sz = Some (c, l')" "rgn_shape (lmb_reserved l')"
  using lmb_add_region_total [OF assms, of base sz] by (auto simp: lmb_reserve_def)

lemma merge_next_sign: "merge_next r i = Some (c, r') \<Longrightarrow> 0 \<le> c"
  by (auto simp: merge_next_def bind_Some_iff split: if_splits)

text \<open>A refused addition changes nothing.\<close>

lemma lmb_add_region_refused: "lmb_add_region r base sz = Some (c, r') \<Longrightarrow> c < 0 \<Longrightarrow> r' = r"
proof -
  assume a: "lmb_add_region r base sz = Some (c, r')" and c: "c < 0"
  have ins: "r' = r" if "insert_region r base sz = Some (c, r')"
    using that c by (auto simp: insert_region_def bind_Some_iff split: if_splits)
  obtain p0 where p0: "rget (rg_region r) 0 = Some p0" using a by (auto simp: lmb_add_region_def bind_Some_iff)
  show "r' = r"
  proof (cases "rg_cnt r = 1 \<and> lp_size p0 = 0")
    case False
    then obtain x where "adj_loop (rg_region r) base sz 0 (rg_cnt r) = Some x"
      using a p0 by (auto simp: lmb_add_region_def bind_Some_iff)
    then show ?thesis
      using a p0 False c ins
      by (cases x) (auto simp: lmb_add_region_def bind_Some_iff split: if_splits dest!: merge_next_sign)
  qed (use a c p0 in \<open>simp add: lmb_add_region_def\<close>)
qed

text \<open>
  What one call of the allocator may return: no block, or a block that was free. The amount reserved is the size rounded up; the
  reserved addresses grow by exactly that amount if the addresses behind the block that the rounding adds are free too.
\<close>

definition block_ok :: "lmb \<Rightarrow> u32 \<Rightarrow> u32 \<Rightarrow> u32 \<Rightarrow> lmb \<Rightarrow> bool" where
  "block_ok l sz align b l' \<longleftrightarrow> lmb_memory l' = lmb_memory l \<and>
     (if b = 0 then l' = l
      else (\<forall>k<32. align = 2 ^ k \<longrightarrow> 2 ^ k dvd unat b) \<and> {unat b..<unat b + unat sz} \<inter> covered (lmb_reserved l) = {} \<and>
        rgn_shape (lmb_reserved l') \<and>
        (let n = unat (lmb_align_up sz align)
         in 0 < n \<and> unat b + n < 2 ^ 32 \<and> {unat b..<unat b + n} \<inter> covered (lmb_reserved l) = {} \<longrightarrow>
              rgn_ok (lmb_reserved l') \<and> covered (lmb_reserved l') = covered (lmb_reserved l) \<union> {unat b..<unat b + n}))"

definition aligned :: "u32 \<Rightarrow> u32 \<Rightarrow> bool" where
  "aligned align b \<longleftrightarrow> (\<forall>k<32. align = 2 ^ k \<longrightarrow> 2 ^ k dvd unat b)"

lemma aligned_down: "aligned align (lmb_align_down a align)"
  by (auto simp: aligned_def align_down_dvd)

text \<open>A free block is added to the reservations.\<close>

lemma add_block_ok:
  assumes "list_ok (lmb_reserved l)" and "{unat b..<unat b + unat sz} \<inter> covered (lmb_reserved l) = {}" and "aligned align b"
    and "lmb_add_region (lmb_reserved l) b (lmb_align_up sz align) = Some (c, r)" and "b \<noteq> 0"
  shows "block_ok l sz align (if c < 0 then 0 else b) (l\<lparr>lmb_reserved := r\<rparr>)"
proof (cases "c < 0")
  case True
  then show ?thesis using lmb_add_region_refused [OF assms(4)] by (simp add: block_ok_def)
next
  case False
  let ?n = "lmb_align_up sz align"
  have shape: "rgn_shape r" using lmb_add_region_total [OF list_ok_shape [OF assms(1)], of b ?n] assms(4) by auto
  have "rgn_ok r \<and> covered r = covered (lmb_reserved l) \<union> {unat b..<unat b + unat ?n}"
    if n: "0 < unat ?n" "unat b + unat ?n < 2 ^ 32" "{unat b..<unat b + unat ?n} \<inter> covered (lmb_reserved l) = {}"
  proof -
    let ?p = "\<lparr>lp_base = b, lp_size = ?n\<rparr>"
    have "solid ?p" "prange ?p = {unat b..<unat b + unat ?n}"
      using n by (auto simp: solid_def pend_def prange_def word_less_nat_alt)
    then show ?thesis using list_ok_add [OF assms(1) refl, of b ?n] n(3) assms(4) False by auto
  qed
  then show ?thesis using False assms(2,3,5) shape unfolding block_ok_def aligned_def Let_def by auto
qed

lemma alloc_loop_ok:
  assumes "list_ok (lmb_reserved l)" and "0 < sz" and "unat base + unat sz < 2 ^ 32" and "aligned align base"
  shows "\<exists>a. alloc_loop l sz align lo base = Some a \<and>
    (case a of None \<Rightarrow> True
     | Some (b, l') \<Rightarrow> block_ok l sz align b l' \<and> (b \<noteq> 0 \<longrightarrow> lo \<le> b \<and> b \<le> base))"
  using assms(3,4)
proof (induction "unat base" arbitrary: base rule: less_induct)
  case less
  let ?r = "lmb_reserved l"
  show ?case
  proof (cases "base \<noteq> 0 \<and> lo \<le> base")
    case True
    from assms(1) less.prems(1) show ?thesis
    proof (cases rule: overlaps_region_cases)
      case free
      obtain c r where r: "lmb_add_region ?r base (lmb_align_up sz align) = Some (c, r)"
        using lmb_add_region_total [OF list_ok_shape [OF assms(1)]] by blast
      have "block_ok l sz align (if c < 0 then 0 else base) (l\<lparr>lmb_reserved := r\<rparr>)"
        using add_block_ok [OF assms(1) free(2) less.prems(2) r] True by blast
      then show ?thesis using True free(1) r by (subst alloc_loop.simps) auto
    next
      case (hit i p)
      show ?thesis
      proof (cases "lp_base p < sz")
        case False
        let ?b = "lmb_align_down (lp_base p - sz) align"
        have "unat (lp_base p - sz) = pbase p - unat sz" using False unat_minus [of sz "lp_base p"] by (simp add: not_less)
        then have le: "unat ?b \<le> pbase p - unat sz"
          using align_down_le [of "lp_base p - sz" align] by (simp add: word_le_nat_alt)
        have "unat sz \<le> pbase p" using False by (simp add: not_less word_le_nat_alt)
        with le hit(5) have "unat ?b < unat base" "unat ?b + unat sz < 2 ^ 32"
          using less.prems(1) by auto
        then obtain a where a: "alloc_loop l sz align lo ?b = Some a"
          "case a of None \<Rightarrow> True
           | Some (b, l') \<Rightarrow> block_ok l sz align b l' \<and> (b \<noteq> 0 \<longrightarrow> lo \<le> b \<and> b \<le> ?b)"
          using less.hyps [of ?b] aligned_down by blast
        have "?b \<le> base" using \<open>unat ?b < unat base\<close> by (simp add: word_le_nat_alt)
        then show ?thesis using True hit False a
          by (subst alloc_loop.simps) (auto split: option.splits intro: order_trans)
      qed (use True hit in \<open>subst alloc_loop.simps, auto\<close>)
    qed
  qed (auto simp: alloc_loop.simps)
qed

text \<open>The start of the search lies so that a block there ends inside the region and below the limit,
  provided the limit is not below the size.\<close>

lemma alloc_start_fits:
  assumes "alloc_start p sz align max_addr = Some base" and "pend p < 2 ^ 32"
    and "max_addr = 0 \<or> sz \<le> max_addr"
  shows "unat base + unat sz \<le> pend p" and "max_addr \<noteq> 0 \<longrightarrow> unat base + unat sz \<le> unat max_addr"
    and "aligned align base"
proof -
  have sz: "unat sz \<le> unat (lp_size p)"
    using assms(1) by (auto simp: alloc_start_def word_le_nat_alt not_less split: if_splits)
  have e: "unat (lp_base p + lp_size p) = pend p" using assms(2) by (simp add: pend_def unat_plus)
  define t where "t = (if max_addr = 0 then lp_base p + lp_size p else min (lp_base p + lp_size p) max_addr)"
  have base: "base = lmb_align_down (t - sz) align"
    using assms(1) by (auto simp: alloc_start_def t_def LMB_ALLOC_ANYWHERE_def split: if_splits)
  then show "aligned align base" using aligned_down by simp
  have "sz \<le> lp_base p + lp_size p" using sz e by (simp add: word_le_nat_alt pend_def)
  then have "sz \<le> t" using assms(3) by (auto simp: t_def)
  then have "unat (t - sz) = unat t - unat sz" by (rule unat_minus)
  then have "unat base + unat sz \<le> unat t"
    using align_down_le [of "t - sz" align] \<open>sz \<le> t\<close> by (simp add: base word_le_nat_alt)
  moreover have "unat t \<le> pend p" "max_addr \<noteq> 0 \<longrightarrow> unat t \<le> unat max_addr"
    using e by (auto simp: t_def min_def word_le_nat_alt)
  ultimately show "unat base + unat sz \<le> pend p" "max_addr \<noteq> 0 \<longrightarrow> unat base + unat sz \<le> unat max_addr"
    by auto
qed

lemma alloc_regions_ok:
  assumes "list_ok (lmb_reserved l)" and "list_ok (lmb_memory l)" and "0 < sz"
    and "max_addr = 0 \<or> sz \<le> max_addr" and "i \<le> rg_cnt (lmb_memory l)"
  shows "\<exists>b l'. alloc_regions l sz align max_addr i = Some (b, l') \<and> block_ok l sz align b l' \<and>
    (b \<noteq> 0 \<longrightarrow> (\<exists>p \<in> set (regs (lmb_memory l)). {unat b..<unat b + unat sz} \<subseteq> prange p) \<and>
      unat b + unat sz < 2 ^ 32 \<and> (max_addr \<noteq> 0 \<longrightarrow> unat b + unat sz \<le> unat max_addr))"
  using assms(5)
proof (induction i)
  case 0
  then show ?case by (simp add: block_ok_def)
next
  case (Suc i)
  let ?m = "lmb_memory l"
  have shape: "rgn_shape ?m" using assms(2) by (rule list_ok_shape)
  let ?p = "regs ?m ! i"
  have get: "rget (rg_region ?m) i = Some ?p" and i: "i < length (regs ?m)"
    using rget_regs [OF shape] Suc.prems by auto
  then have p: "?p \<in> set (regs ?m)" by simp
  then have below: "pend ?p < 2 ^ 32" by (rule list_ok_below [OF assms(2)])
  show ?case
  proof (cases "alloc_start ?p sz align max_addr")
    case None
    then show ?thesis using Suc get by simp
  next
    case (Some base)
    note st = alloc_start_fits [OF Some below assms(4)]
    have "unat base + unat sz < 2 ^ 32" using st(1) below by simp
    then obtain a where a: "alloc_loop l sz align (lp_base ?p) base = Some a"
      "case a of None \<Rightarrow> True
       | Some (b, l') \<Rightarrow> block_ok l sz align b l' \<and> (b \<noteq> 0 \<longrightarrow> lp_base ?p \<le> b \<and> b \<le> base)"
      using alloc_loop_ok [OF assms(1,3) _ st(3)] by blast
    have inside: "{unat b..<unat b + unat sz} \<subseteq> prange ?p \<and> unat b + unat sz < 2 ^ 32 \<and>
        (max_addr \<noteq> 0 \<longrightarrow> unat b + unat sz \<le> unat max_addr)"
      if "lp_base ?p \<le> b" "b \<le> base" for b
      using that st(1,2) below by (auto simp: prange_def word_le_nat_alt)
    show ?thesis
    proof (cases a)
      case None
      then show ?thesis using Suc get Some a(1) by simp
    next
      case (Some bl)
      then obtain b l' where "a = Some (b, l')" by (cases bl) auto
      then show ?thesis using a inside p get \<open>alloc_start ?p sz align max_addr = Some base\<close> by auto
    qed
  qed
qed

lemma block_ok_whole:
  assumes "block_ok l sz (2 ^ k) b l'" and "k < 32" and "2 ^ k dvd unat sz" and "0 < sz" and "b \<noteq> 0" and "unat b + unat sz < 2 ^ 32"
  shows "rgn_ok (lmb_reserved l')" and "covered (lmb_reserved l') = covered (lmb_reserved l) \<union> {unat b..<unat b + unat sz}"
  using assms align_up_same [OF assms(2,3)] by (simp_all add: block_ok_def Let_def word_less_nat_alt)

text \<open>C30. \<open>lmb_alloc_base\<close> always returns, for every size but zero, every alignment and every limit that is zero (none) or not below the
  size. With result zero nothing changes. Another result is a block of the size inside one memory region, below the limit, that
  overlaps nothing reserved before, and aligned if the alignment is a power of two; if the size rounded up to the alignment does not
  reach into another reservation, in particular if it is a multiple of a power-of-two alignment, then exactly the block of the rounded
  size is reserved in addition and the list stays sorted and disjoint.\<close>

theorem lmb_alloc_base_block:
  assumes "list_ok (lmb_reserved l)" and "list_ok (lmb_memory l)" and "0 < sz" and "max_addr = 0 \<or> sz \<le> max_addr"
  shows "\<exists>b l'. lmb_alloc_base l sz align max_addr = Some (b, l') \<and> block_ok l sz align b l' \<and>
    (b \<noteq> 0 \<longrightarrow> (\<exists>p \<in> set (regs (lmb_memory l)). {unat b..<unat b + unat sz} \<subseteq> prange p) \<and>
      (max_addr \<noteq> 0 \<longrightarrow> unat b + unat sz \<le> unat max_addr) \<and>
      (\<forall>k<32. align = 2 ^ k \<and> 2 ^ k dvd unat sz \<longrightarrow>
         rgn_ok (lmb_reserved l') \<and> covered (lmb_reserved l') = covered (lmb_reserved l) \<union> {unat b..<unat b + unat sz}))"
proof -
  obtain b l' where b: "lmb_alloc_base l sz align max_addr = Some (b, l')" "block_ok l sz align b l'"
    "b \<noteq> 0 \<longrightarrow> (\<exists>p \<in> set (regs (lmb_memory l)). {unat b..<unat b + unat sz} \<subseteq> prange p) \<and>
      unat b + unat sz < 2 ^ 32 \<and> (max_addr \<noteq> 0 \<longrightarrow> unat b + unat sz \<le> unat max_addr)"
    unfolding lmb_alloc_base_def using alloc_regions_ok [OF assms order.refl, of align] by blast
  moreover have "rgn_ok (lmb_reserved l') \<and> covered (lmb_reserved l') = covered (lmb_reserved l) \<union> {unat b..<unat b + unat sz}"
    if "b \<noteq> 0" "k < 32" "align = 2 ^ k" "2 ^ k dvd unat sz" for k
    using block_ok_whole [of l sz k b l'] that b(2,3) assms(3) by simp
  ultimately show ?thesis by blast
qed

text \<open>One memory region of 1 MB at 0x8000 and one reserved region.\<close>

definition lmb_at :: "u32 \<Rightarrow> u32 \<Rightarrow> lmb" where
  "lmb_at b n = \<lparr>lmb_memory = \<lparr>rg_cnt = 1, rg_size = 0,
              rg_region = \<lparr>lp_base = 0x8000, lp_size = 0x100000\<rparr> # replicate 8 \<lparr>lp_base = 0, lp_size = 0\<rparr>\<rparr>,
           lmb_reserved = \<lparr>rg_cnt = 1, rg_size = 0,
              rg_region = \<lparr>lp_base = b, lp_size = n\<rparr> # replicate 8 \<lparr>lp_base = 0, lp_size = 0\<rparr>\<rparr>\<rparr>"

abbreviation lmb0 :: lmb where
  "lmb0 \<equiv> lmb_at 0x107000 0x1000"

lemma lmb0_ok: "list_ok (lmb_reserved lmb0)" "list_ok (lmb_memory lmb0)"
  by (simp_all add: lmb_at_def list_ok_def rgn_ok_def rgn_shape_def regs_def MAX_LMB_REGIONS_def apart_Cons
      solid_def pend_def)

lemmas lmb_eval = lmb_alloc_def lmb_alloc_base_def LMB_ALLOC_ANYWHERE_def alloc_start_def lmb_align_down_def
  lmb_align_up_def lmb_overlaps_region_def lmb_addrs_overlap_def rget_def rput_def lmb_add_region_def
  lmb_addrs_adjacent_def merge_next_def pred32_def insert_region_def MAX_LMB_REGIONS_def lmb_at_def

theorem lmb_alloc_base_block_witness:
  "\<exists>b l'. lmb_alloc_base lmb0 0x2345 0x1000 0x90000 = Some (b, l') \<and> block_ok lmb0 0x2345 0x1000 b l'"
  using lmb_alloc_base_block [OF lmb0_ok, of "0x2345" "0x90000" "0x1000"] by auto

section \<open>The contract of a block allocator\<close>

text \<open>An allocator of blocks for requests, each with a size; \<open>fair r b s\<close> is what a request and the block that it got have to satisfy in the
  state before.\<close>

locale block_allocator =
  fixes inv :: "'s \<Rightarrow> bool"
    and held :: "'s \<Rightarrow> nat set"
    and alloc :: "'r \<Rightarrow> 's \<Rightarrow> (nat \<times> 's) option"
    and size_of :: "'r \<Rightarrow> nat"
    and fair :: "'r \<Rightarrow> nat \<Rightarrow> 's \<Rightarrow> bool"
  assumes alloc_block: "inv s \<Longrightarrow> alloc r s = Some (b, s') \<Longrightarrow> fair r b s \<Longrightarrow>
    inv s' \<and> {b..<b + size_of r} \<inter> held s = {} \<and> held s \<union> {b..<b + size_of r} \<subseteq> held s'"
begin

lemma run_inv:
  assumes "inv (ss ! 0)" and "\<And>i. i < n \<Longrightarrow> alloc (rs ! i) (ss ! i) = Some (bs ! i, ss ! Suc i) \<and> fair (rs ! i) (bs ! i) (ss ! i)"
  shows "i \<le> n \<Longrightarrow> inv (ss ! i)" and "i \<le> j \<Longrightarrow> j \<le> n \<Longrightarrow> held (ss ! i) \<subseteq> held (ss ! j)"
proof -
  show inv: "inv (ss ! i)" if "i \<le> n" for i
    using that
  proof (induction i)
    case (Suc i)
    then show ?case using alloc_block [of "ss ! i" "rs ! i" "bs ! i"] assms(2) [of i] by auto
  qed (use assms in simp)
  show "held (ss ! i) \<subseteq> held (ss ! j)" if "i \<le> j" "j \<le> n"
    using that
  proof (induction j rule: dec_induct)
    case (step m)
    then show ?case using alloc_block [OF inv [of m], of "rs ! m" "bs ! m" "ss ! Suc m"] assms(2) [of m] by auto
  qed simp
qed

lemma blocks_disjoint:
  assumes "inv (ss ! 0)" and "\<And>i. i < n \<Longrightarrow> alloc (rs ! i) (ss ! i) = Some (bs ! i, ss ! Suc i) \<and> fair (rs ! i) (bs ! i) (ss ! i)"
    and "i < j" and "j < n"
  shows "{bs ! i..<bs ! i + size_of (rs ! i)} \<inter> {bs ! j..<bs ! j + size_of (rs ! j)} = {}"
proof -
  note run = run_inv [of ss n rs bs, OF assms(1,2)]
  have "{bs ! i..<bs ! i + size_of (rs ! i)} \<subseteq> held (ss ! Suc i)"
    using alloc_block [OF run(1), of i "rs ! i" "bs ! i" "ss ! Suc i"] assms(2) [of i] assms(3,4) by auto
  moreover have "held (ss ! Suc i) \<subseteq> held (ss ! j)" using run(2) assms(3,4) by auto
  moreover have "{bs ! j..<bs ! j + size_of (rs ! j)} \<inter> held (ss ! j) = {}"
    using alloc_block [OF run(1), of j "rs ! j" "bs ! j" "ss ! Suc j"] assms(2) [of j] assms(4) by auto
  ultimately show ?thesis by blast
qed

end

text \<open>Requests to \<open>lmb_alloc_base\<close>: size, alignment and limit; \<open>None\<close> when it reports a failure.\<close>

type_synonym lmb_request = "u32 \<times> u32 \<times> u32"

definition lmb_request :: "lmb_request \<Rightarrow> lmb \<Rightarrow> (nat \<times> lmb) option" where
  "lmb_request r l =
     (case r of (sz, align, max_addr) \<Rightarrow>
        do { (b, l') \<leftarrow> lmb_alloc_base l sz align max_addr; if b = 0 then None else Some (unat b, l') })"

text \<open>The limit is none or not below the size; and the size is a multiple of a power-of-two alignment, or what the rounding adds behind
  the block is free.\<close>

definition request_fair :: "lmb_request \<Rightarrow> nat \<Rightarrow> lmb \<Rightarrow> bool" where
  "request_fair r b l \<longleftrightarrow>
     (case r of (sz, align, max_addr) \<Rightarrow>
        0 < sz \<and> (max_addr = 0 \<or> sz \<le> max_addr) \<and>
        ((\<exists>k<32. align = 2 ^ k \<and> 2 ^ k dvd unat sz) \<or>
         sz \<le> lmb_align_up sz align \<and> b + unat (lmb_align_up sz align) < 2 ^ 32 \<and>
         {b..<b + unat (lmb_align_up sz align)} \<inter> covered (lmb_reserved l) = {}))"

definition lmb_ok :: "lmb \<Rightarrow> bool" where
  "lmb_ok l \<longleftrightarrow> list_ok (lmb_reserved l) \<and> list_ok (lmb_memory l)"

interpretation lb: block_allocator lmb_ok "\<lambda>l. covered (lmb_reserved l)" lmb_request "\<lambda>r. unat (fst r)" request_fair
proof unfold_locales
  fix l r b l'
  assume ok: "lmb_ok l" and a: "lmb_request r l = Some (b, l')" and fair: "request_fair r b l"
  obtain sz align hi where r: "r = (sz, align, hi)" by (cases r) auto
  have rq: "0 < sz" "hi = 0 \<or> sz \<le> hi" using fair by (simp_all add: request_fair_def r)
  obtain c where c: "lmb_alloc_base l sz align hi = Some (c, l')" "c \<noteq> 0" "b = unat c"
    using a by (auto simp: lmb_request_def r bind_Some_iff split: if_splits)
  have blk: "block_ok l sz align c l'" "unat c + unat sz < 2 ^ 32"
    using alloc_regions_ok [of l sz hi "rg_cnt (lmb_memory l)" align] ok rq c by (auto simp: lmb_ok_def lmb_alloc_base_def)
  have "rgn_ok (lmb_reserved l') \<and> covered (lmb_reserved l) \<union> {b..<b + unat sz} \<subseteq> covered (lmb_reserved l')"
  proof (cases "\<exists>k<32. align = 2 ^ k \<and> 2 ^ k dvd unat sz")
    case True
    then show ?thesis using block_ok_whole [of l sz _ c l'] blk rq(1) c by auto
  next
    case False
    then have up: "sz \<le> lmb_align_up sz align" "b + unat (lmb_align_up sz align) < 2 ^ 32"
      "{b..<b + unat (lmb_align_up sz align)} \<inter> covered (lmb_reserved l) = {}"
      using fair by (auto simp: request_fair_def r)
    then have "rgn_ok (lmb_reserved l')" "covered (lmb_reserved l') = covered (lmb_reserved l) \<union> {b..<b + unat (lmb_align_up sz align)}"
      using blk(1) c(2,3) rq(1) by (auto simp: block_ok_def Let_def word_less_nat_alt word_le_nat_alt)
    then show ?thesis using up(1) by (auto simp: word_le_nat_alt)
  qed
  moreover have "lmb_memory l' = lmb_memory l" "{b..<b + unat sz} \<inter> covered (lmb_reserved l) = {}"
    using blk(1) c(2,3) by (simp_all add: block_ok_def)
  ultimately show "lmb_ok l' \<and> {b..<b + unat (fst r)} \<inter> covered (lmb_reserved l) = {} \<and>
      covered (lmb_reserved l) \<union> {b..<b + unat (fst r)} \<subseteq> covered (lmb_reserved l')"
    using ok by (simp add: lmb_ok_def list_ok_def r)
qed

text \<open>C31. The blocks of a sequence of allocations are pairwise disjoint, when every request has a size other than zero, a limit that is
  none or not below the size, and a size that is a multiple of its power-of-two alignment or else a block behind which the
  addresses that the rounding of the size adds are free (without this the code can hand out the same addresses twice): \<open>rs\<close> are the
  requests, \<open>bs\<close> the addresses and \<open>ss\<close> the states before and after.\<close>

theorem lmb_alloc_sequence_disjoint:
  assumes "lmb_ok (ss ! 0)"
    and "\<And>i. i < n \<Longrightarrow> lmb_request (rs ! i) (ss ! i) = Some (bs ! i, ss ! Suc i) \<and> request_fair (rs ! i) (bs ! i) (ss ! i)"
    and "i < j" and "j < n"
  shows "{bs ! i..<bs ! i + unat (fst (rs ! i))} \<inter> {bs ! j..<bs ! j + unat (fst (rs ! j))} = {}"
  by (rule lb.blocks_disjoint [OF assms])

lemma lmb_request_example:
  "lmb_request (0x1000, 0x1000, 0) lmb0 = Some (0x106000, lmb_at 0x106000 0x2000)"
  "lmb_request (0x1234, 0x1000, 0x110000) (lmb_at 0x106000 0x2000) = Some (0x104000, lmb_at 0x104000 0x4000)"
  by (simp_all add: lmb_request_def lmb_eval alloc_loop.simps)

lemma fair_example: "request_fair (0x1000, 0x1000, 0) 0x106000 lmb0" "request_fair (0x1234, 0x1000, 0x110000) 0x104000 (lmb_at 0x106000 0x2000)"
proof -
  have "(0x1000 :: u32) = 2 ^ 12" by simp
  then show "request_fair (0x1000, 0x1000, 0) 0x106000 lmb0"
    unfolding request_fair_def by (auto intro!: exI [of _ 12])
  show "request_fair (0x1234, 0x1000, 0x110000) 0x104000 (lmb_at 0x106000 0x2000)"
    by (simp add: request_fair_def lmb_align_up_def lmb_at_def covered_def regs_def prange_def pend_def)
qed

theorem lmb_alloc_sequence_disjoint_witness:
  "{0x106000..<0x106000 + 0x1000} \<inter> {0x104000..<0x104000 + 0x1234} = ({} :: nat set)"
proof -
  let ?ss = "[lmb0, lmb_at 0x106000 0x2000, lmb_at 0x104000 0x4000]"
  let ?rs = "[(0x1000, 0x1000, 0), (0x1234, 0x1000, 0x110000) :: lmb_request]" and ?bs = "[0x106000, 0x104000 :: nat]"
  have "lmb_request (?rs ! i) (?ss ! i) = Some (?bs ! i, ?ss ! Suc i) \<and> request_fair (?rs ! i) (?bs ! i) (?ss ! i)" if "i < 2" for i
    using that lmb_request_example fair_example by (cases "i = 0") (auto simp: less_Suc_eq numeral_2_eq_2)
  moreover have "lmb_ok (?ss ! 0)" using lmb0_ok by (simp add: lmb_ok_def)
  ultimately show ?thesis
    using lmb_alloc_sequence_disjoint [of ?ss 2 ?rs ?bs 0 1] by simp
qed

section \<open>Reserving and freeing\<close>

text \<open>C32. \<open>lmb_reserve\<close> of a block that is not empty, does not reach the top of the address space and
  overlaps nothing reserved: the reserved addresses grow by exactly the block, touching regions
  are merged and the list stays sorted and disjoint; it fails only when it cannot be merged and
  all eight entries are in use, and then changes nothing.\<close>

theorem lmb_reserve_block:
  assumes "list_ok (lmb_reserved l)" and "0 < sz" and "unat base + unat sz < 2 ^ 32"
    and "{unat base..<unat base + unat sz} \<inter> covered (lmb_reserved l) = {}"
  shows "\<exists>c l'. lmb_reserve l base sz = Some (c, l') \<and> lmb_memory l' = lmb_memory l \<and>
    (if c < 0 then l' = l \<and> rg_cnt (lmb_reserved l) = 8
     else rgn_ok (lmb_reserved l') \<and>
       covered (lmb_reserved l') = covered (lmb_reserved l) \<union> {unat base..<unat base + unat sz})"
proof -
  let ?n = "\<lparr>lp_base = base, lp_size = sz\<rparr>"
  have "solid ?n" "prange ?n = {unat base..<unat base + unat sz}"
    using assms(2,3) by (auto simp: solid_def pend_def prange_def word_less_nat_alt)
  then show ?thesis using list_ok_add [OF assms(1) refl, of base sz] assms(4)
    by (fastforce simp: lmb_reserve_def MAX_LMB_REGIONS_def split: if_splits)
qed

theorem lmb_reserve_block_witness:
  "\<exists>c l'. lmb_reserve lmb0 0x9000 0x1000 = Some (c, l') \<and> rgn_ok (lmb_reserved l')"
  using lmb_reserve_block [OF lmb0_ok(1), of "0x1000" "0x9000"]
  by (auto simp: lmb_at_def covered_def regs_def prange_def pend_def split: if_splits)

text \<open>\<open>lmb_free\<close> of a block: when no reserved region holds it the result is \<open>-1\<close> and nothing changes;
  otherwise, with an entry left for a split, exactly the block is removed from the reserved
  addresses, and the list stays sorted and disjoint or becomes empty.\<close>

lemma lmb_free_block:
  assumes "rgn_ok (lmb_reserved l)" and "0 < sz" and "unat base + unat sz < 2 ^ 32"
    and "rg_cnt (lmb_reserved l) < 8"
  shows "\<exists>c l'. lmb_free l base sz = Some (c, l') \<and> lmb_memory l' = lmb_memory l \<and>
    (if \<exists>p \<in> set (regs (lmb_reserved l)). {unat base..<unat base + unat sz} \<subseteq> prange p
     then 0 \<le> c \<and> (rgn_ok (lmb_reserved l') \<or> rg_cnt (lmb_reserved l') = 0) \<and>
       covered (lmb_reserved l') = covered (lmb_reserved l) - {unat base..<unat base + unat sz}
     else c = -1 \<and> l' = l)"
proof -
  let ?r = "lmb_reserved l" and ?n = "\<lparr>lp_base = base, lp_size = sz\<rparr>"
  let ?P = "\<lambda>p. lp_base p \<le> base \<and> base + sz \<le> lp_base p + lp_size p"
  have n: "solid ?n" "prange ?n = {unat base..<unat base + unat sz}"
    using assms(2,3) by (auto simp: solid_def pend_def prange_def word_less_nat_alt)
  have P: "?P p \<longleftrightarrow> prange ?n \<subseteq> prange p" if "p \<in> set (regs ?r)" for p
  proof -
    have "solid p" using assms(1) that by (auto simp: rgn_ok_def apart_def)
    then show ?thesis using solid_end [of p] solid_end [OF n(1)] by (simp add: prange_def word_le_nat_alt)
  qed
  have shape: "rgn_shape ?r" using assms(1) by (simp add: rgn_ok_def)
  obtain f where f: "region_scan ?P (rg_region ?r) 0 (rg_cnt ?r) = Some f"
    "f = None \<Longrightarrow> \<forall>p \<in> set (regs ?r). \<not> ?P p"
    "\<And>i. f = Some i \<Longrightarrow> \<exists>xs p ys. regs ?r = xs @ p # ys \<and> i = length xs \<and> ?P p \<and> rget (rg_region ?r) i = Some p"
    using region_scan_regs [OF shape, of ?P] by blast
  show ?thesis
  proof (cases f)
    case None
    then have "\<not> (\<exists>p \<in> set (regs ?r). prange ?n \<subseteq> prange p)" using f(2) P by blast
    with None f(1) n(2) show ?thesis by (simp add: lmb_free_def free_region_def)
  next
    case (Some i)
    then obtain xs p ys where xy: "regs ?r = xs @ p # ys" "i = length xs" "?P p" using f(3) by blast
    then have sub: "prange ?n \<subseteq> prange p" "p \<in> set (regs ?r)" using P [of p] by auto
    obtain c r' where "free_at ?r i base sz = Some (c, r')" "0 \<le> c" "rgn_ok r' \<or> rg_cnt r' = 0"
      "covered r' = covered ?r - prange ?n"
      using free_at_ok [OF assms(1) refl n(1) xy(1) sub(1)] assms(4) xy(2)
      by (auto simp: MAX_LMB_REGIONS_def split: if_splits)
    then show ?thesis using f(1) Some sub n(2) by (auto simp: lmb_free_def free_region_def)
  qed
qed

text \<open>\<open>lmb_is_reserved\<close> tells exactly whether an address is reserved, once something is.\<close>

lemma lmb_is_reserved_iff:
  assumes "rgn_ok (lmb_reserved l)"
  shows "lmb_is_reserved l a = Some (unat a \<in> covered (lmb_reserved l))"
proof -
  let ?r = "lmb_reserved l" and ?P = "\<lambda>p. lp_base p \<le> a \<and> a \<le> lp_base p + lp_size p - 1"
  have P: "?P p \<longleftrightarrow> unat a \<in> prange p" if "p \<in> set (regs ?r)" for p
  proof -
    have sol: "solid p" using assms that by (auto simp: rgn_ok_def apart_def)
    then have "unat (lp_base p + lp_size p - 1) = pend p - 1"
      using solid_end [OF sol] unat_minus [of 1 "lp_base p + lp_size p"] by (simp add: word_le_nat_alt)
    then show ?thesis using solid_end(2) [OF sol] by (auto simp: prange_def word_le_nat_alt)
  qed
  have "rgn_shape ?r" using assms by (simp add: rgn_ok_def)
  then obtain f where f: "region_scan ?P (rg_region ?r) 0 (rg_cnt ?r) = Some f"
    "f = None \<Longrightarrow> \<forall>p \<in> set (regs ?r). \<not> ?P p"
    "\<And>i. f = Some i \<Longrightarrow> \<exists>xs p ys. regs ?r = xs @ p # ys \<and> i = length xs \<and> ?P p \<and> rget (rg_region ?r) i = Some p"
    using region_scan_regs [of ?r ?P] by blast
  have "f \<noteq> None \<longleftrightarrow> (\<exists>p \<in> set (regs ?r). ?P p)"
    using f(2,3) by (cases f) (force, metis in_set_conv_decomp option.distinct(1))
  then show ?thesis using f(1) P by (simp add: lmb_is_reserved_def covered_def)
qed

section \<open>Where the code breaks its promises\<close>

text \<open>With a limit below the size \<open>lmb_alloc_base\<close> subtracts past zero: asked for 64 KB below 0x9000 in a
  memory of 1 MB at 0x8000 it returns 0xFFFF9000, an address far outside the memory and above the
  limit, and reserves it.\<close>

lemma lmb_alloc_base_limit_wraps:
  "\<exists>l'. lmb_alloc_base lmb0 0x10000 0x1000 0x9000 = Some (0xFFFF9000, l') \<and>
     covered (lmb_memory lmb0) = {0x8000..<0x108000}"
  by (simp add: lmb_eval alloc_loop.simps covered_def regs_def prange_def pend_def)

text \<open>A reservation after the last one was freed is lost: \<open>lmb_free\<close> leaves an empty list, and the
  next \<open>lmb_reserve\<close> reports success without recording its block; the freed one is reserved again.\<close>

lemma lmb_reserve_lost_after_free:
  "do { (c, l1) \<leftarrow> lmb_free lmb0 0x107000 0x1000; (d, l2) \<leftarrow> lmb_reserve l1 0x200000 0x1000;
        x \<leftarrow> lmb_is_reserved l2 0x200000; y \<leftarrow> lmb_is_reserved l2 0x107000; Some (c, d, x, y) }
   = Some (0, 0, False, True)"
  by (simp add: lmb_eval lmb_free_def free_region_def free_at_def lmb_remove_region_def lmb_reserve_def
      lmb_is_reserved_def lmb_regions_adjacent_def)

end
