(* ===== verification/Ctype.thy ===== *)
theory Ctype
  imports Prelude
begin

text \<open>
  The character classes of \<^verbatim>\<open>lib/ctype.c\<close> and \<^verbatim>\<open>include/linux/ctype.h\<close>: the table
  \<open>_ctype\<close> of class masks indexed by the character code, and the macros that test it.
  The lemmas say which characters each macro accepts, so that the parsers built on the
  macros are reasoned about without the table.
\<close>

section \<open>The class masks and the table\<close>

definition CT_U :: u8 where "CT_U = 0x01"
definition CT_L :: u8 where "CT_L = 0x02"
definition CT_D :: u8 where "CT_D = 0x04"
definition CT_C :: u8 where "CT_C = 0x08"
definition CT_P :: u8 where "CT_P = 0x10"
definition CT_S :: u8 where "CT_S = 0x20"
definition CT_X :: u8 where "CT_X = 0x40"
definition CT_SP :: u8 where "CT_SP = 0x80"

definition ctype_tab :: "u8 list" where
  "ctype_tab =
     replicate 8 CT_C @
     [CT_C, CT_C OR CT_S, CT_C OR CT_S, CT_C OR CT_S, CT_C OR CT_S, CT_C OR CT_S, CT_C, CT_C] @
     replicate 8 CT_C @
     replicate 8 CT_C @
     [CT_S OR CT_SP] @ replicate 7 CT_P @
     replicate 8 CT_P @
     replicate 8 CT_D @
     replicate 2 CT_D @ replicate 6 CT_P @
     [CT_P] @ replicate 6 (CT_U OR CT_X) @ [CT_U] @
     replicate 8 CT_U @
     replicate 8 CT_U @
     replicate 3 CT_U @ replicate 5 CT_P @
     [CT_P] @ replicate 6 (CT_L OR CT_X) @ [CT_L] @
     replicate 8 CT_L @
     replicate 8 CT_L @
     replicate 3 CT_L @ replicate 4 CT_P @ [CT_C] @
     replicate 16 0 @
     replicate 16 0 @
     [CT_S OR CT_SP] @ replicate 15 CT_P @
     replicate 16 CT_P @
     replicate 16 CT_U @
     replicate 7 CT_U @ [CT_P] @ replicate 7 CT_U @ [CT_L] @
     replicate 16 CT_L @
     replicate 7 CT_L @ [CT_P] @ replicate 8 CT_L"

definition ismask :: "char \<Rightarrow> u8" where
  "ismask c = ctype_tab ! of_char c"

definition isalnum :: "char \<Rightarrow> bool" where
  "isalnum c \<longleftrightarrow> ismask c AND (CT_U OR CT_L OR CT_D) \<noteq> 0"

definition isalpha :: "char \<Rightarrow> bool" where
  "isalpha c \<longleftrightarrow> ismask c AND (CT_U OR CT_L) \<noteq> 0"

definition iscntrl :: "char \<Rightarrow> bool" where
  "iscntrl c \<longleftrightarrow> ismask c AND CT_C \<noteq> 0"

definition isdigit :: "char \<Rightarrow> bool" where
  "isdigit c \<longleftrightarrow> ismask c AND CT_D \<noteq> 0"

definition isgraph :: "char \<Rightarrow> bool" where
  "isgraph c \<longleftrightarrow> ismask c AND (CT_P OR CT_U OR CT_L OR CT_D) \<noteq> 0"

definition islower :: "char \<Rightarrow> bool" where
  "islower c \<longleftrightarrow> ismask c AND CT_L \<noteq> 0"

definition isprint :: "char \<Rightarrow> bool" where
  "isprint c \<longleftrightarrow> ismask c AND (CT_P OR CT_U OR CT_L OR CT_D OR CT_SP) \<noteq> 0"

definition ispunct :: "char \<Rightarrow> bool" where
  "ispunct c \<longleftrightarrow> ismask c AND CT_P \<noteq> 0"

definition isspace :: "char \<Rightarrow> bool" where
  "isspace c \<longleftrightarrow> ismask c AND CT_S \<noteq> 0"

definition isupper :: "char \<Rightarrow> bool" where
  "isupper c \<longleftrightarrow> ismask c AND CT_U \<noteq> 0"

definition isxdigit :: "char \<Rightarrow> bool" where
  "isxdigit c \<longleftrightarrow> ismask c AND (CT_D OR CT_X) \<noteq> 0"

definition isblank :: "char \<Rightarrow> bool" where
  "isblank c \<longleftrightarrow> c = CHR '' '' \<or> c = CHR 0x09"

definition tolower :: "char \<Rightarrow> char" where
  "tolower c = (if isupper c then char_byte (byte_of c - (65 - 97)) else c)"

definition toupper :: "char \<Rightarrow> char" where
  "toupper c = (if islower c then char_byte (byte_of c - (97 - 65)) else c)"

lemmas ctype_masks =
  CT_U_def CT_L_def CT_D_def CT_C_def CT_P_def CT_S_def CT_X_def CT_SP_def

section \<open>What the macros accept\<close>

lemma length_ctype_tab: "length ctype_tab = 256"
  by (simp add: ctype_tab_def)

lemma ctype_check:
  assumes "list_all2 Q [0..<256] ctype_tab"
  shows "Q (of_char c) (ismask c)"
proof -
  have "Q ([0..<256] ! of_char c) (ctype_tab ! of_char c)"
    by (rule list_all2_nthD [OF assms]) simp
  then show ?thesis by (simp add: ismask_def)
qed

lemma isdigit_iff [ctype_simps]: "isdigit c \<longleftrightarrow> (48::nat) \<le> of_char c \<and> of_char c \<le> (57::nat)"
  unfolding isdigit_def
  by (rule ctype_check [of "\<lambda>n w. (w AND CT_D \<noteq> 0) \<longleftrightarrow> 48 \<le> n \<and> n \<le> 57"]) code_simp

lemma isxdigit_iff [ctype_simps]:
  "isxdigit c \<longleftrightarrow> (48::nat) \<le> of_char c \<and> of_char c \<le> (57::nat) \<or>
     (65::nat) \<le> of_char c \<and> of_char c \<le> (70::nat) \<or> (97::nat) \<le> of_char c \<and> of_char c \<le> (102::nat)"
  unfolding isxdigit_def
  by (rule ctype_check [of "\<lambda>n w. (w AND (CT_D OR CT_X) \<noteq> 0) \<longleftrightarrow>
      48 \<le> n \<and> n \<le> 57 \<or> 65 \<le> n \<and> n \<le> 70 \<or> 97 \<le> n \<and> n \<le> 102"]) code_simp

lemma isspace_iff [ctype_simps]:
  "isspace c \<longleftrightarrow> (9::nat) \<le> of_char c \<and> of_char c \<le> (13::nat) \<or> of_char c = (32::nat) \<or> of_char c = (160::nat)"
  unfolding isspace_def
  by (rule ctype_check [of "\<lambda>n w. (w AND CT_S \<noteq> 0) \<longleftrightarrow>
      9 \<le> n \<and> n \<le> 13 \<or> n = 32 \<or> n = 160"]) code_simp

lemma islower_iff [ctype_simps]:
  "islower c \<longleftrightarrow> (97::nat) \<le> of_char c \<and> of_char c \<le> (122::nat) \<or>
     (223::nat) \<le> of_char c \<and> of_char c \<noteq> (247::nat)"
  unfolding islower_def
  by (rule ctype_check [of "\<lambda>n w. (w AND CT_L \<noteq> 0) \<longleftrightarrow>
      97 \<le> n \<and> n \<le> 122 \<or> 223 \<le> n \<and> n \<noteq> 247"]) code_simp

lemma isupper_iff [ctype_simps]:
  "isupper c \<longleftrightarrow> (65::nat) \<le> of_char c \<and> of_char c \<le> (90::nat) \<or>
     (192::nat) \<le> of_char c \<and> of_char c \<le> (222::nat) \<and> of_char c \<noteq> (215::nat)"
  unfolding isupper_def
  by (rule ctype_check [of "\<lambda>n w. (w AND CT_U \<noteq> 0) \<longleftrightarrow>
      65 \<le> n \<and> n \<le> 90 \<or> 192 \<le> n \<and> n \<le> 222 \<and> n \<noteq> 215"]) code_simp

lemma isspace_NUL [simp]: "\<not> isspace NUL"
  by (simp add: isspace_iff)

lemma isblank_NUL [simp]: "\<not> isblank NUL"
  by (simp add: isblank_def)

lemma of_char_toupper:
  assumes "islower c"
  shows "(of_char (toupper c) :: nat) = of_char c - 32"
proof -
  have ge: "(32::nat) \<le> of_char c"
    using assms by (auto simp: islower_iff)
  then have "(32::u8) \<le> byte_of c"
    by (simp add: word_le_nat_alt)
  then have "unat (byte_of c - 32) = unat (byte_of c) - unat (32::u8)"
    by (rule unat_sub)
  then have "unat (byte_of c - 32) = of_char c - 32"
    by simp
  moreover have "(of_char c - 32 :: nat) < 256"
    using less_of_char [of c] by linarith
  ultimately show ?thesis
    using assms by (simp add: toupper_def char_byte_def)
qed

end
