(* ===== verification/Mem_String.thy ===== *)
theory Mem_String
  imports Ctype
begin

text \<open>
  The string and memory primitives of \<^verbatim>\<open>lib/string.c\<close>, over the byte memory of the
  prelude. Every routine is the source's loop; pointers are indices, \<open>NULL\<close> is \<open>None\<close> of a
  pointer option, and an access outside the memory makes the whole call \<open>None\<close>. The predicate
  \<open>cstr m a s\<close> says that the object at \<open>a\<close> is the NUL-terminated string \<open>s\<close>; the lemmas
  relate each routine to a plain list function on such strings, which is the interface the
  components above (hash table, environment, parsers) are modelled on.
\<close>

section \<open>Copying strings\<close>

function strcpy_loop :: "mem \<Rightarrow> ptr \<Rightarrow> ptr \<Rightarrow> mem option" where
  "strcpy_loop m dest src =
     (if src < length m \<and> dest < length m
      then let c = m ! src; m' = m[dest := c]
           in if c \<noteq> NUL then strcpy_loop m' (Suc dest) (Suc src) else Some m'
      else None)"
  by pat_completeness auto
termination
  by (relation "measure (\<lambda>(m, dest, src). length m - src)") auto

definition strcpy :: "mem \<Rightarrow> ptr \<Rightarrow> ptr \<Rightarrow> (mem \<times> ptr) option" where
  "strcpy m dest src = do { m' \<leftarrow> strcpy_loop m dest src; Some (m', dest) }"

fun strncpy_loop :: "mem \<Rightarrow> ptr \<Rightarrow> ptr \<Rightarrow> nat \<Rightarrow> mem option" where
  "strncpy_loop m dest src 0 = Some m"
| "strncpy_loop m dest src (Suc count) =
     (if src < length m \<and> dest < length m
      then let c = m ! src; m' = m[dest := c]
           in if c \<noteq> NUL then strncpy_loop m' (Suc dest) (Suc src) count else Some m'
      else None)"

definition strncpy :: "mem \<Rightarrow> ptr \<Rightarrow> ptr \<Rightarrow> nat \<Rightarrow> (mem \<times> ptr) option" where
  "strncpy m dest src count = do { m' \<leftarrow> strncpy_loop m dest src count; Some (m', dest) }"

text \<open>The loop \<open>while (*dest) dest++\<close>: the address of the terminating NUL.\<close>

function find_nul :: "mem \<Rightarrow> ptr \<Rightarrow> ptr option" where
  "find_nul m p =
     (if p < length m then (if m ! p \<noteq> NUL then find_nul m (Suc p) else Some p) else None)"
  by pat_completeness auto
termination
  by (relation "measure (\<lambda>(m, p). length m - p)") auto

declare strcpy_loop.simps [simp del] find_nul.simps [simp del]

definition strcat :: "mem \<Rightarrow> ptr \<Rightarrow> ptr \<Rightarrow> (mem \<times> ptr) option" where
  "strcat m dest src =
     do { e \<leftarrow> find_nul m dest; m' \<leftarrow> strcpy_loop m e src; Some (m', dest) }"

fun strncat_loop :: "mem \<Rightarrow> ptr \<Rightarrow> ptr \<Rightarrow> nat \<Rightarrow> mem option" where
  "strncat_loop m dest src 0 = None"
| "strncat_loop m dest src (Suc count) =
     (if src < length m \<and> dest < length m
      then let c = m ! src; m' = m[dest := c]
           in if c \<noteq> NUL
              then if count = 0 then wr m' (Suc dest) NUL
                   else strncat_loop m' (Suc dest) (Suc src) count
              else Some m'
      else None)"

definition strncat :: "mem \<Rightarrow> ptr \<Rightarrow> ptr \<Rightarrow> nat \<Rightarrow> (mem \<times> ptr) option" where
  "strncat m dest src count =
     (if count \<noteq> 0
      then do { e \<leftarrow> find_nul m dest; m' \<leftarrow> strncat_loop m e src count; Some (m', dest) }
      else Some (m, dest))"

section \<open>Comparing and searching strings\<close>

text \<open>
  The comparison result is kept in a \<open>signed char\<close>: the difference of the two characters
  is truncated to eight bits and read as a signed number.
\<close>

definition schar_diff :: "char \<Rightarrow> char \<Rightarrow> int" where
  "schar_diff a b = sint (byte_of a - byte_of b)"

function strcmp :: "mem \<Rightarrow> ptr \<Rightarrow> ptr \<Rightarrow> int option" where
  "strcmp m cs ct =
     (if cs < length m \<and> ct < length m
      then let res = schar_diff (m ! cs) (m ! ct)
           in if res \<noteq> 0 \<or> m ! cs = NUL then Some res else strcmp m (Suc cs) (Suc ct)
      else None)"
  by pat_completeness auto
termination
  by (relation "measure (\<lambda>(m, cs, ct). length m - cs)") auto

declare strcmp.simps [simp del]

fun strncmp_loop :: "mem \<Rightarrow> ptr \<Rightarrow> ptr \<Rightarrow> nat \<Rightarrow> int \<Rightarrow> int option" where
  "strncmp_loop m cs ct 0 res = Some res"
| "strncmp_loop m cs ct (Suc count) res =
     (if cs < length m \<and> ct < length m
      then let res' = schar_diff (m ! cs) (m ! ct)
           in if res' \<noteq> 0 \<or> m ! cs = NUL then Some res'
              else strncmp_loop m (Suc cs) (Suc ct) count res'
      else None)"

definition strncmp :: "mem \<Rightarrow> ptr \<Rightarrow> ptr \<Rightarrow> nat \<Rightarrow> int option" where
  "strncmp m cs ct count = strncmp_loop m cs ct count 0"

text \<open>The argument \<open>c\<close> is the \<open>int\<close> of the call after its conversion to \<open>char\<close>.\<close>

function strchr :: "mem \<Rightarrow> ptr \<Rightarrow> char \<Rightarrow> ptr option option" where
  "strchr m s c =
     (if s < length m
      then if m ! s \<noteq> c then (if m ! s = NUL then Some None else strchr m (Suc s) c)
           else Some (Some s)
      else None)"
  by pat_completeness auto
termination
  by (relation "measure (\<lambda>(m, s, c). length m - s)") auto

declare strchr.simps [simp del]

definition strlen :: "mem \<Rightarrow> ptr \<Rightarrow> nat option" where
  "strlen m s = do { sc \<leftarrow> find_nul m s; Some (sc - s) }"

fun strrchr_loop :: "mem \<Rightarrow> ptr \<Rightarrow> char \<Rightarrow> nat \<Rightarrow> ptr option option" where
  "strrchr_loop m s c n =
     (if s + n < length m
      then if m ! (s + n) = c then Some (Some (s + n))
           else (case n of 0 \<Rightarrow> Some None | Suc n' \<Rightarrow> strrchr_loop m s c n')
      else None)"

definition strrchr :: "mem \<Rightarrow> ptr \<Rightarrow> char \<Rightarrow> ptr option option" where
  "strrchr m s c = do { l \<leftarrow> strlen m s; strrchr_loop m s c l }"

declare strrchr_loop.simps [simp del]

function skip_spaces :: "mem \<Rightarrow> ptr \<Rightarrow> ptr option" where
  "skip_spaces m str =
     (if str < length m then (if isspace (m ! str) then skip_spaces m (Suc str) else Some str)
      else None)"
  by pat_completeness auto
termination
  by (relation "measure (\<lambda>(m, p). length m - p)") auto

declare skip_spaces.simps [simp del]

text \<open>The backward loop of \<open>strim\<close>, on the number \<open>n\<close> of characters kept: \<open>end = s + n - 1\<close>.\<close>

fun strim_back :: "mem \<Rightarrow> ptr \<Rightarrow> nat \<Rightarrow> nat" where
  "strim_back m s 0 = 0"
| "strim_back m s (Suc n) = (if isspace (m ! (s + n)) then strim_back m s n else Suc n)"

definition strim :: "mem \<Rightarrow> ptr \<Rightarrow> (mem \<times> ptr) option" where
  "strim m s0 =
     do { s \<leftarrow> skip_spaces m s0;
          size \<leftarrow> strlen m s;
          if size = 0 then Some (m, s)
          else do { m' \<leftarrow> wr m (s + strim_back m s size) NUL; Some (m', s) } }"

fun strnlen_loop :: "mem \<Rightarrow> ptr \<Rightarrow> nat \<Rightarrow> ptr option" where
  "strnlen_loop m sc 0 = Some sc"
| "strnlen_loop m sc (Suc count) =
     (if sc < length m then (if m ! sc \<noteq> NUL then strnlen_loop m (Suc sc) count else Some sc)
      else None)"

definition strnlen :: "mem \<Rightarrow> ptr \<Rightarrow> nat \<Rightarrow> nat option" where
  "strnlen m s count = do { sc \<leftarrow> strnlen_loop m s count; Some (sc - s) }"

section \<open>Tokens\<close>

text \<open>The inner loop of \<open>strspn\<close> and \<open>strpbrk\<close>: the first \<open>a\<close> with \<open>*a == c\<close> or \<open>*a == 0\<close>.\<close>

function scan_set :: "mem \<Rightarrow> char \<Rightarrow> ptr \<Rightarrow> ptr option" where
  "scan_set m c a =
     (if a < length m
      then if m ! a = NUL \<or> m ! a = c then Some a else scan_set m c (Suc a)
      else None)"
  by pat_completeness auto
termination
  by (relation "measure (\<lambda>(m, c, a). length m - a)") auto

declare scan_set.simps [simp del]

function strspn_loop :: "mem \<Rightarrow> ptr \<Rightarrow> ptr \<Rightarrow> nat \<Rightarrow> nat option" where
  "strspn_loop m p accept count =
     (if p < length m
      then if m ! p = NUL then Some count
           else (case scan_set m (m ! p) accept of
                   None \<Rightarrow> None
                 | Some a \<Rightarrow> if m ! a = NUL then Some count
                             else strspn_loop m (Suc p) accept (Suc count))
      else None)"
  by pat_completeness auto
termination
  by (relation "measure (\<lambda>(m, p, accept, count). length m - p)") auto

declare strspn_loop.simps [simp del]

definition strspn :: "mem \<Rightarrow> ptr \<Rightarrow> ptr \<Rightarrow> nat option" where
  "strspn m s accept = strspn_loop m s accept 0"

function strpbrk :: "mem \<Rightarrow> ptr \<Rightarrow> ptr \<Rightarrow> ptr option option" where
  "strpbrk m cs ct =
     (if cs < length m
      then if m ! cs = NUL then Some None
           else (case scan_set m (m ! cs) ct of
                   None \<Rightarrow> None
                 | Some a \<Rightarrow> if m ! a = NUL then strpbrk m (Suc cs) ct else Some (Some cs))
      else None)"
  by pat_completeness auto
termination
  by (relation "measure (\<lambda>(m, cs, ct). length m - cs)") auto

declare strpbrk.simps [simp del]

text \<open>
  \<open>strtok\<close> keeps its position in the static variable \<open>___strtok\<close>: an argument and a result
  of the model. The result is the memory, the new static value and the returned token.
\<close>

definition strtok :: "mem \<Rightarrow> ptr option \<Rightarrow> ptr option \<Rightarrow> ptr \<Rightarrow> (mem \<times> ptr option \<times> ptr option) option"
  where
  "strtok m st s ct =
     (case (case s of Some p \<Rightarrow> Some p | None \<Rightarrow> st) of
        None \<Rightarrow> Some (m, st, None)
      | Some sbegin0 \<Rightarrow>
          do { n \<leftarrow> strspn m sbegin0 ct;
               c \<leftarrow> rd m (sbegin0 + n);
               if c = NUL then Some (m, None, None)
               else do { send \<leftarrow> strpbrk m (sbegin0 + n) ct;
                         (case send of
                            None \<Rightarrow> Some (m, None, Some (sbegin0 + n))
                          | Some e \<Rightarrow>
                              do { d \<leftarrow> rd m e;
                                   if d \<noteq> NUL
                                   then do { m' \<leftarrow> wr m e NUL;
                                             Some (m', Some (Suc e), Some (sbegin0 + n)) }
                                   else Some (m, Some e, Some (sbegin0 + n)) }) } })"

text \<open>\<open>strsep\<close> updates the caller's pointer; the result is the memory, that pointer, the token.\<close>

definition strsep :: "mem \<Rightarrow> ptr option \<Rightarrow> ptr \<Rightarrow> (mem \<times> ptr option \<times> ptr option) option" where
  "strsep m s ct =
     (case s of
        None \<Rightarrow> Some (m, None, None)
      | Some sbegin \<Rightarrow>
          do { e \<leftarrow> strpbrk m sbegin ct;
               (case e of
                  None \<Rightarrow> Some (m, None, Some sbegin)
                | Some en \<Rightarrow> do { m' \<leftarrow> wr m en NUL; Some (m', Some (Suc en), Some sbegin) }) })"

function strswab_loop :: "mem \<Rightarrow> ptr \<Rightarrow> mem option" where
  "strswab_loop m p =
     (if p < length m
      then if m ! p = NUL then Some m
           else if Suc p < length m
                then if m ! Suc p = NUL then Some m
                     else strswab_loop (m[p := m ! Suc p, Suc p := m ! p]) (p + 2)
                else None
      else None)"
  by pat_completeness auto
termination
  by (relation "measure (\<lambda>(m, p). length m - p)") auto

declare strswab_loop.simps [simp del]

definition strswab :: "mem \<Rightarrow> ptr option \<Rightarrow> (mem \<times> ptr option) option" where
  "strswab m s =
     (case s of
        None \<Rightarrow> Some (m, None)
      | Some p \<Rightarrow> do { c \<leftarrow> rd m p;
                       if c = NUL then Some (m, None)
                       else do { m' \<leftarrow> strswab_loop m p; Some (m', Some p) } })"

section \<open>Blocks of memory\<close>

text \<open>A little-endian store and load of an \<open>unsigned long\<close> (four bytes).\<close>

definition st32 :: "mem \<Rightarrow> ptr \<Rightarrow> u32 \<Rightarrow> mem option" where
  "st32 m p w =
     (if p + 4 \<le> length m
      then Some (m[p := char_byte (ucast w),
                   p + 1 := char_byte (ucast (drop_bit 8 w)),
                   p + 2 := char_byte (ucast (drop_bit 16 w)),
                   p + 3 := char_byte (ucast (drop_bit 24 w))])
      else None)"

definition ld32 :: "mem \<Rightarrow> ptr \<Rightarrow> u32 option" where
  "ld32 m p =
     (if p + 4 \<le> length m
      then Some (ucast (byte_of (m ! p)) OR push_bit 8 (ucast (byte_of (m ! (p + 1)))) OR
                 push_bit 16 (ucast (byte_of (m ! (p + 2)))) OR
                 push_bit 24 (ucast (byte_of (m ! (p + 3)))))
      else None)"

fun memset_bytes :: "mem \<Rightarrow> ptr \<Rightarrow> char \<Rightarrow> nat \<Rightarrow> mem option" where
  "memset_bytes m s8 c 0 = Some m"
| "memset_bytes m s8 c (Suc count) = do { m' \<leftarrow> wr m s8 c; memset_bytes m' (Suc s8) c count }"

fun memset_cl :: "u32 \<Rightarrow> u32 \<Rightarrow> nat \<Rightarrow> u32" where
  "memset_cl cl c 0 = cl"
| "memset_cl cl c (Suc i) = memset_cl (push_bit 8 cl OR (c AND 0xff)) c i"

fun memset_words :: "mem \<Rightarrow> ptr \<Rightarrow> u32 \<Rightarrow> nat \<Rightarrow> (mem \<times> ptr \<times> nat) option" where
  "memset_words m sl cl count =
     (if count \<ge> 4
      then (case st32 m sl cl of None \<Rightarrow> None | Some m' \<Rightarrow> memset_words m' (sl + 4) cl (count - 4))
      else Some (m, sl, count))"

declare memset_words.simps [simp del]

definition memset :: "mem \<Rightarrow> ptr \<Rightarrow> u32 \<Rightarrow> nat \<Rightarrow> (mem \<times> ptr) option" where
  "memset m s c count =
     do { (m1, sl, n) \<leftarrow> (if s mod 4 = 0 then memset_words m s (memset_cl 0 c 4) count
                          else Some (m, s, count));
          m2 \<leftarrow> memset_bytes m1 sl (char_byte (ucast c)) n;
          Some (m2, s) }"

fun copy_up :: "mem \<Rightarrow> ptr \<Rightarrow> ptr \<Rightarrow> nat \<Rightarrow> mem option" where
  "copy_up m dest src 0 = Some m"
| "copy_up m dest src (Suc count) =
     do { c \<leftarrow> rd m src; m' \<leftarrow> wr m dest c; copy_up m' (Suc dest) (Suc src) count }"

fun copy_down :: "mem \<Rightarrow> ptr \<Rightarrow> ptr \<Rightarrow> nat \<Rightarrow> mem option" where
  "copy_down m dest src 0 = Some m"
| "copy_down m dest src (Suc count) =
     do { c \<leftarrow> rd m (src + count); m' \<leftarrow> wr m (dest + count) c; copy_down m' dest src count }"

definition bcopy :: "mem \<Rightarrow> ptr \<Rightarrow> ptr \<Rightarrow> nat \<Rightarrow> (mem \<times> ptr) option" where
  "bcopy m src dest count = do { m' \<leftarrow> copy_up m dest src count; Some (m', dest) }"

fun memcpy_words :: "mem \<Rightarrow> ptr \<Rightarrow> ptr \<Rightarrow> nat \<Rightarrow> (mem \<times> ptr \<times> ptr \<times> nat) option" where
  "memcpy_words m dl sl count =
     (if count \<ge> 4
      then (case ld32 m sl of
              None \<Rightarrow> None
            | Some w \<Rightarrow> (case st32 m dl w of
                           None \<Rightarrow> None
                         | Some m' \<Rightarrow> memcpy_words m' (dl + 4) (sl + 4) (count - 4)))
      else Some (m, dl, sl, count))"

declare memcpy_words.simps [simp del]

definition memcpy :: "mem \<Rightarrow> ptr \<Rightarrow> ptr \<Rightarrow> nat \<Rightarrow> (mem \<times> ptr) option" where
  "memcpy m dest src count =
     (if src = dest then Some (m, dest)
      else do { (m1, d8, s8, n) \<leftarrow> (if (dest mod 4 = 0 \<and> src mod 4 = 0)
                                    then memcpy_words m dest src count
                                    else Some (m, dest, src, count));
                m2 \<leftarrow> copy_up m1 d8 s8 n;
                Some (m2, dest) })"

definition memmove :: "mem \<Rightarrow> ptr \<Rightarrow> ptr \<Rightarrow> nat \<Rightarrow> (mem \<times> ptr) option" where
  "memmove m dest src count =
     (if src = dest then Some (m, dest)
      else if dest \<le> src then do { m' \<leftarrow> copy_up m dest src count; Some (m', dest) }
      else do { m' \<leftarrow> copy_down m dest src count; Some (m', dest) })"

fun memcmp :: "mem \<Rightarrow> ptr \<Rightarrow> ptr \<Rightarrow> nat \<Rightarrow> int option" where
  "memcmp m cs ct 0 = Some 0"
| "memcmp m cs ct (Suc count) =
     do { a \<leftarrow> rd m cs; b \<leftarrow> rd m ct;
          if a \<noteq> b then Some (of_char a - of_char b) else memcmp m (Suc cs) (Suc ct) count }"

text \<open>\<open>memscan\<close> compares the byte with the unconverted \<open>int\<close> argument.\<close>

fun memscan :: "mem \<Rightarrow> ptr \<Rightarrow> int \<Rightarrow> nat \<Rightarrow> ptr option" where
  "memscan m p c 0 = Some p"
| "memscan m p c (Suc n) =
     do { x \<leftarrow> rd m p; if of_char x = c then Some p else memscan m (Suc p) c n }"

text \<open>
  \<open>strstr\<close>: the loop runs on \<open>l1\<close>, the characters left, while \<open>l1 \<ge> l2\<close>; \<open>l2 > 0\<close> here, so
  the \<open>int\<close> counter never becomes negative.
\<close>

fun strstr_loop :: "mem \<Rightarrow> ptr \<Rightarrow> ptr \<Rightarrow> nat \<Rightarrow> nat \<Rightarrow> ptr option option" where
  "strstr_loop m s1 s2 0 l2 = Some None"
| "strstr_loop m s1 s2 (Suc l1) l2 =
     (if Suc l1 \<ge> l2
      then do { r \<leftarrow> memcmp m s1 s2 l2;
                if r = 0 then Some (Some s1) else strstr_loop m (Suc s1) s2 l1 l2 }
      else Some None)"

definition strstr :: "mem \<Rightarrow> ptr \<Rightarrow> ptr \<Rightarrow> ptr option option" where
  "strstr m s1 s2 =
     do { l2 \<leftarrow> strlen m s2;
          if l2 = 0 then Some (Some s1)
          else do { l1 \<leftarrow> strlen m s1; strstr_loop m s1 s2 l1 l2 } }"

fun memchr :: "mem \<Rightarrow> ptr \<Rightarrow> char \<Rightarrow> nat \<Rightarrow> ptr option option" where
  "memchr m p c 0 = Some None"
| "memchr m p c (Suc n) =
     do { x \<leftarrow> rd m p; if c = x then Some (Some p) else memchr m (Suc p) c n }"

fun check_bytes8 :: "mem \<Rightarrow> ptr \<Rightarrow> char \<Rightarrow> nat \<Rightarrow> ptr option option" where
  "check_bytes8 m start val 0 = Some None"
| "check_bytes8 m start val (Suc bytes) =
     do { x \<leftarrow> rd m start;
          if x \<noteq> val then Some (Some start) else check_bytes8 m (Suc start) val bytes }"

definition ld64 :: "mem \<Rightarrow> ptr \<Rightarrow> u64 option" where
  "ld64 m p = do { lo \<leftarrow> ld32 m p; hi \<leftarrow> ld32 m (p + 4); Some (ucast lo OR push_bit 32 (ucast hi)) }"

definition value64 :: "u8 \<Rightarrow> u64" where
  "value64 b =
     (let v0 = ucast b; v1 = v0 OR push_bit 8 v0; v2 = v1 OR push_bit 16 v1
      in v2 OR push_bit 32 v2)"

text \<open>
  The word loop of \<open>memchr_inv\<close>, \<open>words\<close> times; at its end the remaining \<open>rest\<close> bytes are
  checked one by one.
\<close>

fun memchr_inv_words :: "mem \<Rightarrow> ptr \<Rightarrow> char \<Rightarrow> nat \<Rightarrow> nat \<Rightarrow> ptr option option" where
  "memchr_inv_words m start val 0 rest = check_bytes8 m start val rest"
| "memchr_inv_words m start val (Suc words) rest =
     do { w \<leftarrow> ld64 m start;
          if w \<noteq> value64 (byte_of val) then check_bytes8 m start val 8
          else memchr_inv_words m (start + 8) val words rest }"

definition memchr_inv :: "mem \<Rightarrow> ptr \<Rightarrow> char \<Rightarrow> nat \<Rightarrow> ptr option option" where
  "memchr_inv m start val bytes =
     (if bytes \<le> 16 then check_bytes8 m start val bytes
      else let pre = start mod 8
           in if pre \<noteq> 0
              then do { r \<leftarrow> check_bytes8 m start val (8 - pre);
                        (case r of
                           Some q \<Rightarrow> Some (Some q)
                         | None \<Rightarrow> memchr_inv_words m (start + (8 - pre)) val
                                     ((bytes - (8 - pre)) div 8) ((bytes - (8 - pre)) mod 8)) }
              else memchr_inv_words m start val (bytes div 8) (bytes mod 8))"

section \<open>Strings and blocks in memory\<close>

fun cstr :: "mem \<Rightarrow> ptr \<Rightarrow> string \<Rightarrow> bool" where
  "cstr m a [] \<longleftrightarrow> a < length m \<and> m ! a = NUL"
| "cstr m a (c # s) \<longleftrightarrow> c \<noteq> NUL \<and> a < length m \<and> m ! a = c \<and> cstr m (Suc a) s"

definition slice :: "mem \<Rightarrow> ptr \<Rightarrow> nat \<Rightarrow> char list" where
  "slice m a n = take n (drop a m)"

definition store :: "mem \<Rightarrow> ptr \<Rightarrow> char list \<Rightarrow> mem" where
  "store m a bs = take a m @ bs @ drop (a + length bs) m"

lemma cstr_bound: "cstr m a s \<Longrightarrow> a + length s < length m"
  by (induction s arbitrary: a) fastforce+

lemma cstr_no_NUL: "cstr m a s \<Longrightarrow> NUL \<notin> set s"
  by (induction s arbitrary: a) auto

lemma cstr_nth: "cstr m a s \<Longrightarrow> i < length s \<Longrightarrow> m ! (a + i) = s ! i"
proof (induction s arbitrary: a i)
  case (Cons c s)
  then show ?case by (cases i) fastforce+
qed simp

lemma cstr_end: "cstr m a s \<Longrightarrow> m ! (a + length s) = NUL"
  by (induction s arbitrary: a) fastforce+

lemma cstr_update:
  "d < a \<or> a + length s < d \<Longrightarrow> cstr (m[d := c]) a s \<longleftrightarrow> cstr m a s"
  by (induction s arbitrary: a) auto

lemma cstr_append_drop: "cstr m a (s @ t) \<Longrightarrow> cstr m (a + length s) t"
  by (induction s arbitrary: a) fastforce+

lemma cstr_iff:
  "cstr m a s \<longleftrightarrow> NUL \<notin> set s \<and> a + length s < length m \<and>
     (\<forall>i < length s. m ! (a + i) = s ! i) \<and> m ! (a + length s) = NUL"
proof (induction s arbitrary: a)
  case (Cons c s)
  show ?case
    by (auto simp: Cons.IH All_less_Suc2)
qed auto

lemma length_store [simp]: "a + length bs \<le> length m \<Longrightarrow> length (store m a bs) = length m"
  by (simp add: store_def)

lemma store_Nil [simp]: "store m a [] = m"
  by (simp add: store_def)

lemma nth_store:
  "a + length bs \<le> length m \<Longrightarrow> i < length m \<Longrightarrow>
   store m a bs ! i = (if a \<le> i \<and> i < a + length bs then bs ! (i - a) else m ! i)"
  by (auto simp: store_def nth_append min_def)

lemma store_Cons:
  assumes "a < length m"
  shows "store (m[a := c]) (Suc a) bs = store m a (c # bs)"
  using assms by (simp add: store_def take_Suc_conv_app_nth take_update_cancel)

lemma store_snoc:
  assumes "a + length bs < length m"
  shows "store (m[a + length bs := c]) a bs = store m a (bs @ [c])"
proof (rule nth_equalityI)
  show "length (store (m[a + length bs := c]) a bs) = length (store m a (bs @ [c]))"
    using assms by simp
next
  fix i
  assume "i < length (store (m[a + length bs := c]) a bs)"
  with assms show "store (m[a + length bs := c]) a bs ! i = store m a (bs @ [c]) ! i"
    by (auto simp: nth_store nth_append nth_list_update)
qed

lemma store_append:
  assumes "a + length xs + length ys \<le> length m"
  shows "store (store m a xs) (a + length xs) ys = store m a (xs @ ys)"
  using assms by (cases xs) (auto simp: store_def min_def add.assoc add.commute [of "length ys"])

lemma length_slice [simp]: "a + n \<le> length m \<Longrightarrow> length (slice m a n) = n"
  by (simp add: slice_def)

lemma slice_Suc: "a < length m \<Longrightarrow> slice m a (Suc n) = m ! a # slice m (Suc a) n"
  by (simp add: slice_def Cons_nth_drop_Suc [symmetric])

lemma slice_snoc: "a + n < length m \<Longrightarrow> slice m a (Suc n) = slice m a n @ [m ! (a + n)]"
  by (simp add: slice_def take_Suc_conv_app_nth)

lemma slice_update: "d < a \<or> a + n \<le> d \<Longrightarrow> slice (m[d := c]) a n = slice m a n"
  by (auto simp: slice_def drop_update_swap take_update_cancel)

lemma slice_0 [simp]: "slice m a 0 = []"
  by (simp add: slice_def)

lemma cstr_store:
  assumes "NUL \<notin> set s" and "a + length s < length m"
  shows "cstr (store m a (s @ [NUL])) a s"
  using assms by (auto simp: cstr_iff nth_store nth_append)

lemma cstr_store_other:
  assumes "cstr m b t" and "a + length bs \<le> length m" and "a + length bs \<le> b \<or> b + length t < a"
  shows "cstr (store m a bs) b t"
  using assms by (auto simp: cstr_iff nth_store)

section \<open>Lengths, copies and comparisons on strings\<close>

lemma find_nul_cstr: "cstr m a s \<Longrightarrow> find_nul m a = Some (a + length s)"
  by (induction s arbitrary: a) (auto simp: find_nul.simps)

lemma strlen_cstr: "cstr m a s \<Longrightarrow> strlen m a = Some (length s)"
  by (simp add: strlen_def find_nul_cstr)

lemma strcpy_loop_store:
  assumes "cstr m src s" and "dest + length s < length m" and "dest \<le> src \<or> src + length s < dest"
  shows "strcpy_loop m dest src = Some (store m dest (s @ [NUL]))"
  using assms
proof (induction s arbitrary: m dest src)
  case Nil
  then show ?case
    using store_Cons [of dest m NUL "[]"] by (simp add: strcpy_loop.simps)
next
  case (Cons c s)
  let ?m = "m[dest := c]"
  have "cstr ?m (Suc src) s"
    using Cons.prems by (subst cstr_update) auto
  moreover have "Suc dest + length s < length ?m" and "Suc dest \<le> Suc src \<or> Suc src + length s < Suc dest"
    using Cons.prems by auto
  ultimately have "strcpy_loop ?m (Suc dest) (Suc src) = Some (store ?m (Suc dest) (s @ [NUL]))"
    by (rule Cons.IH)
  with Cons.prems show ?case
    by (simp add: strcpy_loop.simps [of m dest src] store_Cons)
qed

fun scmp :: "string \<Rightarrow> string \<Rightarrow> int" where
  "scmp [] [] = 0"
| "scmp (a # s) [] = schar_diff a NUL"
| "scmp [] (b # t) = schar_diff NUL b"
| "scmp (a # s) (b # t) = (if a \<noteq> b then schar_diff a b else scmp s t)"

lemma byte_of_inj: "byte_of a = byte_of b \<longleftrightarrow> a = b"
  by (metis char_byte_of)

lemma schar_diff_0 [simp]: "schar_diff a b = 0 \<longleftrightarrow> a = b"
proof -
  have "schar_diff a b = 0 \<longleftrightarrow> byte_of a - byte_of b = 0"
    unfolding schar_diff_def by (metis signed_0 signed_word_eqI)
  then show ?thesis by (simp add: byte_of_inj)
qed

lemma strcmp_scmp: "cstr m p s \<Longrightarrow> cstr m q t \<Longrightarrow> strcmp m p q = Some (scmp s t)"
  by (induction s t arbitrary: p q rule: scmp.induct) (auto simp: strcmp.simps)

lemma scmp_0: "NUL \<notin> set s \<Longrightarrow> NUL \<notin> set t \<Longrightarrow> scmp s t = 0 \<longleftrightarrow> s = t"
  by (induction s t rule: scmp.induct) auto

section \<open>Moving blocks\<close>

lemma copy_up_store:
  assumes "dest + n \<le> length m" and "src + n \<le> length m" and "dest \<le> src \<or> src + n \<le> dest"
  shows "copy_up m dest src n = Some (store m dest (slice m src n))"
  using assms
proof (induction n arbitrary: m dest src)
  case (Suc n)
  let ?m = "m[dest := m ! src]"
  have "copy_up ?m (Suc dest) (Suc src) n = Some (store ?m (Suc dest) (slice ?m (Suc src) n))"
    by (rule Suc.IH) (use Suc.prems in auto)
  moreover have "slice ?m (Suc src) n = slice m (Suc src) n"
    by (rule slice_update) (use Suc.prems in auto)
  ultimately show ?case
    using Suc.prems by (simp add: mem_simps store_Cons slice_Suc)
qed simp

lemma copy_down_store:
  assumes "dest + n \<le> length m" and "src + n \<le> length m" and "src \<le> dest"
  shows "copy_down m dest src n = Some (store m dest (slice m src n))"
  using assms
proof (induction n arbitrary: m)
  case (Suc n)
  let ?m = "m[dest + n := m ! (src + n)]"
  have "copy_down ?m dest src n = Some (store ?m dest (slice ?m src n))"
    by (rule Suc.IH) (use Suc.prems in auto)
  moreover have "slice ?m src n = slice m src n"
    by (rule slice_update) (use Suc.prems in auto)
  moreover have "store ?m dest (slice m src n) = store m dest (slice m src n @ [m ! (src + n)])"
    using Suc.prems store_snoc [of dest "slice m src n" m "m ! (src + n)"] by simp
  ultimately show ?case
    using Suc.prems by (simp add: mem_simps slice_snoc)
qed simp

lemma store_slice_same: "a + n \<le> length m \<Longrightarrow> store m a (slice m a n) = m"
  by (rule nth_equalityI) (auto simp: nth_store, simp add: slice_def)

lemma ucast_bytes:
  fixes a b c d :: u8
  defines "w \<equiv> (ucast a OR push_bit 8 (ucast b) OR push_bit 16 (ucast c) OR push_bit 24 (ucast d) :: u32)"
  shows "ucast w = a" and "ucast (drop_bit 8 w) = b" and "ucast (drop_bit 16 w) = c"
    and "ucast (drop_bit 24 w) = d"
  unfolding w_def by (rule bit_eqI; auto simp: bit_simps dest: bit_imp_le_length)+

lemma slice_4:
  "a + 4 \<le> length m \<Longrightarrow> slice m a 4 = [m ! a, m ! (a + 1), m ! (a + 2), m ! (a + 3)]"
  using slice_Suc [of a m 3] slice_Suc [of "a + 1" m 2] slice_Suc [of "a + 2" m 1]
    slice_Suc [of "a + 3" m 0]
  by (simp add: numeral_eq_Suc)

lemma st32_store:
  "p + 4 \<le> length m \<Longrightarrow>
   st32 m p w = Some (store m p [char_byte (ucast w), char_byte (ucast (drop_bit 8 w)),
                                 char_byte (ucast (drop_bit 16 w)), char_byte (ucast (drop_bit 24 w))])"
  by (simp add: st32_def store_Cons [symmetric] numeral_eq_Suc)

lemma ld32_bytes:
  assumes "p + 4 \<le> length m"
  obtains w where "ld32 m p = Some w" and "ucast w = byte_of (m ! p)"
    and "ucast (drop_bit 8 w) = byte_of (m ! (p + 1))"
    and "ucast (drop_bit 16 w) = byte_of (m ! (p + 2))"
    and "ucast (drop_bit 24 w) = byte_of (m ! (p + 3))"
  using assms ucast_bytes unfolding ld32_def by presburger

text \<open>Reads after writes.\<close>

lemma slice_store_apart:
  "a + n \<le> b \<or> b + length bs \<le> a \<Longrightarrow> b + length bs \<le> length m \<Longrightarrow> slice (store m b bs) a n = slice m a n"
  by (rule nth_equalityI) (auto simp: slice_def nth_store)

lemma slice_store_same: "b + length bs \<le> length m \<Longrightarrow> slice (store m b bs) b (length bs) = bs"
  by (simp add: slice_def store_def)

lemma drop_store: "b + length bs \<le> n \<Longrightarrow> n \<le> length m \<Longrightarrow> drop n (store m b bs) = drop n m"
  by (simp add: store_def)

lemma ld32_Some: "a + 4 \<le> length m \<Longrightarrow> \<exists>w. ld32 m a = Some w"
  by (rule ld32_bytes) auto

lemma ld32_slice:
  assumes "a + 4 \<le> length m" and "b + 4 \<le> length m'"
  shows "ld32 m a = ld32 m' b \<longleftrightarrow> slice m a 4 = slice m' b 4"
proof
  assume eq: "ld32 m a = ld32 m' b"
  obtain w where "ld32 m a = Some w" "ucast w = byte_of (m ! a)" "ucast (drop_bit 8 w) = byte_of (m ! (a + 1))"
    "ucast (drop_bit 16 w) = byte_of (m ! (a + 2))" "ucast (drop_bit 24 w) = byte_of (m ! (a + 3))"
    using assms(1) by (rule ld32_bytes)
  moreover obtain w' where "ld32 m' b = Some w'" "ucast w' = byte_of (m' ! b)" "ucast (drop_bit 8 w') = byte_of (m' ! (b + 1))"
    "ucast (drop_bit 16 w') = byte_of (m' ! (b + 2))" "ucast (drop_bit 24 w') = byte_of (m' ! (b + 3))"
    using assms(2) by (rule ld32_bytes)
  ultimately have "byte_of (m ! a) = byte_of (m' ! b)" "byte_of (m ! (a + 1)) = byte_of (m' ! (b + 1))"
    "byte_of (m ! (a + 2)) = byte_of (m' ! (b + 2))" "byte_of (m ! (a + 3)) = byte_of (m' ! (b + 3))"
    using eq by auto
  then show "slice m a 4 = slice m' b 4" using assms by (metis char_byte_of slice_4)
next
  assume "slice m a 4 = slice m' b 4"
  then have "m ! a = m' ! b" "m ! (a + 1) = m' ! (b + 1)" "m ! (a + 2) = m' ! (b + 2)" "m ! (a + 3) = m' ! (b + 3)"
    using slice_4 [OF assms(1)] slice_4 [OF assms(2)] by simp_all
  then show "ld32 m a = ld32 m' b" using assms by (simp add: ld32_def rd_def)
qed

lemma ld32_st32:
  assumes "a + 4 \<le> length m" and "st32 m a w = Some m'"
  shows "ld32 m' a = Some w"
proof -
  let ?bs = "[char_byte (ucast w), char_byte (ucast (drop_bit 8 w)), char_byte (ucast (drop_bit 16 w)), char_byte (ucast (drop_bit 24 w))]"
  have m': "m' = store m a ?bs" using assms by (simp add: st32_store)
  have four: "length ?bs = 4" by simp
  have "slice m' a 4 = ?bs" using slice_store_same [of a ?bs m, unfolded four] assms(1) by (simp add: m')
  then have n: "m' ! a = char_byte (ucast w)" "m' ! (a + 1) = char_byte (ucast (drop_bit 8 w))"
    "m' ! (a + 2) = char_byte (ucast (drop_bit 16 w))" "m' ! (a + 3) = char_byte (ucast (drop_bit 24 w))"
    using slice_4 [of a m'] assms(1) unfolding m' by simp_all
  have "(ucast (ucast w :: u8) :: u32) OR push_bit 8 (ucast (ucast (drop_bit 8 w) :: u8)) OR
      push_bit 16 (ucast (ucast (drop_bit 16 w) :: u8)) OR push_bit 24 (ucast (ucast (drop_bit 24 w) :: u8)) = w"
  proof (rule bit_word_eqI)
    fix n
    assume "n < LENGTH(32)"
    then show "bit ((ucast (ucast w :: u8) :: u32) OR push_bit 8 (ucast (ucast (drop_bit 8 w) :: u8)) OR
        push_bit 16 (ucast (ucast (drop_bit 16 w) :: u8)) OR push_bit 24 (ucast (ucast (drop_bit 24 w) :: u8))) n = bit w n"
      by (cases "n < 16"; cases "n < 24") (auto simp: bit_simps)
  qed
  then show ?thesis using n assms(1) by (simp add: ld32_def rd_def m')
qed

lemma st32_ld32:
  assumes "dl + 4 \<le> length m" and "sl + 4 \<le> length m"
  shows "\<exists>w. ld32 m sl = Some w \<and> st32 m dl w = Some (store m dl (slice m sl 4))"
  using assms(2) by (rule ld32_bytes) (use assms in \<open>auto simp: st32_store slice_4\<close>)

lemma memcpy_words_store:
  assumes "dl + n \<le> length m" and "sl + n \<le> length m" and "dl + 4 \<le> sl \<or> sl + n \<le> dl"
  shows "\<exists>k. k \<le> n \<and>
    memcpy_words m dl sl n = Some (store m dl (slice m sl k), dl + k, sl + k, n - k)"
  using assms
proof (induction m dl sl n rule: memcpy_words.induct)
  case (1 m dl sl n)
  show ?case
  proof (cases "n \<ge> 4")
    case False
    then show ?thesis by (intro exI [of _ 0]) (simp add: memcpy_words.simps)
  next
    case True
    let ?m = "store m dl (slice m sl 4)"
    obtain w where w: "ld32 m sl = Some w" "st32 m dl w = Some ?m"
      using st32_ld32 [of dl m sl] "1.prems" True by auto
    have len: "length ?m = length m"
      using "1.prems" True by simp
    obtain k where k: "k \<le> n - 4" "memcpy_words ?m (dl + 4) (sl + 4) (n - 4) =
        Some (store ?m (dl + 4) (slice ?m (sl + 4) k), dl + 4 + k, sl + 4 + k, n - 4 - k)"
      using "1.IH" [OF True w] "1.prems" True len by auto
    have "slice ?m (sl + 4) k = slice m (sl + 4) k"
      by (rule nth_equalityI) (use "1.prems" True k(1) in \<open>auto simp: slice_def nth_store\<close>)
    moreover have "slice m sl 4 @ slice m (sl + 4) k = slice m sl (4 + k)"
      by (simp add: slice_def take_add add.commute [of sl])
    ultimately have "store ?m (dl + 4) (slice ?m (sl + 4) k) = store m dl (slice m sl (4 + k))"
      using store_append [of dl "slice m sl 4" "slice m (sl + 4) k" m] "1.prems" True k(1) by simp
    with k w True show ?thesis
      by (intro exI [of _ "4 + k"]) (simp add: memcpy_words.simps [of m])
  qed
qed

lemma memset_cl_bytes:
  "ucast (memset_cl 0 c 4) = (ucast c :: u8)" "ucast (drop_bit 8 (memset_cl 0 c 4)) = (ucast c :: u8)"
  "ucast (drop_bit 16 (memset_cl 0 c 4)) = (ucast c :: u8)"
  "ucast (drop_bit 24 (memset_cl 0 c 4)) = (ucast c :: u8)"
proof -
  have four: "4 = Suc (Suc (Suc (Suc 0)))" by simp
  have "memset_cl 0 c 4 = ((c AND 0xff) OR push_bit 8 (c AND 0xff) OR
      push_bit 16 (c AND 0xff) OR push_bit 24 (c AND 0xff))"
    unfolding four memset_cl.simps by (rule bit_eqI) (auto simp: bit_simps)
  moreover have "c AND 0xff = ucast (ucast c :: u8)"
  proof -
    have "c AND mask 8 = ucast (ucast c :: u8)"
      by (rule bit_eqI) (auto simp: bit_simps)
    moreover have "(mask 8 :: u32) = 0xff" by (simp add: mask_eq_exp_minus_1)
    ultimately show ?thesis by metis
  qed
  ultimately have "memset_cl 0 c 4 = (ucast (ucast c :: u8) OR push_bit 8 (ucast (ucast c :: u8)) OR
      push_bit 16 (ucast (ucast c :: u8)) OR push_bit 24 (ucast (ucast c :: u8)))"
    by simp
  then show "ucast (memset_cl 0 c 4) = (ucast c :: u8)" "ucast (drop_bit 8 (memset_cl 0 c 4)) = (ucast c :: u8)"
  "ucast (drop_bit 16 (memset_cl 0 c 4)) = (ucast c :: u8)"
  "ucast (drop_bit 24 (memset_cl 0 c 4)) = (ucast c :: u8)"
    by (simp_all only: ucast_bytes)
qed

lemma replicate_4: "replicate 4 x = [x, x, x, x]"
  by (simp add: numeral_eq_Suc)

lemma memset_bytes_store:
  "p + n \<le> length m \<Longrightarrow> memset_bytes m p c n = Some (store m p (replicate n c))"
  by (induction n arbitrary: m p) (auto simp: mem_simps store_Cons)

lemma memset_words_store:
  assumes "p + n \<le> length m"
  shows "\<exists>k \<le> n. memset_words m p (memset_cl 0 c 4) n =
           Some (store m p (replicate k (char_byte (ucast c))), p + k, n - k)"
  using assms
proof (induction m p "memset_cl 0 c 4" n rule: memset_words.induct)
  case (1 m p n)
  let ?x = "char_byte (ucast c)"
  show ?case
  proof (cases "n \<ge> 4")
    case False
    then show ?thesis by (intro exI [of _ 0]) (simp add: memset_words.simps)
  next
    case True
    let ?m = "store m p (replicate 4 ?x)"
    have st: "st32 m p (memset_cl 0 c 4) = Some ?m"
      using "1.prems" True by (simp add: st32_store memset_cl_bytes replicate_4)
    obtain k where k: "k \<le> n - 4" "memset_words ?m (p + 4) (memset_cl 0 c 4) (n - 4) =
        Some (store ?m (p + 4) (replicate k ?x), p + 4 + k, n - 4 - k)"
      using "1.hyps" [OF True st] "1.prems" True by auto
    have "store ?m (p + 4) (replicate k ?x) = store m p (replicate (4 + k) ?x)"
      using store_append [of p "replicate 4 ?x" "replicate k ?x" m] "1.prems" True k(1)
      by (simp add: replicate_add)
    with k st True show ?thesis
      by (intro exI [of _ "4 + k"]) (simp add: memset_words.simps [of m])
  qed
qed

section \<open>Searching memory\<close>

definition find_from :: "ptr \<Rightarrow> (nat \<Rightarrow> bool) \<Rightarrow> nat \<Rightarrow> ptr option" where
  "find_from a P n = map_option (\<lambda>i. a + i) (find P [0..<n])"

lemma find_from_0 [simp]: "find_from a P 0 = None"
  by (simp add: find_from_def)

lemma find_from_Suc:
  "find_from a P (Suc n) = (if P 0 then Some a else find_from (Suc a) (\<lambda>i. P (Suc i)) n)"
proof -
  have "[0..<Suc n] = 0 # map Suc [0..<n]"
    by (simp add: map_Suc_upt upt_conv_Cons del: upt_Suc)
  moreover have "find P (map Suc xs) = map_option Suc (find (\<lambda>i. P (Suc i)) xs)" for xs
    by (induction xs) auto
  ultimately show ?thesis
    by (simp add: find_from_def option.map_comp comp_def del: upt_Suc)
qed

lemma check_bytes8_find:
  "a + n \<le> length m \<Longrightarrow> check_bytes8 m a v n = Some (find_from a (\<lambda>i. m ! (a + i) \<noteq> v) n)"
  by (induction n arbitrary: a) (auto simp: mem_simps find_from_Suc)

lemma check_bytes8_add:
  assumes "a + n + k \<le> length m"
  shows "check_bytes8 m a v (n + k) =
    (case check_bytes8 m a v n of None \<Rightarrow> None
     | Some None \<Rightarrow> check_bytes8 m (a + n) v k | Some (Some q) \<Rightarrow> Some (Some q))"
  using assms by (induction n arbitrary: a) (auto simp: mem_simps split: option.splits)

lemma value64_word:
  "value64 b = (let w = (ucast b OR push_bit 8 (ucast b) OR push_bit 16 (ucast b) OR push_bit 24 (ucast b) :: u32)
                in ucast w OR push_bit 32 (ucast w))"
proof -
  have push: "ucast (push_bit k (ucast b :: u32)) = (push_bit k (ucast b) :: u64)" if "k + 8 \<le> 32" for k
    using that by (intro bit_eqI) (auto simp: bit_simps dest: bit_imp_le_length)
  have "ucast (ucast b :: u32) = (ucast b :: u64)"
    using push [of 0] by simp
  then show ?thesis
    by (simp add: value64_def Let_def unsigned_or_eq push push_bit_or ac_simps)
qed

lemma word_halves:
  fixes a b c d :: u32
  shows "(ucast a OR push_bit 32 (ucast b) :: u64) = ucast c OR push_bit 32 (ucast d) \<longleftrightarrow> a = c \<and> b = d"
proof
  let ?f = "\<lambda>(a::u32) (b::u32). (ucast a OR push_bit 32 (ucast b) :: u64)"
  have "ucast (?f a b) = a" and "ucast (drop_bit 32 (?f a b)) = b" for a b
    by (rule bit_eqI; auto simp: bit_simps dest: bit_imp_le_length)+
  moreover assume "?f a b = ?f c d"
  ultimately show "a = c \<and> b = d" by metis
qed simp

lemma word_quarters:
  fixes b :: u8 and w :: u32
  shows "w = (ucast b OR push_bit 8 (ucast b) OR push_bit 16 (ucast b) OR push_bit 24 (ucast b)) \<longleftrightarrow>
     ucast w = b \<and> ucast (drop_bit 8 w) = b \<and> ucast (drop_bit 16 w) = b \<and> ucast (drop_bit 24 w) = b"
proof
  assume "w = (ucast b OR push_bit 8 (ucast b) OR push_bit 16 (ucast b) OR push_bit 24 (ucast b))"
  then show "ucast w = b \<and> ucast (drop_bit 8 w) = b \<and> ucast (drop_bit 16 w) = b \<and> ucast (drop_bit 24 w) = b"
    by (simp only: ucast_bytes simp_thms)
next
  let ?g = "\<lambda>(x::u8) (y::u8) (z::u8) (t::u8). (ucast x OR push_bit 8 (ucast y) OR push_bit 16 (ucast z) OR push_bit 24 (ucast t) :: u32)"
  assume h: "ucast w = b \<and> ucast (drop_bit 8 w) = b \<and> ucast (drop_bit 16 w) = b \<and> ucast (drop_bit 24 w) = b"
  have "w = ?g (ucast w) (ucast (drop_bit 8 w)) (ucast (drop_bit 16 w)) (ucast (drop_bit 24 w))"
    by (rule bit_eqI) (auto simp: bit_simps, rule ccontr, simp)
  with h show "w = ?g b b b b" by simp
qed

lemma pack_value64:
  fixes b :: u8 and lo hi :: u32
  shows "(ucast lo OR push_bit 32 (ucast hi) = value64 b) \<longleftrightarrow>
      ucast lo = b \<and> ucast (drop_bit 8 lo) = b \<and> ucast (drop_bit 16 lo) = b \<and> ucast (drop_bit 24 lo) = b \<and>
      ucast hi = b \<and> ucast (drop_bit 8 hi) = b \<and> ucast (drop_bit 16 hi) = b \<and> ucast (drop_bit 24 hi) = b"
  unfolding value64_word Let_def word_halves word_quarters by (simp only: conj_assoc)

lemma ld64_value64:
  assumes "p + 8 \<le> length m"
  shows "\<exists>w. ld64 m p = Some w \<and> (w = value64 (byte_of v) \<longleftrightarrow> (\<forall>i < 8. m ! (p + i) = v))"
proof -
  obtain lo where lo: "ld32 m p = Some lo" "ucast lo = byte_of (m ! p)"
    "ucast (drop_bit 8 lo) = byte_of (m ! (p + 1))" "ucast (drop_bit 16 lo) = byte_of (m ! (p + 2))"
    "ucast (drop_bit 24 lo) = byte_of (m ! (p + 3))"
    by (rule ld32_bytes [of p m]) (use assms in auto)
  obtain hi where hi: "ld32 m (p + 4) = Some hi" "ucast hi = byte_of (m ! (p + 4))"
    "ucast (drop_bit 8 hi) = byte_of (m ! (p + 5))" "ucast (drop_bit 16 hi) = byte_of (m ! (p + 6))"
    "ucast (drop_bit 24 hi) = byte_of (m ! (p + 7))"
    by (rule ld32_bytes [of "p + 4" m]) (use assms in \<open>auto simp: add.commute [of _ p]\<close>)
  have eq: "(ucast lo OR push_bit 32 (ucast hi) = value64 b) \<longleftrightarrow>
      ucast lo = b \<and> ucast (drop_bit 8 lo) = b \<and> ucast (drop_bit 16 lo) = b \<and> ucast (drop_bit 24 lo) = b \<and>
      ucast hi = b \<and> ucast (drop_bit 8 hi) = b \<and> ucast (drop_bit 16 hi) = b \<and> ucast (drop_bit 24 hi) = b"
    for b :: u8
    by (rule pack_value64)
  have all8: "(\<forall>i < 8. Q i) \<longleftrightarrow> Q 0 \<and> Q 1 \<and> Q 2 \<and> Q 3 \<and> Q 4 \<and> Q 5 \<and> Q 6 \<and> Q 7" for Q :: "nat \<Rightarrow> bool"
    by (simp add: numeral_eq_Suc All_less_Suc conj_ac)
  from lo hi show ?thesis
    by (simp add: ld64_def eq all8 byte_of_inj conj_assoc)
qed

lemma check_bytes8_all:
  assumes "a + n \<le> length m"
  shows "\<exists>r. check_bytes8 m a v n = Some r \<and> (r = None \<longleftrightarrow> (\<forall>i < n. m ! (a + i) = v))"
  using assms
proof (induction n arbitrary: a)
  case (Suc n)
  then show ?case
    using Suc.IH [of "Suc a"] by (auto simp: mem_simps All_less_Suc2)
qed simp

lemma memchr_inv_words_check:
  assumes "a + 8 * w + r \<le> length m"
  shows "memchr_inv_words m a v w r = check_bytes8 m a v (8 * w + r)"
  using assms
proof (induction w arbitrary: a)
  case (Suc w)
  obtain x where x: "ld64 m a = Some x" "x = value64 (byte_of v) \<longleftrightarrow> (\<forall>i < 8. m ! (a + i) = v)"
    using ld64_value64 [of a m v] Suc.prems by auto
  obtain y where y: "check_bytes8 m a v 8 = Some y" "y = None \<longleftrightarrow> (\<forall>i < 8. m ! (a + i) = v)"
    using check_bytes8_all [of a 8 m v] Suc.prems by auto
  have "memchr_inv_words m (a + 8) v w r = check_bytes8 m (a + 8) v (8 * w + r)"
    by (rule Suc.IH) (use Suc.prems in simp)
  moreover have "check_bytes8 m a v (8 + (8 * w + r)) =
      (case y of None \<Rightarrow> check_bytes8 m (a + 8) v (8 * w + r) | Some q \<Rightarrow> Some (Some q))"
    using check_bytes8_add [of a 8 "8 * w + r" m v] Suc.prems y(1) by simp
  ultimately show ?case
    using x y by (cases y) (auto simp: add.assoc)
qed simp

lemma memcmp_slice:
  assumes "a + n \<le> length m" and "b + n \<le> length m"
  shows "\<exists>r. memcmp m a b n = Some r \<and> (r = 0 \<longleftrightarrow> slice m a n = slice m b n)"
  using assms by (induction n arbitrary: a b) (auto simp: mem_simps slice_Suc)

lemma cstr_slice: "cstr m a s \<Longrightarrow> n \<le> length s \<Longrightarrow> slice m a n = take n s"
proof (induction s arbitrary: a n)
  case (Cons c s)
  then show ?case by (cases n) (auto simp: slice_Suc)
qed simp

definition occurs_at :: "string \<Rightarrow> string \<Rightarrow> nat \<Rightarrow> bool" where
  "occurs_at s t i \<longleftrightarrow> i + length t \<le> length s \<and> take (length t) (drop i s) = t"

lemma occurs_at_Cons_Suc [simp]: "occurs_at (c # s) t (Suc i) \<longleftrightarrow> occurs_at s t i"
  by (simp add: occurs_at_def)

lemma occurs_at_0: "occurs_at s t 0 \<longleftrightarrow> take (length t) s = t"
  by (auto simp: occurs_at_def) (metis length_take min.cobounded2 min.commute)

lemma occurs_at_Suc_cases: "occurs_at (c # s) t i \<longleftrightarrow>
    (i = 0 \<and> take (length t) (c # s) = t) \<or> (\<exists>j. i = Suc j \<and> occurs_at s t j)"
  by (cases i) (auto simp: occurs_at_0)

lemma occurs_at_length: "occurs_at s t i \<Longrightarrow> i + length t \<le> length s"
  by (auto simp: occurs_at_def)

definition first_occurrence :: "string \<Rightarrow> string \<Rightarrow> nat option \<Rightarrow> bool" where
  "first_occurrence s t r \<longleftrightarrow>
     (case r of None \<Rightarrow> \<forall>i. \<not> occurs_at s t i
      | Some i \<Rightarrow> occurs_at s t i \<and> (\<forall>j. occurs_at s t j \<longrightarrow> i \<le> j))"

lemma strstr_loop_first:
  assumes "cstr m p s" and "cstr m q t" and "t \<noteq> []"
  shows "\<exists>r. strstr_loop m p q (length s) (length t) = Some (map_option (\<lambda>i. p + i) r) \<and>
    first_occurrence s t r"
  using assms(1)
proof (induction s arbitrary: p)
  case Nil
  then show ?case
    using assms(3) by (auto simp: first_occurrence_def occurs_at_def)
next
  case (Cons c s)
  show ?case
  proof (cases "length t \<le> Suc (length s)")
    case False
    have "\<forall>i. \<not> occurs_at (c # s) t i"
      using False by (auto dest: occurs_at_length)
    then show ?thesis
      using False by (intro exI [of _ None]) (auto simp: first_occurrence_def)
  next
    case True
    obtain r where r: "memcmp m p q (length t) = Some r"
      "r = 0 \<longleftrightarrow> slice m p (length t) = slice m q (length t)"
      using memcmp_slice [of p "length t" m q] True cstr_bound [OF Cons.prems] cstr_bound [OF assms(2)]
      by auto
    have eq0: "r = 0 \<longleftrightarrow> take (length t) (c # s) = t"
      using r(2) cstr_slice [OF Cons.prems, of "length t"] cstr_slice [OF assms(2), of "length t"] True
      by simp
    obtain r' where r': "strstr_loop m (Suc p) q (length s) (length t) = Some (map_option (\<lambda>i. Suc p + i) r')"
      "first_occurrence s t r'"
      using Cons.IH [of "Suc p"] Cons.prems by (auto simp: comp_def)
    show ?thesis
    proof (cases "r = 0")
      case True
      with eq0 r \<open>length t \<le> Suc (length s)\<close> show ?thesis
        by (intro exI [of _ "Some 0"]) (auto simp: first_occurrence_def occurs_at_0)
    next
      case False
      with eq0 r r' \<open>length t \<le> Suc (length s)\<close> show ?thesis
        by (intro exI [of _ "map_option Suc r'"])
          (auto simp: first_occurrence_def occurs_at_Suc_cases split: option.splits)
    qed
  qed
qed

section \<open>Tokens of strings\<close>

lemma scan_set_cstr:
  assumes "cstr m a ds" and "c \<noteq> NUL"
  shows "\<exists>r. scan_set m c a = Some r \<and> (m ! r = NUL \<longleftrightarrow> c \<notin> set ds)"
  using assms by (induction ds arbitrary: a) (auto simp: scan_set.simps)

lemma strspn_loop_cstr:
  assumes "cstr m p s" and "cstr m d ds"
  shows "strspn_loop m p d k = Some (k + length (takeWhile (\<lambda>c. c \<in> set ds) s))"
  using assms(1)
proof (induction s arbitrary: p k)
  case (Cons c s)
  then show ?case
    using scan_set_cstr [OF assms(2), of c] by (auto simp: strspn_loop.simps)
qed (simp add: strspn_loop.simps)

lemma strpbrk_cstr:
  assumes "cstr m p s" and "cstr m d ds"
  shows "strpbrk m p d = Some (if \<exists>c \<in> set s. c \<in> set ds
     then Some (p + length (takeWhile (\<lambda>c. c \<notin> set ds) s)) else None)"
  using assms(1)
proof (induction s arbitrary: p)
  case (Cons c s)
  then show ?case
    using scan_set_cstr [OF assms(2), of c] by (auto simp: strpbrk.simps)
qed (simp add: strpbrk.simps)

lemma cstr_cut:
  assumes "cstr m a (s @ c # t)"
  shows "cstr (m[a + length s := NUL]) a s" and "cstr (m[a + length s := NUL]) (Suc (a + length s)) t"
proof -
  have "cstr m (a + length s) (c # t)" using assms by (rule cstr_append_drop)
  then show "cstr (m[a + length s := NUL]) (Suc (a + length s)) t"
    by (subst cstr_update) auto
  show "cstr (m[a + length s := NUL]) a s"
    using assms by (auto simp: cstr_iff nth_append)
qed

section \<open>Properties of the string library\<close>

text \<open>\<open>strcpy\<close> on a source string whose copy fits and does not run over the source's own
  tail returns the destination, leaves the same string there, and changes no byte outside it.\<close>

lemma strcpy_copies:
  assumes "cstr m src s" and "dest + length s < length m" and "dest \<le> src \<or> src + length s < dest"
  shows "\<exists>m'. strcpy m dest src = Some (m', dest) \<and> cstr m' dest s \<and> length m' = length m \<and>
    (\<forall>i < length m. i < dest \<or> dest + length s < i \<longrightarrow> m' ! i = m ! i)"
proof -
  let ?m' = "store m dest (s @ [NUL])"
  have "strcpy m dest src = Some (?m', dest)"
    by (simp add: strcpy_def strcpy_loop_store [OF assms])
  moreover have "cstr ?m' dest s"
    by (rule cstr_store) (use assms cstr_no_NUL in auto)
  moreover have "\<forall>i < length m. i < dest \<or> dest + length s < i \<longrightarrow> ?m' ! i = m ! i"
    using assms(2) by (auto simp: nth_store)
  ultimately show ?thesis using assms(2) by auto
qed

text \<open>\<open>strcmp\<close> on two NUL-terminated strings always returns, and returns zero exactly when
  the strings are equal, although it keeps the difference in a \<open>signed char\<close>.\<close>

lemma strcmp_zero_iff:
  assumes "cstr m cs s" and "cstr m ct t"
  shows "\<exists>r. strcmp m cs ct = Some r \<and> (r = 0 \<longleftrightarrow> s = t)"
  using assms strcmp_scmp scmp_0 cstr_no_NUL by blast

text \<open>The sign of \<open>strcmp\<close> is not an order: the \<open>signed char\<close> result wraps, so that
  each of the three strings 0x01, 0x50, 0xA0 compares below the next one, and the last compares
  below the first.\<close>

lemma strcmp_not_an_order:
  "let m = [CHR 0x01, NUL, CHR 0x50, NUL, CHR 0xA0, NUL]
   in (\<exists>r < 0. strcmp m 0 2 = Some r) \<and> (\<exists>r < 0. strcmp m 2 4 = Some r) \<and>
      (\<exists>r < 0. strcmp m 4 0 = Some r)"
  by (simp add: Let_def strcmp.simps schar_diff_def byte_of_def)

text \<open>C38. \<open>memmove\<close> copies the original contents of the source block whatever the overlap of the
  two blocks, and \<open>memcpy\<close>, which moves aligned words, does the same for disjoint blocks and for
  blocks moved towards lower addresses.\<close>

theorem memmove_block:
  assumes "dest + n \<le> length m" and "src + n \<le> length m"
  shows "memmove m dest src n = Some (store m dest (slice m src n), dest)"
  using assms by (auto simp: memmove_def copy_up_store copy_down_store store_slice_same)

theorem memmove_block_witness:
  "memmove ''abcdef'' 2 0 4 = Some (''ababcd'', 2)"
  using memmove_block [of 2 4 "''abcdef''" 0] by (simp add: store_def slice_def)

text \<open>\<open>memcpy\<close>, which copies aligned blocks a word at a time, is the byte-wise block copy
  for disjoint blocks and for blocks moved towards lower addresses.\<close>

lemma memcpy_block:
  assumes "dest + n \<le> length m" and "src + n \<le> length m" and "dest \<le> src \<or> src + n \<le> dest"
  shows "memcpy m dest src n = Some (store m dest (slice m src n), dest)"
proof (cases "src \<noteq> dest \<and> dest mod 4 = 0 \<and> src mod 4 = 0")
  case False
  then show ?thesis
    using assms by (auto simp: memcpy_def copy_up_store store_slice_same)
next
  case True
  then have apart: "dest + 4 \<le> src \<or> src + n \<le> dest"
    using assms(3) by presburger
  obtain k where k: "k \<le> n" "memcpy_words m dest src n =
      Some (store m dest (slice m src k), dest + k, src + k, n - k)"
    using memcpy_words_store [OF assms(1,2) apart] by blast
  let ?m = "store m dest (slice m src k)"
  have "copy_up ?m (dest + k) (src + k) (n - k) =
      Some (store ?m (dest + k) (slice ?m (src + k) (n - k)))"
    by (rule copy_up_store) (use assms k in auto)
  moreover have "slice ?m (src + k) (n - k) = slice m (src + k) (n - k)"
    by (rule nth_equalityI) (use assms k(1) in \<open>auto simp: slice_def nth_store\<close>)
  moreover have "slice m src k @ slice m (src + k) (n - k) = slice m src n"
    using k(1) take_add [of k "n - k" "drop src m"] by (simp add: slice_def add.commute [of src])
  ultimately have "copy_up ?m (dest + k) (src + k) (n - k) = Some (store m dest (slice m src n))"
    using store_append [of dest "slice m src k" "slice m (src + k) (n - k)" m] assms k(1) by simp
  with True k show ?thesis by (simp add: memcpy_def)
qed

text \<open>\<open>memset\<close>, which fills aligned blocks a word at a time, writes the low byte of its
  argument to every byte of the block and to nothing else.\<close>

lemma memset_fills:
  assumes "s + n \<le> length m"
  shows "memset m s c n = Some (store m s (replicate n (char_byte (ucast c))), s)"
proof (cases "s mod 4 = 0")
  case False
  then show ?thesis using assms by (auto simp: memset_def memset_bytes_store)
next
  case True
  let ?x = "char_byte (ucast c)"
  obtain k where k: "k \<le> n" "memset_words m s (memset_cl 0 c 4) n =
      Some (store m s (replicate k ?x), s + k, n - k)"
    using memset_words_store [OF assms] by blast
  have "store (store m s (replicate k ?x)) (s + k) (replicate (n - k) ?x) = store m s (replicate n ?x)"
    using store_append [of s "replicate k ?x" "replicate (n - k) ?x" m] assms k(1)
    by (simp add: replicate_add [symmetric])
  with True k assms show ?thesis
    by (simp add: memset_def memset_bytes_store)
qed

text \<open>\<open>memchr_inv\<close>, which skips eight bytes at a time once it is aligned, returns the address
  of the first byte of the block that differs from the value, and NULL when there is none.\<close>

lemma memchr_inv_first:
  assumes "start + n \<le> length m"
  shows "memchr_inv m start v n = Some (find_from start (\<lambda>i. m ! (start + i) \<noteq> v) n)"
proof -
  have "memchr_inv m start v n = check_bytes8 m start v n"
  proof (cases "n \<le> 16 \<or> start mod 8 = 0")
    case True
    then show ?thesis
      using assms by (auto simp: memchr_inv_def memchr_inv_words_check)
  next
    case False
    let ?k = "8 - start mod 8"
    have "?k \<le> n" using False by linarith
    then have "check_bytes8 m start v n =
      (case check_bytes8 m start v ?k of None \<Rightarrow> None
       | Some None \<Rightarrow> check_bytes8 m (start + ?k) v (n - ?k) | Some (Some q) \<Rightarrow> Some (Some q))"
      using check_bytes8_add [of start ?k "n - ?k" m v] assms by simp
    moreover have "memchr_inv_words m (start + ?k) v ((n - ?k) div 8) ((n - ?k) mod 8) =
        check_bytes8 m (start + ?k) v (n - ?k)"
      using memchr_inv_words_check [of "start + ?k" "(n - ?k) div 8" "(n - ?k) mod 8" m v]
        assms \<open>?k \<le> n\<close> by simp
    ultimately show ?thesis
      using False by (auto simp: memchr_inv_def Let_def split: option.splits)
  qed
  then show ?thesis by (simp add: check_bytes8_find assms)
qed

text \<open>\<open>strstr\<close> returns the address of the first occurrence of the second string in the first,
  and NULL exactly when it does not occur.\<close>

lemma strstr_first:
  assumes "cstr m p s" and "cstr m q t"
  shows "\<exists>r. strstr m p q = Some (map_option (\<lambda>i. p + i) r) \<and> first_occurrence s t r"
proof (cases "t = []")
  case True
  with strlen_cstr [OF assms(2)] show ?thesis
    by (intro exI [of _ "Some 0"]) (simp add: strstr_def first_occurrence_def occurs_at_def)
next
  case False
  with assms show ?thesis
    using strstr_loop_first [OF assms False] by (simp add: strstr_def strlen_cstr)
qed

lemma strpbrk_run:
  assumes "cstr m q left" and "cstr m d ds" and "tok = takeWhile (\<lambda>c. c \<notin> set ds) left"
  shows "strpbrk m q d = Some (if drop (length tok) left = [] then None else Some (q + length tok))"
proof -
  have "drop (length tok) left = dropWhile (\<lambda>c. c \<notin> set ds) left"
    using assms(3) by (simp add: dropWhile_eq_drop)
  then have "drop (length tok) left = [] \<longleftrightarrow> \<not> (\<exists>c \<in> set left. c \<in> set ds)"
    by (simp add: dropWhile_eq_Nil_conv)
  then show ?thesis
    using strpbrk_cstr [OF assms(1,2)] assms(3) by simp
qed

text \<open>\<open>strtok\<close> started on a string skips the leading delimiters; if nothing is left it returns
  NULL and forgets its position, otherwise it returns the address of the maximal run of
  non-delimiters, terminates it in place, and remembers the string behind the delimiter (or
  nothing, when the token ends the string).\<close>

lemma strtok_token:
  assumes "cstr m p s" and "cstr m d ds"
    and "left = dropWhile (\<lambda>c. c \<in> set ds) s" and "tok = takeWhile (\<lambda>c. c \<notin> set ds) left"
    and "q = p + (length s - length left)"
  shows "\<exists>m' nx. strtok m st (Some p) d = Some (m', nx, if left = [] then None else Some q) \<and>
    (left = [] \<longrightarrow> m' = m \<and> nx = None) \<and>
    (left \<noteq> [] \<longrightarrow> cstr m' q tok \<and>
      (case drop (length tok) left of [] \<Rightarrow> nx = None
       | _ # rest \<Rightarrow> nx = Some (q + length tok + 1) \<and> cstr m' (q + length tok + 1) rest))"
proof -
  let ?skip = "takeWhile (\<lambda>c. c \<in> set ds) s"
  have s: "s = ?skip @ left" using assms(3) by simp
  then have q: "q = p + length ?skip"
    using assms(5) by (metis add_diff_cancel_right' length_append)
  have span: "strspn m p d = Some (length ?skip)"
    using strspn_loop_cstr [OF assms(1,2), of 0] by (simp add: strspn_def)
  have left: "cstr m q left"
    using assms(1) cstr_append_drop [of m p ?skip left] s q by simp
  show ?thesis
  proof (cases left)
    case Nil
    with left span q show ?thesis by (simp add: strtok_def rd_def)
  next
    case (Cons c cs)
    have c: "rd m q = Some c" "c \<noteq> NUL"
      using left Cons by (auto simp: rd_def)
    let ?after = "drop (length tok) left"
    have split: "left = tok @ ?after"
      using assms(4) by (metis append_take_drop_id takeWhile_eq_take)
    have brk: "strpbrk m q d = Some (if ?after = [] then None else Some (q + length tok))"
      using strpbrk_run [OF left assms(2,4)] .
    show ?thesis
    proof (cases ?after)
      case Nil
      with split have "left = tok" by simp
      moreover have "strtok m st (Some p) d = Some (m, None, Some q)"
        using Nil brk c by (simp add: strtok_def span q [symmetric])
      ultimately show ?thesis using Nil left Cons by auto
    next
      case (Cons e rest)
      let ?m = "m[q + length tok := NUL]"
      have whole: "cstr m q (tok @ e # rest)" using left split Cons by simp
      have "cstr m (q + length tok) (e # rest)" using whole by (rule cstr_append_drop)
      then have "rd m (q + length tok) = Some e" "e \<noteq> NUL" "wr m (q + length tok) NUL = Some ?m"
        by (auto simp: rd_def wr_def)
      then have "strtok m st (Some p) d = Some (?m, Some (Suc (q + length tok)), Some q)"
        using Cons brk c by (simp add: strtok_def span q [symmetric])
      with Cons cstr_cut [OF whole] \<open>left = c # cs\<close> show ?thesis by simp
    qed
  qed
qed

end
