(* ===== verification/Qsort.thy ===== *)
theory Qsort
  imports Mem_String "HOL-Library.Multiset"
begin

text \<open>
  The shell sort of \<^verbatim>\<open>lib/qsort.c\<close>, which orders the entries of the environment before they are
  printed or saved. Elements are moved as a whole, so offsets are counted in elements rather
  than in bytes (\<open>wgap\<close> is always one modulo three in elements, and the byte computation
  \<open>(wgap - width) / 3\<close> is its exact multiple by \<open>width\<close>). The result is a permutation for every
  comparison function; it is sorted for one that meets the contract \<open>comparator\<close>.
\<close>

section \<open>The sort\<close>

text \<open>The gap: \<open>do wgap = 3 * wgap + 1; while (wgap < (nel - 1) / 3)\<close>.\<close>

function first_gap :: "nat \<Rightarrow> nat \<Rightarrow> nat" where
  "first_gap nel wgap =
     (let w = 3 * wgap + 1 in if w < (nel - 1) div 3 then first_gap nel w else w)"
  by pat_completeness auto
termination
  by (relation "measure (\<lambda>(nel, wgap). nel - wgap)") auto

declare first_gap.simps [simp del]

text \<open>The innermost loop: element \<open>j\<close> moves down in steps of \<open>wgap\<close> while it is out of order.\<close>

function qsort_sift :: "('a \<Rightarrow> 'a \<Rightarrow> int) \<Rightarrow> 'a list \<Rightarrow> nat \<Rightarrow> nat \<Rightarrow> 'a list" where
  "qsort_sift cmp xs wgap j =
     (let j' = j - wgap; a = xs ! j'; b = xs ! (j' + wgap)
      in if cmp a b \<le> 0 then xs
         else let xs' = xs[j' := b, j' + wgap := a]
              in if j' \<ge> wgap \<and> wgap > 0 then qsort_sift cmp xs' wgap j' else xs')"
  by pat_completeness auto
termination
  by (relation "measure (\<lambda>(cmp, xs, wgap, j). j)") auto

declare qsort_sift.simps [simp del]

text \<open>The middle loop over \<open>i = wgap, \<dots>, nel - 1\<close>.\<close>

function qsort_pass :: "('a \<Rightarrow> 'a \<Rightarrow> int) \<Rightarrow> 'a list \<Rightarrow> nat \<Rightarrow> nat \<Rightarrow> 'a list" where
  "qsort_pass cmp xs wgap i =
     (let xs' = qsort_sift cmp xs wgap i
      in if Suc i < length xs then qsort_pass cmp xs' wgap (Suc i) else xs')"
  by pat_completeness auto

lemma length_qsort_sift [simp]: "length (qsort_sift cmp xs wgap j) = length xs"
  by (induction cmp xs wgap j rule: qsort_sift.induct)
     (subst qsort_sift.simps, simp add: Let_def)

termination qsort_pass
  by (relation "measure (\<lambda>(cmp, xs, wgap, i). length xs - i)") auto

declare qsort_pass.simps [simp del]

text \<open>The outer loop: \<open>wgap = (wgap - 1) / 3\<close> until it is zero.\<close>

fun qsort_gaps :: "('a \<Rightarrow> 'a \<Rightarrow> int) \<Rightarrow> 'a list \<Rightarrow> nat \<Rightarrow> 'a list" where
  "qsort_gaps cmp xs wgap =
     (let xs' = qsort_pass cmp xs wgap wgap; w = (wgap - 1) div 3
      in if w = 0 then xs' else qsort_gaps cmp xs' w)"

declare qsort_gaps.simps [simp del]

definition qsort :: "('a \<Rightarrow> 'a \<Rightarrow> int) \<Rightarrow> 'a list \<Rightarrow> 'a list" where
  "qsort cmp xs =
     (if length xs > 1 then qsort_gaps cmp xs (first_gap (length xs) 0) else xs)"

section \<open>The result is a permutation\<close>

lemma mset_qsort_sift:
  assumes "wgap \<le> j" and "j < length xs"
  shows "mset (qsort_sift cmp xs wgap j) = mset xs"
  using assms
proof (induction cmp xs wgap j rule: qsort_sift.induct)
  case (1 cmp xs wgap j)
  have swap: "mset (xs[j - wgap := xs ! j, j := xs ! (j - wgap)]) = mset xs"
    using "1.prems" by (simp add: mset_swap)
  with 1 show ?case
    by (subst qsort_sift.simps) (simp add: Let_def)
qed

lemma mset_qsort_pass:
  assumes "wgap \<le> i" and "i < length xs"
  shows "mset (qsort_pass cmp xs wgap i) = mset xs"
  using assms
proof (induction cmp xs wgap i rule: qsort_pass.induct)
  case (1 cmp xs wgap i)
  then show ?case
    by (subst qsort_pass.simps) (simp add: Let_def mset_qsort_sift)
qed

lemma length_qsort_pass:
  "wgap \<le> i \<Longrightarrow> i < length xs \<Longrightarrow> length (qsort_pass cmp xs wgap i) = length xs"
  by (metis mset_qsort_pass size_mset)

lemma mset_qsort_gaps:
  assumes "wgap < length xs"
  shows "mset (qsort_gaps cmp xs wgap) = mset xs"
  using assms
proof (induction cmp xs wgap rule: qsort_gaps.induct)
  case (1 cmp xs wgap)
  then show ?case
    by (subst qsort_gaps.simps) (auto simp: Let_def mset_qsort_pass length_qsort_pass)
qed

lemma first_gap_less:
  assumes "wgap < (nel - 1) div 3 \<or> wgap = 0" and "1 < nel"
  shows "first_gap nel wgap < nel"
  using assms
proof (induction nel wgap rule: first_gap.induct)
  case (1 nel wgap)
  have "3 * wgap + 1 < nel" using "1.prems" by linarith
  with 1 show ?case
    by (subst first_gap.simps) (auto simp: Let_def)
qed

text \<open>The gaps that occur: 1, 4, 13, \<open>\<dots>\<close>; the last pass has gap one.\<close>

inductive gap :: "nat \<Rightarrow> bool" where
  gap_0: "gap 0"
| gap_step: "gap g \<Longrightarrow> gap (3 * g + 1)"

lemma first_gap_gap: "gap wgap \<Longrightarrow> gap (first_gap nel wgap) \<and> 0 < first_gap nel wgap"
proof (induction nel wgap rule: first_gap.induct)
  case (1 nel wgap)
  then show ?case
    using gap_step [of wgap] by (subst (1 2) first_gap.simps) (simp add: Let_def)
qed

lemma mset_qsort: "mset (qsort cmp xs) = mset xs"
  by (simp add: qsort_def mset_qsort_gaps first_gap_less)

section \<open>The result is sorted\<close>

text \<open>
  What the sort relies on: on the elements \<open>A\<close> that occur, the sign of the comparison is a
  total preorder.
\<close>

locale comparator =
  fixes cmp :: "'a \<Rightarrow> 'a \<Rightarrow> int" and A :: "'a set"
  assumes comp_total: "a \<in> A \<Longrightarrow> b \<in> A \<Longrightarrow> cmp a b \<le> 0 \<or> cmp b a \<le> 0"
    and comp_trans: "a \<in> A \<Longrightarrow> b \<in> A \<Longrightarrow> c \<in> A \<Longrightarrow> cmp a b \<le> 0 \<Longrightarrow> cmp b c \<le> 0 \<Longrightarrow> cmp a c \<le> 0"
begin

abbreviation ordered :: "'a list \<Rightarrow> bool" where
  "ordered \<equiv> sorted_wrt (\<lambda>a b. cmp a b \<le> 0)"

lemma sift_one:
  assumes "set ys \<subseteq> A" and "x \<in> A" and "ordered ys" and "ys \<noteq> []"
  shows "\<exists>us. qsort_sift cmp (ys @ x # zs) 1 (length ys) = us @ zs \<and>
    mset us = mset (ys @ [x]) \<and> ordered us"
  using assms
proof (induction ys arbitrary: zs rule: rev_induct)
  case (snoc y ys)
  have A: "set ys \<subseteq> A" "y \<in> A" "x \<in> A" and ord: "ordered ys" "\<forall>z \<in> set ys. cmp z y \<le> 0"
    using snoc.prems by (auto simp: sorted_wrt_append)
  have nth: "(ys @ y # x # zs) ! Suc (length ys) = x"
    by (simp add: nth_append)
  have upd: "(ys @ x # x # zs)[Suc (length ys) := y] = ys @ x # y # zs"
    by (simp add: list_update_append)
  show ?case
  proof (cases "cmp y x \<le> 0")
    case True
    have "cmp z x \<le> 0" if "z \<in> set ys" for z
      using that True A ord(2) comp_trans [of z y x] by blast
    with True ord have "ordered (ys @ [y, x])"
      by (simp add: sorted_wrt_append)
    with True show ?thesis
      by (intro exI [of _ "ys @ [y, x]"]) (subst qsort_sift.simps, simp add: Let_def nth)
  next
    case False
    then have xy: "cmp x y \<le> 0" using A comp_total by blast
    show ?thesis
    proof (cases "ys = []")
      case True
      with False xy show ?thesis
        by (intro exI [of _ "[x, y]"]) (subst qsort_sift.simps, simp add: Let_def)
    next
      case ne: False
      obtain us where us: "qsort_sift cmp (ys @ x # y # zs) 1 (length ys) = us @ y # zs"
        "mset us = mset (ys @ [x])" "ordered us"
        using snoc.IH [of "y # zs"] A ord ne by auto
      have "set us = insert x (set ys)" using us(2) by (metis mset_eq_setD set_append list.set(1,2) Un_insert_right sup_bot_right)
      with us ord xy have "ordered (us @ [y])" by (auto simp: sorted_wrt_append)
      moreover have "qsort_sift cmp ((ys @ [y]) @ x # zs) 1 (length (ys @ [y])) = (us @ [y]) @ zs"
        using False ne us(1) by (subst qsort_sift.simps) (simp add: Let_def nth upd Suc_le_eq)
      ultimately show ?thesis
        using us(2) by (intro exI [of _ "us @ [y]"]) auto
    qed
  qed
qed simp

lemma pass_one:
  assumes "set xs \<subseteq> A" and "0 < i" and "i < length xs" and "ordered (take i xs)"
  shows "ordered (qsort_pass cmp xs 1 i)"
  using assms
proof (induction "length xs - i" arbitrary: xs i)
  case (Suc k)
  let ?xs = "qsort_sift cmp xs 1 i"
  have split: "xs = take i xs @ xs ! i # drop (Suc i) xs"
    using Suc.prems(3) by (simp add: id_take_nth_drop)
  have "set (take i xs) \<subseteq> A" and "xs ! i \<in> A" and ne: "take i xs \<noteq> []"
    using Suc.prems by (auto dest: in_set_takeD)
  then obtain us where us: "?xs = us @ drop (Suc i) xs" "mset us = mset (take i xs @ [xs ! i])"
      "ordered us"
    using sift_one [of "take i xs" "xs ! i" "drop (Suc i) xs"] Suc.prems split by auto
  have len: "length us = Suc i"
    using us(2) Suc.prems(3) by (metis length_append_singleton length_take less_or_eq_imp_le min_absorb2 size_mset)
  show ?case
  proof (cases "Suc i < length xs")
    case True
    have "set ?xs \<subseteq> A"
      using Suc.prems by (metis mset_eq_setD mset_qsort_sift less_eq_Suc_le One_nat_def)
    moreover have "ordered (take (Suc i) ?xs)"
      using us len by simp
    ultimately have "ordered (qsort_pass cmp ?xs 1 (Suc i))"
      using Suc.hyps(1) [of ?xs "Suc i"] Suc.hyps(2) True by simp
    with True show ?thesis
      by (subst qsort_pass.simps) (simp add: Let_def)
  next
    case False
    with us show ?thesis
      by (subst qsort_pass.simps) (simp add: Let_def)
  qed
qed simp

lemma gaps_sorted:
  assumes "gap wgap" and "0 < wgap" and "wgap < length xs" and "set xs \<subseteq> A"
  shows "ordered (qsort_gaps cmp xs wgap)"
  using assms
proof (induction wgap arbitrary: xs rule: gap.induct)
  case (gap_step g)
  let ?xs = "qsort_pass cmp xs (3 * g + 1) (3 * g + 1)"
  show ?case
  proof (cases "g = 0")
    case True
    moreover have "take 1 xs = [xs ! 0]"
      using gap_step.prems by (cases xs) auto
    then have "ordered (qsort_pass cmp xs 1 1)"
      using True gap_step.prems by (intro pass_one) auto
    ultimately show ?thesis
      by (subst qsort_gaps.simps) simp
  next
    case False
    have "mset ?xs = mset xs"
      using gap_step.prems by (intro mset_qsort_pass) auto
    then have "length ?xs = length xs" and "set ?xs = set xs"
      by (metis size_mset, metis mset_eq_setD)
    with False gap_step.prems gap_step.IH [of ?xs] have "ordered (qsort_gaps cmp ?xs g)"
      by simp
    with False show ?thesis
      by (subst qsort_gaps.simps) simp
  qed
qed simp

lemma qsort_ordered:
  assumes "set xs \<subseteq> A"
  shows "ordered (qsort cmp xs)"
proof (cases "1 < length xs")
  case True
  with assms first_gap_gap [OF gap_0, of "length xs"] show ?thesis
    by (simp add: qsort_def gaps_sorted first_gap_less)
next
  case False
  then show ?thesis by (cases xs) (auto simp: qsort_def)
qed

end

section \<open>Comparing keys\<close>

text \<open>
  \<open>strcmp_compar\<close> and \<open>cmpkey\<close> of the hash table compare keys with \<open>strcmp\<close>, on strings \<open>scmp\<close>.
  For 7-bit strings its sign is the lexicographic order, so the contract holds there.
\<close>

definition ascii :: "string \<Rightarrow> bool" where
  "ascii s \<longleftrightarrow> list_all (\<lambda>c. c \<noteq> NUL \<and> (of_char c :: nat) < 128) s"

lemma ascii_simps [simp]:
  "ascii []" "ascii (c # s) \<longleftrightarrow> c \<noteq> NUL \<and> (of_char c :: nat) < 128 \<and> ascii s"
  by (auto simp: ascii_def)

lemma schar_diff_ascii:
  assumes "(of_char a :: nat) < 128" and "(of_char b :: nat) < 128"
  shows "schar_diff a b = int (of_char a) - int (of_char b)"
proof -
  let ?d = "int (of_char a) - int (of_char b)"
  have "byte_of a - byte_of b = word_of_int ?d"
    by (simp add: byte_of_def)
  then have "schar_diff a b = signed_take_bit (LENGTH(8) - Suc 0) ?d"
    unfolding schar_diff_def by (metis of_int_eq_id id_apply signed_of_int)
  also have "\<dots> = ?d"
    by (rule signed_take_bit_int_eq_self) (use assms in auto)
  finally show ?thesis .
qed

lemma of_char_NUL_less: "c \<noteq> NUL \<longleftrightarrow> 0 < (of_char c :: nat)"
  using of_char_eq_iff [of c NUL, where 'a = nat] by auto

lemma scmp_flip: "ascii s \<Longrightarrow> ascii t \<Longrightarrow> scmp t s = - scmp s t"
  by (induction s t rule: scmp.induct) (auto simp: schar_diff_ascii)

lemma scmp_trans:
  "ascii s \<Longrightarrow> ascii t \<Longrightarrow> ascii u \<Longrightarrow> scmp s t \<le> 0 \<Longrightarrow> scmp t u \<le> 0 \<Longrightarrow> scmp s u \<le> 0"
proof (induction s t arbitrary: u rule: scmp.induct)
  case 1
  then show ?case by simp
next
  case (2 a s)
  then show ?case by (cases u) (auto simp: schar_diff_ascii of_char_NUL_less)
next
  case (3 b t)
  then show ?case by (cases u) (auto simp: schar_diff_ascii of_char_NUL_less)
next
  case (4 a s b t)
  then show ?case by (cases u) (auto simp: schar_diff_ascii of_char_NUL_less split: if_splits)
qed

interpretation keys: comparator scmp "{s. ascii s}"
proof unfold_locales
  fix a b :: string
  assume "a \<in> {s. ascii s}" and "b \<in> {s. ascii s}"
  then show "scmp a b \<le> 0 \<or> scmp b a \<le> 0"
    using scmp_flip [of a b] by auto
qed (auto intro: scmp_trans)

text \<open>C37. \<open>qsort\<close> with the key comparison returns a permutation of its input, and a sorted one
  when the keys are 7-bit strings.\<close>

theorem qsort_keys:
  "mset (qsort scmp xs) = mset xs \<and>
   (list_all ascii xs \<longrightarrow> sorted_wrt (\<lambda>a b. scmp a b \<le> 0) (qsort scmp xs))"
  using keys.qsort_ordered [of xs] by (auto simp: mset_qsort list_all_iff)

theorem qsort_keys_witness:
  "sorted_wrt (\<lambda>a b. scmp a b \<le> 0) (qsort scmp [''b'', ''a'', ''ab''])"
  using qsort_keys [of "[''b'', ''a'', ''ab'']"] by simp

end
