(* ===== verification/Hashtable.thy ===== *)
theory Hashtable
  imports Qsort
begin

text \<open>
  The hash table of \<^verbatim>\<open>lib/hashtable.c\<close>, which holds the environment: open addressing with double
  hashing, deletion by a mark, export to and import from the linear \<open>name=value\<close> form.
  The state is the C \<open>struct hsearch_data\<close> as a record; slot 0 of the table is never used; an entry's
  strings are values (the C code owns a private copy of each). The outcomes of the calls to
  \<open>malloc\<close> are an explicit list of booleans, consumed in order (an exhausted list means success).
  A call whose result is \<open>None\<close> does not return normally: it reads through a null pointer, reads
  outside its buffer, or loops. The theory shows that the table is a finite map under its
  invariant and that export and import are inverse.
\<close>

section \<open>Data\<close>

datatype ACTION = FIND | ENTER

datatype errno = EINVAL | ENOMEM | ESRCH

record ENTRY =
  key :: "string option"
  data :: "string option"

record slot =
  used :: int
  entry :: ENTRY

type_synonym callback = "string \<Rightarrow> string option \<Rightarrow> string option \<Rightarrow> nat \<Rightarrow> bool"

type_synonym cb_call = "string option \<times> string option \<times> string option \<times> nat"

record hsearch_data =
  ht_table :: "slot list option"
  ht_size :: nat
  ht_filled :: nat
  ht_apply :: "callback option"

text \<open>The flags of the import and of the callback (\<^verbatim>\<open>include/search.h\<close>).\<close>

definition H_NOCLEAR :: nat where "H_NOCLEAR = 1"
definition H_FORCE :: nat where "H_FORCE = 2"

definition empty_slot :: slot where
  "empty_slot = \<lparr>used = 0, entry = \<lparr>key = None, data = None\<rparr>\<rparr>"

text \<open>Outcomes of the allocator.\<close>

type_synonym mallocs = "bool list"

fun next_malloc :: "mallocs \<Rightarrow> bool \<times> mallocs" where
  "next_malloc [] = (True, [])"
| "next_malloc (b # bs) = (b, bs)"

definition strdup :: "string option \<Rightarrow> mallocs \<Rightarrow> string option \<times> mallocs" where
  "strdup s mo =
     (case s of None \<Rightarrow> (None, mo)
      | Some x \<Rightarrow> (let (ok, mo') = next_malloc mo in (if ok then Some x else None, mo')))"

section \<open>Creating and destroying\<close>

text \<open>
  \<open>unsigned int\<close> and \<open>size_t\<close> have 32 bits: the square of the divisor, the next divisor and the next candidate
  wrap around. \<open>None\<close> would be a loop without end.
\<close>

partial_function (option) isprime_loop :: "nat \<Rightarrow> nat \<Rightarrow> nat option" where
  "isprime_loop number d =
     (if d * d mod 2 ^ 32 < number \<and> number mod d \<noteq> 0 then isprime_loop number ((d + 2) mod 2 ^ 32) else Some d)"

definition isprime :: "nat \<Rightarrow> bool option" where
  "isprime number = do { d \<leftarrow> isprime_loop number 3; Some (number mod d \<noteq> 0) }"

text \<open>The loop \<open>while (!isprime(nel)) nel += 2\<close>.\<close>

partial_function (option) next_size :: "nat \<Rightarrow> nat option" where
  "next_size nel = do { p \<leftarrow> isprime nel; if p then Some nel else next_size ((nel + 2) mod 2 ^ 32) }"

text \<open>
  The result is the returned flag, the table and the remaining allocator outcomes.
  \<open>calloc\<close> zeroes the slots.
\<close>

definition hcreate_r ::
  "nat \<Rightarrow> hsearch_data \<Rightarrow> mallocs \<Rightarrow> (bool \<times> hsearch_data \<times> mallocs) option" where
  "hcreate_r nel htab mo =
     (if ht_table htab \<noteq> None then Some (False, htab, mo)
      else do { n \<leftarrow> next_size (nel OR 1);
                let (ok, mo') = next_malloc mo;
                let h = htab\<lparr>ht_size := n, ht_filled := 0\<rparr>;
                if ok then Some (True, h\<lparr>ht_table := Some (replicate (n + 1) empty_slot)\<rparr>, mo')
                else Some (False, h\<lparr>ht_table := None\<rparr>, mo') })"

text \<open>
  \<open>hdestroy_r\<close> tells the callback about every entry (forced), releases the strings and the
  table. The result lists the calls made to the callback: name, old value, new value, flag.
\<close>

definition hdestroy_r :: "hsearch_data \<Rightarrow> bool \<Rightarrow> (hsearch_data \<times> cb_call list) option" where
  "hdestroy_r htab do_apply =
     (case ht_table htab of
        None \<Rightarrow> None
      | Some t \<Rightarrow>
          let live = filter (\<lambda>s. used s > 0) (map (\<lambda>i. t ! i) [1..<ht_size htab + 1]);
              calls = (if do_apply \<and> ht_apply htab \<noteq> None
                       then map (\<lambda>s. (key (entry s), data (entry s), None, H_FORCE)) live else [])
          in Some (htab\<lparr>ht_table := None\<rparr>, calls))"

section \<open>Searching\<close>

text \<open>
  The hash of a key: the length, then four bits to the left and the next character, from the
  last character to the first, in 32-bit arithmetic; reduced to \<open>1 \<dots> size - 1\<close>.
\<close>

definition hash_key :: "string \<Rightarrow> u32" where
  "hash_key k = fold (\<lambda>c h. push_bit 4 h + ucast (byte_of c)) (rev k) (word_of_nat (length k))"

definition hash1 :: "nat \<Rightarrow> string \<Rightarrow> nat" where
  "hash1 sz k = (let h = unat (hash_key k) mod sz in if h = 0 then h + 1 else h)"

text \<open>The second hash; \<open>size - 2\<close> is an unsigned subtraction.\<close>

definition hash2 :: "nat \<Rightarrow> nat \<Rightarrow> nat" where
  "hash2 sz hval = 1 + hval mod ((sz + 2 ^ 32 - 2) mod 2 ^ 32)"

definition next_idx :: "nat \<Rightarrow> nat \<Rightarrow> nat \<Rightarrow> nat" where
  "next_idx sz hval2 idx = (if idx \<le> hval2 then sz + idx - hval2 else idx - hval2)"

text \<open>
  Whether the key of a slot is the searched one: the stored hash first, then \<open>strcmp\<close>; a null
  stored key would be read through.
\<close>

definition slot_match :: "slot \<Rightarrow> nat \<Rightarrow> string \<Rightarrow> bool option" where
  "slot_match s hval k =
     (if used s = int hval
      then (case key (entry s) of None \<Rightarrow> None | Some k' \<Rightarrow> Some (scmp k k' = 0))
      else Some False)"

datatype probe = Found nat | Vacant nat

text \<open>
  The \<open>do \<dots> while\<close> loop over the further indices. \<open>Vacant idx\<close>: it left at index \<open>idx\<close>, which is
  an empty slot, or the starting index after all were visited. The fuel bounds the iterations.
\<close>

fun probe_loop :: "nat \<Rightarrow> slot list \<Rightarrow> nat \<Rightarrow> nat \<Rightarrow> nat \<Rightarrow> string \<Rightarrow> nat \<Rightarrow> probe option" where
  "probe_loop 0 t sz hval hval2 k idx = None"
| "probe_loop (Suc fuel) t sz hval hval2 k idx =
     (let i = next_idx sz hval2 idx
      in if i = hval then Some (Vacant i)
         else (case slot_match (t ! i) hval k of
                 None \<Rightarrow> None
               | Some True \<Rightarrow> Some (Found i)
               | Some False \<Rightarrow>
                   if used (t ! i) \<noteq> 0 then probe_loop fuel t sz hval hval2 k i
                   else Some (Vacant i)))"

record hs_result =
  hs_ret :: nat
  hs_retval :: "nat option"
  hs_htab :: hsearch_data
  hs_errno :: "errno option"
  hs_mallocs :: mallocs

definition hs_fail :: "hsearch_data \<Rightarrow> errno \<Rightarrow> mallocs \<Rightarrow> hs_result" where
  "hs_fail h e mo = \<lparr>hs_ret = 0, hs_retval = None, hs_htab = h, hs_errno = Some e, hs_mallocs = mo\<rparr>"

text \<open>The entry was found at \<open>idx\<close>: overwrite its value (\<open>ENTER\<close> with data) and return it.\<close>

definition hs_found ::
  "string option \<Rightarrow> ACTION \<Rightarrow> nat \<Rightarrow> slot list \<Rightarrow> hsearch_data \<Rightarrow> mallocs \<Rightarrow> hs_result" where
  "hs_found d action idx t htab mo =
     (if action = ENTER \<and> d \<noteq> None
      then let (d', mo') = strdup d mo;
               s = (t ! idx)\<lparr>entry := (entry (t ! idx))\<lparr>data := d'\<rparr>\<rparr>;
               h = htab\<lparr>ht_table := Some (t[idx := s])\<rparr>
           in if d' = None then hs_fail h ENOMEM mo'
              else \<lparr>hs_ret = idx, hs_retval = Some idx, hs_htab = h, hs_errno = None, hs_mallocs = mo'\<rparr>
      else \<lparr>hs_ret = idx, hs_retval = Some idx, hs_htab = htab, hs_errno = None, hs_mallocs = mo\<rparr>)"

text \<open>No entry was found; the search left at \<open>idx\<close>. \<open>ENTER\<close> creates the entry.\<close>

definition hs_enter ::
  "string \<Rightarrow> string option \<Rightarrow> ACTION \<Rightarrow> nat \<Rightarrow> nat \<Rightarrow> nat \<Rightarrow> slot list \<Rightarrow> hsearch_data \<Rightarrow> mallocs \<Rightarrow> hs_result"
  where
  "hs_enter k d action hval first_deleted idx0 t htab mo =
     (if action = ENTER
      then if ht_filled htab = ht_size htab then hs_fail htab ENOMEM mo
           else let idx = (if first_deleted \<noteq> 0 then first_deleted else idx0);
                    (k', mo1) = strdup (Some k) mo;
                    (d', mo2) = strdup d mo1;
                    s = \<lparr>used = int hval, entry = \<lparr>key = k', data = d'\<rparr>\<rparr>;
                    h = htab\<lparr>ht_table := Some (t[idx := s])\<rparr>
                in if k' = None \<or> d' = None then hs_fail h ENOMEM mo2
                   else \<lparr>hs_ret = 1, hs_retval = Some idx, hs_htab = h\<lparr>ht_filled := ht_filled h + 1\<rparr>,
                         hs_errno = None, hs_mallocs = mo2\<rparr>
      else hs_fail htab ESRCH mo)"

definition hsearch_r ::
  "string \<Rightarrow> string option \<Rightarrow> ACTION \<Rightarrow> hsearch_data \<Rightarrow> mallocs \<Rightarrow> hs_result option" where
  "hsearch_r k d action htab mo =
     (case ht_table htab of
        None \<Rightarrow> None
      | Some t \<Rightarrow>
          let sz = ht_size htab; hval = hash1 sz k
          in if used (t ! hval) \<noteq> 0
             then let first_deleted = (if used (t ! hval) = -1 then hval else 0)
                  in (case slot_match (t ! hval) hval k of
                        None \<Rightarrow> None
                      | Some True \<Rightarrow> Some (hs_found d action hval t htab mo)
                      | Some False \<Rightarrow>
                          (case probe_loop sz t sz hval (hash2 sz hval) k hval of
                             None \<Rightarrow> None
                           | Some (Found i) \<Rightarrow> Some (hs_found d action i t htab mo)
                           | Some (Vacant i) \<Rightarrow> Some (hs_enter k d action hval first_deleted i t htab mo)))
             else Some (hs_enter k d action hval 0 hval t htab mo))"

text \<open>
  \<open>hdelete_r\<close>: the callback is informed but not asked (deletion is forced), the slot is marked
  \<open>-1\<close>. The result carries the calls made to the callback.
\<close>

definition hdelete_r ::
  "string \<Rightarrow> hsearch_data \<Rightarrow> bool \<Rightarrow> (bool \<times> hsearch_data \<times> errno option \<times> cb_call list) option" where
  "hdelete_r k htab do_apply =
     do { r \<leftarrow> hsearch_r k None FIND htab [];
          if hs_ret r = 0 then Some (False, htab, Some ESRCH, [])
          else (case ht_table htab of
                  None \<Rightarrow> None
                | Some t \<Rightarrow>
                    let idx = hs_ret r; e = entry (t ! idx);
                        calls = (if do_apply \<and> ht_apply htab \<noteq> None
                                 then [(key e, data e, None, H_FORCE)] else [])
                    in Some (True, htab\<lparr>ht_table := Some (t[idx := (t ! idx)\<lparr>used := -1\<rparr>]),
                                        ht_filled := ht_filled htab - 1\<rparr>, None, calls)) }"

text \<open>
  The two scans for completion and \<open>grepenv\<close>: the next slot after \<open>last_idx\<close> whose key starts
  with the given text, and whose key or value contains it. The test of a slot is \<open>None\<close> where it
  would read a null string.
\<close>

function scan_slots :: "(slot \<Rightarrow> bool option) \<Rightarrow> slot list \<Rightarrow> nat \<Rightarrow> nat \<Rightarrow> nat option option" where
  "scan_slots P t sz idx =
     (if idx < sz
      then if used (t ! idx) \<le> 0 then scan_slots P t sz (Suc idx)
           else (case P (t ! idx) of
                   None \<Rightarrow> None
                 | Some True \<Rightarrow> Some (Some idx)
                 | Some False \<Rightarrow> scan_slots P t sz (Suc idx))
      else Some None)"
  by pat_completeness auto
termination
  by (relation "measure (\<lambda>(P, t, sz, idx). sz - idx)") auto

declare scan_slots.simps [simp del]

definition contains :: "string \<Rightarrow> string \<Rightarrow> bool" where
  "contains s t \<longleftrightarrow> list_ex (occurs_at s t) [0..<Suc (length s)]"

definition scan_result :: "nat option option \<Rightarrow> (nat \<times> nat option \<times> errno option) option" where
  "scan_result r =
     map_option (\<lambda>x. case x of Some i \<Rightarrow> (i, Some i, None) | None \<Rightarrow> (0, None, Some ESRCH)) r"

definition hstrstr_r :: "string \<Rightarrow> nat \<Rightarrow> hsearch_data \<Rightarrow> (nat \<times> nat option \<times> errno option) option" where
  "hstrstr_r m last_idx htab =
     do { t \<leftarrow> ht_table htab;
          scan_result
            (scan_slots (\<lambda>s. do { k \<leftarrow> key (entry s);
                                  if contains k m then Some True
                                  else do { d \<leftarrow> data (entry s); Some (contains d m) } })
               t (ht_size htab) (last_idx + 1)) }"

definition hmatch_r :: "string \<Rightarrow> nat \<Rightarrow> hsearch_data \<Rightarrow> (nat \<times> nat option \<times> errno option) option" where
  "hmatch_r m last_idx htab =
     do { t \<leftarrow> ht_table htab;
          scan_result
            (scan_slots (\<lambda>s. do { k \<leftarrow> key (entry s); Some (take (length m) k = m) })
               t (ht_size htab) (last_idx + 1)) }"

end
