(* ===== verification/Store_Spec.thy ===== *)
theory Store_Spec
  imports Prelude
begin

text \<open>
  The contract between the environment code and the table it keeps its variables in: a store of
  named strings with a look-up, an update that needs room for one more name, and a removal. The
  lemmas of the locale are what the clients (import, \<open>setenv\<close>, \<open>getenv\<close>) use.
\<close>

datatype store_op = Put string string | Del string

fun op_key :: "store_op \<Rightarrow> string" where
  "op_key (Put k v) = k"
| "op_key (Del k) = k"

fun op_map :: "store_op \<Rightarrow> (string \<rightharpoonup> string) \<Rightarrow> (string \<rightharpoonup> string)" where
  "op_map (Put k v) m = m(k \<mapsto> v)"
| "op_map (Del k) m = m(k := None)"

fun is_put :: "store_op \<Rightarrow> bool" where
  "is_put (Put k v) = True"
| "is_put (Del k) = False"

definition cstring :: "string \<Rightarrow> bool" where
  "cstring s \<longleftrightarrow> NUL \<notin> set s"

locale kv_store =
  fixes inv :: "'h \<Rightarrow> bool"
    and abs :: "'h \<Rightarrow> (string \<rightharpoonup> string)"
    and free :: "'h \<Rightarrow> nat"
    and lookup :: "string \<Rightarrow> 'h \<Rightarrow> string option option"
    and put :: "string \<Rightarrow> string \<Rightarrow> 'h \<Rightarrow> 'h option"
    and del :: "string \<Rightarrow> 'h \<Rightarrow> (bool \<times> 'h) option"
  assumes lookup_abs: "inv h \<Longrightarrow> cstring k \<Longrightarrow> lookup k h = Some (abs h k)"
    and put_abs: "inv h \<Longrightarrow> cstring k \<Longrightarrow> 0 < free h \<Longrightarrow>
      \<exists>h'. put k v h = Some h' \<and> inv h' \<and> abs h' = (abs h)(k \<mapsto> v) \<and> free h \<le> Suc (free h')"
    and del_abs: "inv h \<Longrightarrow> cstring k \<Longrightarrow>
      \<exists>h'. del k h = Some (abs h k \<noteq> None, h') \<and> inv h' \<and> abs h' = (abs h)(k := None) \<and> free h' = free h"
begin

lemma lookup_put:
  assumes "inv h" and "cstring k" and "cstring k'" and "0 < free h"
  shows "\<exists>h'. put k v h = Some h' \<and> lookup k' h' = Some (if k' = k then Some v else abs h k')"
  using put_abs [OF assms(1,2,4), of v] lookup_abs assms(3) by fastforce

lemma lookup_del:
  assumes "inv h" and "cstring k" and "cstring k'"
  shows "\<exists>b h'. del k h = Some (b, h') \<and> lookup k' h' = Some (if k' = k then None else abs h k')"
  using del_abs [OF assms(1,2)] lookup_abs assms(3) by fastforce

fun run_op :: "store_op \<Rightarrow> 'h \<Rightarrow> 'h option" where
  "run_op (Put k v) h = put k v h"
| "run_op (Del k) h = map_option snd (del k h)"

fun run_ops :: "store_op list \<Rightarrow> 'h \<Rightarrow> 'h option" where
  "run_ops [] h = Some h"
| "run_ops (x # xs) h = do { h' \<leftarrow> run_op x h; run_ops xs h' }"

lemma run_op_abs:
  assumes "inv h" and "cstring (op_key x)" and "is_put x \<Longrightarrow> 0 < free h"
  shows "\<exists>h'. run_op x h = Some h' \<and> inv h' \<and> abs h' = op_map x (abs h) \<and>
    free h \<le> free h' + (if is_put x then 1 else 0)"
proof (cases x)
  case (Put k v)
  with assms put_abs [of h k v] show ?thesis by auto
next
  case (Del k)
  with assms del_abs [of h k] show ?thesis by auto
qed

lemma run_ops_abs:
  assumes "inv h" and "\<forall>x \<in> set xs. cstring (op_key x)" and "length (filter is_put xs) \<le> free h"
  shows "\<exists>h'. run_ops xs h = Some h' \<and> inv h' \<and> abs h' = fold op_map xs (abs h)"
  using assms
proof (induction xs arbitrary: h)
  case (Cons x xs)
  obtain h' where h': "run_op x h = Some h'" "inv h'" "abs h' = op_map x (abs h)"
    "free h \<le> free h' + (if is_put x then 1 else 0)"
    using run_op_abs [of h x] Cons.prems by (auto split: if_splits)
  have "length (filter is_put xs) \<le> free h'"
    using Cons.prems(3) h'(4) by (auto split: if_splits)
  then obtain h'' where "run_ops xs h' = Some h''" "inv h''" "abs h'' = fold op_map xs (abs h')"
    using Cons.IH [of h'] h'(2) Cons.prems(2) by auto
  with h' show ?case by simp
qed simp

end

end
