(* ===== verification/Hashtable_Map.thy ===== *)
theory Hashtable_Map
  imports Hashtable Store_Spec
begin

text \<open>
  The hash table as a finite map. The invariant \<open>ht_ok\<close> says that the size is prime, that every
  live slot lies on the probe path of its key with no empty slot before it, that no key is
  stored twice and that \<open>filled\<close> counts the live slots. Under it, searching, entering and
  deleting are lookup, update and removal of the map \<open>ht_map\<close>, and the probe loop always ends.
\<close>

section \<open>The probe path\<close>

definition nprime :: "nat \<Rightarrow> bool" where
  "nprime p \<longleftrightarrow> 1 < p \<and> (\<forall>d. d dvd p \<longrightarrow> d = 1 \<or> d = p)"

lemma nprime_coprime:
  assumes "nprime p" and "0 < a" and "a < p"
  shows "coprime a p"
proof -
  have "gcd a p = 1 \<or> gcd a p = p"
    using assms(1) by (simp add: nprime_def)
  moreover have "gcd a p \<le> a" using assms(2) by (simp add: dvd_imp_le)
  ultimately show ?thesis using assms(3) by (auto simp: coprime_iff_gcd_eq_1)
qed

fun pos :: "nat \<Rightarrow> nat \<Rightarrow> nat \<Rightarrow> nat \<Rightarrow> nat" where
  "pos sz h2 hv 0 = hv"
| "pos sz h2 hv (Suc n) = next_idx sz h2 (pos sz h2 hv n)"

lemma next_idx_range:
  assumes "0 < h2" and "h2 < sz" and "0 < i" and "i \<le> sz"
  shows "0 < next_idx sz h2 i" and "next_idx sz h2 i \<le> sz"
  using assms by (auto simp: next_idx_def)

lemma next_idx_mod:
  assumes "h2 < sz"
  shows "(next_idx sz h2 i + h2) mod sz = i mod sz"
  using assms by (auto simp: next_idx_def)

lemma pos_range:
  assumes "0 < h2" and "h2 < sz" and "0 < hv" and "hv \<le> sz"
  shows "0 < pos sz h2 hv n \<and> pos sz h2 hv n \<le> sz"
  using assms by (induction n) (auto intro: next_idx_range)

lemma pos_mod:
  assumes "h2 < sz"
  shows "(pos sz h2 hv n + n * h2) mod sz = hv mod sz"
proof (induction n)
  case (Suc n)
  have "(pos sz h2 hv (Suc n) + Suc n * h2) mod sz =
      ((next_idx sz h2 (pos sz h2 hv n) + h2) mod sz + n * h2) mod sz"
    by (simp add: mod_add_left_eq add.assoc)
  also have "\<dots> = hv mod sz"
    using Suc by (simp add: next_idx_mod [OF assms] mod_add_left_eq)
  finally show ?case .
qed simp

lemma range_mod_eq:
  assumes "0 < i" "i \<le> sz" "0 < j" "j \<le> sz" and "i mod sz = j mod (sz :: nat)"
  shows "i = j"
  using assms by (metis le_neq_implies_less mod_less mod_self not_gr_zero)

lemma pos_inj:
  assumes "nprime sz" and "0 < h2" and "h2 < sz" and "0 < hv" and "hv \<le> sz"
    and "pos sz h2 hv m = pos sz h2 hv n" and "m < sz" and "n < sz"
  shows "m = n"
proof (rule ccontr)
  have gen: False if "a < b" and "b < sz" and "pos sz h2 hv a = pos sz h2 hv b" for a b
  proof -
    have "(pos sz h2 hv a + a * h2) mod sz = (pos sz h2 hv a + b * h2) mod sz"
      using pos_mod [OF assms(3)] that(3) by metis
    then have "sz dvd (pos sz h2 hv a + b * h2) - (pos sz h2 hv a + a * h2)"
      using that(1) mod_eq_dvd_iff_nat [of "pos sz h2 hv a + a * h2" "pos sz h2 hv a + b * h2" sz]
      by simp
    then have "sz dvd (b - a) * h2" by (simp add: diff_mult_distrib)
    then have "sz dvd b - a"
      using nprime_coprime [OF assms(1-3)] by (simp add: coprime_commute coprime_dvd_mult_left_iff)
    with that show False by (auto dest: dvd_imp_le)
  qed
  assume "m \<noteq> n"
  then show False using gen [of m n] gen [of n m] assms(6-8) by (metis linorder_neqE_nat)
qed

lemma pos_sz:
  assumes "0 < h2" and "h2 < sz" and "0 < hv" and "hv \<le> sz"
  shows "pos sz h2 hv sz = hv"
proof (rule range_mod_eq)
  show "pos sz h2 hv sz mod sz = hv mod sz"
    using pos_mod [OF assms(2), of hv sz] by simp
qed (use assms pos_range [OF assms] in auto)

lemma hash1_range:
  assumes "2 < sz"
  shows "0 < hash1 sz k" and "hash1 sz k < sz"
  using assms by (auto simp: hash1_def Let_def)

lemma hash2_range:
  assumes "2 < sz" and "sz < 2 ^ 32"
  shows "0 < hash2 sz hv" and "hash2 sz hv < sz"
proof -
  have "sz + 2 ^ 32 - 2 = sz - 2 + 2 ^ 32" using assms(1) by simp
  moreover have "sz - 2 < 2 ^ 32" using assms(2) by simp
  ultimately have *: "(sz + 2 ^ 32 - 2) mod 2 ^ 32 = sz - 2"
    by (metis mod_add_self2 mod_less)
  have "hv mod (sz - 2) < sz - 2" using assms(1) by simp
  then show "hash2 sz hv < sz"
    unfolding hash2_def * by simp
  show "0 < hash2 sz hv" by (simp add: hash2_def)
qed

section \<open>The invariant\<close>

definition path :: "nat \<Rightarrow> string \<Rightarrow> nat \<Rightarrow> nat" where
  "path sz k n = pos sz (hash2 sz (hash1 sz k)) (hash1 sz k) n"

definition live :: "slot list \<Rightarrow> nat \<Rightarrow> nat \<Rightarrow> string \<Rightarrow> bool" where
  "live t sz i k \<longleftrightarrow> 0 < i \<and> i \<le> sz \<and> used (t ! i) > 0 \<and> key (entry (t ! i)) = Some k"

definition slot_ok :: "slot list \<Rightarrow> nat \<Rightarrow> nat \<Rightarrow> bool" where
  "slot_ok t sz i \<longleftrightarrow> used (t ! i) = 0 \<or> used (t ! i) = -1 \<or>
     (\<exists>k d n. key (entry (t ! i)) = Some k \<and> NUL \<notin> set k \<and> data (entry (t ! i)) = Some d \<and>
        used (t ! i) = int (hash1 sz k) \<and> n < sz \<and> path sz k n = i \<and>
        (\<forall>m < n. used (t ! path sz k m) \<noteq> 0))"

definition tab_ok :: "slot list \<Rightarrow> nat \<Rightarrow> bool" where
  "tab_ok t sz \<longleftrightarrow> 2 < sz \<and> sz < 2 ^ 32 \<and> nprime sz \<and> length t = sz + 1 \<and>
     (\<forall>i. 0 < i \<and> i \<le> sz \<longrightarrow> slot_ok t sz i) \<and>
     (\<forall>i j k. live t sz i k \<and> live t sz j k \<longrightarrow> i = j)"

definition live_count :: "slot list \<Rightarrow> nat" where
  "live_count t = length (filter (\<lambda>s. used s > 0) (tl t))"

definition ht_ok :: "hsearch_data \<Rightarrow> bool" where
  "ht_ok h \<longleftrightarrow> (\<exists>t. ht_table h = Some t \<and> tab_ok t (ht_size h) \<and> ht_filled h = live_count t)"

text \<open>The map the table stands for, and the number of empty slots left.\<close>

definition slot_entries :: "slot list \<Rightarrow> (string \<times> string) list" where
  "slot_entries t = map (\<lambda>s. (the (key (entry s)), the (data (entry s)))) (filter (\<lambda>s. used s > 0) (tl t))"

definition ht_map :: "hsearch_data \<Rightarrow> (string \<rightharpoonup> string)" where
  "ht_map h = (case ht_table h of None \<Rightarrow> Map.empty | Some t \<Rightarrow> map_of (slot_entries t))"

definition free_count :: "slot list \<Rightarrow> nat" where
  "free_count t = length (filter (\<lambda>s. used s = 0) (tl t))"

definition ht_free :: "hsearch_data \<Rightarrow> nat" where
  "ht_free h = (case ht_table h of None \<Rightarrow> 0 | Some t \<Rightarrow> free_count t)"

lemma set_tl_nth:
  assumes "length t = sz + 1"
  shows "s \<in> set (tl t) \<longleftrightarrow> (\<exists>i. 0 < i \<and> i \<le> sz \<and> t ! i = s)"
proof -
  have "s \<in> set (tl t) \<longleftrightarrow> (\<exists>j < sz. t ! Suc j = s)"
    using assms by (auto simp: in_set_conv_nth nth_tl)
  then show ?thesis by (metis Suc_le_eq Suc_pred zero_less_Suc)
qed

lemma live_slot:
  assumes "tab_ok t sz" and "live t sz i k"
  obtains d n where "NUL \<notin> set k" and "data (entry (t ! i)) = Some d" and "used (t ! i) = int (hash1 sz k)"
    and "n < sz" and "path sz k n = i" and "\<forall>m < n. used (t ! path sz k m) \<noteq> 0"
  using assms unfolding tab_ok_def live_def slot_ok_def by fastforce

lemma used_hash_live:
  assumes "tab_ok t sz" and "0 < i" and "i \<le> sz" and "used (t ! i) = int (hash1 sz k)"
  shows "\<exists>k'. live t sz i k' \<and> NUL \<notin> set k'"
  using assms hash1_range [of sz k] unfolding tab_ok_def live_def slot_ok_def by fastforce

lemma map_of_slot_entries:
  assumes "tab_ok t sz"
  shows "map_of (slot_entries t) k = Some v \<longleftrightarrow>
    (\<exists>i. live t sz i k \<and> data (entry (t ! i)) = Some v)"
proof
  have len: "length t = sz + 1" using assms by (simp add: tab_ok_def)
  have mem: "(k, v) \<in> set (slot_entries t) \<longleftrightarrow> (\<exists>i. live t sz i k \<and> data (entry (t ! i)) = Some v)" for v
  proof
    assume "(k, v) \<in> set (slot_entries t)"
    then obtain i where i: "0 < i" "i \<le> sz" "used (t ! i) > 0" "k = the (key (entry (t ! i)))"
        "v = the (data (entry (t ! i)))"
      by (auto simp: slot_entries_def set_tl_nth [OF len])
    moreover have "slot_ok t sz i" using assms i by (simp add: tab_ok_def)
    ultimately show "\<exists>i. live t sz i k \<and> data (entry (t ! i)) = Some v"
      by (auto simp: slot_ok_def live_def intro!: exI [of _ i])
  next
    assume "\<exists>i. live t sz i k \<and> data (entry (t ! i)) = Some v"
    then show "(k, v) \<in> set (slot_entries t)"
      by (force simp: slot_entries_def live_def set_tl_nth [OF len])
  qed
  show "\<exists>i. live t sz i k \<and> data (entry (t ! i)) = Some v" if "map_of (slot_entries t) k = Some v"
    using that mem by (auto dest: map_of_SomeD)
  assume ex: "\<exists>i. live t sz i k \<and> data (entry (t ! i)) = Some v"
  then obtain w where w: "map_of (slot_entries t) k = Some w"
    using mem weak_map_of_SomeI by metis
  then have "\<exists>i. live t sz i k \<and> data (entry (t ! i)) = Some w"
    using mem by (auto dest: map_of_SomeD)
  with ex assms w show "map_of (slot_entries t) k = Some v"
    unfolding tab_ok_def by (metis option.inject)
qed

section \<open>Where the search stops\<close>

text \<open>The search of \<open>hsearch_r\<close> without its actions.\<close>

definition locate :: "slot list \<Rightarrow> nat \<Rightarrow> string \<Rightarrow> probe option" where
  "locate t sz k =
     (let hval = hash1 sz k
      in if used (t ! hval) \<noteq> 0
         then (case slot_match (t ! hval) hval k of
                 None \<Rightarrow> None
               | Some True \<Rightarrow> Some (Found hval)
               | Some False \<Rightarrow> probe_loop sz t sz hval (hash2 sz hval) k hval)
         else Some (Vacant hval))"

lemma hsearch_r_locate:
  assumes "ht_table h = Some t"
  shows "hsearch_r k d action h mo =
    map_option (\<lambda>p. case p of Found i \<Rightarrow> hs_found d action i t h mo
      | Vacant i \<Rightarrow> hs_enter k d action (hash1 (ht_size h) k)
          (if used (t ! hash1 (ht_size h) k) = -1 then hash1 (ht_size h) k else 0) i t h mo)
      (locate t (ht_size h) k)"
  by (auto simp: hsearch_r_def locate_def assms Let_def split: option.splits bool.splits probe.splits)

lemma slot_match_iff:
  assumes "tab_ok t sz" and "0 < i" and "i \<le> sz" and "NUL \<notin> set k"
  shows "slot_match (t ! i) (hash1 sz k) k = Some (live t sz i k)"
proof (cases "used (t ! i) = int (hash1 sz k)")
  case True
  then obtain k' where "live t sz i k'" "NUL \<notin> set k'"
    using used_hash_live assms by blast
  with True assms show ?thesis
    by (auto simp: slot_match_def live_def scmp_0)
next
  case False
  then have "\<not> live t sz i k"
    using live_slot [OF assms(1), of i k] by metis
  with False show ?thesis by (simp add: slot_match_def)
qed

lemma path_range:
  assumes "tab_ok t sz"
  shows "0 < path sz k n" and "path sz k n \<le> sz"
  using assms pos_range [of "hash2 sz (hash1 sz k)" sz "hash1 sz k" n]
    hash1_range [of sz k] hash2_range [of sz "hash1 sz k"]
  by (auto simp: tab_ok_def path_def)

lemma path_0 [simp]: "path sz k 0 = hash1 sz k"
  by (simp add: path_def)

lemma path_Suc: "path sz k (Suc n) = next_idx sz (hash2 sz (hash1 sz k)) (path sz k n)"
  by (simp add: path_def)

lemma path_sz:
  assumes "tab_ok t sz"
  shows "path sz k sz = hash1 sz k"
  using assms pos_sz [of "hash2 sz (hash1 sz k)" sz "hash1 sz k"]
    hash1_range [of sz k] hash2_range [of sz "hash1 sz k"]
  by (auto simp: tab_ok_def path_def)

lemma path_inj:
  assumes "tab_ok t sz" and "path sz k m = path sz k n" and "m < sz" and "n < sz"
  shows "m = n"
  using assms pos_inj [of sz "hash2 sz (hash1 sz k)" "hash1 sz k" m n]
    hash1_range [of sz k] hash2_range [of sz "hash1 sz k"]
  by (auto simp: tab_ok_def path_def)

text \<open>
  The loop started behind index \<open>n\<close> of the path stops at the first later index that holds the
  key, is empty, or is the start of the path again.
\<close>

lemma probe_loop_stops:
  assumes ok: "tab_ok t sz" and k: "NUL \<notin> set k" and "n < sz" and "sz \<le> n + fuel"
  shows "\<exists>m. n < m \<and> m \<le> sz \<and>
    (\<forall>j. n < j \<and> j < m \<longrightarrow> \<not> live t sz (path sz k j) k \<and> used (t ! path sz k j) \<noteq> 0) \<and>
    probe_loop fuel t sz (hash1 sz k) (hash2 sz (hash1 sz k)) k (path sz k n) =
      Some (if m < sz \<and> live t sz (path sz k m) k then Found (path sz k m) else Vacant (path sz k m)) \<and>
    (m = sz \<or> live t sz (path sz k m) k \<or> used (t ! path sz k m) = 0)"
  using assms(3,4)
proof (induction fuel arbitrary: n)
  case (Suc fuel)
  let ?i = "path sz k (Suc n)"
  have match: "slot_match (t ! ?i) (hash1 sz k) k = Some (live t sz ?i k)"
    by (rule slot_match_iff [OF ok]) (use k path_range [OF ok] in auto)
  show ?case
  proof (cases "Suc n = sz \<or> live t sz ?i k \<or> used (t ! ?i) = 0")
    case True
    have "?i = hash1 sz k \<longleftrightarrow> Suc n = sz"
      using path_inj [OF ok, of k "Suc n" 0] path_sz [OF ok, of k] Suc.prems by fastforce
    with True Suc.prems match show ?thesis
      by (intro exI [of _ "Suc n"]) (auto simp: path_Suc Let_def split: bool.split)
  next
    case False
    then have "?i \<noteq> hash1 sz k"
      using path_inj [OF ok, of k "Suc n" 0] Suc.prems by fastforce
    moreover obtain m where "Suc n < m" "m \<le> sz"
      "\<forall>j. Suc n < j \<and> j < m \<longrightarrow> \<not> live t sz (path sz k j) k \<and> used (t ! path sz k j) \<noteq> 0"
      "probe_loop fuel t sz (hash1 sz k) (hash2 sz (hash1 sz k)) k ?i =
         Some (if m < sz \<and> live t sz (path sz k m) k then Found (path sz k m) else Vacant (path sz k m))"
      "m = sz \<or> live t sz (path sz k m) k \<or> used (t ! path sz k m) = 0"
      using Suc.IH [of "Suc n"] Suc.prems False by auto
    ultimately show ?thesis
      using False match
      by (intro exI [of _ m]) (auto simp: path_Suc Let_def less_Suc_eq_le le_less Suc_le_eq dest: Suc_lessI)
  qed
qed simp

text \<open>The whole search: the index \<open>m\<close> of the path at which it stops.\<close>

lemma locate_stops:
  assumes ok: "tab_ok t sz" and k: "NUL \<notin> set k"
  shows "\<exists>m \<le> sz.
    (\<forall>j < m. \<not> live t sz (path sz k j) k \<and> used (t ! path sz k j) \<noteq> 0) \<and>
    locate t sz k = Some (if m < sz \<and> live t sz (path sz k m) k then Found (path sz k m) else Vacant (path sz k m)) \<and>
    (m = sz \<or> live t sz (path sz k m) k \<or> used (t ! path sz k m) = 0)"
proof -
  have sz: "0 < sz" using ok by (simp add: tab_ok_def)
  have match: "slot_match (t ! hash1 sz k) (hash1 sz k) k = Some (live t sz (hash1 sz k) k)"
    by (rule slot_match_iff [OF ok]) (use k path_range [OF ok, of k 0] in auto)
  show ?thesis
  proof (cases "live t sz (hash1 sz k) k \<or> used (t ! hash1 sz k) = 0")
    case True
    with match sz show ?thesis
      by (intro exI [of _ 0]) (auto simp: locate_def Let_def live_def)
  next
    case False
    then obtain m where m: "0 < m" "m \<le> sz"
      "\<forall>j. 0 < j \<and> j < m \<longrightarrow> \<not> live t sz (path sz k j) k \<and> used (t ! path sz k j) \<noteq> 0"
      "probe_loop sz t sz (hash1 sz k) (hash2 sz (hash1 sz k)) k (path sz k 0) =
         Some (if m < sz \<and> live t sz (path sz k m) k then Found (path sz k m) else Vacant (path sz k m))"
      "m = sz \<or> live t sz (path sz k m) k \<or> used (t ! path sz k m) = 0"
      using probe_loop_stops [OF ok k sz, of sz] by auto
    have "\<forall>j < m. \<not> live t sz (path sz k j) k \<and> used (t ! path sz k j) \<noteq> 0"
      using m(3) False by (metis gr0I path_0)
    with m False match show ?thesis
      by (intro exI [of _ m]) (auto simp: locate_def Let_def)
  qed
qed

lemma locate_live:
  assumes ok: "tab_ok t sz" and "live t sz i k"
  shows "locate t sz k = Some (Found i)"
proof -
  obtain n where n: "NUL \<notin> set k" "n < sz" "path sz k n = i" "\<forall>m < n. used (t ! path sz k m) \<noteq> 0"
    using live_slot [OF assms] by metis
  obtain m where m: "m \<le> sz" "\<forall>j < m. \<not> live t sz (path sz k j) k \<and> used (t ! path sz k j) \<noteq> 0"
    "locate t sz k = Some (if m < sz \<and> live t sz (path sz k m) k then Found (path sz k m) else Vacant (path sz k m))"
    "m = sz \<or> live t sz (path sz k m) k \<or> used (t ! path sz k m) = 0"
    using locate_stops [OF ok n(1)] by auto
  have "m \<le> n"
    using m(2) n(3) assms(2) by (metis not_le_imp_less)
  moreover have "used (t ! path sz k n) \<noteq> 0"
    using assms(2) n(3) by (simp add: live_def)
  ultimately have "live t sz (path sz k m) k" and "m < sz"
    using m(4) n by (auto simp: le_less)
  moreover then have "path sz k m = i"
    using ok assms(2) by (auto simp: tab_ok_def)
  ultimately show ?thesis using m(3) by simp
qed

lemma locate_absent:
  assumes ok: "tab_ok t sz" and k: "NUL \<notin> set k" and "\<And>i. \<not> live t sz i k"
  shows "\<exists>m \<le> sz. locate t sz k = Some (Vacant (path sz k m)) \<and>
    (\<forall>j < m. used (t ! path sz k j) \<noteq> 0) \<and> (m = sz \<or> used (t ! path sz k m) = 0)"
  using locate_stops [OF ok k] assms(3) by auto

section \<open>Changing one slot\<close>

lemma length_filter_update:
  assumes "i < length xs"
  shows "length (filter P (xs[i := x])) + (if P (xs ! i) then 1 else 0) =
    length (filter P xs) + (if P x then 1 else 0)"
proof -
  have "length (filter P xs) = length (filter P (take i xs @ xs ! i # drop (Suc i) xs))"
    using assms by (simp add: id_take_nth_drop [symmetric])
  then show ?thesis
    using assms by (simp add: upd_conv_take_nth_drop)
qed

lemma live_count_update:
  assumes "length t = sz + 1" and "0 < i" and "i \<le> sz"
  shows "live_count (t[i := s]) + (if used (t ! i) > 0 then 1 else 0) =
    live_count t + (if used s > 0 then 1 else 0)"
proof -
  have "tl (t[i := s]) = (tl t)[i - 1 := s]" and "t ! i = tl t ! (i - 1)"
    using assms by (cases t; cases i; simp)+
  then show ?thesis
    using length_filter_update [of "i - 1" "tl t" "\<lambda>s. used s > 0" s] assms
    by (simp add: live_count_def)
qed

lemma free_count_update:
  assumes "length t = sz + 1" and "0 < i" and "i \<le> sz"
  shows "free_count (t[i := s]) + (if used (t ! i) = 0 then 1 else 0) =
    free_count t + (if used s = 0 then 1 else 0)"
proof -
  have "tl (t[i := s]) = (tl t)[i - 1 := s]" and "t ! i = tl t ! (i - 1)"
    using assms by (cases t; cases i; simp)+
  then show ?thesis
    using length_filter_update [of "i - 1" "tl t" "\<lambda>s. used s = 0" s] assms
    by (simp add: free_count_def)
qed

lemma live_free_le: "live_count t + free_count t \<le> length (tl t)"
proof -
  have "length (filter (\<lambda>s. used s > 0) ss) + length (filter (\<lambda>s. used s = 0) ss) \<le> length ss"
    for ss :: "slot list"
    by (induction ss) auto
  from this [of "tl t"] show ?thesis by (simp add: live_count_def free_count_def)
qed

lemma path_surj:
  assumes ok: "tab_ok t sz" and "0 < i" and "i \<le> sz"
  shows "\<exists>n < sz. path sz k n = i"
proof -
  have "inj_on (path sz k) {..<sz}"
    using path_inj [OF ok] by (auto intro: inj_onI)
  then have "card (path sz k ` {..<sz}) = card {1..sz}"
    by (simp add: card_image)
  moreover have "path sz k ` {..<sz} \<subseteq> {1..sz}"
    using path_range [OF ok] by (auto simp: Suc_le_eq)
  ultimately have "path sz k ` {..<sz} = {1..sz}"
    by (intro card_subset_eq) auto
  with assms show ?thesis by (metis atLeastAtMost_iff imageE lessThan_iff less_eq_Suc_le One_nat_def)
qed

lemma free_slot_exists:
  assumes ok: "tab_ok t sz" and "0 < free_count t"
  shows "\<exists>n < sz. used (t ! path sz k n) = 0"
proof -
  obtain s where "s \<in> set (tl t)" "used s = 0"
    using assms(2) by (auto simp: free_count_def filter_empty_conv)
  then obtain i where "0 < i" "i \<le> sz" "used (t ! i) = 0"
    using ok by (auto simp: tab_ok_def set_tl_nth)
  then show ?thesis using path_surj [OF ok] by metis
qed

lemma slot_ok_update:
  assumes "tab_ok t sz" and "slot_ok t sz j" and "i \<noteq> j" and "0 < i" and "i \<le> sz"
    and "used (t ! i) \<noteq> 0 \<longrightarrow> used s \<noteq> 0"
  shows "slot_ok (t[i := s]) sz j"
proof -
  have "used (t[i := s] ! p) \<noteq> 0" if "used (t ! p) \<noteq> 0" for p
    using that assms by (cases "p = i") (auto simp: tab_ok_def)
  with assms(2,3) show ?thesis
    unfolding slot_ok_def by (simp add: nth_list_update_neq) blast
qed

lemma map_of_slot_entries_eqI:
  assumes "tab_ok t sz" and "\<And>k v. (\<exists>i. live t sz i k \<and> data (entry (t ! i)) = Some v) \<longleftrightarrow> f k = Some v"
  shows "map_of (slot_entries t) = f"
proof
  fix k
  have "map_of (slot_entries t) k = Some v \<longleftrightarrow> f k = Some v" for v
    using assms map_of_slot_entries by blast
  then show "map_of (slot_entries t) k = f k"
    by (metis option.exhaust)
qed

text \<open>A new entry in a slot that is not live and lies on the path of its key.\<close>

lemma tab_insert:
  assumes ok: "tab_ok t sz" and k: "NUL \<notin> set k" and absent: "\<And>i. \<not> live t sz i k"
    and "m < sz" and i: "i = path sz k m" and pre: "\<forall>j < m. used (t ! path sz k j) \<noteq> 0"
    and free: "used (t ! i) \<le> 0"
    and s: "s = \<lparr>used = int (hash1 sz k), entry = \<lparr>key = Some k, data = Some d\<rparr>\<rparr>"
  shows "tab_ok (t[i := s]) sz" and "live_count (t[i := s]) = live_count t + 1"
    and "map_of (slot_entries (t[i := s])) = (map_of (slot_entries t))(k \<mapsto> d)"
proof -
  let ?t = "t[i := s]"
  have sz: "2 < sz" "length t = sz + 1" using ok by (auto simp: tab_ok_def)
  have ir: "0 < i" "i \<le> sz" using path_range [OF ok] i by auto
  have hp: "0 < hash1 sz k" using hash1_range sz by blast
  have nth: "?t ! i = s" using ir sz by simp
  have live: "live ?t sz j k' \<longleftrightarrow> (j = i \<and> k' = k) \<or> live t sz j k'" for j k'
    using free ir sz hp by (cases "j = i") (auto simp: live_def s)
  have ne: "path sz k j \<noteq> i" if "j < m" for j
    using that path_inj [OF ok] assms(4) i by fastforce
  then have "\<forall>j < m. used (?t ! path sz k j) \<noteq> 0"
    using pre by (metis nth_list_update_neq)
  then have "slot_ok ?t sz i"
    unfolding slot_ok_def nth
    using k assms(4) i by (simp add: s) blast
  moreover have "slot_ok ?t sz j" if "0 < j" "j \<le> sz" "j \<noteq> i" for j
    by (rule slot_ok_update [OF ok]) (use ok that ir hp in \<open>auto simp: tab_ok_def s\<close>)
  ultimately show ok': "tab_ok ?t sz"
    using ok absent unfolding tab_ok_def live by (metis length_list_update)
  show "live_count ?t = live_count t + 1"
    using live_count_update [OF sz(2) ir, of s] free hp by (simp add: s)
  show "map_of (slot_entries ?t) = (map_of (slot_entries t))(k \<mapsto> d)"
  proof (rule map_of_slot_entries_eqI [OF ok'])
    fix k' v
    have "data (entry (?t ! j)) = data (entry (t ! j))" if "live t sz j k'" for j
      using that free by (cases "j = i") (auto simp: live_def)
    then show "(\<exists>j. live ?t sz j k' \<and> data (entry (?t ! j)) = Some v) \<longleftrightarrow>
        ((map_of (slot_entries t))(k \<mapsto> d)) k' = Some v"
      using absent nth unfolding live by (auto simp: map_of_slot_entries [OF ok] s)
  qed
qed

text \<open>A live entry gets another value.\<close>

lemma tab_overwrite:
  assumes ok: "tab_ok t sz" and lv: "live t sz i k"
    and s: "s = (t ! i)\<lparr>entry := (entry (t ! i))\<lparr>data := Some d\<rparr>\<rparr>"
  shows "tab_ok (t[i := s]) sz" and "live_count (t[i := s]) = live_count t"
    and "map_of (slot_entries (t[i := s])) = (map_of (slot_entries t))(k \<mapsto> d)"
proof -
  let ?t = "t[i := s]"
  have sz: "length t = sz + 1" using ok by (auto simp: tab_ok_def)
  have ir: "0 < i" "i \<le> sz" using lv by (auto simp: live_def)
  have nth: "?t ! i = s" using ir sz by simp
  have same: "used (?t ! j) = used (t ! j)" "key (entry (?t ! j)) = key (entry (t ! j))" for j
    using ir sz by (cases "j = i"; simp add: s)+
  have live: "live ?t sz j k' \<longleftrightarrow> live t sz j k'" for j k'
    by (simp add: live_def same)
  have "\<exists>d'. data (entry (?t ! j)) = Some d'" if "data (entry (t ! j)) = Some e" for j e
    using that nth by (cases "j = i") (auto simp: s)
  then have "slot_ok t sz j \<Longrightarrow> slot_ok ?t sz j" for j
    unfolding slot_ok_def same by metis
  then show ok': "tab_ok ?t sz"
    using ok unfolding tab_ok_def live by simp
  show "live_count ?t = live_count t"
    using live_count_update [OF sz ir, of s] by (simp add: s split: if_splits)
  show "map_of (slot_entries ?t) = (map_of (slot_entries t))(k \<mapsto> d)"
  proof (rule map_of_slot_entries_eqI [OF ok'])
    fix k' v
    have "live t sz j k' \<Longrightarrow> j = i \<longleftrightarrow> k' = k" for j
      using ok lv unfolding tab_ok_def by (metis live_def option.inject)
    moreover have "data (entry (?t ! j)) = (if j = i then Some d else data (entry (t ! j)))" for j
      using nth by (simp add: s)
    ultimately show "(\<exists>j. live ?t sz j k' \<and> data (entry (?t ! j)) = Some v) \<longleftrightarrow>
        ((map_of (slot_entries t))(k \<mapsto> d)) k' = Some v"
      using lv unfolding live by (auto simp: map_of_slot_entries [OF ok])
  qed
qed

text \<open>A live entry is marked deleted.\<close>

lemma tab_delete:
  assumes ok: "tab_ok t sz" and lv: "live t sz i k" and s: "s = (t ! i)\<lparr>used := -1\<rparr>"
  shows "tab_ok (t[i := s]) sz" and "live_count (t[i := s]) = live_count t - 1" and "0 < live_count t"
    and "map_of (slot_entries (t[i := s])) = (map_of (slot_entries t))(k := None)"
proof -
  let ?t = "t[i := s]"
  have sz: "length t = sz + 1" using ok by (auto simp: tab_ok_def)
  have ir: "0 < i" "i \<le> sz" "0 < used (t ! i)" using lv by (auto simp: live_def)
  have nth: "?t ! i = s" using ir sz by simp
  have live: "live ?t sz j k' \<longleftrightarrow> j \<noteq> i \<and> live t sz j k'" for j k'
    using nth by (cases "j = i") (auto simp: live_def s)
  have "slot_ok ?t sz i" unfolding slot_ok_def nth by (simp add: s)
  moreover have "slot_ok ?t sz j" if "0 < j" "j \<le> sz" "j \<noteq> i" for j
    by (rule slot_ok_update [OF ok]) (use ok that ir in \<open>auto simp: tab_ok_def s\<close>)
  ultimately show ok': "tab_ok ?t sz"
    using ok unfolding tab_ok_def live by (metis length_list_update)
  show "live_count ?t = live_count t - 1" and "0 < live_count t"
    using live_count_update [OF sz ir(1,2), of s] ir(3) by (simp_all add: s)
  show "map_of (slot_entries ?t) = (map_of (slot_entries t))(k := None)"
  proof (rule map_of_slot_entries_eqI [OF ok'])
    fix k' v
    have "live t sz j k' \<Longrightarrow> j = i \<longleftrightarrow> k' = k" for j
      using ok lv unfolding tab_ok_def by (metis live_def option.inject)
    moreover have "data (entry (?t ! j)) = data (entry (t ! j))" for j
      using nth by (cases "j = i") (simp_all add: s)
    ultimately show "(\<exists>j. live ?t sz j k' \<and> data (entry (?t ! j)) = Some v) \<longleftrightarrow>
        ((map_of (slot_entries t))(k := None)) k' = Some v"
      using lv unfolding live by (auto simp: map_of_slot_entries [OF ok])
  qed
qed

section \<open>The operations on the map\<close>

lemma hsearch_find:
  assumes "ht_ok h" and "NUL \<notin> set k"
  shows "\<exists>r. hsearch_r k d FIND h mo = Some r \<and> hs_htab r = h \<and> hs_mallocs r = mo \<and>
    (case ht_map h k of
       None \<Rightarrow> hs_ret r = 0 \<and> hs_retval r = None \<and> hs_errno r = Some ESRCH
     | Some v \<Rightarrow> \<exists>t i. ht_table h = Some t \<and> live t (ht_size h) i k \<and> data (entry (t ! i)) = Some v \<and>
         hs_ret r = i \<and> hs_retval r = Some i \<and> hs_errno r = None)"
proof -
  obtain t where t: "ht_table h = Some t" "tab_ok t (ht_size h)"
    using assms(1) by (auto simp: ht_ok_def)
  show ?thesis
  proof (cases "ht_map h k")
    case None
    then have "\<not> live t (ht_size h) i k" for i
      using t map_of_slot_entries [OF t(2)] live_slot [OF t(2)] by (metis ht_map_def option.distinct(1) option.simps(5))
    then obtain i where "locate t (ht_size h) k = Some (Vacant i)"
      using locate_absent [OF t(2) assms(2)] by blast
    with None t(1) show ?thesis
      by (simp add: hsearch_r_locate hs_enter_def hs_fail_def)
  next
    case (Some v)
    then obtain i where "live t (ht_size h) i k" "data (entry (t ! i)) = Some v"
      using t map_of_slot_entries [OF t(2)] by (auto simp: ht_map_def)
    with Some t locate_live [OF t(2)] show ?thesis
      by (auto simp: hsearch_r_locate hs_found_def)
  qed
qed

lemma hsearch_enter:
  assumes "ht_ok h" and k: "NUL \<notin> set k" and "0 < ht_free h"
  shows "\<exists>r. hsearch_r k (Some d) ENTER h [] = Some r \<and> ht_ok (hs_htab r) \<and> 0 < hs_ret r \<and>
    hs_retval r \<noteq> None \<and> hs_mallocs r = [] \<and>
    ht_map (hs_htab r) = (ht_map h)(k \<mapsto> d) \<and> ht_free h \<le> Suc (ht_free (hs_htab r)) \<and>
    ht_apply (hs_htab r) = ht_apply h"
proof -
  let ?sz = "ht_size h"
  obtain t where t: "ht_table h = Some t" "tab_ok t ?sz" "ht_filled h = live_count t"
    using assms(1) by (auto simp: ht_ok_def)
  have len: "length t = ?sz + 1" using t(2) by (simp add: tab_ok_def)
  show ?thesis
  proof (cases "\<exists>i. live t ?sz i k")
    case True
    then obtain i where i: "live t ?sz i k" ..
    let ?s = "(t ! i)\<lparr>entry := (entry (t ! i))\<lparr>data := Some d\<rparr>\<rparr>"
    have ir: "0 < i" "i \<le> ?sz" using i by (auto simp: live_def)
    have "free_count (t[i := ?s]) = free_count t"
      using free_count_update [OF len ir, of ?s] by (simp split: if_splits)
    with i ir t tab_overwrite [OF t(2) i refl, of d] show ?thesis
      by (auto simp: hsearch_r_locate locate_live [OF t(2) i] hs_found_def strdup_def ht_ok_def
          ht_map_def ht_free_def)
  next
    case False
    obtain m where m: "m \<le> ?sz" "locate t ?sz k = Some (Vacant (path ?sz k m))"
      "\<forall>j < m. used (t ! path ?sz k j) \<noteq> 0" "m = ?sz \<or> used (t ! path ?sz k m) = 0"
      using locate_absent [OF t(2) k] False by blast
    have "0 < free_count t" using assms(3) t(1) by (simp add: ht_free_def)
    then have "m < ?sz"
      using free_slot_exists [OF t(2), of k] m(1,3) by (metis le_neq_implies_less)
    have notfull: "ht_filled h \<noteq> ?sz"
      using live_free_le [of t] \<open>0 < free_count t\<close> t(3) len by simp
    let ?n = "if used (t ! hash1 ?sz k) = -1 then 0 else m"
    let ?i = "path ?sz k ?n"
    let ?s = "\<lparr>used = int (hash1 ?sz k), entry = \<lparr>key = Some k, data = Some d\<rparr>\<rparr>"
    have hp: "0 < hash1 ?sz k" using hash1_range t(2) by (simp add: tab_ok_def)
    have free: "used (t ! ?i) \<le> 0" and pre: "\<forall>j < ?n. used (t ! path ?sz k j) \<noteq> 0" and "?n < ?sz"
      using m \<open>m < ?sz\<close> by auto
    note ins = tab_insert [OF t(2) k _ \<open>?n < ?sz\<close> refl pre free refl, of d]
    have "free_count t \<le> Suc (free_count (t[?i := ?s]))"
      using free_count_update [OF len, of ?i ?s] path_range [OF t(2), of k ?n] hp by (simp split: if_splits)
    moreover have "(if used (t ! hash1 ?sz k) = -1 then hash1 ?sz k else 0) \<noteq> 0 \<longleftrightarrow> used (t ! hash1 ?sz k) = -1"
      using hp by simp
    ultimately show ?thesis
      using False t m(2) ins notfull hp
      by (auto simp: hsearch_r_locate hs_enter_def strdup_def ht_ok_def ht_map_def ht_free_def Let_def
          split: if_splits)
  qed
qed

lemma hdelete_map:
  assumes "ht_ok h" and "NUL \<notin> set k"
  shows "\<exists>h' e cs. hdelete_r k h ap = Some (ht_map h k \<noteq> None, h', e, cs) \<and> ht_ok h' \<and>
    ht_map h' = (ht_map h)(k := None) \<and> ht_free h' = ht_free h \<and> ht_apply h' = ht_apply h"
proof -
  obtain t where t: "ht_table h = Some t" "tab_ok t (ht_size h)" "ht_filled h = live_count t"
    using assms(1) by (auto simp: ht_ok_def)
  obtain r where r: "hsearch_r k None FIND h [] = Some r"
    "case ht_map h k of
       None \<Rightarrow> hs_ret r = 0 \<and> hs_retval r = None \<and> hs_errno r = Some ESRCH
     | Some v \<Rightarrow> \<exists>t i. ht_table h = Some t \<and> live t (ht_size h) i k \<and> data (entry (t ! i)) = Some v \<and>
         hs_ret r = i \<and> hs_retval r = Some i \<and> hs_errno r = None"
    using hsearch_find [OF assms] by blast
  show ?thesis
  proof (cases "ht_map h k")
    case None
    with r assms(1) show ?thesis by (auto simp: hdelete_r_def)
  next
    case (Some v)
    with r t have lv: "live t (ht_size h) (hs_ret r) k" by simp
    let ?i = "hs_ret r" and ?s = "(t ! hs_ret r)\<lparr>used := -1\<rparr>"
    have ir: "0 < ?i" "?i \<le> ht_size h" "0 < used (t ! ?i)" using lv by (auto simp: live_def)
    have "free_count (t[?i := ?s]) = free_count t"
      using free_count_update [of t "ht_size h" ?i ?s] t(2) ir by (simp add: tab_ok_def)
    with Some r(1) t ir tab_delete [OF t(2) lv refl] show ?thesis
      by (auto simp: hdelete_r_def ht_ok_def ht_map_def ht_free_def Let_def)
  qed
qed

section \<open>The size of a new table\<close>

text \<open>Trial division in unbounded arithmetic. As long as the number is at most \<open>65535\<^sup>2\<close>, no square in the loop of the code
  wraps around, and the code computes this.\<close>

function trial_div :: "nat \<Rightarrow> nat \<Rightarrow> nat" where
  "trial_div number d =
     (if d * d < number \<and> number mod d \<noteq> 0 then trial_div number (d + 2) else d)"
  by pat_completeness auto
termination
proof (relation "measure (\<lambda>(number, d). number - d)", goal_cases)
  case (2 number d)
  then have "d < number" by (cases d) auto
  then show ?case by simp
qed simp

declare trial_div.simps [simp del]

definition trial_prime :: "nat \<Rightarrow> bool" where
  "trial_prime number \<longleftrightarrow> number mod (trial_div number 3) \<noteq> 0"

lemma trial_div_stops:
  assumes "odd d" and "3 \<le> d" and "\<forall>e. odd e \<and> 3 \<le> e \<and> e < d \<longrightarrow> n mod e \<noteq> 0"
    and "d = 3 \<or> (d - 2) * (d - 2) < n"
  defines "r \<equiv> trial_div n d"
  shows "odd r \<and> 3 \<le> r \<and> (\<forall>e. odd e \<and> 3 \<le> e \<and> e < r \<longrightarrow> n mod e \<noteq> 0) \<and>
    (n \<le> r * r \<or> n mod r = 0) \<and> (r = 3 \<or> (r - 2) * (r - 2) < n)"
  using assms(1-4) unfolding r_def
proof (induction n d rule: trial_div.induct)
  case (1 n d)
  show ?case
  proof (cases "d * d < n \<and> n mod d \<noteq> 0")
    case True
    have "n mod e \<noteq> 0" if "odd e" "3 \<le> e" "e < d + 2" for e
    proof -
      have "e < d \<or> e = d" using that "1.prems"(1) by presburger
      then show ?thesis using that True "1.prems"(3) by auto
    qed
    with True "1.prems" "1.IH" have "let r = trial_div n (d + 2) in
        odd r \<and> 3 \<le> r \<and> (\<forall>e. odd e \<and> 3 \<le> e \<and> e < r \<longrightarrow> n mod e \<noteq> 0) \<and>
        (n \<le> r * r \<or> n mod r = 0) \<and> (r = 3 \<or> (r - 2) * (r - 2) < n)"
      unfolding Let_def by (metis True add_diff_cancel_right' even_add even_numeral trans_le_add1)
    with True show ?thesis
      by (subst (1 2 3 4 5 6 7 8 9) trial_div.simps) (simp add: Let_def)
  next
    case False
    then have "trial_div n d = d" by (simp add: trial_div.simps)
    with False "1.prems" show ?thesis by auto
  qed
qed

lemma trial_prime_iff:
  assumes "odd n" and "5 \<le> n"
  shows "trial_prime n \<longleftrightarrow> nprime n"
proof -
  let ?r = "trial_div n 3"
  have r: "odd ?r" "3 \<le> ?r" "\<forall>e. odd e \<and> 3 \<le> e \<and> e < ?r \<longrightarrow> n mod e \<noteq> 0"
    "n \<le> ?r * ?r \<or> n mod ?r = 0" "?r = 3 \<or> (?r - 2) * (?r - 2) < n"
    using trial_div_stops [of 3 n] by auto
  show ?thesis
  proof
    assume p: "trial_prime n"
    have "d = 1 \<or> d = n" if dv: "d dvd n" for d
    proof (rule ccontr)
      assume no: "\<not> (d = 1 \<or> d = n)"
      obtain c where c: "n = d * c" using dv by (elim dvdE)
      define e where "e = min d c"
      have "odd d" "odd c" using assms(1) c by auto
      moreover have "d \<noteq> 1" "c \<noteq> 1" using no c by auto
      ultimately have "odd e" "3 \<le> e"
        unfolding e_def by (auto simp: min_def) presburger+
      have "e dvd n" using c by (auto simp: e_def min_def)
      have "e * e \<le> n" using c by (auto simp: e_def min_def)
      have "?r \<le> e" using r(3) \<open>odd e\<close> \<open>3 \<le> e\<close> \<open>e dvd n\<close> by (meson dvd_imp_mod_0 not_le_imp_less)
      then have "?r * ?r \<le> e * e" by (rule mult_le_mono) fact
      with r(4) p \<open>e * e \<le> n\<close> have "?r * ?r = n" by (auto simp: trial_prime_def)
      then have "n mod ?r = 0" by (metis mod_mult_self1_is_0)
      with p show False by (simp add: trial_prime_def)
    qed
    with assms(2) show "nprime n" by (simp add: nprime_def)
  next
    assume np: "nprime n"
    show "trial_prime n"
    proof (rule ccontr)
      assume "\<not> trial_prime n"
      then have "?r dvd n" by (auto simp: trial_prime_def)
      with np r(2) have eq: "?r = n" by (auto simp: nprime_def)
      then have "(n - 2) * (n - 2) < n" using r(5) assms(2) by auto
      moreover obtain k where "n = k + 5" using assms(2) by (metis add.commute le_iff_add)
      ultimately show False by (simp add: algebra_simps)
    qed
  qed
qed

lemma isprime_loop_trial:
  assumes "odd d" and "3 \<le> d" and "d = 3 \<or> (d - 2) * (d - 2) < n" and "n \<le> 65535 * 65535"
  shows "isprime_loop n d = Some (trial_div n d)"
  using assms
proof (induction n d rule: trial_div.induct)
  case (1 n d)
  have "d \<le> 65535"
  proof (rule ccontr)
    assume "\<not> d \<le> 65535"
    then have "65535 \<le> d - 2" using "1.prems"(1) by presburger
    then have "65535 * 65535 \<le> (d - 2) * (d - 2)" by (intro mult_le_mono)
    then show False using "1.prems" \<open>\<not> d \<le> 65535\<close> by auto
  qed
  then have "d * d \<le> 65535 * 65535" by (intro mult_le_mono)
  then have sq: "d * d mod 2 ^ 32 = d * d" "(d + 2) mod 2 ^ 32 = d + 2" using \<open>d \<le> 65535\<close> by (simp_all add: mod_less)
  show ?case
  proof (cases "d * d < n \<and> n mod d \<noteq> 0")
    case True
    then have "isprime_loop n (d + 2) = Some (trial_div n (d + 2))" using "1.IH" "1.prems" by simp
    with True show ?thesis by (subst isprime_loop.simps, subst trial_div.simps) (simp only: sq if_True simp_thms)
  next
    case False
    then show ?thesis by (subst isprime_loop.simps, subst trial_div.simps) (simp only: sq if_False)
  qed
qed

lemma isprime_trial: "n \<le> 65535 * 65535 \<Longrightarrow> isprime n = Some (trial_prime n)"
  by (simp add: isprime_def trial_prime_def isprime_loop_trial)

lemma isprime_nprime: "odd n \<Longrightarrow> 5 \<le> n \<Longrightarrow> n \<le> 65535 * 65535 \<Longrightarrow> isprime n = Some (nprime n)"
  by (simp add: isprime_trial trial_prime_iff)

lemma isprime_3: "isprime 3 = Some False"
  by (simp add: isprime_trial trial_prime_def trial_div.simps)

text \<open>Beyond that bound the wrapped square may miss the root, but the divisor reaches the number itself at the latest; and
  a request that runs past the last number of 32 bits wraps to 1, which the test takes for a prime. So both loops always end.\<close>

lemma isprime_loop_ends:
  assumes "odd n" "n < 2 ^ 32" "odd d" "d \<le> n"
  shows "\<exists>r. isprime_loop n d = Some r"
  using assms(3,4)
proof (induction "n - d" arbitrary: d rule: less_induct)
  case less
  show ?case
  proof (cases "d * d mod 2 ^ 32 < n \<and> n mod d \<noteq> 0")
    case True
    then have "d \<noteq> n" by auto
    then have "d + 2 \<le> n" using less.prems assms(1) by presburger
    then have "(d + 2) mod 2 ^ 32 = d + 2" using assms(2) by (intro mod_less) linarith
    moreover have "\<exists>r. isprime_loop n (d + 2) = Some r" using less \<open>d + 2 \<le> n\<close> by simp
    ultimately show ?thesis using True by (subst isprime_loop.simps) simp
  next
    case False
    then show ?thesis by (subst isprime_loop.simps) (simp only: if_False, blast)
  qed
qed

lemma isprime_ends: "odd n \<Longrightarrow> n < 2 ^ 32 \<Longrightarrow> \<exists>b. isprime n = Some b"
proof (cases "3 \<le> n")
  case True
  then show "odd n \<Longrightarrow> n < 2 ^ 32 \<Longrightarrow> \<exists>b. isprime n = Some b"
    using isprime_loop_ends [of n 3] by (auto simp: isprime_def)
qed (auto simp: isprime_trial)

lemma next_size_ends:
  assumes "odd n" "n < 2 ^ 32"
  shows "\<exists>q. next_size n = Some q"
  using assms
proof (induction "2 ^ 32 - n" arbitrary: n rule: less_induct)
  case less
  obtain b where b: "isprime n = Some b" using isprime_ends less.prems by blast
  have one: "next_size 1 = Some 1"
    by (subst next_size.simps) (simp add: isprime_trial trial_prime_def trial_div.simps)
  show ?case
  proof (cases "n + 2 < 2 ^ 32")
    case True
    then have "\<exists>q. next_size (n + 2) = Some q" using less by simp
    with b True show ?thesis by (subst next_size.simps) simp
  next
    case False
    then have "n = 2 ^ 32 - 1" using less.prems by simp presburger
    then have "(n + 2) mod 2 ^ 32 = 1" by simp
    with b one show ?thesis by (subst next_size.simps) simp
  qed
qed

text \<open>The first prime not below the request, when there is one up to \<open>65535\<^sup>2\<close>.\<close>

lemma next_size_upto:
  assumes "nprime p" and "odd p" and "5 \<le> p" and "p \<le> 65535 * 65535" and "odd n" and "n \<le> p"
  shows "\<exists>q. next_size n = Some q \<and> n \<le> q \<and> q \<le> p \<and> trial_prime q \<and> odd q"
  using assms(5,6)
proof (induction "p - n" arbitrary: n rule: less_induct)
  case less
  have n: "isprime n = Some (trial_prime n)" using less.prems(2) assms(4) by (intro isprime_trial) linarith
  show ?case
  proof (cases "trial_prime n")
    case True
    with less.prems n show ?thesis by (subst next_size.simps) simp
  next
    case False
    then have "n \<noteq> p" using trial_prime_iff [of p] assms(1-3) by auto
    with less.prems assms(2) have np: "n + 2 \<le> p" by presburger
    then have "\<exists>q. next_size (n + 2) = Some q \<and> n + 2 \<le> q \<and> q \<le> p \<and> trial_prime q \<and> odd q"
      using less.hyps [of "n + 2"] less.prems by simp
    moreover have "(n + 2) mod 2 ^ 32 = n + 2" using np assms(4) by simp
    ultimately show ?thesis using False n by (subst next_size.simps) (auto intro: add_leD1)
  qed
qed

lemma nprime_odd: "nprime p \<Longrightarrow> 5 \<le> p \<Longrightarrow> odd p"
  using spec [of "\<lambda>d. d dvd p \<longrightarrow> d = 1 \<or> d = p" 2] by (auto simp: nprime_def)

lemma next_size_prime:
  assumes "nprime p" and "5 \<le> p" and "p \<le> 65535 * 65535" and "odd n" and "3 \<le> n" and "n \<le> p"
  shows "\<exists>q. next_size n = Some q \<and> n \<le> q \<and> q \<le> p \<and> nprime q \<and> 5 \<le> q"
proof -
  obtain q where q: "next_size n = Some q" "n \<le> q" "q \<le> p" "trial_prime q" "odd q"
    using next_size_upto [OF assms(1) nprime_odd [OF assms(1,2)] assms(2-4,6)] by auto
  have "q \<noteq> 3" using q(4) isprime_3 by (auto simp: isprime_trial)
  with q(2,5) assms(5) have "5 \<le> q" by presburger
  then show ?thesis using q trial_prime_iff by auto
qed

lemma nprime_521: "nprime 521"
proof -
  have "trial_prime 521" by (simp add: trial_prime_def trial_div.simps)
  then show ?thesis using trial_prime_iff [of 521] by simp
qed

lemma nprime_1048583: "nprime 1048583"
proof -
  have "trial_prime 1048583" by (simp add: trial_prime_def trial_div.simps)
  then show ?thesis using trial_prime_iff [of 1048583] by simp
qed

lemma tab_ok_fresh:
  assumes "nprime sz" and "2 < sz" and "sz < 2 ^ 32"
  shows "tab_ok (replicate (sz + 1) empty_slot) sz"
  using assms
  by (auto simp: tab_ok_def slot_ok_def live_def empty_slot_def less_Suc_eq_le simp del: replicate_Suc)

section \<open>The table meets the contract of the store\<close>

definition ht_get :: "string \<Rightarrow> hsearch_data \<Rightarrow> string option option" where
  "ht_get k h =
     do { r \<leftarrow> hsearch_r k None FIND h [];
          (case hs_retval r of
             None \<Rightarrow> Some None
           | Some i \<Rightarrow> do { t \<leftarrow> ht_table h; Some (data (entry (t ! i))) }) }"

definition ht_put :: "string \<Rightarrow> string \<Rightarrow> hsearch_data \<Rightarrow> hsearch_data option" where
  "ht_put k v h =
     do { r \<leftarrow> hsearch_r k (Some v) ENTER h [];
          if hs_retval r = None then None else Some (hs_htab r) }"

definition ht_del :: "string \<Rightarrow> hsearch_data \<Rightarrow> (bool \<times> hsearch_data) option" where
  "ht_del k h = do { (b, h', e, cs) \<leftarrow> hdelete_r k h False; Some (b, h') }"

interpretation ht: kv_store ht_ok ht_map ht_free ht_get ht_put ht_del
proof unfold_locales
  fix h k assume "ht_ok h" and k: "cstring k"
  then show "ht_get k h = Some (ht_map h k)"
    using hsearch_find [of h k None "[]"] by (auto simp: ht_get_def cstring_def split: option.splits)
next
  fix h k v assume "ht_ok h" "cstring k" "0 < ht_free h"
  then show "\<exists>h'. ht_put k v h = Some h' \<and> ht_ok h' \<and> ht_map h' = (ht_map h)(k \<mapsto> v) \<and>
      ht_free h \<le> Suc (ht_free h')"
    using hsearch_enter [of h k v] by (auto simp: ht_put_def cstring_def)
next
  fix h k assume "ht_ok h" "cstring k"
  then show "\<exists>h'. ht_del k h = Some (ht_map h k \<noteq> None, h') \<and> ht_ok h' \<and>
      ht_map h' = (ht_map h)(k := None) \<and> ht_free h' = ht_free h"
    using hdelete_map [of h k False] by (auto simp: ht_del_def cstring_def)
qed

section \<open>Properties of the table\<close>

lemma or_1_bounds: "odd (nel OR 1)" "nel \<le> nel OR 1" "nel OR 1 \<le> nel + 1" for nel :: nat
  unfolding or_one_eq by auto

lemma hcreate_fresh:
  assumes "ht_table h = None" and "2 \<le> nel" and q: "nprime q" "5 \<le> q" "q \<le> 65535 * 65535" "nel \<le> q"
  shows "\<exists>h' p. hcreate_r nel h [] = Some (True, h', []) \<and> ht_size h' = p \<and> nel \<le> p \<and> p \<le> q \<and> nprime p \<and>
    ht_apply h' = ht_apply h \<and> ht_ok h' \<and> ht_map h' = Map.empty \<and> ht_free h' = p"
proof -
  have "3 \<le> nel OR 1" "nel OR 1 \<le> q"
    using assms(2) q(4) nprime_odd [OF q(1,2)] or_1_bounds [of nel] by presburger+
  then obtain p where p: "next_size (nel OR 1) = Some p" "nel OR 1 \<le> p" "nprime p" "5 \<le> p" "p \<le> q"
    using next_size_prime [OF q(1-3) or_1_bounds(1)] by blast
  let ?t = "replicate (p + 1) empty_slot"
  let ?h = "h\<lparr>ht_size := p, ht_filled := 0, ht_table := Some ?t\<rparr>"
  have "hcreate_r nel h [] = Some (True, ?h, [])"
    using assms(1) p(1) by (simp add: hcreate_r_def)
  moreover have "live_count ?t = 0" "free_count ?t = p" "slot_entries ?t = []"
    by (simp_all add: live_count_def free_count_def slot_entries_def empty_slot_def)
  then have "ht_ok ?h \<and> ht_map ?h = Map.empty \<and> ht_free ?h = p"
    using tab_ok_fresh [of p] p(3-5) q(3) by (simp add: ht_ok_def ht_map_def ht_free_def)
  ultimately show ?thesis
    using p(2,3,5) or_1_bounds(2) [of nel] by (intro exI [of _ ?h] exI [of _ p]) auto
qed



text \<open>A table of five slots, for the examples below.\<close>

definition table5 :: hsearch_data where
  "table5 = \<lparr>ht_table = Some (replicate 6 empty_slot), ht_size = 5, ht_filled = 0, ht_apply = None\<rparr>"

lemma table5_ok: "ht_ok table5" "ht_free table5 = 5" "ht_map table5 = Map.empty"
proof -
  have "trial_prime 5" by (simp add: trial_prime_def trial_div.simps)
  then have "nprime 5" using trial_prime_iff [of 5] by simp
  then have "tab_ok (replicate 6 empty_slot) 5" using tab_ok_fresh [of 5] by simp
  then show "ht_ok table5" "ht_free table5 = 5" "ht_map table5 = Map.empty"
    by (simp_all add: ht_ok_def ht_free_def ht_map_def table5_def live_count_def free_count_def
        slot_entries_def empty_slot_def)
qed

text \<open>\<open>hsearch_r\<close> with \<open>FIND\<close> on a well-formed table always ends, changes nothing, and returns a slot
  holding the key and its value exactly when the map has the key, zero and \<open>ESRCH\<close> otherwise.\<close>

lemma hsearch_r_find:
  assumes "ht_ok h" and "NUL \<notin> set k"
  shows "\<exists>r. hsearch_r k d FIND h mo = Some r \<and> hs_htab r = h \<and>
    (case ht_map h k of
       None \<Rightarrow> hs_ret r = 0 \<and> hs_retval r = None \<and> hs_errno r = Some ESRCH
     | Some v \<Rightarrow> \<exists>t i. ht_table h = Some t \<and> key (entry (t ! i)) = Some k \<and> data (entry (t ! i)) = Some v \<and>
         0 < i \<and> hs_ret r = i \<and> hs_retval r = Some i)"
proof -
  obtain r where "hsearch_r k d FIND h mo = Some r" "hs_htab r = h"
    "case ht_map h k of
       None \<Rightarrow> hs_ret r = 0 \<and> hs_retval r = None \<and> hs_errno r = Some ESRCH
     | Some v \<Rightarrow> \<exists>t i. ht_table h = Some t \<and> live t (ht_size h) i k \<and> data (entry (t ! i)) = Some v \<and>
         hs_ret r = i \<and> hs_retval r = Some i \<and> hs_errno r = None"
    using hsearch_find [OF assms, of d mo] by blast
  then show ?thesis
    by (intro exI [of _ r]) (auto simp: live_def split: option.splits)
qed

text \<open>C25. \<open>hsearch_r\<close> with \<open>ENTER\<close> on a well-formed table with an empty slot always succeeds (memory
  permitting): the table stays well-formed and its map is updated at the key and nowhere else.\<close>

theorem hsearch_r_enter:
  assumes "ht_ok h" and "NUL \<notin> set k" and "0 < ht_free h"
  shows "\<exists>r. hsearch_r k (Some d) ENTER h [] = Some r \<and> 0 < hs_ret r \<and> ht_ok (hs_htab r) \<and>
    ht_map (hs_htab r) = (ht_map h)(k \<mapsto> d)"
  using hsearch_enter [OF assms] by blast

theorem hsearch_r_enter_witness:
  "\<exists>r. hsearch_r ''a'' (Some ''1'') ENTER table5 [] = Some r \<and> ht_ok (hs_htab r) \<and>
     ht_map (hs_htab r) ''a'' = Some ''1''"
  using hsearch_r_enter [OF table5_ok(1), of "''a''" "''1''"] by (auto simp: table5_ok)

text \<open>\<open>hdelete_r\<close> on a well-formed table reports whether the key was present, removes it from the
  map, keeps everything else and the invariant.\<close>

lemma hdelete_r_removes:
  assumes "ht_ok h" and "NUL \<notin> set k"
  shows "\<exists>h' e cs. hdelete_r k h ap = Some (ht_map h k \<noteq> None, h', e, cs) \<and> ht_ok h' \<and>
    ht_map h' = (ht_map h)(k := None)"
  using hdelete_map [OF assms] by blast

text \<open>Five entries and one deletion: no slot is empty, slot 2 carries the deletion mark.\<close>

definition worn_table :: "hsearch_data option" where
  "worn_table =
     do { h1 \<leftarrow> ht_put ''a'' ''1'' table5; h2 \<leftarrow> ht_put ''b'' ''2'' h1; h3 \<leftarrow> ht_put ''c'' ''3'' h2;
          h4 \<leftarrow> ht_put ''d'' ''4'' h3; h5 \<leftarrow> ht_put ''e'' ''5'' h4; (b, h6) \<leftarrow> ht_del ''d'' h5; Some h6 }"

lemma hash2_5: "hash2 5 hval = 1 + hval mod 3"
  by (simp add: hash2_def)

lemma hash1_5:
  "hash1 5 ''a'' = 3" "hash1 5 ''b'' = 4" "hash1 5 ''c'' = 1" "hash1 5 ''d'' = 1" "hash1 5 ''e'' = 2"
  "hash1 5 ''f'' = 3"
  by (simp_all add: hash1_def hash_key_def byte_of_def)

lemma probe_loop_numeral:
  "probe_loop (numeral n) t sz hval hval2 k idx =
     (let i = next_idx sz hval2 idx
      in if i = hval then Some (Vacant i)
         else (case slot_match (t ! i) hval k of
                 None \<Rightarrow> None
               | Some True \<Rightarrow> Some (Found i)
               | Some False \<Rightarrow>
                   if used (t ! i) \<noteq> 0 then probe_loop (pred_numeral n) t sz hval hval2 k i
                   else Some (Vacant i)))"
  by (simp add: numeral_eq_Suc)

lemma replicate_6: "replicate 6 x = [x, x, x, x, x, x]"
  by (simp add: numeral_eq_Suc)

lemmas eval5 = probe_loop_numeral replicate_6 hash1_5 hash2_5 hsearch_r_def ht_put_def ht_get_def ht_del_def hdelete_r_def hs_found_def
  hs_enter_def hs_fail_def slot_match_def next_idx_def strdup_def empty_slot_def schar_diff_def byte_of_def

lemma worn_table_eq:
  "worn_table = Some \<lparr>ht_table = Some [empty_slot,
      \<lparr>used = 1, entry = \<lparr>key = Some ''c'', data = Some ''3''\<rparr>\<rparr>,
      \<lparr>used = -1, entry = \<lparr>key = Some ''d'', data = Some ''4''\<rparr>\<rparr>,
      \<lparr>used = 3, entry = \<lparr>key = Some ''a'', data = Some ''1''\<rparr>\<rparr>,
      \<lparr>used = 4, entry = \<lparr>key = Some ''b'', data = Some ''2''\<rparr>\<rparr>,
      \<lparr>used = 2, entry = \<lparr>key = Some ''e'', data = Some ''5''\<rparr>\<rparr>],
    ht_size = 5, ht_filled = 4, ht_apply = None\<rparr>"
  by (simp add: worn_table_def table5_def eval5)

text \<open>\<open>hsearch_r\<close> with \<open>ENTER\<close> loses a variable when no slot is empty any more: it remembers a
  deleted slot only at the first index, and after a full round of probes it reuses the first
  index although that slot is live. Here \<open>a\<close> is present, \<open>f\<close> is entered with success, and \<open>a\<close> is gone
  although a slot marked deleted was available.\<close>

lemma hsearch_r_enter_overwrites:
  "do { h \<leftarrow> worn_table; ht_get ''a'' h } = Some (Some ''1'') \<and>
   do { h \<leftarrow> worn_table; r \<leftarrow> hsearch_r ''f'' (Some ''6'') ENTER h []; Some (hs_ret r) } = Some 1 \<and>
   do { h \<leftarrow> worn_table; h' \<leftarrow> ht_put ''f'' ''6'' h; ht_get ''a'' h' } = Some None"
  by (simp add: worn_table_eq eval5)

text \<open>\<open>hmatch_r\<close> stops one slot short: an entry in the last slot of the table is found by
  \<open>hsearch_r\<close> (at index 5 of a table of size 5) but not by the scan used for completion.\<close>

lemma hmatch_r_misses_last_slot:
  "do { h \<leftarrow> worn_table; r \<leftarrow> hsearch_r ''e'' None FIND h []; Some (hs_ret r) } = Some 5 \<and>
   do { h \<leftarrow> worn_table; hmatch_r ''e'' 0 h } = Some (0, None, Some ESRCH)"
  by (simp add: worn_table_eq eval5 hmatch_r_def scan_slots.simps scan_result_def)

end
