(* ===== verification/Hashtable_IO.thy ===== *)
theory Hashtable_IO
  imports Hashtable_Map
begin

text \<open>
  Export and import of the hash table (\<open>hexport_r\<close>, \<open>himport_r\<close> of \<^verbatim>\<open>lib/hashtable.c\<close>). The
  import parses the copy of the buffer in place; since its write position never passes its read
  position, the model reads the part of the buffer not yet consumed, and a read behind the last
  byte makes the call \<open>None\<close>. The main result is that importing what was exported gives the
  same map.
\<close>

section \<open>Export\<close>

abbreviation BSL :: char where
  "BSL \<equiv> CHR 0x5C"

text \<open>
  Pass 1: the live entries in table order, restricted to \<open>argv\<close> when names are given. Each test
  is a \<open>strcmp\<close>; a null string in a live entry would be read through.
\<close>

fun collect :: "string list \<Rightarrow> slot list \<Rightarrow> (string \<times> string) list option" where
  "collect argv [] = Some []"
| "collect argv (s # ss) =
     (if used s > 0
      then (case (key (entry s), data (entry s)) of
              (Some k, Some d) \<Rightarrow>
                (if argv \<noteq> [] \<and> \<not> list_ex (\<lambda>a. scmp a k = 0) argv then collect argv ss
                 else map_option (\<lambda>xs. (k, d) # xs) (collect argv ss))
            | _ \<Rightarrow> None)
      else collect argv ss)"

definition escaped_len :: "char \<Rightarrow> string \<Rightarrow> nat" where
  "escaped_len sep d = length d + length (filter (\<lambda>c. c = sep \<or> c = BSL) d)"

definition entry_len :: "char \<Rightarrow> string \<times> string \<Rightarrow> nat" where
  "entry_len sep e =
     length (fst e) + 2 + (if sep = NUL then length (snd e) else escaped_len sep (snd e)) + 2"

definition totlen :: "char \<Rightarrow> (string \<times> string) list \<Rightarrow> nat" where
  "totlen sep es = sum_list (map (entry_len sep) es)"

text \<open>\<open>cmpkey\<close>: the comparison of two entries by key.\<close>

definition cmpkey :: "string \<times> string \<Rightarrow> string \<times> string \<Rightarrow> int" where
  "cmpkey e1 e2 = scmp (fst e1) (fst e2)"

text \<open>Pass 2: every entry as \<open>name=value\<close> and the separator, with escapes in the value.\<close>

definition escape :: "char \<Rightarrow> string \<Rightarrow> string" where
  "escape sep d = concat (map (\<lambda>c. if c = sep \<or> c = BSL then [BSL, c] else [c]) d)"

definition entry_text :: "char \<Rightarrow> string \<times> string \<Rightarrow> string" where
  "entry_text sep e = fst e @ ''='' @ escape sep (snd e) @ [sep]"

definition export_text :: "char \<Rightarrow> (string \<times> string) list \<Rightarrow> string" where
  "export_text sep es = concat (map (entry_text sep) es) @ [NUL]"

datatype export_result = Export_error errno | Exported nat mem

text \<open>
  \<open>resp\<close> is the caller's buffer, if any, with its real extent; without one, \<open>size\<close> bytes are
  allocated. A write outside the buffer is \<open>None\<close>.
\<close>

definition hexport_r ::
  "hsearch_data \<Rightarrow> char \<Rightarrow> mem option \<Rightarrow> nat \<Rightarrow> string list \<Rightarrow> mallocs \<Rightarrow> export_result option" where
  "hexport_r htab sep resp sz0 argv mo =
     do { t \<leftarrow> ht_table htab;
          es \<leftarrow> collect argv (map (\<lambda>i. t ! i) [1..<ht_size htab + 1]);
          let tot = totlen sep es;
          let es' = qsort cmpkey es;
          if sz0 \<noteq> 0 \<and> sz0 < tot + 1 then Some (Export_error ENOMEM)
          else do {
            let sz = (if sz0 \<noteq> 0 then sz0 else tot + 1);
            let out = export_text sep es';
            (case resp of
               Some buf \<Rightarrow>
                 if sz \<le> length buf \<and> length out \<le> length buf
                 then Some (Exported sz (store (store buf 0 (replicate sz NUL)) 0 out))
                 else None
             | None \<Rightarrow>
                 if \<not> fst (next_malloc mo) then Some (Export_error ENOMEM)
                 else if length out \<le> sz then Some (Exported sz (store (replicate sz NUL) 0 out))
                 else None) } }"

section \<open>Parsing one entry of an import\<close>

datatype import_item = Skip | Delete string | Assign string string

definition emit :: "char \<Rightarrow> (string \<times> char list) option \<Rightarrow> (string \<times> char list) option" where
  "emit c r = (case r of None \<Rightarrow> None | Some (v, q) \<Rightarrow> Some (c # v, q))"

text \<open>The value up to NUL or the separator, which is consumed; a backslash before a character
  other than NUL is dropped and that character is taken as it is.\<close>

function import_value :: "char \<Rightarrow> char list \<Rightarrow> (string \<times> char list) option" where
  "import_value sep [] = None"
| "import_value sep (c # cs) =
     (if c = NUL \<or> c = sep then Some ([], cs)
      else if c = BSL \<and> cs = [] then None
      else if c = BSL \<and> hd cs \<noteq> NUL then emit (hd cs) (import_value sep (tl cs))
      else emit c (import_value sep cs))"
  by pat_completeness auto
termination
  by (relation "measure (\<lambda>(sep, cs). length cs)") auto

text \<open>
  One turn of the parse loop: blanks are skipped; a comment runs to its separator; a name with
  nothing behind it, or with nothing behind its \<open>=\<close>, is a deletion; otherwise the value follows.
  The second look-ahead character is read unless the first one is NUL.
\<close>

definition import_comment :: "char \<Rightarrow> char list \<Rightarrow> (import_item \<times> char list) option" where
  "import_comment sep rs =
     (case dropWhile (\<lambda>c. c \<noteq> NUL \<and> c \<noteq> sep) rs of [] \<Rightarrow> None | _ # r \<Rightarrow> Some (Skip, r))"

definition import_rest :: "char \<Rightarrow> string \<Rightarrow> char list \<Rightarrow> (import_item \<times> char list) option" where
  "import_rest sep nm rs =
     (case rs of
        [] \<Rightarrow> None
      | c # r \<Rightarrow>
          if c = NUL then Some (Delete nm, r)
          else (case r of
                  [] \<Rightarrow> None
                | d # r' \<Rightarrow>
                    if d = NUL \<or> c = sep \<or> d = sep
                    then Some (Delete nm, if c = CHR ''='' then r' else r)
                    else (case import_value sep r of
                            None \<Rightarrow> None
                          | Some (v, q) \<Rightarrow> Some (Assign nm v, q))))"

definition in_name :: "char \<Rightarrow> char \<Rightarrow> bool" where
  "in_name sep c \<longleftrightarrow> c \<noteq> CHR ''='' \<and> c \<noteq> NUL \<and> c \<noteq> sep"

definition import_item :: "char \<Rightarrow> char list \<Rightarrow> (import_item \<times> char list) option" where
  "import_item sep rs0 =
     (let rs = dropWhile isblank rs0
      in case rs of
           [] \<Rightarrow> None
         | c0 # _ \<Rightarrow>
             if c0 = CHR ''#'' then import_comment sep rs
             else import_rest sep (takeWhile (in_name sep) rs) (dropWhile (in_name sep) rs))"

lemma emit_Some: "emit c r = Some (v, q) \<longleftrightarrow> (\<exists>w. v = c # w \<and> r = Some (w, q))"
  by (auto simp: emit_def split: option.splits)

lemma import_value_length: "import_value sep cs = Some (v, r) \<Longrightarrow> length r < length cs"
proof (induction sep cs arbitrary: v r rule: import_value.induct)
  case (2 sep c cs)
  consider "r = cs" | "\<exists>w. import_value sep cs = Some (w, r) \<and> \<not> (c = NUL \<or> c = sep) \<and> \<not> (c = BSL \<and> hd cs \<noteq> NUL)"
    | "\<exists>w. import_value sep (tl cs) = Some (w, r) \<and> \<not> (c = NUL \<or> c = sep) \<and> c = BSL \<and> hd cs \<noteq> NUL \<and> cs \<noteq> []"
    using "2.prems" by (simp split: if_splits add: emit_Some) blast+
  then show ?case
  proof cases
    case 2
    then have "length r < length cs" using "2.IH"(2) "2.prems" by (auto split: if_splits)
    then show ?thesis by simp
  next
    case 3
    then have "length r < length (tl cs)" using "2.IH"(1) by blast
    then show ?thesis by simp
  qed simp
qed simp

lemma length_dropWhile_Cons:
  "dropWhile P xs = y # ys \<Longrightarrow> length ys < length xs"
  by (metis length_dropWhile_le length_Cons less_eq_Suc_le)

lemma import_rest_length:
  assumes "import_rest sep nm rs = Some (it, r)"
  shows "length r < length rs"
proof -
  obtain c q where rs: "rs = c # q" using assms by (cases rs) (auto simp: import_rest_def)
  show ?thesis
  proof (cases "c = NUL \<or> q = []")
    case True
    then show ?thesis using assms by (auto simp: rs import_rest_def split: if_splits)
  next
    case False
    then obtain d q' where q: "q = d # q'" by (cases q) auto
    show ?thesis
    proof (cases "d = NUL \<or> c = sep \<or> d = sep")
      case True
      then show ?thesis using assms False by (auto simp: rs q import_rest_def split: if_splits)
    next
      case nodel: False
      then obtain v where "import_value sep q = Some (v, r)"
        using assms False by (cases "import_value sep q") (auto simp: rs q import_rest_def)
      then show ?thesis using import_value_length by (fastforce simp: rs)
    qed
  qed
qed

lemma import_item_length:
  assumes "import_item sep rs = Some (it, r)"
  shows "length r < length rs"
proof -
  let ?rs = "dropWhile isblank rs"
  obtain c0 q where rs: "?rs = c0 # q"
    using assms by (cases ?rs) (auto simp: import_item_def)
  have "length r < length ?rs"
  proof (cases "c0 = CHR ''#''")
    case True
    then have "import_comment sep ?rs = Some (it, r)" using assms by (simp add: import_item_def rs)
    then obtain c where "dropWhile (\<lambda>c. c \<noteq> NUL \<and> c \<noteq> sep) ?rs = c # r"
      by (cases "dropWhile (\<lambda>c. c \<noteq> NUL \<and> c \<noteq> sep) ?rs") (simp_all add: import_comment_def)
    then show ?thesis by (rule length_dropWhile_Cons)
  next
    case False
    then have "length r < length (dropWhile (in_name sep) ?rs)"
      using assms import_rest_length by (fastforce simp: import_item_def rs)
    then show ?thesis using length_dropWhile_le [of "in_name sep" ?rs] by simp
  qed
  then show ?thesis using length_dropWhile_le [of isblank rs] by simp
qed

section \<open>Import\<close>

text \<open>\<open>drop_var_from_set\<close>: with no names given every variable is processed; a name found is dropped
  from the list (its pointer becomes null).\<close>

definition drop_var_from_set :: "string \<Rightarrow> string option list \<Rightarrow> bool \<times> string option list" where
  "drop_var_from_set nm vars =
     (if vars = [] then (True, [])
      else let hit = (\<lambda>v. case v of None \<Rightarrow> False | Some x \<Rightarrow> scmp nm x = 0)
           in (list_ex hit vars, map (\<lambda>v. if hit v then None else v) vars))"

record import_state =
  im_htab :: hsearch_data
  im_vars :: "string option list"
  im_mallocs :: mallocs
  im_calls :: "cb_call list"

definition im_delete :: "string \<Rightarrow> bool \<Rightarrow> import_state \<Rightarrow> import_state option" where
  "im_delete nm do_apply st =
     do { (b, h, e, cs) \<leftarrow> hdelete_r nm (im_htab st) do_apply;
          Some (st\<lparr>im_htab := h, im_calls := im_calls st @ cs\<rparr>) }"

text \<open>The callback, if asked for: it sees the old value, and refuses by a result other than zero.\<close>

definition im_refused ::
  "string \<Rightarrow> string \<Rightarrow> nat \<Rightarrow> bool \<Rightarrow> import_state \<Rightarrow> (bool \<times> import_state) option" where
  "im_refused nm v flag do_apply st =
     (case (do_apply, ht_apply (im_htab st)) of
        (True, Some cb) \<Rightarrow>
          do { r \<leftarrow> hsearch_r nm (Some v) FIND (im_htab st) (im_mallocs st);
               old \<leftarrow> (case hs_retval r of
                        None \<Rightarrow> Some None
                      | Some i \<Rightarrow> do { t \<leftarrow> ht_table (im_htab st); Some (data (entry (t ! i))) });
               Some (cb nm old (Some v) flag,
                     st\<lparr>im_calls := im_calls st @ [(Some nm, old, Some v, flag)]\<rparr>) }
      | _ \<Rightarrow> Some (False, st))"

text \<open>What one parsed entry does to the table; the flag is whether the import goes on.\<close>

fun import_step ::
  "nat \<Rightarrow> bool \<Rightarrow> import_item \<Rightarrow> import_state \<Rightarrow> (bool \<times> import_state) option" where
  "import_step flag do_apply Skip st = Some (True, st)"
| "import_step flag do_apply (Delete nm) st =
     (let (hit, vs) = drop_var_from_set nm (im_vars st); st1 = st\<lparr>im_vars := vs\<rparr>
      in if hit then map_option (Pair True) (im_delete nm do_apply st1) else Some (True, st1))"
| "import_step flag do_apply (Assign nm v) st =
     (let (hit, vs) = drop_var_from_set nm (im_vars st); st1 = st\<lparr>im_vars := vs\<rparr>
      in if \<not> hit then Some (True, st1)
         else do { (no, st2) \<leftarrow> im_refused nm v flag do_apply st1;
                   if no then Some (True, st2)
                   else do { r \<leftarrow> hsearch_r nm (Some v) ENTER (im_htab st2) (im_mallocs st2);
                             Some (hs_retval r \<noteq> None,
                                   st2\<lparr>im_htab := hs_htab r, im_mallocs := hs_mallocs r\<rparr>) } })"

text \<open>The \<open>do \<dots> while\<close> loop; the flag is false when an entry could not be inserted.\<close>

function import_loop ::
  "char \<Rightarrow> nat \<Rightarrow> bool \<Rightarrow> char list \<Rightarrow> import_state \<Rightarrow> (bool \<times> import_state) option" where
  "import_loop sep flag do_apply rs st =
     (case import_item sep rs of
        None \<Rightarrow> None
      | Some (it, r) \<Rightarrow>
          (case import_step flag do_apply it st of
             None \<Rightarrow> None
           | Some (go, st') \<Rightarrow>
               if go \<and> r \<noteq> [] \<and> hd r \<noteq> NUL then import_loop sep flag do_apply r st'
               else Some (go, st')))"
  by pat_completeness auto
termination
  by (relation "measure (\<lambda>(sep, flag, do_apply, rs, st). length rs)") (auto dest: import_item_length)

declare import_loop.simps [simp del]

text \<open>The names still on the list were not in the imported text: they are deleted.\<close>

fun delete_leftover :: "bool \<Rightarrow> string option list \<Rightarrow> import_state \<Rightarrow> import_state option" where
  "delete_leftover do_apply [] st = Some st"
| "delete_leftover do_apply (None # vs) st = delete_leftover do_apply vs st"
| "delete_leftover do_apply (Some x # vs) st =
     do { st' \<leftarrow> im_delete x do_apply st; delete_leftover do_apply vs st' }"

definition CONFIG_ENV_MIN_ENTRIES :: nat where "CONFIG_ENV_MIN_ENTRIES = 64"
definition CONFIG_ENV_MAX_ENTRIES :: nat where "CONFIG_ENV_MAX_ENTRIES = 512"

definition import_entries :: "nat \<Rightarrow> nat" where
  "import_entries sz = min CONFIG_ENV_MAX_ENTRIES (CONFIG_ENV_MIN_ENTRIES + sz div 8)"

text \<open>
  Discard the old table unless told otherwise, and make a new one when there is none. The flag is
  false when that fails.
\<close>

definition import_table ::
  "nat \<Rightarrow> nat \<Rightarrow> bool \<Rightarrow> import_state \<Rightarrow> (bool \<times> import_state) option" where
  "import_table sz flag do_apply st =
     do { st1 \<leftarrow> (if flag AND H_NOCLEAR = 0 \<and> ht_table (im_htab st) \<noteq> None
                 then do { (h, cs) \<leftarrow> hdestroy_r (im_htab st) do_apply;
                           Some (st\<lparr>im_htab := h, im_calls := im_calls st @ cs\<rparr>) }
                 else Some st);
          if ht_table (im_htab st1) = None
          then do { (ok, h, mo) \<leftarrow> hcreate_r (import_entries sz) (im_htab st1) (im_mallocs st1);
                    Some (ok, st1\<lparr>im_htab := h, im_mallocs := mo\<rparr>) }
          else Some (True, st1) }"

definition himport_r ::
  "hsearch_data \<Rightarrow> mem \<Rightarrow> nat \<Rightarrow> char \<Rightarrow> nat \<Rightarrow> string list \<Rightarrow> bool \<Rightarrow> mallocs \<Rightarrow>
     (bool \<times> import_state) option" where
  "himport_r htab env sz sep flag vars do_apply mo =
     (let (ok, mo1) = next_malloc mo;
          st = \<lparr>im_htab = htab, im_vars = map Some vars, im_mallocs = mo1, im_calls = []\<rparr>
      in if \<not> ok then Some (False, st)
         else if length env < sz then None
         else do { (made, st1) \<leftarrow> import_table sz flag do_apply st;
                   if \<not> made then Some (False, st1)
                   else do { (done_ok, st2) \<leftarrow> import_loop sep flag do_apply (take sz env) st1;
                             if \<not> done_ok then Some (False, st2)
                             else do { st3 \<leftarrow> delete_leftover do_apply (im_vars st2) st2;
                                       Some (True, st3) } } })"

section \<open>The import runs operations of the store\<close>

text \<open>
  Specification of the import: the items of the text, in order, are updates and removals of the
  store, and nothing else.
\<close>

function import_items :: "char \<Rightarrow> char list \<Rightarrow> import_item list option" where
  "import_items sep rs =
     (case import_item sep rs of
        None \<Rightarrow> None
      | Some (it, r) \<Rightarrow>
          if r \<noteq> [] \<and> hd r \<noteq> NUL then map_option (Cons it) (import_items sep r) else Some [it])"
  by pat_completeness auto
termination
  by (relation "measure (\<lambda>(sep, rs). length rs)") (auto dest: import_item_length)

declare import_items.simps [simp del]

fun item_ops :: "import_item \<Rightarrow> store_op list" where
  "item_ops Skip = []"
| "item_ops (Delete k) = [Del k]"
| "item_ops (Assign k v) = [Put k v]"

definition text_ops :: "import_item list \<Rightarrow> store_op list" where
  "text_ops its = concat (map item_ops its)"

lemma text_ops_simps [simp]:
  "text_ops [] = []" "text_ops (it # its) = item_ops it @ text_ops its"
  by (simp_all add: text_ops_def)

lemma hsearch_r_mallocs:
  assumes "hsearch_r k d a h [] = Some r"
  shows "hs_mallocs r = []"
  using assms
  by (auto simp: hsearch_r_def hs_found_def hs_enter_def hs_fail_def strdup_def Let_def
      split: option.splits bool.splits probe.splits if_splits)

lemma run_ops_append:
  "ht.run_ops (xs @ ys) h = do { h' \<leftarrow> ht.run_ops xs h; ht.run_ops ys h' }"
  by (induction xs arbitrary: h) (auto split: bind_splits)

definition quiet :: "import_state \<Rightarrow> bool" where
  "quiet st \<longleftrightarrow> im_vars st = [] \<and> im_mallocs st = [] \<and> im_calls st = []"

lemma hdelete_no_calls: "hdelete_r k h False = Some (b, h', e, cs) \<Longrightarrow> cs = []"
  by (auto simp: hdelete_r_def bind_Some_iff Let_def split: if_splits option.splits)

lemma import_step_runs:
  assumes "quiet st" and "ht.run_ops (item_ops it) (im_htab st) = Some h"
  shows "\<exists>st'. import_step flag False it st = Some (True, st') \<and> quiet st' \<and> im_htab st' = h"
proof (cases it)
  case (Delete k)
  then show ?thesis using assms
    by (auto simp: ht_del_def im_delete_def drop_var_from_set_def quiet_def bind_Some_iff dest: hdelete_no_calls)
next
  case (Assign k v)
  then obtain r where r: "hsearch_r k (Some v) ENTER (im_htab st) [] = Some r" "hs_retval r \<noteq> None"
    "hs_htab r = h"
    using assms by (auto simp: ht_put_def bind_Some_iff split: if_splits)
  with Assign assms(1) hsearch_r_mallocs [OF r(1)] show ?thesis
    by (auto simp: drop_var_from_set_def quiet_def im_refused_def)
qed (use assms in auto)

lemma import_loop_runs:
  assumes "quiet st" and "import_items sep rs = Some its"
    and "ht.run_ops (text_ops its) (im_htab st) = Some h"
  shows "\<exists>st'. import_loop sep flag False rs st = Some (True, st') \<and> quiet st' \<and> im_htab st' = h"
  using assms
proof (induction sep rs arbitrary: st its rule: import_items.induct)
  case (1 sep rs)
  obtain it r where it: "import_item sep rs = Some (it, r)"
    using "1.prems"(2) by (subst (asm) import_items.simps) (auto split: option.splits)
  show ?case
  proof (cases "r \<noteq> [] \<and> hd r \<noteq> NUL")
    case True
    then obtain its' where its: "its = it # its'" "import_items sep r = Some its'"
      using "1.prems"(2) by (subst (asm) import_items.simps) (auto simp: it)
    then obtain h1 where h1: "ht.run_ops (item_ops it) (im_htab st) = Some h1"
      "ht.run_ops (text_ops its') h1 = Some h"
      using "1.prems"(3) by (auto simp: run_ops_append bind_Some_iff)
    obtain st1 where "import_step flag False it st = Some (True, st1)" "quiet st1" "im_htab st1 = h1"
      using import_step_runs [OF "1.prems"(1) h1(1)] by blast
    with True h1 its it "1.IH" [of "(it, r)" it r st1 its'] show ?thesis
      by (subst import_loop.simps) simp
  next
    case False
    then have "its = [it]" using "1.prems"(2) by (subst (asm) import_items.simps) (auto simp: it)
    then obtain st1 where "import_step flag False it st = Some (True, st1)" "quiet st1" "im_htab st1 = h"
      using import_step_runs [OF "1.prems"(1)] "1.prems"(3) by force
    with False it show ?thesis by (subst import_loop.simps) auto
  qed
qed

lemma import_entries_bounds: "2 \<le> import_entries sz" "import_entries sz \<le> 520"
  by (simp_all add: import_entries_def CONFIG_ENV_MIN_ENTRIES_def CONFIG_ENV_MAX_ENTRIES_def)

text \<open>The map the import starts from and the number of new names it has room for.\<close>

definition import_base :: "hsearch_data \<Rightarrow> nat \<Rightarrow> (string \<rightharpoonup> string)" where
  "import_base h flag = (if flag AND H_NOCLEAR = 0 then Map.empty else ht_map h)"

definition import_room :: "hsearch_data \<Rightarrow> nat \<Rightarrow> nat \<Rightarrow> nat" where
  "import_room h flag sz =
     (if flag AND H_NOCLEAR = 0 \<or> ht_table h = None then import_entries sz else ht_free h)"

lemma import_table_ready:
  assumes "quiet st" and h: "im_htab st = h" and "ht_ok h \<or> ht_table h = None"
  shows "\<exists>st'. import_table sz flag False st = Some (True, st') \<and> quiet st' \<and> ht_ok (im_htab st') \<and>
    ht_map (im_htab st') = import_base h flag \<and> import_room h flag sz \<le> ht_free (im_htab st')"
proof (cases "flag AND H_NOCLEAR = 0 \<or> ht_table h = None")
  case True
  let ?h = "h\<lparr>ht_table := None\<rparr>"
  obtain h' p where h': "hcreate_r (import_entries sz) ?h [] = Some (True, h', [])"
    "import_entries sz \<le> p" "ht_ok h'" "ht_map h' = Map.empty" "ht_free h' = p"
    using hcreate_fresh [of ?h "import_entries sz" 521] import_entries_bounds [of sz] nprime_521 by auto
  moreover have "ht_map h = Map.empty \<and> ?h = h" if "ht_table h = None"
    using that by (simp add: ht_map_def)
  ultimately show ?thesis using assms(1) h True
    by (cases "ht_table h")
       (auto simp: import_table_def hdestroy_r_def quiet_def import_base_def import_room_def Let_def)
next
  case False
  then show ?thesis using assms
    by (auto simp: import_table_def quiet_def import_base_def import_room_def)
qed

lemma import_rest_name: "import_rest sep nm rs = Some (it, r) \<Longrightarrow> it = Delete nm \<or> (\<exists>v. it = Assign nm v)"
  by (auto simp: import_rest_def split: list.splits if_splits option.splits)

lemma import_item_names:
  assumes "import_item sep rs = Some (it, r)" and "x \<in> set (item_ops it)"
  shows "cstring (op_key x)"
proof -
  let ?rs = "dropWhile isblank rs"
  have cs: "cstring (takeWhile (in_name sep) ?rs)"
    by (auto simp: cstring_def in_name_def dest: set_takeWhileD)
  obtain c0 q where rs: "?rs = c0 # q"
    using assms by (cases ?rs) (auto simp: import_item_def)
  show ?thesis
  proof (cases "c0 = CHR ''#''")
    case True
    then have "it = Skip"
      using assms(1) by (auto simp: import_item_def rs import_comment_def split: list.splits)
    with assms(2) show ?thesis by simp
  next
    case False
    then have "import_rest sep (takeWhile (in_name sep) ?rs) (dropWhile (in_name sep) ?rs) = Some (it, r)"
      using assms(1) by (simp add: import_item_def rs)
    then show ?thesis using import_rest_name assms(2) cs by fastforce
  qed
qed

lemma import_items_names:
  "import_items sep rs = Some its \<Longrightarrow> x \<in> set (text_ops its) \<Longrightarrow> cstring (op_key x)"
proof (induction sep rs arbitrary: its rule: import_items.induct)
  case (1 sep rs)
  obtain it r where it: "import_item sep rs = Some (it, r)"
    using "1.prems"(1) by (subst (asm) import_items.simps) (auto split: option.splits)
  from 1 it import_item_names [OF it] show ?case
    by (subst (asm) (2) import_items.simps) (auto split: if_splits)
qed

lemma himport_r_map:
  assumes "ht_ok h \<or> ht_table h = None" and "sz \<le> length env"
    and its: "import_items sep (take sz env) = Some its"
    and room: "length (filter is_put (text_ops its)) \<le> import_room h flag sz"
  shows "\<exists>st. himport_r h env sz sep flag [] False [] = Some (True, st) \<and> ht_ok (im_htab st) \<and>
    ht_map (im_htab st) = fold op_map (text_ops its) (import_base h flag) \<and> im_calls st = []"
proof -
  let ?st = "\<lparr>im_htab = h, im_vars = [], im_mallocs = [], im_calls = []\<rparr>"
  obtain st1 where st1: "import_table sz flag False ?st = Some (True, st1)" "quiet st1"
    "ht_ok (im_htab st1)" "ht_map (im_htab st1) = import_base h flag"
    "import_room h flag sz \<le> ht_free (im_htab st1)"
    using import_table_ready [of ?st h sz flag] assms(1) by (auto simp: quiet_def)
  obtain h2 where h2: "ht.run_ops (text_ops its) (im_htab st1) = Some h2" "ht_ok h2"
    "ht_map h2 = fold op_map (text_ops its) (import_base h flag)"
    using ht.run_ops_abs [of "im_htab st1" "text_ops its"] import_items_names [OF its] st1 room
    by (metis le_trans)
  obtain st2 where "import_loop sep flag False (take sz env) st1 = Some (True, st2)" "quiet st2"
    "im_htab st2 = h2"
    using import_loop_runs [OF st1(2) its h2(1)] by blast
  with st1 h2 assms(2) show ?thesis by (auto simp: himport_r_def quiet_def)
qed

section \<open>The language of the text\<close>

text \<open>
  The form of the text as the comment before \<open>himport_r\<close> describes it, as a grammar that spells lines out; nothing of it is taken
  from the parser. A line has leading white space, one of three forms and a terminator, which is the separator or NUL. A
  value is a list of characters, each written plainly or behind a backslash.
\<close>

datatype value_char = Plain char | Escaped char

datatype env_line = Comment string | Remove string bool | Define string "value_char list"

type_synonym text_line = "string \<times> env_line \<times> char"

fun spell_char :: "value_char \<Rightarrow> string" where
  "spell_char (Plain c) = [c]"
| "spell_char (Escaped c) = [CHR 0x5C, c]"

fun meant_char :: "value_char \<Rightarrow> char" where
  "meant_char (Plain c) = c"
| "meant_char (Escaped c) = c"

fun spell_line :: "env_line \<Rightarrow> string" where
  "spell_line (Comment s) = ''#'' @ s"
| "spell_line (Remove nm eq) = nm @ (if eq then ''='' else '''')"
| "spell_line (Define nm v) = nm @ ''='' @ concat (map spell_char v)"

definition spell :: "text_line \<Rightarrow> string" where
  "spell l = (case l of (blanks, line, t) \<Rightarrow> blanks @ spell_line line @ [t])"

text \<open>Which characters may stand where. A line of nothing but a NUL is the end of the text, not a line.\<close>

fun char_ok :: "char \<Rightarrow> value_char \<Rightarrow> bool" where
  "char_ok sep (Plain c) \<longleftrightarrow> c \<noteq> NUL \<and> c \<noteq> sep \<and> c \<noteq> CHR 0x5C"
| "char_ok sep (Escaped c) \<longleftrightarrow> c \<noteq> NUL"

definition name_ok :: "char \<Rightarrow> string \<Rightarrow> bool" where
  "name_ok sep nm \<longleftrightarrow> set nm \<inter> {CHR ''='', NUL, sep} = {} \<and> (nm \<noteq> [] \<longrightarrow> hd nm \<notin> {CHR ''#'', CHR '' '', CHR 0x09})"

fun form_ok :: "char \<Rightarrow> env_line \<Rightarrow> bool" where
  "form_ok sep (Comment s) \<longleftrightarrow> set s \<inter> {NUL, sep} = {}"
| "form_ok sep (Remove nm eq) \<longleftrightarrow> name_ok sep nm"
| "form_ok sep (Define nm v) \<longleftrightarrow> name_ok sep nm \<and> v \<noteq> [] \<and> list_all (char_ok sep) v"

definition text_line_ok :: "char \<Rightarrow> text_line \<Rightarrow> bool" where
  "text_line_ok sep l \<longleftrightarrow>
     (case l of (blanks, line, t) \<Rightarrow>
        set blanks \<subseteq> {CHR '' '', CHR 0x09} \<and> form_ok sep line \<and> (t = sep \<or> t = NUL) \<and> hd (spell l) \<noteq> NUL)"

text \<open>The text ends with its last line or at a NUL behind it. The code looks one character behind the separator of a bare name,
  so a text must not end with one.\<close>

fun bare_name :: "text_line \<Rightarrow> bool" where
  "bare_name (blanks, Remove nm False, t) \<longleftrightarrow> t \<noteq> NUL"
| "bare_name _ \<longleftrightarrow> False"

definition is_env_text :: "char \<Rightarrow> text_line list \<Rightarrow> string \<Rightarrow> bool" where
  "is_env_text sep ls txt \<longleftrightarrow>
     ls \<noteq> [] \<and> list_all (text_line_ok sep) ls \<and>
     (let body = concat (map spell ls); rest = drop (length body) txt
      in txt = body @ rest \<and> (if rest = [] then \<not> bare_name (last ls) else hd rest = NUL))"

text \<open>What the lines mean for the variables.\<close>

fun line_effect :: "text_line \<Rightarrow> (string \<rightharpoonup> string) \<Rightarrow> (string \<rightharpoonup> string)" where
  "line_effect (blanks, Comment s, t) m = m"
| "line_effect (blanks, Remove nm eq, t) m = m(nm := None)"
| "line_effect (blanks, Define nm v, t) m = m(nm \<mapsto> map meant_char v)"

fun is_definition :: "text_line \<Rightarrow> bool" where
  "is_definition (blanks, Define nm v, t) \<longleftrightarrow> True"
| "is_definition _ \<longleftrightarrow> False"

section \<open>The parser reads the language\<close>

fun line_item :: "env_line \<Rightarrow> import_item" where
  "line_item (Comment s) = Skip"
| "line_item (Remove nm eq) = Delete nm"
| "line_item (Define nm v) = Assign nm (map meant_char v)"

lemma import_value_tokens:
  assumes "list_all (char_ok sep) v" and "t = sep \<or> t = NUL" and "sep \<noteq> BSL"
  shows "import_value sep (concat (map spell_char v) @ t # rest) = Some (map meant_char v, rest)"
  using assms(1)
proof (induction v)
  case (Cons x v)
  then show ?case using assms(2,3) by (cases x) (auto simp: emit_def)
qed (use assms(2) in auto)

lemma import_rest_line:
  assumes "name_ok sep nm" and "t = sep \<or> t = NUL" and "sep \<noteq> CHR ''=''" and "sep \<noteq> BSL"
  shows "rest \<noteq> [] \<or> t = NUL \<Longrightarrow> import_rest sep nm (t # rest) = Some (Delete nm, rest)"
    and "import_rest sep nm (CHR ''='' # t # rest) = Some (Delete nm, rest)"
    and "v \<noteq> [] \<Longrightarrow> list_all (char_ok sep) v \<Longrightarrow>
      import_rest sep nm (CHR ''='' # concat (map spell_char v) @ t # rest) = Some (Assign nm (map meant_char v), rest)"
proof -
  show "rest \<noteq> [] \<or> t = NUL \<Longrightarrow> import_rest sep nm (t # rest) = Some (Delete nm, rest)"
    using assms by (cases rest) (auto simp: import_rest_def)
  show "import_rest sep nm (CHR ''='' # t # rest) = Some (Delete nm, rest)"
    using assms by (auto simp: import_rest_def)
  assume v: "v \<noteq> []" "list_all (char_ok sep) v"
  then obtain d r where d: "concat (map spell_char v) = d # r" "d \<noteq> NUL" "d \<noteq> sep"
    using assms(4) by (cases v; cases "hd v") auto
  then show "import_rest sep nm (CHR ''='' # concat (map spell_char v) @ t # rest) = Some (Assign nm (map meant_char v), rest)"
    using import_value_tokens [OF v(2) assms(2,4), of rest] assms(3) by (simp add: import_rest_def)
qed

lemma name_span:
  assumes "name_ok sep nm" and "\<not> in_name sep c"
  shows "takeWhile (in_name sep) (nm @ c # cs) = nm" and "dropWhile (in_name sep) (nm @ c # cs) = c # cs"
proof -
  have "\<forall>x\<in>set nm. in_name sep x" using assms(1) by (auto simp: name_ok_def in_name_def)
  then show "takeWhile (in_name sep) (nm @ c # cs) = nm" "dropWhile (in_name sep) (nm @ c # cs) = c # cs"
    using assms(2) by (simp_all add: takeWhile_append2 dropWhile_append2)
qed

text \<open>A separator that has no other role in the text.\<close>

definition sep_ok :: "char \<Rightarrow> bool" where
  "sep_ok sep \<longleftrightarrow> sep \<notin> {CHR ''='', CHR ''#'', CHR '' '', CHR 0x09, CHR 0x5C}"

lemma import_item_named:
  assumes "sep_ok sep" and "name_ok sep nm" and "\<not> in_name sep c" and "c = CHR ''='' \<or> c = sep \<or> c = NUL"
  shows "import_item sep (nm @ c # cs) = import_rest sep nm (c # cs)"
proof -
  obtain c0 q where q: "nm @ c # cs = c0 # q" by (cases nm) auto
  have "\<not> isblank c0 \<and> c0 \<noteq> CHR ''#''"
    using assms q by (cases nm) (auto simp: name_ok_def sep_ok_def isblank_def)
  then show ?thesis
    using name_span [OF assms(2,3), of cs] by (simp add: import_item_def Let_def q)
qed

lemma import_item_blanks: "set bs \<subseteq> {CHR '' '', CHR 0x09} \<Longrightarrow> import_item sep (bs @ cs) = import_item sep cs"
proof -
  assume "set bs \<subseteq> {CHR '' '', CHR 0x09}"
  then have "\<forall>c\<in>set bs. isblank c" by (auto simp: isblank_def)
  then have "dropWhile isblank (bs @ cs) = dropWhile isblank cs" by (simp add: dropWhile_append2)
  then show ?thesis by (simp only: import_item_def)
qed

lemma import_item_comment:
  assumes "set s \<inter> {NUL, sep} = {}" and "t = sep \<or> t = NUL" and "sep \<noteq> CHR ''#''"
  shows "import_item sep (CHR ''#'' # s @ t # rest) = Some (Skip, rest)"
proof -
  have "\<forall>c\<in>set s. c \<noteq> NUL \<and> c \<noteq> sep" using assms(1) by auto
  then have "dropWhile (\<lambda>c. c \<noteq> NUL \<and> c \<noteq> sep) (s @ t # rest) = t # rest"
    using assms(2) by (auto simp: dropWhile_append2)
  then show ?thesis using assms(2,3) by (auto simp: import_item_def import_comment_def isblank_def)
qed

lemma import_item_line:
  assumes "sep_ok sep" and "text_line_ok sep (bs, line, t)" and "rest \<noteq> [] \<or> \<not> bare_name (bs, line, t)"
  shows "import_item sep (spell (bs, line, t) @ rest) = Some (line_item line, rest)"
proof -
  have ok: "form_ok sep line" "t = sep \<or> t = NUL" "set bs \<subseteq> {CHR '' '', CHR 0x09}"
    using assms(2) by (auto simp: text_line_ok_def)
  have sp: "sep \<noteq> CHR ''=''" "sep \<noteq> CHR ''#''" "sep \<noteq> BSL" using assms(1) by (auto simp: sep_ok_def)
  have t: "\<not> in_name sep t" "\<not> in_name sep (CHR ''='')" using ok(2) by (auto simp: in_name_def)
  have "import_item sep (spell_line line @ t # rest) = Some (line_item line, rest)"
  proof (cases line)
    case (Comment s)
    then show ?thesis using import_item_comment [of s sep t rest] ok sp(2) by simp
  next
    case (Remove nm eq)
    then have nm: "name_ok sep nm" and bare: "\<not> eq \<Longrightarrow> rest \<noteq> [] \<or> t = NUL" using ok(1) assms(3) by (cases eq; simp)+
    show ?thesis
      using import_item_named [OF assms(1) nm t(1), of rest] import_item_named [OF assms(1) nm t(2), of "t # rest"]
        import_rest_line(1,2) [OF nm ok(2) sp(1,3), of rest] ok(2) bare Remove by (cases eq) auto
  next
    case (Define nm v)
    then have nm: "name_ok sep nm" "v \<noteq> []" "list_all (char_ok sep) v" using ok(1) by auto
    show ?thesis
      using import_item_named [OF assms(1) nm(1) t(2), of "concat (map spell_char v) @ t # rest"]
        import_rest_line(3) [OF nm(1) ok(2) sp(1,3) nm(2,3), of rest] by (simp add: Define)
  qed
  then show ?thesis using import_item_blanks [OF ok(3)] by (simp add: spell_def)
qed

lemma import_items_lines:
  assumes "sep_ok sep" and "ls \<noteq> []" and "list_all (text_line_ok sep) ls"
    and "if rest = [] then \<not> bare_name (last ls) else hd rest = NUL"
  shows "import_items sep (concat (map spell ls) @ rest) = Some (map (line_item \<circ> fst \<circ> snd) ls)"
  using assms(2-)
proof (induction ls)
  case (Cons l ls)
  obtain bs line t where l: "l = (bs, line, t)" by (cases l) auto
  show ?case
  proof (cases ls)
    case Nil
    then have "import_item sep (spell l @ rest) = Some (line_item line, rest)"
      using import_item_line [OF assms(1), of bs line t rest] Cons.prems unfolding l by (auto split: if_splits)
    then show ?thesis using Nil Cons.prems(3) l by (subst import_items.simps) (auto split: if_splits)
  next
    case (Cons l' ls')
    let ?r = "concat (map spell ls) @ rest"
    have "spell l' \<noteq> []" by (cases l') (simp add: spell_def)
    moreover have "hd (spell l') \<noteq> NUL" using Cons.prems(2) Cons by (cases l') (simp add: text_line_ok_def)
    ultimately have r: "?r \<noteq> []" "hd ?r \<noteq> NUL" by (simp_all add: Cons)
    moreover have "ls \<noteq> []" "list_all (text_line_ok sep) ls" "last (l # ls) = last ls" using Cons.prems(2) Cons by simp_all
    then have "import_items sep ?r = Some (map (line_item \<circ> fst \<circ> snd) ls)"
      using Cons.IH Cons.prems(3) by (cases "rest = []") simp_all
    moreover have "import_item sep (spell l @ ?r) = Some (line_item line, ?r)"
      unfolding l using Cons.prems(2) r(1) l by (intro import_item_line [OF assms(1)]) simp_all
    ultimately show ?thesis using l by (subst import_items.simps) simp
  qed
qed simp

lemma line_ops_effect:
  "fold op_map (text_ops (map (line_item \<circ> fst \<circ> snd) ls)) m = fold line_effect ls m"
proof (induction ls arbitrary: m)
  case (Cons l ls)
  obtain bs line t where "l = (bs, line, t)" by (cases l) auto
  with Cons show ?case by (cases line) (simp_all add: fun_upd_def)
qed simp

lemma line_ops_puts:
  "length (filter is_put (text_ops (map (line_item \<circ> fst \<circ> snd) ls))) = length (filter is_definition ls)"
proof (induction ls)
  case (Cons l ls)
  obtain bs line t where "l = (bs, line, t)" by (cases l) auto
  with Cons show ?case by (cases line) simp_all
qed simp


lemma table5_table: "ht_table table5 \<noteq> None"
  by (simp add: table5_def)


section \<open>Export and import are inverse\<close>

lemma escape_simps [simp]:
  "escape sep [] = []"
  "escape sep (c # d) = (if c = sep \<or> c = BSL then [BSL, c] else [c]) @ escape sep d"
  by (simp_all add: escape_def)

lemma length_escape: "length (escape sep d) = escaped_len sep d"
  by (induction d) (auto simp: escaped_len_def)

lemma import_value_escape:
  assumes "sep \<noteq> BSL" and "cstring d"
  shows "import_value sep (escape sep d @ sep # r) = Some (d, r)"
  using assms(2) by (induction d) (use assms(1) in \<open>auto simp: cstring_def emit_def\<close>)

text \<open>Names that the text form can carry.\<close>

definition good_name :: "char \<Rightarrow> string \<Rightarrow> bool" where
  "good_name sep k \<longleftrightarrow> list_all (in_name sep) k \<and> (k = [] \<or> \<not> isblank (hd k) \<and> hd k \<noteq> CHR ''#'')"

definition good_entry :: "char \<Rightarrow> string \<times> string \<Rightarrow> bool" where
  "good_entry sep e \<longleftrightarrow> good_name sep (fst e) \<and> snd e \<noteq> [] \<and> cstring (snd e)"

definition good_sep :: "char \<Rightarrow> bool" where
  "good_sep sep \<longleftrightarrow> sep \<noteq> BSL \<and> sep \<noteq> CHR ''=''"

lemma import_item_entry:
  assumes sep: "good_sep sep" and "good_entry sep (k, v)"
  shows "import_item sep (entry_text sep (k, v) @ r) = Some (Assign k v, r)"
proof -
  have k: "list_all (in_name sep) k" "k = [] \<or> \<not> isblank (hd k) \<and> hd k \<noteq> CHR ''#''"
    and v: "v \<noteq> []" "cstring v" using assms(2) by (auto simp: good_entry_def good_name_def)
  let ?r = "escape sep v @ sep # r"
  have text_eq: "entry_text sep (k, v) @ r = k @ CHR ''='' # ?r" by (simp add: entry_text_def)
  have nb: "\<not> isblank (CHR ''='')" by (simp add: isblank_def)
  have drop: "dropWhile isblank (k @ CHR ''='' # ?r) = k @ CHR ''='' # ?r"
    using k(2) nb by (cases k) auto
  have nm: "takeWhile (in_name sep) (k @ CHR ''='' # ?r) = k"
    "dropWhile (in_name sep) (k @ CHR ''='' # ?r) = CHR ''='' # ?r"
    using k(1) by (auto simp: list_all_iff takeWhile_append dropWhile_append in_name_def)
  have "?r \<noteq> [] \<and> hd ?r \<noteq> NUL \<and> hd ?r \<noteq> sep"
    using v sep by (cases v) (auto simp: cstring_def good_sep_def)
  then obtain d r' where d: "?r = d # r'" "d \<noteq> NUL" "d \<noteq> sep"
    by (metis list.collapse)
  have iv: "import_value sep (d # r') = Some (v, r)"
    using import_value_escape [of sep v r] sep v(2) d(1) by (simp add: good_sep_def)
  have "import_rest sep k (CHR ''='' # ?r) = Some (Assign k v, r)"
    using d iv sep by (auto simp: import_rest_def good_sep_def simp del: import_value.simps)
  then show ?thesis using k(2) unfolding text_eq import_item_def drop nm Let_def by (cases k) auto
qed

lemma entry_text_hd:
  assumes "good_entry sep e"
  shows "entry_text sep e \<noteq> []" and "hd (entry_text sep e) \<noteq> NUL"
  using assms by (cases e; cases "fst e"; auto simp: entry_text_def good_entry_def good_name_def in_name_def)+

lemma import_items_export:
  assumes "good_sep sep" and "list_all (good_entry sep) es" and "es \<noteq> []"
  shows "import_items sep (concat (map (entry_text sep) es) @ NUL # zs) = Some (map (\<lambda>(k, v). Assign k v) es)"
  using assms(2,3)
proof (induction es)
  case (Cons e es)
  obtain k v where e: "e = (k, v)" by fastforce
  let ?r = "concat (map (entry_text sep) es) @ NUL # zs"
  have item: "import_item sep (entry_text sep e @ ?r) = Some (Assign k v, ?r)"
    using import_item_entry [OF assms(1)] Cons.prems(1) by (simp add: e)
  show ?case
  proof (cases es)
    case Nil
    then show ?thesis using item by (subst import_items.simps) (simp add: e)
  next
    case (Cons e' es')
    have "good_entry sep e'" using Cons.prems(1) Cons by simp
    then have "?r \<noteq> [] \<and> hd ?r \<noteq> NUL" using entry_text_hd [of sep e'] by (simp add: Cons)
    moreover have "import_items sep ?r = Some (map (\<lambda>(k, v). Assign k v) es)"
      using Cons.IH Cons.prems(1) Cons by simp
    ultimately show ?thesis using item by (subst import_items.simps) (simp add: e)
  qed
qed simp

lemma fold_puts:
  assumes "distinct (map fst es)"
  shows "fold op_map (text_ops (map (\<lambda>(k, v). Assign k v) es)) Map.empty = map_of es"
proof -
  have "fold op_map (text_ops (map (\<lambda>(k, v). Assign k v) es)) m = m ++ map_of (rev es)" for m
    by (induction es arbitrary: m) auto
  moreover have "map_of (rev es) = map_of es"
    using assms by (subst map_of_inject_set) (auto simp: rev_map [symmetric])
  ultimately show ?thesis by simp
qed

lemma filter_puts: "length (filter is_put (text_ops (map (\<lambda>(k, v). Assign k v) es))) = length es"
  by (induction es) auto

lemma slots_tl:
  assumes "length t = sz + 1"
  shows "map (\<lambda>i. t ! i) [1..<sz + 1] = tl t"
  using assms by (intro nth_equalityI) (auto simp: nth_tl simp del: upt_Suc)

lemma tl_slot:
  assumes "tab_ok t sz" and "s \<in> set (tl t)" and "0 < used s"
  shows "\<exists>k d. key (entry s) = Some k \<and> data (entry s) = Some d"
proof -
  have len: "length t = sz + 1" using assms(1) by (simp add: tab_ok_def)
  obtain i where "0 < i" "i \<le> sz" "s = t ! i"
    using assms(2) by (auto simp: set_tl_nth [OF len])
  with assms(1,3) show ?thesis by (auto simp: tab_ok_def slot_ok_def)
qed

lemma collect_entries:
  assumes "tab_ok t sz"
  shows "collect [] (map (\<lambda>i. t ! i) [1..<sz + 1]) = Some (slot_entries t)"
proof -
  have "collect [] ss = Some (map (\<lambda>s. (the (key (entry s)), the (data (entry s)))) (filter (\<lambda>s. used s > 0) ss))"
    if "set ss \<subseteq> set (tl t)" for ss
    using that by (induction ss) (use tl_slot [OF assms] in fastforce)+
  moreover have "length t = sz + 1" using assms by (simp add: tab_ok_def)
  ultimately show ?thesis by (simp only: slots_tl slot_entries_def subset_refl)
qed

lemma distinct_slot_entries:
  assumes "tab_ok t sz"
  shows "distinct (map fst (slot_entries t))"
proof -
  have len: "length t = sz + 1" using assms by (simp add: tab_ok_def)
  let ?is = "filter (\<lambda>i. used (t ! i) > 0) [1..<sz + 1]" and ?k = "\<lambda>i. the (key (entry (t ! i)))"
  have "map fst (slot_entries t) = map ?k ?is"
    unfolding slot_entries_def slots_tl [OF len, symmetric] by (simp add: filter_map o_def)
  moreover have lv: "live t sz i (?k i)" if "0 < i" "i \<le> sz" "used (t ! i) > 0" for i
  proof -
    have "t ! i \<in> set (tl t)" using that by (auto simp: set_tl_nth [OF len])
    then show ?thesis using tl_slot [OF assms] that by (fastforce simp: live_def)
  qed
  have "inj_on ?k (set ?is)"
  proof (rule inj_onI)
    fix i j assume "i \<in> set ?is" "j \<in> set ?is" "?k i = ?k j"
    then have "live t sz i (?k j)" "live t sz j (?k j)"
      using lv [of i] lv [of j] by (auto simp del: upt_Suc)
    then show "i = j" using assms by (auto simp: tab_ok_def)
  qed
  ultimately show ?thesis by (simp add: distinct_map del: upt_Suc)
qed

text \<open>What a successful export leaves in the buffer: the text of the entries, in some order.\<close>

lemma hexport_r_buffer:
  assumes ok: "ht_ok h" and ex: "hexport_r h sep resp sz0 [] mo = Some (Exported sz buf)"
  shows "\<exists>es. distinct (map fst es) \<and> map_of es = ht_map h \<and> totlen sep es < sz \<and> sz \<le> length buf \<and>
    (\<exists>zs. buf = export_text sep es @ replicate (sz - length (export_text sep es)) NUL @ zs) \<and>
    length (export_text sep es) \<le> (case resp of None \<Rightarrow> sz | Some b \<Rightarrow> length b)"
proof -
  obtain t where t: "ht_table h = Some t" "tab_ok t (ht_size h)"
    using ok by (auto simp: ht_ok_def)
  let ?es = "qsort cmpkey (slot_entries t)"
  have m: "mset ?es = mset (slot_entries t)" by (rule mset_qsort)
  then have "mset (map fst ?es) = mset (map fst (slot_entries t))" by (metis mset_map)
  then have d: "distinct (map fst ?es)"
    using distinct_slot_entries [OF t(2)] mset_eq_imp_distinct_iff by blast
  have "set ?es = set (slot_entries t)" using m by (rule mset_eq_setD)
  then have mo: "map_of ?es = ht_map h"
    using d distinct_slot_entries [OF t(2)] t(1) by (simp add: ht_map_def map_of_inject_set)
  have tot: "totlen sep ?es = totlen sep (slot_entries t)"
    unfolding totlen_def by (metis m mset_map sum_mset_sum_list)
  have "totlen sep ?es < sz \<and> sz \<le> length buf \<and>
    (\<exists>zs. buf = export_text sep ?es @ replicate (sz - length (export_text sep ?es)) NUL @ zs) \<and>
    length (export_text sep ?es) \<le> (case resp of None \<Rightarrow> sz | Some b \<Rightarrow> length b)"
    using ex unfolding hexport_r_def t(1) bind.bind_lunit collect_entries [OF t(2)] tot
    by (cases resp) (auto simp: Let_def store_def split: if_splits)
  with d mo show ?thesis by blast
qed

lemma map_of_list_all:
  assumes "distinct (map fst es)" and "\<And>k v. map_of es k = Some v \<Longrightarrow> P (k, v)"
  shows "list_all P es"
  using assms by (auto simp: list_all_iff)

lemma export_import_map:
  assumes "ht_ok h" and "hexport_r h sep resp sz0 [] mo = Some (Exported sz buf)"
    and "good_sep sep" and good: "\<And>k v. ht_map h k = Some v \<Longrightarrow> good_entry sep (k, v)"
    and "card (dom (ht_map h)) \<le> import_entries sz"
    and "case resp of None \<Rightarrow> True | Some b \<Rightarrow> length b = sz" and "ht_ok h0 \<or> ht_table h0 = None"
  shows "\<exists>st. himport_r h0 buf sz sep 0 [] False [] = Some (True, st) \<and> ht_ok (im_htab st) \<and>
    ht_map (im_htab st) = ht_map h \<and> im_calls st = []"
proof -
  obtain es zs where es: "distinct (map fst es)" "map_of es = ht_map h" "sz \<le> length buf"
    "buf = export_text sep es @ replicate (sz - length (export_text sep es)) NUL @ zs" "length (export_text sep es) \<le> sz"
    using hexport_r_buffer [OF assms(1,2)] assms(6) by (auto split: option.splits)
  have ge: "list_all (good_entry sep) es" using map_of_list_all [OF es(1)] good es(2) by simp
  have len: "card (dom (ht_map h)) = length es"
    using es(1,2) by (metis dom_map_of_conv_image_fst distinct_card length_map set_map)
  let ?its = "if es = [] then [Delete []] else map (\<lambda>(k, v). Assign k v) es"
  obtain n where n: "sz = Suc (length (concat (map (entry_text sep) es))) + n"
    using es(5) by (metis export_text_def le_Suc_ex length_append_singleton)
  have buf: "take sz buf = concat (map (entry_text sep) es) @ NUL # replicate n NUL"
    using es(4) by (simp add: n export_text_def del: length_concat)
  have "import_items sep (NUL # replicate n NUL) = Some [Delete []]"
    by (subst import_items.simps) (cases n; simp add: import_item_def import_rest_def in_name_def)
  then have "import_items sep (take sz buf) = Some ?its"
    using import_items_export [OF assms(3) ge] unfolding buf by simp
  moreover have "fold op_map (text_ops ?its) Map.empty = ht_map h"
    using fold_puts [OF es(1)] es(2) by auto
  moreover have "length (filter is_put (text_ops ?its)) \<le> import_room h0 0 sz"
    using assms(5) len filter_puts [of es] by (auto simp: import_room_def)
  ultimately show ?thesis
    using himport_r_map [OF assms(7) es(3), of sep ?its 0] by (simp add: import_base_def)
qed

text \<open>C8. Export and import are inverse: when \<open>hexport_r\<close> succeeds on a well-formed table whose names and
  values the text can carry, \<open>himport_r\<close> of the whole result, over any table, makes a table with the
  same map. (The new table is sized by the text, hence the bound on the number of names.)\<close>

theorem hexport_himport_roundtrip:
  assumes "ht_ok h" and "hexport_r h sep resp sz0 [] mo = Some (Exported sz buf)"
    and "good_sep sep" and "\<And>k v. ht_map h k = Some v \<Longrightarrow> good_entry sep (k, v)"
    and "card (dom (ht_map h)) \<le> import_entries sz"
    and "case resp of None \<Rightarrow> True | Some b \<Rightarrow> length b = sz" and "ht_ok h0 \<or> ht_table h0 = None"
  shows "\<exists>st. himport_r h0 buf sz sep 0 [] False [] = Some (True, st) \<and> ht_ok (im_htab st) \<and>
    ht_map (im_htab st) = ht_map h"
  using export_import_map [OF assms] by blast

text \<open>One entry, \<open>a\<close>, in the table of five slots.\<close>

definition one_entry :: "string \<Rightarrow> hsearch_data" where
  "one_entry v = \<lparr>ht_table = Some [empty_slot, empty_slot, empty_slot,
      \<lparr>used = 3, entry = \<lparr>key = Some ''a'', data = Some v\<rparr>\<rparr>, empty_slot, empty_slot],
     ht_size = 5, ht_filled = 1, ht_apply = None\<rparr>"

lemma one_entry_ok: "ht_ok (one_entry v)" "ht_map (one_entry v) = [''a'' \<mapsto> v]"
proof -
  have "ht_put ''a'' v table5 = Some (one_entry v)"
    by (simp add: eval5 table5_def one_entry_def)
  then show "ht_ok (one_entry v)" "ht_map (one_entry v) = [''a'' \<mapsto> v]"
    using ht.put_abs [OF table5_ok(1), of "''a''" v] by (auto simp: table5_ok cstring_def)
qed

lemma export_one_entry:
  "hexport_r (one_entry v) sep None 0 [] [] =
     (let n = entry_len sep (''a'', v) + 1; out = export_text sep [(''a'', v)]
      in if length out \<le> n then Some (Exported n (store (replicate n NUL) 0 out)) else None)"
proof -
  obtain t where t: "ht_table (one_entry v) = Some t" "tab_ok t 5" "slot_entries t = [(''a'', v)]"
    using one_entry_ok(1) [of v] by (auto simp: ht_ok_def one_entry_def slot_entries_def empty_slot_def)
  have "ht_size (one_entry v) = 5" by (simp add: one_entry_def)
  then show ?thesis
    unfolding hexport_r_def t(1) bind.bind_lunit by (simp only: collect_entries [OF t(2)] t(3))
      (simp add: totlen_def qsort_def Let_def)
qed

lemma export_one_entry_text:
  "hexport_r (one_entry ''1'') NUL None 0 [] [] = Some (Exported 7 (''a=1'' @ replicate 4 NUL))"
  by (simp add: export_one_entry entry_len_def export_text_def entry_text_def store_def Let_def
      numeral_eq_Suc [of "num.Bit0 x" for x] numeral_eq_Suc [of "num.Bit1 x" for x])

theorem hexport_himport_roundtrip_witness:
  "\<exists>st. himport_r (one_entry ''2'') (''a=1'' @ replicate 4 NUL) 7 NUL 0 [] False [] = Some (True, st) \<and>
     ht_ok (im_htab st) \<and> ht_map (im_htab st) = [''a'' \<mapsto> ''1'']"
proof -
  have "good_entry NUL (k, v)" if "ht_map (one_entry ''1'') k = Some v" for k v
    using that by (auto simp: one_entry_ok good_entry_def good_name_def in_name_def isblank_def cstring_def
        split: if_splits)
  from hexport_himport_roundtrip [OF one_entry_ok(1) export_one_entry_text _ this, of "one_entry ''2''"]
  show ?thesis
    by (simp add: one_entry_ok good_sep_def import_entries_def CONFIG_ENV_MIN_ENTRIES_def CONFIG_ENV_MAX_ENTRIES_def)
qed

text \<open>
  The room pass 1 computes is enough for what pass 2 writes when a separator other than NUL is
  used, or when no value has more than two backslashes: the name counts two characters too many.
\<close>

definition fits :: "char \<Rightarrow> string \<Rightarrow> bool" where
  "fits sep v \<longleftrightarrow> sep \<noteq> NUL \<or> count_list v BSL \<le> 2"

lemma entry_text_len:
  assumes "cstring (snd e)" and "fits sep (snd e)"
  shows "length (entry_text sep e) \<le> entry_len sep e"
proof -
  have "length (filter (\<lambda>c. c = NUL \<or> c = BSL) v) = count_list v BSL" if "cstring v" for v
    using that by (induction v) (auto simp: cstring_def)
  then show ?thesis using assms
    by (auto simp: entry_text_def entry_len_def length_escape escaped_len_def fits_def)
qed

lemma export_text_len:
  assumes "\<And>e. e \<in> set es \<Longrightarrow> cstring (snd e) \<and> fits sep (snd e)"
  shows "length (export_text sep es) \<le> totlen sep es + 1"
  using assms
proof (induction es)
  case (Cons e es)
  then show ?case using entry_text_len [of e sep] by (fastforce simp: export_text_def totlen_def)
qed (simp add: export_text_def totlen_def)

definition export_size :: "char \<Rightarrow> hsearch_data \<Rightarrow> nat" where
  "export_size sep h = (case ht_table h of None \<Rightarrow> 0 | Some t \<Rightarrow> totlen sep (slot_entries t) + 1)"

text \<open>C27. With a separator other than NUL, or when no value has more than two backslashes, \<open>hexport_r\<close>
  into an allocated buffer never writes outside it: it fails exactly when the size asked for is
  smaller than needed, and otherwise the whole text fits in the reported size.\<close>

theorem hexport_r_in_bounds:
  assumes "ht_ok h" and "\<And>k v. ht_map h k = Some v \<Longrightarrow> cstring v \<and> fits sep v"
  shows "\<exists>buf. length buf = (if sz0 = 0 then export_size sep h else sz0) \<and>
    hexport_r h sep None sz0 [] [] =
      Some (if 0 < sz0 \<and> sz0 < export_size sep h then Export_error ENOMEM else Exported (length buf) buf)"
proof -
  obtain t where t: "ht_table h = Some t" "tab_ok t (ht_size h)"
    using assms(1) by (auto simp: ht_ok_def)
  let ?es = "qsort cmpkey (slot_entries t)"
  have m: "mset ?es = mset (slot_entries t)" by (rule mset_qsort)
  have "cstring (snd e) \<and> fits sep (snd e)" if "e \<in> set ?es" for e
    using that mset_eq_setD [OF m] assms(2) [of "fst e" "snd e"] t(1) distinct_slot_entries [OF t(2)]
    by (simp add: ht_map_def)
  then have "length (export_text sep ?es) \<le> totlen sep ?es + 1" by (rule export_text_len)
  moreover have "totlen sep ?es = totlen sep (slot_entries t)"
    unfolding totlen_def by (metis m mset_map sum_mset_sum_list)
  ultimately show ?thesis
    unfolding hexport_r_def t(1) bind.bind_lunit collect_entries [OF t(2)]
    by (auto simp: Let_def export_size_def t(1) intro!: exI [of _ "replicate sz0 NUL"])
qed

theorem hexport_r_in_bounds_witness:
  "\<exists>buf. hexport_r (one_entry ''1'') NUL None 0 [] [] = Some (Exported (length buf) buf)"
proof -
  have "cstring v \<and> fits NUL v" if "ht_map (one_entry ''1'') k = Some v" for k v
    using that by (auto simp: one_entry_ok cstring_def fits_def split: if_splits)
  then show ?thesis using hexport_r_in_bounds [of "one_entry ''1''" NUL 0] one_entry_ok(1) by auto
qed

text \<open>With NUL as separator the room for the escapes is not computed although they are written: a
  value of three backslashes makes \<open>hexport_r\<close> write behind the buffer it allocated.\<close>

lemma hexport_r_overflow:
  "hexport_r (one_entry [BSL, BSL]) NUL None 0 [] [] \<noteq> None \<and>
   hexport_r (one_entry [BSL, BSL, BSL]) NUL None 0 [] [] = None"
  by (simp add: export_one_entry entry_len_def export_text_def entry_text_def Let_def)

end
