(* ===== verification/Div64.thy ===== *)
theory Div64
  imports Prelude
begin

text \<open>
  Division of a 64-bit by a 32-bit number (\<^verbatim>\<open>lib/div64.c\<close>, \<^verbatim>\<open>include/div64.h\<close>), which the target has no
  instruction for: shift and subtract. The numbers are naturals; the comments say why no
  intermediate value exceeds 64 bits.
\<close>

section \<open>Shift and subtract\<close>

text \<open>Doubling: \<open>(int64_t) b > 0\<close> is \<open>0 < b < 2 ^ 63\<close>, so the sums do not overflow.\<close>

function div_grow :: "nat \<Rightarrow> nat \<Rightarrow> nat \<Rightarrow> nat \<times> nat" where
  "div_grow b d r = (if 0 < b \<and> b < 2 ^ 63 \<and> b < r then div_grow (b + b) (d + d) r else (b, d))"
  by pat_completeness auto
termination
  by (relation "measure (\<lambda>(b, d, r). 2 ^ 63 - b)") auto

declare div_grow.simps [simp del]

function div_down :: "nat \<Rightarrow> nat \<Rightarrow> nat \<Rightarrow> nat \<Rightarrow> nat \<times> nat" where
  "div_down b d r res =
     (let (r', res') = (if r \<ge> b then (r - b, res + d) else (r, res))
      in if d div 2 \<noteq> 0 then div_down (b div 2) (d div 2) r' res' else (res', r'))"
  by pat_completeness auto
termination
  by (relation "measure (\<lambda>(b, d, r, res). d)") auto

declare div_down.simps [simp del]

text \<open>Quotient and remainder; \<open>None\<close> is the division by zero.\<close>

definition div64_32 :: "nat \<Rightarrow> nat \<Rightarrow> (nat \<times> nat) option" where
  "div64_32 n base =
     (let high = n div 2 ^ 32 in
      if high \<ge> base \<and> base = 0 then None
      else let (res, r) = (if high \<ge> base then (high div base * 2 ^ 32, n - high div base * base * 2 ^ 32) else (0, n));
               (b, d) = div_grow base 1 r
           in Some (div_down b d r res))"

definition do_div :: "nat \<Rightarrow> nat \<Rightarrow> (nat \<times> nat) option" where
  "do_div n base =
     (if n div 2 ^ 32 = 0 then (if base = 0 then None else Some (n div base, n mod base))
      else div64_32 n base)"

definition lldiv :: "nat \<Rightarrow> nat \<Rightarrow> nat option" where
  "lldiv dividend divisor = map_option fst (do_div dividend divisor)"

section \<open>Correctness\<close>

lemma div_grow_scale:
  assumes "0 < base" and "r < 2 ^ 64"
  shows "\<exists>k. div_grow (base * 2 ^ j) (2 ^ j) r = (base * 2 ^ k, 2 ^ k) \<and> r < 2 * (base * 2 ^ k)"
proof (induction "2 ^ 63 - base * 2 ^ j" arbitrary: j rule: less_induct)
  case less
  let ?b = "base * 2 ^ j"
  have pos: "0 < ?b" using assms(1) by simp
  show ?case
  proof (cases "?b < 2 ^ 63 \<and> ?b < r")
    case True
    have "?b < base * 2 ^ Suc j" using pos by simp
    then have "2 ^ 63 - base * 2 ^ Suc j < 2 ^ 63 - ?b" using True by (intro diff_less_mono2) auto
    then obtain k where "div_grow (base * 2 ^ Suc j) (2 ^ Suc j) r = (base * 2 ^ k, 2 ^ k)" "r < 2 * (base * 2 ^ k)"
      using less.hyps by blast
    then show ?thesis using True pos
      by (subst div_grow.simps) (simp add: mult_2 [symmetric] mult.left_commute)
  next
    case False
    then have "r \<le> ?b \<or> 2 ^ 63 \<le> ?b" by auto
    moreover have "(2 :: nat) ^ 64 = 2 * 2 ^ 63" by simp
    ultimately have "r < 2 * ?b" using assms(2) pos by linarith
    then show ?thesis using False by (subst div_grow.simps) auto
  qed
qed

lemma div_down_result:
  assumes "0 < base" and "r < 2 * (base * 2 ^ k)"
  shows "div_down (base * 2 ^ k) (2 ^ k) r res = (res + r div base, r mod base)"
  using assms(2)
proof (induction k arbitrary: r res)
  case 0
  then show ?case
    using assms(1) by (subst div_down.simps) (auto simp: le_div_geq le_mod_geq)
next
  case (Suc k)
  let ?b = "base * 2 ^ Suc k"
  have half: "?b div 2 = base * 2 ^ k" "(2 :: nat) ^ Suc k div 2 = 2 ^ k" by simp_all
  define r' where "r' = (if ?b \<le> r then r - ?b else r)"
  define res' where "res' = (if ?b \<le> r then res + 2 ^ Suc k else res)"
  have "r' < 2 * (base * 2 ^ k)" using Suc.prems by (auto simp: r'_def)
  then have "div_down (base * 2 ^ k) (2 ^ k) r' res' = (res' + r' div base, r' mod base)" by (rule Suc.IH)
  moreover have "res' + r' div base = res + r div base" "r' mod base = r mod base"
  proof -
    have r: "?b \<le> r \<Longrightarrow> r = r' + base * 2 ^ Suc k" by (simp add: r'_def)
    have "(r' + base * x) div base = r' div base + x" "(r' + base * x) mod base = r' mod base" for x
      using assms(1) by simp_all
    then have "?b \<le> r \<Longrightarrow> r div base = r' div base + 2 ^ Suc k" "?b \<le> r \<Longrightarrow> r mod base = r' mod base"
      using r by metis+
    then show "res' + r' div base = res + r div base" "r' mod base = r mod base"
      by (auto simp: r'_def res'_def)
  qed
  ultimately show ?case
    by (subst div_down.simps) (simp add: half r'_def res'_def split: if_splits)
qed

lemma div64_32_correct:
  assumes "0 < base" and "n < 2 ^ 64"
  shows "div64_32 n base = Some (n div base, n mod base)"
proof -
  define high where "high = n div 2 ^ 32"
  define q where "q = (if base \<le> high then high div base else 0)"
  define r where "r = n - q * base * 2 ^ 32"
  have "q * base \<le> high" by (simp add: q_def)
  then have "q * base * 2 ^ 32 \<le> high * 2 ^ 32" by (rule mult_le_mono1)
  also have "\<dots> \<le> n" unfolding high_def by (rule div_times_less_eq_dividend)
  finally have "r + q * base * 2 ^ 32 = n" by (simp add: r_def)
  then have n: "n = r + base * (q * 2 ^ 32)" by (simp only: mult.assoc mult.left_commute [of q])
  then have nd: "n div base = q * 2 ^ 32 + r div base" "n mod base = r mod base"
    using assms(1) by (simp_all add: add.commute)
  have "r < 2 ^ 64" using assms(2) r_def by simp
  then obtain k where "div_grow base 1 r = (base * 2 ^ k, 2 ^ k)" "r < 2 * (base * 2 ^ k)"
    using div_grow_scale [OF assms(1), of r 0] by auto
  then have "(case div_grow base 1 r of (b, d) \<Rightarrow> div_down b d r (q * 2 ^ 32)) = (n div base, n mod base)"
    using div_down_result [OF assms(1), of r k "q * 2 ^ 32"] nd by simp
  moreover have "(if base \<le> high then (high div base * 2 ^ 32, n - high div base * base * 2 ^ 32) else (0, n)) = (q * 2 ^ 32, r)"
    by (simp add: q_def r_def)
  ultimately show ?thesis
    using assms(1) unfolding div64_32_def high_def [symmetric] Let_def by (simp add: case_prod_beta)
qed

lemma do_div_correct:
  "0 < base \<Longrightarrow> n < 2 ^ 64 \<Longrightarrow> do_div n base = Some (n div base, n mod base)"
  by (simp add: do_div_def div64_32_correct)

text \<open>\<open>do_div\<close>, the shift-and-subtract division of a 64-bit number, always ends and gives quotient and
  remainder, for every divisor but zero.\<close>

lemma do_div_divides:
  assumes "0 < base" and "n < 2 ^ 64"
  shows "do_div n base = Some (n div base, n mod base)"
  using do_div_correct [OF assms] .

end
