(* ===== verification/Vsprintf.thy ===== *)
theory Vsprintf
  imports Ctype Div64 "HOL-Library.Sublist"
begin

text \<open>
  Number parsing and formatting (\<^verbatim>\<open>lib/vsprintf.c\<close>), on which the command
  line and the environment rely. A C string is a character list without its NUL; \<open>peek\<close> reads its
  first character, the NUL at its end. The board defines neither \<open>CONFIG_SYS_VSNPRINTF\<close> nor
  \<open>CONFIG_CMD_NET\<close>: output is not limited by a size, and the output functions are modelled by the
  text they append.
\<close>

section \<open>Parsing numbers\<close>

definition peek :: "string \<Rightarrow> char" where
  "peek s = (case s of [] \<Rightarrow> NUL | c # _ \<Rightarrow> c)"

text \<open>The value of a hexadecimal digit, as the loop conditions compute it.\<close>

definition digit_value :: "char \<Rightarrow> nat" where
  "digit_value c =
     (if isdigit c then of_char c - 48
      else of_char (if islower c then toupper c else c) - 65 + 10)"

text \<open>The prefix: octal or hexadecimal after a zero, the default base ten.\<close>

definition strtoul_base :: "string \<Rightarrow> nat \<Rightarrow> string \<times> nat" where
  "strtoul_base cp b =
     (let (cp1, b1) =
        (if peek cp = CHR ''0''
         then let cp' = tl cp;
                  (cp'', b') = (if peek cp' = CHR ''x'' \<and> isxdigit (peek (tl cp')) then (tl cp', 16) else (cp', b))
              in (cp'', if b' = 0 then 8 else b')
         else (cp, b))
      in (cp1, if b1 = 0 then 10 else b1))"

fun strtoul_loop :: "nat \<Rightarrow> string \<Rightarrow> 'a::len word \<Rightarrow> 'a word \<times> string" where
  "strtoul_loop b [] r = (r, [])"
| "strtoul_loop b (c # cs) r =
     (if isxdigit c \<and> digit_value c < b
      then strtoul_loop b cs (r * word_of_nat b + word_of_nat (digit_value c))
      else (r, c # cs))"

text \<open>The result and the end pointer; the 64-bit variant differs in the type only.\<close>

definition simple_strtoul :: "string \<Rightarrow> nat \<Rightarrow> u32 \<times> string" where
  "simple_strtoul cp b = (let (cp1, b1) = strtoul_base cp b in strtoul_loop b1 cp1 0)"

definition simple_strtoull :: "string \<Rightarrow> nat \<Rightarrow> u64 \<times> string" where
  "simple_strtoull cp b = (let (cp1, b1) = strtoul_base cp b in strtoul_loop b1 cp1 0)"

text \<open>\<open>None\<close> is the result \<open>-EINVAL\<close>.\<close>

definition strict_strtoul :: "string \<Rightarrow> nat \<Rightarrow> u32 option" where
  "strict_strtoul cp b =
     (if length cp = 0 then None
      else let (val, tail) = simple_strtoul cp b
           in if tail = cp then None
              else if peek tail = NUL \<or> (length cp = length cp - length tail + 1 \<and> peek tail = CHR 0x0A)
              then Some val else None)"

definition simple_strtol :: "string \<Rightarrow> nat \<Rightarrow> u32 \<times> string" where
  "simple_strtol cp b =
     (if peek cp = CHR ''-''
      then let (v, e) = simple_strtoul (tl cp) b in (- v, e)
      else simple_strtoul cp b)"

text \<open>With a multiplier; the end pointer moves only over \<open>i\<close> and \<open>iB\<close> suffixes.\<close>

definition ustrtoul :: "string \<Rightarrow> nat \<Rightarrow> u32 \<times> string" where
  "ustrtoul cp b =
     (let (r, e) = simple_strtoul cp b;
          c = peek e;
          r1 = (if c = CHR ''G'' then r * 1024 else r);
          r2 = (if c = CHR ''G'' \<or> c = CHR ''M'' then r1 * 1024 else r1)
      in if c \<in> {CHR ''G'', CHR ''M'', CHR ''K'', CHR ''k''}
         then (r2 * 1024,
               if peek (tl e) = CHR ''i''
               then (if peek (tl (tl e)) = CHR ''B'' then drop 3 e else drop 2 e) else e)
         else (r, e))"

section \<open>Decimal output\<close>

text \<open>A decimal digit, and the digits of a number below 100000, the least significant first. No sum or
  product below exceeds 32 bits.\<close>

definition dig :: "nat \<Rightarrow> char" where
  "dig d = char_of (d + 48)"

definition put_dec_trunc :: "nat \<Rightarrow> string" where
  "put_dec_trunc q0 =
     (let d1 = drop_bit 4 q0 AND 0xf; d2 = drop_bit 8 q0 AND 0xf; d3 = drop_bit 12 q0;
          d0 = 6 * (d3 + d2 + d1) + (q0 AND 0xf);
          q = drop_bit 11 (d0 * 0xcd); d0 = d0 - 10 * q;
          d1 = q + 9 * d3 + 5 * d2 + d1
      in dig d0 #
         (if d1 \<noteq> 0
          then let q = drop_bit 11 (d1 * 0xcd); d1 = d1 - 10 * q; d2 = q + 2 * d2
               in dig d1 #
                  (if d2 \<noteq> 0 \<or> d3 \<noteq> 0
                   then let q = drop_bit 7 (d2 * 0xd); d2 = d2 - 10 * q; d3 = q + 4 * d3
                        in dig d2 #
                           (if d3 \<noteq> 0
                            then let q = drop_bit 11 (d3 * 0xcd); d3 = d3 - 10 * q
                                 in dig d3 # (if q \<noteq> 0 then [dig q] else [])
                            else [])
                   else [])
          else []))"

definition put_dec_full :: "nat \<Rightarrow> string" where
  "put_dec_full q0 =
     (let d1 = drop_bit 4 q0 AND 0xf; d2 = drop_bit 8 q0 AND 0xf; d3 = drop_bit 12 q0;
          d0 = 6 * (d3 + d2 + d1) + (q0 AND 0xf);
          q = drop_bit 11 (d0 * 0xcd); d0 = d0 - 10 * q;
          d1 = q + 9 * d3 + 5 * d2 + d1;
          q' = drop_bit 11 (d1 * 0xcd); d1 = d1 - 10 * q';
          d2 = q' + 2 * d2;
          q'' = drop_bit 7 (d2 * 0xd); d2 = d2 - 10 * q'';
          d3 = q'' + 4 * d3;
          q3 = drop_bit 11 (d3 * 0xcd); d3 = d3 - 10 * q3
      in [dig d0, dig d1, dig d2, dig d3, dig q3])"

function put_dec :: "u64 \<Rightarrow> string" where
  "put_dec num =
     (if unat num < 100000 then put_dec_trunc (unat num)
      else (case do_div (unat num) 100000 of
              None \<Rightarrow> []
            | Some (q, r) \<Rightarrow> put_dec_full r @ put_dec (word_of_nat q)))"
  by pat_completeness auto
termination
proof (relation "measure unat", goal_cases)
  case (2 num x q r)
  have "unat num < 2 ^ 64" using unsigned_less [of num, where 'a = nat] by simp
  then have "q = unat num div 100000" using 2 do_div_correct [of 100000 "unat num"] by (metis fst_conv option.inject zero_less_numeral)
  moreover have "unat (word_of_nat q :: u64) \<le> q" by (simp add: unat_of_nat)
  ultimately show ?case using 2(1) by (simp add: order.strict_trans1)
qed simp

declare put_dec.simps [simp del]

function itoa_loop :: "nat \<Rightarrow> string \<Rightarrow> string" where
  "itoa_loop i p = (let p' = dig (i mod 10) # p in if i div 10 > 0 then itoa_loop (i div 10) p' else p')"
  by pat_completeness auto
termination
  by (relation "measure fst") auto

declare itoa_loop.simps [simp del]

definition simple_itoa :: "u32 \<Rightarrow> string" where
  "simple_itoa i = itoa_loop (unat i) []"

section \<open>Formatting\<close>

definition ZEROPAD :: u32 where "ZEROPAD = 1"
definition SIGN :: u32 where "SIGN = 2"
definition PLUS :: u32 where "PLUS = 4"
definition SPACE :: u32 where "SPACE = 8"
definition LEFT :: u32 where "LEFT = 16"
definition SMALL :: u32 where "SMALL = 32"
definition SPECIAL :: u32 where "SPECIAL = 64"

abbreviation flag :: "u32 \<Rightarrow> u32 \<Rightarrow> bool" where
  "flag type f \<equiv> type AND f \<noteq> 0"

text \<open>\<open>while (--n >= 0) ADDCH(buf, c)\<close>: the text added and the counter afterwards.\<close>

definition pad_loop :: "char \<Rightarrow> int \<Rightarrow> string \<times> int" where
  "pad_loop c n = (replicate (nat n) c, if n \<ge> 0 then -1 else n - 1)"

text \<open>A hexadecimal or octal digit; the table holds capitals, \<open>locase\<close> makes them small.\<close>

definition or_char :: "char \<Rightarrow> u32 \<Rightarrow> char" where
  "or_char c x = char_of (of_char c OR unat x)"

definition digit_char :: "nat \<Rightarrow> u32 \<Rightarrow> char" where
  "digit_char d locase = or_char (''0123456789ABCDEF'' ! d) locase"

text \<open>The digits of a number other than zero in base 8 or 16, the least significant first.\<close>

function shift_digits :: "nat \<Rightarrow> u32 \<Rightarrow> u64 \<Rightarrow> string" where
  "shift_digits shift locase num =
     (let c = digit_char (unat (num AND 0xff AND (push_bit shift 1 - 1))) locase; num' = drop_bit shift num
      in if num' \<noteq> 0 \<and> shift \<noteq> 0 then c # shift_digits shift locase num' else [c])"
  by pat_completeness auto
termination
proof (relation "measure (\<lambda>(shift, locase, num). unat num)", goal_cases)
  case (2 shift locase num c num')
  then have "num \<noteq> 0" and s: "0 < shift" by auto
  then have "0 < unat num" by (simp add: unat_gt_0)
  moreover have "(2 :: nat) ^ 1 \<le> 2 ^ shift" using s by (intro power_increasing) auto
  moreover have "unat (drop_bit shift num) = drop_bit shift (unat num)" 
    using unsigned_less [of num, where 'a = nat] by (simp add: unsigned_drop_bit_eq take_bit_nat_eq_self)
  ultimately show ?case using 2 by (simp add: drop_bit_eq_div [of shift "unat num"])
qed simp

declare shift_digits.simps [simp del]

text \<open>The sign character, the prefix and the digits of \<open>number\<close>.\<close>

definition sign_text :: "u32 \<Rightarrow> bool \<Rightarrow> string" where
  "sign_text type neg =
     (if flag type SIGN
      then if neg then [CHR ''-''] else if flag type PLUS then [CHR ''+''] else if flag type SPACE then [CHR '' ''] else []
      else [])"

definition prefix_text :: "bool \<Rightarrow> nat \<Rightarrow> u32 \<Rightarrow> string" where
  "prefix_text need_pfx base locase =
     (if need_pfx then CHR ''0'' # (if base = 16 then [or_char (CHR ''X'') locase] else []) else [])"

definition number_digits :: "u64 \<Rightarrow> nat \<Rightarrow> u32 \<Rightarrow> string" where
  "number_digits num base locase =
     (if num = 0 then [CHR ''0'']
      else if base \<noteq> 10 then shift_digits (if base = 16 then 4 else 3) locase num
      else put_dec num)"

definition number :: "u64 \<Rightarrow> nat \<Rightarrow> int \<Rightarrow> int \<Rightarrow> u32 \<Rightarrow> string" where
  "number num0 base size0 precision0 type0 =
     (let need_pfx = (flag type0 SPECIAL \<and> base \<noteq> 10);
          locase = type0 AND SMALL;
          type = (if flag type0 LEFT then type0 AND NOT ZEROPAD else type0);
          neg = (flag type SIGN \<and> sint num0 < 0);
          num = (if neg then - num0 else num0);
          sign = sign_text type neg;
          pfx = prefix_text need_pfx base locase;
          size2 = size0 - int (length sign) - int (length pfx);
          tmp = number_digits num base locase;
          i = int (length tmp);
          precision = (if i > precision0 then i else precision0);
          size3 = size2 - precision;
          (sp, size4) = (if \<not> flag type (ZEROPAD + LEFT) then pad_loop (CHR '' '') size3 else ([], size3));
          (zp, size5) = (if \<not> flag type LEFT
                         then pad_loop (if flag type ZEROPAD then CHR ''0'' else CHR '' '') size4 else ([], size4));
          more = replicate (nat (precision - i)) (CHR ''0'');
          (tp, size6) = pad_loop (CHR '' '') size5
      in sp @ sign @ pfx @ zp @ more @ rev tmp @ tp)"

text \<open>\<open>string\<close>: at most \<open>precision\<close> characters (all, if it is negative), padded to the field width.\<close>

definition string_out :: "string option \<Rightarrow> int \<Rightarrow> int \<Rightarrow> u32 \<Rightarrow> string" where
  "string_out s0 field_width precision flags =
     (let s = (case s0 of None \<Rightarrow> ''<NULL>'' | Some t \<Rightarrow> t);
          len = (if precision < 0 then length s else min (nat precision) (length s));
          pad = replicate (nat (field_width - int len)) (CHR '' '')
      in if \<not> flag flags LEFT then pad @ take len s else take len s @ pad)"

definition pointer_out :: "u32 \<Rightarrow> int \<Rightarrow> int \<Rightarrow> u32 \<Rightarrow> string" where
  "pointer_out ptr field_width precision flags0 =
     (if ptr = 0 then string_out (Some ''(null)'') field_width precision flags0
      else let flags = flags0 OR SMALL
           in if field_width = -1 then number (ucast ptr) 16 8 precision (flags OR ZEROPAD)
              else number (ucast ptr) 16 field_width precision flags)"

section \<open>The format interpreter\<close>

text \<open>
  The arguments by their C type: \<open>int\<close>, \<open>long\<close> and \<open>size_t\<close> are 32 bits, \<open>long long\<close> 64. An argument that is
  missing or of another type than the conversion fetches makes the result \<open>None\<close>; \<open>%n\<close> stores
  the number of characters written so far.
\<close>

datatype va_arg = VInt u32 | VLong u64 | VStr "string option" | VPtr u32 | VCount

definition is_digit :: "char \<Rightarrow> bool" where
  "is_digit c \<longleftrightarrow> 48 \<le> (of_char c :: nat) \<and> (of_char c :: nat) \<le> 57"

fun skip_atoi :: "int \<Rightarrow> string \<Rightarrow> int \<times> string" where
  "skip_atoi i [] = (i, [])"
| "skip_atoi i (c # cs) = (if is_digit c then skip_atoi (i * 10 + of_char c - 48) cs else (i, c # cs))"

definition flag_of :: "char \<Rightarrow> u32" where
  "flag_of c = (if c = CHR ''-'' then LEFT else if c = CHR ''+'' then PLUS else if c = CHR '' '' then SPACE
                else if c = CHR ''#'' then SPECIAL else if c = CHR ''0'' then ZEROPAD else 0)"

fun fmt_flags :: "u32 \<Rightarrow> string \<Rightarrow> u32 \<times> string" where
  "fmt_flags fl [] = (fl, [])"
| "fmt_flags fl (c # cs) = (if flag_of c \<noteq> 0 then fmt_flags (fl OR flag_of c) cs else (fl, c # cs))"

fun next_int :: "va_arg list \<Rightarrow> (int \<times> va_arg list) option" where
  "next_int (VInt w # args) = Some (sint w, args)"
| "next_int args = None"

definition fmt_width :: "u32 \<Rightarrow> string \<Rightarrow> va_arg list \<Rightarrow> (int \<times> u32 \<times> string \<times> va_arg list) option" where
  "fmt_width fl f args =
     (if is_digit (peek f) then let (w, f') = skip_atoi 0 f in Some (w, fl, f', args)
      else if peek f = CHR ''*''
      then do { (w, args') \<leftarrow> next_int args;
                if w < 0 then Some (- w, fl OR LEFT, tl f, args') else Some (w, fl, tl f, args') }
      else Some (-1, fl, f, args))"

definition fmt_precision :: "string \<Rightarrow> va_arg list \<Rightarrow> (int \<times> string \<times> va_arg list) option" where
  "fmt_precision f args =
     (if peek f \<noteq> CHR ''.'' then Some (-1, f, args)
      else let f1 = tl f
           in if is_digit (peek f1) then let (p, f2) = skip_atoi 0 f1 in Some (if p < 0 then 0 else p, f2, args)
              else if peek f1 = CHR ''*''
              then do { (p, args') \<leftarrow> next_int args; Some (if p < 0 then 0 else p, tl f1, args') }
              else Some (0, f1, args))"

definition fmt_qualifier :: "string \<Rightarrow> char \<times> string" where
  "fmt_qualifier f =
     (if peek f \<in> {CHR ''h'', CHR ''l'', CHR ''L'', CHR ''Z'', CHR ''z'', CHR ''t''}
      then if peek f = CHR ''l'' \<and> peek (tl f) = CHR ''l'' then (CHR ''L'', tl (tl f)) else (peek f, tl f)
      else (NUL, f))"

text \<open>The number argument, with the conversions of the qualifier.\<close>

definition fmt_number :: "char \<Rightarrow> bool \<Rightarrow> va_arg list \<Rightarrow> (u64 \<times> va_arg list) option" where
  "fmt_number q is_signed args =
     (case args of
        VLong w # args' \<Rightarrow> if q = CHR ''L'' then Some (w, args') else None
      | VInt w # args' \<Rightarrow>
          if q = CHR ''L'' then None
          else if q = CHR ''Z'' \<or> q = CHR ''z'' then Some (ucast w, args')
          else if q = CHR ''t'' then Some (scast w, args')
          else if q = CHR ''h''
          then Some (if is_signed then scast (ucast w :: u16) else ucast (ucast w :: u16), args')
          else Some (if is_signed then scast w else ucast w, args')
      | _ \<Rightarrow> None)"

text \<open>The numeric conversions: base and flags.\<close>

definition fmt_base :: "char \<Rightarrow> u32 \<Rightarrow> (nat \<times> u32) option" where
  "fmt_base c fl =
     (if c = CHR ''o'' then Some (8, fl)
      else if c = CHR ''x'' then Some (16, fl OR SMALL)
      else if c = CHR ''X'' then Some (16, fl)
      else if c = CHR ''d'' \<or> c = CHR ''i'' then Some (10, fl OR SIGN)
      else if c = CHR ''u'' then Some (10, fl)
      else None)"

text \<open>One conversion at the end of its specification: the text, the rest of the format and the
  arguments, and the value stored by \<open>%n\<close> given what was written before.\<close>

definition convert ::
  "char \<Rightarrow> u32 \<Rightarrow> int \<Rightarrow> int \<Rightarrow> string \<Rightarrow> va_arg list \<Rightarrow> (string \<times> bool \<times> string \<times> va_arg list) option" where
  "convert q fl width prec f args =
     (let c = peek f in
      if c = CHR ''c''
      then (case args of
              VInt w # args' \<Rightarrow>
                let ch = char_of (unat w mod 256); pad = replicate (nat (width - 1)) (CHR '' '')
                in Some (if \<not> flag fl LEFT then pad @ [ch] else ch # pad, False, tl f, args')
            | _ \<Rightarrow> None)
      else if c = CHR ''s''
      then (case args of
              VStr s # args' \<Rightarrow> Some (string_out s width prec fl, False, tl f, args')
            | _ \<Rightarrow> None)
      else if c = CHR ''p''
      then (case args of
              VPtr p # args' \<Rightarrow> Some (pointer_out p width prec fl, False, dropWhile isalnum (tl f), args')
            | _ \<Rightarrow> None)
      else if c = CHR ''n''
      then (case args of VCount # args' \<Rightarrow> Some ([], True, tl f, args') | _ \<Rightarrow> None)
      else if c = CHR ''%'' then Some (''%'', False, tl f, args)
      else (case fmt_base c fl of
              Some (base, fl') \<Rightarrow>
                do { (num, args') \<leftarrow> fmt_number q (flag fl' SIGN) args;
                     Some (number num base width prec fl', False, tl f, args') }
            | None \<Rightarrow>
                if f = [] then Some (''%'', False, [], args) else Some ([CHR ''%'', c], False, tl f, args)))"

definition directive ::
  "string \<Rightarrow> va_arg list \<Rightarrow> (string \<times> bool \<times> string \<times> va_arg list) option" where
  "directive f args =
     (let (fl, f1) = fmt_flags 0 f in
      do { (width, fl2, f2, args2) \<leftarrow> fmt_width fl f1 args;
           (prec, f3, args3) \<leftarrow> fmt_precision f2 args2;
           let (q, f4) = fmt_qualifier f3;
           convert q fl2 width prec f4 args3 })"

text \<open>The conversion and the characters before it are consumed, so the interpreter ends.\<close>

lemma skip_atoi_length: "length (snd (skip_atoi i f)) \<le> length f"
  by (induction i f rule: skip_atoi.induct) auto

lemma fmt_flags_length: "length (snd (fmt_flags fl f)) \<le> length f"
  by (induction fl f rule: fmt_flags.induct) auto

lemma fmt_width_length: "fmt_width fl f args = Some (w, fl', f', args') \<Longrightarrow> length f' \<le> length f"
  using skip_atoi_length [of 0 f]
  by (auto simp: fmt_width_def Let_def bind_Some_iff case_prod_beta split: if_splits)

lemma fmt_precision_length: "fmt_precision f args = Some (p, f', args') \<Longrightarrow> length f' \<le> length f"
  using skip_atoi_length [of 0 "tl f"]
  by (auto simp: fmt_precision_def Let_def bind_Some_iff case_prod_beta split: if_splits)

lemma fmt_qualifier_length: "length (snd (fmt_qualifier f)) \<le> length f"
  by (auto simp: fmt_qualifier_def)

lemma convert_length: "convert q fl w p f args = Some (t, n, f', args') \<Longrightarrow> length f' \<le> length f"
  using length_dropWhile_le [of isalnum "tl f"]
  by (auto simp: convert_def Let_def bind_Some_iff split: if_splits list.splits va_arg.splits option.splits)

lemma directive_length: "directive f args = Some (t, n, f', args') \<Longrightarrow> length f' \<le> length f"
  using fmt_flags_length [of 0 f] order_trans [OF _ fmt_qualifier_length]
  by (fastforce simp: directive_def Let_def bind_Some_iff case_prod_beta
      dest!: fmt_width_length fmt_precision_length convert_length)

text \<open>The loop over the format: the text written, and the counts that \<open>%n\<close> stored in their order.\<close>

function vsnprintf_internal :: "string \<Rightarrow> va_arg list \<Rightarrow> string \<Rightarrow> nat list \<Rightarrow> (string \<times> nat list) option" where
  "vsnprintf_internal [] args out ns = Some (out, ns)"
| "vsnprintf_internal (c # f) args out ns =
     (if c \<noteq> CHR ''%'' then vsnprintf_internal f args (out @ [c]) ns
      else (case directive f args of
              None \<Rightarrow> None
            | Some (t, n, f', args') \<Rightarrow>
                vsnprintf_internal f' args' (out @ t) (if n then ns @ [length out] else ns)))"
  by pat_completeness auto
termination
  by (relation "measure (\<lambda>(f, _). length f)") (auto dest: directive_length)

text \<open>The buffer contents with their NUL, the returned length and the counts stored.\<close>

definition vsprintf :: "string \<Rightarrow> va_arg list \<Rightarrow> (string \<times> nat \<times> nat list) option" where
  "vsprintf fmt args = map_option (\<lambda>(t, ns). (t @ [NUL], length t, ns)) (vsnprintf_internal fmt args [] [])"

definition sprintf :: "string \<Rightarrow> va_arg list \<Rightarrow> (string \<times> nat \<times> nat list) option" where
  "sprintf fmt args = vsprintf fmt args"

section \<open>Decimal digits\<close>

text \<open>The reference: the digits of a number by division, the least significant first, and the decimal
  text.\<close>

function rdigits :: "(nat \<Rightarrow> char) \<Rightarrow> nat \<Rightarrow> nat \<Rightarrow> string" where
  "rdigits ch b n = (if n < b \<or> b < 2 then [ch n] else ch (n mod b) # rdigits ch b (n div b))"
  by pat_completeness auto
termination
  by (relation "measure (\<lambda>(ch, b, n). n)") (auto intro!: div_less_dividend)

declare rdigits.simps [simp del]

abbreviation rdec :: "nat \<Rightarrow> string" where
  "rdec \<equiv> rdigits dig 10"

definition dec :: "nat \<Rightarrow> string" where
  "dec n = rev (rdec n)"

lemma div_10_shift:
  fixes x :: nat
  assumes "10 * m = 2 ^ k + 2" and "\<And>a r. x = 10 * a + r \<Longrightarrow> r < 10 \<Longrightarrow> 2 * a + r * m < 2 ^ k"
  shows "drop_bit k (x * m) = x div 10"
proof -
  let ?a = "x div 10" and ?r = "x mod 10"
  have "x * m = (10 * ?a + ?r) * m" by simp
  also have "\<dots> = 10 * m * ?a + ?r * m" by (simp only: distrib_right mult.assoc mult.commute [of ?a m])
  also have "\<dots> = 2 ^ k * ?a + (2 * ?a + ?r * m)" unfolding assms(1) by (simp only: distrib_right add.assoc)
  finally show ?thesis using assms(2) [of ?a ?r] by (simp add: drop_bit_eq_div)
qed

lemma recip_10: "x < 1020 \<Longrightarrow> drop_bit 11 (x * 0xcd) = x div (10 :: nat)"
  by (rule div_10_shift) auto

lemma recip_10_small: "x < 69 \<Longrightarrow> drop_bit 7 (x * 0xd) = x div (10 :: nat)"
proof (rule div_10_shift)
  show "2 * a + r * 0xd < 2 ^ 7" if "x < 69" "x = 10 * a + r" "r < 10" for a r
    using that by (cases "a \<le> 5") auto
qed simp

lemma and_15_mod: "n AND 0xf = n mod (16 :: nat)"
  using take_bit_eq_mask [of 4 n] by (simp add: take_bit_eq_mod mask_eq_exp_minus_1)

lemma column_carry: "q = c + 10 * x \<Longrightarrow> c mod 10 = q mod 10 \<and> q div 10 = c div 10 + (x :: nat)"
  by simp

text \<open>The nibbles of a number below 100000, and what its column sums are worth.\<close>

lemma put_dec_columns:
  fixes q :: nat
  assumes "q < 100000"
  defines "d1 \<equiv> drop_bit 4 q AND 0xf" and "d2 \<equiv> drop_bit 8 q AND 0xf" and "d3 \<equiv> drop_bit 12 q"
  defines "c0 \<equiv> 6 * (d3 + d2 + d1) + (q AND 0xf)"
  defines "c1 \<equiv> c0 div 10 + 9 * d3 + 5 * d2 + d1"
  defines "c2 \<equiv> c1 div 10 + 2 * d2"
  defines "c3 \<equiv> c2 div 10 + 4 * d3"
  shows "c0 < 1020" "c1 < 1020" "c2 < 69" "c3 < 1020"
    and "c0 mod 10 = q mod 10" "c1 mod 10 = q div 10 mod 10" "c2 mod 10 = q div 100 mod 10" "c3 = q div 1000"
    and "(c1 = 0) = (q < 10)" "(c2 = 0 \<and> d3 = 0) = (q < 100)"
proof -
  have "d1 = q div 16 mod 16" "d2 = q div 256 mod 16" "d3 = q div 4096" "q AND 0xf = q mod 16"
    by (simp_all add: d1_def d2_def d3_def drop_bit_eq_div and_15_mod)
  moreover have "q = 16 * (q div 16) + q mod 16" "q div 16 = 16 * (q div 256) + q div 16 mod 16"
    "q div 256 = 16 * (q div 4096) + q div 256 mod 16"
    using mult_div_mod_eq [of 16 q] mult_div_mod_eq [of 16 "q div 16"] mult_div_mod_eq [of 16 "q div 256"]
    by (simp_all add: div_mult2_eq [symmetric])
  ultimately have d: "d1 < 16" "d2 < 16" "d3 < 25" "q mod 16 < 16" and e: "q AND 0xf = q mod 16"
    and q: "q = q mod 16 + 16 * d1 + 256 * d2 + 4096 * d3"
    using assms(1) by linarith+
  have b0: "c0 \<le> 339" using d e unfolding c0_def by simp
  have b1: "c1 \<le> 339" using d div_le_mono [OF b0, of 10] unfolding c1_def by simp
  have b2: "c2 \<le> 63" using d div_le_mono [OF b1, of 10] unfolding c2_def by simp
  have b3: "c3 \<le> 102" using d div_le_mono [OF b2, of 10] unfolding c3_def by simp
  from b0 b1 b2 b3 show "c0 < 1020" "c1 < 1020" "c2 < 69" "c3 < 1020" by linarith+
  have "q = c0 + 10 * (9 * d3 + 5 * d2 + d1 + 10 * (2 * d2 + 10 * (4 * d3)))"
    using q unfolding c0_def e by (rule back_subst) simp
  then have s0: "c0 mod 10 = q mod 10" "q div 10 = c1 + 10 * (2 * d2 + 10 * (4 * d3))"
    using column_carry [of q c0] unfolding c1_def by (simp_all only: add.assoc)
  then have s1: "c1 mod 10 = q div 10 mod 10" "q div 100 = c2 + 10 * (4 * d3)"
    using column_carry [OF s0(2)] div_mult2_eq [of q 10 10] unfolding c2_def by simp_all
  have s2: "c2 mod 10 = q div 100 mod 10" "c3 = q div 1000"
    using column_carry [OF s1(2)] div_mult2_eq [of q 100 10] unfolding c3_def by simp_all
  show "c0 mod 10 = q mod 10" "c1 mod 10 = q div 10 mod 10" "c2 mod 10 = q div 100 mod 10" "c3 = q div 1000"
    by (fact s0(1) s1(1) s2)+
  show "(c1 = 0) = (q < 10)" using s0 unfolding c1_def by auto
  show "(c2 = 0 \<and> d3 = 0) = (q < 100)" using s1 by auto
qed

text \<open>Both routines write the column sums modulo ten; they differ in where they stop.\<close>

lemma put_dec_digits:
  assumes "q < 100000"
  shows "put_dec_trunc q =
           dig (q mod 10) # (if q < 10 then [] else dig (q div 10 mod 10) #
             (if q < 100 then [] else dig (q div 100 mod 10) #
               (if q < 1000 then [] else dig (q div 1000 mod 10) # (if q < 10000 then [] else [dig (q div 10000)]))))"
    and "put_dec_full q =
           [dig (q mod 10), dig (q div 10 mod 10), dig (q div 100 mod 10), dig (q div 1000 mod 10), dig (q div 10000)]"
proof -
  define d1 d2 d3 where d: "d1 = drop_bit 4 q AND 0xf" "d2 = drop_bit 8 q AND 0xf" "d3 = drop_bit 12 q"
  define c0 where c0: "c0 = 6 * (d3 + d2 + d1) + (q AND 0xf)"
  define c1 where c1: "c1 = c0 div 10 + 9 * d3 + 5 * d2 + d1"
  define c2 where c2: "c2 = c1 div 10 + 2 * d2"
  define c3 where c3: "c3 = c2 div 10 + 4 * d3"
  note cols = put_dec_columns [OF assms, folded d, folded c0, folded c1, folded c2, folded c3]
  note fold_cols = d [symmetric] c0 [symmetric] recip_10 [OF cols(1)] c1 [symmetric] recip_10 [OF cols(2)]
    c2 [symmetric] recip_10_small [OF cols(3)] c3 [symmetric] recip_10 [OF cols(4)] minus_mult_div_eq_mod
  have c3': "c3 div 10 = q div 10000" "(c3 = 0) = (q < 1000)"
    using cols(8) by (simp_all add: div_mult2_eq [symmetric] div_eq_0_iff)
  have "(c2 \<noteq> 0 \<or> d3 \<noteq> 0) = (\<not> q < 100)" using cols(10) by auto
  then show "put_dec_trunc q =
           dig (q mod 10) # (if q < 10 then [] else dig (q div 10 mod 10) #
             (if q < 100 then [] else dig (q div 100 mod 10) #
               (if q < 1000 then [] else dig (q div 1000 mod 10) # (if q < 10000 then [] else [dig (q div 10000)]))))"
    unfolding put_dec_trunc_def Let_def fold_cols using c3' cols(9)
    by (simp add: cols(5,6,7) cols(8) [symmetric] div_eq_0_iff)
  show "put_dec_full q =
           [dig (q mod 10), dig (q div 10 mod 10), dig (q div 100 mod 10), dig (q div 1000 mod 10), dig (q div 10000)]"
    unfolding put_dec_full_def Let_def fold_cols using c3' by (simp add: cols(5,6,7) cols(8))
qed

lemma rdec_step: "rdec n = dig (n mod 10) # (if n < 10 then [] else rdec (n div 10))"
  by (subst rdigits.simps) simp

lemma div_div_10:
  "n div 10 div 10 = n div 100" "n div 100 div 10 = n div 1000" "n div 1000 div 10 = n div 10000"
  "n div 10000 div 10 = n div 100000" for n :: nat
  by (simp_all only: div_mult2_eq [symmetric], simp_all)

lemma div_less_10:
  "(n div 10 < 10) = (n < 100)" "(n div 100 < 10) = (n < 1000)" "(n div 1000 < 10) = (n < 10000)"
  "(n div 10000 < 10) = (n < 100000)" for n :: nat
  by (simp_all only: div_less_iff_less_mult, simp_all)

text \<open>Five digits of the reference.\<close>

lemma rdec_5:
  "rdec n =
     dig (n mod 10) # (if n < 10 then [] else dig (n div 10 mod 10) #
       (if n < 100 then [] else dig (n div 100 mod 10) #
         (if n < 1000 then [] else dig (n div 1000 mod 10) #
           (if n < 10000 then [] else dig (n div 10000 mod 10) # (if n < 100000 then [] else rdec (n div 100000))))))"
  by (simp only: rdec_step [of n] rdec_step [of "n div 10"] rdec_step [of "n div 100"]
      rdec_step [of "n div 1000"] rdec_step [of "n div 10000"] div_div_10 div_less_10)

lemma put_dec_trunc_rdec: "q < 100000 \<Longrightarrow> put_dec_trunc q = rdec q"
  by (simp only: put_dec_digits(1) rdec_5 [of q] if_True) (simp add: div_less_iff_less_mult)

lemma mod_div_mult: "m = a * c \<Longrightarrow> 0 < a \<Longrightarrow> n mod m div a = n div a mod c" for n a c :: nat
  by (simp add: mod_mult2_eq)

lemma mod_div_digit: "m = a * (10 * c) \<Longrightarrow> 0 < a \<Longrightarrow> n mod m div a mod 10 = n div a mod 10" for n a c :: nat
  by (subst mod_div_mult [of m a "10 * c"]) (auto intro: mod_mod_cancel)

lemma mod_100000_digits:
  "n mod 100000 mod 10 = n mod 10" "n mod 100000 div 10 mod 10 = n div 10 mod 10"
  "n mod 100000 div 100 mod 10 = n div 100 mod 10" "n mod 100000 div 1000 mod 10 = n div 1000 mod 10"
  "n mod 100000 div 10000 = n div 10000 mod 10" for n :: nat
  by (rule mod_mod_cancel mod_div_digit [of _ _ 1000] mod_div_digit [of _ _ 100] mod_div_digit [of _ _ 10] mod_div_mult, simp, simp?)+

lemma put_dec_full_rdec:
  assumes "100000 \<le> n"
  shows "put_dec_full (n mod 100000) @ rdec (n div 100000) = rdec n"
proof -
  have "\<not> n < 10" "\<not> n < 100" "\<not> n < 1000" "\<not> n < 10000" "\<not> n < 100000" using assms by linarith+
  then show ?thesis
    by (simp only: rdec_5 [of n] put_dec_digits(2) mod_less_divisor mod_100000_digits append.simps if_False)
qed

lemma put_dec_rdec: "put_dec num = rdec (unat num)"
proof (induction num rule: put_dec.induct)
  case (1 num)
  show ?case
  proof (cases "unat num < 100000")
    case True
    then show ?thesis by (subst put_dec.simps) (simp add: put_dec_trunc_rdec)
  next
    case False
    let ?n = "unat num" and ?w = "word_of_nat (unat num div 100000) :: u64"
    have "?n < 2 ^ 64" using unsigned_less [of num, where 'a = nat] by simp
    then have d: "do_div ?n 100000 = Some (?n div 100000, ?n mod 100000)" and "?n div 100000 < 2 ^ 64"
      by (simp_all add: do_div_correct order.strict_trans1 [OF div_le_dividend])
    then have w: "unat ?w = ?n div 100000" by (simp add: unat_of_nat)
    have "put_dec ?w = rdec (unat ?w)" using 1 False d by blast
    with False d w show ?thesis by (subst put_dec.simps) (simp add: put_dec_full_rdec)
  qed
qed

lemma itoa_loop_rdec: "itoa_loop i p = rev (rdec i) @ p"
proof (induction i p rule: itoa_loop.induct)
  case (1 i p)
  then show ?case by (subst itoa_loop.simps, subst rdec_step) (auto simp: Let_def div_eq_0_iff)
qed

text \<open>C29. The decimal conversion by reciprocal multiplication and table-free column sums gives exactly the
  digits that division by ten gives, for every 64-bit number, and \<open>simple_itoa\<close> the same text for 32 bits.\<close>

theorem put_dec_decimal: "rev (put_dec num) = dec (unat num) \<and> simple_itoa i = dec (unat i)"
  by (simp add: put_dec_rdec dec_def simple_itoa_def itoa_loop_rdec)

section \<open>Printing and reading back\<close>

text \<open>The characters of digits that the parser reads as these digits.\<close>

definition reads :: "(nat \<Rightarrow> char) \<Rightarrow> nat \<Rightarrow> bool" where
  "reads ch b \<longleftrightarrow> 2 \<le> b \<and> (\<forall>d<b. isxdigit (ch d) \<and> digit_value (ch d) = d) \<and> (\<forall>d<b. ch d = CHR ''0'' \<longrightarrow> d = 0)"

lemma reads_iff_list: "2 \<le> b \<Longrightarrow>
  list_all (\<lambda>d. isxdigit (ch d) \<and> digit_value (ch d) = d \<and> (ch d = CHR ''0'' \<longrightarrow> d = 0)) [0..<b] \<Longrightarrow> reads ch b"
  by (auto simp: reads_def list_all_iff)

lemma strtoul_loop_rdigits:
  assumes "reads ch b"
  shows "strtoul_loop b (rev (rdigits ch b n) @ rest) (0 :: 'a::len word) = strtoul_loop b rest (word_of_nat n)"
proof (induction n arbitrary: rest rule: less_induct)
  case (less n)
  have b: "2 \<le> b" and d: "d < b \<Longrightarrow> isxdigit (ch d) \<and> digit_value (ch d) = d" for d
    using assms by (auto simp: reads_def)
  show ?case
  proof (cases "n < b")
    case True
    then show ?thesis using d [of n] b by (subst rdigits.simps) simp
  next
    case False
    have "n div b < n" using b False by (intro div_less_dividend) auto
    then have "strtoul_loop b (rev (rdigits ch b n) @ rest) (0 :: 'a word) = strtoul_loop b (ch (n mod b) # rest) (word_of_nat (n div b))"
      using False b less [of "n div b" "ch (n mod b) # rest"] by (subst rdigits.simps) simp
    also have "\<dots> = strtoul_loop b rest (word_of_nat (n div b * b + n mod b))"
      using d [of "n mod b"] b by (simp flip: of_nat_mult of_nat_add)
    finally show ?thesis by simp
  qed
qed

text \<open>The first character of a text of digits is a zero only for the number zero.\<close>

lemma last_rdigits: "reads ch b \<Longrightarrow> last (rdigits ch b n) = CHR ''0'' \<Longrightarrow> n = 0"
proof (induction ch b n rule: rdigits.induct)
  case (1 ch b n)
  show ?case
  proof (cases "n < b")
    case True
    then have "rdigits ch b n = [ch n]" by (subst rdigits.simps) simp
    then show ?thesis using 1(2,3) True by (simp add: reads_def)
  next
    case False
    have "2 \<le> b" using 1(2) by (simp add: reads_def)
    moreover have "rdigits ch b m \<noteq> []" for m by (subst rdigits.simps) simp
    moreover have "rdigits ch b n = ch (n mod b) # rdigits ch b (n div b)"
      using False \<open>2 \<le> b\<close> by (subst rdigits.simps) simp
    ultimately have "n div b = 0" using 1 False by simp
    then show ?thesis using False \<open>2 \<le> b\<close> by (simp add: div_eq_0_iff)
  qed
qed

lemma rdigits_not_Nil [simp]: "rdigits ch b n \<noteq> []"
  by (subst rdigits.simps) simp

lemma strtoul_rdigits:
  assumes "reads ch b" and "0 < n \<or> t = [CHR ''0'']" and "0 < n \<Longrightarrow> t = rev (rdigits ch b n)"
  shows "(let (cp, b') = strtoul_base t b in strtoul_loop b' cp 0) = (word_of_nat n, [])"
proof (cases "0 < n")
  case True
  have "peek t \<noteq> CHR ''0''"
    using last_rdigits [OF assms(1), of n] True assms(3) by (auto simp: peek_def hd_rev [symmetric] split: list.splits)
  moreover have "0 < b" using assms(1) by (simp add: reads_def)
  ultimately show ?thesis
    using strtoul_loop_rdigits [OF assms(1), of n "[]"] True assms(3) by (simp add: strtoul_base_def)
next
  case False
  then show ?thesis using assms(1,2) by (simp add: strtoul_base_def peek_def reads_def)
qed

text \<open>Octal and hexadecimal digits by shifting are those of the division.\<close>

lemma shift_digit: "shift \<le> 8 \<Longrightarrow> unat (num AND 0xff AND (2 ^ shift - 1)) = unat num mod 2 ^ shift" for num :: u64
proof -
  assume "shift \<le> 8"
  have "num AND 0xff AND (2 ^ shift - 1) = take_bit shift (take_bit 8 num)"
    using take_bit_eq_mask [of 8 num] by (simp add: take_bit_eq_mask mask_eq_exp_minus_1 push_bit_eq_mult and.assoc)
  also have "\<dots> = take_bit shift num" using \<open>shift \<le> 8\<close> by simp
  finally show ?thesis by (simp add: unsigned_take_bit_eq take_bit_eq_mod [of shift "unat num"] del: take_bit_eq_mod)
qed

lemma shift_digits_rdigits:
  assumes "0 < shift" and "shift \<le> 8"
  shows "shift_digits shift locase num = rdigits (\<lambda>d. digit_char d locase) (2 ^ shift) (unat num)"
  using assms
proof (induction shift locase num rule: shift_digits.induct)
  case (1 shift locase num)
  have "unat (drop_bit shift num) = unat num div 2 ^ shift"
    using unsigned_less [of num, where 'a = nat]
    by (simp add: unsigned_drop_bit_eq take_bit_nat_eq_self drop_bit_eq_div [of shift "unat num"])
  moreover from this have "drop_bit shift num = 0 \<longleftrightarrow> unat num < 2 ^ shift"
    by (simp add: unat_eq_0 [symmetric] div_eq_0_iff)
  moreover have "(2 :: nat) ^ 1 \<le> 2 ^ shift" using 1(2) by (intro power_increasing) auto
  ultimately show ?case
    using 1 by (subst shift_digits.simps, subst rdigits.simps) (auto simp: Let_def shift_digit)
qed

lemma reads_dig: "reads dig 10"
  by (rule reads_iff_list) code_simp+

lemma less_16: "d < 16 \<longleftrightarrow> d \<in> {0, 1, 2, 3, 4, 5, 6, 7, 8, 9, 10, 11, 12, 13, 14, 15 :: nat}"
  unfolding insert_iff empty_iff by presburger

lemma digit_char_table:
  "d < 16 \<Longrightarrow> digit_char d SMALL = ''0123456789abcdef'' ! d" "d < 16 \<Longrightarrow> digit_char d 0 = ''0123456789ABCDEF'' ! d"
  unfolding less_16 by (auto simp: digit_char_def or_char_def SMALL_def char_of_def bit_Suc_0_iff)

lemma reads_cong: "reads ch b \<Longrightarrow> (\<And>d. d < b \<Longrightarrow> ch' d = ch d) \<Longrightarrow> reads ch' b"
  by (auto simp: reads_def)

lemma reads_table:
  "reads ((!) ''0123456789abcdef'') 16" "reads ((!) ''0123456789ABCDEF'') 16" "reads ((!) ''0123456789ABCDEF'') 8"
  by (rule reads_iff_list, code_simp, code_simp)+

lemma reads_digit_char:
  "reads (\<lambda>d. digit_char d SMALL) 16" "reads (\<lambda>d. digit_char d 0) 16" "reads (\<lambda>d. digit_char d 0) 8"
  using reads_table by (auto intro: reads_cong simp: digit_char_table)

text \<open>A number with neither sign, prefix nor field width is its digits.\<close>

lemma number_plain:
  assumes "type = 0 \<or> type = SMALL"
  shows "number num base (-1) (-1) type = rev (number_digits num base type)"
  using assms
  by (elim disjE) (simp_all add: number_def Let_def sign_text_def prefix_text_def pad_loop_def SMALL_def SIGN_def SPECIAL_def
      LEFT_def ZEROPAD_def)

lemma number_digits_reads:
  assumes "(base, type) \<in> {(8, 0), (10, 0), (16, 0), (16, SMALL)}"
  obtains ch where "reads ch base" "0 < unat num \<or> number_digits num base type = [CHR ''0'']"
    "0 < unat num \<longrightarrow> rev (number_digits num base type) = rev (rdigits ch base (unat num))"
  using assms reads_dig reads_digit_char
  by (auto simp: number_digits_def put_dec_rdec shift_digits_rdigits unat_gt_0)

lemma strtoul_number:
  assumes "(base, type) \<in> {(8, 0), (10, 0), (16, 0), (16, SMALL)}"
  shows "(let (cp, b') = strtoul_base (number num base (-1) (-1) type) base in strtoul_loop b' cp 0) = (word_of_nat (unat num), [])"
proof -
  obtain ch where "reads ch base" "0 < unat num \<or> number_digits num base type = [CHR ''0'']"
    "0 < unat num \<longrightarrow> rev (number_digits num base type) = rev (rdigits ch base (unat num))"
    by (rule number_digits_reads [OF assms, of num])
  moreover have "number num base (-1) (-1) type = rev (number_digits num base type)"
    using assms by (auto intro: number_plain)
  ultimately show ?thesis by (intro strtoul_rdigits) auto
qed

lemma simple_strtoul_number:
  assumes "(base, type) \<in> {(8, 0), (10, 0), (16, 0), (16, SMALL)}"
  shows "simple_strtoul (number (ucast w) base (-1) (-1) type) base = (w, [])"
    and "simple_strtoull (number num base (-1) (-1) type) base = (num, [])"
proof -
  have "unat (ucast w :: u64) = unat w"
    using unsigned_less [of w, where 'a = nat] by (simp add: unsigned_ucast_eq take_bit_nat_eq_self)
  then show "simple_strtoul (number (ucast w) base (-1) (-1) type) base = (w, [])"
    unfolding simple_strtoul_def by (simp add: strtoul_number [OF assms])
  show "simple_strtoull (number num base (-1) (-1) type) base = (num, [])"
    unfolding simple_strtoull_def by (simp add: strtoul_number [OF assms])
qed

text \<open>The format strings of the numbers, interpreted.\<close>

lemma sprintf_number:
  "sprintf ''%lu'' [VInt w] = Some (number (ucast w) 10 (-1) (-1) 0 @ [NUL], length (number (ucast w) 10 (-1) (-1) 0), [])"
  "sprintf ''%lx'' [VInt w] = Some (number (ucast w) 16 (-1) (-1) SMALL @ [NUL], length (number (ucast w) 16 (-1) (-1) SMALL), [])"
  "sprintf ''%lX'' [VInt w] = Some (number (ucast w) 16 (-1) (-1) 0 @ [NUL], length (number (ucast w) 16 (-1) (-1) 0), [])"
  "sprintf ''%lo'' [VInt w] = Some (number (ucast w) 8 (-1) (-1) 0 @ [NUL], length (number (ucast w) 8 (-1) (-1) 0), [])"
  by (simp_all add: sprintf_def vsprintf_def directive_def flag_of_def fmt_width_def fmt_precision_def fmt_qualifier_def
      convert_def fmt_base_def fmt_number_def peek_def is_digit_def Let_def SIGN_def SMALL_def)

text \<open>C28. Printing and reading back: for every 32-bit number, the text that \<open>sprintf\<close> writes with a decimal,
  hexadecimal or octal conversion is read back by \<open>simple_strtoul\<close> in that base as the same number, with nothing
  left over.\<close>

theorem sprintf_strtoul_roundtrip:
  assumes "(fmt, base) \<in> {(''%lu'', 10), (''%lx'', 16), (''%lX'', 16), (''%lo'', 8)}"
  shows "\<exists>t. sprintf fmt [VInt w] = Some (t @ [NUL], length t, []) \<and> simple_strtoul t base = (w, [])"
  using assms by (auto simp: sprintf_number simple_strtoul_number)

theorem sprintf_strtoul_roundtrip_witness:
  "\<exists>t. sprintf ''%lx'' [VInt 0xC0000000] = Some (t @ [NUL], length t, []) \<and> simple_strtoul t 16 = (0xC0000000, [])"
  using sprintf_strtoul_roundtrip [of "''%lx''" 16 "0xC0000000"] by simp

section \<open>Which texts are numbers\<close>

definition digit_in :: "nat \<Rightarrow> char \<Rightarrow> bool" where
  "digit_in b c \<longleftrightarrow> isxdigit c \<and> digit_value c < b"

definition digits_value :: "nat \<Rightarrow> string \<Rightarrow> nat" where
  "digits_value b ds = foldl (\<lambda>r c. r * b + digit_value c) 0 ds"

lemma strtoul_loop_split:
  "strtoul_loop b cp (word_of_nat r) =
     (word_of_nat (foldl (\<lambda>r c. r * b + digit_value c) r (takeWhile (digit_in b) cp)), dropWhile (digit_in b) cp)"
  by (induction cp arbitrary: r) (simp_all add: digit_in_def flip: of_nat_mult of_nat_add)

lemma digit_zero [simp]: "digit_in b (CHR ''0'') \<longleftrightarrow> 0 < b" "digit_value (CHR ''0'') = 0"
  by (simp_all add: digit_in_def digit_value_def ctype_simps)

lemma not_digit [simp]: "\<not> digit_in b (CHR ''x'')" "\<not> digit_in b (CHR 0x0A)"
  by (simp_all add: digit_in_def ctype_simps)

lemma digit_in_16: "digit_in 16 c \<longleftrightarrow> isxdigit c"
  by (auto simp: digit_in_def digit_value_def of_char_toupper) (auto simp: ctype_simps)

definition has_prefix :: "string \<Rightarrow> bool" where
  "has_prefix cp \<longleftrightarrow> (\<exists>h cs. cp = CHR ''0'' # CHR ''x'' # h # cs \<and> isxdigit h)"

lemma strtoul_base_plain:
  "0 < b \<Longrightarrow> \<not> has_prefix cp \<Longrightarrow>
    strtoul_base cp b = (if peek cp = CHR ''0'' then tl cp else cp, b)"
  by (auto simp: strtoul_base_def has_prefix_def peek_def Let_def ctype_simps split: list.splits)

lemma simple_strtoul_plain:
  assumes "0 < b" and "\<not> has_prefix cp"
  shows "simple_strtoul cp b = (word_of_nat (digits_value b (takeWhile (digit_in b) cp)), dropWhile (digit_in b) cp)"
proof -
  have "simple_strtoul cp b = strtoul_loop b (if peek cp = CHR ''0'' then tl cp else cp) (word_of_nat 0)"
    by (simp add: simple_strtoul_def strtoul_base_plain [OF assms])
  then show ?thesis
    unfolding strtoul_loop_split using assms(1) by (cases cp) (auto simp: digits_value_def peek_def)
qed

lemma simple_strtoul_prefix:
  assumes "has_prefix cp"
  shows "simple_strtoul cp b =
     (word_of_nat (digits_value 16 (takeWhile (digit_in 16) (drop 2 cp))), dropWhile (digit_in 16) (drop 2 cp))"
proof -
  have "simple_strtoul cp b = strtoul_loop 16 (drop 2 cp) (word_of_nat 0)"
    using assms by (auto simp: has_prefix_def simple_strtoul_def strtoul_base_def peek_def)
  then show ?thesis unfolding strtoul_loop_split by (simp add: digits_value_def)
qed

text \<open>What may stand after the digits: nothing or one line feed.\<close>

abbreviation eol :: "string \<Rightarrow> bool" where
  "eol t \<equiv> t = [] \<or> t = [CHR 0x0A]"

lemma strict_strtoul_eol:
  assumes "NUL \<notin> set cp" and "simple_strtoul cp b = (v, t)" and "suffix t cp"
  shows "strict_strtoul cp b = (if t \<noteq> cp \<and> eol t then Some v else None)"
proof -
  have "length t \<le> length cp" "NUL \<notin> set t" using assms(1,3) by (auto dest: suffix_length_le set_mono_suffix)
  moreover from this have "length cp = length cp - length t + 1 \<longleftrightarrow> length t = 1" by linarith
  ultimately have "(peek t = NUL \<or> (length cp = length cp - length t + 1 \<and> peek t = CHR 0x0A)) = eol t"
    by (cases t) (auto simp: peek_def)
  then show ?thesis using assms(2,3) by (auto simp: strict_strtoul_def Let_def)
qed

lemma dropWhile_eol:
  assumes "\<not> P (CHR 0x0A)" and "eol nl" and "\<forall>c\<in>set ds. P c"
  shows "takeWhile P (ds @ nl) = ds" "dropWhile P (ds @ nl) = nl"
  using assms by (auto simp: takeWhile_append2 dropWhile_append2)

lemma strict_strtoul_digits:
  assumes "NUL \<notin> set cp" "suffix cp' cp"
    and "simple_strtoul cp b = (word_of_nat (digits_value b' (takeWhile (digit_in b') cp')), dropWhile (digit_in b') cp')"
  shows "strict_strtoul cp b = Some v \<longleftrightarrow>
           (\<exists>ds nl. cp' = ds @ nl \<and> eol nl \<and> (\<forall>c\<in>set ds. digit_in b' c) \<and> nl \<noteq> cp \<and> v = word_of_nat (digits_value b' ds))"
proof -
  let ?P = "digit_in b'"
  have "strict_strtoul cp b =
    (if dropWhile ?P cp' \<noteq> cp \<and> eol (dropWhile ?P cp') then Some (word_of_nat (digits_value b' (takeWhile ?P cp'))) else None)"
    using assms(2) by (intro strict_strtoul_eol [OF assms(1,3)]) (meson suffix_dropWhile suffix_order.trans)
  moreover have "cp' = takeWhile ?P cp' @ dropWhile ?P cp'" "\<forall>c\<in>set (takeWhile ?P cp'). ?P c"
    by (auto dest: set_takeWhileD)
  moreover have split: "takeWhile ?P cp' = ds \<and> dropWhile ?P cp' = nl" if "cp' = ds @ nl" "eol nl" "\<forall>c\<in>set ds. ?P c" for ds nl
    using dropWhile_eol [of ?P nl ds] that by auto
  ultimately show ?thesis
  proof (intro iffI, goal_cases)
    case 1
    then have "dropWhile ?P cp' \<noteq> cp \<and> eol (dropWhile ?P cp') \<and> v = word_of_nat (digits_value b' (takeWhile ?P cp'))"
      by (metis option.inject option.distinct(1))
    then show ?case using 1(2,3) by blast
  next
    case 2
    then obtain ds nl where d: "cp' = ds @ nl" "eol nl" "\<forall>c\<in>set ds. ?P c" "nl \<noteq> cp" "v = word_of_nat (digits_value b' ds)" by blast
    then have "takeWhile ?P cp' = ds" "dropWhile ?P cp' = nl" using split [of ds nl] by auto
    then show ?case unfolding 2(1) using d(2,4,5) by (simp only: if_True simp_thms)
  qed
qed

lemma prefix_not_plain: "''0x'' @ s = ds @ nl \<Longrightarrow> eol nl \<Longrightarrow> ds \<noteq> [] \<Longrightarrow> \<exists>c\<in>set ds. \<not> digit_in b c"
  by (auto simp: Cons_eq_append_conv)

text \<open>\<open>strict_strtoul\<close> accepts exactly the numerals: digits of the base, or \<open>0x\<close> and hexadecimal digits,
  with at least one digit and nothing after them but one optional line feed; every other text is refused
  (\<open>-EINVAL\<close>), and the value is that of the digits modulo the word size.\<close>

lemma strict_strtoul_accepts:
  assumes "0 < b" and "NUL \<notin> set cp"
  shows "strict_strtoul cp b = Some v \<longleftrightarrow>
    (\<exists>ds nl. ds \<noteq> [] \<and> (nl = [] \<or> nl = [CHR 0x0A]) \<and>
      (cp = ds @ nl \<and> (\<forall>c\<in>set ds. digit_in b c) \<and> v = word_of_nat (digits_value b ds) \<or>
       cp = ''0x'' @ ds @ nl \<and> (\<forall>c\<in>set ds. isxdigit c) \<and> v = word_of_nat (digits_value 16 ds)))"
proof (cases "has_prefix cp")
  case True
  then obtain h cs where cp: "cp = ''0x'' @ h # cs" "isxdigit h" by (auto simp: has_prefix_def)
  have h: "h \<noteq> CHR 0x0A" using cp(2) by (auto simp: ctype_simps)
  have "strict_strtoul cp b = Some v \<longleftrightarrow>
    (\<exists>ds nl. h # cs = ds @ nl \<and> eol nl \<and> (\<forall>c\<in>set ds. isxdigit c) \<and> nl \<noteq> cp \<and> v = word_of_nat (digits_value 16 ds))"
    using strict_strtoul_digits [OF assms(2) suffix_drop simple_strtoul_prefix [OF True]] cp(1) by (simp add: digit_in_16)
  also have "\<dots> \<longleftrightarrow> (\<exists>ds nl. ds \<noteq> [] \<and> eol nl \<and>
      (cp = ds @ nl \<and> (\<forall>c\<in>set ds. digit_in b c) \<and> v = word_of_nat (digits_value b ds) \<or>
       cp = ''0x'' @ ds @ nl \<and> (\<forall>c\<in>set ds. isxdigit c) \<and> v = word_of_nat (digits_value 16 ds)))"
  proof (intro ex_cong1)
    fix ds nl
    have "h # cs = ds @ nl \<Longrightarrow> eol nl \<Longrightarrow> ds \<noteq> [] \<and> nl \<noteq> cp" using h cp(1) by auto
    moreover have "\<not> (ds \<noteq> [] \<and> eol nl \<and> cp = ds @ nl \<and> (\<forall>c\<in>set ds. digit_in b c))"
      using prefix_not_plain [of "h # cs" ds nl b] cp(1) by auto
    moreover have "cp = ''0x'' @ ds @ nl \<longleftrightarrow> h # cs = ds @ nl" using cp(1) by simp
    ultimately show "(h # cs = ds @ nl \<and> eol nl \<and> (\<forall>c\<in>set ds. isxdigit c) \<and> nl \<noteq> cp \<and> v = word_of_nat (digits_value 16 ds)) \<longleftrightarrow>
      (ds \<noteq> [] \<and> eol nl \<and> (cp = ds @ nl \<and> (\<forall>c\<in>set ds. digit_in b c) \<and> v = word_of_nat (digits_value b ds) \<or>
       cp = ''0x'' @ ds @ nl \<and> (\<forall>c\<in>set ds. isxdigit c) \<and> v = word_of_nat (digits_value 16 ds)))" by argo
  qed
  finally show ?thesis .
next
  case False
  have "\<not> (ds \<noteq> [] \<and> cp = ''0x'' @ ds @ nl \<and> (\<forall>c\<in>set ds. isxdigit c))" for ds nl
    using False by (cases ds) (auto simp: has_prefix_def)
  moreover have "nl \<noteq> cp \<longleftrightarrow> ds \<noteq> []" if "cp = ds @ nl" for ds nl using that by auto
  ultimately show ?thesis
    using strict_strtoul_digits [OF assms(2) suffix_order.refl simple_strtoul_plain [OF assms(1) False], of v] by blast
qed

end
