(* ===== verification/Crc.thy ===== *)
theory Crc
  imports Mem_String
begin

text \<open>
  The checksums: CRC-32 (\<^verbatim>\<open>lib/crc32.c\<close>), which guards the environment and images, CRC-16
  (\<^verbatim>\<open>lib/crc16.c\<close>) of the serial transfer and CRC-7 (\<^verbatim>\<open>lib/crc7.c\<close>). The tables are those of the
  source. The theory shows that they are the tables of the polynomials, that the word-wise
  routine is the byte-wise one, that checksums can be computed in pieces, and that an error in one
  byte is always detected.
\<close>

section \<open>CRC-32\<close>

text \<open>The generator of the table: the polynomial from its terms, and the entry of one byte.\<close>

definition crc_terms :: "nat list" where
  "crc_terms = [0, 1, 2, 4, 5, 7, 8, 10, 11, 12, 16, 22, 23, 26]"

definition crc_poly :: u32 where
  "crc_poly = foldl (\<lambda>poly n. poly OR push_bit (31 - n) 1) 0 crc_terms"

definition crc_shift :: "u32 \<Rightarrow> u32" where
  "crc_shift c = (if c AND 1 \<noteq> 0 then crc_poly XOR drop_bit 1 c else drop_bit 1 c)"

definition make_crc_table :: "u32 list" where
  "make_crc_table = map (\<lambda>n. (crc_shift ^^ 8) (word_of_nat n)) [0..<256]"

definition crc_table :: "u32 list" where
  "crc_table = [
    0x00000000, 0x77073096, 0xee0e612c, 0x990951ba, 0x076dc419, 0x706af48f,
    0xe963a535, 0x9e6495a3, 0x0edb8832, 0x79dcb8a4, 0xe0d5e91e, 0x97d2d988,
    0x09b64c2b, 0x7eb17cbd, 0xe7b82d07, 0x90bf1d91, 0x1db71064, 0x6ab020f2,
    0xf3b97148, 0x84be41de, 0x1adad47d, 0x6ddde4eb, 0xf4d4b551, 0x83d385c7,
    0x136c9856, 0x646ba8c0, 0xfd62f97a, 0x8a65c9ec, 0x14015c4f, 0x63066cd9,
    0xfa0f3d63, 0x8d080df5, 0x3b6e20c8, 0x4c69105e, 0xd56041e4, 0xa2677172,
    0x3c03e4d1, 0x4b04d447, 0xd20d85fd, 0xa50ab56b, 0x35b5a8fa, 0x42b2986c,
    0xdbbbc9d6, 0xacbcf940, 0x32d86ce3, 0x45df5c75, 0xdcd60dcf, 0xabd13d59,
    0x26d930ac, 0x51de003a, 0xc8d75180, 0xbfd06116, 0x21b4f4b5, 0x56b3c423,
    0xcfba9599, 0xb8bda50f, 0x2802b89e, 0x5f058808, 0xc60cd9b2, 0xb10be924,
    0x2f6f7c87, 0x58684c11, 0xc1611dab, 0xb6662d3d, 0x76dc4190, 0x01db7106,
    0x98d220bc, 0xefd5102a, 0x71b18589, 0x06b6b51f, 0x9fbfe4a5, 0xe8b8d433,
    0x7807c9a2, 0x0f00f934, 0x9609a88e, 0xe10e9818, 0x7f6a0dbb, 0x086d3d2d,
    0x91646c97, 0xe6635c01, 0x6b6b51f4, 0x1c6c6162, 0x856530d8, 0xf262004e,
    0x6c0695ed, 0x1b01a57b, 0x8208f4c1, 0xf50fc457, 0x65b0d9c6, 0x12b7e950,
    0x8bbeb8ea, 0xfcb9887c, 0x62dd1ddf, 0x15da2d49, 0x8cd37cf3, 0xfbd44c65,
    0x4db26158, 0x3ab551ce, 0xa3bc0074, 0xd4bb30e2, 0x4adfa541, 0x3dd895d7,
    0xa4d1c46d, 0xd3d6f4fb, 0x4369e96a, 0x346ed9fc, 0xad678846, 0xda60b8d0,
    0x44042d73, 0x33031de5, 0xaa0a4c5f, 0xdd0d7cc9, 0x5005713c, 0x270241aa,
    0xbe0b1010, 0xc90c2086, 0x5768b525, 0x206f85b3, 0xb966d409, 0xce61e49f,
    0x5edef90e, 0x29d9c998, 0xb0d09822, 0xc7d7a8b4, 0x59b33d17, 0x2eb40d81,
    0xb7bd5c3b, 0xc0ba6cad, 0xedb88320, 0x9abfb3b6, 0x03b6e20c, 0x74b1d29a,
    0xead54739, 0x9dd277af, 0x04db2615, 0x73dc1683, 0xe3630b12, 0x94643b84,
    0x0d6d6a3e, 0x7a6a5aa8, 0xe40ecf0b, 0x9309ff9d, 0x0a00ae27, 0x7d079eb1,
    0xf00f9344, 0x8708a3d2, 0x1e01f268, 0x6906c2fe, 0xf762575d, 0x806567cb,
    0x196c3671, 0x6e6b06e7, 0xfed41b76, 0x89d32be0, 0x10da7a5a, 0x67dd4acc,
    0xf9b9df6f, 0x8ebeeff9, 0x17b7be43, 0x60b08ed5, 0xd6d6a3e8, 0xa1d1937e,
    0x38d8c2c4, 0x4fdff252, 0xd1bb67f1, 0xa6bc5767, 0x3fb506dd, 0x48b2364b,
    0xd80d2bda, 0xaf0a1b4c, 0x36034af6, 0x41047a60, 0xdf60efc3, 0xa867df55,
    0x316e8eef, 0x4669be79, 0xcb61b38c, 0xbc66831a, 0x256fd2a0, 0x5268e236,
    0xcc0c7795, 0xbb0b4703, 0x220216b9, 0x5505262f, 0xc5ba3bbe, 0xb2bd0b28,
    0x2bb45a92, 0x5cb36a04, 0xc2d7ffa7, 0xb5d0cf31, 0x2cd99e8b, 0x5bdeae1d,
    0x9b64c2b0, 0xec63f226, 0x756aa39c, 0x026d930a, 0x9c0906a9, 0xeb0e363f,
    0x72076785, 0x05005713, 0x95bf4a82, 0xe2b87a14, 0x7bb12bae, 0x0cb61b38,
    0x92d28e9b, 0xe5d5be0d, 0x7cdcefb7, 0x0bdbdf21, 0x86d3d2d4, 0xf1d4e242,
    0x68ddb3f8, 0x1fda836e, 0x81be16cd, 0xf6b9265b, 0x6fb077e1, 0x18b74777,
    0x88085ae6, 0xff0f6a70, 0x66063bca, 0x11010b5c, 0x8f659eff, 0xf862ae69,
    0x616bffd3, 0x166ccf45, 0xa00ae278, 0xd70dd2ee, 0x4e048354, 0x3903b3c2,
    0xa7672661, 0xd06016f7, 0x4969474d, 0x3e6e77db, 0xaed16a4a, 0xd9d65adc,
    0x40df0b66, 0x37d83bf0, 0xa9bcae53, 0xdebb9ec5, 0x47b2cf7f, 0x30b5ffe9,
    0xbdbdf21c, 0xcabac28a, 0x53b39330, 0x24b4a3a6, 0xbad03605, 0xcdd70693,
    0x54de5729, 0x23d967bf, 0xb3667a2e, 0xc4614ab8, 0x5d681b02, 0x2a6f2b94,
    0xb40bbe37, 0xc30c8ea1, 0x5a05df1b, 0x2d02ef8d]"

definition DO_CRC :: "u32 \<Rightarrow> u32 \<Rightarrow> u32" where
  "DO_CRC crc x = crc_table ! unat ((crc XOR x) AND 255) XOR drop_bit 8 crc"

text \<open>The loops of \<open>crc32_no_comp\<close>: bytes up to an aligned address, words, remaining bytes.\<close>

fun crc_align :: "u32 \<Rightarrow> mem \<Rightarrow> ptr \<Rightarrow> nat \<Rightarrow> (u32 \<times> ptr \<times> nat) option" where
  "crc_align crc m p 0 = Some (crc, p, 0)"
| "crc_align crc m p (Suc n) =
     do { c \<leftarrow> rd m p;
          let crc' = DO_CRC crc (ucast (byte_of c));
          if n \<noteq> 0 \<and> Suc p mod 4 \<noteq> 0 then crc_align crc' m (Suc p) n else Some (crc', Suc p, n) }"

fun crc_words :: "u32 \<Rightarrow> mem \<Rightarrow> ptr \<Rightarrow> nat \<Rightarrow> u32 option" where
  "crc_words crc m p 0 = Some crc"
| "crc_words crc m p (Suc n) =
     do { w \<leftarrow> ld32 m p;
          crc_words (DO_CRC (DO_CRC (DO_CRC (DO_CRC (crc XOR w) 0) 0) 0) 0) m (p + 4) n }"

fun crc_bytes :: "u32 \<Rightarrow> mem \<Rightarrow> ptr \<Rightarrow> nat \<Rightarrow> u32 option" where
  "crc_bytes crc m p 0 = Some crc"
| "crc_bytes crc m p (Suc n) =
     do { c \<leftarrow> rd m p; crc_bytes (DO_CRC crc (ucast (byte_of c))) m (Suc p) n }"

definition crc32_no_comp :: "u32 \<Rightarrow> mem \<Rightarrow> ptr \<Rightarrow> nat \<Rightarrow> u32 option" where
  "crc32_no_comp crc m p len =
     do { (crc1, b, n) \<leftarrow> (if p mod 4 \<noteq> 0 \<and> len \<noteq> 0 then crc_align crc m p len else Some (crc, p, len));
          crc2 \<leftarrow> crc_words crc1 m b (n div 4);
          crc_bytes crc2 m (b + 4 * (n div 4)) (n mod 4) }"

definition crc32 :: "u32 \<Rightarrow> mem \<Rightarrow> ptr \<Rightarrow> nat \<Rightarrow> u32 option" where
  "crc32 crc m p len = map_option (\<lambda>c. c XOR 0xffffffff) (crc32_no_comp (crc XOR 0xffffffff) m p len)"

text \<open>The variant that serves the watchdog after every chunk.\<close>

function crc32_wd :: "u32 \<Rightarrow> mem \<Rightarrow> ptr \<Rightarrow> nat \<Rightarrow> nat \<Rightarrow> u32 option" where
  "crc32_wd crc m p len chunk_sz =
     (if len = 0 then Some crc
      else if chunk_sz = 0 then None
      else let chunk = min len chunk_sz
           in (case crc32 crc m p chunk of
                 None \<Rightarrow> None
               | Some crc' \<Rightarrow> crc32_wd crc' m (p + chunk) (len - chunk) chunk_sz))"
  by pat_completeness auto
termination
  by (relation "measure (\<lambda>(crc, m, p, len, chunk_sz). len)") auto

declare crc32_wd.simps [simp del]

section \<open>CRC-16 and CRC-7\<close>

definition crc16_tab :: "u16 list" where
  "crc16_tab = [
    0x0000, 0x1021, 0x2042, 0x3063, 0x4084, 0x50a5, 0x60c6, 0x70e7,
    0x8108, 0x9129, 0xa14a, 0xb16b, 0xc18c, 0xd1ad, 0xe1ce, 0xf1ef,
    0x1231, 0x0210, 0x3273, 0x2252, 0x52b5, 0x4294, 0x72f7, 0x62d6,
    0x9339, 0x8318, 0xb37b, 0xa35a, 0xd3bd, 0xc39c, 0xf3ff, 0xe3de,
    0x2462, 0x3443, 0x0420, 0x1401, 0x64e6, 0x74c7, 0x44a4, 0x5485,
    0xa56a, 0xb54b, 0x8528, 0x9509, 0xe5ee, 0xf5cf, 0xc5ac, 0xd58d,
    0x3653, 0x2672, 0x1611, 0x0630, 0x76d7, 0x66f6, 0x5695, 0x46b4,
    0xb75b, 0xa77a, 0x9719, 0x8738, 0xf7df, 0xe7fe, 0xd79d, 0xc7bc,
    0x48c4, 0x58e5, 0x6886, 0x78a7, 0x0840, 0x1861, 0x2802, 0x3823,
    0xc9cc, 0xd9ed, 0xe98e, 0xf9af, 0x8948, 0x9969, 0xa90a, 0xb92b,
    0x5af5, 0x4ad4, 0x7ab7, 0x6a96, 0x1a71, 0x0a50, 0x3a33, 0x2a12,
    0xdbfd, 0xcbdc, 0xfbbf, 0xeb9e, 0x9b79, 0x8b58, 0xbb3b, 0xab1a,
    0x6ca6, 0x7c87, 0x4ce4, 0x5cc5, 0x2c22, 0x3c03, 0x0c60, 0x1c41,
    0xedae, 0xfd8f, 0xcdec, 0xddcd, 0xad2a, 0xbd0b, 0x8d68, 0x9d49,
    0x7e97, 0x6eb6, 0x5ed5, 0x4ef4, 0x3e13, 0x2e32, 0x1e51, 0x0e70,
    0xff9f, 0xefbe, 0xdfdd, 0xcffc, 0xbf1b, 0xaf3a, 0x9f59, 0x8f78,
    0x9188, 0x81a9, 0xb1ca, 0xa1eb, 0xd10c, 0xc12d, 0xf14e, 0xe16f,
    0x1080, 0x00a1, 0x30c2, 0x20e3, 0x5004, 0x4025, 0x7046, 0x6067,
    0x83b9, 0x9398, 0xa3fb, 0xb3da, 0xc33d, 0xd31c, 0xe37f, 0xf35e,
    0x02b1, 0x1290, 0x22f3, 0x32d2, 0x4235, 0x5214, 0x6277, 0x7256,
    0xb5ea, 0xa5cb, 0x95a8, 0x8589, 0xf56e, 0xe54f, 0xd52c, 0xc50d,
    0x34e2, 0x24c3, 0x14a0, 0x0481, 0x7466, 0x6447, 0x5424, 0x4405,
    0xa7db, 0xb7fa, 0x8799, 0x97b8, 0xe75f, 0xf77e, 0xc71d, 0xd73c,
    0x26d3, 0x36f2, 0x0691, 0x16b0, 0x6657, 0x7676, 0x4615, 0x5634,
    0xd94c, 0xc96d, 0xf90e, 0xe92f, 0x99c8, 0x89e9, 0xb98a, 0xa9ab,
    0x5844, 0x4865, 0x7806, 0x6827, 0x18c0, 0x08e1, 0x3882, 0x28a3,
    0xcb7d, 0xdb5c, 0xeb3f, 0xfb1e, 0x8bf9, 0x9bd8, 0xabbb, 0xbb9a,
    0x4a75, 0x5a54, 0x6a37, 0x7a16, 0x0af1, 0x1ad0, 0x2ab3, 0x3a92,
    0xfd2e, 0xed0f, 0xdd6c, 0xcd4d, 0xbdaa, 0xad8b, 0x9de8, 0x8dc9,
    0x7c26, 0x6c07, 0x5c64, 0x4c45, 0x3ca2, 0x2c83, 0x1ce0, 0x0cc1,
    0xef1f, 0xff3e, 0xcf5d, 0xdf7c, 0xaf9b, 0xbfba, 0x8fd9, 0x9ff8,
    0x6e17, 0x7e36, 0x4e55, 0x5e74, 0x2e93, 0x3eb2, 0x0ed1, 0x1ef0]"

fun crc16_loop :: "u16 \<Rightarrow> mem \<Rightarrow> ptr \<Rightarrow> nat \<Rightarrow> u16 option" where
  "crc16_loop cksum m p 0 = Some cksum"
| "crc16_loop cksum m p (Suc n) =
     do { c \<leftarrow> rd m p;
          crc16_loop (crc16_tab ! unat ((drop_bit 8 cksum XOR ucast (byte_of c)) AND 0xff) XOR push_bit 8 cksum)
            m (Suc p) n }"

definition cyg_crc16 :: "mem \<Rightarrow> ptr \<Rightarrow> nat \<Rightarrow> u16 option" where
  "cyg_crc16 m p len = crc16_loop 0 m p len"

definition crc7_syndrome_table :: "u8 list" where
  "crc7_syndrome_table = [
    0x00, 0x09, 0x12, 0x1b, 0x24, 0x2d, 0x36, 0x3f,
    0x48, 0x41, 0x5a, 0x53, 0x6c, 0x65, 0x7e, 0x77,
    0x19, 0x10, 0x0b, 0x02, 0x3d, 0x34, 0x2f, 0x26,
    0x51, 0x58, 0x43, 0x4a, 0x75, 0x7c, 0x67, 0x6e,
    0x32, 0x3b, 0x20, 0x29, 0x16, 0x1f, 0x04, 0x0d,
    0x7a, 0x73, 0x68, 0x61, 0x5e, 0x57, 0x4c, 0x45,
    0x2b, 0x22, 0x39, 0x30, 0x0f, 0x06, 0x1d, 0x14,
    0x63, 0x6a, 0x71, 0x78, 0x47, 0x4e, 0x55, 0x5c,
    0x64, 0x6d, 0x76, 0x7f, 0x40, 0x49, 0x52, 0x5b,
    0x2c, 0x25, 0x3e, 0x37, 0x08, 0x01, 0x1a, 0x13,
    0x7d, 0x74, 0x6f, 0x66, 0x59, 0x50, 0x4b, 0x42,
    0x35, 0x3c, 0x27, 0x2e, 0x11, 0x18, 0x03, 0x0a,
    0x56, 0x5f, 0x44, 0x4d, 0x72, 0x7b, 0x60, 0x69,
    0x1e, 0x17, 0x0c, 0x05, 0x3a, 0x33, 0x28, 0x21,
    0x4f, 0x46, 0x5d, 0x54, 0x6b, 0x62, 0x79, 0x70,
    0x07, 0x0e, 0x15, 0x1c, 0x23, 0x2a, 0x31, 0x38,
    0x41, 0x48, 0x53, 0x5a, 0x65, 0x6c, 0x77, 0x7e,
    0x09, 0x00, 0x1b, 0x12, 0x2d, 0x24, 0x3f, 0x36,
    0x58, 0x51, 0x4a, 0x43, 0x7c, 0x75, 0x6e, 0x67,
    0x10, 0x19, 0x02, 0x0b, 0x34, 0x3d, 0x26, 0x2f,
    0x73, 0x7a, 0x61, 0x68, 0x57, 0x5e, 0x45, 0x4c,
    0x3b, 0x32, 0x29, 0x20, 0x1f, 0x16, 0x0d, 0x04,
    0x6a, 0x63, 0x78, 0x71, 0x4e, 0x47, 0x5c, 0x55,
    0x22, 0x2b, 0x30, 0x39, 0x06, 0x0f, 0x14, 0x1d,
    0x25, 0x2c, 0x37, 0x3e, 0x01, 0x08, 0x13, 0x1a,
    0x6d, 0x64, 0x7f, 0x76, 0x49, 0x40, 0x5b, 0x52,
    0x3c, 0x35, 0x2e, 0x27, 0x18, 0x11, 0x0a, 0x03,
    0x74, 0x7d, 0x66, 0x6f, 0x50, 0x59, 0x42, 0x4b,
    0x17, 0x1e, 0x05, 0x0c, 0x33, 0x3a, 0x21, 0x28,
    0x5f, 0x56, 0x4d, 0x44, 0x7b, 0x72, 0x69, 0x60,
    0x0e, 0x07, 0x1c, 0x15, 0x2a, 0x23, 0x38, 0x31,
    0x46, 0x4f, 0x54, 0x5d, 0x62, 0x6b, 0x70, 0x79]"

text \<open>The index is computed as an \<open>int\<close>; above 255 the table would be read past its end.\<close>

definition crc7_byte :: "u8 \<Rightarrow> u8 \<Rightarrow> u8 option" where
  "crc7_byte crc d =
     (let i = unat (push_bit 1 (ucast crc :: u32) XOR ucast d)
      in if i < 256 then Some (crc7_syndrome_table ! i) else None)"

fun crc7 :: "u8 \<Rightarrow> mem \<Rightarrow> ptr \<Rightarrow> nat \<Rightarrow> u8 option" where
  "crc7 crc m p 0 = Some crc"
| "crc7 crc m p (Suc n) = do { c \<leftarrow> rd m p; crc' \<leftarrow> crc7_byte crc (byte_of c); crc7 crc' m (Suc p) n }"

section \<open>The table\<close>

lemma crc_poly_value: "crc_poly = 0xedb88320"
  by (simp add: crc_poly_def crc_terms_def)

lemma funpow_8: "(f ^^ 8) x = f (f (f (f (f (f (f (f x)))))))"
  by (simp add: numeral_eq_Suc)

lemma upt_256: "[0..<256] = [
    0, 1, 2, 3, 4, 5, 6, 7, 8, 9, 10, 11, 12, 13, 14, 15,
    16, 17, 18, 19, 20, 21, 22, 23, 24, 25, 26, 27, 28, 29, 30, 31,
    32, 33, 34, 35, 36, 37, 38, 39, 40, 41, 42, 43, 44, 45, 46, 47,
    48, 49, 50, 51, 52, 53, 54, 55, 56, 57, 58, 59, 60, 61, 62, 63,
    64, 65, 66, 67, 68, 69, 70, 71, 72, 73, 74, 75, 76, 77, 78, 79,
    80, 81, 82, 83, 84, 85, 86, 87, 88, 89, 90, 91, 92, 93, 94, 95,
    96, 97, 98, 99, 100, 101, 102, 103, 104, 105, 106, 107, 108, 109, 110, 111,
    112, 113, 114, 115, 116, 117, 118, 119, 120, 121, 122, 123, 124, 125, 126, 127,
    128, 129, 130, 131, 132, 133, 134, 135, 136, 137, 138, 139, 140, 141, 142, 143,
    144, 145, 146, 147, 148, 149, 150, 151, 152, 153, 154, 155, 156, 157, 158, 159,
    160, 161, 162, 163, 164, 165, 166, 167, 168, 169, 170, 171, 172, 173, 174, 175,
    176, 177, 178, 179, 180, 181, 182, 183, 184, 185, 186, 187, 188, 189, 190, 191,
    192, 193, 194, 195, 196, 197, 198, 199, 200, 201, 202, 203, 204, 205, 206, 207,
    208, 209, 210, 211, 212, 213, 214, 215, 216, 217, 218, 219, 220, 221, 222, 223,
    224, 225, 226, 227, 228, 229, 230, 231, 232, 233, 234, 235, 236, 237, 238, 239,
    240, 241, 242, 243, 244, 245, 246, 247, 248, 249, 250, 251, 252, 253, 254, 255 :: nat]"
proof -
  have "[0..<256] = 0 # 1 # [2..<256]" by (simp add: upt_conv_Cons)
  then show ?thesis by simp
qed

text \<open>The shift register on natural numbers, for the evaluation of the table.\<close>

definition crc_shift_nat :: "nat \<Rightarrow> nat" where
  "crc_shift_nat c = (if odd c then 0xedb88320 XOR (c div 2) else c div 2)"

lemma crc_shift_nat_simps:
  "crc_shift_nat 0 = 0" "crc_shift_nat (Suc 0) = 0xedb88320"
  "crc_shift_nat (numeral (num.Bit0 n)) = numeral n"
  "crc_shift_nat (numeral (num.Bit1 n)) = 0xedb88320 XOR numeral n"
  by (simp_all add: crc_shift_nat_def)

lemma odd_unat: "odd (unat (c :: 'a::len word)) \<longleftrightarrow> odd c"
proof -
  have "bit (unat c) 0 = bit c 0" by (simp add: bit_unsigned_iff)
  then show ?thesis by (simp add: bit_0)
qed

lemma crc_shift_odd: "crc_shift c = (if odd c then crc_poly XOR drop_bit 1 c else drop_bit 1 c)"
  by (simp add: crc_shift_def and_one_eq odd_iff_mod_2_eq_one)

lemma unat_crc_shift: "unat (crc_shift c) = crc_shift_nat (unat c)"
  by (simp add: crc_shift_odd crc_shift_nat_def crc_poly_value odd_unat unsigned_xor_eq unsigned_drop_bit_eq
      drop_bit_eq_div unat_div)

lemma unat_crc_shift_pow: "unat ((crc_shift ^^ n) c) = (crc_shift_nat ^^ n) (unat c)"
  by (induction n) (auto simp: unat_crc_shift)

lemma crc_table_nat: "map unat crc_table = map (crc_shift_nat ^^ 8) [0..<256]"
proof -
  have "map (crc_shift_nat ^^ 8) [0..<256] = [
    0x00000000, 0x77073096, 0xee0e612c, 0x990951ba, 0x076dc419, 0x706af48f, 0xe963a535, 0x9e6495a3,
    0x0edb8832, 0x79dcb8a4, 0xe0d5e91e, 0x97d2d988, 0x09b64c2b, 0x7eb17cbd, 0xe7b82d07, 0x90bf1d91,
    0x1db71064, 0x6ab020f2, 0xf3b97148, 0x84be41de, 0x1adad47d, 0x6ddde4eb, 0xf4d4b551, 0x83d385c7,
    0x136c9856, 0x646ba8c0, 0xfd62f97a, 0x8a65c9ec, 0x14015c4f, 0x63066cd9, 0xfa0f3d63, 0x8d080df5,
    0x3b6e20c8, 0x4c69105e, 0xd56041e4, 0xa2677172, 0x3c03e4d1, 0x4b04d447, 0xd20d85fd, 0xa50ab56b,
    0x35b5a8fa, 0x42b2986c, 0xdbbbc9d6, 0xacbcf940, 0x32d86ce3, 0x45df5c75, 0xdcd60dcf, 0xabd13d59,
    0x26d930ac, 0x51de003a, 0xc8d75180, 0xbfd06116, 0x21b4f4b5, 0x56b3c423, 0xcfba9599, 0xb8bda50f,
    0x2802b89e, 0x5f058808, 0xc60cd9b2, 0xb10be924, 0x2f6f7c87, 0x58684c11, 0xc1611dab, 0xb6662d3d,
    0x76dc4190, 0x01db7106, 0x98d220bc, 0xefd5102a, 0x71b18589, 0x06b6b51f, 0x9fbfe4a5, 0xe8b8d433,
    0x7807c9a2, 0x0f00f934, 0x9609a88e, 0xe10e9818, 0x7f6a0dbb, 0x086d3d2d, 0x91646c97, 0xe6635c01,
    0x6b6b51f4, 0x1c6c6162, 0x856530d8, 0xf262004e, 0x6c0695ed, 0x1b01a57b, 0x8208f4c1, 0xf50fc457,
    0x65b0d9c6, 0x12b7e950, 0x8bbeb8ea, 0xfcb9887c, 0x62dd1ddf, 0x15da2d49, 0x8cd37cf3, 0xfbd44c65,
    0x4db26158, 0x3ab551ce, 0xa3bc0074, 0xd4bb30e2, 0x4adfa541, 0x3dd895d7, 0xa4d1c46d, 0xd3d6f4fb,
    0x4369e96a, 0x346ed9fc, 0xad678846, 0xda60b8d0, 0x44042d73, 0x33031de5, 0xaa0a4c5f, 0xdd0d7cc9,
    0x5005713c, 0x270241aa, 0xbe0b1010, 0xc90c2086, 0x5768b525, 0x206f85b3, 0xb966d409, 0xce61e49f,
    0x5edef90e, 0x29d9c998, 0xb0d09822, 0xc7d7a8b4, 0x59b33d17, 0x2eb40d81, 0xb7bd5c3b, 0xc0ba6cad,
    0xedb88320, 0x9abfb3b6, 0x03b6e20c, 0x74b1d29a, 0xead54739, 0x9dd277af, 0x04db2615, 0x73dc1683,
    0xe3630b12, 0x94643b84, 0x0d6d6a3e, 0x7a6a5aa8, 0xe40ecf0b, 0x9309ff9d, 0x0a00ae27, 0x7d079eb1,
    0xf00f9344, 0x8708a3d2, 0x1e01f268, 0x6906c2fe, 0xf762575d, 0x806567cb, 0x196c3671, 0x6e6b06e7,
    0xfed41b76, 0x89d32be0, 0x10da7a5a, 0x67dd4acc, 0xf9b9df6f, 0x8ebeeff9, 0x17b7be43, 0x60b08ed5,
    0xd6d6a3e8, 0xa1d1937e, 0x38d8c2c4, 0x4fdff252, 0xd1bb67f1, 0xa6bc5767, 0x3fb506dd, 0x48b2364b,
    0xd80d2bda, 0xaf0a1b4c, 0x36034af6, 0x41047a60, 0xdf60efc3, 0xa867df55, 0x316e8eef, 0x4669be79,
    0xcb61b38c, 0xbc66831a, 0x256fd2a0, 0x5268e236, 0xcc0c7795, 0xbb0b4703, 0x220216b9, 0x5505262f,
    0xc5ba3bbe, 0xb2bd0b28, 0x2bb45a92, 0x5cb36a04, 0xc2d7ffa7, 0xb5d0cf31, 0x2cd99e8b, 0x5bdeae1d,
    0x9b64c2b0, 0xec63f226, 0x756aa39c, 0x026d930a, 0x9c0906a9, 0xeb0e363f, 0x72076785, 0x05005713,
    0x95bf4a82, 0xe2b87a14, 0x7bb12bae, 0x0cb61b38, 0x92d28e9b, 0xe5d5be0d, 0x7cdcefb7, 0x0bdbdf21,
    0x86d3d2d4, 0xf1d4e242, 0x68ddb3f8, 0x1fda836e, 0x81be16cd, 0xf6b9265b, 0x6fb077e1, 0x18b74777,
    0x88085ae6, 0xff0f6a70, 0x66063bca, 0x11010b5c, 0x8f659eff, 0xf862ae69, 0x616bffd3, 0x166ccf45,
    0xa00ae278, 0xd70dd2ee, 0x4e048354, 0x3903b3c2, 0xa7672661, 0xd06016f7, 0x4969474d, 0x3e6e77db,
    0xaed16a4a, 0xd9d65adc, 0x40df0b66, 0x37d83bf0, 0xa9bcae53, 0xdebb9ec5, 0x47b2cf7f, 0x30b5ffe9,
    0xbdbdf21c, 0xcabac28a, 0x53b39330, 0x24b4a3a6, 0xbad03605, 0xcdd70693, 0x54de5729, 0x23d967bf,
    0xb3667a2e, 0xc4614ab8, 0x5d681b02, 0x2a6f2b94, 0xb40bbe37, 0xc30c8ea1, 0x5a05df1b, 0x2d02ef8d]"
    by (simp add: crc_shift_nat_simps funpow_8 upt_256)
  moreover have "map unat crc_table = [
    0x00000000, 0x77073096, 0xee0e612c, 0x990951ba, 0x076dc419, 0x706af48f, 0xe963a535, 0x9e6495a3,
    0x0edb8832, 0x79dcb8a4, 0xe0d5e91e, 0x97d2d988, 0x09b64c2b, 0x7eb17cbd, 0xe7b82d07, 0x90bf1d91,
    0x1db71064, 0x6ab020f2, 0xf3b97148, 0x84be41de, 0x1adad47d, 0x6ddde4eb, 0xf4d4b551, 0x83d385c7,
    0x136c9856, 0x646ba8c0, 0xfd62f97a, 0x8a65c9ec, 0x14015c4f, 0x63066cd9, 0xfa0f3d63, 0x8d080df5,
    0x3b6e20c8, 0x4c69105e, 0xd56041e4, 0xa2677172, 0x3c03e4d1, 0x4b04d447, 0xd20d85fd, 0xa50ab56b,
    0x35b5a8fa, 0x42b2986c, 0xdbbbc9d6, 0xacbcf940, 0x32d86ce3, 0x45df5c75, 0xdcd60dcf, 0xabd13d59,
    0x26d930ac, 0x51de003a, 0xc8d75180, 0xbfd06116, 0x21b4f4b5, 0x56b3c423, 0xcfba9599, 0xb8bda50f,
    0x2802b89e, 0x5f058808, 0xc60cd9b2, 0xb10be924, 0x2f6f7c87, 0x58684c11, 0xc1611dab, 0xb6662d3d,
    0x76dc4190, 0x01db7106, 0x98d220bc, 0xefd5102a, 0x71b18589, 0x06b6b51f, 0x9fbfe4a5, 0xe8b8d433,
    0x7807c9a2, 0x0f00f934, 0x9609a88e, 0xe10e9818, 0x7f6a0dbb, 0x086d3d2d, 0x91646c97, 0xe6635c01,
    0x6b6b51f4, 0x1c6c6162, 0x856530d8, 0xf262004e, 0x6c0695ed, 0x1b01a57b, 0x8208f4c1, 0xf50fc457,
    0x65b0d9c6, 0x12b7e950, 0x8bbeb8ea, 0xfcb9887c, 0x62dd1ddf, 0x15da2d49, 0x8cd37cf3, 0xfbd44c65,
    0x4db26158, 0x3ab551ce, 0xa3bc0074, 0xd4bb30e2, 0x4adfa541, 0x3dd895d7, 0xa4d1c46d, 0xd3d6f4fb,
    0x4369e96a, 0x346ed9fc, 0xad678846, 0xda60b8d0, 0x44042d73, 0x33031de5, 0xaa0a4c5f, 0xdd0d7cc9,
    0x5005713c, 0x270241aa, 0xbe0b1010, 0xc90c2086, 0x5768b525, 0x206f85b3, 0xb966d409, 0xce61e49f,
    0x5edef90e, 0x29d9c998, 0xb0d09822, 0xc7d7a8b4, 0x59b33d17, 0x2eb40d81, 0xb7bd5c3b, 0xc0ba6cad,
    0xedb88320, 0x9abfb3b6, 0x03b6e20c, 0x74b1d29a, 0xead54739, 0x9dd277af, 0x04db2615, 0x73dc1683,
    0xe3630b12, 0x94643b84, 0x0d6d6a3e, 0x7a6a5aa8, 0xe40ecf0b, 0x9309ff9d, 0x0a00ae27, 0x7d079eb1,
    0xf00f9344, 0x8708a3d2, 0x1e01f268, 0x6906c2fe, 0xf762575d, 0x806567cb, 0x196c3671, 0x6e6b06e7,
    0xfed41b76, 0x89d32be0, 0x10da7a5a, 0x67dd4acc, 0xf9b9df6f, 0x8ebeeff9, 0x17b7be43, 0x60b08ed5,
    0xd6d6a3e8, 0xa1d1937e, 0x38d8c2c4, 0x4fdff252, 0xd1bb67f1, 0xa6bc5767, 0x3fb506dd, 0x48b2364b,
    0xd80d2bda, 0xaf0a1b4c, 0x36034af6, 0x41047a60, 0xdf60efc3, 0xa867df55, 0x316e8eef, 0x4669be79,
    0xcb61b38c, 0xbc66831a, 0x256fd2a0, 0x5268e236, 0xcc0c7795, 0xbb0b4703, 0x220216b9, 0x5505262f,
    0xc5ba3bbe, 0xb2bd0b28, 0x2bb45a92, 0x5cb36a04, 0xc2d7ffa7, 0xb5d0cf31, 0x2cd99e8b, 0x5bdeae1d,
    0x9b64c2b0, 0xec63f226, 0x756aa39c, 0x026d930a, 0x9c0906a9, 0xeb0e363f, 0x72076785, 0x05005713,
    0x95bf4a82, 0xe2b87a14, 0x7bb12bae, 0x0cb61b38, 0x92d28e9b, 0xe5d5be0d, 0x7cdcefb7, 0x0bdbdf21,
    0x86d3d2d4, 0xf1d4e242, 0x68ddb3f8, 0x1fda836e, 0x81be16cd, 0xf6b9265b, 0x6fb077e1, 0x18b74777,
    0x88085ae6, 0xff0f6a70, 0x66063bca, 0x11010b5c, 0x8f659eff, 0xf862ae69, 0x616bffd3, 0x166ccf45,
    0xa00ae278, 0xd70dd2ee, 0x4e048354, 0x3903b3c2, 0xa7672661, 0xd06016f7, 0x4969474d, 0x3e6e77db,
    0xaed16a4a, 0xd9d65adc, 0x40df0b66, 0x37d83bf0, 0xa9bcae53, 0xdebb9ec5, 0x47b2cf7f, 0x30b5ffe9,
    0xbdbdf21c, 0xcabac28a, 0x53b39330, 0x24b4a3a6, 0xbad03605, 0xcdd70693, 0x54de5729, 0x23d967bf,
    0xb3667a2e, 0xc4614ab8, 0x5d681b02, 0x2a6f2b94, 0xb40bbe37, 0xc30c8ea1, 0x5a05df1b, 0x2d02ef8d]"
    by (simp add: crc_table_def)
  ultimately show ?thesis by simp
qed

lemma crc_table_made: "crc_table = make_crc_table"
proof -
  have "map unat make_crc_table = map (crc_shift_nat ^^ 8) [0..<256]"
    by (auto simp: make_crc_table_def unat_crc_shift_pow unat_of_nat)
  then have "map unat crc_table = map unat make_crc_table" by (simp add: crc_table_nat)
  then show ?thesis by (simp add: inj_map_eq_map inj_on_def unsigned_word_eqI)
qed

section \<open>Word-wise, byte-wise and bit-wise\<close>

text \<open>The reference: add a byte to the register and shift it eight times.\<close>

definition crc_byte :: "u32 \<Rightarrow> u8 \<Rightarrow> u32" where
  "crc_byte c b = (crc_shift ^^ 8) (c XOR ucast b)"

lemma crc_shift_xor: "crc_shift (a XOR b) = crc_shift a XOR crc_shift b"
proof -
  have "odd (a XOR b) \<longleftrightarrow> odd a \<noteq> odd b" by (metis bit_0 bit_xor_iff)
  then show ?thesis by (simp add: crc_shift_odd drop_bit_xor ac_simps)
qed

lemma crc_shift_pow_xor: "(crc_shift ^^ n) (a XOR b) = (crc_shift ^^ n) a XOR (crc_shift ^^ n) b"
  by (induction n) (auto simp: crc_shift_xor)

lemma crc_shift_pow_high: "take_bit n c = 0 \<Longrightarrow> (crc_shift ^^ n) c = drop_bit n c"
proof (induction n arbitrary: c)
  case (Suc n)
  have low: "\<not> bit c i" if "i < Suc n" for i
    using Suc.prems that by (metis bit_0_eq bit_take_bit_iff bot_apply bot_bool_def)
  then have "even c" by (metis bit_0 zero_less_Suc)
  moreover have "take_bit n (drop_bit 1 c) = 0"
    by (rule bit_eqI) (use low in \<open>auto simp: bit_simps\<close>)
  ultimately show ?case
    using Suc.IH [of "drop_bit 1 c"] by (simp add: crc_shift_odd funpow_Suc_right del: funpow.simps)
qed simp

lemma crc_table_nth: "i < 256 \<Longrightarrow> crc_table ! i = (crc_shift ^^ 8) (word_of_nat i)"
  by (simp add: crc_table_made make_crc_table_def)

lemma DO_CRC_shift:
  assumes "drop_bit 8 x = 0"
  shows "DO_CRC crc x = (crc_shift ^^ 8) (crc XOR x)"
proof -
  let ?y = "crc XOR x"
  have "?y AND 255 = take_bit 8 ?y" by (simp add: take_bit_eq_mask mask_eq_exp_minus_1)
  moreover have "unat (take_bit 8 v) < 256" for v :: u32
    using take_bit_nat_less_exp [of 8 "unat v"] by (simp add: unsigned_take_bit_eq)
  ultimately have tab: "crc_table ! unat (?y AND 255) = (crc_shift ^^ 8) (take_bit 8 ?y)"
    by (simp add: crc_table_nth del: take_bit_xor)
  have split: "?y = take_bit 8 ?y XOR push_bit 8 (drop_bit 8 ?y)"
  proof (rule bit_eqI)
    fix n show "bit ?y n \<longleftrightarrow> bit (take_bit 8 ?y XOR push_bit 8 (drop_bit 8 ?y)) n"
      by (cases "n < 8") (auto simp: bit_simps dest: bit_imp_le_length)
  qed
  have "take_bit 8 (push_bit 8 (drop_bit 8 ?y)) = 0" by (rule bit_eqI) (auto simp: bit_simps)
  then have "(crc_shift ^^ 8) (push_bit 8 (drop_bit 8 ?y)) = drop_bit 8 (push_bit 8 (drop_bit 8 ?y))"
    by (rule crc_shift_pow_high)
  also have "\<dots> = drop_bit 8 ?y" by (rule bit_eqI) (auto simp: bit_simps dest: bit_imp_le_length)
  also have "\<dots> = drop_bit 8 crc" using assms by (simp add: drop_bit_xor)
  finally show ?thesis
    unfolding DO_CRC_def tab by (subst (2) split) (simp only: crc_shift_pow_xor)
qed

lemma drop_ucast8 [simp]: "drop_bit 8 (ucast (b :: u8) :: u32) = 0"
  by (rule bit_eqI) (auto simp: bit_simps dest: bit_imp_le_length)

lemma DO_CRC_byte: "DO_CRC crc (ucast b) = crc_byte crc b"
  by (simp add: DO_CRC_shift crc_byte_def)

lemma crc_byte_high:
  assumes "take_bit 8 h = 0"
  shows "(crc_shift ^^ 8) ((c XOR ucast b) XOR h) = crc_byte c b XOR drop_bit 8 h"
  using assms crc_shift_pow_xor [of 8 "c XOR ucast b" h] by (simp add: crc_byte_def crc_shift_pow_high)

lemma crc_word:
  fixes b0 b1 b2 b3 :: u8
  assumes "w = ucast b0 OR push_bit 8 (ucast b1) OR push_bit 16 (ucast b2) OR push_bit 24 (ucast b3)"
  shows "DO_CRC (DO_CRC (DO_CRC (DO_CRC (c XOR w) 0) 0) 0) 0 = crc_byte (crc_byte (crc_byte (crc_byte c b0) b1) b2) b3"
proof -
  define w2 :: u32 where "w2 = ucast b2 XOR push_bit 8 (ucast b3)"
  define w1 :: u32 where "w1 = ucast b1 XOR push_bit 8 w2"
  have w: "w = ucast b0 XOR push_bit 8 w1"
    unfolding assms w1_def w2_def by (rule bit_eqI) (auto simp: bit_simps dest: bit_imp_le_length)
  have d1: "drop_bit 8 (push_bit 8 w1) = w1" and d2: "drop_bit 8 (push_bit 8 w2) = w2"
    and d3: "drop_bit 8 (push_bit 8 (ucast b3 :: u32)) = ucast b3"
    unfolding w1_def w2_def by (rule bit_eqI; auto simp: bit_simps dest: bit_imp_le_length)+
  have t: "take_bit 8 (push_bit 8 v) = 0" for v :: u32 by (rule bit_eqI) (auto simp: bit_simps)
  have zero: "DO_CRC v 0 = (crc_shift ^^ 8) v" for v by (simp add: DO_CRC_shift)
  have "DO_CRC (c XOR w) 0 = crc_byte c b0 XOR w1"
    using crc_byte_high [OF t, of c b0 w1] d1 by (simp add: zero w ac_simps)
  moreover have "DO_CRC (v XOR w1) 0 = crc_byte v b1 XOR w2" for v
    using crc_byte_high [OF t, of v b1 w2] d2 by (simp add: zero w1_def ac_simps)
  moreover have "DO_CRC (v XOR w2) 0 = crc_byte v b2 XOR ucast b3" for v
    using crc_byte_high [OF t, of v b2 "ucast b3"] d3 by (simp add: zero w2_def ac_simps)
  ultimately show ?thesis by (simp add: zero crc_byte_def)
qed

abbreviation crc_fold :: "u32 \<Rightarrow> char list \<Rightarrow> u32" where
  "crc_fold c bs \<equiv> foldl (\<lambda>c b. crc_byte c (byte_of b)) c bs"

lemma crc_bytes_fold: "p + n \<le> length m \<Longrightarrow> crc_bytes crc m p n = Some (crc_fold crc (slice m p n))"
  by (induction n arbitrary: crc p) (auto simp: rd_def slice_Suc DO_CRC_byte)

lemma slice_append: "p + i + j \<le> length m \<Longrightarrow> slice m p (i + j) = slice m p i @ slice m (p + i) j"
  by (simp add: slice_def take_add add.commute)

lemma crc_words_fold: "p + 4 * n \<le> length m \<Longrightarrow> crc_words crc m p n = Some (crc_fold crc (slice m p (4 * n)))"
proof (induction n arbitrary: crc p)
  case (Suc n)
  then obtain w where w: "ld32 m p = Some w"
    "w = ucast (byte_of (m ! p)) OR push_bit 8 (ucast (byte_of (m ! (p + 1)))) OR
       push_bit 16 (ucast (byte_of (m ! (p + 2)))) OR push_bit 24 (ucast (byte_of (m ! (p + 3))))"
    by (auto simp: ld32_def)
  have "slice m p (4 * Suc n) = m ! p # m ! (p + 1) # m ! (p + 2) # m ! (p + 3) # slice m (p + 4) (4 * n)"
    using Suc.prems slice_append [of p 4 "4 * n" m] slice_4 [of p m] by simp
  then show ?case using Suc w(1) by (simp add: crc_word [OF w(2)])
qed simp

lemma crc_align_fold:
  assumes "p + n \<le> length m" and "0 < n"
  shows "\<exists>k. 0 < k \<and> k \<le> n \<and> crc_align crc m p n = Some (crc_fold crc (slice m p k), p + k, n - k)"
  using assms
proof (induction n arbitrary: crc p)
  case (Suc n)
  let ?c = "crc_byte crc (byte_of (m ! p))"
  show ?case
  proof (cases "n \<noteq> 0 \<and> Suc p mod 4 \<noteq> 0")
    case True
    then obtain k where "0 < k" "k \<le> n" "crc_align ?c m (Suc p) n = Some (crc_fold ?c (slice m (Suc p) k), Suc p + k, n - k)"
      using Suc.IH [of "Suc p" ?c] Suc.prems by auto
    with True Suc.prems show ?thesis
      by (intro exI [of _ "Suc k"]) (simp add: rd_def DO_CRC_byte slice_Suc)
  next
    case False
    then show ?thesis using Suc.prems
      by (intro exI [of _ 1]) (auto simp: rd_def DO_CRC_byte slice_Suc Let_def)
  qed
qed simp

lemma crc32_no_comp_fold:
  assumes "p + n \<le> length m"
  shows "crc32_no_comp crc m p n = Some (crc_fold crc (slice m p n))"
proof -
  have tail: "do { c \<leftarrow> crc_words crc' m b (k div 4); crc_bytes c m (b + 4 * (k div 4)) (k mod 4) }
      = Some (crc_fold crc' (slice m b k))" if "b + k \<le> length m" for crc' b k
  proof -
    have "k = 4 * (k div 4) + k mod 4" by simp
    then have "slice m b k = slice m b (4 * (k div 4)) @ slice m (b + 4 * (k div 4)) (k mod 4)"
      using slice_append [of b "4 * (k div 4)" "k mod 4" m] that by simp
    then show ?thesis using that by (simp add: crc_words_fold crc_bytes_fold)
  qed
  show ?thesis
  proof (cases "p mod 4 \<noteq> 0 \<and> n \<noteq> 0")
    case True
    then obtain k where k: "0 < k" "k \<le> n" "crc_align crc m p n = Some (crc_fold crc (slice m p k), p + k, n - k)"
      using crc_align_fold [OF assms] by blast
    have "slice m p n = slice m p k @ slice m (p + k) (n - k)"
      using slice_append [of p k "n - k" m] assms k(2) by simp
    then show ?thesis using True k tail [of "p + k" "n - k"] assms by (simp add: crc32_no_comp_def)
  next
    case False
    then show ?thesis using tail [OF assms] by (auto simp: crc32_no_comp_def)
  qed
qed

section \<open>Checksums that detect every error in one byte\<close>

text \<open>A register fed byte by byte, where neither two registers nor two bytes are ever confused.\<close>

locale byte_crc =
  fixes feed :: "'c \<Rightarrow> u8 \<Rightarrow> 'c"
  assumes feed_register: "feed c b = feed d b \<Longrightarrow> c = d"
    and feed_data: "feed c a = feed c b \<Longrightarrow> a = b"
begin

lemma register_kept: "foldl feed c bs = foldl feed d bs \<Longrightarrow> c = d"
  by (induction bs arbitrary: c d) (auto dest: feed_register)

lemma one_byte_error:
  assumes "a \<noteq> b"
  shows "foldl feed c (xs @ a # ys) \<noteq> foldl feed c (xs @ b # ys)"
  using assms feed_data register_kept by fastforce

end

lemma word_xor_cancel: "(a :: 'a::len word) XOR b = a XOR c \<longleftrightarrow> b = c"
  by (metis xor.assoc xor_self_eq xor.left_neutral)

lemma word_half_eq:
  assumes "odd (c :: 'a::len word) \<longleftrightarrow> odd d" and "drop_bit 1 c = drop_bit 1 d"
  shows "c = d"
proof (rule bit_eqI)
  fix n show "bit c n \<longleftrightarrow> bit d n"
  proof (cases n)
    case 0
    then show ?thesis using assms(1) by (simp add: bit_0)
  next
    case (Suc i)
    then show ?thesis using arg_cong [OF assms(2), of "\<lambda>w. bit w i"] by (simp add: bit_drop_bit_eq)
  qed
qed

lemma crc_shift_inj:
  assumes eq: "crc_shift c = crc_shift d"
  shows "c = d"
proof -
  have top: "bit (crc_shift v) 31 \<longleftrightarrow> odd v" for v
  proof -
    have "\<not> bit (drop_bit 1 v) 31" by (auto simp: bit_simps dest: bit_imp_le_length)
    moreover have "bit (0xedb88320 :: u32) 31" by simp
    ultimately show ?thesis by (simp only: crc_shift_odd crc_poly_value bit_xor_iff if_distrib [of "\<lambda>w. bit w 31"]) simp
  qed
  then have par: "odd c \<longleftrightarrow> odd d" using eq by metis
  then have "drop_bit 1 c = drop_bit 1 d"
    using eq by (auto simp: crc_shift_odd word_xor_cancel split: if_splits)
  with par show "c = d" by (rule word_half_eq)
qed

lemma crc_shift_pow_inj: "(crc_shift ^^ n) c = (crc_shift ^^ n) d \<Longrightarrow> c = d"
  by (induction n arbitrary: c d) (auto dest: crc_shift_inj)

lemma ucast8_inj: "(ucast (a :: u8) :: u32) = ucast b \<Longrightarrow> a = b"
proof -
  have "ucast (ucast v :: u32) = v" for v :: u8 by (rule bit_eqI) (auto simp: bit_simps)
  then show "(ucast a :: u32) = ucast b \<Longrightarrow> a = b" by metis
qed

interpretation crc32: byte_crc crc_byte
proof
  show "c = d" if "crc_byte c b = crc_byte d b" for c d b
    using crc_shift_pow_inj [OF that [unfolded crc_byte_def]] by (simp add: xor.commute [of _ "ucast b"] word_xor_cancel)
  show "a = b" if "crc_byte c a = crc_byte c b" for a b c
    using crc_shift_pow_inj [OF that [unfolded crc_byte_def]] by (simp add: word_xor_cancel ucast8_inj)
qed

lemma crc_fold_bytes: "crc_fold c bs = foldl crc_byte c (map byte_of bs)"
  by (simp add: foldl_map)

text \<open>C33. The table of \<^verbatim>\<open>crc32.c\<close> is the one its generator makes from the polynomial, and \<open>crc32\<close>, which works
  a word at a time on aligned data, is the bit-serial shift register fed with the bytes in order,
  whatever the alignment of the block.\<close>

theorem crc32_bitwise:
  assumes "p + n \<le> length m"
  shows "crc_table = make_crc_table \<and>
    crc32 crc m p n =
      Some (foldl (\<lambda>c b. (crc_shift ^^ 8) (c XOR ucast (byte_of b))) (crc XOR 0xffffffff) (slice m p n) XOR 0xffffffff)"
  using crc32_no_comp_fold [OF assms] by (simp add: crc_table_made crc32_def crc_byte_def)

theorem crc32_bitwise_witness:
  "crc32 0 ''aZ'' 1 1 =
     Some (foldl (\<lambda>c b. (crc_shift ^^ 8) (c XOR ucast (byte_of b))) (0 XOR 0xffffffff) ''Z'' XOR 0xffffffff)"
  using crc32_bitwise [of 1 1 "''aZ''" 0] by (simp add: slice_def)

lemma crc32_fold:
  "p + n \<le> length m \<Longrightarrow> crc32 crc m p n = Some (crc_fold (crc XOR 0xffffffff) (slice m p n) XOR 0xffffffff)"
  by (simp add: crc32_def crc32_no_comp_fold)

lemma crc32_append:
  assumes "p + i + j \<le> length m"
  shows "do { c \<leftarrow> crc32 crc m p i; crc32 c m (p + i) j } = crc32 crc m p (i + j)"
  using assms slice_append [OF assms] by (simp add: crc32_fold xor.assoc)

text \<open>A checksum can be computed in pieces: \<open>crc32\<close> continued on the following block is \<open>crc32\<close> of both,
  and the variant \<open>crc32_wd\<close>, which serves the watchdog after every chunk, returns the same value.\<close>

lemma crc32_pieces:
  assumes "p + len \<le> length m" and "0 < chunk_sz"
  shows "crc32_wd crc m p len chunk_sz = crc32 crc m p len"
  using assms(1)
proof (induction len arbitrary: p crc rule: less_induct)
  case (less len)
  show ?case
  proof (cases "len = 0")
    case True
    then show ?thesis using less.prems by (simp add: crc32_wd.simps crc32_fold slice_def xor.assoc)
  next
    case False
    let ?k = "min len chunk_sz"
    have k: "0 < ?k" "?k \<le> len" using False assms(2) by auto
    obtain c where c: "crc32 crc m p ?k = Some c" using less.prems k by (simp add: crc32_fold)
    have "crc32_wd c m (p + ?k) (len - ?k) chunk_sz = crc32 c m (p + ?k) (len - ?k)"
      using less.IH [of "len - ?k" "p + ?k" c] less.prems k by simp
    moreover have "crc32 c m (p + ?k) (len - ?k) = crc32 crc m p len"
      using crc32_append [of p ?k "len - ?k" m crc] less.prems k c by simp
    ultimately show ?thesis using False assms(2) c by (subst crc32_wd.simps) (simp add: Let_def)
  qed
qed

lemma crc_fold_one_byte: "a \<noteq> b \<Longrightarrow> crc_fold crc (xs @ a # ys) \<noteq> crc_fold crc (xs @ b # ys)"
proof -
  assume "a \<noteq> b"
  then have "byte_of a \<noteq> byte_of b" by (metis char_byte_of)
  from crc32.one_byte_error [OF this, of crc "map byte_of xs" "map byte_of ys"]
  show "crc_fold crc (xs @ a # ys) \<noteq> crc_fold crc (xs @ b # ys)" by (simp add: crc_fold_bytes)
qed

text \<open>\<open>crc32\<close> detects every error confined to one byte: two blocks that differ in exactly one byte never
  have the same checksum.\<close>

lemma crc32_one_byte_error:
  assumes "p + length (xs @ a # ys) \<le> length m" and "slice m p (length (xs @ a # ys)) = xs @ a # ys"
    and "q + length (xs @ b # ys) \<le> length m'" and "slice m' q (length (xs @ b # ys)) = xs @ b # ys"
    and "a \<noteq> b"
  shows "crc32 crc m p (length (xs @ a # ys)) \<noteq> crc32 crc m' q (length (xs @ b # ys))"
proof -
  have "crc_fold (crc XOR 0xffffffff) (xs @ a # ys) \<noteq> crc_fold (crc XOR 0xffffffff) (xs @ b # ys)"
    using assms(5) by (rule crc_fold_one_byte)
  then show ?thesis
    using crc32_fold [OF assms(1), of crc] crc32_fold [OF assms(3), of crc] assms(2,4)
    by (simp add: xor.commute [of _ "0xffffffff"] word_xor_cancel)
qed

section \<open>CRC-16 is the shift register of its polynomial\<close>

definition crc16_shift :: "u16 \<Rightarrow> u16" where
  "crc16_shift c = (if bit c 15 then push_bit 1 c XOR 0x1021 else push_bit 1 c)"

definition crc16_byte :: "u16 \<Rightarrow> u8 \<Rightarrow> u16" where
  "crc16_byte c b = (crc16_shift ^^ 8) (c XOR push_bit 8 (ucast b))"

definition crc16_shift_nat :: "nat \<Rightarrow> nat" where
  "crc16_shift_nat c = (if 0x8000 \<le> c then (2 * c - 0x10000) XOR 0x1021 else 2 * c)"

lemma unat_crc16_shift: "unat (crc16_shift c) = crc16_shift_nat (unat c)"
proof -
  have lt: "unat c < 65536" using unsigned_less [of c, where 'a = nat] by simp
  have "bit c 15 \<longleftrightarrow> bit (unat c) 15" by (simp add: bit_unsigned_iff)
  also have "\<dots> \<longleftrightarrow> odd (unat c div 32768)" by (simp add: bit_iff_odd)
  also have "\<dots> \<longleftrightarrow> 32768 \<le> unat c" 
  proof (cases "unat c < 32768")
    case False
    then have "unat c div 32768 = 1" using lt by (intro div_nat_eqI) auto
    then show ?thesis using False by simp
  qed simp
  finally have top: "bit c 15 \<longleftrightarrow> 32768 \<le> unat c" .
  have "unat (push_bit 1 c) = 2 * unat c mod 65536"
    by (simp add: unat_word_ariths mult.commute)
  also have "\<dots> = (if 32768 \<le> unat c then 2 * unat c - 65536 else 2 * unat c)"
    using lt by (simp add: mod_if)
  finally show ?thesis by (simp add: crc16_shift_def crc16_shift_nat_def top unsigned_xor_eq)
qed

lemma unat_crc16_shift_pow: "unat ((crc16_shift ^^ n) c) = (crc16_shift_nat ^^ n) (unat c)"
  by (induction n) (auto simp: unat_crc16_shift)

definition crc16_entry :: "nat \<Rightarrow> nat" where
  "crc16_entry i = (crc16_shift_nat ^^ 8) (i * 256)"

lemma crc16_shift_nat_simps:
  "crc16_shift_nat 0 = 0"
  "crc16_shift_nat (numeral n) = (if 0x8000 \<le> (numeral n :: nat) then (2 * numeral n - 0x10000) XOR 0x1021 else 2 * numeral n)"
  by (simp_all add: crc16_shift_nat_def)

lemma crc16_entry_simps:
  "crc16_entry 0 = 0" "crc16_entry (Suc 0) = (crc16_shift_nat ^^ 8) 256"
  "crc16_entry (numeral n) = (crc16_shift_nat ^^ 8) (numeral n * 256)"
  by (simp_all add: crc16_entry_def funpow_8 crc16_shift_nat_simps(1))

lemma crc16_tab_nth:
  assumes "i < 256"
  shows "crc16_tab ! i = (crc16_shift ^^ 8) (word_of_nat (i * 256))"
proof -
  have "map crc16_entry [0..<256] = [
    0x0000, 0x1021, 0x2042, 0x3063, 0x4084, 0x50a5, 0x60c6, 0x70e7, 0x8108, 0x9129, 0xa14a, 0xb16b,
    0xc18c, 0xd1ad, 0xe1ce, 0xf1ef, 0x1231, 0x0210, 0x3273, 0x2252, 0x52b5, 0x4294, 0x72f7, 0x62d6,
    0x9339, 0x8318, 0xb37b, 0xa35a, 0xd3bd, 0xc39c, 0xf3ff, 0xe3de, 0x2462, 0x3443, 0x0420, 0x1401,
    0x64e6, 0x74c7, 0x44a4, 0x5485, 0xa56a, 0xb54b, 0x8528, 0x9509, 0xe5ee, 0xf5cf, 0xc5ac, 0xd58d,
    0x3653, 0x2672, 0x1611, 0x0630, 0x76d7, 0x66f6, 0x5695, 0x46b4, 0xb75b, 0xa77a, 0x9719, 0x8738,
    0xf7df, 0xe7fe, 0xd79d, 0xc7bc, 0x48c4, 0x58e5, 0x6886, 0x78a7, 0x0840, 0x1861, 0x2802, 0x3823,
    0xc9cc, 0xd9ed, 0xe98e, 0xf9af, 0x8948, 0x9969, 0xa90a, 0xb92b, 0x5af5, 0x4ad4, 0x7ab7, 0x6a96,
    0x1a71, 0x0a50, 0x3a33, 0x2a12, 0xdbfd, 0xcbdc, 0xfbbf, 0xeb9e, 0x9b79, 0x8b58, 0xbb3b, 0xab1a,
    0x6ca6, 0x7c87, 0x4ce4, 0x5cc5, 0x2c22, 0x3c03, 0x0c60, 0x1c41, 0xedae, 0xfd8f, 0xcdec, 0xddcd,
    0xad2a, 0xbd0b, 0x8d68, 0x9d49, 0x7e97, 0x6eb6, 0x5ed5, 0x4ef4, 0x3e13, 0x2e32, 0x1e51, 0x0e70,
    0xff9f, 0xefbe, 0xdfdd, 0xcffc, 0xbf1b, 0xaf3a, 0x9f59, 0x8f78, 0x9188, 0x81a9, 0xb1ca, 0xa1eb,
    0xd10c, 0xc12d, 0xf14e, 0xe16f, 0x1080, 0x00a1, 0x30c2, 0x20e3, 0x5004, 0x4025, 0x7046, 0x6067,
    0x83b9, 0x9398, 0xa3fb, 0xb3da, 0xc33d, 0xd31c, 0xe37f, 0xf35e, 0x02b1, 0x1290, 0x22f3, 0x32d2,
    0x4235, 0x5214, 0x6277, 0x7256, 0xb5ea, 0xa5cb, 0x95a8, 0x8589, 0xf56e, 0xe54f, 0xd52c, 0xc50d,
    0x34e2, 0x24c3, 0x14a0, 0x0481, 0x7466, 0x6447, 0x5424, 0x4405, 0xa7db, 0xb7fa, 0x8799, 0x97b8,
    0xe75f, 0xf77e, 0xc71d, 0xd73c, 0x26d3, 0x36f2, 0x0691, 0x16b0, 0x6657, 0x7676, 0x4615, 0x5634,
    0xd94c, 0xc96d, 0xf90e, 0xe92f, 0x99c8, 0x89e9, 0xb98a, 0xa9ab, 0x5844, 0x4865, 0x7806, 0x6827,
    0x18c0, 0x08e1, 0x3882, 0x28a3, 0xcb7d, 0xdb5c, 0xeb3f, 0xfb1e, 0x8bf9, 0x9bd8, 0xabbb, 0xbb9a,
    0x4a75, 0x5a54, 0x6a37, 0x7a16, 0x0af1, 0x1ad0, 0x2ab3, 0x3a92, 0xfd2e, 0xed0f, 0xdd6c, 0xcd4d,
    0xbdaa, 0xad8b, 0x9de8, 0x8dc9, 0x7c26, 0x6c07, 0x5c64, 0x4c45, 0x3ca2, 0x2c83, 0x1ce0, 0x0cc1,
    0xef1f, 0xff3e, 0xcf5d, 0xdf7c, 0xaf9b, 0xbfba, 0x8fd9, 0x9ff8, 0x6e17, 0x7e36, 0x4e55, 0x5e74,
    0x2e93, 0x3eb2, 0x0ed1, 0x1ef0]"
    by (simp add: crc16_entry_simps crc16_shift_nat_simps funpow_8 upt_256)
  moreover have "map unat crc16_tab = [
    0x0000, 0x1021, 0x2042, 0x3063, 0x4084, 0x50a5, 0x60c6, 0x70e7, 0x8108, 0x9129, 0xa14a, 0xb16b,
    0xc18c, 0xd1ad, 0xe1ce, 0xf1ef, 0x1231, 0x0210, 0x3273, 0x2252, 0x52b5, 0x4294, 0x72f7, 0x62d6,
    0x9339, 0x8318, 0xb37b, 0xa35a, 0xd3bd, 0xc39c, 0xf3ff, 0xe3de, 0x2462, 0x3443, 0x0420, 0x1401,
    0x64e6, 0x74c7, 0x44a4, 0x5485, 0xa56a, 0xb54b, 0x8528, 0x9509, 0xe5ee, 0xf5cf, 0xc5ac, 0xd58d,
    0x3653, 0x2672, 0x1611, 0x0630, 0x76d7, 0x66f6, 0x5695, 0x46b4, 0xb75b, 0xa77a, 0x9719, 0x8738,
    0xf7df, 0xe7fe, 0xd79d, 0xc7bc, 0x48c4, 0x58e5, 0x6886, 0x78a7, 0x0840, 0x1861, 0x2802, 0x3823,
    0xc9cc, 0xd9ed, 0xe98e, 0xf9af, 0x8948, 0x9969, 0xa90a, 0xb92b, 0x5af5, 0x4ad4, 0x7ab7, 0x6a96,
    0x1a71, 0x0a50, 0x3a33, 0x2a12, 0xdbfd, 0xcbdc, 0xfbbf, 0xeb9e, 0x9b79, 0x8b58, 0xbb3b, 0xab1a,
    0x6ca6, 0x7c87, 0x4ce4, 0x5cc5, 0x2c22, 0x3c03, 0x0c60, 0x1c41, 0xedae, 0xfd8f, 0xcdec, 0xddcd,
    0xad2a, 0xbd0b, 0x8d68, 0x9d49, 0x7e97, 0x6eb6, 0x5ed5, 0x4ef4, 0x3e13, 0x2e32, 0x1e51, 0x0e70,
    0xff9f, 0xefbe, 0xdfdd, 0xcffc, 0xbf1b, 0xaf3a, 0x9f59, 0x8f78, 0x9188, 0x81a9, 0xb1ca, 0xa1eb,
    0xd10c, 0xc12d, 0xf14e, 0xe16f, 0x1080, 0x00a1, 0x30c2, 0x20e3, 0x5004, 0x4025, 0x7046, 0x6067,
    0x83b9, 0x9398, 0xa3fb, 0xb3da, 0xc33d, 0xd31c, 0xe37f, 0xf35e, 0x02b1, 0x1290, 0x22f3, 0x32d2,
    0x4235, 0x5214, 0x6277, 0x7256, 0xb5ea, 0xa5cb, 0x95a8, 0x8589, 0xf56e, 0xe54f, 0xd52c, 0xc50d,
    0x34e2, 0x24c3, 0x14a0, 0x0481, 0x7466, 0x6447, 0x5424, 0x4405, 0xa7db, 0xb7fa, 0x8799, 0x97b8,
    0xe75f, 0xf77e, 0xc71d, 0xd73c, 0x26d3, 0x36f2, 0x0691, 0x16b0, 0x6657, 0x7676, 0x4615, 0x5634,
    0xd94c, 0xc96d, 0xf90e, 0xe92f, 0x99c8, 0x89e9, 0xb98a, 0xa9ab, 0x5844, 0x4865, 0x7806, 0x6827,
    0x18c0, 0x08e1, 0x3882, 0x28a3, 0xcb7d, 0xdb5c, 0xeb3f, 0xfb1e, 0x8bf9, 0x9bd8, 0xabbb, 0xbb9a,
    0x4a75, 0x5a54, 0x6a37, 0x7a16, 0x0af1, 0x1ad0, 0x2ab3, 0x3a92, 0xfd2e, 0xed0f, 0xdd6c, 0xcd4d,
    0xbdaa, 0xad8b, 0x9de8, 0x8dc9, 0x7c26, 0x6c07, 0x5c64, 0x4c45, 0x3ca2, 0x2c83, 0x1ce0, 0x0cc1,
    0xef1f, 0xff3e, 0xcf5d, 0xdf7c, 0xaf9b, 0xbfba, 0x8fd9, 0x9ff8, 0x6e17, 0x7e36, 0x4e55, 0x5e74,
    0x2e93, 0x3eb2, 0x0ed1, 0x1ef0]"
    by (simp add: crc16_tab_def)
  ultimately have eq: "map unat crc16_tab = map crc16_entry [0..<256]" by simp
  then have "length crc16_tab = 256" by (metis length_map diff_zero length_upt)
  then have "unat (crc16_tab ! i) = (crc16_shift_nat ^^ 8) (i * 256)"
    using arg_cong [OF eq, of "\<lambda>xs. xs ! i"] assms by (simp add: crc16_entry_def)
  moreover have "unat (word_of_nat (i * 256) :: u16) = i * 256" unfolding unat_of_nat using assms by simp
  ultimately have "unat (crc16_tab ! i) = unat ((crc16_shift ^^ 8) (word_of_nat (i * 256)))"
    by (simp only: unat_crc16_shift_pow)
  then show ?thesis by (rule unsigned_word_eqI)
qed

lemma crc16_shift_xor: "crc16_shift (a XOR b) = crc16_shift a XOR crc16_shift b"
  by (simp add: crc16_shift_def bit_xor_iff push_bit_xor ac_simps)

lemma crc16_shift_pow_xor: "(crc16_shift ^^ n) (a XOR b) = (crc16_shift ^^ n) a XOR (crc16_shift ^^ n) b"
  by (induction n) (auto simp: crc16_shift_xor)

lemma crc16_shift_pow_low:
  "(\<And>i. 16 \<le> i + n \<Longrightarrow> i < 16 \<Longrightarrow> \<not> bit c i) \<Longrightarrow> (crc16_shift ^^ n) c = push_bit n c"
proof (induction n arbitrary: c)
  case (Suc n)
  have "\<not> bit c 15" using Suc.prems [of 15] by simp
  then have "crc16_shift c = push_bit 1 c" by (simp add: crc16_shift_def)
  moreover have "(crc16_shift ^^ n) (push_bit 1 c) = push_bit n (push_bit 1 c)"
    using Suc.prems by (intro Suc.IH) (auto simp: bit_push_bit_iff simp del: push_bit_Suc)
  ultimately show ?case by (simp add: funpow_Suc_right del: funpow.simps)
qed simp

lemma crc16_step:
  "crc16_tab ! unat ((drop_bit 8 c XOR ucast b) AND 0xff) XOR push_bit 8 c = crc16_byte c b"
proof -
  let ?y = "c XOR push_bit 8 (ucast b)"
  have i: "(drop_bit 8 c XOR ucast b) AND 0xff = drop_bit 8 ?y"
  proof -
    have "(0xff :: u16) = mask 8" by (simp add: mask_eq_exp_minus_1)
    then have "(drop_bit 8 c XOR ucast b) AND 0xff = take_bit 8 (drop_bit 8 c XOR ucast b)"
      by (simp only: take_bit_eq_mask)
    also have "\<dots> = drop_bit 8 ?y"
      by (rule bit_eqI) (auto simp: bit_simps dest: bit_imp_le_length)
    finally show ?thesis .
  qed
  have "unat (drop_bit 8 v) < 256" for v :: u16
    using unsigned_less [of v, where 'a = nat] by (simp add: drop_bit_eq_div unat_div less_mult_imp_div_less)
  then have "crc16_tab ! unat (drop_bit 8 ?y) = (crc16_shift ^^ 8) (word_of_nat (unat (drop_bit 8 ?y) * 256))"
    by (intro crc16_tab_nth)
  moreover have "word_of_nat (unat (drop_bit 8 ?y) * 256) = push_bit 8 (drop_bit 8 ?y)"
    by (simp add: push_bit_eq_mult)
  moreover have "(crc16_shift ^^ 8) (take_bit 8 ?y) = push_bit 8 (take_bit 8 ?y)"
    by (rule crc16_shift_pow_low) (auto simp: bit_simps)
  moreover have "push_bit 8 (take_bit 8 ?y) = push_bit 8 c"
    by (rule bit_eqI) (auto simp: bit_simps dest: bit_imp_le_length)
  moreover have "?y = push_bit 8 (drop_bit 8 ?y) XOR take_bit 8 ?y"
  proof (rule bit_eqI)
    fix n show "bit ?y n \<longleftrightarrow> bit (push_bit 8 (drop_bit 8 ?y) XOR take_bit 8 ?y) n"
      by (cases "n < 8") (auto simp: bit_simps dest: bit_imp_le_length)
  qed
  ultimately show ?thesis unfolding i crc16_byte_def by (metis crc16_shift_pow_xor)
qed

lemma crc16_loop_fold:
  "p + n \<le> length m \<Longrightarrow> crc16_loop c m p n = Some (foldl (\<lambda>c b. crc16_byte c (byte_of b)) c (slice m p n))"
  by (induction n arbitrary: c p) (auto simp: rd_def slice_Suc crc16_step)

lemma crc16_shift_inj:
  assumes "crc16_shift c = crc16_shift d"
  shows "c = d"
proof -
  have "bit (crc16_shift v) 0 \<longleftrightarrow> bit v 15" for v
    by (simp add: crc16_shift_def bit_push_bit_iff bit_xor_iff del: push_bit_Suc bit_0)
  then have top: "bit c 15 \<longleftrightarrow> bit d 15" using assms by metis
  then have sh: "push_bit 1 c = push_bit 1 d"
    using assms by (auto simp: crc16_shift_def xor.commute [of _ "0x1021"] word_xor_cancel split: if_splits)
  show ?thesis
  proof (rule bit_eqI)
    fix n assume "possible_bit TYPE(16 word) n"
    then have "n < 16" by simp
    show "bit c n \<longleftrightarrow> bit d n"
      using arg_cong [OF sh, of "\<lambda>w. bit w (Suc n)"] top \<open>n < 16\<close>
      by (cases "n = 15") (auto simp: bit_push_bit_iff simp del: push_bit_Suc)
  qed
qed

lemma crc16_shift_pow_inj: "(crc16_shift ^^ n) c = (crc16_shift ^^ n) d \<Longrightarrow> c = d"
  by (induction n arbitrary: c d) (auto dest: crc16_shift_inj)

interpretation crc16: byte_crc crc16_byte
proof
  show "c = d" if "crc16_byte c b = crc16_byte d b" for c d b
    using crc16_shift_pow_inj [OF that [unfolded crc16_byte_def]]
    by (simp add: xor.commute [of _ "push_bit 8 (ucast b)"] word_xor_cancel)
  show "a = b" if "crc16_byte c a = crc16_byte c b" for a b c
  proof -
    have "drop_bit 8 (push_bit 8 (ucast a :: u16)) = drop_bit 8 (push_bit 8 (ucast b :: u16))"
      using crc16_shift_pow_inj [OF that [unfolded crc16_byte_def]] by (simp add: word_xor_cancel)
    moreover have "ucast (drop_bit 8 (push_bit 8 (ucast v :: u16))) = v" for v :: u8
      by (rule bit_eqI) (auto simp: bit_simps)
    ultimately show ?thesis by metis
  qed
qed

lemma cyg_crc16_fold:
  "cyg_crc16 m 0 (length m) = Some (foldl crc16_byte 0 (map byte_of m))"
  using crc16_loop_fold [of 0 "length m" m 0] by (simp add: cyg_crc16_def slice_def foldl_map)

text \<open>CRC-16, too, detects every error confined to one byte of a message.\<close>

lemma cyg_crc16_one_byte_error:
  assumes "a \<noteq> b"
  shows "cyg_crc16 (xs @ a # ys) 0 (length (xs @ a # ys)) \<noteq> cyg_crc16 (xs @ b # ys) 0 (length (xs @ b # ys))"
proof -
  have "byte_of a \<noteq> byte_of b" using assms by (metis char_byte_of)
  from crc16.one_byte_error [OF this, of 0 "map byte_of xs" "map byte_of ys"]
  show ?thesis by (simp only: cyg_crc16_fold) simp
qed

section \<open>CRC-7 stays inside its table\<close>

lemma crc7_entry: "i < 256 \<Longrightarrow> unat (crc7_syndrome_table ! i) < 128"
proof -
  have "length crc7_syndrome_table = 256" "list_all (\<lambda>x. unat x < 128) crc7_syndrome_table"
    by (simp_all add: crc7_syndrome_table_def)
  then show "i < 256 \<Longrightarrow> unat (crc7_syndrome_table ! i) < 128" by (simp add: list_all_length)
qed

lemma crc7_byte_total:
  assumes "unat crc < 128"
  shows "\<exists>c. crc7_byte crc d = Some c \<and> unat c < 128"
proof -
  have "bit crc 7 = bit (unat crc) 7" by (simp add: bit_unsigned_iff)
  then have "\<not> bit crc 7" using assms by (simp add: bit_iff_odd)
  then have "\<not> bit (push_bit 1 (ucast crc :: u32) XOR ucast d) n" if "8 \<le> n" for n
    using that bit_imp_le_length [of crc "n - 1"] bit_imp_le_length [of d n]
    by (cases "n = 8") (auto simp: bit_push_bit_iff bit_xor_iff bit_simps simp del: push_bit_Suc)
  then have "take_bit 8 (push_bit 1 (ucast crc :: u32) XOR ucast d) = push_bit 1 (ucast crc) XOR ucast d"
    by (intro bit_eqI) (metis bit_take_bit_iff not_less)
  moreover have "unat (take_bit 8 v) < 256" for v :: u32
    using take_bit_nat_less_exp [of 8 "unat v"] by (simp add: unsigned_take_bit_eq)
  ultimately have "unat (push_bit 1 (ucast crc :: u32) XOR ucast d) < 256" by metis
  then show ?thesis using crc7_entry by (simp add: crc7_byte_def Let_def)
qed

lemma crc7_total:
  assumes "p + n \<le> length m" and "unat crc < 128"
  shows "\<exists>c. crc7 crc m p n = Some c \<and> unat c < 128"
  using assms
proof (induction n arbitrary: crc p)
  case (Suc n)
  then show ?case using crc7_byte_total [of crc "byte_of (m ! p)"] by (force simp: rd_def)
qed simp

end
