(* ===== verification/Env.thy ===== *)
theory Env
  imports Hashtable_IO Vsprintf Crc
begin

text \<open>
  The environment: variables in the hash table (\<^verbatim>\<open>common/env_common.c\<close>, \<^verbatim>\<open>common/cmd_nvedit.c\<close>), checked before they
  change, and kept in NAND flash under a checksum (\<^verbatim>\<open>common/env_nand.c\<close>). What the board configuration and other
  drivers decide is a parameter: the default environment, the table of baud rates, whether write-once variables may be
  overwritten, whether a console can be redirected, and the NAND device. Console output is not modelled.
\<close>

section \<open>State\<close>

text \<open>
  The global data that the functions use. \<open>env_text\<close> is the memory at \<open>gd->env_addr\<close>, \<open>con_in\<close> is what will still be typed on the console; a function that waits for more
  does not return (\<open>None\<close>).
\<close>

record env_state =
  env_htab :: hsearch_data
  env_ready :: bool
  env_valid :: nat
  env_text :: mem
  env_id :: nat
  gd_baudrate :: u32
  load_addr :: u32
  con_in :: string

text \<open>\<open>cfg_skip\<close> is \<open>CONFIG_SKIP_LOWLEVEL_INIT\<close>; \<open>cfg_assign\<close> stands for \<open>console_assign\<close>: whether the stream can be given to the named device.\<close>

record env_config =
  cfg_skip :: bool
  cfg_default :: mem
  cfg_overwrite :: bool
  cfg_baudrates :: "u32 list"
  cfg_assign :: "nat \<Rightarrow> string \<Rightarrow> bool"

section \<open>Checking a change\<close>

definition console_of :: "string \<Rightarrow> nat option" where
  "console_of name =
     (if name = ''stdin'' then Some 0 else if name = ''stdout'' then Some 1 else if name = ''stderr'' then Some 2 else None)"

definition force :: "nat \<Rightarrow> bool" where
  "force fl \<longleftrightarrow> fl AND H_FORCE \<noteq> 0"

text \<open>The part before any effect: console redirection and write-once variables. \<open>True\<close> means refused.\<close>

definition env_forbidden :: "env_config \<Rightarrow> string \<Rightarrow> string option \<Rightarrow> string \<Rightarrow> nat \<Rightarrow> bool" where
  "env_forbidden cfg name oldval newval fl \<longleftrightarrow>
     (case console_of name of
        Some c \<Rightarrow> newval = [] \<or> \<not> cfg_assign cfg c newval
      | None \<Rightarrow> False) \<or>
     (\<not> cfg_overwrite cfg \<and> oldval \<noteq> None \<and> \<not> force fl \<and> name \<in> {''serial#'', ''ethaddr''})"

text \<open>A change of the baud rate is made at once, and confirmed by a carriage return.\<close>

definition switch_baudrate :: "u32 \<Rightarrow> env_state \<Rightarrow> env_state option" where
  "switch_baudrate b st =
     (case dropWhile (\<lambda>c. c \<noteq> CHR 0x0D) (con_in st) of
        [] \<Rightarrow> None
      | _ # rest \<Rightarrow> Some (st\<lparr>gd_baudrate := b, con_in := rest\<rparr>))"

definition env_check_apply ::
  "env_config \<Rightarrow> string \<Rightarrow> string option \<Rightarrow> string option \<Rightarrow> nat \<Rightarrow> env_state \<Rightarrow> (nat \<times> env_state) option" where
  "env_check_apply cfg name oldval newval0 fl st =
     (let newval = (case newval0 of None \<Rightarrow> [] | Some v \<Rightarrow> v);
          baudrate = fst (simple_strtoul newval 10)
      in if env_forbidden cfg name oldval newval fl then Some (1, st)
         else if (oldval \<noteq> None \<or> fl AND H_NOCLEAR = 0) \<and> name = ''baudrate''
         then if baudrate \<notin> set (cfg_baudrates cfg) then Some (1, st)
              else if gd_baudrate st = baudrate then Some (0, st)
              else map_option (Pair 0) (switch_baudrate baudrate st)
         else if name = ''loadaddr'' then Some (0, st\<lparr>load_addr := fst (simple_strtoul newval 16)\<rparr>)
         else Some (0, st))"

section \<open>Setting and reading variables\<close>

text \<open>The value of an entry that was found.\<close>

definition found_data :: "hsearch_data \<Rightarrow> hs_result \<Rightarrow> string option" where
  "found_data h r =
     (case (hs_retval r, ht_table h) of (Some i, Some t) \<Rightarrow> data (entry (t ! i)) | _ \<Rightarrow> None)"

text \<open>The arguments after the name, joined by single spaces.\<close>

fun join_args :: "string list \<Rightarrow> string" where
  "join_args [] = []"
| "join_args [v] = v"
| "join_args (v # vs) = v @ CHR '' '' # join_args vs"

text \<open>\<open>args\<close> are \<open>argv[1], argv[2], \<dots>\<close>; the allocator's outcomes are consumed by \<open>malloc\<close> here and by the table.\<close>

definition do_env_set_args ::
  "env_config \<Rightarrow> string list \<Rightarrow> mallocs \<Rightarrow> env_state \<Rightarrow> (nat \<times> env_state) option" where
  "do_env_set_args cfg args mo st =
     (case args of
        [] \<Rightarrow> None
      | name # vals \<Rightarrow>
          if CHR ''='' \<in> set name then Some (1, st)
          else do {
            let st1 = st\<lparr>env_id := env_id st + 1\<rparr>;
            r \<leftarrow> hsearch_r name None FIND (env_htab st1) mo;
            let h = hs_htab r;
            let newval = (case vals of [] \<Rightarrow> None | v # _ \<Rightarrow> Some v);
            (rc, st2) \<leftarrow> env_check_apply cfg name (found_data h r) newval H_NOCLEAR (st1\<lparr>env_htab := h\<rparr>);
            if rc \<noteq> 0 then Some (1, st2)
            else if vals = []
            then do { (ok, h', e, cs) \<leftarrow> hdelete_r name (env_htab st2) False;
                      Some (if ok then 0 else 1, st2\<lparr>env_htab := h'\<rparr>) }
            else let (ok, mo') = next_malloc (hs_mallocs r)
                 in if \<not> ok then Some (1, st2)
                    else do { r' \<leftarrow> hsearch_r name (Some (join_args vals)) ENTER (env_htab st2) mo';
                              Some (if hs_retval r' = None then 1 else 0, st2\<lparr>env_htab := hs_htab r'\<rparr>) } })"

definition setenv :: "env_config \<Rightarrow> string \<Rightarrow> string option \<Rightarrow> mallocs \<Rightarrow> env_state \<Rightarrow> (nat \<times> env_state) option" where
  "setenv cfg varname varvalue mo st =
     (if \<not> env_ready st then Some (1, st)
      else case varvalue of
             None \<Rightarrow> do_env_set_args cfg [varname] mo st
           | Some v \<Rightarrow> if v = [] then do_env_set_args cfg [varname] mo st else do_env_set_args cfg [varname, v] mo st)"

definition setenv_ulong :: "env_config \<Rightarrow> string \<Rightarrow> u32 \<Rightarrow> mallocs \<Rightarrow> env_state \<Rightarrow> (nat \<times> env_state) option" where
  "setenv_ulong cfg varname value mo st = setenv cfg varname (Some (simple_itoa value)) mo st"

definition setenv_addr :: "env_config \<Rightarrow> string \<Rightarrow> u32 \<Rightarrow> mallocs \<Rightarrow> env_state \<Rightarrow> (nat \<times> env_state) option" where
  "setenv_addr cfg varname addr mo st =
     do { (t, n, ns) \<leftarrow> sprintf ''%lx'' [VInt addr];
          setenv cfg varname (Some (take n t)) mo st }"

definition do_env_set :: "env_config \<Rightarrow> string list \<Rightarrow> mallocs \<Rightarrow> env_state \<Rightarrow> (int \<times> env_state) option" where
  "do_env_set cfg argv mo st =
     (if length argv < 2 then Some (-1, st)
      else map_option (\<lambda>(rc, st'). (int rc, st')) (do_env_set_args cfg (tl argv) mo st))"

section \<open>Reading before the table exists\<close>

definition CONFIG_ENV_SIZE :: nat where "CONFIG_ENV_SIZE = 0x40000"
definition ENV_HEADER_SIZE :: nat where "ENV_HEADER_SIZE = 4"
definition ENV_SIZE :: nat where "ENV_SIZE = CONFIG_ENV_SIZE - ENV_HEADER_SIZE"

text \<open>Before and after relocation the character comes from the same place.\<close>

definition env_chars :: "env_config \<Rightarrow> env_state \<Rightarrow> mem" where
  "env_chars cfg st = (if env_valid st \<noteq> 0 then env_text st else cfg_default cfg)"

text \<open>Compare a name, with its NUL, against the text at an index; \<open>None\<close> is a read past the name or the text.\<close>

fun envmatch :: "mem \<Rightarrow> char list \<Rightarrow> nat \<Rightarrow> nat option option" where
  "envmatch m [] i2 = None"
| "envmatch m (c # s1) i2 =
     do { e \<leftarrow> rd m i2;
          if c = e then if c = CHR ''='' then Some (Some (i2 + 1)) else envmatch m s1 (i2 + 1)
          else if c = NUL \<and> e = CHR ''='' then Some (Some (i2 + 1))
          else Some None }"

text \<open>The end of the entry at \<open>nxt\<close>; \<open>Some None\<close> when the text is too long.\<close>

function entry_end :: "mem \<Rightarrow> nat \<Rightarrow> nat option option" where
  "entry_end m nxt =
     (if nxt \<ge> length m then None
      else if m ! nxt = NUL then Some (Some nxt)
      else if nxt \<ge> CONFIG_ENV_SIZE then Some None
      else entry_end m (nxt + 1))"
  by pat_completeness auto
termination
  by (relation "measure (\<lambda>(m, n). length m - n)") auto

declare entry_end.simps [simp del]

text \<open>Copy a value of at most \<open>len\<close> characters: what ends up in the buffer, without its NUL, and the returned length.\<close>

fun copy_value :: "mem \<Rightarrow> nat \<Rightarrow> nat \<Rightarrow> nat \<Rightarrow> string \<Rightarrow> (int \<times> string) option" where
  "copy_value m val n 0 buf = Some (int n, butlast buf)"
| "copy_value m val n (Suc len) buf =
     do { c \<leftarrow> rd m val;
          if c = NUL then Some (int n, buf) else copy_value m (val + 1) (n + 1) len (buf @ [c]) }"

lemma entry_end_ge: "entry_end m i = Some (Some j) \<Longrightarrow> i \<le> j \<and> j < length m"
proof (induction m i rule: entry_end.induct)
  case (1 m i)
  then show ?case by (subst (asm) (2) entry_end.simps) (auto split: if_splits)
qed

function getenv_f_loop :: "mem \<Rightarrow> string \<Rightarrow> nat \<Rightarrow> nat \<Rightarrow> (int \<times> string) option" where
  "getenv_f_loop m name len i =
     (case rd m i of
        None \<Rightarrow> None
      | Some c \<Rightarrow>
          if c = NUL then Some (-1, [])
          else (case entry_end m i of
                  None \<Rightarrow> None
                | Some None \<Rightarrow> Some (-1, [])
                | Some (Some nxt) \<Rightarrow>
                    (case envmatch m (name @ [NUL]) i of
                       None \<Rightarrow> None
                     | Some None \<Rightarrow> getenv_f_loop m name len (nxt + 1)
                     | Some (Some val) \<Rightarrow> copy_value m val 0 len [])))"
  by pat_completeness auto
termination
  by (relation "measure (\<lambda>(m, name, len, i). length m - i)") (auto simp: rd_Some_iff dest!: entry_end_ge)

declare getenv_f_loop.simps [simp del]

definition getenv_f :: "env_config \<Rightarrow> env_state \<Rightarrow> string \<Rightarrow> nat \<Rightarrow> (int \<times> string) option" where
  "getenv_f cfg st name len = getenv_f_loop (env_chars cfg st) name len 0"

text \<open>\<open>gd->env_buf\<close> has 32 bytes. The result is the pointer to the value, or NULL.\<close>

definition getenv :: "env_config \<Rightarrow> env_state \<Rightarrow> string \<Rightarrow> string option option" where
  "getenv cfg st name =
     (if env_ready st
      then map_option (found_data (env_htab st)) (hsearch_r name None FIND (env_htab st) [])
      else map_option (\<lambda>(n, buf). if n > 0 then Some buf else None) (getenv_f cfg st name 32))"

definition getenv_ulong :: "env_config \<Rightarrow> env_state \<Rightarrow> string \<Rightarrow> nat \<Rightarrow> u32 \<Rightarrow> u32 option" where
  "getenv_ulong cfg st name base default_val =
     map_option (\<lambda>s. case s of Some t \<Rightarrow> fst (simple_strtoul t base) | None \<Rightarrow> default_val) (getenv cfg st name)"

text \<open>The number of characters printed for one variable, zero if it is not defined.\<close>

definition env_print :: "env_state \<Rightarrow> string \<Rightarrow> nat option" where
  "env_print st name =
     do { r \<leftarrow> hsearch_r name None FIND (env_htab st) [];
          (case (hs_retval r, ht_table (env_htab st)) of
             (Some i, Some t) \<Rightarrow>
               do { (txt', n, ns) \<leftarrow> sprintf ''%s=%s'' [VStr (key (entry (t ! i))), VStr (data (entry (t ! i)))];
                    Some (n + 1) }
           | _ \<Rightarrow> Some 0) }"

section \<open>The default environment and the checksum\<close>

text \<open>The callback of the table: refused or not. (The decision does not depend on the state.)\<close>

definition env_refuses :: "env_config \<Rightarrow> callback" where
  "env_refuses cfg name oldval newval0 fl \<longleftrightarrow>
     (let newval = (case newval0 of None \<Rightarrow> [] | Some v \<Rightarrow> v)
      in env_forbidden cfg name oldval newval fl \<or>
         (oldval \<noteq> None \<or> fl AND H_NOCLEAR = 0) \<and> name = ''baudrate'' \<and>
         fst (simple_strtoul newval 10) \<notin> set (cfg_baudrates cfg))"

text \<open>The effects of the calls that the import made.\<close>

fun run_calls :: "env_config \<Rightarrow> cb_call list \<Rightarrow> env_state \<Rightarrow> env_state option" where
  "run_calls cfg [] st = Some st"
| "run_calls cfg ((Some name, old, new, fl) # cs) st =
     do { (rc, st') \<leftarrow> env_check_apply cfg name old new fl st; run_calls cfg cs st' }"
| "run_calls cfg ((None, old, new, fl) # cs) st = None"

definition env_himport ::
  "env_config \<Rightarrow> mem \<Rightarrow> nat \<Rightarrow> nat \<Rightarrow> string list \<Rightarrow> bool \<Rightarrow> mallocs \<Rightarrow> env_state \<Rightarrow> (bool \<times> mallocs \<times> env_state) option"
  where
  "env_himport cfg buf sz fl vars do_apply mo st =
     do { (ok, im) \<leftarrow> himport_r ((env_htab st)\<lparr>ht_apply := Some (env_refuses cfg)\<rparr>) buf sz NUL fl vars do_apply mo;
          st' \<leftarrow> run_calls cfg (im_calls im) st;
          Some (ok, im_mallocs im, st'\<lparr>env_htab := im_htab im\<rparr>) }"

text \<open>The reason starts with \<open>!\<close> when this is a recovery and not a request of the user.\<close>

definition set_default_env :: "env_config \<Rightarrow> string option \<Rightarrow> mallocs \<Rightarrow> env_state \<Rightarrow> env_state option" where
  "set_default_env cfg s mo st =
     (if length (cfg_default cfg) > ENV_SIZE then Some st
      else let do_apply = (case s of Some (c # cs) \<Rightarrow> c \<noteq> CHR ''!'' | Some [] \<Rightarrow> True | None \<Rightarrow> False)
           in do { (ok, mo', st') \<leftarrow> env_himport cfg (cfg_default cfg) (length (cfg_default cfg)) 0 [] do_apply mo st;
                   Some (st'\<lparr>env_ready := True\<rparr>) })"

definition set_default_vars :: "env_config \<Rightarrow> string list \<Rightarrow> mallocs \<Rightarrow> env_state \<Rightarrow> (bool \<times> mallocs \<times> env_state) option" where
  "set_default_vars cfg vars mo st =
     env_himport cfg (cfg_default cfg) (length (cfg_default cfg)) H_NOCLEAR vars True mo st"

text \<open>The stored form: the checksum, least significant byte first, and the data.\<close>

definition crc_bytes_of :: "u32 \<Rightarrow> mem" where
  "crc_bytes_of c = map char_byte [ucast c, ucast (drop_bit 8 c), ucast (drop_bit 16 c), ucast (drop_bit 24 c)]"

text \<open>Whether the stored checksum is that of the data.\<close>

definition crc_matches :: "mem \<Rightarrow> bool option" where
  "crc_matches buf = do { crc \<leftarrow> crc32 0 buf ENV_HEADER_SIZE ENV_SIZE; Some (crc_bytes_of crc = take 4 buf) }"

definition env_import :: "env_config \<Rightarrow> mem \<Rightarrow> bool \<Rightarrow> mallocs \<Rightarrow> env_state \<Rightarrow> (bool \<times> env_state) option" where
  "env_import cfg buf check mo st =
     do { crc_ok \<leftarrow> (if check then crc_matches buf else Some True);
          if \<not> crc_ok
          then do { st' \<leftarrow> set_default_env cfg (Some ''!bad CRC'') mo st; Some (False, st') }
          else do { (ok, mo', st1) \<leftarrow> env_himport cfg (drop ENV_HEADER_SIZE buf) ENV_SIZE 0 [] False mo st;
                    if ok then Some (True, st1\<lparr>env_ready := True\<rparr>)
                    else do { st2 \<leftarrow> set_default_env cfg (Some ''!import failed'') mo' st1; Some (False, st2) } } }"

section \<open>The environment in NAND flash\<close>

text \<open>
  The device: its state is of any type, and its operations are those of the NAND driver: the test of a block (positive for a
  bad block, negative on an error), the erasure of one block (\<open>mtd_erase\<close>) and a write, which return whether they failed, and
  a read, which returns the bytes, or \<open>None\<close> on an error.
\<close>

record 'n nand_ops =
  nd_erasesize :: nat
  nd_writesize :: nat
  nd_isbad :: "'n \<Rightarrow> nat \<Rightarrow> int"
  nd_erase :: "'n \<Rightarrow> nat \<Rightarrow> bool \<times> 'n"
  nd_write :: "'n \<Rightarrow> nat \<Rightarrow> mem \<Rightarrow> bool \<times> 'n"
  nd_read :: "'n \<Rightarrow> nat \<Rightarrow> nat \<Rightarrow> mem option"

definition CONFIG_ENV_RANGE :: nat where "CONFIG_ENV_RANGE = 0x40000"
definition CONFIG_ENV_OFFSET :: nat where "CONFIG_ENV_OFFSET = 0x440000"

text \<open>
  \<open>nand_erase_opts\<close> with the options of \<open>saveenv\<close> (neither scrub nor JFFS2 nor spread): the offset has to be that of a page; every
  block that is not bad is erased. A failed erasure is reported on the console only. \<open>None\<close>: a division by an erase size of zero.
\<close>

fun erase_loop :: "'n nand_ops \<Rightarrow> nat \<Rightarrow> nat \<Rightarrow> 'n \<Rightarrow> int \<times> 'n" where
  "erase_loop nd 0 addr n = (0, n)"
| "erase_loop nd (Suc blocks) addr n =
     (if nd_isbad nd n addr > 0 then erase_loop nd blocks (addr + nd_erasesize nd) n
      else if nd_isbad nd n addr < 0 then (-1, n)
      else let (failed, n') = nd_erase nd n addr in erase_loop nd blocks (addr + nd_erasesize nd) n')"

definition nand_erase_opts :: "'n nand_ops \<Rightarrow> nat \<Rightarrow> nat \<Rightarrow> 'n \<Rightarrow> (int \<times> 'n) option" where
  "nand_erase_opts nd off len n =
     (if off AND ((nd_writesize nd + 2 ^ 32 - 1) mod 2 ^ 32) \<noteq> 0 then Some (-1, n)
      else if nd_erasesize nd = 0 then None
      else Some (erase_loop nd ((len + nd_erasesize nd - 1) div nd_erasesize nd) off n))"

text \<open>The loops over the blocks of the range, skipping bad ones. \<open>None\<close>: with an erase size of zero the loop does not end, and with
  one that does not divide the size it would leave the buffer.\<close>

function writeenv_loop ::
  "'n nand_ops \<Rightarrow> mem \<Rightarrow> nat \<Rightarrow> nat \<Rightarrow> nat \<Rightarrow> 'n \<Rightarrow> (bool \<times> 'n) option" where
  "writeenv_loop nd buf end_off off saved n =
     (let bs = nd_erasesize nd; len = min bs CONFIG_ENV_SIZE in
      if saved < CONFIG_ENV_SIZE \<and> off < end_off
      then if bs = 0 then None
           else if nd_isbad nd n off \<noteq> 0 then writeenv_loop nd buf end_off (off + bs) saved n
           else if saved + len > length buf then None
           else (case nd_write nd n off (slice buf saved len) of
                   (True, n') \<Rightarrow> Some (True, n')
                 | (False, n') \<Rightarrow> writeenv_loop nd buf end_off (off + bs) (saved + len) n')
      else Some (saved \<noteq> CONFIG_ENV_SIZE, n))"
  by pat_completeness auto
termination
  by (relation "measure (\<lambda>(nd, buf, end_off, off, saved, n). end_off - off)") auto

declare writeenv_loop.simps [simp del]

definition writeenv :: "'n nand_ops \<Rightarrow> nat \<Rightarrow> mem \<Rightarrow> 'n \<Rightarrow> (bool \<times> 'n) option" where
  "writeenv nd off buf n = writeenv_loop nd buf (off + CONFIG_ENV_RANGE) off 0 n"

function readenv_loop ::
  "'n nand_ops \<Rightarrow> 'n \<Rightarrow> nat \<Rightarrow> nat \<Rightarrow> nat \<Rightarrow> mem \<Rightarrow> (bool \<times> mem) option" where
  "readenv_loop nd n end_off off loaded buf =
     (let bs = nd_erasesize nd; len = min bs CONFIG_ENV_SIZE in
      if loaded < CONFIG_ENV_SIZE \<and> off < end_off
      then if bs = 0 then None
           else if nd_isbad nd n off \<noteq> 0 then readenv_loop nd n end_off (off + bs) loaded buf
           else (case nd_read nd n off len of
                   None \<Rightarrow> Some (True, buf)
                 | Some bytes \<Rightarrow>
                     if loaded + length bytes > length buf then None
                     else readenv_loop nd n end_off (off + bs) (loaded + len) (store buf loaded bytes))
      else Some (loaded \<noteq> CONFIG_ENV_SIZE, buf))"
  by pat_completeness auto
termination
  by (relation "measure (\<lambda>(nd, n, end_off, off, loaded, buf). end_off - off)") auto

declare readenv_loop.simps [simp del]

definition readenv :: "'n nand_ops \<Rightarrow> 'n \<Rightarrow> nat \<Rightarrow> mem \<Rightarrow> (bool \<times> mem) option" where
  "readenv nd n off buf =
     (if nd_erasesize nd = 0 then Some (True, buf) else readenv_loop nd n (off + CONFIG_ENV_RANGE) off 0 buf)"

text \<open>\<open>env_new\<close> is the buffer on the stack, with unknown contents.\<close>

definition saveenv :: "'n nand_ops \<Rightarrow> mem \<Rightarrow> env_state \<Rightarrow> 'n \<Rightarrow> (nat \<times> 'n) option" where
  "saveenv nd env_new st n =
     (if CONFIG_ENV_RANGE < CONFIG_ENV_SIZE then Some (1, n)
      else do { res \<leftarrow> hexport_r (env_htab st) NUL (Some (drop ENV_HEADER_SIZE env_new)) ENV_SIZE [] [];
                (case res of
                   Export_error e \<Rightarrow> Some (1, n)
                 | Exported len dat \<Rightarrow>
                     do { crc \<leftarrow> crc32 0 (take ENV_HEADER_SIZE env_new @ dat) ENV_HEADER_SIZE ENV_SIZE;
                          (ret, n') \<leftarrow> nand_erase_opts nd CONFIG_ENV_OFFSET CONFIG_ENV_RANGE n;
                          if ret \<noteq> 0 then Some (1, n')
                          else do { (failed, n'') \<leftarrow> writeenv nd CONFIG_ENV_OFFSET (crc_bytes_of crc @ dat) n';
                                    Some (if failed then 1 else 0, n'') } }) })"

definition env_init :: "env_config \<Rightarrow> env_state \<Rightarrow> env_state" where
  "env_init cfg st = st\<lparr>env_text := cfg_default cfg, env_valid := 1\<rparr>"

definition env_relocate_spec :: "env_config \<Rightarrow> 'n nand_ops \<Rightarrow> 'n \<Rightarrow> mem \<Rightarrow> mallocs \<Rightarrow> env_state \<Rightarrow> env_state option" where
  "env_relocate_spec cfg nd n buf mo st =
     do { (failed, buf') \<leftarrow> readenv nd n CONFIG_ENV_OFFSET buf;
          if failed then set_default_env cfg (Some ''!readenv() failed'') mo st
          else map_option snd (env_import cfg buf' True mo st) }"

definition env_relocate :: "env_config \<Rightarrow> 'n nand_ops \<Rightarrow> 'n \<Rightarrow> mem \<Rightarrow> mallocs \<Rightarrow> env_state \<Rightarrow> env_state option" where
  "env_relocate cfg nd n buf mo st =
     (if cfg_skip cfg then set_default_env cfg None mo st
      else if env_valid st = 0 then set_default_env cfg (Some ''!bad CRC'') mo st
      else env_relocate_spec cfg nd n buf mo st)"

section \<open>Setting a variable\<close>

text \<open>The variables that the state stands for, and a state that is ready to be used.\<close>

definition env_vars :: "env_state \<Rightarrow> (string \<rightharpoonup> string)" where
  "env_vars st = ht_map (env_htab st)"

definition env_ok :: "env_state \<Rightarrow> bool" where
  "env_ok st \<longleftrightarrow> env_ready st \<and> ht_ok (env_htab st)"

lemma find_data:
  assumes "ht_ok h" and "cstring name"
  shows "\<exists>r. hsearch_r name None FIND h mo = Some r \<and> hs_htab r = h \<and> found_data h r = ht_map h name \<and> hs_mallocs r = mo"
  using hsearch_find [of h name None mo] assms by (auto simp: cstring_def found_data_def split: option.splits)

lemma getenv_vars: "env_ok st \<Longrightarrow> cstring name \<Longrightarrow> getenv cfg st name = Some (env_vars st name)"
  using find_data [of "env_htab st" name "[]"] by (auto simp: getenv_def env_ok_def env_vars_def)

text \<open>The check touches the variables never, refuses as the callback says, and waits at most for a carriage return.\<close>

lemma env_check_apply_result:
  assumes "CHR 0x0D \<in> set (con_in st)"
  shows "\<exists>st'. env_check_apply cfg name old new fl st = Some (if env_refuses cfg name old new fl then 1 else 0, st') \<and>
    env_htab st' = env_htab st \<and> env_ready st' = env_ready st"
proof -
  have "dropWhile (\<lambda>c. c \<noteq> CHR 0x0D) (con_in st) \<noteq> []" using assms by (simp add: dropWhile_eq_Nil_conv)
  then have "\<exists>st'. switch_baudrate b st = Some st' \<and> env_htab st' = env_htab st \<and> env_ready st' = env_ready st" for b
    by (auto simp: switch_baudrate_def split: list.splits)
  then show ?thesis
    by (fastforce simp: env_check_apply_def env_refuses_def Let_def)
qed

text \<open>When a change is refused: a name that the stored form could not carry, or a refusal by the check.\<close>

definition set_refused :: "env_config \<Rightarrow> env_state \<Rightarrow> string \<Rightarrow> string option \<Rightarrow> bool" where
  "set_refused cfg st name new \<longleftrightarrow> CHR ''='' \<in> set name \<or> env_refuses cfg name (env_vars st name) new H_NOCLEAR"

lemma env_set_args_effect:
  assumes "env_ok st" and "0 < ht_free (env_htab st)" and "cstring name" and "CHR 0x0D \<in> set (con_in st)"
  shows "\<exists>rc st'. do_env_set_args cfg (name # vals) [] st = Some (rc, st') \<and> env_ok st' \<and>
    (rc = 0 \<longleftrightarrow> \<not> set_refused cfg st name (if vals = [] then None else Some (hd vals)) \<and> (vals = [] \<longrightarrow> env_vars st name \<noteq> None)) \<and>
    env_vars st' = (if rc = 0 then (env_vars st)(name := if vals = [] then None else Some (join_args vals)) else env_vars st)"
proof -
  have h: "ht_ok (env_htab st)" "env_ready st" using assms(1) by (simp_all add: env_ok_def)
  let ?new = "if vals = [] then None else Some (hd vals)" and ?st1 = "st\<lparr>env_id := env_id st + 1, env_htab := env_htab st\<rparr>"
  obtain r where r: "hsearch_r name None FIND (env_htab st) [] = Some r" "hs_htab r = env_htab st"
    "found_data (env_htab st) r = env_vars st name" "hs_mallocs r = []"
    using find_data [OF h(1) assms(3)] by (auto simp: env_vars_def)
  obtain st2 where st2: "env_check_apply cfg name (env_vars st name) ?new H_NOCLEAR ?st1 =
      Some (if env_refuses cfg name (env_vars st name) ?new H_NOCLEAR then 1 else 0, st2)"
    "env_htab st2 = env_htab st" "env_ready st2"
    using env_check_apply_result [of ?st1 cfg name "env_vars st name" ?new H_NOCLEAR] assms(4) h(2) by auto
  obtain h1 e cs where del: "hdelete_r name (env_htab st) False = Some (env_vars st name \<noteq> None, h1, e, cs)" "ht_ok h1"
    "ht_map h1 = (env_vars st)(name := None)"
    using hdelete_map [OF h(1), of name False] assms(3) by (auto simp: cstring_def env_vars_def)
  obtain r' where ent: "hsearch_r name (Some (join_args vals)) ENTER (env_htab st) [] = Some r'" "ht_ok (hs_htab r')"
    "hs_retval r' \<noteq> None" "ht_map (hs_htab r') = (env_vars st)(name \<mapsto> join_args vals)"
    using hsearch_enter [OF h(1) _ assms(2), of name "join_args vals"] assms(3) by (auto simp: cstring_def env_vars_def)
  have new: "(case vals of [] \<Rightarrow> None | v # _ \<Rightarrow> Some v) = ?new" by (cases vals) auto
  have absent: "(env_vars st)(name := None) = env_vars st" if "env_vars st name = None"
    using that by auto
  show ?thesis
    using r st2 del ent h absent
    by (auto simp: do_env_set_args_def new set_refused_def env_ok_def env_vars_def Let_def split: if_splits)
qed

text \<open>C16. \<open>setenv\<close> on a ready environment with a free slot in its table, while no allocation of memory fails, always returns (after at
  most a carriage return is typed): a variable is set, or removed when no value is given, and a later \<open>getenv\<close> of any name sees
  exactly that; it reports an error exactly for a refused change and for the removal of an unknown variable, and then every variable is as
  before. The environment stays well-formed.\<close>

theorem setenv_effect:
  assumes "env_ok st" and "0 < ht_free (env_htab st)" and "cstring name" and "CHR 0x0D \<in> set (con_in st)"
    and "val' = (if val = Some [] then None else val)"
  shows "\<exists>rc st'. setenv cfg name val [] st = Some (rc, st') \<and> env_ok st' \<and>
    (rc = 0 \<longleftrightarrow> \<not> set_refused cfg st name val' \<and> (val' = None \<longrightarrow> env_vars st name \<noteq> None)) \<and>
    (\<forall>n. cstring n \<longrightarrow> getenv cfg st' n = Some (if rc = 0 \<and> n = name then val' else env_vars st n))"
proof -
  define vals where "vals = (case val' of None \<Rightarrow> [] | Some v \<Rightarrow> [v])"
  have v: "setenv cfg name val [] st = do_env_set_args cfg (name # vals) [] st"
    using assms(1,5) by (cases val) (simp_all add: setenv_def env_ok_def vals_def)
  have vals: "(if vals = [] then None else Some (hd vals)) = val'" "(if vals = [] then None else Some (join_args vals)) = val'"
    "vals = [] \<longleftrightarrow> val' = None" by (cases val'; simp add: vals_def)+
  obtain rc st' where "do_env_set_args cfg (name # vals) [] st = Some (rc, st')" "env_ok st'"
    "rc = 0 \<longleftrightarrow> \<not> set_refused cfg st name val' \<and> (val' = None \<longrightarrow> env_vars st name \<noteq> None)"
    "env_vars st' = (if rc = 0 then (env_vars st)(name := val') else env_vars st)"
    using env_set_args_effect [OF assms(1-4), of cfg vals] unfolding vals(1,2) unfolding vals(3) by blast
  then show ?thesis using getenv_vars [of st' _ cfg] v by (intro exI [of _ rc] exI [of _ st']) auto
qed

text \<open>A small environment, for the examples.\<close>

definition env5 :: env_state where
  "env5 = \<lparr>env_htab = table5, env_ready = True, env_valid = 1, env_text = [], env_id = 1, gd_baudrate = 115200,
     load_addr = 0, con_in = [CHR 0x0D]\<rparr>"

definition cfg5 :: env_config where
  "cfg5 = \<lparr>cfg_skip = False, cfg_default = [NUL], cfg_overwrite = False,
     cfg_baudrates = [9600, 19200, 38400, 57600, 115200], cfg_assign = (\<lambda>_ _. True)\<rparr>"

theorem setenv_effect_witness:
  "\<exists>st'. setenv cfg5 ''bootdelay'' (Some ''3'') [] env5 = Some (0, st') \<and> getenv cfg5 st' ''bootdelay'' = Some (Some ''3'')"
proof -
  have "\<not> set_refused cfg5 env5 ''bootdelay'' (Some ''3'')"
    by (simp add: set_refused_def env_refuses_def env_forbidden_def console_of_def env5_def table5_ok env_vars_def)
  then show ?thesis
    using setenv_effect [of env5 "''bootdelay''" "Some ''3''" "Some ''3''" cfg5]
    by (auto simp: env5_def env_ok_def table5_ok cstring_def)
qed

section \<open>Saving and loading\<close>

text \<open>
  What the code relies on of the flash. A block is erased when it reads as 0xFF. Erasing a good block makes it so; a write to an
  erased good block reads back, while nothing is said of a write over other contents; both leave every other block as it was,
  and neither changes which blocks are bad.
\<close>

definition erased :: "'n nand_ops \<Rightarrow> 'n \<Rightarrow> nat \<Rightarrow> bool" where
  "erased nd n off \<longleftrightarrow> (\<forall>len. len \<le> nd_erasesize nd \<longrightarrow> nd_read nd n off len = Some (replicate len (CHR 0xFF)))"

text \<open>The two states have the same bad blocks and agree outside the block at \<open>off\<close>.\<close>

definition same_elsewhere :: "'n nand_ops \<Rightarrow> nat \<Rightarrow> 'n \<Rightarrow> 'n \<Rightarrow> bool" where
  "same_elsewhere nd off n n' \<longleftrightarrow> nd_isbad nd n' = nd_isbad nd n \<and>
     (\<forall>off' len. off' + nd_erasesize nd \<le> off \<or> off + nd_erasesize nd \<le> off' \<longrightarrow> len \<le> nd_erasesize nd \<longrightarrow>
        nd_read nd n' off' len = nd_read nd n off' len)"

definition nand_sane :: "'n nand_ops \<Rightarrow> bool" where
  "nand_sane nd \<longleftrightarrow>
     (\<forall>n off n'. nd_erasesize nd dvd off \<longrightarrow> nd_isbad nd n off = 0 \<longrightarrow> nd_erase nd n off = (False, n') \<longrightarrow>
        erased nd n' off \<and> same_elsewhere nd off n n') \<and>
     (\<forall>n off bs n'. nd_erasesize nd dvd off \<longrightarrow> nd_isbad nd n off = 0 \<longrightarrow> length bs \<le> nd_erasesize nd \<longrightarrow>
        erased nd n off \<longrightarrow> nd_write nd n off bs = (False, n') \<longrightarrow>
        nd_read nd n' off (length bs) = Some bs \<and> same_elsewhere nd off n n')"

definition nand_erases :: "'n nand_ops \<Rightarrow> bool" where
  "nand_erases nd \<longleftrightarrow> (\<forall>n off. nd_isbad nd n off = 0 \<longrightarrow> \<not> fst (nd_erase nd n off))"

lemma nand_sane_erase:
  assumes "nand_sane nd" and "nand_erases nd" and "nd_erasesize nd dvd off" and "nd_isbad nd n off = 0" and "nd_erase nd n off = (failed, n')"
  shows "\<not> failed" and "erased nd n' off" and "same_elsewhere nd off n n'"
proof -
  show "\<not> failed" using assms(2,4,5) unfolding nand_erases_def by force
  then have "nd_erase nd n off = (False, n')" using assms(5) by simp
  then show "erased nd n' off" "same_elsewhere nd off n n'"
    using assms(1,3,4) unfolding nand_sane_def by blast+
qed

lemma nand_sane_write:
  assumes "nand_sane nd" and "nd_erasesize nd dvd off" and "nd_isbad nd n off = 0" and "length bs \<le> nd_erasesize nd"
    and "erased nd n off" and "nd_write nd n off bs = (False, n')"
  shows "nd_read nd n' off (length bs) = Some bs" and "same_elsewhere nd off n n'"
  using assms unfolding nand_sane_def by blast+

lemma same_elsewhere_bad: "same_elsewhere nd off n n' \<Longrightarrow> nd_isbad nd n' = nd_isbad nd n"
  by (simp add: same_elsewhere_def)

lemma same_elsewhere_erased:
  assumes "same_elsewhere nd off n n'" and "off' + nd_erasesize nd \<le> off \<or> off + nd_erasesize nd \<le> off'"
  shows "erased nd n' off' = erased nd n off'"
proof -
  have "nd_read nd n' off' len = nd_read nd n off' len" if "len \<le> nd_erasesize nd" for len
    using assms that unfolding same_elsewhere_def by blast
  then show ?thesis by (simp add: erased_def)
qed

text \<open>The good blocks of a range, which starts at a block, are erased.\<close>

definition range_erased :: "'n nand_ops \<Rightarrow> nat \<Rightarrow> nat \<Rightarrow> 'n \<Rightarrow> bool" where
  "range_erased nd off end_off n \<longleftrightarrow>
     (\<forall>j. off + j * nd_erasesize nd < end_off \<longrightarrow> nd_isbad nd n (off + j * nd_erasesize nd) = 0 \<longrightarrow>
        erased nd n (off + j * nd_erasesize nd))"

lemma range_erased_first:
  "range_erased nd off end_off n \<Longrightarrow> off < end_off \<Longrightarrow> nd_isbad nd n off = 0 \<Longrightarrow> erased nd n off"
  unfolding range_erased_def by (drule spec [of _ 0]) simp

lemma range_erased_rest:
  assumes "range_erased nd off end_off n" and "same_elsewhere nd off n n' \<or> n' = n"
  shows "range_erased nd (off + nd_erasesize nd) end_off n'"
  unfolding range_erased_def
proof (intro allI impI)
  fix j
  let ?o = "off + nd_erasesize nd + j * nd_erasesize nd"
  assume j: "?o < end_off" "nd_isbad nd n' ?o = 0"
  have o: "?o = off + Suc j * nd_erasesize nd" by simp
  have "nd_isbad nd n ?o = 0" using j(2) assms(2) by (auto simp: same_elsewhere_bad)
  then have "erased nd n ?o" using assms(1) j(1) unfolding range_erased_def o by blast
  then show "erased nd n' ?o" using assms(2) same_elsewhere_erased [of nd off n n' ?o] by auto
qed

lemma erase_loop_range:
  assumes "nand_sane nd" and "nand_erases nd"
  shows "erase_loop nd blocks off n = (0, n') \<Longrightarrow> nd_erasesize nd dvd off \<Longrightarrow>
    nd_isbad nd n' = nd_isbad nd n \<and> (\<forall>off'. off' + nd_erasesize nd \<le> off \<longrightarrow> erased nd n' off' = erased nd n off') \<and>
    (\<forall>j<blocks. nd_isbad nd n (off + j * nd_erasesize nd) = 0 \<longrightarrow> erased nd n' (off + j * nd_erasesize nd))"
proof (induction blocks arbitrary: off n)
  case (Suc blocks)
  let ?bs = "nd_erasesize nd"
  obtain n1 where n1: "erase_loop nd blocks (off + ?bs) n1 = (0, n')" "nd_isbad nd n1 = nd_isbad nd n"
    "\<And>off'. off' + ?bs \<le> off \<Longrightarrow> erased nd n1 off' = erased nd n off'" "nd_isbad nd n off = 0 \<Longrightarrow> erased nd n1 off"
  proof (cases "nd_isbad nd n off = 0")
    case False
    then show thesis using that [of n] Suc.prems(1) by (auto split: if_splits)
  next
    case True
    obtain failed n1 where e: "nd_erase nd n off = (failed, n1)" by fastforce
    note e' = nand_sane_erase [OF assms Suc.prems(2) True e]
    show thesis
      using that [of n1] Suc.prems(1) True e e' by (auto simp: same_elsewhere_bad same_elsewhere_erased)
  qed
  have IH: "nd_isbad nd n' = nd_isbad nd n1" "\<And>off'. off' + ?bs \<le> off + ?bs \<Longrightarrow> erased nd n' off' = erased nd n1 off'"
    "\<And>j. j < blocks \<Longrightarrow> nd_isbad nd n1 (off + ?bs + j * ?bs) = 0 \<Longrightarrow> erased nd n' (off + ?bs + j * ?bs)"
    using Suc.IH [OF n1(1)] Suc.prems(2) by simp_all
  have "erased nd n' (off + j * ?bs)" if "j < Suc blocks" "nd_isbad nd n (off + j * ?bs) = 0" for j
    using that IH(2) [of off] IH(3) [of "j - 1"] n1(2,4) by (cases j) (simp_all add: add.assoc)
  then show ?case using IH(1,2) n1(2,3) by (auto simp: add_increasing2)
qed simp

lemma nand_erase_opts_range:
  assumes "nand_sane nd" and "nand_erases nd" and "nd_erasesize nd dvd off" and "nand_erase_opts nd off len n = Some (0, n')"
  shows "range_erased nd off (off + len) n'"
proof -
  let ?bs = "nd_erasesize nd"
  have e: "erase_loop nd ((len + ?bs - 1) div ?bs) off n = (0, n')" "0 < ?bs"
    using assms(4) by (auto simp: nand_erase_opts_def split: if_splits)
  have "j < (len + ?bs - 1) div ?bs" if "off + j * ?bs < off + len" for j
  proof -
    have "Suc j * ?bs \<le> len + ?bs - 1" using that by simp
    then have "Suc j \<le> (len + ?bs - 1) div ?bs" using e(2) by (simp add: less_eq_div_iff_mult_less_eq)
    then show ?thesis by simp
  qed
  then show ?thesis
    using erase_loop_range [OF assms(1,2) e(1) assms(3)] by (simp add: range_erased_def)
qed

text \<open>One step of a write that succeeds in the end.\<close>

lemma writeenv_loop_cases:
  assumes "writeenv_loop nd buf end_off off saved n = Some (False, n')"
  obtains (finished) "saved = CONFIG_ENV_SIZE" "n' = n"
  | (bad) "saved < CONFIG_ENV_SIZE" "off < end_off" "0 < nd_erasesize nd" "nd_isbad nd n off \<noteq> 0"
      "writeenv_loop nd buf end_off (off + nd_erasesize nd) saved n = Some (False, n')"
  | (wrote) n1 where "saved < CONFIG_ENV_SIZE" "off < end_off" "0 < nd_erasesize nd" "nd_isbad nd n off = 0"
      "saved + min (nd_erasesize nd) CONFIG_ENV_SIZE \<le> length buf"
      "nd_write nd n off (slice buf saved (min (nd_erasesize nd) CONFIG_ENV_SIZE)) = (False, n1)"
      "writeenv_loop nd buf end_off (off + nd_erasesize nd) (saved + min (nd_erasesize nd) CONFIG_ENV_SIZE) n1 = Some (False, n')"
  using assms
  by (subst (asm) (3) writeenv_loop.simps) (auto simp: Let_def not_less split: if_splits prod.splits bool.splits)

lemma length_env_slice:
  "saved + min bs CONFIG_ENV_SIZE \<le> length buf \<Longrightarrow> length (slice buf saved (min bs CONFIG_ENV_SIZE)) = min bs CONFIG_ENV_SIZE"
  by (simp add: slice_def)

text \<open>The rest of a write leaves the bad-block table and the blocks before it alone.\<close>

lemma writeenv_loop_frame:
  assumes "nand_sane nd"
  shows "writeenv_loop nd buf end_off off saved n = Some (False, n') \<Longrightarrow> nd_erasesize nd dvd off \<Longrightarrow> range_erased nd off end_off n \<Longrightarrow>
    nd_isbad nd n' = nd_isbad nd n \<and>
    (\<forall>off' len. off' + nd_erasesize nd \<le> off \<longrightarrow> len \<le> nd_erasesize nd \<longrightarrow> nd_read nd n' off' len = nd_read nd n off' len)"
proof (induction "end_off - off" arbitrary: off saved n rule: less_induct)
  case less
  from less.prems(1) show ?case
  proof (cases rule: writeenv_loop_cases)
    case bad
    then show ?thesis
      using less.hyps [of "off + nd_erasesize nd" saved n] less.prems(2) range_erased_rest [OF less.prems(3), of n] by auto
  next
    case (wrote n1)
    note w = nand_sane_write [OF assms less.prems(2) wrote(4) _ range_erased_first [OF less.prems(3) wrote(2,4)] wrote(6)]
    have w2: "same_elsewhere nd off n n1" using w(2) length_env_slice [OF wrote(5)] by simp
    have "nd_isbad nd n' = nd_isbad nd n1 \<and> (\<forall>off' len. off' + nd_erasesize nd \<le> off + nd_erasesize nd \<longrightarrow>
        len \<le> nd_erasesize nd \<longrightarrow> nd_read nd n' off' len = nd_read nd n1 off' len)"
      using wrote(2,3) less.prems(2) range_erased_rest [OF less.prems(3)] w2 by (intro less.hyps [OF _ wrote(7)]) auto
    then show ?thesis using w2 by (auto simp: same_elsewhere_def)
  qed simp
qed

text \<open>Reading follows the same blocks.\<close>

lemma readenv_loop_after_write:
  assumes "nand_sane nd" and "length buf = CONFIG_ENV_SIZE"
  shows "writeenv_loop nd buf end_off off saved n = Some (False, n') \<Longrightarrow> nd_erasesize nd dvd off \<Longrightarrow> range_erased nd off end_off n \<Longrightarrow>
    length b = CONFIG_ENV_SIZE \<Longrightarrow> take saved b = take saved buf \<Longrightarrow> readenv_loop nd n' end_off off saved b = Some (False, buf)"
proof (induction "end_off - off" arbitrary: off saved n b rule: less_induct)
  case less
  let ?len = "min (nd_erasesize nd) CONFIG_ENV_SIZE"
  note rest = range_erased_rest [OF less.prems(3)]
  from less.prems(1) show ?case
  proof (cases rule: writeenv_loop_cases)
    case finished
    then show ?thesis using less.prems assms(2) by (subst readenv_loop.simps) simp
  next
    case bad
    have dv: "nd_erasesize nd dvd off + nd_erasesize nd" using less.prems(2) by simp
    have "nd_isbad nd n' = nd_isbad nd n" using writeenv_loop_frame [OF assms(1) bad(5) dv rest] by blast
    moreover have "readenv_loop nd n' end_off (off + nd_erasesize nd) saved b = Some (False, buf)"
      using bad(2,3) less.prems rest [of n] by (intro less.hyps [OF _ bad(5)]) auto
    ultimately show ?thesis using bad by (subst readenv_loop.simps) (simp add: Let_def)
  next
    case (wrote n1)
    let ?bytes = "slice buf saved ?len"
    have len: "length ?bytes = ?len" using length_env_slice [OF wrote(5)] .
    have w: "nd_read nd n1 off ?len = Some ?bytes" "same_elsewhere nd off n n1"
      using nand_sane_write [OF assms(1) less.prems(2) wrote(4) _ range_erased_first [OF less.prems(3) wrote(2,4)] wrote(6)] len by simp_all
    have dv: "nd_erasesize nd dvd off + nd_erasesize nd" using less.prems(2) by simp
    have f: "nd_isbad nd n' = nd_isbad nd n" "nd_read nd n' off ?len = Some ?bytes"
      using writeenv_loop_frame [OF assms(1) wrote(7) dv rest] w by (auto simp: same_elsewhere_bad)
    moreover have "take (saved + ?len) (store b saved ?bytes) = take (saved + ?len) buf"
      using less.prems(4,5) wrote(1) len assms(2) by (simp add: store_def slice_def take_add)
    then have "readenv_loop nd n' end_off (off + nd_erasesize nd) (saved + ?len) (store b saved ?bytes) = Some (False, buf)"
      using wrote(2,3,5) less.prems(4) len assms(2) dv rest w(2)
      by (intro less.hyps [OF _ wrote(7)]) (auto simp: store_def)
    ultimately show ?thesis
      using wrote len less.prems(4) assms(2) by (subst readenv_loop.simps) (simp add: Let_def)
  qed
qed

lemma readenv_writeenv:
  assumes "nand_sane nd" and "nand_erases nd" and "nd_erasesize nd dvd off" and "length buf = CONFIG_ENV_SIZE" and "length b = CONFIG_ENV_SIZE"
    and "nand_erase_opts nd off CONFIG_ENV_RANGE n = Some (0, n1)" and "writeenv nd off buf n1 = Some (False, n')"
  shows "readenv nd n' off b = Some (False, buf)"
proof -
  have "nd_erasesize nd \<noteq> 0"
    using assms(7) unfolding writeenv_def
    by (cases rule: writeenv_loop_cases) (auto simp: CONFIG_ENV_SIZE_def)
  then show ?thesis
    using readenv_loop_after_write [OF assms(1,4) assms(7) [unfolded writeenv_def] assms(3) nand_erase_opts_range [OF assms(1-3,6)] assms(5)]
    by (simp add: readenv_def)
qed

lemma crc_matches_iff:
  assumes "length buf = CONFIG_ENV_SIZE"
  shows "\<exists>crc. crc32 0 (h @ drop ENV_HEADER_SIZE buf) (length h) ENV_SIZE = Some crc \<and>
    crc_matches buf = Some (crc_bytes_of crc = take 4 buf)"
proof -
  have "ENV_HEADER_SIZE + ENV_SIZE = CONFIG_ENV_SIZE" by (simp add: ENV_SIZE_def ENV_HEADER_SIZE_def CONFIG_ENV_SIZE_def)
  then have len: "length (drop ENV_HEADER_SIZE buf) = ENV_SIZE" "ENV_HEADER_SIZE + ENV_SIZE \<le> length buf" using assms by auto
  then have "slice buf ENV_HEADER_SIZE ENV_SIZE = drop ENV_HEADER_SIZE buf"
    "slice (h @ drop ENV_HEADER_SIZE buf) (length h) ENV_SIZE = drop ENV_HEADER_SIZE buf" by (simp_all add: slice_def)
  then show ?thesis
    using crc32_fold [of "length h" ENV_SIZE "h @ drop ENV_HEADER_SIZE buf" 0] crc32_fold [of ENV_HEADER_SIZE ENV_SIZE buf 0] len
    by (simp add: crc_matches_def)
qed

lemma length_crc_bytes_of [simp]: "length (crc_bytes_of c) = 4"
  by (simp add: crc_bytes_of_def)

lemma hexport_r_extent:
  "hexport_r h sep (Some b) sz0 argv mo = Some (Exported sz out) \<Longrightarrow> sz0 \<noteq> 0 \<Longrightarrow> length out = length b \<and> sz = sz0"
  by (auto simp: hexport_r_def store_def bind_Some_iff Let_def split: if_splits)

text \<open>What \<open>saveenv\<close> wrote when it succeeded.\<close>

lemma saveenv_image:
  assumes "saveenv nd env_new st n = Some (0, n')" and "length env_new = CONFIG_ENV_SIZE"
  obtains dat crc n1 where "hexport_r (env_htab st) NUL (Some (drop ENV_HEADER_SIZE env_new)) ENV_SIZE [] [] = Some (Exported ENV_SIZE dat)"
    "length dat = ENV_SIZE" "crc_matches (crc_bytes_of crc @ dat) = Some True"
    "nand_erase_opts nd CONFIG_ENV_OFFSET CONFIG_ENV_RANGE n = Some (0, n1)"
    "writeenv nd CONFIG_ENV_OFFSET (crc_bytes_of crc @ dat) n1 = Some (False, n')"
proof -
  have sizes: "ENV_SIZE \<noteq> 0" "ENV_HEADER_SIZE = 4" "4 + ENV_SIZE = CONFIG_ENV_SIZE"
    by (simp_all add: ENV_SIZE_def ENV_HEADER_SIZE_def CONFIG_ENV_SIZE_def)
  obtain len dat crc n1 where r: "hexport_r (env_htab st) NUL (Some (drop 4 env_new)) ENV_SIZE [] [] = Some (Exported len dat)"
    "crc32 0 (take 4 env_new @ dat) 4 ENV_SIZE = Some crc" "nand_erase_opts nd CONFIG_ENV_OFFSET CONFIG_ENV_RANGE n = Some (0, n1)"
    "writeenv nd CONFIG_ENV_OFFSET (crc_bytes_of crc @ dat) n1 = Some (False, n')"
  proof -
    from assms(1) obtain res where res: "hexport_r (env_htab st) NUL (Some (drop 4 env_new)) ENV_SIZE [] [] = Some res"
      unfolding saveenv_def sizes(2) by (auto simp: bind_Some_iff split: if_splits)
    then show thesis
      using assms(1) that unfolding saveenv_def sizes(2)
      by (cases res) (auto simp: bind_Some_iff split: if_splits)
  qed
  have dat: "length dat = ENV_SIZE" "len = ENV_SIZE" using hexport_r_extent [OF r(1) sizes(1)] assms(2) sizes by auto
  then have "crc_matches (crc_bytes_of crc @ dat) = Some True"
    using crc_matches_iff [of "crc_bytes_of crc @ dat" "take 4 env_new"] r(2) sizes assms(2) by (auto simp: min_def)
  then show thesis using that r dat sizes by auto
qed

text \<open>C13. Saving and loading: when \<open>saveenv\<close> succeeds, the environment that \<open>env_relocate\<close> builds from the flash after a restart has
  exactly the saved variables, whatever was in memory and in the flash before, and skipping the same bad blocks. The flash keeps
  what is written to it only where it was erased before; erasing a good block succeeds; the environment starts at a block; the
  variables are at most 512, with names and values that the text form can carry; memory is available.\<close>

theorem saveenv_relocate:
  assumes "env_ok st" and "\<And>k v. env_vars st k = Some v \<Longrightarrow> good_entry NUL (k, v)" and "card (dom (env_vars st)) \<le> 512"
    and "nand_sane nd" and "nand_erases nd" and "nd_erasesize nd dvd CONFIG_ENV_OFFSET"
    and "length env_new = CONFIG_ENV_SIZE" and "saveenv nd env_new st n = Some (0, n')"
    and "ht_ok (env_htab st0) \<or> ht_table (env_htab st0) = None" and "env_valid st0 \<noteq> 0" and "\<not> cfg_skip cfg"
    and "length buf = CONFIG_ENV_SIZE"
  shows "\<exists>st'. env_relocate cfg nd n' buf [] st0 = Some st' \<and> env_ok st' \<and> env_vars st' = env_vars st"
proof -
  have sizes: "ENV_HEADER_SIZE = 4" "4 + ENV_SIZE = CONFIG_ENV_SIZE" "import_entries ENV_SIZE = 512"
    by (simp_all add: ENV_SIZE_def ENV_HEADER_SIZE_def CONFIG_ENV_SIZE_def import_entries_def CONFIG_ENV_MIN_ENTRIES_def
        CONFIG_ENV_MAX_ENTRIES_def)
  obtain dat crc n1 where im: "hexport_r (env_htab st) NUL (Some (drop ENV_HEADER_SIZE env_new)) ENV_SIZE [] [] = Some (Exported ENV_SIZE dat)"
    "length dat = ENV_SIZE" "crc_matches (crc_bytes_of crc @ dat) = Some True"
    "nand_erase_opts nd CONFIG_ENV_OFFSET CONFIG_ENV_RANGE n = Some (0, n1)"
    "writeenv nd CONFIG_ENV_OFFSET (crc_bytes_of crc @ dat) n1 = Some (False, n')"
    using saveenv_image [OF assms(8,7)] .
  have rd: "readenv nd n' CONFIG_ENV_OFFSET buf = Some (False, crc_bytes_of crc @ dat)"
    using readenv_writeenv [OF assms(4-6) _ assms(12) im(4,5)] im(2) sizes by simp
  let ?h0 = "(env_htab st0)\<lparr>ht_apply := Some (env_refuses cfg)\<rparr>"
  have "ht_ok ?h0 \<or> ht_table ?h0 = None" using assms(9) by (simp add: ht_ok_def)
  then obtain ist where "himport_r ?h0 dat ENV_SIZE NUL 0 [] False [] = Some (True, ist)" "ht_ok (im_htab ist)"
    "ht_map (im_htab ist) = ht_map (env_htab st)" "im_calls ist = []"
  proof -
    have "\<exists>st'. himport_r ?h0 dat ENV_SIZE NUL 0 [] False [] = Some (True, st') \<and> ht_ok (im_htab st') \<and>
        ht_map (im_htab st') = ht_map (env_htab st) \<and> im_calls st' = []"
      using assms(1,2,3,7) sizes \<open>ht_ok ?h0 \<or> ht_table ?h0 = None\<close>
      by (intro export_import_map [OF _ im(1)]) (simp_all add: env_ok_def env_vars_def good_sep_def)
    then show thesis using that by blast
  qed
  then have "env_import cfg (crc_bytes_of crc @ dat) True [] st0 = Some (True, st0\<lparr>env_htab := im_htab ist, env_ready := True\<rparr>)"
    using im(3) sizes(1) by (simp add: env_import_def env_himport_def)
  then show ?thesis
    using rd assms(10,11) \<open>ht_ok (im_htab ist)\<close> \<open>ht_map (im_htab ist) = ht_map (env_htab st)\<close>
    by (simp add: env_relocate_def env_relocate_spec_def env_ok_def env_vars_def)
qed

text \<open>A device of blocks of the size of the environment, none of them bad: writing clears bits and never sets one.\<close>

definition programmed :: "char \<Rightarrow> char \<Rightarrow> char" where
  "programmed old new = char_byte (byte_of old AND byte_of new)"

definition perfect_nand :: "(nat \<Rightarrow> mem) nand_ops" where
  "perfect_nand = \<lparr>nd_erasesize = CONFIG_ENV_SIZE, nd_writesize = 2048, nd_isbad = (\<lambda>_ _. 0),
     nd_erase = (\<lambda>n off. (False, n(off := replicate CONFIG_ENV_SIZE (CHR 0xFF)))),
     nd_write = (\<lambda>n off bs. (False, n(off := map2 programmed (n off) bs @ drop (length bs) (n off)))),
     nd_read = (\<lambda>n off len. Some (take len (n off)))\<rparr>"

lemma map2_programmed: "length bs \<le> k \<Longrightarrow> map2 programmed (replicate k (CHR 0xFF)) bs = bs"
proof -
  have "byte_of (CHR 0xFF) = -1" by (simp add: byte_of_def)
  then have "programmed (CHR 0xFF) c = c" for c by (simp add: programmed_def)
  then show "length bs \<le> k \<Longrightarrow> map2 programmed (replicate k (CHR 0xFF)) bs = bs"
    by (intro nth_equalityI) auto
qed

lemma perfect_nand_ops [simp]:
  "nd_erasesize perfect_nand = CONFIG_ENV_SIZE" "nd_writesize perfect_nand = 2048" "nd_isbad perfect_nand n off = 0"
  "nd_erase perfect_nand n off = (False, n(off := replicate CONFIG_ENV_SIZE (CHR 0xFF)))"
  "nd_write perfect_nand n off bs = (False, n(off := map2 programmed (n off) bs @ drop (length bs) (n off)))"
  "nd_read perfect_nand n off len = Some (take len (n off))"
  by (simp_all add: perfect_nand_def)

lemma program_erased:
  assumes "length bs \<le> k" and "take k m = replicate k (CHR 0xFF)"
  shows "take (length bs) (map2 programmed m bs @ drop (length bs) m) = bs"
proof -
  have m: "k \<le> length m" using arg_cong [OF assms(2), of length] by simp
  have "map2 programmed m bs = map2 programmed (take k m) bs"
    using assms(1) m by (intro nth_equalityI) auto
  then show ?thesis using assms map2_programmed [of bs k] by simp
qed

lemma perfect_nand_elsewhere: "same_elsewhere perfect_nand off n (n(off := m))"
proof -
  have "off' \<noteq> off" if "off' + CONFIG_ENV_SIZE \<le> off \<or> off + CONFIG_ENV_SIZE \<le> off'" for off'
    using that by (auto simp: CONFIG_ENV_SIZE_def)
  then show ?thesis unfolding same_elsewhere_def by auto
qed

lemma perfect_nand_sane: "nand_sane perfect_nand" "nand_erases perfect_nand"
proof -
  show "nand_sane perfect_nand"
    unfolding nand_sane_def
  proof (intro conjI allI impI)
    fix n off n' assume "nd_erase perfect_nand n off = (False, n')"
    then show "erased perfect_nand n' off" "same_elsewhere perfect_nand off n n'"
      using perfect_nand_elsewhere by (auto simp: erased_def min_def)
  next
    fix n off bs n'
    assume w: "length bs \<le> nd_erasesize perfect_nand" "erased perfect_nand n off" "nd_write perfect_nand n off bs = (False, n')"
    have "take CONFIG_ENV_SIZE (n off) = replicate CONFIG_ENV_SIZE (CHR 0xFF)" using w(2) by (simp add: erased_def)
    then show "nd_read perfect_nand n' off (length bs) = Some bs" "same_elsewhere perfect_nand off n n'"
      using w(1,3) program_erased [of bs CONFIG_ENV_SIZE "n off"] perfect_nand_elsewhere by auto
  qed
  show "nand_erases perfect_nand" by (simp add: nand_erases_def)
qed

lemma perfect_nand_write:
  "length buf = CONFIG_ENV_SIZE \<Longrightarrow> \<exists>n'. writeenv perfect_nand off buf n = Some (False, n')"
  unfolding writeenv_def
  by (subst writeenv_loop.simps, subst writeenv_loop.simps)
    (auto simp: perfect_nand_def CONFIG_ENV_SIZE_def CONFIG_ENV_RANGE_def Let_def)

lemma perfect_nand_erase: "\<exists>n'. nand_erase_opts perfect_nand CONFIG_ENV_OFFSET CONFIG_ENV_RANGE n = Some (0, n')"
proof -
  have one: "(CONFIG_ENV_RANGE + CONFIG_ENV_SIZE - 1) div CONFIG_ENV_SIZE = Suc 0" "CONFIG_ENV_SIZE \<noteq> 0"
    by (simp_all add: CONFIG_ENV_SIZE_def CONFIG_ENV_RANGE_def)
  have "CONFIG_ENV_OFFSET AND ((2048 + 2 ^ 32 - 1) mod 2 ^ 32) = 0" by (simp add: CONFIG_ENV_OFFSET_def)
  then have "nand_erase_opts perfect_nand CONFIG_ENV_OFFSET CONFIG_ENV_RANGE n = Some (erase_loop perfect_nand (Suc 0) CONFIG_ENV_OFFSET n)"
    unfolding nand_erase_opts_def perfect_nand_ops one(1) using one(2) by (simp only: simp_thms if_False)
  then show ?thesis by simp
qed

lemma export_table5:
  assumes "0 < sz" and "sz \<le> length b"
  shows "\<exists>out. hexport_r table5 NUL (Some b) sz [] [] = Some (Exported sz out) \<and> length out = length b"
proof -
  obtain t where t: "ht_table table5 = Some t" "tab_ok t 5" "slot_entries t = []"
    using table5_ok(1) by (auto simp: ht_ok_def table5_def slot_entries_def empty_slot_def)
  have "ht_size table5 = 5" by (simp add: table5_def)
  then show ?thesis
    unfolding hexport_r_def t(1) bind.bind_lunit
    by (simp only: collect_entries [OF t(2)] t(3)) (use assms in \<open>simp add: totlen_def qsort_def export_text_def store_def Let_def\<close>)
qed

lemma saveenv_env5:
  "\<exists>n'. saveenv perfect_nand (replicate CONFIG_ENV_SIZE NUL) env5 n = Some (0, n')"
proof -
  have sizes: "ENV_HEADER_SIZE = 4" "4 + ENV_SIZE = CONFIG_ENV_SIZE" "0 < ENV_SIZE"
    by (simp_all add: ENV_SIZE_def ENV_HEADER_SIZE_def CONFIG_ENV_SIZE_def)
  let ?b = "replicate CONFIG_ENV_SIZE NUL"
  obtain out where out: "hexport_r (env_htab env5) NUL (Some (drop 4 ?b)) ENV_SIZE [] [] = Some (Exported ENV_SIZE out)" "length out = ENV_SIZE"
  proof -
    have len: "length (drop 4 ?b) = ENV_SIZE" unfolding sizes(2) [symmetric] by simp
    then show thesis using export_table5 [of ENV_SIZE "drop 4 ?b"] sizes(3) that by (auto simp: env5_def)
  qed
  obtain crc where "crc32 0 (take 4 ?b @ out) 4 ENV_SIZE = Some crc"
    using crc32_fold [of 4 ENV_SIZE "take 4 ?b @ out" 0] out(2) sizes by simp
  moreover obtain n1 where "nand_erase_opts perfect_nand CONFIG_ENV_OFFSET CONFIG_ENV_RANGE n = Some (0, n1)" using perfect_nand_erase by blast
  moreover obtain n2 where "writeenv perfect_nand CONFIG_ENV_OFFSET (crc_bytes_of crc @ out) n1 = Some (False, n2)"
    using perfect_nand_write [of "crc_bytes_of crc @ out"] out(2) sizes by auto
  ultimately show ?thesis
    using out(1) unfolding saveenv_def sizes(1) by (simp add: CONFIG_ENV_RANGE_def CONFIG_ENV_SIZE_def)
qed

theorem saveenv_relocate_witness:
  "\<exists>n' st'. saveenv perfect_nand (replicate CONFIG_ENV_SIZE NUL) env5 (\<lambda>_. []) = Some (0, n') \<and>
     env_relocate cfg5 perfect_nand n' (replicate CONFIG_ENV_SIZE NUL) [] env5 = Some st' \<and> env_vars st' = Map.empty"
proof -
  obtain n' where n': "saveenv perfect_nand (replicate CONFIG_ENV_SIZE NUL) env5 (\<lambda>_. []) = Some (0, n')" using saveenv_env5 by blast
  have "\<exists>st'. env_relocate cfg5 perfect_nand n' (replicate CONFIG_ENV_SIZE NUL) [] env5 = Some st' \<and> env_ok st' \<and> env_vars st' = env_vars env5"
    by (rule saveenv_relocate [OF _ _ _ perfect_nand_sane _ _ n'])
      (simp_all add: env_ok_def env_vars_def env5_def table5_ok cfg5_def, simp add: perfect_nand_def CONFIG_ENV_SIZE_def CONFIG_ENV_OFFSET_def)
  then show ?thesis using n' by (auto simp: env_vars_def env5_def table5_ok)
qed

text \<open>C17. Recovery: when the flash cannot be read, or the checksum does not match, \<open>env_relocate\<close> still gives a usable environment, with
  the variables of the default environment.\<close>

theorem env_relocate_recovers:
  assumes "ht_ok (env_htab st) \<or> ht_table (env_htab st) = None" and "env_valid st \<noteq> 0" and "\<not> cfg_skip cfg"
    and "length (cfg_default cfg) \<le> ENV_SIZE" and "import_items NUL (cfg_default cfg) = Some its"
    and "length (filter is_put (text_ops its)) \<le> import_entries (length (cfg_default cfg))"
    and "readenv nd n CONFIG_ENV_OFFSET buf = Some (failed, buf')" and "failed \<or> crc_matches buf' = Some False"
  shows "\<exists>st'. env_relocate cfg nd n buf [] st = Some st' \<and> env_ok st' \<and> env_vars st' = fold op_map (text_ops its) Map.empty"
proof -
  let ?h = "(env_htab st)\<lparr>ht_apply := Some (env_refuses cfg)\<rparr>" and ?d = "cfg_default cfg"
  have "ht_ok ?h \<or> ht_table ?h = None" using assms(1) by (simp add: ht_ok_def)
  then obtain ist where "himport_r ?h ?d (length ?d) NUL 0 [] False [] = Some (True, ist)" "ht_ok (im_htab ist)"
    "ht_map (im_htab ist) = fold op_map (text_ops its) Map.empty" "im_calls ist = []"
    using himport_r_map [of ?h "length ?d" ?d NUL its 0] assms(5,6) by (auto simp: import_room_def import_base_def)
  then have "set_default_env cfg (Some (CHR ''!'' # r)) [] st = Some (st\<lparr>env_htab := im_htab ist, env_ready := True\<rparr>)" for r
    using assms(4) by (simp add: set_default_env_def env_himport_def not_less Let_def)
  then show ?thesis
    using assms(2,3,7,8) \<open>ht_ok (im_htab ist)\<close> \<open>ht_map (im_htab ist) = _\<close>
    by (auto simp: env_relocate_def env_relocate_spec_def env_import_def env_ok_def env_vars_def)
qed

theorem env_relocate_recovers_witness:
  "\<exists>st'. env_relocate cfg5 (perfect_nand\<lparr>nd_erasesize := 0\<rparr>) (\<lambda>_. []) [] [] env5 = Some st' \<and> env_ok st' \<and> env_vars st' = Map.empty"
proof -
  have "import_items NUL [NUL] = Some [Delete []]"
    by (subst import_items.simps) (simp add: import_item_def import_rest_def in_name_def isblank_def)
  then show ?thesis
    using env_relocate_recovers [of env5 cfg5 "[Delete []]" "perfect_nand\<lparr>nd_erasesize := 0\<rparr>" "\<lambda>_. []" "[]" True "[]"]
    by (auto simp: env5_def cfg5_def table5_ok readenv_def ENV_SIZE_def ENV_HEADER_SIZE_def CONFIG_ENV_SIZE_def)
qed

text \<open>A failed erasure is not noticed: the call succeeds although no block was erased.\<close>

lemma erase_failure_unnoticed:
  assumes "\<And>a. nd_isbad nd n a = 0" and "\<And>a. nd_erase nd n a = (True, n)" and "nd_erasesize nd \<noteq> 0"
    and "off AND ((nd_writesize nd + 2 ^ 32 - 1) mod 2 ^ 32) = 0"
  shows "nand_erase_opts nd off len n = Some (0, n)"
proof -
  have "erase_loop nd k a n = (0, n)" for k a using assms(1,2) by (induction k arbitrary: a) simp_all
  then show ?thesis unfolding nand_erase_opts_def using assms(3,4) by simp
qed

section \<open>Lookup before the table exists\<close>

text \<open>The linear form of the environment: entries, each with its NUL, and a last NUL.\<close>

definition entry_line :: "string \<times> string \<Rightarrow> mem" where
  "entry_line e = fst e @ CHR ''='' # snd e @ [NUL]"

definition env_lines :: "(string \<times> string) list \<Rightarrow> mem" where
  "env_lines es = concat (map entry_line es) @ [NUL]"

definition line_ok :: "string \<times> string \<Rightarrow> bool" where
  "line_ok e \<longleftrightarrow> cstring (fst e) \<and> CHR ''='' \<notin> set (fst e) \<and> cstring (snd e)"

lemma rd_append: "rd (a @ m) (length a + i) = rd m i"
  by (auto simp: rd_def nth_append)

lemma envmatch_append: "envmatch (a @ m) s (length a + i) = map_option (map_option ((+) (length a))) (envmatch m s i)"
proof (induction s arbitrary: i)
  case (Cons c s)
  have "envmatch (a @ m) s (length a + Suc i) = map_option (map_option ((+) (length a))) (envmatch m s (Suc i))" by (rule Cons)
  then show ?case by (auto simp: rd_append split: bind_splits)
qed simp

lemma envmatch_same: "cstring k \<Longrightarrow> CHR ''='' \<notin> set k \<Longrightarrow> envmatch (k @ CHR ''='' # r) (k @ [NUL]) 0 = Some (Some (length k + 1))"
proof (induction k)
  case (Cons c k)
  then have "envmatch ([c] @ k @ CHR ''='' # r) (k @ [NUL]) (length [c] + 0) = Some (Some (length k + 2))"
    by (subst envmatch_append) (simp add: cstring_def)
  then show ?case using Cons.prems by (auto simp: rd_def cstring_def)
qed (simp add: rd_def)

lemma envmatch_other:
  "cstring k \<Longrightarrow> CHR ''='' \<notin> set k \<Longrightarrow> cstring name \<Longrightarrow> CHR ''='' \<notin> set name \<Longrightarrow> k \<noteq> name \<Longrightarrow>
    envmatch (k @ CHR ''='' # r) (name @ [NUL]) 0 = Some None"
proof (induction k arbitrary: name)
  case Nil
  then show ?case by (cases name) (auto simp: rd_def cstring_def)
next
  case (Cons c k)
  show ?case
  proof (cases name)
    case Nil
    then show ?thesis using Cons.prems by (auto simp: rd_def cstring_def)
  next
    case (Cons d name')
    show ?thesis
    proof (cases "c = d")
      case True
      have "envmatch ([c] @ k @ CHR ''='' # r) (name' @ [NUL]) (length [c] + 0) = Some None"
        using Cons.IH [of name'] Cons.prems Cons True by (subst envmatch_append) (simp add: cstring_def)
      then show ?thesis using Cons Cons.prems True by (auto simp: rd_def)
    next
      case False
      then show ?thesis using Cons Cons.prems by (auto simp: rd_def cstring_def)
    qed
  qed
qed

lemma entry_end_line:
  "cstring t \<Longrightarrow> length a + length t \<le> CONFIG_ENV_SIZE \<Longrightarrow> entry_end (a @ t @ NUL # r) (length a) = Some (Some (length a + length t))"
proof (induction t arbitrary: a)
  case Nil
  then show ?case by (subst entry_end.simps) simp
next
  case (Cons c t)
  have "entry_end ((a @ [c]) @ t @ NUL # r) (length (a @ [c])) = Some (Some (length (a @ [c]) + length t))"
    using Cons.prems by (intro Cons.IH) (auto simp: cstring_def)
  then show ?case using Cons.prems by (subst entry_end.simps) (auto simp: cstring_def)
qed

lemma copy_value_line:
  "cstring v \<Longrightarrow> copy_value (a @ v @ NUL # r) (length a) n len buf =
    Some (if length v < len then (int (n + length v), buf @ v) else (int (n + len), butlast (buf @ take len v)))"
proof (induction v arbitrary: a n len buf)
  case Nil
  then show ?case by (cases len) (simp_all add: rd_def)
next
  case (Cons c v)
  show ?case
  proof (cases len)
    case (Suc l)
    have "copy_value ((a @ [c]) @ v @ NUL # r) (length (a @ [c])) (n + 1) l (buf @ [c]) =
      Some (if length v < l then (int (n + 1 + length v), (buf @ [c]) @ v) else (int (n + 1 + l), butlast ((buf @ [c]) @ take l v)))"
      using Cons.prems by (intro Cons.IH) (simp add: cstring_def)
    then show ?thesis using Cons.prems Suc by (auto simp: rd_def cstring_def nth_append)
  qed simp
qed

lemma getenv_f_loop_lines:
  assumes "cstring name" and "CHR ''='' \<notin> set name"
  shows "list_all line_ok es \<Longrightarrow> length a + length (env_lines es) \<le> CONFIG_ENV_SIZE \<Longrightarrow>
    getenv_f_loop (a @ env_lines es @ z) name len (length a) =
      Some (case map_of es name of
              None \<Rightarrow> (-1, [])
            | Some v \<Rightarrow> if length v < len then (int (length v), v) else (int len, butlast (take len v)))"
proof (induction es arbitrary: a)
  case Nil
  then show ?case by (subst getenv_f_loop.simps) (simp add: env_lines_def rd_def)
next
  case (Cons e es)
  obtain k v where e: "e = (k, v)" by fastforce
  have k: "cstring k" "CHR ''='' \<notin> set k" "cstring v" using Cons.prems(1) by (simp_all add: line_ok_def e)
  let ?t = "k @ CHR ''='' # v" and ?r = "env_lines es @ z"
  let ?m = "a @ env_lines (e # es) @ z"
  have m: "?m = a @ ?t @ NUL # ?r" "?m = a @ k @ CHR ''='' # v @ NUL # ?r" "?m = (a @ k @ [CHR ''='']) @ v @ NUL # ?r"
    "?m = (a @ ?t @ [NUL]) @ ?r"
    by (simp_all add: env_lines_def entry_line_def e)
  have rd: "\<exists>c. rd ?m (length a) = Some c \<and> c \<noteq> NUL"
    using k(1) by (cases k) (auto simp: env_lines_def entry_line_def e rd_def nth_append cstring_def)
  have nxt: "entry_end ?m (length a) = Some (Some (length a + length ?t))"
    unfolding m(1) using k Cons.prems(2) by (intro entry_end_line) (auto simp: cstring_def env_lines_def entry_line_def e)
  show ?case
  proof (cases "k = name")
    case True
    have "envmatch ?m (name @ [NUL]) (length a) = Some (Some (length (a @ k @ [CHR ''=''])))"
      using envmatch_append [of a "k @ CHR ''='' # v @ NUL # ?r" "name @ [NUL]" 0] envmatch_same [of k] k True unfolding m(2) by simp
    moreover have "copy_value ?m (length (a @ k @ [CHR ''=''])) 0 len [] =
        Some (if length v < len then (int (length v), v) else (int len, butlast (take len v)))"
      unfolding m(3) using copy_value_line [OF k(3), of "a @ k @ [CHR ''='']"] by simp
    ultimately show ?thesis using rd nxt True by (subst getenv_f_loop.simps) (auto simp: e)
  next
    case False
    have "envmatch ?m (name @ [NUL]) (length a) = Some None"
      using envmatch_append [of a "k @ CHR ''='' # v @ NUL # ?r" "name @ [NUL]" 0] envmatch_other [of k name] k False assms
      unfolding m(2) by simp
    moreover have "getenv_f_loop ?m name len (length (a @ ?t @ [NUL])) =
        Some (case map_of es name of None \<Rightarrow> (-1, [])
              | Some v \<Rightarrow> if length v < len then (int (length v), v) else (int len, butlast (take len v)))"
      unfolding m(4) using Cons.prems by (intro Cons.IH) (auto simp: env_lines_def entry_line_def e)
    ultimately show ?thesis using rd nxt False by (subst getenv_f_loop.simps) (auto simp: e)
  qed
qed

text \<open>Before relocation \<open>getenv_f\<close> searches the linear text: it returns the length of the value of the first entry of that name and
  copies it, cut to the buffer with its NUL, and -1 when there is none. So the early lookup sees the variables that the import
  of the same text puts in the table.\<close>

lemma getenv_f_lookup:
  assumes "env_chars cfg st = env_lines es @ z" and "list_all line_ok es" and "length (env_lines es) \<le> CONFIG_ENV_SIZE"
    and "cstring name" and "CHR ''='' \<notin> set name"
  shows "getenv_f cfg st name len =
      Some (case map_of es name of
              None \<Rightarrow> (-1, [])
            | Some v \<Rightarrow> if length v < len then (int (length v), v) else (int len, butlast (take len v)))"
  using getenv_f_loop_lines [OF assms(4,5,2), of "[]" z len] assms(1,3) by (simp add: getenv_f_def)

end
