(* ===== verification/Digest.thy ===== *)
theory Digest
  imports Prelude
begin

text \<open>
  What the message digests of \<^verbatim>\<open>lib/sha1.c\<close>, \<^verbatim>\<open>lib/sha256.c\<close> and \<^verbatim>\<open>lib/md5.c\<close> share: bytes and words in big- and
  little-endian order, the loop that consumes blocks of 64 bytes, the buffering of an incomplete block between
  calls, and the interface \<open>block_stream\<close> that makes a message fed in pieces the same as the whole message.
\<close>

section \<open>Words and bytes\<close>

definition GET_UINT32_BE :: "u8 list \<Rightarrow> nat \<Rightarrow> u32" where
  "GET_UINT32_BE b i =
     push_bit 24 (ucast (b ! i)) OR push_bit 16 (ucast (b ! (i + 1))) OR push_bit 8 (ucast (b ! (i + 2))) OR ucast (b ! (i + 3))"

text \<open>The four bytes that \<open>PUT_UINT32_BE\<close> stores.\<close>

definition PUT_UINT32_BE :: "u32 \<Rightarrow> u8 list" where
  "PUT_UINT32_BE n = [ucast (drop_bit 24 n), ucast (drop_bit 16 n), ucast (drop_bit 8 n), ucast n]"

text \<open>The byte order of the standards, as arithmetic on the byte values: the number that four bytes spell with the most
  significant one first, and the \<open>n\<close> bytes that spell a number.\<close>

definition be_word :: "u8 list \<Rightarrow> nat \<Rightarrow> u32" where
  "be_word b i =
     word_of_nat (((unat (b ! i) * 256 + unat (b ! (i + 1))) * 256 + unat (b ! (i + 2))) * 256 + unat (b ! (i + 3)))"

definition be_bytes :: "nat \<Rightarrow> nat \<Rightarrow> u8 list" where
  "be_bytes n v = map (\<lambda>k. word_of_nat (v div 256 ^ (n - 1 - k) mod 256)) [0..<n]"

lemma length_be_bytes [simp]: "length (be_bytes n v) = n"
  by (simp add: be_bytes_def)

lemma add_push_byte: "x * 256 + ucast b = push_bit 8 x OR ucast b" for x :: u32 and b :: u8
proof -
  have "push_bit 8 x + ucast b = push_bit 8 x OR ucast b"
    by (rule disjunctive_add) (auto simp: bit_simps dest!: bit_imp_le_length)
  then show ?thesis by (simp add: push_bit_eq_mult)
qed

lemma GET_UINT32_BE_word: "GET_UINT32_BE b i = be_word b i"
proof -
  have "be_word b i = ((ucast (b ! i) * 256 + ucast (b ! (i + 1))) * 256 + ucast (b ! (i + 2))) * 256 + ucast (b ! (i + 3))"
    by (simp add: be_word_def)
  also have "\<dots> = GET_UINT32_BE b i"
    unfolding add_push_byte GET_UINT32_BE_def by (rule bit_word_eqI) (auto simp: bit_simps)
  finally show ?thesis by simp
qed

lemma ucast_drop_bytes: "(ucast (drop_bit (8 * k) w) :: u8) = word_of_nat (unat w div 256 ^ k mod 256)" for w :: "'a::len word"
proof (rule unsigned_word_eqI)
  have "unat (drop_bit (8 * k) w) = unat w div 256 ^ k"
    using take_bit_nat_eq_self [OF unsigned_less [of w, where 'a = nat]]
    by (simp only: unsigned_drop_bit_eq) (simp add: drop_bit_eq_div power_mult)
  then show "unat (ucast (drop_bit (8 * k) w) :: u8) = unat (word_of_nat (unat w div 256 ^ k mod 256) :: u8)"
    by (simp add: unsigned_ucast_eq take_bit_eq_mod unat_of_nat)
qed

lemma PUT_UINT32_BE_bytes: "PUT_UINT32_BE w = be_bytes 4 (unat w)"
proof -
  have "[0..<4] = [0, 1, 2, 3 :: nat]" by (simp add: upt_rec)
  then show ?thesis
    using ucast_drop_bytes [of 0 w] ucast_drop_bytes [of 1 w] ucast_drop_bytes [of 2 w] ucast_drop_bytes [of 3 w]
    by (simp add: PUT_UINT32_BE_def be_bytes_def)
qed

lemma PUT_UINT32_BE_fun: "PUT_UINT32_BE = be_bytes 4 \<circ> unat"
  by (intro ext) (simp add: PUT_UINT32_BE_bytes)

lemma and_32_bits: "x AND 0xFFFFFFFF = x" for x :: u32
proof -
  have "x AND 0xFFFFFFFF = take_bit 32 x" using take_bit_eq_mask [of 32 x] by (simp add: mask_eq_exp_minus_1)
  then show ?thesis by (simp add: take_bit_word_eq_self)
qed

lemma rotate_bits:
  fixes x :: u32
  assumes "0 < n" "n < 32"
  shows "drop_bit n x OR push_bit (32 - n) x = word_rotr n x"
proof (rule bit_word_eqI)
  fix i :: nat
  assume "i < LENGTH(32)"
  then have i: "i < 32" by simp
  have "(i + n) mod 32 = (if i + n < 32 then i + n else i + n - 32)" using i assms by (simp add: le_mod_geq)
  then show "bit (drop_bit n x OR push_bit (32 - n) x) i = bit (word_rotr n x) i"
    using i assms bit_imp_le_length [of x "i + n"] by (auto simp: bit_simps add.commute)
qed

lemma rotate_bits_left: "0 < n \<Longrightarrow> n < 32 \<Longrightarrow> push_bit n x OR drop_bit (32 - n) x = word_rotl n x" for x :: u32
  using rotate_bits [of "32 - n" x] by (simp add: word_rotl_eq_word_rotr or.commute)

text \<open>A \<open>memcpy\<close> into a buffer at an offset. Bytes past the end of the buffer would make it longer.\<close>

definition overwrite :: "u8 list \<Rightarrow> nat \<Rightarrow> u8 list \<Rightarrow> u8 list" where
  "overwrite b i xs = take i b @ xs @ drop (i + length xs) b"

lemma length_overwrite [simp]: "i + length xs \<le> length b \<Longrightarrow> length (overwrite b i xs) = length b"
  by (simp add: overwrite_def)

lemma take_overwrite [simp]: "i \<le> length b \<Longrightarrow> take (i + length xs) (overwrite b i xs) = take i b @ xs"
  by (simp add: overwrite_def)

section \<open>Blocks\<close>

text \<open>The loop \<open>while (length >= 64)\<close>: the state after the complete blocks and the bytes that are left.\<close>

function process_blocks :: "('s \<Rightarrow> u8 list \<Rightarrow> 's) \<Rightarrow> 's \<Rightarrow> u8 list \<Rightarrow> 's \<times> u8 list" where
  "process_blocks process st input =
     (if length input \<ge> 64 then process_blocks process (process st (take 64 input)) (drop 64 input) else (st, input))"
  by pat_completeness auto
termination
  by (relation "measure (\<lambda>(p, s, xs). length xs)") auto

declare process_blocks.simps [simp del]

lemma process_blocks_short [simp]: "length xs < 64 \<Longrightarrow> process_blocks p s xs = (s, xs)"
  by (subst process_blocks.simps) simp

lemma process_blocks_block: "length b = 64 \<Longrightarrow> process_blocks p s (b @ xs) = process_blocks p (p s b) xs"
  by (subst process_blocks.simps) simp

lemma length_process_blocks: "length (snd (process_blocks p s xs)) = length xs mod 64"
proof (induction p s xs rule: process_blocks.induct)
  case (1 p s xs)
  then show ?case by (subst process_blocks.simps) (simp add: le_mod_geq)
qed

lemma process_blocks_append:
  "process_blocks p s (xs @ ys) = (case process_blocks p s xs of (s', r) \<Rightarrow> process_blocks p s' (r @ ys))"
proof (induction p s xs rule: process_blocks.induct)
  case (1 p s xs)
  show ?case
  proof (cases "length xs \<ge> 64")
    case True
    then have "process_blocks p s (xs @ ys) = process_blocks p (p s (take 64 xs)) (drop 64 xs @ ys)"
      using process_blocks_block [of "take 64 xs" p s "drop 64 xs @ ys"] by (simp flip: append_assoc)
    then show ?thesis using 1 True by (simp add: process_blocks.simps [of p s xs])
  qed simp
qed

text \<open>A property of the state that every block keeps, and two functions that agree on the states with it.\<close>

lemma process_blocks_inv:
  assumes "\<And>s b. I s \<Longrightarrow> I (p s b)"
  shows "I s \<Longrightarrow> I (fst (process_blocks p s xs))"
proof (induction "length xs" arbitrary: s xs rule: less_induct)
  case less
  then show ?case using assms by (subst process_blocks.simps) simp
qed

lemma process_blocks_cong:
  assumes "\<And>s b. I s \<Longrightarrow> p s b = q s b" and "\<And>s b. I s \<Longrightarrow> I (q s b)"
  shows "I s \<Longrightarrow> process_blocks p s xs = process_blocks q s xs"
proof (induction "length xs" arbitrary: s xs rule: less_induct)
  case less
  then show ?case using assms by (subst (1 2) process_blocks.simps) simp
qed

section \<open>Feeding a message in pieces\<close>

text \<open>
  The contract of an update function: the state takes in every complete block of what was pending and the new
  bytes, the rest stays pending, and the count advances, by \<open>unit\<close> for each byte. \<open>limit\<close> bounds the length of one piece, which the
  code passes as a 32-bit number.
\<close>

locale block_stream =
  fixes process :: "'s \<Rightarrow> u8 list \<Rightarrow> 's"
    and update :: "'c \<Rightarrow> u8 list \<Rightarrow> 'c"
    and cstate :: "'c \<Rightarrow> 's"
    and pending :: "'c \<Rightarrow> u8 list"
    and total :: "'c \<Rightarrow> u64"
    and inv :: "'c \<Rightarrow> bool"
    and limit :: nat
    and unit :: u64
  assumes inv_update: "inv c \<Longrightarrow> length bs < limit \<Longrightarrow> inv (update c bs)"
    and update_blocks: "inv c \<Longrightarrow> length bs < limit \<Longrightarrow>
      process_blocks process (cstate c) (pending c @ bs) = (cstate (update c bs), pending (update c bs))"
    and update_total: "inv c \<Longrightarrow> length bs < limit \<Longrightarrow> total (update c bs) = total c + unit * word_of_nat (length bs)"
begin

definition feed :: "'c \<Rightarrow> u8 list list \<Rightarrow> 'c" where
  "feed c ps = foldl update c ps"

lemma feed_Nil [simp]: "feed c [] = c"
  by (simp add: feed_def)

lemma feed_Cons [simp]: "feed c (p # ps) = feed (update c p) ps"
  by (simp add: feed_def)

lemma feed_inv: "inv c \<Longrightarrow> \<forall>p\<in>set ps. length p < limit \<Longrightarrow> inv (feed c ps)"
  by (induction ps arbitrary: c) (auto intro: inv_update)

lemma feed_total:
  "inv c \<Longrightarrow> \<forall>p\<in>set ps. length p < limit \<Longrightarrow> total (feed c ps) = total c + unit * word_of_nat (length (concat ps))"
  by (induction ps arbitrary: c) (auto simp: inv_update update_total algebra_simps)

text \<open>The pieces and their concatenation are taken in alike.\<close>

lemma feed_blocks:
  "inv c \<Longrightarrow> \<forall>p\<in>set ps. length p < limit \<Longrightarrow> length (pending c) < 64 \<Longrightarrow>
    process_blocks process (cstate c) (pending c @ concat ps) = (cstate (feed c ps), pending (feed c ps))"
proof (induction ps arbitrary: c)
  case (Cons p ps)
  have u: "process_blocks process (cstate c) (pending c @ p) = (cstate (update c p), pending (update c p))"
    using Cons.prems by (intro update_blocks) auto
  have "length (pending (update c p)) < 64"
    using length_process_blocks [of process "cstate c" "pending c @ p"] u by simp
  then have "process_blocks process (cstate (update c p)) (pending (update c p) @ concat ps) =
      (cstate (feed (update c p) ps), pending (feed (update c p) ps))"
    using Cons.prems by (intro Cons.IH) (auto intro: inv_update)
  then show ?case
    using process_blocks_append [of process "cstate c" "pending c @ p" "concat ps"] u by simp
qed simp

end

section \<open>The context of SHA-1 and SHA-256\<close>

text \<open>The two contexts differ in the number of state words only, and the two update functions in the function
  that takes in a block.\<close>

record sha_context =
  total0 :: u32
  total1 :: u32
  sha_state :: "u32 list"
  sha_buffer :: "u8 list"

definition sha_update :: "(u32 list \<Rightarrow> u8 list \<Rightarrow> u32 list) \<Rightarrow> sha_context \<Rightarrow> u8 list \<Rightarrow> sha_context" where
  "sha_update process ctx input =
     (if input = [] then ctx
      else let len = word_of_nat (length input);
               left = unat (total0 ctx AND 0x3F);
               fill = 64 - left;
               t0 = total0 ctx + len;
               t1 = (if t0 < len then total1 ctx + 1 else total1 ctx);
               (st, buf, rest, left') =
                 (if left \<noteq> 0 \<and> length input \<ge> fill
                  then let b = overwrite (sha_buffer ctx) left (take fill input)
                       in (process (sha_state ctx) b, b, drop fill input, 0)
                  else (sha_state ctx, sha_buffer ctx, input, left));
               (st', rest') = process_blocks process st rest
           in \<lparr>total0 = t0, total1 = t1, sha_state = st',
               sha_buffer = (if rest' \<noteq> [] then overwrite buf left' rest' else buf)\<rparr>)"

text \<open>The padding is \<open>0x80\<close> and zeros; the length in bits follows in big-endian order.\<close>

definition sha_padding :: "u8 list" where
  "sha_padding = 0x80 # replicate 63 0"

definition sha_finish :: "(u32 list \<Rightarrow> u8 list \<Rightarrow> u32 list) \<Rightarrow> sha_context \<Rightarrow> u8 list" where
  "sha_finish process ctx =
     (let high = drop_bit 29 (total0 ctx) OR push_bit 3 (total1 ctx);
          low = push_bit 3 (total0 ctx);
          msglen = PUT_UINT32_BE high @ PUT_UINT32_BE low;
          last = unat (total0 ctx AND 0x3F);
          padn = (if last < 56 then 56 - last else 120 - last);
          ctx1 = sha_update process ctx (take padn sha_padding);
          ctx2 = sha_update process ctx1 msglen
      in concat (map PUT_UINT32_BE (sha_state ctx2)))"

text \<open>The pieces between two resets of the watchdog; a piece length of zero would not end.\<close>

fun chunks :: "nat \<Rightarrow> u8 list \<Rightarrow> u8 list list" where
  "chunks n xs = (if n = 0 \<or> xs = [] then [] else take n xs # chunks n (drop n xs))"

declare chunks.simps [simp del]

lemma concat_chunks: "0 < n \<Longrightarrow> concat (chunks n xs) = xs"
proof (induction n xs rule: chunks.induct)
  case (1 n xs)
  then show ?case by (subst chunks.simps) simp
qed

lemma chunks_less: "length xs < l \<Longrightarrow> p \<in> set (chunks n xs) \<Longrightarrow> length p < l"
proof (induction n xs rule: chunks.induct)
  case (1 n xs)
  from 1(3) have "n \<noteq> 0 \<and> xs \<noteq> [] \<and> (p = take n xs \<or> p \<in> set (chunks n (drop n xs)))"
    by (subst (asm) chunks.simps) (auto split: if_splits)
  then show ?case using 1(1,2) by auto
qed

section \<open>The update function meets its contract\<close>

definition sha_pending :: "sha_context \<Rightarrow> u8 list" where
  "sha_pending ctx = take (unat (total0 ctx AND 0x3F)) (sha_buffer ctx)"

definition sha_total :: "sha_context \<Rightarrow> u64" where
  "sha_total ctx = word_of_nat (2 ^ 32 * unat (total1 ctx) + unat (total0 ctx))"

definition sha_inv :: "sha_context \<Rightarrow> bool" where
  "sha_inv ctx \<longleftrightarrow> length (sha_buffer ctx) = 64"

lemma and_3F: "unat (w AND 0x3F) = unat w mod 64" for w :: u32
proof -
  have "w AND 0x3F = take_bit 6 w" using take_bit_eq_mask [of 6 w] by (simp add: mask_eq_exp_minus_1)
  then show ?thesis by (simp add: unsigned_take_bit_eq take_bit_eq_mod [of 6 "unat w"] del: take_bit_eq_mod)
qed

lemma length_sha_pending: "sha_inv ctx \<Longrightarrow> length (sha_pending ctx) = unat (total0 ctx) mod 64"
  by (simp add: sha_inv_def sha_pending_def and_3F)

lemma total0_mod: "unat (a + word_of_nat n :: u32) mod 64 = (unat a mod 64 + n) mod 64"
  by (simp add: unat_word_ariths unat_of_nat mod_mod_cancel mod_simps)

lemma word_of_nat_mod: "(word_of_nat (n mod 2 ^ LENGTH('a)) :: 'a::len word) = word_of_nat n"
  by (simp add: word_of_nat_eq_iff take_bit_eq_mod)

text \<open>The carry from the low to the high half of the count.\<close>

lemma total_carry:
  fixes a b :: u32
  assumes "n < 2 ^ 32"
  defines "l \<equiv> word_of_nat n"
  shows "word_of_nat (2 ^ 32 * unat (if a + l < l then b + 1 else b) + unat (a + l)) =
    (word_of_nat (2 ^ 32 * unat b + unat a) + word_of_nat n :: u64)"
proof -
  have l: "unat l = n" using assms by (simp add: unat_of_nat)
  have ua: "unat a < 2 ^ 32" using unsigned_less [of a, where 'a = nat] by simp
  have sum: "unat (a + l) = (if unat a + n < 2 ^ 32 then unat a + n else unat a + n - 2 ^ 32)"
    using ua assms(1) by (simp add: unat_word_ariths l le_mod_geq)
  have high: "word_of_nat (2 ^ 32 * unat (b + 1)) = (word_of_nat (2 ^ 32 * unat b + 2 ^ 32) :: u64)"
  proof -
    have "(2 :: nat) ^ 32 * ((unat b + 1) mod 2 ^ 32) = (2 ^ 32 * (unat b + 1)) mod 2 ^ 64"
      by (simp add: mult_mod_right)
    moreover have "2 ^ 32 * unat (b + 1) = 2 ^ 32 * ((unat b + 1) mod 2 ^ 32)" by (simp add: unat_word_ariths)
    ultimately have "word_of_nat (2 ^ 32 * unat (b + 1)) = (word_of_nat (2 ^ 32 * (unat b + 1)) :: u64)"
      using word_of_nat_mod [of "2 ^ 32 * (unat b + 1)", where 'a = 64] by simp
    then show ?thesis by (simp only: distrib_left mult_1_right)
  qed
  show ?thesis
  proof (cases "unat a + n < 2 ^ 32")
    case True
    then have "\<not> a + l < l" using sum l by (simp add: word_less_nat_alt)
    then show ?thesis using sum True by (simp add: add.assoc)
  next
    case False
    then have "a + l < l" using sum l ua by (simp add: word_less_nat_alt)
    then have "word_of_nat (2 ^ 32 * unat (if a + l < l then b + 1 else b) + unat (a + l)) =
      (word_of_nat (2 ^ 32 * unat (b + 1)) + word_of_nat (unat a + n - 2 ^ 32) :: u64)"
      using sum False by simp
    also have "\<dots> = word_of_nat (2 ^ 32 * unat b + 2 ^ 32 + (unat a + n - 2 ^ 32))"
      unfolding high by (simp only: of_nat_add)
    also have "2 ^ 32 * unat b + 2 ^ 32 + (unat a + n - 2 ^ 32) = 2 ^ 32 * unat b + unat a + n" using False by simp
    finally show ?thesis by (simp only: of_nat_add)
  qed
qed

text \<open>The buffering between calls, whatever the function that takes in a block: what is left over after the
  complete blocks is stored where it is expected next time.\<close>

lemma sha_store:
  fixes t1 :: u32 and st :: "u32 list"
  assumes "length b = 64" and "unat t0 mod 64 = i + length rest" and "i < 64" and "take i b = pre"
  defines "c \<equiv> \<lparr>total0 = t0, total1 = t1, sha_state = st, sha_buffer = (if rest \<noteq> [] then overwrite b i rest else b)\<rparr>"
  shows "sha_inv c \<and> sha_pending c = pre @ rest"
proof -
  have "i + length rest < 64" using assms(2) by (metis mod_less_divisor zero_less_numeral)
  then show ?thesis using assms by (auto simp: sha_inv_def sha_pending_def and_3F)
qed

lemma sha_update_split:
  assumes "sha_inv ctx" and "length input < 2 ^ 32" and "input \<noteq> []"
  defines "left \<equiv> unat (total0 ctx) mod 64"
  shows "sha_inv (sha_update p ctx input) \<and>
    process_blocks p (sha_state ctx) (sha_pending ctx @ input) =
      (sha_state (sha_update p ctx input), sha_pending (sha_update p ctx input))"
proof (cases "left \<noteq> 0 \<and> 64 - left \<le> length input")
  case True
  define b where "b = overwrite (sha_buffer ctx) left (take (64 - left) input)"
  have len: "length (sha_buffer ctx) = 64" "left < 64" using assms(1) by (simp_all add: sha_inv_def left_def)
  have b: "length b = 64" "sha_pending ctx @ take (64 - left) input = b"
    using len True by (simp_all add: b_def overwrite_def sha_pending_def and_3F left_def)
  obtain st rest where pb: "process_blocks p (p (sha_state ctx) b) (drop (64 - left) input) = (st, rest)" by fastforce
  have all: "process_blocks p (sha_state ctx) (sha_pending ctx @ input) = (st, rest)"
    using process_blocks_block [OF b(1), of p "sha_state ctx" "drop (64 - left) input"] pb b(2)
    by (metis append_assoc append_take_drop_id)
  have "length rest = (length input - (64 - left)) mod 64"
    using length_process_blocks [of p "p (sha_state ctx) b" "drop (64 - left) input"] pb by simp
  moreover have "left + length input = length input - (64 - left) + 64" using True len(2) by linarith
  ultimately have "unat (total0 ctx + word_of_nat (length input)) mod 64 = 0 + length rest"
    by (simp only: total0_mod left_def [symmetric] mod_add_self2 add_0)
  then show ?thesis
    using all sha_store [OF b(1), of _ 0 rest "[]" _ st] True assms(3) pb
    by (simp add: sha_update_def Let_def and_3F left_def [symmetric] b_def [symmetric])
next
  case False
  have len: "length (sha_buffer ctx) = 64" "left < 64" using assms(1) by (simp_all add: sha_inv_def left_def)
  obtain st rest where pb: "process_blocks p (sha_state ctx) input = (st, rest)" by fastforce
  have r: "length rest = length input mod 64"
    using length_process_blocks [of p "sha_state ctx" input] pb by simp
  have short: "left \<noteq> 0 \<Longrightarrow> rest = input \<and> st = sha_state ctx \<and> left + length input < 64" using False pb by auto
  have "process_blocks p (sha_state ctx) (sha_pending ctx @ input) = (st, sha_pending ctx @ rest)"
    using short len(1) pb by (cases "left = 0") (auto simp: sha_pending_def and_3F left_def)
  moreover have "unat (total0 ctx + word_of_nat (length input)) mod 64 = left + length rest"
    using r short by (cases "left = 0") (auto simp: total0_mod left_def [symmetric])
  ultimately show ?thesis
    using sha_store [OF len(1), of _ left rest "sha_pending ctx" _ st] False assms(3) pb len(2)
    by (auto simp: sha_update_def Let_def and_3F left_def [symmetric] sha_pending_def)
qed

lemma sha_update_spec:
  assumes "sha_inv ctx" and "length input < 2 ^ 32"
  shows "sha_inv (sha_update p ctx input)"
    and "process_blocks p (sha_state ctx) (sha_pending ctx @ input) =
           (sha_state (sha_update p ctx input), sha_pending (sha_update p ctx input))"
    and "sha_total (sha_update p ctx input) = sha_total ctx + word_of_nat (length input)"
proof -
  have "length (sha_pending ctx) < 64" using assms(1) by (simp add: length_sha_pending)
  then have "sha_inv (sha_update p ctx input) \<and>
    process_blocks p (sha_state ctx) (sha_pending ctx @ input) =
      (sha_state (sha_update p ctx input), sha_pending (sha_update p ctx input))"
    using sha_update_split [OF assms, of p] assms(1) by (cases "input = []") (auto simp: sha_update_def)
  then show "sha_inv (sha_update p ctx input)" "process_blocks p (sha_state ctx) (sha_pending ctx @ input) =
           (sha_state (sha_update p ctx input), sha_pending (sha_update p ctx input))" by auto
  show "sha_total (sha_update p ctx input) = sha_total ctx + word_of_nat (length input)"
    using total_carry [OF assms(2), of "total0 ctx" "total1 ctx"]
    by (cases "input = []") (simp_all add: sha_update_def Let_def sha_total_def case_prod_beta)
qed

interpretation sha: block_stream process "sha_update process" sha_state sha_pending sha_total sha_inv "2 ^ 32" 1 for process
  by unfold_locales (auto simp: sha_update_spec)

section \<open>Padding\<close>

text \<open>The padded message of the standards: a one bit, zeros up to eight bytes before a block boundary, and the length in
  bits as a 64-bit number, whose byte order the digests choose.\<close>

definition be64 :: "u64 \<Rightarrow> u8 list" where
  "be64 w = be_bytes 8 (unat w)"

lemma be64_words: "be64 w = PUT_UINT32_BE (ucast (drop_bit 32 w)) @ PUT_UINT32_BE (ucast w)"
proof -
  have "[0..<8] = [0, 1, 2, 3, 4, 5, 6, 7 :: nat]" by (simp add: upt_rec)
  then have "be64 w = map (\<lambda>k. ucast (drop_bit (8 * (7 - k)) w)) [0, 1, 2, 3, 4, 5, 6, 7]"
    unfolding be64_def be_bytes_def ucast_drop_bytes by simp
  also have "\<dots> = PUT_UINT32_BE (ucast (drop_bit 32 w)) @ PUT_UINT32_BE (ucast w)"
    unfolding PUT_UINT32_BE_def by (simp; intro conjI bit_word_eqI; auto simp: bit_simps add.commute)
  finally show ?thesis .
qed

definition padded :: "(u64 \<Rightarrow> u8 list) \<Rightarrow> u8 list \<Rightarrow> u8 list" where
  "padded enc m = m @ 0x80 # replicate ((119 - length m mod 64) mod 64) 0 @ enc (word_of_nat (8 * length m))"

lemma padn_mod:
  fixes last :: nat
  assumes "last < 64"
  defines "padn \<equiv> if last < 56 then 56 - last else 120 - last"
  shows "padn = Suc ((119 - last) mod 64)" and "padn \<le> 64"
  using assms by (auto simp: padn_def le_mod_geq)

lemma take_sha_padding: "n < 64 \<Longrightarrow> take (Suc n) sha_padding = 0x80 # replicate n 0"
  by (simp add: sha_padding_def min_def)

lemma length_padded: "(\<And>w. length (enc w) = 8) \<Longrightarrow> length (padded enc m) mod 64 = 0"
proof -
  assume "\<And>w. length (enc w) = 8"
  then have "length (padded enc m) mod 64 = (length m mod 64 + (9 + (119 - length m mod 64) mod 64)) mod 64"
    unfolding mod_add_left_eq by (simp add: padded_def)
  also have "\<dots> = (length m mod 64 + 9 + (119 - length m mod 64)) mod 64"
    by (simp only: add.assoc [symmetric] mod_add_right_eq)
  also have "length m mod 64 + 9 + (119 - length m mod 64) = 128"
    using mod_less_divisor [of 64 "length m"] by linarith
  finally show ?thesis by simp
qed

lemma sha_total_or: "sha_total ctx = push_bit 32 (ucast (total1 ctx)) OR ucast (total0 ctx)"
proof -
  have "push_bit 32 (ucast (total1 ctx)) + (ucast (total0 ctx) :: u64) = push_bit 32 (ucast (total1 ctx)) OR ucast (total0 ctx)"
    by (rule disjunctive_add) (auto simp: bit_simps dest!: bit_imp_le_length)
  then show ?thesis by (simp add: sha_total_def push_bit_eq_mult mult.commute)
qed

lemma msglen_bytes:
  "PUT_UINT32_BE (drop_bit 29 (total0 ctx) OR push_bit 3 (total1 ctx)) @ PUT_UINT32_BE (push_bit 3 (total0 ctx)) =
    be64 (push_bit 3 (sha_total ctx))"
proof -
  have "ucast (drop_bit 32 (push_bit 3 (sha_total ctx))) = drop_bit 29 (total0 ctx) OR push_bit 3 (total1 ctx)"
    "ucast (push_bit 3 (sha_total ctx)) = push_bit 3 (total0 ctx)"
    by (rule bit_word_eqI; auto simp: sha_total_or bit_simps)+
  then show ?thesis by (simp add: be64_words)
qed

lemma length_be64 [simp]: "length (be64 w) = 8"
  by (simp add: be64_def)

lemma sha_total_mod: "unat (sha_total ctx) mod 64 = unat (total0 ctx) mod 64"
proof -
  let ?n = "2 ^ 32 * unat (total1 ctx) + unat (total0 ctx)"
  have "unat (sha_total ctx) mod 64 = ?n mod 2 ^ 64 mod 64" unfolding sha_total_def unat_of_nat by simp
  also have "\<dots> = ?n mod 64" by (rule mod_mod_cancel) simp
  also have "?n = unat (total0 ctx) + 64 * (2 ^ 26 * unat (total1 ctx))" by simp
  finally show ?thesis unfolding mod_mult_self2 .
qed

text \<open>The digest of a message fed in pieces is that of the padded message, block by block.\<close>

lemma sha_digest:
  assumes "sha_inv c" "total0 c = 0" "total1 c = 0" and "\<forall>p\<in>set ps. length p < 2 ^ 32"
  shows "sha_finish process (foldl (sha_update process) c ps) =
    concat (map PUT_UINT32_BE (fst (process_blocks process (sha_state c) (padded be64 (concat ps)))))"
proof -
  define c' where "c' = foldl (sha_update process) c ps"
  define m where "m = concat ps"
  define last where "last = unat (total0 c') mod 64"
  define padn where "padn = (if last < 56 then 56 - last else 120 - last)"
  have total: "sha_total c' = word_of_nat (length m)"
    using sha.feed_total [OF assms(1,4), of process] assms(2,3) by (simp add: c'_def m_def sha.feed_def sha_total_def)
  have "unat (sha_total c') mod 64 = unat (total0 c') mod 64" by (rule sha_total_mod)
  then have last: "last = length m mod 64" by (simp add: last_def total unat_of_nat mod_mod_cancel)
  then have padn: "take padn sha_padding = 0x80 # replicate ((119 - length m mod 64) mod 64) 0" "padn \<le> 64"
    using padn_mod [of last] take_sha_padding [of "(119 - length m mod 64) mod 64"] by (auto simp: padn_def)
  define ml where "ml = be64 (push_bit 3 (sha_total c'))"
  define c2 where "c2 = sha_update process (sha_update process c' (take padn sha_padding)) ml"
  have "padded be64 m = m @ take padn sha_padding @ ml"
    unfolding padded_def ml_def padn(1) total by (simp add: push_bit_eq_mult mult.commute)
  then have "padded be64 m = sha_pending c @ concat (ps @ [take padn sha_padding, ml])"
    using assms(2) by (simp add: m_def sha_pending_def)
  moreover have "c2 = sha.feed process c (ps @ [take padn sha_padding, ml])"
    by (simp add: c2_def c'_def sha.feed_def)
  moreover have "length (take padn sha_padding) < 2 ^ 32" "length ml < 2 ^ 32" using padn(2) by (simp_all add: ml_def)
  ultimately have "process_blocks process (sha_state c) (padded be64 m) = (sha_state c2, sha_pending c2)"
    using sha.feed_blocks [OF assms(1), of "ps @ [take padn sha_padding, ml]" process] assms(2,4)
    by (simp add: sha_pending_def)
  moreover have "sha_finish process c' = concat (map PUT_UINT32_BE (sha_state c2))"
    unfolding sha_finish_def Let_def msglen_bytes c2_def ml_def and_3F padn_def last_def by simp
  ultimately show ?thesis by (simp add: c'_def m_def)
qed

end
