(* ===== verification/Sha256.thy ===== *)
theory Sha256
  imports Digest
begin

text \<open>
  SHA-256 (\<^verbatim>\<open>lib/sha256.c\<close>), with which the boot images are checked. The model follows the unrolled code: one macro call
  is one step of a fold, and the rotation of the register names from call to call is the rotation of a tuple. The
  reference is the algorithm of the standard, and the theorem relates the digest of a message fed in any pieces to it.
\<close>

section \<open>The code\<close>

definition sha256_SHR :: "u32 \<Rightarrow> nat \<Rightarrow> u32" where
  "sha256_SHR x n = drop_bit n (x AND 0xFFFFFFFF)"

definition sha256_ROTR :: "u32 \<Rightarrow> nat \<Rightarrow> u32" where
  "sha256_ROTR x n = sha256_SHR x n OR push_bit (32 - n) x"

definition sha256_S0 :: "u32 \<Rightarrow> u32" where
  "sha256_S0 x = sha256_ROTR x 7 XOR sha256_ROTR x 18 XOR sha256_SHR x 3"

definition sha256_S1 :: "u32 \<Rightarrow> u32" where
  "sha256_S1 x = sha256_ROTR x 17 XOR sha256_ROTR x 19 XOR sha256_SHR x 10"

definition sha256_S2 :: "u32 \<Rightarrow> u32" where
  "sha256_S2 x = sha256_ROTR x 2 XOR sha256_ROTR x 13 XOR sha256_ROTR x 22"

definition sha256_S3 :: "u32 \<Rightarrow> u32" where
  "sha256_S3 x = sha256_ROTR x 6 XOR sha256_ROTR x 11 XOR sha256_ROTR x 25"

definition sha256_F0 :: "u32 \<Rightarrow> u32 \<Rightarrow> u32 \<Rightarrow> u32" where
  "sha256_F0 x y z = (x AND y) OR (z AND (x OR y))"

definition sha256_F1 :: "u32 \<Rightarrow> u32 \<Rightarrow> u32 \<Rightarrow> u32" where
  "sha256_F1 x y z = z XOR (x AND (y XOR z))"

type_synonym regs8 = "u32 \<times> u32 \<times> u32 \<times> u32 \<times> u32 \<times> u32 \<times> u32 \<times> u32"

text \<open>The schedule macro \<open>R(t)\<close> computes the word it stores in \<open>W[t]\<close>; each \<open>W[t]\<close> is first written there, so the array
  grows by one word.\<close>

definition sha256_R :: "u32 list \<Rightarrow> nat \<Rightarrow> u32" where
  "sha256_R W t = sha256_S1 (W ! (t - 2)) + W ! (t - 7) + sha256_S0 (W ! (t - 15)) + W ! (t - 16)"

text \<open>One call of \<open>P\<close>; in the next call every register has moved by one place.\<close>

definition sha256_P :: "regs8 \<Rightarrow> u32 \<Rightarrow> u32 \<Rightarrow> regs8" where
  "sha256_P r x K =
     (case r of (a, b, c, d, e, f, g, h) \<Rightarrow>
        let temp1 = h + sha256_S3 e + sha256_F1 e f g + K + x;
            temp2 = sha256_S2 a + sha256_F0 a b c
        in (temp1 + temp2, a, b, c, d + temp1, e, f, g))"

definition sha256_K :: "u32 list" where
  "sha256_K =
     [0x428A2F98, 0x71374491, 0xB5C0FBCF, 0xE9B5DBA5, 0x3956C25B, 0x59F111F1, 0x923F82A4, 0xAB1C5ED5,
      0xD807AA98, 0x12835B01, 0x243185BE, 0x550C7DC3, 0x72BE5D74, 0x80DEB1FE, 0x9BDC06A7, 0xC19BF174,
      0xE49B69C1, 0xEFBE4786, 0x0FC19DC6, 0x240CA1CC, 0x2DE92C6F, 0x4A7484AA, 0x5CB0A9DC, 0x76F988DA,
      0x983E5152, 0xA831C66D, 0xB00327C8, 0xBF597FC7, 0xC6E00BF3, 0xD5A79147, 0x06CA6351, 0x14292967,
      0x27B70A85, 0x2E1B2138, 0x4D2C6DFC, 0x53380D13, 0x650A7354, 0x766A0ABB, 0x81C2C92E, 0x92722C85,
      0xA2BFE8A1, 0xA81A664B, 0xC24B8B70, 0xC76C51A3, 0xD192E819, 0xD6990624, 0xF40E3585, 0x106AA070,
      0x19A4C116, 0x1E376C08, 0x2748774C, 0x34B0BCB5, 0x391C0CB3, 0x4ED8AA4A, 0x5B9CCA4F, 0x682E6FF3,
      0x748F82EE, 0x78A5636F, 0x84C87814, 0x8CC70208, 0x90BEFFFA, 0xA4506CEB, 0xBEF9A3F7, 0xC67178F2]"

definition sha256_round :: "u32 list \<times> regs8 \<Rightarrow> nat \<Rightarrow> u32 list \<times> regs8" where
  "sha256_round s t =
     (case s of (W, r) \<Rightarrow>
        if t < 16 then (W, sha256_P r (W ! t) (sha256_K ! t))
        else let w = sha256_R W t in (W @ [w], sha256_P r w (sha256_K ! t)))"

definition regs8_of :: "u32 list \<Rightarrow> regs8" where
  "regs8_of st = (st ! 0, st ! 1, st ! 2, st ! 3, st ! 4, st ! 5, st ! 6, st ! 7)"

definition sha256_process :: "u32 list \<Rightarrow> u8 list \<Rightarrow> u32 list" where
  "sha256_process st data =
     (let W = map (\<lambda>i. GET_UINT32_BE data (4 * i)) [0..<16];
          (W', A, B, C, D, E, F, G, H) = foldl sha256_round (W, regs8_of st) [0..<64]
      in [st ! 0 + A, st ! 1 + B, st ! 2 + C, st ! 3 + D, st ! 4 + E, st ! 5 + F, st ! 6 + G, st ! 7 + H])"

definition sha256_starts :: "sha_context \<Rightarrow> sha_context" where
  "sha256_starts ctx =
     ctx\<lparr>total0 := 0, total1 := 0,
         sha_state := [0x6A09E667, 0xBB67AE85, 0x3C6EF372, 0xA54FF53A, 0x510E527F, 0x9B05688C, 0x1F83D9AB, 0x5BE0CD19]\<rparr>"

definition sha256_update :: "sha_context \<Rightarrow> u8 list \<Rightarrow> sha_context" where
  "sha256_update ctx input = sha_update sha256_process ctx input"

definition sha256_finish :: "sha_context \<Rightarrow> u8 list" where
  "sha256_finish ctx = sha_finish sha256_process ctx"

section \<open>The standard\<close>

text \<open>Functions, message schedule and compression of FIPS 180.\<close>

definition Ch :: "u32 \<Rightarrow> u32 \<Rightarrow> u32 \<Rightarrow> u32" where
  "Ch x y z = (x AND y) XOR (NOT x AND z)"

definition Maj :: "u32 \<Rightarrow> u32 \<Rightarrow> u32 \<Rightarrow> u32" where
  "Maj x y z = (x AND y) XOR (x AND z) XOR (y AND z)"

definition big_sigma :: "nat \<Rightarrow> nat \<Rightarrow> nat \<Rightarrow> u32 \<Rightarrow> u32" where
  "big_sigma i j k x = word_rotr i x XOR word_rotr j x XOR word_rotr k x"

definition small_sigma :: "nat \<Rightarrow> nat \<Rightarrow> nat \<Rightarrow> u32 \<Rightarrow> u32" where
  "small_sigma i j k x = word_rotr i x XOR word_rotr j x XOR drop_bit k x"

fun sha256_W :: "u8 list \<Rightarrow> nat \<Rightarrow> u32" where
  "sha256_W M t =
     (if t < 16 then be_word M (4 * t)
      else small_sigma 17 19 10 (sha256_W M (t - 2)) + sha256_W M (t - 7) +
           small_sigma 7 18 3 (sha256_W M (t - 15)) + sha256_W M (t - 16))"

declare sha256_W.simps [simp del]

definition fips_round :: "u32 \<Rightarrow> u32 \<Rightarrow> regs8 \<Rightarrow> regs8" where
  "fips_round k w r =
     (case r of (a, b, c, d, e, f, g, h) \<Rightarrow>
        let T1 = h + big_sigma 6 11 25 e + Ch e f g + k + w;
            T2 = big_sigma 2 13 22 a + Maj a b c
        in (T1 + T2, a, b, c, d + T1, e, f, g))"

definition sha256_compress :: "u32 list \<Rightarrow> u8 list \<Rightarrow> u32 list" where
  "sha256_compress H M =
     (case fold (\<lambda>t. fips_round (sha256_K ! t) (sha256_W M t)) [0..<64] (regs8_of H) of
        (a, b, c, d, e, f, g, h) \<Rightarrow> map2 (+) [a, b, c, d, e, f, g, h] H)"

definition sha256_H0 :: "u32 list" where
  "sha256_H0 =
     [0x6A09E667, 0xBB67AE85, 0x3C6EF372, 0xA54FF53A, 0x510E527F, 0x9B05688C, 0x1F83D9AB, 0x5BE0CD19]"

definition sha256_ref :: "u8 list \<Rightarrow> u8 list" where
  "sha256_ref m = concat (map (be_bytes 4 \<circ> unat) (fst (process_blocks sha256_compress sha256_H0 (padded be64 m))))"

text \<open>The constants are the fractional parts of the cube roots of the first 64 primes, and the initial state those of
  the square roots of the first eight: \<open>k\<close> is the fraction of the cube root of \<open>p\<close> if \<open>a + k / 2 ^ 32\<close> is just below it.\<close>

definition primes64 :: "nat list" where
  "primes64 =
     [2, 3, 5, 7, 11, 13, 17, 19, 23, 29, 31, 37, 41, 43, 47, 53, 59, 61, 67, 71, 73, 79, 83, 89, 97, 101, 103, 107, 109, 113, 127, 131, 137, 139, 149, 151, 157, 163, 167, 173, 179, 181, 191, 193, 197, 199, 211, 223, 227, 229, 233, 239, 241, 251, 257, 263, 269, 271, 277, 281, 283, 293, 307, 311]"

definition root_fraction :: "nat \<Rightarrow> nat \<Rightarrow> nat \<Rightarrow> bool" where
  "root_fraction n p k =
     (let a = length (filter (\<lambda>a. a ^ n \<le> p) [1, 2, 3, 4, 5, 6])
      in (a * 2 ^ 32 + k) ^ n \<le> p * 2 ^ (32 * n) \<and> p * 2 ^ (32 * n) < (a * 2 ^ 32 + k + 1) ^ n)"

section \<open>The code computes the standard's functions\<close>

lemma SHR_drop_bit [simp]: "sha256_SHR x n = drop_bit n x"
  by (simp add: sha256_SHR_def and_32_bits)

lemma ROTR_rotr [simp]: "0 < n \<Longrightarrow> n < 32 \<Longrightarrow> sha256_ROTR x n = word_rotr n x"
  by (simp add: sha256_ROTR_def rotate_bits)

lemma F0_Maj: "sha256_F0 x y z = Maj x y z"
  by (rule bit_word_eqI) (auto simp: sha256_F0_def Maj_def bit_simps)

lemma F1_Ch: "sha256_F1 x y z = Ch x y z"
  by (rule bit_word_eqI) (auto simp: sha256_F1_def Ch_def bit_simps)

lemma P_fips_round: "sha256_P r w k = fips_round k w r"
  by (simp add: sha256_P_def fips_round_def F0_Maj F1_Ch sha256_S2_def sha256_S3_def big_sigma_def split: prod.splits)

text \<open>The words of the schedule that the code has computed before step \<open>t\<close>.\<close>

definition sha256_words :: "u8 list \<Rightarrow> nat \<Rightarrow> u32 list" where
  "sha256_words M t = map (sha256_W M) [0..<max 16 t]"

lemma R_sha256_W: "16 \<le> t \<Longrightarrow> sha256_R (sha256_words M t) t = sha256_W M t"
  by (subst sha256_W.simps) (simp add: sha256_R_def sha256_words_def sha256_S0_def sha256_S1_def small_sigma_def)

lemma sha256_round_fips:
  "sha256_round (sha256_words M t, r) t = (sha256_words M (Suc t), fips_round (sha256_K ! t) (sha256_W M t) r)"
proof (cases "t < 16")
  case True
  then have "max 16 t = 16" "max 16 (Suc t) = 16" by auto
  then show ?thesis using True by (simp add: sha256_round_def P_fips_round sha256_words_def)
next
  case False
  then have "sha256_words M t @ [sha256_W M t] = sha256_words M (Suc t)" by (simp add: sha256_words_def max_def)
  then show ?thesis using False by (simp add: sha256_round_def P_fips_round R_sha256_W Let_def)
qed

lemma sha256_rounds_fips:
  "foldl sha256_round (sha256_words M 0, r) [0..<n] =
     (sha256_words M n, fold (\<lambda>t. fips_round (sha256_K ! t) (sha256_W M t)) [0..<n] r)"
  by (induction n) (simp_all add: sha256_round_fips)

lemma sha256_process_compress: "length st = 8 \<Longrightarrow> sha256_process st M = sha256_compress st M"
proof -
  assume len: "length st = 8"
  have "map (\<lambda>i. GET_UINT32_BE M (4 * i)) [0..<16] = sha256_words M 0"
    unfolding sha256_words_def by (intro map_cong) (simp_all add: sha256_W.simps [of M] GET_UINT32_BE_word)
  moreover obtain a b c d e f g h where "st = [a, b, c, d, e, f, g, h]"
    using len by (auto simp: numeral_eq_Suc length_Suc_conv)
  ultimately show ?thesis
    unfolding sha256_process_def sha256_compress_def Let_def
    using sha256_rounds_fips [of M "regs8_of st" 64]
    by (auto simp: add.commute split: prod.splits)
qed

lemma length_sha256_compress [simp]: "length H = 8 \<Longrightarrow> length (sha256_compress H M) = 8"
  by (auto simp: sha256_compress_def split: prod.splits)

lemma process_blocks_sha256:
  "length st = 8 \<Longrightarrow> process_blocks sha256_process st m = process_blocks sha256_compress st m"
  by (rule process_blocks_cong [where I = "\<lambda>s. length s = 8"]) (simp_all add: sha256_process_compress)

lemma sha256_constants:
  "list_all2 (root_fraction 3) primes64 (map unat sha256_K)"
  "list_all2 (root_fraction 2) (take 8 primes64) (map unat sha256_H0)"
  by (simp_all add: primes64_def sha256_K_def sha256_H0_def root_fraction_def)

text \<open>C34. SHA-256: a message fed to \<open>sha256_update\<close> in any pieces gives the digest that the standard defines for the whole
  message, however the pieces fall on the block boundaries and whatever the buffer held before; and the constants
  of the code are the standard's.\<close>

theorem sha256_digest:
  assumes "length (sha_buffer ctx) = 64" and "\<forall>p\<in>set ps. length p < 2 ^ 32"
  shows "sha256_finish (foldl sha256_update (sha256_starts ctx) ps) = sha256_ref (concat ps)
    \<and> list_all2 (root_fraction 3) primes64 (map unat sha256_K)
    \<and> list_all2 (root_fraction 2) (take 8 primes64) (map unat (sha_state (sha256_starts ctx)))"
proof -
  have "sha256_update = sha_update sha256_process" by (intro ext) (simp add: sha256_update_def)
  moreover have "sha_inv (sha256_starts ctx)" using assms(1) by (simp add: sha_inv_def sha256_starts_def)
  moreover have "sha_state (sha256_starts ctx) = sha256_H0" by (simp add: sha256_starts_def sha256_H0_def)
  moreover have "length sha256_H0 = 8" by (simp add: sha256_H0_def)
  ultimately show ?thesis
    using sha_digest [of "sha256_starts ctx" ps sha256_process] assms(2) sha256_constants
    by (simp add: sha256_finish_def sha256_ref_def process_blocks_sha256 sha256_starts_def PUT_UINT32_BE_fun)
qed

theorem sha256_digest_witness:
  "sha256_finish (foldl sha256_update (sha256_starts \<lparr>total0 = 7, total1 = 0, sha_state = [], sha_buffer = replicate 64 1\<rparr>)
     [[97], [98, 99]]) = sha256_ref [97, 98, 99]"
  using sha256_digest [of "\<lparr>total0 = 7, total1 = 0, sha_state = [], sha_buffer = replicate 64 1\<rparr>" "[[97], [98, 99]]"] by simp

end
