(* ===== verification/Sha1.thy ===== *)
theory Sha1
  imports Digest
begin

text \<open>
  SHA-1 and its keyed variant (\<^verbatim>\<open>lib/sha1.c\<close>), with which images and firmware are checked. The message schedule of the code lives in
  a ring of sixteen words that is overwritten as the rounds go on; the standard's schedule has eighty words.
\<close>

section \<open>The code\<close>

definition sha1_S :: "u32 \<Rightarrow> nat \<Rightarrow> u32" where
  "sha1_S x n = push_bit n x OR drop_bit (32 - n) (x AND 0xFFFFFFFF)"

type_synonym regs5 = "u32 \<times> u32 \<times> u32 \<times> u32 \<times> u32"

text \<open>The four definitions of \<open>F\<close> and \<open>K\<close>, one per twenty rounds.\<close>

definition sha1_F :: "nat \<Rightarrow> u32 \<Rightarrow> u32 \<Rightarrow> u32 \<Rightarrow> u32" where
  "sha1_F t x y z =
     (if t < 20 then z XOR (x AND (y XOR z))
      else if t < 40 then x XOR y XOR z
      else if t < 60 then (x AND y) OR (z AND (x OR y))
      else x XOR y XOR z)"

definition sha1_K :: "nat \<Rightarrow> u32" where
  "sha1_K t = (if t < 20 then 0x5A827999 else if t < 40 then 0x6ED9EBA1 else if t < 60 then 0x8F1BBCDC else 0xCA62C1D6)"

text \<open>One call of \<open>P\<close>; in the next call every register has moved by one place.\<close>

definition sha1_P :: "nat \<Rightarrow> regs5 \<Rightarrow> u32 \<Rightarrow> regs5" where
  "sha1_P t r x =
     (case r of (a, b, c, d, e) \<Rightarrow>
        (e + (sha1_S a 5 + sha1_F t b c d + sha1_K t + x), a, sha1_S b 30, c, d))"

text \<open>The word that \<open>R(t)\<close> stores in the ring.\<close>

definition sha1_R :: "u32 list \<Rightarrow> nat \<Rightarrow> u32" where
  "sha1_R W t =
     (let temp = W ! ((t - 3) mod 16) XOR W ! ((t - 8) mod 16) XOR W ! ((t - 14) mod 16) XOR W ! (t mod 16)
      in sha1_S temp 1)"

definition sha1_round :: "u32 list \<times> regs5 \<Rightarrow> nat \<Rightarrow> u32 list \<times> regs5" where
  "sha1_round s t =
     (case s of (W, r) \<Rightarrow>
        if t < 16 then (W, sha1_P t r (W ! t))
        else let w = sha1_R W t in (W[t mod 16 := w], sha1_P t r w))"

definition regs5_of :: "u32 list \<Rightarrow> regs5" where
  "regs5_of st = (st ! 0, st ! 1, st ! 2, st ! 3, st ! 4)"

definition sha1_process :: "u32 list \<Rightarrow> u8 list \<Rightarrow> u32 list" where
  "sha1_process st data =
     (let W = map (\<lambda>i. GET_UINT32_BE data (4 * i)) [0..<16];
          (W', A, B, C, D, E) = foldl sha1_round (W, regs5_of st) [0..<80]
      in [st ! 0 + A, st ! 1 + B, st ! 2 + C, st ! 3 + D, st ! 4 + E])"

definition sha1_starts :: "sha_context \<Rightarrow> sha_context" where
  "sha1_starts ctx =
     ctx\<lparr>total0 := 0, total1 := 0, sha_state := [0x67452301, 0xEFCDAB89, 0x98BADCFE, 0x10325476, 0xC3D2E1F0]\<rparr>"

definition sha1_update :: "sha_context \<Rightarrow> u8 list \<Rightarrow> sha_context" where
  "sha1_update ctx input = sha_update sha1_process ctx input"

definition sha1_finish :: "sha_context \<Rightarrow> u8 list" where
  "sha1_finish ctx = sha_finish sha1_process ctx"

text \<open>The callers have a context on their stack, \<open>ctx\<close>, with unknown contents.\<close>

definition sha1_csum :: "sha_context \<Rightarrow> u8 list \<Rightarrow> u8 list" where
  "sha1_csum ctx input = sha1_finish (sha1_update (sha1_starts ctx) input)"

text \<open>The variant that resets the watchdog after every \<open>chunk_sz\<close> bytes. \<open>None\<close>: with \<open>chunk_sz = 0\<close> and any input the loop does
  not end.\<close>

definition sha1_csum_wd :: "sha_context \<Rightarrow> u8 list \<Rightarrow> nat \<Rightarrow> u8 list option" where
  "sha1_csum_wd ctx input chunk_sz =
     (if chunk_sz = 0 \<and> input \<noteq> [] then None
      else Some (sha1_finish (foldl sha1_update (sha1_starts ctx) (chunks chunk_sz input))))"

definition sha1_hmac :: "sha_context \<Rightarrow> u8 list \<Rightarrow> u8 list \<Rightarrow> u8 list" where
  "sha1_hmac ctx key input =
     (let xor_key = (\<lambda>pad. map (\<lambda>i. if i < length key then pad XOR key ! i else pad) [0..<64]);
          k_ipad = xor_key 0x36;
          k_opad = xor_key 0x5C;
          c1 = sha1_update (sha1_update (sha1_starts ctx) k_ipad) input;
          tmpbuf = sha1_finish c1;
          c2 = sha1_update (sha1_update (sha1_starts c1) k_opad) tmpbuf
      in sha1_finish c2)"

section \<open>The standard\<close>

fun sha1_W :: "u8 list \<Rightarrow> nat \<Rightarrow> u32" where
  "sha1_W M t =
     (if t < 16 then be_word M (4 * t)
      else word_rotl 1 (sha1_W M (t - 3) XOR sha1_W M (t - 8) XOR sha1_W M (t - 14) XOR sha1_W M (t - 16)))"

declare sha1_W.simps [simp del]

definition sha1_f :: "nat \<Rightarrow> u32 \<Rightarrow> u32 \<Rightarrow> u32 \<Rightarrow> u32" where
  "sha1_f t x y z =
     (if t < 20 then (x AND y) XOR (NOT x AND z)
      else if 40 \<le> t \<and> t < 60 then (x AND y) XOR (x AND z) XOR (y AND z)
      else x XOR y XOR z)"

text \<open>The four constants of FIPS 180, one per twenty rounds.\<close>

definition fips1_K :: "nat \<Rightarrow> u32" where
  "fips1_K t = [0x5A827999, 0x6ED9EBA1, 0x8F1BBCDC, 0xCA62C1D6] ! (t div 20)"

definition fips1_round :: "nat \<Rightarrow> u32 \<Rightarrow> regs5 \<Rightarrow> regs5" where
  "fips1_round t w r =
     (case r of (a, b, c, d, e) \<Rightarrow>
        (word_rotl 5 a + sha1_f t b c d + e + fips1_K t + w, a, word_rotl 30 b, c, d))"

definition sha1_compress :: "u32 list \<Rightarrow> u8 list \<Rightarrow> u32 list" where
  "sha1_compress H M =
     (case fold (\<lambda>t. fips1_round t (sha1_W M t)) [0..<80] (regs5_of H) of
        (a, b, c, d, e) \<Rightarrow> map2 (+) [a, b, c, d, e] H)"

definition sha1_ref :: "u8 list \<Rightarrow> u8 list" where
  "sha1_ref m = concat (map (be_bytes 4 \<circ> unat) (fst (process_blocks sha1_compress
     [0x67452301, 0xEFCDAB89, 0x98BADCFE, 0x10325476, 0xC3D2E1F0] (padded be64 m))))"

text \<open>HMAC of RFC 2104 for a key of at most one block.\<close>

definition hmac_ref :: "u8 list \<Rightarrow> u8 list \<Rightarrow> u8 list" where
  "hmac_ref key m =
     (let k = key @ replicate (64 - length key) 0
      in sha1_ref (map (\<lambda>b. 0x5C XOR b) k @ sha1_ref (map (\<lambda>b. 0x36 XOR b) k @ m)))"

section \<open>The code computes the standard's functions\<close>

lemma sha1_S_rotl [simp]: "0 < n \<Longrightarrow> n < 32 \<Longrightarrow> sha1_S x n = word_rotl n x"
proof -
  have "x AND 0xFFFFFFFF = x" by (simp add: and_32_bits)
  then show "0 < n \<Longrightarrow> n < 32 \<Longrightarrow> sha1_S x n = word_rotl n x" by (simp add: sha1_S_def rotate_bits_left)
qed

lemma sha1_F_f: "sha1_F t x y z = sha1_f t x y z"
  by (rule bit_word_eqI) (auto simp: sha1_F_def sha1_f_def bit_simps)

lemma sha1_K_fips: "t < 80 \<Longrightarrow> sha1_K t = fips1_K t"
proof -
  have "list_all (\<lambda>t. sha1_K t = fips1_K t) [0..<80]" by code_simp
  then show "t < 80 \<Longrightarrow> sha1_K t = fips1_K t" by (simp add: list_all_iff)
qed

lemma sha1_P_fips: "t < 80 \<Longrightarrow> sha1_P t r w = fips1_round t w r"
  by (simp add: sha1_P_def fips1_round_def sha1_F_f sha1_K_fips add.assoc add.commute add.left_commute split: prod.splits)

text \<open>The ring before step \<open>t\<close> holds the last sixteen words of the schedule.\<close>

definition ring :: "u8 list \<Rightarrow> nat \<Rightarrow> u32 list \<Rightarrow> bool" where
  "ring M t W \<longleftrightarrow> length W = 16 \<and> (\<forall>j. j < max 16 t \<and> max 16 t \<le> j + 16 \<longrightarrow> W ! (j mod 16) = sha1_W M j)"

lemma ring_nth: "ring M t W \<Longrightarrow> 16 \<le> t \<Longrightarrow> k \<le> 16 \<Longrightarrow> 0 < k \<Longrightarrow> W ! ((t - k) mod 16) = sha1_W M (t - k)"
  by (auto simp: ring_def max_def)

lemma sha1_R_W:
  assumes "ring M t W" "16 \<le> t"
  shows "sha1_R W t = sha1_W M t"
proof -
  have "t mod 16 = (t - 16) mod 16" using assms(2) by (rule le_mod_geq)
  moreover have "\<not> t < 16" using assms(2) by simp
  ultimately show ?thesis
    using ring_nth [OF assms] by (subst sha1_W.simps) (simp add: sha1_R_def Let_def assms(2))
qed

lemma ring_step:
  assumes "ring M t W" "16 \<le> t"
  shows "ring M (Suc t) (W[t mod 16 := sha1_W M t])"
  unfolding ring_def
proof (intro conjI allI impI)
  show "length (W[t mod 16 := sha1_W M t]) = 16" using assms(1) by (simp add: ring_def)
  fix j
  assume j: "j < max 16 (Suc t) \<and> max 16 (Suc t) \<le> j + 16"
  show "W[t mod 16 := sha1_W M t] ! (j mod 16) = sha1_W M j"
  proof (cases "j = t")
    case True
    then show ?thesis using assms(1) by (simp add: ring_def)
  next
    case False
    then have "j < t" "t < j + 16" using j assms(2) by auto
    then have "\<not> 16 dvd t - j" by (intro nat_dvd_not_less) auto
    then have "j mod 16 \<noteq> t mod 16" using \<open>j < t\<close> mod_eq_dvd_iff_nat [of j t 16] by auto
    then show ?thesis using assms \<open>j < t\<close> \<open>t < j + 16\<close> by (auto simp: ring_def max_def)
  qed
qed

lemma sha1_round_fips:
  assumes "ring M t W" "t < 80"
  shows "\<exists>W'. sha1_round (W, r) t = (W', fips1_round t (sha1_W M t) r) \<and> ring M (Suc t) W'"
proof (cases "t < 16")
  case True
  then have "W ! t = sha1_W M t" "max 16 t = 16" "max 16 (Suc t) = 16" using assms(1) by (auto simp: ring_def dest: spec [of _ t])
  then show ?thesis using True assms by (simp add: sha1_round_def sha1_P_fips ring_def)
next
  case False
  then show ?thesis using assms ring_step [OF assms(1)] by (simp add: sha1_round_def sha1_P_fips sha1_R_W Let_def)
qed

lemma sha1_rounds_fips:
  assumes "ring M 0 W" "n \<le> 80"
  shows "\<exists>W'. foldl sha1_round (W, r) [0..<n] = (W', fold (\<lambda>t. fips1_round t (sha1_W M t)) [0..<n] r) \<and> ring M n W'"
  using assms(2)
proof (induction n)
  case (Suc n)
  then show ?case using sha1_round_fips by fastforce
qed (use assms(1) in simp)

lemma sha1_process_compress:
  assumes "length st = 5"
  shows "sha1_process st M = sha1_compress st M"
proof -
  let ?W = "map (\<lambda>i. GET_UINT32_BE M (4 * i)) [0..<16]"
  have "ring M 0 ?W" by (auto simp: ring_def sha1_W.simps GET_UINT32_BE_word)
  then obtain W' where "foldl sha1_round (?W, regs5_of st) [0..<80] =
      (W', fold (\<lambda>t. fips1_round t (sha1_W M t)) [0..<80] (regs5_of st))"
    using sha1_rounds_fips [of M ?W 80] by blast
  moreover obtain a b c d e where "st = [a, b, c, d, e]"
    using assms by (auto simp: numeral_eq_Suc length_Suc_conv)
  ultimately show ?thesis
    unfolding sha1_process_def sha1_compress_def Let_def by (auto simp: add.commute split: prod.splits)
qed

lemma length_sha1_compress [simp]: "length H = 5 \<Longrightarrow> length (sha1_compress H M) = 5"
  by (auto simp: sha1_compress_def split: prod.splits)

lemma process_blocks_sha1:
  "length st = 5 \<Longrightarrow> process_blocks sha1_process st m = process_blocks sha1_compress st m"
  by (rule process_blocks_cong [where I = "\<lambda>s. length s = 5"]) (simp_all add: sha1_process_compress)

lemma sha1_pieces:
  assumes "length (sha_buffer ctx) = 64" and "\<forall>p\<in>set ps. length p < 2 ^ 32"
  shows "sha1_finish (foldl sha1_update (sha1_starts ctx) ps) = sha1_ref (concat ps)"
proof -
  have "sha1_update = sha_update sha1_process" by (intro ext) (simp add: sha1_update_def)
  moreover have "sha_inv (sha1_starts ctx)" using assms(1) by (simp add: sha_inv_def sha1_starts_def)
  ultimately show ?thesis
    using sha_digest [of "sha1_starts ctx" ps sha1_process] assms(2)
    by (simp add: sha1_finish_def sha1_ref_def process_blocks_sha1 sha1_starts_def PUT_UINT32_BE_fun)
qed

text \<open>C35. SHA-1: a message fed in any pieces, the whole message at once, and the message in the chunks between two resets of
  the watchdog all give the digest of the standard, although the code keeps only sixteen words of the message schedule.\<close>

theorem sha1_digest:
  assumes "length (sha_buffer ctx) = 64" and "\<forall>p\<in>set ps. length p < 2 ^ 31" and "length m < 2 ^ 31"
  shows "sha1_finish (foldl sha1_update (sha1_starts ctx) ps) = sha1_ref (concat ps)
    \<and> sha1_csum ctx m = sha1_ref m
    \<and> sha1_csum_wd ctx m chunk_sz = (if chunk_sz = 0 \<and> m \<noteq> [] then None else Some (sha1_ref m))"
proof -
  have "\<forall>p\<in>set (chunks chunk_sz m). length p < 2 ^ 32"
    using chunks_less [of m "2 ^ 31" _ chunk_sz] assms(3) by fastforce
  then have "sha1_finish (foldl sha1_update (sha1_starts ctx) (chunks chunk_sz m)) = sha1_ref (concat (chunks chunk_sz m))"
    by (rule sha1_pieces [OF assms(1)])
  moreover have "\<not> (chunk_sz = 0 \<and> m \<noteq> []) \<Longrightarrow> concat (chunks chunk_sz m) = m"
    using concat_chunks [of chunk_sz m] by (cases "m = []") (simp_all add: chunks.simps)
  moreover have "sha1_csum ctx m = sha1_ref m"
    using sha1_pieces [OF assms(1), of "[m]"] assms(3) by (simp add: sha1_csum_def)
  moreover have "\<forall>p\<in>set ps. length p < 2 ^ 32" using assms(2) by fastforce
  ultimately show ?thesis using sha1_pieces [OF assms(1), of ps] by (auto simp: sha1_csum_wd_def)
qed

theorem sha1_digest_witness:
  "sha1_csum_wd \<lparr>total0 = 7, total1 = 0, sha_state = [], sha_buffer = replicate 64 1\<rparr> [97, 98, 99] 2 = Some (sha1_ref [97, 98, 99])"
  using sha1_digest [of "\<lparr>total0 = 7, total1 = 0, sha_state = [], sha_buffer = replicate 64 1\<rparr>" "[]" "[97, 98, 99]" 2] by simp

lemma sha_buffer_update: "length (sha_buffer ctx) = 64 \<Longrightarrow> length bs < 2 ^ 32 \<Longrightarrow> length (sha_buffer (sha1_update ctx bs)) = 64"
  using sha_update_spec(1) [of ctx bs sha1_process] by (simp add: sha1_update_def sha_inv_def)

lemma sha_buffer_starts [simp]: "sha_buffer (sha1_starts ctx) = sha_buffer ctx"
  by (simp add: sha1_starts_def)

lemma length_process_blocks_sha1: "length st = 5 \<Longrightarrow> length (fst (process_blocks sha1_compress st m)) = 5"
  by (rule process_blocks_inv) simp_all

lemma length_sha1_ref [simp]: "length (sha1_ref m) = 20"
  using length_process_blocks_sha1 by (simp add: sha1_ref_def length_concat comp_def sum_list_triv)

lemma xor_key_pad:
  "length key \<le> 64 \<Longrightarrow>
    map (\<lambda>i. if i < length key then pad XOR key ! i else pad) [0..<64] = map (\<lambda>b. pad XOR b) (key @ replicate (64 - length key) 0)"
  for pad :: u8
  by (rule nth_equalityI) (auto simp: nth_append)

text \<open>\<open>sha1_hmac\<close> computes HMAC-SHA-1 as RFC 2104 defines it, for every key of at most 64 bytes.\<close>

lemma sha1_hmac_rfc2104:
  assumes "length (sha_buffer ctx) = 64" and "length key \<le> 64" and "length m < 2 ^ 31"
  shows "sha1_hmac ctx key m = hmac_ref key m"
proof -
  define kp where "kp pad = map (\<lambda>b. pad XOR b) (key @ replicate (64 - length key) 0)" for pad :: u8
  have kp: "length (kp pad) = 64" for pad using assms(2) by (simp add: kp_def)
  define c1 where "c1 = sha1_update (sha1_update (sha1_starts ctx) (kp 0x36)) m"
  have "length (sha_buffer c1) = 64"
    using assms(1,3) by (simp add: c1_def sha_buffer_update kp)
  then have "sha1_finish (sha1_update (sha1_update (sha1_starts c1) (kp 0x5C)) h) = sha1_ref (kp 0x5C @ h)" if "length h = 20" for h
    using sha1_pieces [of c1 "[kp 0x5C, h]"] that by (simp add: kp)
  moreover have "sha1_finish c1 = sha1_ref (kp 0x36 @ m)"
    using sha1_pieces [OF assms(1), of "[kp 0x36, m]"] assms(3) by (simp add: c1_def kp)
  ultimately show ?thesis
    unfolding sha1_hmac_def hmac_ref_def Let_def xor_key_pad [OF assms(2)] kp_def [symmetric] c1_def [symmetric] by simp
qed

end
