(* ===== verification/Md5.thy ===== *)
theory Md5
  imports Digest
begin

text \<open>
  MD5 (\<^verbatim>\<open>lib/md5.c\<close>). The context keeps the bit count in two words, and the bytes of an incomplete block in \<open>in\<close>, which the
  code also reads and writes as sixteen words (\<open>in32\<close>, a union). The target is little endian, so \<open>byteReverse\<close> rewrites
  each word with itself; that is proved here.
\<close>

section \<open>The code\<close>

record md5_context =
  md5_buf :: "u32 list"
  md5_bits0 :: u32
  md5_bits1 :: u32
  md5_in :: "u8 list"

text \<open>A word in memory on the little-endian target, and the bytes of a word.\<close>

definition get_le32 :: "u8 list \<Rightarrow> nat \<Rightarrow> u32" where
  "get_le32 b i =
     push_bit 16 (push_bit 8 (ucast (b ! (i + 3))) OR ucast (b ! (i + 2))) OR (push_bit 8 (ucast (b ! (i + 1))) OR ucast (b ! i))"

definition put_le32 :: "u32 \<Rightarrow> u8 list" where
  "put_le32 w = [ucast w, ucast (drop_bit 8 w), ucast (drop_bit 16 w), ucast (drop_bit 24 w)]"

text \<open>The first \<open>longs\<close> words of the buffer, each replaced by the number its bytes spell in little-endian order. The body
  runs before the test, so \<open>longs = 0\<close> is not a case of the loop; the callers pass 16, 14 and 4.\<close>

definition byteReverse :: "u8 list \<Rightarrow> nat \<Rightarrow> u8 list" where
  "byteReverse buf longs = concat (map (\<lambda>i. put_le32 (get_le32 buf (4 * i))) [0..<longs]) @ drop (4 * longs) buf"

definition MD5Init :: "md5_context \<Rightarrow> md5_context" where
  "MD5Init ctx = ctx\<lparr>md5_buf := [0x67452301, 0xefcdab89, 0x98badcfe, 0x10325476], md5_bits0 := 0, md5_bits1 := 0\<rparr>"

definition md5_F1 :: "u32 \<Rightarrow> u32 \<Rightarrow> u32 \<Rightarrow> u32" where "md5_F1 x y z = z XOR (x AND (y XOR z))"
definition md5_F2 :: "u32 \<Rightarrow> u32 \<Rightarrow> u32 \<Rightarrow> u32" where "md5_F2 x y z = md5_F1 z x y"
definition md5_F3 :: "u32 \<Rightarrow> u32 \<Rightarrow> u32 \<Rightarrow> u32" where "md5_F3 x y z = x XOR y XOR z"
definition md5_F4 :: "u32 \<Rightarrow> u32 \<Rightarrow> u32 \<Rightarrow> u32" where "md5_F4 x y z = y XOR (x OR NOT z)"

type_synonym regs4 = "u32 \<times> u32 \<times> u32 \<times> u32"

text \<open>One step; in the next call every register has moved by one place.\<close>

definition MD5STEP :: "(u32 \<Rightarrow> u32 \<Rightarrow> u32 \<Rightarrow> u32) \<Rightarrow> regs4 \<Rightarrow> u32 \<Rightarrow> nat \<Rightarrow> regs4" where
  "MD5STEP f r data s =
     (case r of (w, x, y, z) \<Rightarrow>
        let w1 = w + (f x y z + data); w2 = push_bit s w1 OR drop_bit (32 - s) w1
        in (z, w2 + x, x, y))"

text \<open>The sixty-four calls: index of the word, constant and shift.\<close>

definition md5_steps :: "(nat \<times> u32 \<times> nat) list" where
  "md5_steps =
     [(0, 0xd76aa478, 7), (1, 0xe8c7b756, 12), (2, 0x242070db, 17), (3, 0xc1bdceee, 22),
      (4, 0xf57c0faf, 7), (5, 0x4787c62a, 12), (6, 0xa8304613, 17), (7, 0xfd469501, 22),
      (8, 0x698098d8, 7), (9, 0x8b44f7af, 12), (10, 0xffff5bb1, 17), (11, 0x895cd7be, 22),
      (12, 0x6b901122, 7), (13, 0xfd987193, 12), (14, 0xa679438e, 17), (15, 0x49b40821, 22),
      (1, 0xf61e2562, 5), (6, 0xc040b340, 9), (11, 0x265e5a51, 14), (0, 0xe9b6c7aa, 20),
      (5, 0xd62f105d, 5), (10, 0x02441453, 9), (15, 0xd8a1e681, 14), (4, 0xe7d3fbc8, 20),
      (9, 0x21e1cde6, 5), (14, 0xc33707d6, 9), (3, 0xf4d50d87, 14), (8, 0x455a14ed, 20),
      (13, 0xa9e3e905, 5), (2, 0xfcefa3f8, 9), (7, 0x676f02d9, 14), (12, 0x8d2a4c8a, 20),
      (5, 0xfffa3942, 4), (8, 0x8771f681, 11), (11, 0x6d9d6122, 16), (14, 0xfde5380c, 23),
      (1, 0xa4beea44, 4), (4, 0x4bdecfa9, 11), (7, 0xf6bb4b60, 16), (10, 0xbebfbc70, 23),
      (13, 0x289b7ec6, 4), (0, 0xeaa127fa, 11), (3, 0xd4ef3085, 16), (6, 0x04881d05, 23),
      (9, 0xd9d4d039, 4), (12, 0xe6db99e5, 11), (15, 0x1fa27cf8, 16), (2, 0xc4ac5665, 23),
      (0, 0xf4292244, 6), (7, 0x432aff97, 10), (14, 0xab9423a7, 15), (5, 0xfc93a039, 21),
      (12, 0x655b59c3, 6), (3, 0x8f0ccc92, 10), (10, 0xffeff47d, 15), (1, 0x85845dd1, 21),
      (8, 0x6fa87e4f, 6), (15, 0xfe2ce6e0, 10), (6, 0xa3014314, 15), (13, 0x4e0811a1, 21),
      (4, 0xf7537e82, 6), (11, 0xbd3af235, 10), (2, 0x2ad7d2bb, 15), (9, 0xeb86d391, 21)]"

definition md5_fun :: "nat \<Rightarrow> u32 \<Rightarrow> u32 \<Rightarrow> u32 \<Rightarrow> u32" where
  "md5_fun t = (if t < 16 then md5_F1 else if t < 32 then md5_F2 else if t < 48 then md5_F3 else md5_F4)"

definition MD5Transform :: "u32 list \<Rightarrow> u32 list \<Rightarrow> u32 list" where
  "MD5Transform buf inw =
     (let (a, b, c, d) =
        foldl (\<lambda>r t. case md5_steps ! t of (i, k, s) \<Rightarrow> MD5STEP (md5_fun t) r (inw ! i + k) s)
          (buf ! 0, buf ! 1, buf ! 2, buf ! 3) [0..<64]
      in [buf ! 0 + a, buf ! 1 + b, buf ! 2 + c, buf ! 3 + d])"

text \<open>The words of \<open>in\<close>, after \<open>byteReverse\<close>.\<close>

definition in32 :: "u8 list \<Rightarrow> u32 list" where
  "in32 b = map (\<lambda>i. get_le32 b (4 * i)) [0..<16]"

definition md5_block :: "u32 list \<Rightarrow> u8 list \<Rightarrow> u32 list" where
  "md5_block buf b = MD5Transform buf (in32 (byteReverse b 16))"

text \<open>The loop over whole chunks copies each into \<open>in\<close> first.\<close>

fun md5_chunks :: "u32 list \<Rightarrow> u8 list \<Rightarrow> u8 list \<Rightarrow> u32 list \<times> u8 list \<times> u8 list" where
  "md5_chunks st inb buf =
     (if length buf \<ge> 64
      then let inb' = byteReverse (overwrite inb 0 (take 64 buf)) 16
           in md5_chunks (MD5Transform st (in32 inb')) inb' (drop 64 buf)
      else (st, inb, buf))"

declare md5_chunks.simps [simp del]

definition MD5Update :: "md5_context \<Rightarrow> u8 list \<Rightarrow> md5_context" where
  "MD5Update ctx buf =
     (let len = word_of_nat (length buf);
          t = md5_bits0 ctx;
          b0 = t + push_bit 3 len;
          b1 = (if b0 < t then md5_bits1 ctx + 1 else md5_bits1 ctx) + drop_bit 29 len;
          u = unat (drop_bit 3 t AND 0x3f)
      in if u \<noteq> 0 \<and> length buf < 64 - u
         then ctx\<lparr>md5_bits0 := b0, md5_bits1 := b1, md5_in := overwrite (md5_in ctx) u buf\<rparr>
         else let (st, inb, rest) =
                (if u \<noteq> 0
                 then let inb = byteReverse (overwrite (md5_in ctx) u (take (64 - u) buf)) 16
                      in (MD5Transform (md5_buf ctx) (in32 inb), inb, drop (64 - u) buf)
                 else (md5_buf ctx, md5_in ctx, buf));
                (st', inb', rest') = md5_chunks st inb rest
              in \<lparr>md5_buf = st', md5_bits0 = b0, md5_bits1 = b1, md5_in = overwrite inb' 0 rest'\<rparr>)"

text \<open>The digest; the context is cleared afterwards.\<close>

definition MD5Final :: "md5_context \<Rightarrow> u8 list" where
  "MD5Final ctx =
     (let count = unat (drop_bit 3 (md5_bits0 ctx) AND 0x3F);
          in1 = overwrite (md5_in ctx) count [0x80];
          p = count + 1;
          left = 64 - 1 - count;
          (st, in2) =
            (if left < 8
             then let b = byteReverse (overwrite in1 p (replicate left 0)) 16
                  in (MD5Transform (md5_buf ctx) (in32 b), overwrite b 0 (replicate 56 0))
             else (md5_buf ctx, overwrite in1 p (replicate (left - 8) 0)));
          in3 = byteReverse in2 14;
          in4 = overwrite (overwrite in3 56 (put_le32 (md5_bits0 ctx))) 60 (put_le32 (md5_bits1 ctx));
          st' = MD5Transform st (in32 in4)
      in byteReverse (concat (map put_le32 st')) 4)"

definition md5 :: "md5_context \<Rightarrow> u8 list \<Rightarrow> u8 list" where
  "md5 ctx input = MD5Final (MD5Update (MD5Init ctx) input)"

definition md5_wd :: "md5_context \<Rightarrow> u8 list \<Rightarrow> nat \<Rightarrow> u8 list option" where
  "md5_wd ctx input chunk_sz =
     (if chunk_sz = 0 \<and> input \<noteq> [] then None
      else Some (MD5Final (foldl MD5Update (MD5Init ctx) (chunks chunk_sz input))))"

section \<open>The algorithm of RFC 1321\<close>

text \<open>The functions, the order in which each round visits the words of the block, the rotations and one operation of a round; the
  additive constants are the table of the RFC, whose entry for step \<open>t\<close> is the integer part of \<open>2 ^ 32 * |sin (t + 1)|\<close>.
  Words and bytes are converted by arithmetic, the least significant byte first.\<close>

definition le_word :: "u8 list \<Rightarrow> nat \<Rightarrow> u32" where
  "le_word b i =
     word_of_nat (((unat (b ! (i + 3)) * 256 + unat (b ! (i + 2))) * 256 + unat (b ! (i + 1))) * 256 + unat (b ! i))"

definition le_bytes :: "nat \<Rightarrow> nat \<Rightarrow> u8 list" where
  "le_bytes n v = map (\<lambda>k. word_of_nat (v div 256 ^ k mod 256)) [0..<n]"

definition rfc_fun :: "nat \<Rightarrow> u32 \<Rightarrow> u32 \<Rightarrow> u32 \<Rightarrow> u32" where
  "rfc_fun t x y z =
     (if t < 16 then (x AND y) OR (NOT x AND z)
      else if t < 32 then (x AND z) OR (y AND NOT z)
      else if t < 48 then x XOR y XOR z
      else y XOR (x OR NOT z))"

definition rfc_index :: "nat \<Rightarrow> nat" where
  "rfc_index t =
     (if t < 16 then t else if t < 32 then (1 + 5 * t) mod 16 else if t < 48 then (5 + 3 * t) mod 16 else 7 * t mod 16)"

definition rfc_shift :: "nat \<Rightarrow> nat" where
  "rfc_shift t = ([[7, 12, 17, 22], [5, 9, 14, 20], [4, 11, 16, 23], [6, 10, 15, 21]] ! (t div 16)) ! (t mod 4)"

definition rfc_T :: "u32 list" where
  "rfc_T =
     [0xd76aa478, 0xe8c7b756, 0x242070db, 0xc1bdceee, 0xf57c0faf, 0x4787c62a, 0xa8304613, 0xfd469501,
      0x698098d8, 0x8b44f7af, 0xffff5bb1, 0x895cd7be, 0x6b901122, 0xfd987193, 0xa679438e, 0x49b40821,
      0xf61e2562, 0xc040b340, 0x265e5a51, 0xe9b6c7aa, 0xd62f105d, 0x02441453, 0xd8a1e681, 0xe7d3fbc8,
      0x21e1cde6, 0xc33707d6, 0xf4d50d87, 0x455a14ed, 0xa9e3e905, 0xfcefa3f8, 0x676f02d9, 0x8d2a4c8a,
      0xfffa3942, 0x8771f681, 0x6d9d6122, 0xfde5380c, 0xa4beea44, 0x4bdecfa9, 0xf6bb4b60, 0xbebfbc70,
      0x289b7ec6, 0xeaa127fa, 0xd4ef3085, 0x04881d05, 0xd9d4d039, 0xe6db99e5, 0x1fa27cf8, 0xc4ac5665,
      0xf4292244, 0x432aff97, 0xab9423a7, 0xfc93a039, 0x655b59c3, 0x8f0ccc92, 0xffeff47d, 0x85845dd1,
      0x6fa87e4f, 0xfe2ce6e0, 0xa3014314, 0x4e0811a1, 0xf7537e82, 0xbd3af235, 0x2ad7d2bb, 0xeb86d391]"

definition rfc_const :: "nat \<Rightarrow> u32" where
  "rfc_const t = rfc_T ! t"

definition rfc_step :: "u8 list \<Rightarrow> nat \<Rightarrow> regs4 \<Rightarrow> regs4" where
  "rfc_step M t r =
     (case r of (a, b, c, d) \<Rightarrow>
        (d, b + word_rotl (rfc_shift t) (a + rfc_fun t b c d + le_word M (4 * rfc_index t) + rfc_const t), b, c))"

definition md5_compress :: "u32 list \<Rightarrow> u8 list \<Rightarrow> u32 list" where
  "md5_compress H M =
     (case fold (rfc_step M) [0..<64] (H ! 0, H ! 1, H ! 2, H ! 3) of (a, b, c, d) \<Rightarrow> map2 (+) [a, b, c, d] H)"

definition le64 :: "u64 \<Rightarrow> u8 list" where
  "le64 w = le_bytes 8 (unat w)"

definition md5_ref :: "u8 list \<Rightarrow> u8 list" where
  "md5_ref m = concat (map (le_bytes 4 \<circ> unat) (fst (process_blocks md5_compress
     [0x67452301, 0xefcdab89, 0x98badcfe, 0x10325476] (padded le64 m))))"

section \<open>Byte order\<close>

lemma get_le32_word: "get_le32 b i = le_word b i"
proof -
  have "le_word b i = ((ucast (b ! (i + 3)) * 256 + ucast (b ! (i + 2))) * 256 + ucast (b ! (i + 1))) * 256 + ucast (b ! i)"
    by (simp add: le_word_def)
  also have "\<dots> = get_le32 b i"
    unfolding add_push_byte get_le32_def by (rule bit_word_eqI) (auto simp: bit_simps)
  finally show ?thesis by simp
qed

lemma put_le32_fun: "put_le32 = le_bytes 4 \<circ> unat"
proof (intro ext)
  fix w :: u32
  have "[0..<4] = [0, 1, 2, 3 :: nat]" by (simp add: upt_rec)
  then show "put_le32 w = (le_bytes 4 \<circ> unat) w"
    using ucast_drop_bytes [of 0 w] ucast_drop_bytes [of 1 w] ucast_drop_bytes [of 2 w] ucast_drop_bytes [of 3 w]
    by (simp add: put_le32_def le_bytes_def)
qed

lemma le64_words: "le64 w = put_le32 (ucast w) @ put_le32 (ucast (drop_bit 32 w))"
proof -
  have "[0..<8] = [0, 1, 2, 3, 4, 5, 6, 7 :: nat]" by (simp add: upt_rec)
  then have "le64 w = map (\<lambda>k. ucast (drop_bit (8 * k) w)) [0, 1, 2, 3, 4, 5, 6, 7]"
    unfolding le64_def le_bytes_def ucast_drop_bytes by simp
  also have "\<dots> = put_le32 (ucast w) @ put_le32 (ucast (drop_bit 32 w))"
    unfolding put_le32_def by (simp; intro conjI bit_word_eqI; auto simp: bit_simps add.commute)
  finally show ?thesis .
qed

lemma put_get_le32: "put_le32 (get_le32 b i) = [b ! i, b ! (i + 1), b ! (i + 2), b ! (i + 3)]"
proof -
  have "ucast (get_le32 b i) = b ! i" "ucast (drop_bit 8 (get_le32 b i)) = b ! (i + 1)"
    "ucast (drop_bit 16 (get_le32 b i)) = b ! (i + 2)" "ucast (drop_bit 24 (get_le32 b i)) = b ! (i + 3)"
    by (rule bit_word_eqI; auto simp: get_le32_def bit_simps dest: bit_imp_le_length)+
  then show ?thesis by (simp add: put_le32_def)
qed

lemma take_4_more: "i + 4 \<le> length b \<Longrightarrow> take i b @ [b ! i, b ! (i + 1), b ! (i + 2), b ! (i + 3)] = take (i + 4) b"
  by (rule nth_equalityI) (auto simp: nth_append nth_Cons' less_diff_conv2 less_Suc_eq numeral_eq_Suc)

lemma byteReverse_words: "4 * n \<le> length b \<Longrightarrow> concat (map (\<lambda>i. put_le32 (get_le32 b (4 * i))) [0..<n]) = take (4 * n) b"
proof (induction n)
  case (Suc n)
  then show ?case using take_4_more [of "4 * n" b] by (simp add: put_get_le32 add.commute)
qed simp

text \<open>As the comment of the source says, \<open>byteReverse\<close> is harmless on a little-endian machine.\<close>

lemma byteReverse_id [simp]: "4 * n \<le> length b \<Longrightarrow> byteReverse b n = b"
  by (simp add: byteReverse_def byteReverse_words)

section \<open>The code computes the functions of the RFC\<close>

lemma md5_fun_rfc: "md5_fun t x y z = rfc_fun t x y z"
  by (rule bit_word_eqI)
    (auto simp: md5_fun_def rfc_fun_def md5_F1_def md5_F2_def md5_F3_def md5_F4_def bit_simps)

lemma md5_steps_rfc: "md5_steps = map (\<lambda>t. (rfc_index t, rfc_const t, rfc_shift t)) [0..<64]"
  by code_simp

lemma md5_steps_nth: "t < 64 \<Longrightarrow> md5_steps ! t = (rfc_index t, rfc_const t, rfc_shift t)"
  by (simp add: md5_steps_rfc)

lemma rfc_bounds: "t < 64 \<Longrightarrow> rfc_index t < 16 \<and> 0 < rfc_shift t \<and> rfc_shift t < 32"
proof -
  assume t: "t < 64"
  have "list_all (\<lambda>t. rfc_index t < 16 \<and> 0 < rfc_shift t \<and> rfc_shift t < 32) [0..<64]"
    by code_simp
  then show ?thesis using t by (simp add: list_all_iff)
qed

lemma MD5STEP_rfc:
  assumes "t < 64"
  shows "(case md5_steps ! t of (i, k, s) \<Rightarrow> MD5STEP (md5_fun t) r (in32 M ! i + k) s) = rfc_step M t r"
  using rfc_bounds [OF assms]
  by (auto simp: md5_steps_nth [OF assms] MD5STEP_def rfc_step_def in32_def get_le32_word md5_fun_rfc rotate_bits_left Let_def
      add.assoc add.commute add.left_commute split: prod.splits)

lemma MD5Transform_compress:
  assumes "length st = 4"
  shows "MD5Transform st (in32 M) = md5_compress st M"
proof -
  have "foldl (\<lambda>r t. case md5_steps ! t of (i, k, s) \<Rightarrow> MD5STEP (md5_fun t) r (in32 M ! i + k) s) r [0..<n] =
      fold (rfc_step M) [0..<n] r" if "n \<le> 64" for r n
    using that by (induction n) (simp_all add: MD5STEP_rfc)
  moreover obtain a b c d where "st = [a, b, c, d]"
    using assms by (auto simp: numeral_eq_Suc length_Suc_conv)
  ultimately show ?thesis
    unfolding MD5Transform_def md5_compress_def Let_def by (auto simp: add.commute split: prod.splits)
qed

lemma length_md5_compress [simp]: "length H = 4 \<Longrightarrow> length (md5_compress H M) = 4"
  by (auto simp: md5_compress_def split: prod.splits)

text \<open>The whole chunks of a call.\<close>

lemma md5_chunks_process:
  assumes "length st = 4" "length inb = 64"
  shows "\<exists>inb'. md5_chunks st inb buf = (case process_blocks md5_compress st buf of (st', r) \<Rightarrow> (st', inb', r)) \<and> length inb' = 64"
  using assms
proof (induction st inb buf rule: md5_chunks.induct)
  case (1 st inb buf)
  show ?case
  proof (cases "64 \<le> length buf")
    case True
    then have "overwrite inb 0 (take 64 buf) = take 64 buf" using 1(3) by (simp add: overwrite_def)
    then show ?thesis
      using 1 True by (subst md5_chunks.simps, subst process_blocks.simps) (simp add: MD5Transform_compress Let_def)
  next
    case False
    then show ?thesis using 1(3) by (subst md5_chunks.simps) auto
  qed
qed

section \<open>The update function meets its contract\<close>

definition md5_pending :: "md5_context \<Rightarrow> u8 list" where
  "md5_pending ctx = take (unat (drop_bit 3 (md5_bits0 ctx) AND 0x3F)) (md5_in ctx)"

definition md5_total :: "md5_context \<Rightarrow> u64" where
  "md5_total ctx = word_of_nat (2 ^ 32 * unat (md5_bits1 ctx) + unat (md5_bits0 ctx))"

definition md5_inv :: "md5_context \<Rightarrow> bool" where
  "md5_inv ctx \<longleftrightarrow> length (md5_in ctx) = 64 \<and> length (md5_buf ctx) = 4 \<and> unat (md5_bits0 ctx) mod 8 = 0"

lemma bits_3F: "unat (drop_bit 3 w AND 0x3F) = unat w div 8 mod 64" for w :: u32
proof -
  have "unat (drop_bit 3 w) = unat w div 8"
    using unsigned_less [of w, where 'a = nat] by (simp add: unsigned_drop_bit_eq drop_bit_eq_div [of 3 "unat w"] take_bit_nat_eq_self)
  then show ?thesis by (simp only: and_3F)
qed

text \<open>The low word of the bit count.\<close>

lemma bits0_add:
  fixes a :: u32 and n :: nat
  assumes "unat a mod 8 = 0"
  defines "b \<equiv> a + push_bit 3 (word_of_nat n)"
  shows "unat b mod 8 = 0" and "unat b div 8 mod 64 = (unat a div 8 mod 64 + n) mod 64"
proof -
  obtain q where q: "unat a = 8 * q" using assms(1) by auto
  have "unat b = (8 * q + 8 * n) mod 2 ^ 32"
    by (simp add: b_def unat_word_ariths unat_of_nat push_bit_eq_mult q mod_simps mult.commute)
  also have "\<dots> = 8 * ((q + n) mod 2 ^ 29)" using mult_mod_right [of 8 "q + n" "2 ^ 29"] by (simp add: distrib_left)
  finally have b: "unat b = 8 * ((q + n) mod 2 ^ 29)" .
  then show "unat b mod 8 = 0" by simp
  have "(q + n) mod 2 ^ 29 mod 64 = (q + n) mod 64" by (rule mod_mod_cancel) simp
  then show "unat b div 8 mod 64 = (unat a div 8 mod 64 + n) mod 64" by (simp add: b q mod_add_left_eq)
qed

lemma word_overflow: "(x + y < x) = (2 ^ 32 \<le> unat x + unat y)" for x y :: u32
proof (cases "unat x + unat y < 2 ^ 32")
  case True
  then show ?thesis by (simp add: word_less_nat_alt unat_word_ariths)
next
  case False
  then show ?thesis
    using unsigned_less [of x, where 'a = nat] unsigned_less [of y, where 'a = nat]
    by (simp add: word_less_nat_alt unat_word_ariths le_mod_geq)
qed

text \<open>The carry into the high word, which the code detects in the other summand than SHA does.\<close>

lemma bits_carry:
  fixes a b :: u32
  assumes "n < 2 ^ 32"
  defines "l \<equiv> push_bit 3 (word_of_nat n) :: u32"
  shows "(word_of_nat (2 ^ 32 * unat ((if a + l < a then b + 1 else b) + drop_bit 29 (word_of_nat n)) + unat (a + l)) :: u64) =
    word_of_nat (2 ^ 32 * unat b + unat a) + 8 * word_of_nat n"
proof -
  let ?k = "8 * n mod 2 ^ 32" and ?h = "n div 2 ^ 29" and ?c = "if a + l < a then b + 1 else b"
  have l: "l = word_of_nat ?k"
    using word_of_nat_mod [of "8 * n", where 'a = 32] by (simp add: l_def push_bit_eq_mult mult.commute)
  have "(a + l < a) = (a + l < l)"
    using word_overflow [of a l] word_overflow [of l a] by (simp add: add.commute)
  then have low: "word_of_nat (2 ^ 32 * unat ?c + unat (a + l)) = (word_of_nat (2 ^ 32 * unat b + unat a) + word_of_nat ?k :: u64)"
    using total_carry [of ?k a b] l by simp
  have h: "unat (drop_bit 29 (word_of_nat n :: u32)) = ?h"
    using assms(1) by (simp add: unsigned_drop_bit_eq drop_bit_eq_div [of 29 n] unat_of_nat take_bit_nat_eq_self div_le_dividend order.strict_trans1)
  have "word_of_nat (2 ^ 32 * unat (?c + drop_bit 29 (word_of_nat n))) = (word_of_nat (2 ^ 32 * (unat ?c + ?h)) :: u64)"
  proof -
    have "(2 :: nat) ^ 32 * ((unat ?c + ?h) mod 2 ^ 32) = (2 ^ 32 * (unat ?c + ?h)) mod 2 ^ 64" by (simp add: mult_mod_right)
    then show ?thesis
      using word_of_nat_mod [of "2 ^ 32 * (unat ?c + ?h)", where 'a = 64] by (simp add: unat_word_ariths h)
  qed
  then have "(word_of_nat (2 ^ 32 * unat (?c + drop_bit 29 (word_of_nat n)) + unat (a + l)) :: u64) =
      word_of_nat (2 ^ 32 * unat ?c + unat (a + l)) + word_of_nat (2 ^ 32 * ?h)"
    by (simp only: of_nat_add distrib_left add.assoc add.commute add.left_commute)
  also have "\<dots> = word_of_nat (2 ^ 32 * unat b + unat a) + word_of_nat (?k + 2 ^ 32 * ?h)"
    unfolding low by (simp only: of_nat_add add.assoc)
  also have "?k + 2 ^ 32 * ?h = 8 * n"
    using mod_mult_div_eq [of "8 * n" "2 ^ 32"] div_mult2_eq [of "8 * n" 8 "2 ^ 29"] by simp
  finally show ?thesis by simp
qed

lemma MD5Update_total:
  "length buf < 2 ^ 32 \<Longrightarrow> md5_total (MD5Update ctx buf) = md5_total ctx + 8 * word_of_nat (length buf)"
  using bits_carry [of "length buf" "md5_bits0 ctx" "md5_bits1 ctx"]
  by (auto simp: MD5Update_def md5_total_def Let_def case_prod_beta)

lemma MD5Update_blocks:
  assumes "md5_inv ctx" and "length buf < 2 ^ 32"
  shows "md5_inv (MD5Update ctx buf) \<and>
    process_blocks md5_compress (md5_buf ctx) (md5_pending ctx @ buf) = (md5_buf (MD5Update ctx buf), md5_pending (MD5Update ctx buf))"
proof -
  define u where "u = unat (md5_bits0 ctx) div 8 mod 64"
  define b0 where "b0 = md5_bits0 ctx + push_bit 3 (word_of_nat (length buf))"
  have inv: "length (md5_in ctx) = 64" "length (md5_buf ctx) = 4" "u < 64" "unat (md5_bits0 ctx) mod 8 = 0"
    using assms(1) by (simp_all add: md5_inv_def u_def)
  have b0: "unat b0 mod 8 = 0" "unat b0 div 8 mod 64 = (u + length buf) mod 64"
    using bits0_add [OF inv(4)] by (simp_all add: b0_def u_def)
  have pend: "md5_pending ctx = take u (md5_in ctx)" by (simp add: md5_pending_def bits_3F u_def)
  show ?thesis
  proof (cases "u \<noteq> 0 \<and> length buf < 64 - u")
    case True
    then have "(u + length buf) mod 64 = u + length buf" by (intro mod_less) linarith
    then show ?thesis
      using True inv b0 pend
      by (simp add: MD5Update_def Let_def bits_3F u_def [symmetric] b0_def [symmetric] md5_inv_def md5_pending_def)
  next
    case False
    let ?b = "md5_pending ctx @ take (64 - u) buf"
    define st where "st = (if u \<noteq> 0 then md5_compress (md5_buf ctx) ?b else md5_buf ctx)"
    define inb where "inb = (if u \<noteq> 0 then ?b else md5_in ctx)"
    define rest where "rest = (if u \<noteq> 0 then drop (64 - u) buf else buf)"
    have st: "length st = 4" "length inb = 64" using inv False pend by (auto simp: st_def inb_def)
    have pb: "process_blocks md5_compress (md5_buf ctx) (md5_pending ctx @ buf) = process_blocks md5_compress st rest"
      using process_blocks_block [of ?b md5_compress "md5_buf ctx" "drop (64 - u) buf"] inv False pend
      by (auto simp: st_def rest_def)
    obtain st' r where r: "process_blocks md5_compress st rest = (st', r)" by fastforce
    then obtain inb' where c: "md5_chunks st inb rest = (st', inb', r)" "length inb' = 64"
      using md5_chunks_process [OF st, of rest] by auto
    have len: "length st' = 4"
      using process_blocks_inv [of "\<lambda>s. length s = 4" md5_compress st rest] st(1) r by simp
    have "length r = length rest mod 64" using length_process_blocks [of md5_compress st rest] r by simp
    moreover have "u \<noteq> 0 \<Longrightarrow> u + length buf = length rest + 64" "u = 0 \<Longrightarrow> length rest = length buf"
      using False inv(3) by (simp_all add: rest_def)
    ultimately have lr: "unat b0 div 8 mod 64 = length r" using b0(2) by (cases "u = 0") auto
    have "overwrite (md5_in ctx) u (take (64 - u) buf) = ?b" if "u \<noteq> 0"
      using that False inv pend by (auto simp: overwrite_def)
    then have sel: "(if u \<noteq> 0
                 then (MD5Transform (md5_buf ctx) (in32 (byteReverse (overwrite (md5_in ctx) u (take (64 - u) buf)) 16)),
                       byteReverse (overwrite (md5_in ctx) u (take (64 - u) buf)) 16, drop (64 - u) buf)
                 else (md5_buf ctx, md5_in ctx, buf)) = (st, inb, rest)"
      using st inv(2) by (auto simp: st_def inb_def rest_def MD5Transform_compress)
    have "\<exists>b1. MD5Update ctx buf = \<lparr>md5_buf = st', md5_bits0 = b0, md5_bits1 = b1, md5_in = overwrite inb' 0 r\<rparr>"
      unfolding MD5Update_def Let_def bits_3F u_def [symmetric] b0_def [symmetric] if_not_P [OF False] sel
      by (simp add: c(1))
    then show ?thesis
      using pb r c(2) lr len b0(1) mod_less_divisor [of 64 "unat b0 div 8"]
      by (auto simp: bits_3F md5_inv_def md5_pending_def overwrite_def)
  qed
qed

interpretation md5: block_stream md5_compress MD5Update md5_buf md5_pending md5_total md5_inv "2 ^ 32" 8
  by unfold_locales (auto simp: MD5Update_blocks MD5Update_total)

section \<open>The digest\<close>

lemma length_put_le32 [simp]: "length (put_le32 w) = 4"
  by (simp add: put_le32_def)

lemma length_le64 [simp]: "length (le64 w) = 8"
  by (simp add: le64_def le_bytes_def)

lemma md5_total_bytes: "put_le32 (md5_bits0 ctx) @ put_le32 (md5_bits1 ctx) = le64 (md5_total ctx)"
proof -
  have "push_bit 32 (ucast (md5_bits1 ctx)) + (ucast (md5_bits0 ctx) :: u64) = push_bit 32 (ucast (md5_bits1 ctx)) OR ucast (md5_bits0 ctx)"
    by (rule disjunctive_add) (auto simp: bit_simps dest!: bit_imp_le_length)
  then have "md5_total ctx = push_bit 32 (ucast (md5_bits1 ctx)) OR ucast (md5_bits0 ctx)"
    by (simp add: md5_total_def push_bit_eq_mult mult.commute)
  then have "ucast (md5_total ctx) = md5_bits0 ctx" "ucast (drop_bit 32 (md5_total ctx)) = md5_bits1 ctx"
    by - (rule bit_word_eqI; auto simp: bit_simps dest: bit_imp_le_length)+
  then show ?thesis by (simp add: le64_words)
qed

text \<open>The last one or two blocks.\<close>

lemma MD5Final_blocks:
  assumes "md5_inv ctx"
  defines "count \<equiv> length (md5_pending ctx)"
  shows "MD5Final ctx = concat (map put_le32 (fst (process_blocks md5_compress (md5_buf ctx)
    (md5_pending ctx @ 0x80 # replicate ((119 - count) mod 64) 0 @ le64 (md5_total ctx)))))"
proof -
  define pend where "pend = md5_pending ctx"
  define tail where "tail = drop (count + 1) (md5_in ctx)"
  have inv: "length (md5_in ctx) = 64" "length (md5_buf ctx) = 4" using assms(1) by (simp_all add: md5_inv_def)
  have count: "count < 64" "unat (drop_bit 3 (md5_bits0 ctx) AND 0x3F) = count" "take count (md5_in ctx) = pend" "length pend = count"
    using inv by (auto simp: count_def md5_pending_def bits_3F pend_def)
  have in1: "overwrite (md5_in ctx) count [0x80] = pend @ 0x80 # tail" "length tail = 63 - count"
    using count inv by (simp_all add: overwrite_def tail_def)
  have pad: "overwrite (pend @ 0x80 # tail) (count + 1) (replicate k 0) = pend @ 0x80 # replicate k 0 @ drop k tail" if "k \<le> 63 - count" for k
    using count(4) that by (simp add: overwrite_def)
  have fin: "overwrite (overwrite b 56 (put_le32 x)) 60 (put_le32 y) = take 56 b @ put_le32 x @ put_le32 y"
    if "length b = 64" for b x y
    using that by (simp add: overwrite_def)
  have out: "byteReverse (concat (map put_le32 st)) 4 = concat (map put_le32 st)" if "length st = 4" for st
    using that by (simp add: length_concat comp_def sum_list_triv)
  have block: "length st = 4 \<Longrightarrow> length b = 64 \<Longrightarrow> process_blocks md5_compress st b = (MD5Transform st (in32 b), [])" for st b
    using process_blocks_block [of b md5_compress st "[]"] by (simp add: MD5Transform_compress)
  show ?thesis
  proof (cases "63 - count < 8")
    case True
    define b1 where "b1 = pend @ 0x80 # replicate (63 - count) 0"
    define st where "st = MD5Transform (md5_buf ctx) (in32 b1)"
    have b1: "length b1 = 64" and st: "length st = 4" using count inv(2) by (simp_all add: b1_def st_def MD5Transform_compress)
    have "(119 - count) mod 64 = (63 - count) + 56" using True count(1) by simp
    then have "pend @ 0x80 # replicate ((119 - count) mod 64) 0 @ le64 (md5_total ctx) = b1 @ replicate 56 0 @ le64 (md5_total ctx)"
      by (simp only: b1_def replicate_add append_assoc append_Cons)
    moreover have "process_blocks md5_compress (md5_buf ctx) (b1 @ replicate 56 0 @ le64 (md5_total ctx)) =
        (MD5Transform st (in32 (replicate 56 0 @ le64 (md5_total ctx))), [])"
      using process_blocks_block [OF b1, of md5_compress "md5_buf ctx"] block [OF st] inv(2)
      by (simp add: st_def MD5Transform_compress)
    moreover have "MD5Final ctx = concat (map put_le32 (MD5Transform st (in32 (replicate 56 0 @ le64 (md5_total ctx)))))"
      unfolding MD5Final_def Let_def count(2) in1(1) using True pad [of "63 - count"] b1 st in1(2)
      by (simp add: fin out MD5Transform_compress md5_total_bytes b1_def [symmetric] st_def [symmetric] overwrite_def [of b1])
    ultimately show ?thesis unfolding pend_def by (simp only: fst_conv)
  next
    case False
    define b where "b = pend @ 0x80 # replicate (55 - count) 0"
    have b: "length b = 56" using count False by (simp add: b_def)
    have "(119 - count) mod 64 = 55 - count" using False count(1) by (simp add: le_mod_geq)
    moreover have "process_blocks md5_compress (md5_buf ctx) (b @ le64 (md5_total ctx)) =
        (MD5Transform (md5_buf ctx) (in32 (b @ le64 (md5_total ctx))), [])"
      using block [OF inv(2)] b by simp
    moreover have "overwrite (pend @ 0x80 # tail) (count + 1) (replicate (63 - count - 8) 0) = b @ drop (55 - count) tail"
      using pad [of "55 - count"] False by (simp add: b_def)
    then have "MD5Final ctx = concat (map put_le32 (MD5Transform (md5_buf ctx) (in32 (b @ le64 (md5_total ctx)))))"
      unfolding MD5Final_def Let_def count(2) in1(1) using False b in1(2) inv(2)
      by (simp add: fin out MD5Transform_compress md5_total_bytes)
    ultimately show ?thesis by (simp add: pend_def b_def)
  qed
qed

lemma md5_pieces:
  assumes "length (md5_in ctx) = 64" and "\<forall>p\<in>set ps. length p < 2 ^ 32"
  shows "MD5Final (foldl MD5Update (MD5Init ctx) ps) = md5_ref (concat ps)"
proof -
  define c where "c = MD5Init ctx"
  define m where "m = concat ps"
  have c: "md5_inv c" "md5_pending c = []" "md5_total c = 0" "md5_buf c = [0x67452301, 0xefcdab89, 0x98badcfe, 0x10325476]"
    using assms(1) by (simp_all add: c_def MD5Init_def md5_inv_def md5_pending_def md5_total_def)
  have inv: "md5_inv (md5.feed c ps)" and total: "md5_total (md5.feed c ps) = word_of_nat (8 * length m)"
    using md5.feed_inv [OF c(1) assms(2)] md5.feed_total [OF c(1) assms(2)] c(3) by (simp_all add: m_def)
  have blocks: "process_blocks md5_compress (md5_buf c) m = (md5_buf (md5.feed c ps), md5_pending (md5.feed c ps))"
    using md5.feed_blocks [OF c(1) assms(2)] c(2) by (simp add: m_def)
  then have "length (md5_pending (md5.feed c ps)) = length m mod 64"
    using length_process_blocks [of md5_compress "md5_buf c" m] by simp
  then have "MD5Final (md5.feed c ps) = concat (map put_le32 (fst (process_blocks md5_compress (md5_buf c) (padded le64 m))))"
    using MD5Final_blocks [OF inv] blocks process_blocks_append [of md5_compress "md5_buf c" m]
    by (simp add: padded_def total)
  then have "MD5Final (md5.feed c ps) = md5_ref m" by (simp add: md5_ref_def flip: c(4) put_le32_fun)
  then show ?thesis by (simp add: md5.feed_def c_def m_def)
qed

text \<open>C36. MD5: a message fed to \<open>MD5Update\<close> in any pieces, at once, or in the chunks between two resets of the watchdog has the
  digest that RFC 1321 defines for the whole message.\<close>

theorem md5_digest:
  assumes "length (md5_in ctx) = 64" and "\<forall>p\<in>set ps. length p < 2 ^ 31" and "length m < 2 ^ 31"
  shows "MD5Final (foldl MD5Update (MD5Init ctx) ps) = md5_ref (concat ps)
    \<and> md5 ctx m = md5_ref m
    \<and> md5_wd ctx m chunk_sz = (if chunk_sz = 0 \<and> m \<noteq> [] then None else Some (md5_ref m))"
proof -
  have "\<forall>p\<in>set (chunks chunk_sz m). length p < 2 ^ 32"
    using chunks_less [of m "2 ^ 31" _ chunk_sz] assms(3) by fastforce
  then have "MD5Final (foldl MD5Update (MD5Init ctx) (chunks chunk_sz m)) = md5_ref (concat (chunks chunk_sz m))"
    by (rule md5_pieces [OF assms(1)])
  moreover have "\<not> (chunk_sz = 0 \<and> m \<noteq> []) \<Longrightarrow> concat (chunks chunk_sz m) = m"
    using concat_chunks [of chunk_sz m] by (cases "m = []") (simp_all add: chunks.simps)
  moreover have "md5 ctx m = md5_ref m"
    using md5_pieces [OF assms(1), of "[m]"] assms(3) by (simp add: md5_def)
  moreover have "\<forall>p\<in>set ps. length p < 2 ^ 32" using assms(2) by fastforce
  ultimately show ?thesis using md5_pieces [OF assms(1), of ps] by (auto simp: md5_wd_def)
qed

theorem md5_digest_witness:
  "md5_wd \<lparr>md5_buf = [], md5_bits0 = 9, md5_bits1 = 1, md5_in = replicate 64 7\<rparr> [97, 98, 99] 2 = Some (md5_ref [97, 98, 99])"
  using md5_digest [of "\<lparr>md5_buf = [], md5_bits0 = 9, md5_bits1 = 1, md5_in = replicate 64 7\<rparr>" "[]" "[97, 98, 99]" 2] by simp

end
