(* ===== verification/Net.thy ===== *)
theory Net
  imports Vsprintf
begin

text \<open>
  The network core: addresses and their text (\<^verbatim>\<open>lib/net_utils.c\<close>, \<^verbatim>\<open>net/net.c\<close>), the ring of Ethernet devices
  (\<^verbatim>\<open>net/eth.c\<close>), and the control of the loop that the protocols share: its state, the time-out handler, and the
  restart of a transfer (\<^verbatim>\<open>net/net.c\<close>). The environment is used through its map of variables, which is what the
  theory of the environment shows \<open>getenv\<close> and \<open>setenv\<close> to implement. Whether a device comes up is a parameter.
\<close>

section \<open>Byte order and addresses\<close>

definition htonl :: "u32 \<Rightarrow> u32" where
  "htonl x = push_bit 24 (x AND 0xff) OR push_bit 8 (x AND 0xff00) OR
     (drop_bit 8 x AND 0xff00) OR drop_bit 24 x"

definition htons :: "u16 \<Rightarrow> u16" where
  "htons x = push_bit 8 x OR drop_bit 8 x"

text \<open>The text that \<open>sprintf\<close> leaves in its buffer; the formats used here fit their arguments.\<close>

definition cprintf :: "string \<Rightarrow> va_arg list \<Rightarrow> string" where
  "cprintf fmt args = (case sprintf fmt args of Some (t, n, _) \<Rightarrow> take n t | None \<Rightarrow> [])"

definition past_end :: "string \<Rightarrow> string" where
  "past_end e = (if e = [] then e else tl e)"

fun string_to_ip_loop :: "nat \<Rightarrow> u32 \<Rightarrow> string \<Rightarrow> u32" where
  "string_to_ip_loop 0 addr s = addr"
| "string_to_ip_loop (Suc i) addr s =
     (let (val, e) = simple_strtoul s 10
      in string_to_ip_loop i (push_bit 8 addr OR (val AND 0xFF)) (past_end e))"

definition string_to_ip :: "string option \<Rightarrow> u32" where
  "string_to_ip s = (case s of None \<Rightarrow> 0 | Some t \<Rightarrow> htonl (string_to_ip_loop 4 0 t))"

definition ip_to_string :: "u32 \<Rightarrow> string" where
  "ip_to_string x0 =
     (let x = htonl x0
      in cprintf ''%d.%d.%d.%d''
           [VInt (drop_bit 24 x AND 0xff), VInt (drop_bit 16 x AND 0xff), VInt (drop_bit 8 x AND 0xff), VInt (x AND 0xff)])"

definition VLAN_NONE :: u16 where "VLAN_NONE = 4095"
definition VLAN_IDMASK :: u16 where "VLAN_IDMASK = 0x0fff"

definition VLAN_to_string :: "u16 \<Rightarrow> string" where
  "VLAN_to_string x0 =
     (let x1 = htons x0; x = (if x1 = -1 then VLAN_NONE else x1)
      in if x = VLAN_NONE then ''none'' else cprintf ''%d'' [VInt (ucast (x AND VLAN_IDMASK))])"

definition string_to_VLAN :: "string option \<Rightarrow> u16" where
  "string_to_VLAN s =
     (case s of
        None \<Rightarrow> htons VLAN_NONE
      | Some t \<Rightarrow> htons (if \<not> is_digit (peek t) then VLAN_NONE else ucast (fst (simple_strtoul t 10))))"

text \<open>\<open>copy_filename\<close>: a quoted name is taken up to the closing quote, any name up to the size of the target.\<close>

definition copy_filename :: "string \<Rightarrow> int \<Rightarrow> string" where
  "copy_filename src0 size0 =
     (let (src, n) = (if peek src0 = CHR 0x22 then (tl src0, size0 - 1) else (src0, size0))
      in take (nat (n - 1)) (takeWhile (\<lambda>c. c \<noteq> CHR 0x22) src))"

fun parse_enetaddr_loop :: "nat \<Rightarrow> string \<Rightarrow> u8 list" where
  "parse_enetaddr_loop 0 addr = []"
| "parse_enetaddr_loop (Suc i) addr =
     (let (val, e) = simple_strtoul addr 16 in ucast val # parse_enetaddr_loop i (past_end e))"

definition eth_parse_enetaddr :: "string option \<Rightarrow> u8 list" where
  "eth_parse_enetaddr addr = (case addr of None \<Rightarrow> replicate 6 0 | Some s \<Rightarrow> parse_enetaddr_loop 6 s)"

definition is_zero_ether_addr :: "u8 list \<Rightarrow> bool" where
  "is_zero_ether_addr addr \<longleftrightarrow>
     addr ! 0 OR addr ! 1 OR addr ! 2 OR addr ! 3 OR addr ! 4 OR addr ! 5 = 0"

definition is_multicast_ether_addr :: "u8 list \<Rightarrow> bool" where
  "is_multicast_ether_addr addr \<longleftrightarrow> 0x01 AND addr ! 0 \<noteq> 0"

definition is_valid_ether_addr :: "u8 list \<Rightarrow> bool" where
  "is_valid_ether_addr addr \<longleftrightarrow> \<not> is_multicast_ether_addr addr \<and> \<not> is_zero_ether_addr addr"

section \<open>State\<close>

datatype net_loop_state = NETLOOP_CONTINUE | NETLOOP_RESTART | NETLOOP_SUCCESS | NETLOOP_FAIL

datatype timer_handler = Th_TftpTimeout | Th_startAgainTimeout

datatype udp_handler = dummy_handler | Udp_TftpHandler

datatype eth_state = ETH_STATE_INIT | ETH_STATE_PASSIVE | ETH_STATE_ACTIVE

record eth_device =
  dev_name :: string
  dev_index :: nat
  enetaddr :: "u8 list"
  dev_state :: eth_state

text \<open>
  The ring of devices is the list in the order of registration, and a device is its position in it. \<open>env\<close> and
  \<open>envid\<close> are the variables and the number of changes made to them; \<open>clock\<close> is what \<open>get_timer (0)\<close> returns;
  \<open>eth_inits\<close> counts the calls of a driver's \<open>init\<close>. \<open>first_failed\<close>, \<open>eth_act\<close>, \<open>eth_env_id\<close>,
  \<open>net_first_call\<close> and \<open>net_env_id\<close> are the static variables of \<open>eth_try_another\<close>, \<open>eth_set_current\<close>, \<open>net_init\<close> and
  \<open>NetInitLoop\<close>.
  \<open>udp_out\<close> are the datagrams given to \<open>NetSendUDPPacket\<close>: address, the two ports, payload.
\<close>

record net =
  env :: "string \<Rightarrow> string option"
  envid :: nat
  clock :: u32
  eth_devices :: "eth_device list"
  eth_next_index :: nat
  eth_current :: "nat option"
  first_failed :: "nat option"
  eth_act :: "string option"
  eth_env_id :: nat
  eth_inits :: nat
  eth_last_protocol_tftp :: bool
  net_state :: net_loop_state
  udp_packet_handler :: udp_handler
  timeHandler :: "timer_handler option"
  timeStart :: u32
  timeDelta :: u32
  NetTryCount :: u32
  NetRestarted :: bool
  NetRestartWrap :: bool
  NetDevExists :: bool
  net_first_call :: bool
  net_env_id :: nat
  NetOurIP :: u32
  NetOurGatewayIP :: u32
  NetOurSubnetMask :: u32
  NetServerIP :: u32
  NetOurNativeVLAN :: u16
  NetOurVLAN :: u16
  NetOurEther :: "u8 list"
  NetServerEther :: "u8 list"
  BootFile :: string
  NetBootFileXferSize :: u32
  net_load_addr :: u32
  ram :: "u32 \<Rightarrow> char"
  udp_out :: "(u32 \<times> u32 \<times> u32 \<times> char list) list"

text \<open>\<open>setenv\<close> on the variables: no value or an empty one removes the variable.\<close>

definition net_setenv :: "string \<Rightarrow> string option \<Rightarrow> 'a net_scheme \<Rightarrow> 'a net_scheme" where
  "net_setenv name val st =
     st\<lparr>env := (env st)(name := (if val = Some [] then None else val)), envid := envid st + 1\<rparr>"

definition getenv_IPaddr :: "string \<Rightarrow> 'a net_scheme \<Rightarrow> u32" where
  "getenv_IPaddr var st = string_to_ip (env st var)"

definition getenv_VLAN :: "string \<Rightarrow> 'a net_scheme \<Rightarrow> u16" where
  "getenv_VLAN var st = string_to_VLAN (env st var)"

definition net_set_state :: "net_loop_state \<Rightarrow> 'a net_scheme \<Rightarrow> 'a net_scheme" where
  "net_set_state s st = st\<lparr>net_state := s\<rparr>"

definition net_set_udp_handler :: "udp_handler option \<Rightarrow> 'a net_scheme \<Rightarrow> 'a net_scheme" where
  "net_set_udp_handler f st = st\<lparr>udp_packet_handler := (case f of None \<Rightarrow> dummy_handler | Some h \<Rightarrow> h)\<rparr>"

definition NetSetTimeout :: "u32 \<Rightarrow> timer_handler option \<Rightarrow> 'a net_scheme \<Rightarrow> 'a net_scheme" where
  "NetSetTimeout iv f st =
     (if iv = 0 then st\<lparr>timeHandler := None\<rparr>
      else st\<lparr>timeHandler := f, timeStart := clock st, timeDelta := iv\<rparr>)"

definition net_clear_handlers :: "'a net_scheme \<Rightarrow> 'a net_scheme" where
  "net_clear_handlers st = NetSetTimeout 0 None (net_set_udp_handler None st)"

section \<open>Ethernet devices\<close>

definition next_dev :: "'a net_scheme \<Rightarrow> nat \<Rightarrow> nat" where
  "next_dev st i = (i + 1) mod length (eth_devices st)"

definition cur_name :: "'a net_scheme \<Rightarrow> nat \<Rightarrow> string" where
  "cur_name st i = dev_name (eth_devices st ! i)"

definition eth_var :: "string \<Rightarrow> nat \<Rightarrow> string" where
  "eth_var base_name index =
     (if index \<noteq> 0 then cprintf ''%s%daddr'' [VStr (Some base_name), VInt (of_nat index)]
      else cprintf ''%saddr'' [VStr (Some base_name)])"

definition eth_getenv_enetaddr :: "string \<Rightarrow> 'a net_scheme \<Rightarrow> bool \<times> u8 list" where
  "eth_getenv_enetaddr name st = (let a = eth_parse_enetaddr (env st name) in (is_valid_ether_addr a, a))"

definition eth_getenv_enetaddr_by_index :: "string \<Rightarrow> nat \<Rightarrow> 'a net_scheme \<Rightarrow> bool \<times> u8 list" where
  "eth_getenv_enetaddr_by_index base_name index st = eth_getenv_enetaddr (eth_var base_name index) st"

definition eth_get_dev_by_name :: "string \<Rightarrow> 'a net_scheme \<Rightarrow> nat option" where
  "eth_get_dev_by_name devname st =
     List.find (\<lambda>i. dev_name (eth_devices st ! i) = devname) [0..<length (eth_devices st)]"

definition eth_get_dev_by_index :: "nat \<Rightarrow> 'a net_scheme \<Rightarrow> nat option" where
  "eth_get_dev_by_index index st =
     List.find (\<lambda>i. dev_index (eth_devices st ! i) = index) [0..<length (eth_devices st)]"

definition eth_get_dev_index :: "'a net_scheme \<Rightarrow> int" where
  "eth_get_dev_index st = (case eth_current st of None \<Rightarrow> -1 | Some i \<Rightarrow> int (dev_index (eth_devices st ! i)))"

definition eth_current_changed :: "'a net_scheme \<Rightarrow> 'a net_scheme" where
  "eth_current_changed st =
     (let act = env st ''ethact'' in
      case eth_current st of
        Some i \<Rightarrow> if act = None \<or> act \<noteq> Some (cur_name st i) then net_setenv ''ethact'' (Some (cur_name st i)) st else st
      | None \<Rightarrow> if act \<noteq> None then net_setenv ''ethact'' None st else st)"

definition eth_register :: "eth_device \<Rightarrow> 'a net_scheme \<Rightarrow> 'a net_scheme" where
  "eth_register dev st =
     (let dev' = dev\<lparr>dev_state := ETH_STATE_INIT, dev_index := eth_next_index st\<rparr>;
          st1 = st\<lparr>eth_devices := eth_devices st @ [dev'], eth_next_index := eth_next_index st + 1\<rparr>
      in if eth_devices st = [] then eth_current_changed (st1\<lparr>eth_current := Some 0\<rparr>) else st1)"

definition eth_try_another :: "bool \<Rightarrow> 'a net_scheme \<Rightarrow> 'a net_scheme" where
  "eth_try_another first_restart st =
     (if env st ''ethrotate'' = Some ''no'' then st
      else case eth_current st of
        None \<Rightarrow> st
      | Some i \<Rightarrow>
          let st1 = (if first_restart then st\<lparr>first_failed := Some i\<rparr> else st);
              st2 = eth_current_changed (st1\<lparr>eth_current := Some (next_dev st1 i)\<rparr>)
          in if first_failed st2 = eth_current st2 then st2\<lparr>NetRestartWrap := True\<rparr> else st2)"

text \<open>\<open>eth_set_current\<close>: the search for the device named by \<open>ethact\<close> goes once round the ring.\<close>

fun set_current_loop :: "nat \<Rightarrow> nat \<Rightarrow> string \<Rightarrow> nat \<Rightarrow> 'a net_scheme \<Rightarrow> bool \<times> nat" where
  "set_current_loop 0 old act cur st = (False, cur)"
| "set_current_loop (Suc n) old act cur st =
     (if cur_name st cur = act then (True, cur)
      else let cur' = next_dev st cur in if cur' = old then (False, cur') else set_current_loop n old act cur' st)"

definition eth_set_current :: "'a net_scheme \<Rightarrow> 'a net_scheme" where
  "eth_set_current st0 =
     (case eth_current st0 of
        None \<Rightarrow> st0
      | Some old \<Rightarrow>
          let st = (if eth_act st0 = None \<or> eth_env_id st0 \<noteq> envid st0
                    then st0\<lparr>eth_act := env st0 ''ethact'', eth_env_id := envid st0\<rparr> else st0)
          in case eth_act st of
               None \<Rightarrow> eth_current_changed st
             | Some act \<Rightarrow>
                 let (found, cur) = set_current_loop (length (eth_devices st)) old act old st;
                     st' = st\<lparr>eth_current := Some cur\<rparr>
                 in if found then st' else eth_current_changed st')"

text \<open>The addresses in the environment are given to the devices, then the first device that comes up is taken.
  \<open>up d n\<close> says whether the \<open>n\<close>-th call of a driver's \<open>init\<close>, made for device \<open>d\<close>, succeeds.\<close>

definition sync_enetaddr :: "'a net_scheme \<Rightarrow> eth_device \<Rightarrow> eth_device" where
  "sync_enetaddr st dev =
     (case eth_getenv_enetaddr_by_index ''eth'' (dev_index dev) st of
        (ok, a) \<Rightarrow> if ok then dev\<lparr>enetaddr := a\<rparr> else dev)"

definition set_dev_state :: "nat \<Rightarrow> eth_state \<Rightarrow> 'a net_scheme \<Rightarrow> 'a net_scheme" where
  "set_dev_state i s st = st\<lparr>eth_devices := (eth_devices st)[i := (eth_devices st ! i)\<lparr>dev_state := s\<rparr>]\<rparr>"

fun eth_init_loop :: "(nat \<Rightarrow> nat \<Rightarrow> bool) \<Rightarrow> nat \<Rightarrow> nat \<Rightarrow> 'a net_scheme \<Rightarrow> int \<times> 'a net_scheme" where
  "eth_init_loop up 0 old st = (-1, st)"
| "eth_init_loop up (Suc n) old st =
     (case eth_current st of
        None \<Rightarrow> (-1, st)
      | Some i \<Rightarrow>
          let st1 = st\<lparr>eth_inits := eth_inits st + 1\<rparr> in
          if up i (eth_inits st) then (0, set_dev_state i ETH_STATE_ACTIVE st1)
          else let st2 = eth_try_another False st1
               in if eth_current st2 = Some old then (-1, st2) else eth_init_loop up n old st2)"

definition eth_init :: "(nat \<Rightarrow> nat \<Rightarrow> bool) \<Rightarrow> 'a net_scheme \<Rightarrow> int \<times> 'a net_scheme" where
  "eth_init up st =
     (case eth_current st of
        None \<Rightarrow> (-1, st)
      | Some old \<Rightarrow>
          let st1 = st\<lparr>eth_devices := List.map (sync_enetaddr st) (eth_devices st)\<rparr>
          in eth_init_loop up (length (eth_devices st)) old st1)"

definition eth_halt :: "'a net_scheme \<Rightarrow> 'a net_scheme" where
  "eth_halt st = (case eth_current st of None \<Rightarrow> st | Some i \<Rightarrow> set_dev_state i ETH_STATE_PASSIVE st)"

section \<open>Starting over\<close>

definition startAgainTimeout :: "'a net_scheme \<Rightarrow> 'a net_scheme" where
  "startAgainTimeout st = net_set_state NETLOOP_RESTART st"

definition retry_policy :: "string option \<Rightarrow> bool \<times> u32" where
  "retry_policy nretry =
     (case nretry of
        None \<Rightarrow> (True, 0)
      | Some s \<Rightarrow> if s = ''yes'' then (True, 0) else if s = ''no'' then (False, 0)
                 else if s = ''once'' then (False, 1) else (False, fst (simple_strtoul s 0)))"

definition NetStartAgain :: "(nat \<Rightarrow> nat \<Rightarrow> bool) \<Rightarrow> 'a net_scheme \<Rightarrow> 'a net_scheme" where
  "NetStartAgain up st =
     (let (retry_forever, retrycnt) = retry_policy (env st ''netretry'') in
      if \<not> retry_forever \<and> retrycnt \<le> NetTryCount st then net_set_state NETLOOP_FAIL (eth_halt st)
      else let st1 = eth_halt (st\<lparr>NetTryCount := NetTryCount st + 1\<rparr>);
               st2 = eth_try_another (\<not> NetRestarted st1) st1;
               st3 = snd (eth_init up st2)
           in if NetRestartWrap st3
              then let st4 = st3\<lparr>NetRestartWrap := False\<rparr>
                   in if NetDevExists st4
                      then net_set_udp_handler None (NetSetTimeout 10000 (Some Th_startAgainTimeout) st4)
                      else net_set_state NETLOOP_FAIL st4
              else net_set_state NETLOOP_RESTART st3)"

text \<open>The addresses are read again when the environment has changed. The address of the current device is read even
  when there is no device; that read of a null pointer is \<open>None\<close>.\<close>

definition net_read_env :: "'a net_scheme \<Rightarrow> 'a net_scheme" where
  "net_read_env st =
     (if net_env_id st \<noteq> envid st
      then st\<lparr>NetOurIP := getenv_IPaddr ''ipaddr'' st, NetOurGatewayIP := getenv_IPaddr ''gatewayip'' st,
              NetOurSubnetMask := getenv_IPaddr ''netmask'' st, NetServerIP := getenv_IPaddr ''serverip'' st,
              NetOurNativeVLAN := getenv_VLAN ''nvlan'' st, NetOurVLAN := getenv_VLAN ''vlan'' st, net_env_id := envid st\<rparr>
      else st)"

definition NetInitLoop :: "'a net_scheme \<Rightarrow> 'a net_scheme option" where
  "NetInitLoop st =
     (case eth_current st of
        Some i \<Rightarrow> Some ((net_read_env st)\<lparr>NetOurEther := enetaddr (eth_devices st ! i)\<rparr>)
      | None \<Rightarrow> None)"

definition net_init :: "'a net_scheme \<Rightarrow> 'a net_scheme option" where
  "net_init st =
     NetInitLoop (if net_first_call st then (net_clear_handlers st)\<lparr>net_first_call := False\<rparr> else st)"

section \<open>Decimal numbers in text\<close>

text \<open>A decimal number is read up to the first character that is no digit.\<close>

lemma strtoul_dec:
  assumes "rest = [] \<or> \<not> isxdigit (hd rest) \<and> hd rest \<noteq> CHR ''x''"
  shows "simple_strtoul (dec n @ rest) 10 = (of_nat n, rest)"
proof -
  have stop: "strtoul_loop 10 rest r = (r, rest)" for r :: u32
    using assms by (cases rest) auto
  have loop: "strtoul_loop 10 (dec n @ rest) 0 = (of_nat n :: u32, rest)"
    unfolding dec_def strtoul_loop_rdigits [OF reads_dig] by (rule stop)
  show ?thesis
  proof (cases "n = 0")
    case True
    have d0: "dec 0 = ''0''" by code_simp
    have "peek rest \<noteq> CHR ''x''" using assms by (cases rest) (auto simp: peek_def)
    then show ?thesis using True stop by (simp add: simple_strtoul_def strtoul_base_def d0 peek_def Let_def)
  next
    case False
    have "peek (dec n @ rest) = last (rdec n)"
      using rdigits_not_Nil [of dig 10 n] by (cases "rdec n" rule: rev_cases) (auto simp: dec_def peek_def)
    then have "peek (dec n @ rest) \<noteq> CHR ''0''" using last_rdigits [OF reads_dig, of n] False by auto
    then show ?thesis using loop by (simp add: simple_strtoul_def strtoul_base_def)
  qed
qed

lemma rdec_dig: "c \<in> set (rdec n) \<Longrightarrow> \<exists>d<10. c = dig d"
proof (induction n rule: less_induct)
  case (less n)
  show ?case
  proof (cases "n < 10")
    case True
    then show ?thesis using less.prems by (auto simp: rdigits.simps [of dig 10 n])
  next
    case False
    then have "c = dig (n mod 10) \<or> c \<in> set (rdec (n div 10))"
      using less.prems by (auto simp: rdigits.simps [of dig 10 n])
    then show ?thesis using less.IH [of "n div 10"] False by (elim disjE) (auto intro!: exI [of _ "n mod 10"])
  qed
qed

lemma dec_isdigit: "c \<in> set (dec n) \<Longrightarrow> is_digit c"
proof -
  have "list_all (\<lambda>d. is_digit (dig d)) [0..<10]" by code_simp
  then show "c \<in> set (dec n) \<Longrightarrow> is_digit c" using rdec_dig by (fastforce simp: dec_def list_all_iff)
qed

text \<open>The conversion \<open>%d\<close> of a number that is not negative writes its decimal digits.\<close>

lemma sint_small:
  fixes w :: "'a::len word"
  assumes "unat w < 2 ^ (LENGTH('a) - 1)"
  shows "sint w = uint w"
proof -
  have "int (unat w) < int (2 ^ (LENGTH('a) - 1))" using assms by (rule of_nat_less_iff [THEN iffD2])
  then have "uint w < 2 ^ (LENGTH('a) - 1)" by simp
  moreover have "- (2 ^ (LENGTH('a) - 1)) \<le> uint w" by (rule order_trans [of _ 0]) simp_all
  ultimately show ?thesis unfolding sint_uint by (simp add: signed_take_bit_int_eq_self)
qed

lemma number_d:
  assumes "unat num < 2 ^ 63"
  shows "number num 10 (-1) (-1) SIGN = dec (unat num)"
proof -
  have "sint num = uint num" using assms by (intro sint_small) simp
  then have "\<not> sint num < 0" by simp
  moreover have "rdec 0 = ''0''" by code_simp
  ultimately show ?thesis
    by (simp add: number_def Let_def sign_text_def prefix_text_def pad_loop_def SIGN_def SPECIAL_def LEFT_def ZEROPAD_def
        PLUS_def SPACE_def number_digits_def put_dec_rdec dec_def)
qed

lemma directive_d:
  assumes "unat w < 2 ^ 31"
  shows "directive (CHR ''d'' # rest) (VInt w # args) = Some (dec (unat w), False, rest, args)"
proof -
  have "sint w = uint w" using assms by (intro sint_small) simp
  then have "(scast w :: u64) = ucast w" by (simp only: scast_eq ucast_eq)
  moreover have "unat (ucast w :: u64) = unat w"
    using unsigned_less [of w, where 'a = nat] by (simp add: unsigned_ucast_eq take_bit_nat_eq_self)
  ultimately show ?thesis using number_d [of "ucast w"] assms
    by (simp add: directive_def flag_of_def fmt_width_def fmt_precision_def fmt_qualifier_def convert_def fmt_base_def
        fmt_number_def peek_def is_digit_def Let_def SIGN_def)
qed

section \<open>Addresses as text\<close>

lemma cprintf_eq: "vsnprintf_internal fmt args [] [] = Some (t, ns) \<Longrightarrow> cprintf fmt args = t"
  by (simp add: cprintf_def sprintf_def vsprintf_def)

lemma ip_text:
  assumes "unat a < 256" and "unat b < 256" and "unat c < 256" and "unat d < 256"
  shows "cprintf ''%d.%d.%d.%d'' [VInt a, VInt b, VInt c, VInt d] =
    dec (unat a) @ ''.'' @ dec (unat b) @ ''.'' @ dec (unat c) @ ''.'' @ dec (unat d)"
  by (rule cprintf_eq) (use assms in \<open>simp add: directive_d\<close>)

lemma not_xdigit_dot [simp]: "\<not> isxdigit (CHR ''.'')"
  by code_simp

lemma ip_value:
  "string_to_ip_loop 4 0 (dec a @ ''.'' @ dec b @ ''.'' @ dec c @ ''.'' @ dec d) =
     push_bit 8 (push_bit 8 (push_bit 8 (of_nat a AND 0xFF) OR (of_nat b AND 0xFF)) OR (of_nat c AND 0xFF)) OR (of_nat d AND 0xFF)"
proof -
  have four: "(4 :: nat) = Suc (Suc (Suc (Suc 0)))" by simp
  show ?thesis unfolding four string_to_ip_loop.simps
    by (simp add: strtoul_dec past_end_def strtoul_dec [where rest = "[]", simplified] del: push_bit_of_0)
qed

lemma byte_masks:
  "x AND 0xff = take_bit 8 x" "x AND 0xff00 = push_bit 8 (take_bit 8 (drop_bit 8 x))" for x :: u32
proof -
  have m: "(0xff :: u32) = mask 8" "(0xff00 :: u32) = push_bit 8 (mask 8)" by (simp_all add: mask_eq_exp_minus_1)
  show "x AND 0xff = take_bit 8 x" unfolding m by (rule take_bit_eq_mask [symmetric])
  show "x AND 0xff00 = push_bit 8 (take_bit 8 (drop_bit 8 x))"
    unfolding m by (rule bit_word_eqI) (auto simp: bit_simps)
qed

lemma bit_htonl: "bit (htonl x) n \<longleftrightarrow> n < 32 \<and> bit x (if n < 8 then n + 24 else if n < 16 then n + 8 else if n < 24 then n - 8 else n - 24)"
  unfolding htonl_def byte_masks by (auto simp: bit_simps add.commute dest: bit_imp_le_length)

lemma htonl_htonl [simp]: "htonl (htonl x) = x"
  by (rule bit_word_eqI) (auto simp: bit_htonl)

lemma htonl_bytes:
  "htonl (push_bit 8 (push_bit 8 (push_bit 8 (drop_bit 24 x AND 0xFF) OR (drop_bit 16 x AND 0xFF)) OR (drop_bit 8 x AND 0xFF)) OR (x AND 0xFF)) = htonl x"
  unfolding byte_masks
proof (rule arg_cong [of _ _ htonl], rule bit_word_eqI)
  fix n
  assume "n < LENGTH(32)"
  then show "bit (push_bit 8 (push_bit 8 (push_bit 8 (take_bit 8 (drop_bit 24 x)) OR take_bit 8 (drop_bit 16 x)) OR
      take_bit 8 (drop_bit 8 x)) OR take_bit 8 x) n = bit x n"
    by (cases "n < 16"; cases "n < 24") (auto simp: bit_simps)
qed

lemma ip_roundtrip: "string_to_ip (Some (ip_to_string x)) = x"
proof -
  have "unat (w AND 0xff) < 256" for w :: u32
    unfolding byte_masks by (simp add: unsigned_take_bit_eq take_bit_nat_less_exp [of 8, simplified])
  then show ?thesis
    unfolding string_to_ip_def ip_to_string_def Let_def option.case
    by (subst ip_text) (simp_all only: ip_value of_nat_unat ucast_id and.assoc and.idem htonl_bytes htonl_htonl)
qed

end
