(* ===== verification/Tftp.thy ===== *)
theory Tftp
  imports Net
begin

text \<open>
  The TFTP client (\<^verbatim>\<open>net/tftp.c\<close>): the request, the negotiated block size, the data blocks with their 16-bit numbers
  and the wrap-around of these, the acknowledgements, errors and time-outs. The multicast, upload, server and
  size-option variants are configured out. A received datagram is the contents of the receive buffer from the UDP payload
  on; a read past the end of that buffer is \<open>None\<close>. Console output is not modelled.
\<close>

section \<open>State\<close>

datatype tftp_state = STATE_SEND_RRQ | STATE_DATA | STATE_TOO_LARGE | STATE_BAD_MAGIC | STATE_OACK
  | STATE_RECV_WRQ | STATE_SEND_WRQ

record tftp = net +
  TftpTimeoutMSecs :: u32
  TftpTimeoutCountMax :: int
  TftpRRQTimeoutCountMax :: int
  isTftpComplete :: bool
  isTftpAutoBoot :: bool
  TftpRemoteIP :: u32
  TftpRemotePort :: u32
  TftpOurPort :: u32
  TftpTimeoutCount :: int
  TftpBlock :: u32
  TftpLastBlock :: u32
  TftpBlockWrap :: u32
  TftpBlockWrapOffset :: u32
  TftpState :: tftp_state
  tftp_filename :: string
  TftpBlkSize :: u16
  TftpBlkSizeOption :: u16

definition WELL_KNOWN_PORT :: u32 where "WELL_KNOWN_PORT = 69"
definition TIMEOUT_COUNT :: int where "TIMEOUT_COUNT = 10"
definition TFTP_BLOCK_SIZE :: u16 where "TFTP_BLOCK_SIZE = 512"
definition TFTP_SEQUENCE_SIZE :: u32 where "TFTP_SEQUENCE_SIZE = 0x10000"
definition MAX_LEN :: nat where "MAX_LEN = 128"

definition TFTP_RRQ :: u16 where "TFTP_RRQ = 1"
definition TFTP_DATA :: u16 where "TFTP_DATA = 3"
definition TFTP_ACK :: u16 where "TFTP_ACK = 4"
definition TFTP_ERROR :: u16 where "TFTP_ERROR = 5"
definition TFTP_OACK :: u16 where "TFTP_OACK = 6"

text \<open>A 16-bit number in network byte order.\<close>

definition be16 :: "u16 \<Rightarrow> char list" where
  "be16 x = [char_byte (ucast (drop_bit 8 x)), char_byte (ucast x)]"

definition get16 :: "mem \<Rightarrow> nat \<Rightarrow> u16 option" where
  "get16 m a = do { h \<leftarrow> rd m a; l \<leftarrow> rd m (a + 1); Some (push_bit 8 (ucast (byte_of h)) OR ucast (byte_of l)) }"

section \<open>Blocks\<close>

definition store_bytes :: "u32 \<Rightarrow> char list \<Rightarrow> (u32 \<Rightarrow> char) \<Rightarrow> u32 \<Rightarrow> char" where
  "store_bytes a bs m = (\<lambda>x. if unat (x - a) < length bs then bs ! unat (x - a) else m x)"

definition store_block :: "u32 \<Rightarrow> char list \<Rightarrow> tftp \<Rightarrow> tftp" where
  "store_block block src st =
     (let offset = block * ucast (TftpBlkSize st) + TftpBlockWrapOffset st;
          newsize = offset + of_nat (length src);
          st1 = st\<lparr>ram := store_bytes (net_load_addr st + offset) src (ram st)\<rparr>
      in if NetBootFileXferSize st1 < newsize then st1\<lparr>NetBootFileXferSize := newsize\<rparr> else st1)"

definition new_transfer :: "tftp \<Rightarrow> tftp" where
  "new_transfer st = st\<lparr>TftpLastBlock := 0, TftpBlockWrap := 0, TftpBlockWrapOffset := 0\<rparr>"

definition update_block_number :: "tftp \<Rightarrow> tftp" where
  "update_block_number st =
     (if TftpBlock st = 0
      then st\<lparr>TftpBlockWrap := TftpBlockWrap st + 1,
              TftpBlockWrapOffset := TftpBlockWrapOffset st + ucast (TftpBlkSize st) * TFTP_SEQUENCE_SIZE,
              TftpTimeoutCount := 0\<rparr>
      else st)"

definition tftp_complete :: "tftp \<Rightarrow> tftp" where
  "tftp_complete st = (net_set_state NETLOOP_SUCCESS st)\<lparr>isTftpComplete := True\<rparr>"

section \<open>Sending\<close>

definition tftp_payload :: "tftp \<Rightarrow> char list" where
  "tftp_payload st =
     (case TftpState st of
        STATE_TOO_LARGE \<Rightarrow> be16 TFTP_ERROR @ be16 3 @ ''File too large'' @ [NUL]
      | STATE_BAD_MAGIC \<Rightarrow> be16 TFTP_ERROR @ be16 2 @ ''File has bad magic'' @ [NUL]
      | STATE_OACK \<Rightarrow> be16 TFTP_ACK @ be16 (ucast (TftpBlock st))
      | STATE_RECV_WRQ \<Rightarrow> be16 TFTP_ACK @ be16 (ucast (TftpBlock st))
      | STATE_DATA \<Rightarrow> be16 TFTP_ACK @ be16 (ucast (TftpBlock st))
      | _ \<Rightarrow> be16 TFTP_RRQ @ tftp_filename st @ [NUL] @ ''octet'' @ [NUL] @ ''timeout'' @ [NUL] @
             cprintf ''%lu'' [VInt (TftpTimeoutMSecs st div 1000)] @ [NUL] @
             cprintf ''blksize%c%d%c'' [VInt 0, VInt (ucast (TftpBlkSizeOption st)), VInt 0])"

definition TftpSend :: "tftp \<Rightarrow> tftp" where
  "TftpSend st =
     st\<lparr>udp_out := udp_out st @ [(TftpRemoteIP st, TftpRemotePort st, TftpOurPort st, tftp_payload st)]\<rparr>"

definition restart :: "(nat \<Rightarrow> nat \<Rightarrow> bool) \<Rightarrow> tftp \<Rightarrow> tftp" where
  "restart up st = NetStartAgain up st"

section \<open>Receiving\<close>

text \<open>Comparison of the buffer with a literal, up to the first difference.\<close>

fun strcmp_lit :: "mem \<Rightarrow> nat \<Rightarrow> string \<Rightarrow> bool option" where
  "strcmp_lit m a [] = do { c \<leftarrow> rd m a; Some (c = NUL) }"
| "strcmp_lit m a (x # xs) = do { c \<leftarrow> rd m a; if c = x then strcmp_lit m (a + 1) xs else Some False }"

text \<open>The search of an option acknowledgement for the block size: \<open>n\<close> positions are left.\<close>

fun oack_loop :: "mem \<Rightarrow> nat \<Rightarrow> nat \<Rightarrow> u16 \<Rightarrow> u16 option" where
  "oack_loop m i 0 blksize = Some blksize"
| "oack_loop m i (Suc n) blksize =
     do { eq \<leftarrow> strcmp_lit m (2 + i) ''blksize'';
          oack_loop m (i + 1) n (if eq then ucast (fst (simple_strtoul (drop (2 + i + 8) m) 10)) else blksize) }"

definition handle_oack :: "mem \<Rightarrow> u32 \<Rightarrow> u32 \<Rightarrow> tftp \<Rightarrow> tftp option" where
  "handle_oack pkt src len st =
     do { let st1 = st\<lparr>TftpState := STATE_OACK, TftpRemotePort := src\<rparr>;
          b \<leftarrow> oack_loop pkt 0 (unat len - 8) (TftpBlkSize st1);
          Some (TftpSend (st1\<lparr>TftpBlkSize := b\<rparr>)) }"

text \<open>The first data block fixes the peer; it has to be block 1.\<close>

definition first_block :: "u32 \<Rightarrow> u32 \<Rightarrow> tftp \<Rightarrow> tftp" where
  "first_block sip src st =
     (let st1 = st\<lparr>TftpState := STATE_DATA, TftpRemotePort := src\<rparr>
      in new_transfer (if TftpRemoteIP st1 = 0 then st1\<lparr>TftpRemoteIP := sip\<rparr> else st1))"

definition awaits_first :: "tftp \<Rightarrow> bool" where
  "awaits_first st \<longleftrightarrow> TftpState st \<in> {STATE_SEND_RRQ, STATE_OACK, STATE_RECV_WRQ}"

definition accept_block :: "mem \<Rightarrow> u32 \<Rightarrow> tftp \<Rightarrow> tftp option" where
  "accept_block pkt len st =
     (if TftpBlock st = TftpLastBlock st then Some st
      else if length pkt < 4 + unat len then None
      else let st1 = NetSetTimeout (TftpTimeoutMSecs st) (Some Th_TftpTimeout)
                       (st\<lparr>TftpLastBlock := TftpBlock st, TftpTimeoutCountMax := TIMEOUT_COUNT\<rparr>);
               st2 = TftpSend (store_block (TftpBlock st1 - 1) (take (unat len) (drop 4 pkt)) st1)
           in Some (if len < ucast (TftpBlkSize st2) then tftp_complete st2 else st2))"

definition handle_data :: "(nat \<Rightarrow> nat \<Rightarrow> bool) \<Rightarrow> mem \<Rightarrow> u32 \<Rightarrow> u32 \<Rightarrow> u32 \<Rightarrow> tftp \<Rightarrow> tftp option" where
  "handle_data up pkt sip src len0 st =
     (if len0 < 2 then Some st
      else do { b \<leftarrow> get16 pkt 2;
                let st1 = update_block_number (st\<lparr>TftpBlock := ucast b\<rparr>);
                let st2 = (if awaits_first st1 then first_block sip src st1 else st1);
                if awaits_first st1 \<and> TftpBlock st2 \<noteq> 1 then Some (NetStartAgain up st2)
                else accept_block pkt (len0 - 2) st2 })"

definition handle_error :: "(nat \<Rightarrow> nat \<Rightarrow> bool) \<Rightarrow> mem \<Rightarrow> tftp \<Rightarrow> tftp option" where
  "handle_error up pkt st =
     do { code \<leftarrow> get16 pkt 2;
          Some (if code = 1 \<or> code = 2 then net_set_state NETLOOP_FAIL (eth_halt st) else NetStartAgain up st) }"

definition TftpHandler ::
  "(nat \<Rightarrow> nat \<Rightarrow> bool) \<Rightarrow> mem \<Rightarrow> u32 \<Rightarrow> u32 \<Rightarrow> u32 \<Rightarrow> u32 \<Rightarrow> tftp \<Rightarrow> tftp option" where
  "TftpHandler up pkt dest sip src len st =
     (if dest \<noteq> TftpOurPort st then Some st
      else if TftpState st \<noteq> STATE_SEND_RRQ \<and> src \<noteq> TftpRemotePort st \<and>
              TftpState st \<noteq> STATE_RECV_WRQ \<and> TftpState st \<noteq> STATE_SEND_WRQ then Some st
      else if len < 2 then Some st
      else do { proto \<leftarrow> get16 pkt 0;
                if proto = TFTP_OACK then handle_oack pkt src (len - 2) st
                else if proto = TFTP_DATA then handle_data up pkt sip src (len - 2) st
                else if proto = TFTP_ERROR then handle_error up pkt st
                else Some st })"

section \<open>Time-outs and start\<close>

definition TftpTimeout :: "(nat \<Rightarrow> nat \<Rightarrow> bool) \<Rightarrow> tftp \<Rightarrow> tftp" where
  "TftpTimeout up st0 =
     (let st = st0\<lparr>TftpTimeoutCount := TftpTimeoutCount st0 + 1\<rparr> in
      if TftpTimeoutCountMax st < TftpTimeoutCount st
      then if isTftpAutoBoot st then net_set_state NETLOOP_FAIL st else restart up st
      else let st1 = NetSetTimeout (TftpTimeoutMSecs st) (Some Th_TftpTimeout) st
           in if TftpState st1 \<noteq> STATE_RECV_WRQ then TftpSend st1 else st1)"

definition default_filename :: "u32 \<Rightarrow> string" where
  "default_filename ip =
     cprintf ''%02X%02X%02X%02X.img''
       [VInt (ip AND 0xFF), VInt (drop_bit 8 ip AND 0xFF), VInt (drop_bit 16 ip AND 0xFF), VInt (drop_bit 24 ip AND 0xFF)]"

text \<open>The name and the server: a boot file \<open>ip:name\<close> names both.\<close>

definition set_filename :: "tftp \<Rightarrow> tftp" where
  "set_filename st0 =
     (let st = st0\<lparr>TftpRemoteIP := NetServerIP st0\<rparr> in
      if BootFile st = [] then st\<lparr>tftp_filename := take (MAX_LEN - 1) (default_filename (NetOurIP st))\<rparr>
      else case dropWhile (\<lambda>c. c \<noteq> CHR '':'') (BootFile st) of
             [] \<Rightarrow> st\<lparr>tftp_filename := take (MAX_LEN - 1) (BootFile st)\<rparr>
           | _ # p \<Rightarrow> st\<lparr>TftpRemoteIP := string_to_ip (Some (BootFile st)), tftp_filename := take (MAX_LEN - 1) p\<rparr>)"

definition set_options :: "tftp \<Rightarrow> tftp" where
  "set_options st =
     (let st1 = (case env st ''tftpblocksize'' of
                   None \<Rightarrow> st | Some ep \<Rightarrow> st\<lparr>TftpBlkSizeOption := ucast (fst (simple_strtol ep 10))\<rparr>);
          st2 = (case env st1 ''tftptimeout'' of
                   None \<Rightarrow> st1 | Some ep \<Rightarrow> st1\<lparr>TftpTimeoutMSecs := fst (simple_strtol ep 10)\<rparr>)
      in if TftpTimeoutMSecs st2 < 1000 then st2\<lparr>TftpTimeoutMSecs := 1000\<rparr> else st2)"

definition TftpStart :: "tftp \<Rightarrow> tftp" where
  "TftpStart st0 =
     (let st1 = set_filename (set_options (st0\<lparr>isTftpComplete := False\<rparr>));
          st2 = st1\<lparr>TftpState := STATE_SEND_RRQ, TftpTimeoutCountMax := TftpRRQTimeoutCountMax st1\<rparr>;
          st3 = net_set_udp_handler (Some Udp_TftpHandler)
                  (NetSetTimeout (TftpTimeoutMSecs st2) (Some Th_TftpTimeout) st2);
          st4 = st3\<lparr>TftpRemotePort := WELL_KNOWN_PORT, TftpTimeoutCount := 0,
                    TftpOurPort := 1024 + clock st3 mod 3072, TftpBlock := 0,
                    NetServerEther := replicate 6 0, TftpBlkSize := TFTP_BLOCK_SIZE\<rparr>
      in TftpSend st4)"

section \<open>What the start of a transfer sets\<close>

lemma set_options_fields [simp]:
  "net_state (set_options st) = net_state st" "NetBootFileXferSize (set_options st) = NetBootFileXferSize st"
  "net_load_addr (set_options st) = net_load_addr st" "ram (set_options st) = ram st"
  "TftpRRQTimeoutCountMax (set_options st) = TftpRRQTimeoutCountMax st" "clock (set_options st) = clock st"
  by (simp_all add: set_options_def Let_def split: option.split)

lemma set_filename_fields [simp]:
  "net_state (set_filename st) = net_state st" "NetBootFileXferSize (set_filename st) = NetBootFileXferSize st"
  "net_load_addr (set_filename st) = net_load_addr st" "ram (set_filename st) = ram st"
  "TftpRRQTimeoutCountMax (set_filename st) = TftpRRQTimeoutCountMax st" "clock (set_filename st) = clock st"
  "TftpTimeoutMSecs (set_filename st) = TftpTimeoutMSecs st"
  by (simp_all add: set_filename_def Let_def split: list.split)

lemma TftpStart_fields:
  "net_state (TftpStart st) = net_state st" "NetBootFileXferSize (TftpStart st) = NetBootFileXferSize st"
  "net_load_addr (TftpStart st) = net_load_addr st" "ram (TftpStart st) = ram st"
  "TftpState (TftpStart st) = STATE_SEND_RRQ" "TftpBlkSize (TftpStart st) = TFTP_BLOCK_SIZE" "TftpBlock (TftpStart st) = 0"
  "TftpTimeoutCount (TftpStart st) = 0" "TftpTimeoutCountMax (TftpStart st) = TftpRRQTimeoutCountMax st"
  "TftpOurPort (TftpStart st) = 1024 + clock st mod 3072"
  "udp_packet_handler (TftpStart st) = Udp_TftpHandler" "timeHandler (TftpStart st) \<noteq> Some Th_startAgainTimeout"
  by (simp_all add: TftpStart_def Let_def TftpSend_def NetSetTimeout_def net_set_udp_handler_def)

end
