(* ===== verification/Netloop.thy ===== *)
theory Netloop
  imports Tftp
begin

text \<open>
  The main loop of the network code (\<open>NetLoop\<close> in \<^verbatim>\<open>net/net.c\<close>) for a TFTP download: the start of the protocol, the
  reception of packets, the time-out handler, the restart of a transfer, and the end of the loop in success or failure. What
  happens outside is the input of an iteration: the datagrams that the driver hands over, the clock, and whether control-C is
  pressed. Address resolution is not modelled.
\<close>

section \<open>One iteration\<close>

type_synonym datagram = "mem \<times> u32 \<times> u32 \<times> u32 \<times> u32"

record loop_in =
  in_rx :: "datagram list"
  in_clock :: u32
  in_ctrlc :: bool

fun udp_deliver :: "(nat \<Rightarrow> nat \<Rightarrow> bool) \<Rightarrow> datagram \<Rightarrow> tftp \<Rightarrow> tftp option" where
  "udp_deliver up (pkt, dest, sip, src, len) st =
     (case udp_packet_handler st of
        dummy_handler \<Rightarrow> Some st
      | Udp_TftpHandler \<Rightarrow> TftpHandler up pkt dest sip src len st)"

fun eth_rx :: "(nat \<Rightarrow> nat \<Rightarrow> bool) \<Rightarrow> datagram list \<Rightarrow> tftp \<Rightarrow> tftp option" where
  "eth_rx up [] st = Some st"
| "eth_rx up (d # ds) st = do { st' \<leftarrow> udp_deliver up d st; eth_rx up ds st' }"

definition timer_expired :: "tftp \<Rightarrow> bool" where
  "timer_expired st \<longleftrightarrow> timeHandler st \<noteq> None \<and> timeDelta st < clock st - timeStart st"

definition call_timeHandler :: "(nat \<Rightarrow> nat \<Rightarrow> bool) \<Rightarrow> tftp \<Rightarrow> tftp" where
  "call_timeHandler up st =
     (case timeHandler st of
        None \<Rightarrow> st
      | Some x \<Rightarrow>
          let st1 = st\<lparr>timeHandler := None\<rparr>
          in case x of Th_TftpTimeout \<Rightarrow> TftpTimeout up st1 | Th_startAgainTimeout \<Rightarrow> startAgainTimeout st1)"

definition net_cleanup_loop :: "tftp \<Rightarrow> tftp" where
  "net_cleanup_loop st = net_clear_handlers st"

definition netloop_success :: "tftp \<Rightarrow> int \<times> tftp" where
  "netloop_success st0 =
     (let st1 = net_cleanup_loop st0;
          st2 = (if 0 < NetBootFileXferSize st1
                 then net_setenv ''fileaddr'' (Some (cprintf ''%lX'' [VInt (net_load_addr st1)]))
                        (net_setenv ''filesize'' (Some (cprintf ''%lX'' [VInt (NetBootFileXferSize st1)])) st1)
                 else st1)
      in (sint (NetBootFileXferSize st2), (eth_halt st2)\<lparr>eth_last_protocol_tftp := True\<rparr>))"

text \<open>The state of the network that a protocol needs: 0 is ready, 1 not configured, 2 no address for the device.\<close>

definition net_check_prereq :: "(nat \<Rightarrow> nat \<Rightarrow> bool) \<Rightarrow> tftp \<Rightarrow> nat \<times> tftp" where
  "net_check_prereq up st =
     (if NetOurIP st = 0 then (1, st)
      else if NetOurEther st = replicate 6 0
      then if eth_get_dev_index st = -1 then (1, st) else (2, NetStartAgain up st)
      else (0, st))"

text \<open>The code at the label \<open>restart\<close>: the loop goes on (\<open>Inl\<close>) or returns a value (\<open>Inr\<close>).\<close>

definition loop_start :: "(nat \<Rightarrow> nat \<Rightarrow> bool) \<Rightarrow> tftp \<Rightarrow> (tftp + int \<times> tftp) option" where
  "loop_start up st =
     do { st1 \<leftarrow> NetInitLoop (net_set_state NETLOOP_CONTINUE st);
          let (r, st2) = net_check_prereq up st1;
          Some (if r = 1 then Inr (-1, eth_halt st2)
                else if r = 2 then Inl st2
                else Inl (TftpStart (st2\<lparr>NetDevExists := True, NetBootFileXferSize := 0\<rparr>))) }"

definition loop_body :: "(nat \<Rightarrow> nat \<Rightarrow> bool) \<Rightarrow> loop_in \<Rightarrow> tftp \<Rightarrow> (tftp + int \<times> tftp) option" where
  "loop_body up i st =
     do { st1 \<leftarrow> (let st0 = st\<lparr>clock := in_clock i\<rparr> in if eth_current st0 = None then Some st0 else eth_rx up (in_rx i) st0);
          if in_ctrlc i \<and> \<not> isTftpAutoBoot st1
          then Some (Inr (-1, (eth_halt (net_cleanup_loop st1))\<lparr>eth_last_protocol_tftp := False\<rparr>))
          else let st2 = (if timer_expired st1 then call_timeHandler up st1 else st1)
               in case net_state st2 of
                    NETLOOP_RESTART \<Rightarrow> loop_start up (st2\<lparr>NetRestarted := True\<rparr>)
                  | NETLOOP_SUCCESS \<Rightarrow> Some (Inr (netloop_success st2))
                  | NETLOOP_FAIL \<Rightarrow> Some (Inr (-1, (net_cleanup_loop st2)\<lparr>eth_last_protocol_tftp := False\<rparr>))
                  | NETLOOP_CONTINUE \<Rightarrow> Some (Inl st2) }"

text \<open>The loop over the inputs: \<open>Inl\<close> means that it is still waiting after all of them.\<close>

fun loop_run :: "(nat \<Rightarrow> nat \<Rightarrow> bool) \<Rightarrow> loop_in list \<Rightarrow> tftp \<Rightarrow> (tftp + int \<times> tftp) option" where
  "loop_run up [] st = Some (Inl st)"
| "loop_run up (i # is) st =
     (case loop_body up i st of
        None \<Rightarrow> None
      | Some (Inl st') \<Rightarrow> loop_run up is st'
      | Some (Inr r) \<Rightarrow> Some (Inr r))"

definition NetLoop :: "(nat \<Rightarrow> nat \<Rightarrow> bool) \<Rightarrow> loop_in list \<Rightarrow> tftp \<Rightarrow> (tftp + int \<times> tftp) option" where
  "NetLoop up is st0 =
     do { st1 \<leftarrow> net_init (st0\<lparr>NetRestarted := False, NetDevExists := False, NetTryCount := 1\<rparr>);
          let (rc, st2) = eth_init up (eth_set_current (eth_halt st1));
          if rc < 0 then Some (Inr (-1, eth_halt st2))
          else do { s \<leftarrow> loop_start up st2;
                    case s of Inl st3 \<Rightarrow> loop_run up is st3 | Inr r \<Rightarrow> Some (Inr r) } }"

end
