(* ===== verification/Netloop_Types.thy ===== *)
theory Netloop_Types
  imports Netloop
begin

text \<open>
  The types of the network state: the current device is one of the ring, its address has six bytes, and while a TFTP
  handler is installed the variables of the transfer keep the ranges that the code relies on. Every run of the network
  loop keeps them.
\<close>

section \<open>The ring of devices\<close>

definition eth_ok :: "'a net_scheme \<Rightarrow> bool" where
  "eth_ok st \<longleftrightarrow>
     (case eth_current st of None \<Rightarrow> eth_devices st = [] | Some i \<Rightarrow> i < length (eth_devices st)) \<and>
     (\<forall>d \<in> set (eth_devices st). length (enetaddr d) = 6)"

lemma eth_ok_cong:
  "eth_current st = eth_current st' \<Longrightarrow> eth_devices st = eth_devices st' \<Longrightarrow> eth_ok st = eth_ok st'"
  by (cases "eth_current st'") (simp_all add: eth_ok_def)

lemma parse_enetaddr_length: "length (parse_enetaddr_loop n s) = n"
  by (induction n arbitrary: s) (simp_all add: case_prod_beta)

lemma eth_parse_length: "length (eth_parse_enetaddr a) = 6"
  by (simp add: eth_parse_enetaddr_def parse_enetaddr_length split: option.split)

lemma setenv_fields [simp]:
  "eth_current (net_setenv n v st) = eth_current st" "eth_devices (net_setenv n v st) = eth_devices st"
  "net.more (net_setenv n v st) = net.more st" "udp_packet_handler (net_setenv n v st) = udp_packet_handler st"
  "timeHandler (net_setenv n v st) = timeHandler st"
  by (simp_all add: net_setenv_def)

lemma current_changed_fields [simp]:
  "eth_current (eth_current_changed st) = eth_current st" "eth_devices (eth_current_changed st) = eth_devices st"
  "net.more (eth_current_changed st) = net.more st" "udp_packet_handler (eth_current_changed st) = udp_packet_handler st"
  "timeHandler (eth_current_changed st) = timeHandler st"
  by (simp_all add: eth_current_changed_def Let_def split: option.split)

lemma try_another_fields [simp]:
  "eth_devices (eth_try_another r st) = eth_devices st" "net.more (eth_try_another r st) = net.more st"
  "udp_packet_handler (eth_try_another r st) = udp_packet_handler st" "timeHandler (eth_try_another r st) = timeHandler st"
  by (simp_all add: eth_try_another_def Let_def split: option.split)

lemma try_another_current:
  "eth_current (eth_try_another r st) =
     (if env st ''ethrotate'' = Some ''no'' then eth_current st else map_option (next_dev st) (eth_current st))"
  by (simp add: eth_try_another_def Let_def next_dev_def split: option.split)

lemma next_dev_less: "i < length (eth_devices st) \<Longrightarrow> next_dev st i < length (eth_devices st)"
  unfolding next_dev_def by (rule mod_less_divisor) linarith

lemma try_another_ok: "eth_ok st \<Longrightarrow> eth_ok (eth_try_another r st)"
  by (auto simp: eth_ok_def try_another_current next_dev_less split: option.splits)

lemma set_dev_state_fields [simp]:
  "eth_current (set_dev_state i s st) = eth_current st" "length (eth_devices (set_dev_state i s st)) = length (eth_devices st)"
  "net.more (set_dev_state i s st) = net.more st" "udp_packet_handler (set_dev_state i s st) = udp_packet_handler st"
  "timeHandler (set_dev_state i s st) = timeHandler st"
  by (simp_all add: set_dev_state_def)

lemma set_dev_state_ok:
  assumes "eth_ok st" and "i < length (eth_devices st)"
  shows "eth_ok (set_dev_state i s st)"
proof -
  let ?d = "(eth_devices st ! i)\<lparr>dev_state := s\<rparr>"
  have "length (enetaddr d) = 6" if "d \<in> set ((eth_devices st)[i := ?d])" for d
    using subsetD [OF set_update_subset_insert that] assms by (auto simp: eth_ok_def)
  then show ?thesis using assms(1) by (cases "eth_current st") (auto simp: eth_ok_def set_dev_state_def)
qed

lemma eth_halt_ok: "eth_ok st \<Longrightarrow> eth_ok (eth_halt st)"
  using set_dev_state_ok [of st] by (cases "eth_current st") (simp_all add: eth_halt_def eth_ok_def [of st])

lemma eth_halt_fields [simp]:
  "eth_current (eth_halt st) = eth_current st" "length (eth_devices (eth_halt st)) = length (eth_devices st)"
  "net.more (eth_halt st) = net.more st" "udp_packet_handler (eth_halt st) = udp_packet_handler st"
  "timeHandler (eth_halt st) = timeHandler st"
  by (simp_all add: eth_halt_def split: option.split)

lemma eth_init_loop_ok:
  "eth_ok st \<Longrightarrow> eth_ok (snd (eth_init_loop up n old st)) \<and> net.more (snd (eth_init_loop up n old st)) = net.more st \<and>
     udp_packet_handler (snd (eth_init_loop up n old st)) = udp_packet_handler st \<and>
     timeHandler (snd (eth_init_loop up n old st)) = timeHandler st"
proof (induction up n old st rule: eth_init_loop.induct)
  case (2 up n old st)
  show ?case
  proof (cases "eth_current st")
    case (Some i)
    let ?s = "st\<lparr>eth_inits := eth_inits st + 1\<rparr>"
    have ok: "eth_ok ?s" "i < length (eth_devices ?s)" using 2(2) Some by (simp_all add: eth_ok_def)
    show ?thesis
      using 2(1) [OF Some refl _ refl] set_dev_state_ok [OF ok] try_another_ok [OF ok(1), of False] Some
      by (auto simp: Let_def)
  qed (use 2 in simp)
qed simp

lemma eth_init_ok:
  assumes "eth_ok st"
  shows "eth_ok (snd (eth_init up st))" and "net.more (snd (eth_init up st)) = net.more st"
    and "udp_packet_handler (snd (eth_init up st)) = udp_packet_handler st"
    and "timeHandler (snd (eth_init up st)) = timeHandler st"
proof -
  have "length (enetaddr (sync_enetaddr st d)) = 6" if "d \<in> set (eth_devices st)" for d
    using assms that
    by (auto simp: eth_ok_def sync_enetaddr_def eth_getenv_enetaddr_by_index_def eth_getenv_enetaddr_def eth_parse_length Let_def)
  then have "eth_ok (st\<lparr>eth_devices := List.map (sync_enetaddr st) (eth_devices st)\<rparr>)"
    using assms by (auto simp: eth_ok_def split: option.splits)
  note ok = eth_init_loop_ok [OF this]
  show "eth_ok (snd (eth_init up st))" "net.more (snd (eth_init up st)) = net.more st"
    "udp_packet_handler (snd (eth_init up st)) = udp_packet_handler st"
    "timeHandler (snd (eth_init up st)) = timeHandler st"
    using ok assms by (auto simp: eth_init_def Let_def split: option.split)
qed

lemma set_current_loop_less:
  "cur < length (eth_devices st) \<Longrightarrow> snd (set_current_loop n old act cur st) < length (eth_devices st)"
  by (induction n old act cur st rule: set_current_loop.induct) (auto simp: Let_def next_dev_less)

lemma eth_set_current_ok:
  assumes "eth_ok st"
  shows "eth_ok (eth_set_current st)" and "net.more (eth_set_current st) = net.more st"
    and "udp_packet_handler (eth_set_current st) = udp_packet_handler st"
    and "timeHandler (eth_set_current st) = timeHandler st"
proof -
  have "i < length (eth_devices st) \<Longrightarrow>
      snd (set_current_loop n old act i (st\<lparr>eth_act := a, eth_env_id := e\<rparr>)) < length (eth_devices st)" for i n old act a e
    using set_current_loop_less [of i "st\<lparr>eth_act := a, eth_env_id := e\<rparr>" n old act] by simp
  then show "eth_ok (eth_set_current st)" "net.more (eth_set_current st) = net.more st"
    "udp_packet_handler (eth_set_current st) = udp_packet_handler st" "timeHandler (eth_set_current st) = timeHandler st"
    using assms set_current_loop_less [of _ st]
    by (auto simp: eth_set_current_def eth_ok_def Let_def case_prod_beta split: option.splits)
qed

section \<open>The variables of a transfer\<close>

definition armed :: "'a net_scheme \<Rightarrow> bool" where
  "armed st \<longleftrightarrow> udp_packet_handler st = Udp_TftpHandler \<or> timeHandler st = Some Th_TftpTimeout"

definition fields_ok :: "tftp \<Rightarrow> bool" where
  "fields_ok st \<longleftrightarrow>
     TftpState st \<in> {STATE_SEND_RRQ, STATE_OACK, STATE_DATA} \<and> TftpBlock st < 0x10000 \<and>
     (TftpState st = STATE_DATA \<longrightarrow> TftpLastBlock st < 0x10000 \<and>
        TftpBlockWrapOffset st = TftpBlockWrap st * (ucast (TftpBlkSize st) * TFTP_SEQUENCE_SIZE)) \<and>
     1000 \<le> TftpTimeoutMSecs st \<and> 1024 \<le> TftpOurPort st \<and> TftpOurPort st < 4096 \<and>
     0 \<le> TftpTimeoutCount st \<and> length (tftp_filename st) < MAX_LEN"

definition typed :: "tftp \<Rightarrow> bool" where
  "typed st \<longleftrightarrow> eth_ok st \<and> (armed st \<longrightarrow> fields_ok st)"

text \<open>The network core does not touch the variables of the protocol.\<close>

lemma fields_ok_more: "net.more st = net.more st' \<Longrightarrow> fields_ok st = fields_ok st'"
  by (cases st, cases st') (simp add: fields_ok_def)

lemma eth_ok_upd [simp]:
  "eth_ok (st\<lparr>net_state := s\<rparr>) = eth_ok st" "eth_ok (st\<lparr>timeHandler := t\<rparr>) = eth_ok st"
  "eth_ok (st\<lparr>udp_packet_handler := u\<rparr>) = eth_ok st" "eth_ok (st\<lparr>NetRestartWrap := w\<rparr>) = eth_ok st"
  "eth_ok (st\<lparr>timeStart := t1\<rparr>) = eth_ok st" "eth_ok (st\<lparr>timeDelta := t2\<rparr>) = eth_ok st"
  "eth_ok (st\<lparr>NetTryCount := c\<rparr>) = eth_ok st" "eth_ok (st\<lparr>clock := t3\<rparr>) = eth_ok st"
  "eth_ok (st\<lparr>NetRestarted := b1\<rparr>) = eth_ok st" "eth_ok (st\<lparr>NetDevExists := b2\<rparr>) = eth_ok st"
  "eth_ok (st\<lparr>NetBootFileXferSize := n\<rparr>) = eth_ok st" "eth_ok (st\<lparr>eth_last_protocol_tftp := b3\<rparr>) = eth_ok st"
  "eth_ok (st\<lparr>net_first_call := b4\<rparr>) = eth_ok st" "eth_ok (st\<lparr>ram := m\<rparr>) = eth_ok st"
  "eth_ok (st\<lparr>udp_out := o1\<rparr>) = eth_ok st" "eth_ok (st\<lparr>NetServerEther := e\<rparr>) = eth_ok st"
  "eth_ok (net_setenv nm v st) = eth_ok st"
  by (rule eth_ok_cong; simp)+

lemma NetStartAgain_ok:
  assumes "eth_ok st"
  shows "eth_ok (NetStartAgain up st)" and "net.more (NetStartAgain up st) = net.more st"
    and "armed (NetStartAgain up st) \<Longrightarrow> armed st"
proof -
  let ?s1 = "eth_halt (st\<lparr>NetTryCount := NetTryCount st + 1\<rparr>)"
  let ?s2 = "eth_try_another (\<not> NetRestarted ?s1) ?s1"
  have "eth_ok ?s2" using assms by (intro try_another_ok eth_halt_ok) simp
  note s3 = eth_init_ok [OF this, of up]
  note defs = NetStartAgain_def Let_def net_set_state_def NetSetTimeout_def net_set_udp_handler_def
  show "eth_ok (NetStartAgain up st)" using assms s3(1) by (simp add: defs eth_halt_ok case_prod_beta)
  show "net.more (NetStartAgain up st) = net.more st" using s3(2) by (simp add: defs case_prod_beta)
  show "armed (NetStartAgain up st) \<Longrightarrow> armed st"
    using s3(3,4) by (auto simp: defs armed_def case_prod_beta split: if_splits)
qed

lemma NetStartAgain_typed:
  assumes "eth_ok st" and "armed st \<Longrightarrow> fields_ok st"
  shows "typed (NetStartAgain up st)"
  using NetStartAgain_ok [OF assms(1), of up] assms(2) fields_ok_more [of "NetStartAgain up st" st] by (auto simp: typed_def)

lemma ucast_u16_less: "(ucast (b :: u16) :: u32) < 0x10000"
  using unsigned_less [of b, where 'a = nat]
  by (simp add: word_less_nat_alt unsigned_ucast_eq take_bit_nat_eq_self)

lemma eth_ok_tftp_upd [simp]:
  "eth_ok (st\<lparr>TftpBlock := x\<rparr>) = eth_ok st" "eth_ok (update_block_number st) = eth_ok st"
  "eth_ok (first_block sip src st) = eth_ok st" "eth_ok (TftpSend st) = eth_ok st"
  "eth_ok (store_block blk bs st) = eth_ok st" "eth_ok (NetSetTimeout iv h (st :: tftp)) = eth_ok st"
  "eth_ok (tftp_complete st) = eth_ok st" "eth_ok (st\<lparr>TftpLastBlock := x\<rparr>) = eth_ok st"
  "eth_ok (st\<lparr>TftpTimeoutCountMax := c\<rparr>) = eth_ok st" "eth_ok (st\<lparr>TftpTimeoutCount := c\<rparr>) = eth_ok st"
  "eth_ok (st\<lparr>TftpState := ts\<rparr>) = eth_ok st" "eth_ok (st\<lparr>TftpRemotePort := x\<rparr>) = eth_ok st"
  "eth_ok (st\<lparr>TftpBlkSize := bs'\<rparr>) = eth_ok st"
  by (rule eth_ok_cong; simp add: update_block_number_def first_block_def new_transfer_def TftpSend_def store_block_def
      NetSetTimeout_def tftp_complete_def net_set_state_def Let_def)+

lemma fields_ok_simps [simp]:
  "fields_ok (TftpSend st) = fields_ok st" "fields_ok (store_block blk bs st) = fields_ok st"
  "fields_ok (NetSetTimeout iv h st) = fields_ok st" "fields_ok (tftp_complete st) = fields_ok st"
  "fields_ok (net_set_state s st) = fields_ok st" "fields_ok (st\<lparr>timeHandler := th\<rparr>) = fields_ok st"
  by (simp_all add: fields_ok_def TftpSend_def store_block_def NetSetTimeout_def tftp_complete_def net_set_state_def Let_def)

lemma accept_block_typed:
  assumes "fields_ok st" and "TftpState st = STATE_DATA" and "eth_ok st" and "accept_block pkt len st = Some st'"
  shows "typed st'"
proof -
  have "fields_ok (st\<lparr>TftpLastBlock := TftpBlock st, TftpTimeoutCountMax := TIMEOUT_COUNT\<rparr>)"
    using assms(1,2) by (simp add: fields_ok_def)
  moreover have "eth_ok (st\<lparr>TftpLastBlock := TftpBlock st, TftpTimeoutCountMax := TIMEOUT_COUNT\<rparr>)"
    using assms(3) by simp
  ultimately show ?thesis
    using assms by (auto simp: accept_block_def typed_def Let_def split: if_splits)
qed

lemma update_fields:
  assumes "fields_ok st"
  shows "fields_ok (update_block_number (st\<lparr>TftpBlock := ucast (b :: u16)\<rparr>))"
proof (cases "(ucast b :: u32) = 0")
  case True
  have "(0 :: u32) < 0x10000" using ucast_u16_less [of b] unfolding True .
  then show ?thesis using assms by (simp only: True) (auto simp: fields_ok_def update_block_number_def algebra_simps)
next
  case False
  then show ?thesis using assms ucast_u16_less [of b] by (simp add: fields_ok_def update_block_number_def)
qed

lemma handle_data_typed:
  assumes "fields_ok st" and "eth_ok st" and "handle_data up pkt sip src len st = Some st'"
  shows "typed st'"
proof (cases "len < 2")
  case True
  then show ?thesis using assms by (simp add: handle_data_def typed_def)
next
  case False
  then obtain b where b: "get16 pkt 2 = Some b" using assms(3) by (auto simp: handle_data_def bind_Some_iff)
  define st1 where "st1 = update_block_number (st\<lparr>TftpBlock := ucast b\<rparr>)"
  define st2 where "st2 = (if awaits_first st1 then first_block sip src st1 else st1)"
  have f1: "fields_ok st1" unfolding st1_def by (rule update_fields [OF assms(1)])
  then have f2: "fields_ok st2" "TftpState st2 = STATE_DATA"
    by (auto simp: st2_def fields_ok_def first_block_def new_transfer_def awaits_first_def Let_def)
  have e2: "eth_ok st2" using assms(2) by (simp add: st2_def st1_def)
  have "st' = NetStartAgain up st2 \<or> accept_block pkt (len - 2) st2 = Some st'"
    using False b assms(3) by (auto simp: handle_data_def st1_def [symmetric] st2_def Let_def split: if_splits)
  then show ?thesis using accept_block_typed [OF f2 e2] NetStartAgain_typed [OF e2 f2(1)] by blast
qed

lemma TftpHandler_typed:
  assumes "fields_ok st" and "eth_ok st" and "TftpHandler up pkt dest sip src len st = Some st'"
  shows "typed st'"
proof -
  have oack: "typed st'" if h: "handle_oack pkt src (len - 2) st = Some st'"
  proof -
    obtain b where st': "st' = TftpSend (st\<lparr>TftpState := STATE_OACK, TftpRemotePort := src, TftpBlkSize := b\<rparr>)"
      using h by (auto simp: handle_oack_def bind_Some_iff)
    have "fields_ok (st\<lparr>TftpState := STATE_OACK, TftpRemotePort := src, TftpBlkSize := b\<rparr>)"
      using assms(1) by (simp add: fields_ok_def)
    moreover have "eth_ok (st\<lparr>TftpState := STATE_OACK, TftpRemotePort := src, TftpBlkSize := b\<rparr>)"
      using assms(2) by simp
    ultimately show ?thesis by (simp add: st' typed_def)
  qed
  have err: "typed st'" if "handle_error up pkt st = Some st'"
    using that assms NetStartAgain_typed [of st up] eth_halt_ok [of st] fields_ok_more [of "eth_halt st" st]
    by (auto simp: handle_error_def bind_Some_iff typed_def net_set_state_def fields_ok_simps(5) [unfolded net_set_state_def]
        split: if_splits)
  show ?thesis
    using assms oack err handle_data_typed [OF assms(1,2), of up pkt sip src "len - 2" st']
    by (auto simp: TftpHandler_def typed_def bind_Some_iff split: if_splits)
qed

lemma TftpTimeout_typed:
  assumes "fields_ok st" and "eth_ok st"
  shows "typed (TftpTimeout up st)"
proof -
  define st1 where "st1 = st\<lparr>TftpTimeoutCount := TftpTimeoutCount st + 1\<rparr>"
  have "fields_ok st1" using assms(1) by (simp add: st1_def fields_ok_def)
  moreover have "eth_ok st1" using assms(2) by (simp add: st1_def)
  ultimately show ?thesis
    using NetStartAgain_typed [of st1 up]
    by (auto simp: TftpTimeout_def st1_def [symmetric] restart_def typed_def Let_def net_set_state_def
        fields_ok_simps(5) [unfolded net_set_state_def])
qed

section \<open>Runs of the loop\<close>

lemma typed_clock [simp]: "typed (st\<lparr>clock := c\<rparr>) = typed st"
  by (simp add: typed_def armed_def fields_ok_def)

lemma udp_deliver_typed: "typed st \<Longrightarrow> udp_deliver up d st = Some st' \<Longrightarrow> typed st'"
  by (cases d, cases "udp_packet_handler st") (auto simp: typed_def armed_def dest: TftpHandler_typed [unfolded typed_def armed_def])

lemma eth_rx_typed: "typed st \<Longrightarrow> eth_rx up ds st = Some st' \<Longrightarrow> typed st'"
  by (induction ds arbitrary: st) (auto simp: bind_Some_iff dest: udp_deliver_typed)

lemma call_timeHandler_typed: "typed st \<Longrightarrow> typed (call_timeHandler up st)"
  using TftpTimeout_typed [of "st\<lparr>timeHandler := None\<rparr>" up]
  by (auto simp: call_timeHandler_def typed_def armed_def startAgainTimeout_def net_set_state_def Let_def
      fields_ok_simps(5) [unfolded net_set_state_def] split: option.split timer_handler.split)

lemma typed_more:
  "typed st \<Longrightarrow> eth_ok st' \<Longrightarrow> net.more st' = net.more st \<Longrightarrow> (armed st' \<Longrightarrow> armed st) \<Longrightarrow> typed st'"
  using fields_ok_more [of st' st] by (auto simp: typed_def)

lemma cleanup_typed [simp]: "eth_ok st \<Longrightarrow> typed (net_cleanup_loop st)"
  by (simp add: typed_def net_cleanup_loop_def net_clear_handlers_def armed_def NetSetTimeout_def net_set_udp_handler_def)

lemma cleanup_ok [simp]: "eth_ok (net_cleanup_loop st) = eth_ok st" "\<not> armed (net_cleanup_loop st)"
  by (simp_all add: net_cleanup_loop_def net_clear_handlers_def armed_def NetSetTimeout_def net_set_udp_handler_def)

lemma our_port_range: "1024 \<le> 1024 + c mod (3072 :: u32)" "1024 + c mod (3072 :: u32) < 4096"
proof -
  define y where "y = unat c mod 3072"
  have y: "y < 3072" by (simp add: y_def)
  have "unat (c mod 3072) = unat (of_nat y :: u32)"
    using y by (simp add: unat_mod_distrib unat_of_nat take_bit_nat_eq_self) (simp add: y_def)
  then have "c mod 3072 = of_nat y" by (rule unsigned_word_eqI)
  then have e: "1024 + c mod 3072 = of_nat (1024 + y)" by simp
  have "unat (of_nat (1024 + y) :: u32) = 1024 + y" using y by (simp add: unat_of_nat take_bit_nat_eq_self del: of_nat_add)
  then show "1024 \<le> 1024 + c mod (3072 :: u32)" "1024 + c mod (3072 :: u32) < 4096"
    unfolding e word_le_nat_alt word_less_nat_alt using y by (simp_all del: of_nat_add)
qed

lemma TftpStart_fields_ok: "fields_ok (TftpStart st)"
proof -
  have "TftpTimeoutMSecs (TftpStart st) = TftpTimeoutMSecs (set_options (st\<lparr>isTftpComplete := False\<rparr>))"
    by (simp add: TftpStart_def TftpSend_def NetSetTimeout_def net_set_udp_handler_def Let_def)
  moreover have "1000 \<le> TftpTimeoutMSecs (set_options st')" for st'
    by (simp add: set_options_def Let_def not_less)
  ultimately have ms: "1000 \<le> TftpTimeoutMSecs (TftpStart st)" by simp
  have "tftp_filename (TftpStart st) = tftp_filename (set_filename (set_options (st\<lparr>isTftpComplete := False\<rparr>)))"
    by (simp add: TftpStart_def TftpSend_def NetSetTimeout_def net_set_udp_handler_def Let_def)
  moreover have "length (tftp_filename (set_filename st')) < MAX_LEN" for st'
    by (simp add: set_filename_def Let_def MAX_LEN_def min_less_iff_disj split: list.split)
  ultimately have "length (tftp_filename (TftpStart st)) < MAX_LEN" by simp
  then show ?thesis using ms our_port_range [of "clock st"] by (simp add: fields_ok_def TftpStart_fields)
qed

lemma TftpStart_typed: "eth_ok st \<Longrightarrow> typed (TftpStart st)"
proof -
  have "eth_current (set_filename (set_options st)) = eth_current st \<and>
      eth_devices (set_filename (set_options st)) = eth_devices st" for st
    by (simp add: set_filename_def set_options_def Let_def split: option.split list.split)
  then have "eth_ok st \<Longrightarrow> eth_ok (TftpStart st)"
    by (subst eth_ok_cong [of _ st]) (simp_all add: TftpStart_def TftpSend_def NetSetTimeout_def net_set_udp_handler_def Let_def)
  then show "eth_ok st \<Longrightarrow> typed (TftpStart st)" using TftpStart_fields_ok by (simp add: typed_def)
qed

lemma net_read_env_fields [simp]:
  "eth_current (net_read_env st) = eth_current st" "eth_devices (net_read_env st) = eth_devices st"
  "net.more (net_read_env st) = net.more st" "udp_packet_handler (net_read_env st) = udp_packet_handler st"
  "timeHandler (net_read_env st) = timeHandler st"
  by (simp_all add: net_read_env_def)

lemma NetInitLoop_typed:
  assumes "typed st" and "NetInitLoop st = Some st'"
  shows "typed st'"
proof -
  have f: "eth_current st' = eth_current st" "eth_devices st' = eth_devices st" "net.more st' = net.more st"
    "udp_packet_handler st' = udp_packet_handler st" "timeHandler st' = timeHandler st"
    using assms(2) by (auto simp: NetInitLoop_def split: option.splits)
  have ok: "eth_ok st'" using assms(1) eth_ok_cong [OF f(1,2)] by (simp add: typed_def)
  show ?thesis by (rule typed_more [OF assms(1) ok f(3)]) (simp add: armed_def f(4,5))
qed

definition result_state :: "tftp + int \<times> tftp \<Rightarrow> tftp" where
  "result_state r = (case r of Inl st \<Rightarrow> st | Inr (_, st) \<Rightarrow> st)"

lemma typed_upd [simp]:
  "typed (net_set_state s st) = typed st" "typed (st\<lparr>NetRestarted := b\<rparr>) = typed st" "typed (st\<lparr>NetDevExists := b\<rparr>) = typed st"
  "typed (st\<lparr>NetTryCount := n\<rparr>) = typed st" "typed (st\<lparr>eth_last_protocol_tftp := b\<rparr>) = typed st"
  by (simp_all add: typed_def armed_def net_set_state_def fields_ok_def)

lemma armed_setenv [simp]: "armed (net_setenv n v st) = armed st"
  by (simp add: armed_def)

lemma eth_halt_typed: "typed st \<Longrightarrow> typed (eth_halt st)"
  by (rule typed_more) (simp_all add: eth_halt_ok typed_def armed_def)

lemma loop_start_typed:
  assumes "typed st" and "loop_start up st = Some r"
  shows "typed (result_state r)"
proof -
  obtain st1 where st1: "NetInitLoop (net_set_state NETLOOP_CONTINUE st) = Some st1"
    using assms(2) by (auto simp: loop_start_def bind_Some_iff)
  have t1: "typed st1" using NetInitLoop_typed [OF _ st1] assms(1) by simp
  then have t2: "typed (snd (net_check_prereq up st1))"
    using NetStartAgain_typed [of st1 up] by (auto simp: net_check_prereq_def typed_def)
  then have "eth_ok (snd (net_check_prereq up st1))" by (simp add: typed_def)
  then show ?thesis
    using assms(2) t2 eth_halt_typed TftpStart_typed
    by (auto simp: loop_start_def st1 result_state_def case_prod_beta Let_def)
qed

lemma loop_body_typed:
  assumes "typed st" and "loop_body up i st = Some r"
  shows "typed (result_state r)"
proof -
  define rx where "rx = (let st0 = st\<lparr>clock := in_clock i\<rparr> in if eth_current st0 = None then Some st0 else eth_rx up (in_rx i) st0)"
  obtain st1 where st1: "rx = Some st1" using assms(2) by (auto simp: loop_body_def rx_def [symmetric] bind_Some_iff)
  have t1: "typed st1" using st1 assms(1) by (auto simp: rx_def Let_def split: if_splits dest: eth_rx_typed [rotated])
  define st2 where "st2 = (if timer_expired st1 then call_timeHandler up st1 else st1)"
  have t2: "typed st2" using t1 call_timeHandler_typed by (simp add: st2_def)
  then have e: "eth_ok st1" "eth_ok st2" using t1 by (simp_all add: typed_def)
  have "typed (snd (netloop_success st2))"
    using e(2) by (simp add: netloop_success_def Let_def) (intro eth_halt_typed conjI impI; simp add: typed_def)
  then show ?thesis
    using assms(2) e t2 loop_start_typed [of "st2\<lparr>NetRestarted := True\<rparr>" up r]
    by (auto simp: loop_body_def rx_def [symmetric] st1 st2_def [symmetric] result_state_def eth_halt_typed case_prod_beta
        split: if_splits net_loop_state.splits)
qed

lemma loop_run_typed: "typed st \<Longrightarrow> loop_run up is st = Some r \<Longrightarrow> typed (result_state r)"
proof (induction "is" arbitrary: st)
  case (Cons i "is")
  then obtain r' where r': "loop_body up i st = Some r'" by (cases "loop_body up i st") auto
  have "typed (result_state r')" using loop_body_typed [OF Cons.prems(1) r'] .
  then show ?case using Cons r' by (cases r') (auto simp: result_state_def)
qed (auto simp: result_state_def)

lemma net_init_typed:
  assumes "typed st" and "net_init st = Some st'"
  shows "typed st'"
proof -
  have "typed ((net_clear_handlers st)\<lparr>net_first_call := False\<rparr>)"
    using assms(1) by (simp add: typed_def armed_def net_clear_handlers_def NetSetTimeout_def net_set_udp_handler_def)
  then show ?thesis using assms NetInitLoop_typed by (auto simp: net_init_def split: if_splits)
qed

text \<open>With a device the loop begins; the null pointer is not reached.\<close>

lemma eth_init_current: "eth_current (snd (eth_init up st)) = None \<longleftrightarrow> eth_current st = None"
proof -
  have "eth_current (snd (eth_init_loop up n old st)) = None \<longleftrightarrow> eth_current st = None" for n old and st :: "'a net_scheme"
    by (induction up n old st rule: eth_init_loop.induct) (auto simp: Let_def try_another_current split: option.split)
  then show ?thesis by (auto simp: eth_init_def Let_def split: option.split)
qed

lemma eth_set_current_None: "eth_current (eth_set_current st) = None \<longleftrightarrow> eth_current st = None"
  by (auto simp: eth_set_current_def Let_def case_prod_beta split: option.split)

lemma NetInitLoop_None: "NetInitLoop st = None \<longleftrightarrow> eth_current st = None"
  by (simp add: NetInitLoop_def split: option.split)

lemma NetLoop_begins:
  assumes "eth_current st \<noteq> None"
  shows "NetLoop up [] st \<noteq> None"
proof -
  define st0 where "st0 = st\<lparr>NetRestarted := False, NetDevExists := False, NetTryCount := 1\<rparr>"
  have c0: "eth_current (if net_first_call st0 then (net_clear_handlers st0)\<lparr>net_first_call := False\<rparr> else st0) \<noteq> None"
    using assms by (simp add: st0_def net_clear_handlers_def NetSetTimeout_def net_set_udp_handler_def)
  then have "net_init st0 \<noteq> None" unfolding net_init_def NetInitLoop_None .
  then obtain st1 where st1: "net_init st0 = Some st1" by blast
  then have "eth_current st1 \<noteq> None"
    using c0 by (auto simp: net_init_def NetInitLoop_def split: option.splits)
  then have "eth_current (snd (eth_init up (eth_set_current (eth_halt st1)))) \<noteq> None"
    by (simp only: eth_init_current eth_set_current_None eth_halt_fields not_False_eq_True)
  then have "loop_start up (snd (eth_init up (eth_set_current (eth_halt st1)))) \<noteq> None"
    using NetInitLoop_None [of "net_set_state NETLOOP_CONTINUE (snd (eth_init up (eth_set_current (eth_halt st1))))"]
    by (auto simp: loop_start_def net_set_state_def case_prod_beta)
  then show ?thesis by (auto simp: NetLoop_def st0_def [symmetric] st1 case_prod_beta split: sum.split)
qed

text \<open>A machine with one device and no transfer so far, for the examples.\<close>

definition tftp0 :: tftp where
  "tftp0 = \<lparr>env = [''ipaddr'' \<mapsto> ''10.0.0.2'', ''serverip'' \<mapsto> ''10.0.0.1''], envid = 1, clock = 0,
     eth_devices = [\<lparr>dev_name = ''eth0'', dev_index = 0, enetaddr = [0, 0x18, 0x0a, 0, 0, 1], dev_state = ETH_STATE_INIT\<rparr>],
     eth_next_index = 1, eth_current = Some 0, first_failed = None, eth_act = None, eth_env_id = 0, eth_inits = 0,
     eth_last_protocol_tftp = False, net_state = NETLOOP_CONTINUE, udp_packet_handler = dummy_handler, timeHandler = None,
     timeStart = 0, timeDelta = 0, NetTryCount = 0, NetRestarted = False, NetRestartWrap = False, NetDevExists = False,
     net_first_call = True, net_env_id = 0, NetOurIP = 0, NetOurGatewayIP = 0, NetOurSubnetMask = 0, NetServerIP = 0,
     NetOurNativeVLAN = 0, NetOurVLAN = 0, NetOurEther = replicate 6 0, NetServerEther = replicate 6 0, BootFile = ''image'',
     NetBootFileXferSize = 0, net_load_addr = 0x90000000, ram = (\<lambda>_. NUL), udp_out = [],
     TftpTimeoutMSecs = 50000, TftpTimeoutCountMax = 10, TftpRRQTimeoutCountMax = 10, isTftpComplete = False,
     isTftpAutoBoot = False, TftpRemoteIP = 0, TftpRemotePort = 0, TftpOurPort = 0, TftpTimeoutCount = 0, TftpBlock = 0,
     TftpLastBlock = 0, TftpBlockWrap = 0, TftpBlockWrapOffset = 0, TftpState = STATE_SEND_RRQ, tftp_filename = [],
     TftpBlkSize = 512, TftpBlkSizeOption = 1468\<rparr>"

text \<open>C23. The types of the network state: in every run of the network loop, whatever datagrams arrive, whenever the timer
  expires and whichever devices come up, the current device is one of the ring and has an address of six bytes; and
  while a TFTP handler is installed, the protocol is in one of the three states of a download, block numbers have 16 bits, the
  wrap offset is the number of wraps times the bytes of 65536 blocks, the time-out is at least one second, the local port is
  between 1024 and 4095, and the file name fits its buffer.\<close>

theorem netloop_types:
  assumes "typed st" and "NetLoop up is st = Some r"
  shows "typed (result_state r)"
proof -
  define st0 where "st0 = st\<lparr>NetRestarted := False, NetDevExists := False, NetTryCount := 1\<rparr>"
  obtain st1 where st1: "net_init st0 = Some st1" using assms(2) by (auto simp: NetLoop_def st0_def bind_Some_iff)
  have t1: "typed (eth_halt st1)" using net_init_typed [OF _ st1] assms(1) by (intro eth_halt_typed) (simp add: st0_def)
  note c = eth_set_current_ok [of "eth_halt st1"]
  have t2: "typed (eth_set_current (eth_halt st1))"
    using t1 c by (intro typed_more [OF t1]) (simp_all add: typed_def armed_def)
  note j = eth_init_ok [of "eth_set_current (eth_halt st1)" up]
  have t3: "typed (snd (eth_init up (eth_set_current (eth_halt st1))))"
    using t2 j by (intro typed_more [OF t2]) (simp_all add: typed_def armed_def)
  let ?e = "eth_init up (eth_set_current (eth_halt st1))"
  show ?thesis
  proof (cases "fst ?e < 0")
    case True
    then show ?thesis
      using assms(2) eth_halt_typed [OF t3] by (auto simp: NetLoop_def st0_def [symmetric] st1 case_prod_beta result_state_def)
  next
    case False
    then obtain s where s: "loop_start up (snd ?e) = Some s"
      and run: "(case s of Inl st3 \<Rightarrow> loop_run up is st3 | Inr r \<Rightarrow> Some (Inr r)) = Some r"
      using assms(2) by (auto simp: NetLoop_def st0_def [symmetric] st1 case_prod_beta bind_Some_iff)
    show ?thesis
      using loop_start_typed [OF t3 s] run loop_run_typed [of _ up "is" r] by (cases s) (auto simp: result_state_def)
  qed
qed

theorem netloop_types_witness:
  "\<exists>r. NetLoop (\<lambda>_ _. True) [] tftp0 = Some r \<and> typed (result_state r)"
proof -
  have t: "typed tftp0" by (simp add: typed_def armed_def eth_ok_def tftp0_def)
  have "NetLoop (\<lambda>_ _. True) [] tftp0 \<noteq> None" by (rule NetLoop_begins) (simp add: tftp0_def)
  then show ?thesis using netloop_types [OF t] by auto
qed

end
