(* ===== verification/Tftp_Transfer.thy ===== *)
theory Tftp_Transfer
  imports Netloop_Types
begin

text \<open>
  A transfer as a sequence of events: datagrams, time that passes and time-outs. A server that sends the blocks of a file in order, with
  repeated blocks, datagrams of others and lost packets in between, gets the file into memory: the transfer ends.
\<close>

section \<open>Events\<close>

datatype tftp_event = Datagram mem u32 u32 u32 u32 | Tick | Wait u32

text \<open>What the network loop does with an event: it calls the installed handlers, and ends when the state is no longer \<open>NETLOOP_CONTINUE\<close>.\<close>

fun handle_event :: "(nat \<Rightarrow> nat \<Rightarrow> bool) \<Rightarrow> tftp_event \<Rightarrow> tftp \<Rightarrow> tftp option" where
  "handle_event up (Datagram pkt dest sip src len) st = udp_deliver up (pkt, dest, sip, src, len) st"
| "handle_event up Tick st = Some (call_timeHandler up st)"
| "handle_event up (Wait t) st = Some (st\<lparr>clock := t\<rparr>)"

fun tftp_run :: "(nat \<Rightarrow> nat \<Rightarrow> bool) \<Rightarrow> tftp_event list \<Rightarrow> tftp \<Rightarrow> tftp option" where
  "tftp_run up [] st = Some st"
| "tftp_run up (e # es) st =
     (if net_state st \<noteq> NETLOOP_CONTINUE then Some st else do { st' \<leftarrow> handle_event up e st; tftp_run up es st' })"

text \<open>The server: block \<open>k\<close> (counted from 1) of a file, and the number of its blocks; the last one is shorter than the others.\<close>

definition data_pkt :: "char list \<Rightarrow> nat \<Rightarrow> nat \<Rightarrow> mem" where
  "data_pkt f b k = be16 TFTP_DATA @ be16 (of_nat k) @ take b (drop ((k - 1) * b) f)"

definition n_blocks :: "char list \<Rightarrow> nat \<Rightarrow> nat" where
  "n_blocks f b = length f div b + 1"

definition block_event :: "char list \<Rightarrow> nat \<Rightarrow> nat \<Rightarrow> char list \<Rightarrow> u32 \<Rightarrow> u32 \<Rightarrow> u32 \<Rightarrow> tftp_event" where
  "block_event f b k junk dest sip src = Datagram (data_pkt f b k @ junk) dest sip src (of_nat (length (data_pkt f b k)))"

text \<open>A datagram that is not meant for this transfer, or carries an operation that a client ignores; or time that passes.\<close>

fun stray :: "u32 \<Rightarrow> tftp_event \<Rightarrow> bool" where
  "stray ours (Datagram pkt dest sip src len) \<longleftrightarrow>
     dest \<noteq> ours \<or> len < 2 \<or> (\<exists>op. get16 pkt 0 = Some op \<and> op \<notin> {TFTP_OACK, TFTP_DATA, TFTP_ERROR})"
| "stray ours (Wait t) \<longleftrightarrow> True"
| "stray ours Tick \<longleftrightarrow> False"

text \<open>
  The events of a transfer in which block \<open>k\<close> is the next one and \<open>t\<close> more time-outs may occur: it ends with the
  last block. A block may be repeated, except that a block with the number 0 may not: its repetition moves the
  write position of all later blocks.
\<close>

inductive schedule :: "char list \<Rightarrow> nat \<Rightarrow> u32 \<Rightarrow> u32 \<Rightarrow> nat \<Rightarrow> nat \<Rightarrow> tftp_event list \<Rightarrow> bool"
  for f b ours port where
  last_block: "schedule f b ours port (n_blocks f b) t (block_event f b (n_blocks f b) junk ours sip port # es)"
| next_block: "k < n_blocks f b \<Longrightarrow> schedule f b ours port (k + 1) t es \<Longrightarrow>
    schedule f b ours port k t (block_event f b k junk ours sip port # es)"
| repeated: "k mod 65536 \<noteq> 0 \<Longrightarrow> schedule f b ours port (k + 1) t es \<Longrightarrow>
    schedule f b ours port (k + 1) t (block_event f b k junk ours sip port # es)"
| other: "stray ours e \<Longrightarrow> schedule f b ours port k t es \<Longrightarrow> schedule f b ours port k t (e # es)"
| timeout: "schedule f b ours port k t es \<Longrightarrow> schedule f b ours port k (t + 1) (Tick # es)"

section \<open>Progress of a transfer\<close>

lemma be16_length [simp]: "length (be16 x) = 2"
  by (simp add: be16_def)

lemma be16_value: "push_bit 8 (ucast (ucast (drop_bit 8 x) :: u8) :: u16) OR ucast (ucast x :: u8) = x"
proof (rule bit_word_eqI)
  fix n
  assume n: "n < LENGTH(16)"
  show "bit (push_bit 8 (ucast (ucast (drop_bit 8 x) :: u8) :: u16) OR ucast (ucast x :: u8)) n = bit x n"
    using n by (cases "n < 8") (auto simp: bit_simps)
qed

lemma get16_be16 [simp]: "get16 (be16 x @ r) 0 = Some x" "get16 (be16 y @ be16 x @ r) 2 = Some x"
  by (simp_all add: get16_def be16_def rd_def be16_value nth_append)

text \<open>After \<open>k\<close> blocks: nothing received yet, or the first \<open>k\<close> blocks are in memory and the counters stand at \<open>k\<close>.\<close>

definition received :: "char list \<Rightarrow> nat \<Rightarrow> u32 \<Rightarrow> u32 \<Rightarrow> u32 \<Rightarrow> (u32 \<Rightarrow> char) \<Rightarrow> nat \<Rightarrow> tftp \<Rightarrow> bool" where
  "received f b ours port base m k st \<longleftrightarrow>
     net_state st = NETLOOP_CONTINUE \<and> udp_packet_handler st = Udp_TftpHandler \<and> timeHandler st \<noteq> Some Th_startAgainTimeout \<and>
     TftpOurPort st = ours \<and> TftpBlkSize st = of_nat b \<and> net_load_addr st = base \<and>
     ram st = store_bytes base (take (k * b) f) m \<and> NetBootFileXferSize st = of_nat (min (k * b) (length f)) \<and>
     TftpBlock st = of_nat (k mod 65536) \<and>
     (if k = 0 then TftpState st = STATE_SEND_RRQ \<or> TftpState st = STATE_OACK \<and> TftpRemotePort st = port
      else TftpState st = STATE_DATA \<and> TftpRemotePort st = port \<and> TftpLastBlock st = of_nat (k mod 65536) \<and>
        TftpBlockWrapOffset st = of_nat (k div 65536 * 65536 * b))"

text \<open>Time-outs that may still occur before the transfer is given up.\<close>

definition patience :: "nat \<Rightarrow> tftp \<Rightarrow> bool" where
  "patience t st \<longleftrightarrow> TftpTimeoutCount st + int t \<le> TftpTimeoutCountMax st \<and> TftpTimeoutCount st + int t \<le> TIMEOUT_COUNT"

lemma store_bytes_append:
  assumes "length xs + length ys \<le> 2 ^ 32"
  shows "store_bytes (a + of_nat (length xs)) ys (store_bytes a xs m) = store_bytes a (xs @ ys) m"
proof
  fix x :: u32
  define d where "d = unat (x - a)"
  have x: "x - a = of_nat d" by (simp add: d_def)
  have dl: "d < 2 ^ 32" using unsigned_less [of "x - a", where 'a = nat] by (simp add: d_def)
  have e: "x - (a + of_nat (length xs)) = of_nat d - of_nat (length xs)" using x by (simp add: algebra_simps)
  show "store_bytes (a + of_nat (length xs)) ys (store_bytes a xs m) x = store_bytes a (xs @ ys) m x"
  proof (cases "d < length xs")
    case True
    have "(of_nat d - of_nat (length xs) :: u32) = of_nat (2 ^ 32 + d - length xs)"
      using assms by (simp add: of_nat_diff)
    moreover have "2 ^ 32 + d - length xs < 2 ^ 32" using True by simp
    ultimately have "unat (x - (a + of_nat (length xs))) = 2 ^ 32 + d - length xs"
      using e by (simp add: unat_of_nat take_bit_nat_eq_self)
    moreover have "\<not> 2 ^ 32 + d - length xs < length ys" using assms by linarith
    ultimately show ?thesis using True by (simp add: store_bytes_def nth_append flip: d_def)
  next
    case False
    then have "(of_nat d - of_nat (length xs) :: u32) = of_nat (d - length xs)" by (simp add: of_nat_diff)
    moreover have "d - length xs < 2 ^ 32" using dl by linarith
    ultimately have "unat (x - (a + of_nat (length xs))) = d - length xs" using e by (simp add: unat_of_nat take_bit_nat_eq_self)
    then show ?thesis using False by (auto simp: store_bytes_def nth_append simp flip: d_def)
  qed
qed

text \<open>The position of a block: the 16-bit number and the wrap offset make up the full count.\<close>

lemma block_offset:
  "(of_nat ((k + 1) mod 65536) - 1) * of_nat b + of_nat ((k + 1) div 65536 * 65536 * b) = (of_nat (k * b) :: u32)"
proof -
  define q r where "q = (k + 1) div 65536 * 65536" and "r = (k + 1) mod 65536"
  have "of_nat k + 1 = (of_nat (k + 1) :: u32)" by simp
  also have "k + 1 = q + r" unfolding q_def r_def by (rule div_mult_mod_eq [symmetric])
  finally have e: "(of_nat r :: u32) - 1 = of_nat k - of_nat q" by (simp add: algebra_simps)
  show ?thesis unfolding q_def [symmetric] r_def [symmetric] by (simp add: e algebra_simps)
qed

lemma wrap_step:
  "(if (k + 1) mod M = 0 then k div M * M * b + b * M else k div M * M * b) = (k + 1) div M * M * (b :: nat)"
  by (simp add: div_Suc add_mult_distrib)

text \<open>The handler on a data packet of the peer.\<close>

definition chunk :: "char list \<Rightarrow> nat \<Rightarrow> nat \<Rightarrow> char list" where
  "chunk f b k = take b (drop ((k - 1) * b) f)"

lemma data_pkt_chunk: "data_pkt f b k = be16 TFTP_DATA @ be16 (of_nat k) @ chunk f b k"
  by (simp add: data_pkt_def chunk_def)

lemma ucast_block [simp]: "(ucast (of_nat k :: u16) :: u32) = of_nat (k mod 65536)"
  by (simp add: word_eq_iff_unsigned unsigned_ucast_eq unsigned_of_nat take_bit_eq_mod mod_mod_cancel)

lemma ucast_size: "b < 65536 \<Longrightarrow> (ucast (of_nat b :: u16) :: u32) = of_nat b"
  by simp

definition after_block :: "u32 \<Rightarrow> u32 \<Rightarrow> nat \<Rightarrow> tftp \<Rightarrow> tftp" where
  "after_block sip src k st =
     (let st1 = update_block_number (st\<lparr>TftpBlock := of_nat (k mod 65536)\<rparr>)
      in if awaits_first st1 then first_block sip src st1 else st1)"

lemma handler_data:
  assumes "b < 65536" and "TftpOurPort st = ours" and "udp_packet_handler st = Udp_TftpHandler"
    and "TftpState st = STATE_SEND_RRQ \<or> TftpState st \<in> {STATE_OACK, STATE_DATA} \<and> TftpRemotePort st = port"
    and "awaits_first st \<Longrightarrow> k = 1"
  shows "handle_event up (block_event f b k junk ours sip port) st =
    accept_block (data_pkt f b k @ junk) (of_nat (length (chunk f b k))) (after_block sip port k st)"
proof -
  define n where "n = length (chunk f b k)"
  have n: "n < 65536" using assms(1) by (simp add: n_def chunk_def)
  have len: "length (data_pkt f b k) = n + 4" by (simp add: data_pkt_chunk n_def)
  have u: "unat (of_nat j :: u32) = j" if "j < 65540" for j
    using that by (simp add: unat_of_nat take_bit_nat_eq_self)
  have "unat (of_nat (n + 4) :: u32) = n + 4" "unat (of_nat (n + 2) :: u32) = n + 2"
    by (rule u; use n in simp)+
  then have l4: "\<not> (of_nat (n + 4) :: u32) < 2" "\<not> (of_nat (n + 2) :: u32) < 2"
    unfolding word_less_nat_alt by (simp_all only:) simp_all
  have l2: "(of_nat (n + 4) :: u32) - 2 = of_nat (n + 2)" "(of_nat (n + 2) :: u32) - 2 = of_nat n" by simp_all
  have st1: "awaits_first (update_block_number (st\<lparr>TftpBlock := x\<rparr>)) = awaits_first st" for x
    by (simp add: awaits_first_def update_block_number_def)
  have blk: "TftpBlock (after_block sip port k st) = of_nat (k mod 65536)"
    by (simp add: after_block_def update_block_number_def first_block_def new_transfer_def Let_def)
  have g: "get16 (data_pkt f b k @ junk) 0 = Some TFTP_DATA" "get16 (data_pkt f b k @ junk) 2 = Some (of_nat k)"
    by (simp_all add: data_pkt_chunk)
  have "handle_event up (block_event f b k junk ours sip port) st =
      handle_data up (data_pkt f b k @ junk) sip port (of_nat (n + 2)) st"
    unfolding block_event_def handle_event.simps udp_deliver.simps TftpHandler_def len using assms(2-4) l4 l2
    by (auto simp: g TFTP_DATA_def TFTP_OACK_def simp del: of_nat_add)
  also have "\<dots> = accept_block (data_pkt f b k @ junk) (of_nat n) (after_block sip port k st)"
    unfolding handle_data_def using l4 l2 assms(5) blk
    by (auto simp: g st1 after_block_def Let_def simp del: of_nat_add)
  finally show ?thesis by (simp add: n_def)
qed

lemma after_block_received:
  fixes sip :: u32
  assumes "received f b ours port base m k st" and "b < 65536" and "patience t st"
  defines "st' \<equiv> after_block sip port (k + 1) st"
  shows "TftpState st' = STATE_DATA" and "TftpRemotePort st' = port" and "TftpLastBlock st' = of_nat (k mod 65536)"
    and "TftpBlock st' = of_nat ((k + 1) mod 65536)"
    and "TftpBlockWrapOffset st' = of_nat ((k + 1) div 65536 * 65536 * b)"
    and "net_state st' = NETLOOP_CONTINUE" and "TftpOurPort st' = ours" and "TftpBlkSize st' = of_nat b"
    and "net_load_addr st' = base" and "ram st' = ram st" and "NetBootFileXferSize st' = NetBootFileXferSize st"
    and "TftpTimeoutCount st' + int t \<le> TIMEOUT_COUNT \<or> TftpTimeoutCount st' = 0"
    and "udp_packet_handler st' = Udp_TftpHandler"
proof -
  note defs = st'_def after_block_def update_block_number_def first_block_def new_transfer_def awaits_first_def Let_def
  have b: "TftpBlkSize st = of_nat b" using assms(1) by (simp add: received_def)
  show "TftpBlock st' = of_nat ((k + 1) mod 65536)" "net_state st' = NETLOOP_CONTINUE" "TftpOurPort st' = ours"
    "TftpBlkSize st' = of_nat b" "net_load_addr st' = base" "ram st' = ram st"
    "NetBootFileXferSize st' = NetBootFileXferSize st"
    "TftpTimeoutCount st' + int t \<le> TIMEOUT_COUNT \<or> TftpTimeoutCount st' = 0"
    "udp_packet_handler st' = Udp_TftpHandler"
    using assms(1,3) by (auto simp: defs received_def patience_def)
  show "TftpState st' = STATE_DATA" "TftpRemotePort st' = port" "TftpLastBlock st' = of_nat (k mod 65536)"
    using assms(1) by (auto simp: defs received_def split: if_splits)
  define r where "r = (k + 1) mod 65536"
  have z: "(of_nat r :: u32) = 0 \<longleftrightarrow> r = 0"
    by (simp add: r_def word_eq_iff_unsigned [where ?'a = nat] unsigned_of_nat take_bit_eq_mod mod_mod_cancel del: unsigned_eq_0_iff)
  show "TftpBlockWrapOffset st' = of_nat ((k + 1) div 65536 * 65536 * b)"
  proof (cases "k = 0")
    case True
    then show ?thesis using assms(1) by (auto simp: defs received_def)
  next
    case False
    have "TftpBlockWrapOffset st' =
        (if r = 0 then TftpBlockWrapOffset st + ucast (TftpBlkSize st) * TFTP_SEQUENCE_SIZE
         else TftpBlockWrapOffset st)"
      using False assms(1) unfolding received_def st'_def after_block_def r_def [symmetric]
      by (simp add: defs z del: of_nat_eq_0_iff)
    also have "\<dots> = of_nat (if (k + 1) mod 65536 = 0 then k div 65536 * 65536 * b + b * 65536 else k div 65536 * 65536 * b)"
      using False assms(1) unfolding r_def b ucast_size [OF assms(2)] TFTP_SEQUENCE_SIZE_def received_def by simp
    finally show ?thesis unfolding wrap_step .
  qed
qed

text \<open>The next block is stored, counted and acknowledged; a short one ends the transfer.\<close>

lemma take_chunk: "take (k * b) f @ chunk f b (k + 1) = take ((k + 1) * b) f"
  by (simp only: chunk_def add_diff_cancel_right' add_mult_distrib mult_1 take_add)

lemma chunk_length: "k * b \<le> length f \<Longrightarrow> k * b + length (chunk f b (k + 1)) = min ((k + 1) * b) (length f)"
  by (simp add: chunk_def min_def) linarith

lemma n_blocks_iff: "0 < b \<Longrightarrow> k < n_blocks f b \<longleftrightarrow> k * b \<le> length f"
  by (simp add: n_blocks_def less_eq_div_iff_mult_less_eq less_Suc_eq_le)

lemma store_next:
  assumes kb: "k * b \<le> length f" and "b < 65536" and "length f < 2 ^ 32"
    and st: "TftpBlock st = of_nat ((k + 1) mod 65536)" "TftpBlockWrapOffset st = of_nat ((k + 1) div 65536 * 65536 * b)"
      "TftpBlkSize st = of_nat b" "ram st = store_bytes (net_load_addr st) (take (k * b) f) m"
      "NetBootFileXferSize st = of_nat (min (k * b) (length f))"
  shows "store_block (TftpBlock st - 1) (chunk f b (k + 1)) st =
    st\<lparr>ram := store_bytes (net_load_addr st) (take ((k + 1) * b) f) m,
       NetBootFileXferSize := of_nat (min ((k + 1) * b) (length f))\<rparr>"
proof -
  let ?c = "chunk f b (k + 1)"
  define new where "new = min ((k + 1) * b) (length f)"
  have off: "(TftpBlock st - 1) * ucast (TftpBlkSize st) + TftpBlockWrapOffset st = of_nat (k * b)"
    unfolding st ucast_size [OF assms(2)] by (rule block_offset)
  have pos: "length (take (k * b) f) = k * b" "k * b + length ?c \<le> 2 ^ 32"
    using kb assms(3) chunk_length [OF kb] by simp_all
  have mem: "store_bytes (net_load_addr st + of_nat (k * b)) ?c (ram st) =
      store_bytes (net_load_addr st) (take ((k + 1) * b) f) m"
    using store_bytes_append [of "take (k * b) f" ?c "net_load_addr st" m] pos unfolding take_chunk st(4) by simp
  have size: "of_nat (k * b) + of_nat (length ?c) = (of_nat new :: u32)"
    using chunk_length [OF kb] unfolding new_def by (simp only: of_nat_add [symmetric])
  have "k * b \<le> new" "new < 2 ^ 32" using kb assms(3) by (auto simp: new_def)
  then have grow: "\<not> of_nat (k * b) < (of_nat new :: u32) \<Longrightarrow> of_nat (k * b) = (of_nat new :: u32)"
    by (simp add: word_less_nat_alt unat_of_nat take_bit_nat_eq_self del: of_nat_mult)
  have old: "NetBootFileXferSize st = of_nat (k * b)" using kb by (simp only: st min_absorb1)
  show ?thesis using grow
    unfolding store_block_def Let_def off size mem new_def [symmetric] by (auto simp: old simp del: of_nat_mult)
qed

lemma block_advances: "(of_nat ((k + 1) mod 65536) :: u32) \<noteq> of_nat (k mod 65536)"
proof -
  have "(k + 1) mod 65536 \<noteq> k mod 65536" by (simp add: mod_Suc)
  then show ?thesis
    by (simp add: word_eq_iff_unsigned [where ?'a = nat] unsigned_of_nat take_bit_eq_mod mod_mod_cancel)
qed

lemma accept_next:
  assumes "k * b \<le> length f" and "0 < b" and "b < 65536" and "length f < 2 ^ 32"
    and st: "TftpState st = STATE_DATA" "TftpLastBlock st = of_nat (k mod 65536)"
      "TftpBlock st = of_nat ((k + 1) mod 65536)" "TftpBlockWrapOffset st = of_nat ((k + 1) div 65536 * 65536 * b)"
      "TftpBlkSize st = of_nat b" "ram st = store_bytes (net_load_addr st) (take (k * b) f) m"
      "NetBootFileXferSize st = of_nat (min (k * b) (length f))"
  defines "c \<equiv> chunk f b (k + 1)"
  shows "\<exists>st'. accept_block (data_pkt f b (k + 1) @ junk) (of_nat (length c)) st = Some st' \<and>
    TftpState st' = STATE_DATA \<and> TftpLastBlock st' = of_nat ((k + 1) mod 65536) \<and> TftpBlock st' = TftpBlock st \<and>
    TftpBlockWrapOffset st' = TftpBlockWrapOffset st \<and> TftpBlkSize st' = TftpBlkSize st \<and>
    TftpOurPort st' = TftpOurPort st \<and> TftpRemotePort st' = TftpRemotePort st \<and> net_load_addr st' = net_load_addr st \<and>
    TftpTimeoutCount st' = TftpTimeoutCount st \<and> TftpTimeoutCountMax st' = TIMEOUT_COUNT \<and>
    net_state st' = (if length c < b then NETLOOP_SUCCESS else net_state st) \<and>
    ram st' = store_bytes (net_load_addr st) (take ((k + 1) * b) f) m \<and>
    NetBootFileXferSize st' = of_nat (min ((k + 1) * b) (length f)) \<and>
    udp_packet_handler st' = udp_packet_handler st \<and> timeHandler st' \<noteq> Some Th_startAgainTimeout \<and>
    udp_out st' = udp_out st @ [(TftpRemoteIP st, TftpRemotePort st, TftpOurPort st, be16 TFTP_ACK @ be16 (of_nat (k + 1)))]"
proof -
  have cl: "length c < 65536" using assms(3) by (simp add: c_def chunk_def)
  have uc: "unat (of_nat (length c) :: u32) = length c" using cl by (simp add: unat_of_nat take_bit_nat_eq_self)
  have short: "(of_nat (length c) < (of_nat b :: u32)) = (length c < b)"
    using uc assms(3) by (simp add: word_less_nat_alt unat_of_nat take_bit_nat_eq_self)
  have ne: "TftpBlock st \<noteq> TftpLastBlock st" unfolding st by (rule block_advances)
  have len: "\<not> length (data_pkt f b (k + 1) @ junk) < 4 + length c" by (simp add: data_pkt_chunk c_def)
  have src: "take (length c) (drop 4 (data_pkt f b (k + 1) @ junk)) = c" by (simp add: data_pkt_chunk c_def)
  define st1 where "st1 = NetSetTimeout (TftpTimeoutMSecs st) (Some Th_TftpTimeout)
    (st\<lparr>TftpLastBlock := TftpBlock st, TftpTimeoutCountMax := TIMEOUT_COUNT\<rparr>)"
  note fields = st1_def NetSetTimeout_def
  have la: "net_load_addr st1 = net_load_addr st" by (simp add: fields)
  have "TftpBlock st1 = TftpBlock st" "TftpBlockWrapOffset st1 = TftpBlockWrapOffset st" "TftpBlkSize st1 = TftpBlkSize st"
    "ram st1 = ram st" "NetBootFileXferSize st1 = NetBootFileXferSize st" by (simp_all add: fields)
  note s1 = this [unfolded st(3,4,5,7), unfolded st(6), folded la]
  have sb: "store_block (TftpBlock st1 - 1) c st1 =
    st1\<lparr>ram := store_bytes (net_load_addr st) (take ((k + 1) * b) f) m,
       NetBootFileXferSize := of_nat (min ((k + 1) * b) (length f))\<rparr>"
    unfolding c_def la [symmetric] by (rule store_next [OF assms(1,3,4) s1])
  have ack: "ucast (of_nat ((k + 1) mod 65536) :: u32) = (of_nat (k + 1) :: u16)"
    by (simp only: word_eq_iff_unsigned [where ?'a = nat])
      (simp add: unsigned_ucast_eq unsigned_of_nat take_bit_eq_mod mod_mod_cancel del: of_nat_Suc of_nat_add)
  show ?thesis
    unfolding accept_block_def Let_def uc src st1_def [symmetric] sb
    using ne len st short ack
    by (simp add: TftpSend_def tftp_payload_def tftp_complete_def net_set_state_def mod_less [OF assms(3)] fields
        del: of_nat_mult of_nat_Suc of_nat_add)
qed

lemma received_pos:
  "received f b ours port base m (k + 1) st \<longleftrightarrow>
     net_state st = NETLOOP_CONTINUE \<and> udp_packet_handler st = Udp_TftpHandler \<and> timeHandler st \<noteq> Some Th_startAgainTimeout \<and>
     TftpOurPort st = ours \<and> TftpBlkSize st = of_nat b \<and> net_load_addr st = base \<and>
     ram st = store_bytes base (take ((k + 1) * b) f) m \<and> NetBootFileXferSize st = of_nat (min ((k + 1) * b) (length f)) \<and>
     TftpBlock st = of_nat ((k + 1) mod 65536) \<and> TftpState st = STATE_DATA \<and> TftpRemotePort st = port \<and>
     TftpLastBlock st = of_nat ((k + 1) mod 65536) \<and> TftpBlockWrapOffset st = of_nat ((k + 1) div 65536 * 65536 * b)"
  by (simp add: received_def)

text \<open>The end of a transfer: the file is in memory, its size is known and the last block is acknowledged.\<close>

definition transferred :: "char list \<Rightarrow> nat \<Rightarrow> u32 \<Rightarrow> u32 \<Rightarrow> u32 \<Rightarrow> (u32 \<Rightarrow> char) \<Rightarrow> tftp \<Rightarrow> bool" where
  "transferred f b ours port base m st \<longleftrightarrow>
     net_state st = NETLOOP_SUCCESS \<and> ram st = store_bytes base f m \<and> NetBootFileXferSize st = of_nat (length f) \<and>
     net_load_addr st = base \<and>
     udp_out st \<noteq> [] \<and> snd (last (udp_out st)) = (port, ours, be16 TFTP_ACK @ be16 (of_nat (n_blocks f b)))"

lemma chunk_short: "0 < b \<Longrightarrow> k < n_blocks f b \<Longrightarrow> length (chunk f b (k + 1)) < b \<longleftrightarrow> k + 1 = n_blocks f b"
  using n_blocks_iff [of b k f] n_blocks_iff [of b "k + 1" f] by (auto simp: chunk_def)

lemma block_step:
  assumes r: "received f b ours port base m k st" and p: "patience t st" and k: "k < n_blocks f b"
    and b: "0 < b" "b < 65536" and f: "length f < 2 ^ 32"
  obtains st' where "handle_event up (block_event f b (k + 1) junk ours sip port) st = Some st'"
    and "if k + 1 = n_blocks f b then transferred f b ours port base m st'
         else received f b ours port base m (k + 1) st' \<and> (t \<le> 10 \<longrightarrow> patience t st')"
proof -
  let ?a = "after_block sip port (k + 1) st"
  note a = after_block_received [OF r b(2) p, of sip]
  have kb: "k * b \<le> length f" using k n_blocks_iff [OF b(1)] by blast
  have ram: "ram ?a = store_bytes (net_load_addr ?a) (take (k * b) f) m" using r a(9,10) by (simp add: received_def)
  have xs: "NetBootFileXferSize ?a = of_nat (min (k * b) (length f))" using r a(11) by (simp add: received_def)
  obtain st' where acc: "accept_block (data_pkt f b (k + 1) @ junk) (of_nat (length (chunk f b (k + 1)))) ?a = Some st'"
    and st': "TftpState st' = STATE_DATA" "TftpLastBlock st' = of_nat ((k + 1) mod 65536)" "TftpBlock st' = TftpBlock ?a"
      "TftpBlockWrapOffset st' = TftpBlockWrapOffset ?a" "TftpBlkSize st' = TftpBlkSize ?a"
      "TftpOurPort st' = TftpOurPort ?a" "TftpRemotePort st' = TftpRemotePort ?a" "net_load_addr st' = net_load_addr ?a"
      "TftpTimeoutCount st' = TftpTimeoutCount ?a" "TftpTimeoutCountMax st' = TIMEOUT_COUNT"
      "net_state st' = (if length (chunk f b (k + 1)) < b then NETLOOP_SUCCESS else net_state ?a)"
      "ram st' = store_bytes (net_load_addr ?a) (take ((k + 1) * b) f) m"
      "NetBootFileXferSize st' = of_nat (min ((k + 1) * b) (length f))"
      "udp_packet_handler st' = udp_packet_handler ?a" "timeHandler st' \<noteq> Some Th_startAgainTimeout"
      "udp_out st' = udp_out ?a @ [(TftpRemoteIP ?a, TftpRemotePort ?a, TftpOurPort ?a, be16 TFTP_ACK @ be16 (of_nat (k + 1)))]"
    using accept_next [OF kb b f a(1,3,4,5,8) ram xs, of junk] by blast
  have he: "handle_event up (block_event f b (k + 1) junk ours sip port) st = Some st'"
    by (subst handler_data) (use r b acc in \<open>auto simp: received_def awaits_first_def split: if_splits\<close>)
  have "if k + 1 = n_blocks f b then transferred f b ours port base m st'
      else received f b ours port base m (k + 1) st' \<and> (t \<le> 10 \<longrightarrow> patience t st')"
  proof (cases "k + 1 = n_blocks f b")
    case True
    then have le: "length f \<le> (k + 1) * b" using n_blocks_iff [OF b(1), of "k + 1" f] by simp
    then have "take ((k + 1) * b) f = f" "min ((k + 1) * b) (length f) = length f" by simp_all
    with st'(12,13) have "ram st' = store_bytes base f m" "NetBootFileXferSize st' = of_nat (length f)"
      using a(9) by simp_all
    then show ?thesis using True st'(8,11,16) a(2,6,7,9) chunk_short [OF b(1) k]
      unfolding transferred_def by (simp del: of_nat_Suc of_nat_add)
  next
    case False
    then show ?thesis using st' a chunk_short [OF b(1) k]
      unfolding received_pos patience_def TIMEOUT_COUNT_def by auto
  qed
  with he show ?thesis by (rule that)
qed

text \<open>The other events of a schedule change nothing that matters.\<close>

lemma repeated_block:
  assumes r: "received f b ours port base m k st" and "k mod 65536 \<noteq> 0" and "b < 65536"
  shows "handle_event up (block_event f b k junk ours sip port) st = Some st"
proof -
  have k: "k \<noteq> 0" using assms(2) by auto
  have z: "(of_nat (k mod 65536) :: u32) \<noteq> 0"
    using assms(2) by (simp add: word_eq_iff_unsigned [where ?'a = nat] unsigned_of_nat take_bit_eq_mod mod_mod_cancel
        del: unsigned_eq_0_iff)
  have "after_block sip port k st = st"
    using r k z by (simp add: after_block_def update_block_number_def received_def awaits_first_def)
  then show ?thesis
    by (subst handler_data) (use r k assms(3) in \<open>auto simp: received_def awaits_first_def accept_block_def\<close>)
qed

lemma stray_event:
  assumes "received f b ours port base m k st" and "stray ours e" and "patience t st"
  shows "\<exists>st'. handle_event up e st = Some st' \<and> received f b ours port base m k st' \<and> patience t st' \<and>
    TftpState st' = TftpState st"
proof (cases e)
  case (Datagram pkt dest sip src len)
  have "TftpOurPort st = ours" "udp_packet_handler st = Udp_TftpHandler" using assms(1) by (simp_all add: received_def)
  then have "handle_event up e st = Some st"
    using assms(2) Datagram by (auto simp: TftpHandler_def TFTP_OACK_def TFTP_DATA_def TFTP_ERROR_def)
  then show ?thesis using assms(1,3) by blast
next
  case (Wait c)
  then show ?thesis using assms(1,3) by (simp add: received_def patience_def)
qed (use assms in simp)

lemma tick_event:
  assumes "received f b ours port base m k st" and "patience (t + 1) st"
  shows "\<exists>st'. handle_event up Tick st = Some st' \<and> received f b ours port base m k st' \<and> patience t st' \<and>
    TftpState st' = TftpState st"
  using assms
  by (cases "timeHandler st" rule: option.exhaust; cases "the (timeHandler st)")
    (auto simp: call_timeHandler_def TftpTimeout_def Let_def patience_def received_def NetSetTimeout_def TftpSend_def)

section \<open>Transfers end\<close>

lemma schedule_run:
  assumes "schedule f b ours port k t es" and "0 < k" and "received f b ours port base m (k - 1) st" and "patience t st"
    and "0 < b" "b < 65536" and "length f < 2 ^ 32" and "t \<le> 10" and "k \<le> n_blocks f b"
  shows "\<exists>st'. tftp_run up es st = Some st' \<and> transferred f b ours port base m st'"
  using assms
proof (induction arbitrary: st rule: schedule.induct)
  case (last_block t junk sip es)
  obtain k where n: "n_blocks f b = k + 1" by (simp add: n_blocks_def)
  obtain st' where "handle_event up (block_event f b (k + 1) junk ours sip port) st = Some st'"
    "transferred f b ours port base m st'"
    by (rule block_step [of f b ours port base m k st t up junk sip]) (use last_block n in simp_all)
  moreover have "net_state st = NETLOOP_CONTINUE" using last_block(2) by (simp add: received_def)
  moreover have "tftp_run up es st' = Some st'" using calculation(2) by (cases es) (auto simp: transferred_def)
  ultimately show ?case by (simp add: n)
next
  case (next_block k t es junk sip)
  obtain st' where "handle_event up (block_event f b (k - 1 + 1) junk ours sip port) st = Some st'"
    "received f b ours port base m (k - 1 + 1) st'" "patience t st'"
    by (rule block_step [of f b ours port base m "k - 1" st t up junk sip]) (use next_block.prems next_block.hyps(1) in simp_all)
  moreover have "net_state st = NETLOOP_CONTINUE" using next_block.prems(2) by (simp add: received_def)
  ultimately show ?case
    using next_block.IH [of st'] next_block.prems next_block.hyps(1) by simp
next
  case (repeated k t es junk sip)
  moreover have "net_state st = NETLOOP_CONTINUE" using repeated.prems(2) by (simp add: received_def)
  ultimately show ?case using repeated_block [of f b ours port base m k st up junk sip] by simp
next
  case (other e k t es)
  moreover have "net_state st = NETLOOP_CONTINUE" using other.prems(2) by (simp add: received_def)
  ultimately show ?case using stray_event [of f b ours port base m "k - 1" st e t up] by auto
next
  case (timeout k t es)
  then obtain st' where "handle_event up Tick st = Some st'" "received f b ours port base m (k - 1) st'" "patience t st'"
    using tick_event by blast
  moreover have "net_state st = NETLOOP_CONTINUE" using timeout.prems(2) by (simp add: received_def)
  ultimately show ?case using timeout by (simp del: handle_event.simps)
qed

section \<open>Sessions\<close>

text \<open>The option acknowledgement of a server: the block size in decimal, or no block size, with other options (none of which contains the
  letter \<open>b\<close>) before and behind it. The request asks for the options \<open>timeout\<close> and \<open>blksize\<close> only.\<close>

definition size_option :: "nat option \<Rightarrow> string" where
  "size_option bo = (case bo of None \<Rightarrow> [] | Some b \<Rightarrow> ''blksize'' @ [NUL] @ dec b @ [NUL])"

definition agreed_size :: "nat option \<Rightarrow> nat" where
  "agreed_size bo = (case bo of None \<Rightarrow> 512 | Some b \<Rightarrow> b)"

definition oack_pkt :: "string \<Rightarrow> nat option \<Rightarrow> string \<Rightarrow> mem" where
  "oack_pkt opts bo opts' = be16 TFTP_OACK @ opts @ size_option bo @ opts'"

definition oack_event :: "string \<Rightarrow> nat option \<Rightarrow> string \<Rightarrow> char list \<Rightarrow> u32 \<Rightarrow> u32 \<Rightarrow> u32 \<Rightarrow> tftp_event" where
  "oack_event opts bo opts' junk dest sip src =
     Datagram (oack_pkt opts bo opts' @ junk) dest sip src (of_nat (length (oack_pkt opts bo opts')))"

definition oack_ok :: "string \<Rightarrow> nat option \<Rightarrow> string \<Rightarrow> bool" where
  "oack_ok opts bo opts' \<longleftrightarrow>
     CHR ''b'' \<notin> set opts \<and> CHR ''b'' \<notin> set opts' \<and> length opts < 1000 \<and> length opts' < 1000 \<and>
     0 < agreed_size bo \<and> agreed_size bo < 65536"

text \<open>A server answers a request either at once with blocks of 512 bytes or by acknowledging options, with an acknowledgement that may
  be repeated until its first block; requests and answers may be lost before.\<close>

inductive agreed :: "char list \<Rightarrow> u32 \<Rightarrow> u32 \<Rightarrow> nat option \<Rightarrow> nat \<Rightarrow> tftp_event list \<Rightarrow> bool" for f ours port bo where
  begins: "schedule f (agreed_size bo) ours port 1 t es \<Longrightarrow> agreed f ours port bo t es"
| again: "oack_ok opts bo opts' \<Longrightarrow> agreed f ours port bo t es \<Longrightarrow> agreed f ours port bo t (oack_event opts bo opts' junk ours sip port # es)"
| late: "agreed f ours port bo t es \<Longrightarrow> agreed f ours port bo (t + 1) (Tick # es)"
| between: "stray ours e \<Longrightarrow> agreed f ours port bo t es \<Longrightarrow> agreed f ours port bo t (e # es)"

inductive session :: "char list \<Rightarrow> u32 \<Rightarrow> u32 \<Rightarrow> nat \<Rightarrow> nat \<Rightarrow> tftp_event list \<Rightarrow> bool" for f ours port where
  plain: "schedule f 512 ours port 1 t es \<Longrightarrow> session f ours port 512 t es"
| options: "oack_ok opts bo opts' \<Longrightarrow> agreed f ours port bo t es \<Longrightarrow>
    session f ours port (agreed_size bo) t (oack_event opts bo opts' junk ours sip port # es)"
| lost: "session f ours port b t es \<Longrightarrow> session f ours port b (t + 1) (Tick # es)"
| noise: "stray ours e \<Longrightarrow> session f ours port b t es \<Longrightarrow> session f ours port b t (e # es)"

lemma oack_loop_append: "oack_loop m i (n + n') bs = do { bs' \<leftarrow> oack_loop m i n bs; oack_loop m (i + n) n' bs' }"
  by (induction n arbitrary: i bs) (auto split: option.splits bind_splits)

lemma oack_loop_skip:
  "2 + i + n \<le> length m \<Longrightarrow> \<forall>j<n. m ! (2 + i + j) \<noteq> CHR ''b'' \<Longrightarrow> oack_loop m i n bs = Some bs"
proof (induction n arbitrary: i)
  case (Suc n)
  have "m ! Suc (Suc i) \<noteq> CHR ''b''" using Suc.prems(2) [rule_format, of 0] by simp
  moreover have "oack_loop m (i + 1) n bs = Some bs"
    using Suc.prems(1) Suc.prems(2) [rule_format, of "Suc j" for j] by (intro Suc.IH) auto
  ultimately show ?case using Suc.prems(1) by (simp add: rd_def)
qed simp

lemma strcmp_lit_match: "strcmp_lit (pre @ xs @ NUL # r) (length pre) xs = Some True"
proof (induction xs arbitrary: pre)
  case (Cons x xs)
  then show ?case using Cons.IH [of "pre @ [x]"] by (simp add: rd_def)
qed (simp add: rd_def)

lemma rdec_length: "length (rdec n) \<le> n + 1"
proof (induction n rule: less_induct)
  case (less n)
  show ?case
  proof (cases "n < 10")
    case False
    then have "length (rdec n) = length (rdec (n div 10)) + 1" by (subst rdigits.simps) simp
    then show ?thesis using less.IH [of "n div 10"] False by simp
  qed (subst rdigits.simps, simp)
qed

lemma dec_no_b: "CHR ''b'' \<notin> set (dec n)"
  using dec_isdigit [of "CHR ''b''" n] by (auto simp: is_digit_def)

lemma no_b_nth: "CHR ''b'' \<notin> set xs \<Longrightarrow> j < length xs \<Longrightarrow> (xs @ ys) ! j \<noteq> CHR ''b''"
  by (metis nth_append nth_mem)

lemma oack_found:
  assumes "CHR ''b'' \<notin> set opts" and "CHR ''b'' \<notin> set opts'"
  shows "oack_loop (oack_pkt opts (Some b) opts' @ junk) 0 (length opts + (1 + (length (dec b) + length opts'))) bs = Some (of_nat b)"
proof -
  define m where "m = oack_pkt opts (Some b) opts' @ junk"
  let ?L = "length opts"
  have m: "m = be16 TFTP_OACK @ opts @ ''blksize'' @ NUL # (dec b @ NUL # opts' @ junk)" by (simp add: m_def oack_pkt_def size_option_def)
  have "\<forall>j<?L. m ! (2 + 0 + j) \<noteq> CHR ''b''"
    using no_b_nth [OF assms(1)] by (simp add: m nth_append)
  then have 1: "oack_loop m 0 ?L bs = Some bs" by (intro oack_loop_skip) (simp_all add: m)
  have eq: "strcmp_lit m (2 + ?L) ''blksize'' = Some True"
    using strcmp_lit_match [of "be16 TFTP_OACK @ opts" "''blksize''" "dec b @ NUL # opts' @ junk"] by (simp add: m)
  have "\<not> isxdigit NUL" by code_simp
  then have "simple_strtoul (drop (2 + ?L + 8) m) 10 = (of_nat b, NUL # opts' @ junk)"
    using strtoul_dec [of "NUL # opts' @ junk" b] by (simp add: m)
  then have 2: "oack_loop m ?L 1 bs = Some (of_nat b)"
    using eq by (simp add: numeral_eq_Suc) (simp add: word_eq_iff_unsigned [where ?'a = nat] unsigned_ucast_eq
        unsigned_of_nat take_bit_eq_mod mod_mod_cancel)
  define rest where "rest = ''lksize'' @ NUL # dec b @ NUL # opts'"
  have rest: "m = (be16 TFTP_OACK @ opts @ ''b'') @ rest @ junk" "CHR ''b'' \<notin> set rest" "length (dec b) + length opts' < length rest"
    using assms(2) dec_no_b [of b] by (simp_all add: m rest_def)
  have "\<forall>j<length (dec b) + length opts'. m ! (2 + (?L + 1) + j) \<noteq> CHR ''b''"
    using no_b_nth [OF rest(2), of _ junk] rest(3) by (simp add: rest(1) nth_append)
  then have 3: "oack_loop m (?L + 1) (length (dec b) + length opts') (of_nat b) = Some (of_nat b)"
    using rest(3) by (intro oack_loop_skip) (simp_all add: rest(1))
  show ?thesis
    unfolding m_def [symmetric] oack_loop_append [of m 0 ?L] oack_loop_append [of m "0 + ?L" 1]
    by (simp only: bind.bind_lunit add_0 1 2 3)
qed

lemma oack_absent:
  assumes "CHR ''b'' \<notin> set opts" and "CHR ''b'' \<notin> set opts'"
  shows "oack_loop (oack_pkt opts None opts' @ junk) 0 (length (opts @ opts') - 8) bs = Some bs"
  using assms no_b_nth [of "opts @ opts'" _ junk]
  by (intro oack_loop_skip) (simp_all add: oack_pkt_def size_option_def nth_append)

lemma oack_loop_pkt:
  assumes "oack_ok opts bo opts'" and "bo = None \<Longrightarrow> bs = 512"
  shows "oack_loop (oack_pkt opts bo opts' @ junk) 0 (length (oack_pkt opts bo opts') - 2 - 8) bs = Some (of_nat (agreed_size bo))"
proof (cases bo)
  case None
  then show ?thesis
    using oack_absent [of opts opts' junk bs] assms by (simp add: oack_ok_def agreed_size_def oack_pkt_def size_option_def)
next
  case (Some b)
  moreover have "length (oack_pkt opts bo opts') - 2 - 8 = length opts + (1 + (length (dec b) + length opts'))"
    by (simp add: Some oack_pkt_def size_option_def)
  ultimately show ?thesis
    using oack_found [of opts opts' b junk bs] assms by (simp add: oack_ok_def agreed_size_def)
qed

lemma length_oack_pkt: "oack_ok opts bo opts' \<Longrightarrow> 2 \<le> length (oack_pkt opts bo opts') \<and> length (oack_pkt opts bo opts') < 70000"
  using rdec_length [of "agreed_size bo"]
  by (cases bo) (auto simp: oack_ok_def agreed_size_def oack_pkt_def size_option_def dec_def)

lemma oack_step:
  assumes "received f b ours port base m 0 st" and "patience t st" and ok: "oack_ok opts bo opts'"
    and "b = 512 \<or> b = agreed_size bo"
  shows "\<exists>st'. handle_event up (oack_event opts bo opts' junk ours sip port) st = Some st' \<and>
    received f (agreed_size bo) ours port base m 0 st' \<and> patience t st'"
proof -
  define n where "n = length (oack_pkt opts bo opts')"
  have n: "2 \<le> n" "n < 70000" using length_oack_pkt [OF ok] by (simp_all add: n_def)
  have u: "unat (of_nat n :: u32) = n" using n(2) by (simp add: unat_of_nat take_bit_nat_eq_self)
  then have l: "\<not> (of_nat n :: u32) < 2" using n(1) by (simp add: word_less_nat_alt)
  then have "unat ((of_nat n :: u32) - 2) = n - 2" by (simp add: unat_sub u word_le_nat_alt word_less_nat_alt)
  then have l2: "unat ((of_nat n :: u32) - 2) - 8 = n - 2 - 8" by simp
  have bs: "bo = None \<Longrightarrow> TftpBlkSize st = 512" using assms(1,4) by (auto simp: received_def agreed_size_def)
  have "handle_event up (oack_event opts bo opts' junk ours sip port) st =
      handle_oack (oack_pkt opts bo opts' @ junk) port (of_nat n - 2) st"
    unfolding oack_event_def handle_event.simps udp_deliver.simps TftpHandler_def n_def [symmetric] using assms(1) l
    by (auto simp: received_def oack_pkt_def)
  also have "\<dots> = Some (TftpSend (st\<lparr>TftpState := STATE_OACK, TftpRemotePort := port, TftpBlkSize := of_nat (agreed_size bo)\<rparr>))"
    unfolding handle_oack_def Let_def l2 using oack_loop_pkt [OF ok bs, of junk] by (simp add: n_def)
  finally show ?thesis using assms(1,2) by (auto simp: received_def patience_def TftpSend_def)
qed

lemma agreed_run:
  assumes "agreed f ours port bo t es" and "received f (agreed_size bo) ours port base m 0 st" and "patience t st"
    and "length f < 2 ^ 32" and "t \<le> 10" and "0 < agreed_size bo" "agreed_size bo < 65536"
  shows "\<exists>st'. tftp_run up es st = Some st' \<and> transferred f (agreed_size bo) ours port base m st'"
  using assms
proof (induction arbitrary: st rule: agreed.induct)
  case (begins t es)
  then show ?case by (intro schedule_run [where k = 1]) (auto simp: n_blocks_def)
next
  case (again opts opts' t es junk sip)
  moreover have "net_state st = NETLOOP_CONTINUE" using again.prems(1) by (simp add: received_def)
  ultimately show ?case
    using oack_step [of f "agreed_size bo" ours port base m st t opts bo opts' up junk sip] by auto
next
  case (late t es)
  obtain st' where st': "handle_event up Tick st = Some st'" "received f (agreed_size bo) ours port base m 0 st'" "patience t st'"
    using tick_event [of f "agreed_size bo" ours port base m 0 st t up] late.prems by auto
  moreover have "net_state st = NETLOOP_CONTINUE" using late.prems(1) by (simp add: received_def)
  ultimately show ?case using late.IH [of st'] late.prems by (simp del: handle_event.simps)
next
  case (between e t es)
  moreover have "net_state st = NETLOOP_CONTINUE" using between.prems(1) by (simp add: received_def)
  ultimately show ?case using stray_event [of f "agreed_size bo" ours port base m 0 st e t up] by auto
qed

lemma session_run:
  assumes "session f ours port b t es" and "received f 512 ours port base m 0 st"
    and "patience t st" and "length f < 2 ^ 32" and "t \<le> 10"
  shows "\<exists>st'. tftp_run up es st = Some st' \<and> transferred f b ours port base m st'"
  using assms
proof (induction arbitrary: st rule: session.induct)
  case (plain t es)
  then show ?case by (intro schedule_run) (auto simp: n_blocks_def)
next
  case (options opts bo opts' t es junk sip)
  obtain st' where st': "handle_event up (oack_event opts bo opts' junk ours sip port) st = Some st'"
    "received f (agreed_size bo) ours port base m 0 st'" "patience t st'"
    using oack_step [of f 512 ours port base m st t opts bo opts' up junk sip] options by blast
  then have "\<exists>st''. tftp_run up es st' = Some st'' \<and> transferred f (agreed_size bo) ours port base m st''"
    using options by (intro agreed_run) (auto simp: oack_ok_def)
  with st' options show ?case by (simp add: received_def)
next
  case (lost b t es)
  obtain st' where st': "handle_event up Tick st = Some st'" "received f 512 ours port base m 0 st'" "patience t st'"
    using tick_event [of f 512 ours port base m 0 st t up] lost.prems(1,2) by auto
  moreover have "net_state st = NETLOOP_CONTINUE" using lost.prems(1) by (simp add: received_def)
  ultimately show ?case using lost.IH [of st'] lost.prems by (simp del: handle_event.simps)
next
  case (noise e b t es)
  moreover have "net_state st = NETLOOP_CONTINUE" using noise.prems(1) by (simp add: received_def)
  ultimately show ?case using stray_event [of f 512 ours port base m 0 st e t up] by auto
qed

lemma tftp_session_ends:
  assumes "net_state st = NETLOOP_CONTINUE" and "NetBootFileXferSize st = 0"
    and "session f (TftpOurPort (TftpStart st)) port b t es"
    and "length f < 2 ^ 32" and "t \<le> 10" and "int t \<le> TftpRRQTimeoutCountMax st"
  shows "\<exists>st'. tftp_run up es (TftpStart st) = Some st' \<and>
    transferred f b (TftpOurPort (TftpStart st)) port (net_load_addr st) (ram st) st'"
proof -
  have s0: "store_bytes a [] m = m" for a m by (simp add: store_bytes_def)
  have "received f 512 (TftpOurPort (TftpStart st)) port (net_load_addr st) (ram st) 0 (TftpStart st)"
    using assms(1,2) by (simp add: received_def TftpStart_fields s0 TFTP_BLOCK_SIZE_def)
  moreover have "TftpState (TftpStart st) = STATE_SEND_RRQ" "patience t (TftpStart st)"
    using assms(5,6) by (simp_all add: patience_def TIMEOUT_COUNT_def TftpStart_fields)
  ultimately show ?thesis
    using session_run [OF assms(3), of "net_load_addr st" "ram st" "TftpStart st" up] assms(4,5) by blast
qed

text \<open>C1. A transfer ends in every session of the relation \<open>session\<close>: the server, from one port, answers the request with blocks of
  512 bytes or acknowledges options, repeatedly if need be (a block size below 65536 or none, and other options whose
  text does not contain the letter b, as that of \<open>timeout\<close>), then sends the blocks in order, past block 65535 too; the last block may be repeated unless
  its 16-bit number is 0 (the code fails there); datagrams for other ports and ignored operations may come between; and at most ten time-outs
  occur in all, and not more than the client allows for its request. The file is shorter than \<open>2 ^ 32\<close> bytes. Then, after \<open>TftpStart\<close>, the handler reaches the success
  state with the file in memory at the load address, nothing else of the memory changed, the size of the file recorded and the last
  block acknowledged.\<close>

theorem tftp_transfer_completes:
  assumes "net_state st = NETLOOP_CONTINUE" and "NetBootFileXferSize st = 0"
    and "session f (TftpOurPort (TftpStart st)) port b t es"
    and "length f < 2 ^ 32" and "t \<le> 10" and "int t \<le> TftpRRQTimeoutCountMax st"
  shows "\<exists>st'. tftp_run up es (TftpStart st) = Some st' \<and> net_state st' = NETLOOP_SUCCESS \<and>
    ram st' = store_bytes (net_load_addr st) f (ram st) \<and> NetBootFileXferSize st' = of_nat (length f) \<and>
    snd (last (udp_out st')) = (port, TftpOurPort (TftpStart st), be16 TFTP_ACK @ be16 (of_nat (n_blocks f b)))"
  using tftp_session_ends [OF assms, of up] by (auto simp: transferred_def)

text \<open>A file of two blocks; the first one arrives twice and the acknowledgement of it is repeated after a time-out.\<close>

definition file600 :: "char list" where
  "file600 = replicate 600 (CHR ''x'')"

definition events600 :: "tftp_event list" where
  "events600 = [block_event file600 512 1 [] 1024 0 5000, block_event file600 512 1 [] 1024 0 5000, Tick,
     block_event file600 512 2 [] 1024 0 5000]"

lemma session600: "session file600 1024 5000 512 1 events600"
proof -
  have n: "n_blocks file600 512 = 2" by (simp add: n_blocks_def file600_def)
  have "schedule file600 512 1024 5000 2 0 [block_event file600 512 2 [] 1024 0 5000]"
    using schedule.last_block [of file600 512 1024 5000 0 "[]" 0 "[]"] unfolding n .
  then have "schedule file600 512 1024 5000 2 1 [Tick, block_event file600 512 2 [] 1024 0 5000]"
    using schedule.timeout [of file600 512 1024 5000 2 0] by simp
  then have "schedule file600 512 1024 5000 (1 + 1) 1 [Tick, block_event file600 512 2 [] 1024 0 5000]"
    by (simp only: one_add_one)
  then have "schedule file600 512 1024 5000 1 1 events600"
    unfolding events600_def by (intro schedule.next_block schedule.repeated) (simp_all add: n)
  then show ?thesis by (rule session.plain)
qed

theorem tftp_transfer_completes_witness:
  "\<exists>st'. tftp_run (\<lambda>_ _. True) events600 (TftpStart tftp0) = Some st' \<and> net_state st' = NETLOOP_SUCCESS \<and>
    ram st' = store_bytes 0x90000000 file600 (\<lambda>_. NUL) \<and> NetBootFileXferSize st' = 600 \<and>
    snd (last (udp_out st')) = (5000, 1024, be16 TFTP_ACK @ be16 2)"
proof -
  have o: "TftpOurPort (TftpStart tftp0) = 1024" unfolding TftpStart_fields by (simp add: tftp0_def)
  have s: "net_state tftp0 = NETLOOP_CONTINUE" "NetBootFileXferSize tftp0 = 0" "net_load_addr tftp0 = 0x90000000"
    "ram tftp0 = (\<lambda>_. NUL)" "TftpRRQTimeoutCountMax tftp0 = 10" by (simp_all add: tftp0_def)
  have "length file600 = 600" "n_blocks file600 512 = 2" by (simp_all add: n_blocks_def file600_def)
  then show ?thesis
    using tftp_transfer_completes [of tftp0 file600 5000 512 1 events600 "\<lambda>_ _. True"] session600 by (simp add: o s)
qed

section \<open>Downloads through the network loop\<close>

text \<open>The events of a run of the loop: an iteration lets time pass, hands the datagrams over and calls an expired timer.\<close>

definition rx_of :: "loop_in \<Rightarrow> tftp \<Rightarrow> datagram list" where
  "rx_of i st = (if eth_current st = None then [] else in_rx i)"

fun dgram :: "datagram \<Rightarrow> tftp_event" where
  "dgram (pkt, dest, sip, src, len) = Datagram pkt dest sip src len"

fun trace :: "(nat \<Rightarrow> nat \<Rightarrow> bool) \<Rightarrow> loop_in list \<Rightarrow> tftp \<Rightarrow> tftp_event list" where
  "trace up [] st = []"
| "trace up (i # is) st =
     Wait (in_clock i) # List.map dgram (rx_of i st) @
     (case eth_rx up (rx_of i st) (st\<lparr>clock := in_clock i\<rparr>) of
        None \<Rightarrow> []
      | Some st1 \<Rightarrow>
          (if timer_expired st1 then [Tick] else []) @
          (case loop_body up i st of Some (Inl st') \<Rightarrow> trace up is st' | _ \<Rightarrow> []))"

text \<open>At most one datagram per iteration, and no control-C.\<close>

definition plain_input :: "loop_in \<Rightarrow> bool" where
  "plain_input i \<longleftrightarrow> length (in_rx i) \<le> 1 \<and> \<not> in_ctrlc i"

lemma eth_init_loop_state: "net_state (snd (eth_init_loop up n old st)) = net_state st"
  by (induction up n old st rule: eth_init_loop.induct)
    (auto simp: Let_def eth_try_another_def eth_current_changed_def net_setenv_def set_dev_state_def split: option.split)

lemma NetStartAgain_state: "net_state st = NETLOOP_CONTINUE \<Longrightarrow> net_state (NetStartAgain up st) \<noteq> NETLOOP_SUCCESS"
proof -
  have h: "net_state (eth_halt st) = net_state st" for st :: "'a net_scheme"
    by (simp add: eth_halt_def set_dev_state_def split: option.split)
  have t: "net_state (eth_try_another r st) = net_state st" for r and st :: "'a net_scheme"
    by (simp add: eth_try_another_def eth_current_changed_def net_setenv_def Let_def split: option.split)
  have e: "net_state (snd (eth_init up st)) = net_state st" for st :: "'a net_scheme"
    by (simp add: eth_init_def eth_init_loop_state Let_def split: option.split)
  show "net_state st = NETLOOP_CONTINUE \<Longrightarrow> net_state (NetStartAgain up st) \<noteq> NETLOOP_SUCCESS"
    by (simp add: NetStartAgain_def Let_def case_prod_beta net_set_state_def NetSetTimeout_def net_set_udp_handler_def h t e)
qed

text \<open>The block that ends a transfer has just set the timer again, so it does not expire in the same iteration.\<close>

lemma accept_success:
  assumes "net_state st = NETLOOP_CONTINUE" and "accept_block pkt len st = Some st'" and "net_state st' = NETLOOP_SUCCESS"
  shows "\<not> timer_expired st'"
  using assms
  by (auto simp: accept_block_def timer_expired_def Let_def NetSetTimeout_def store_block_def TftpSend_def tftp_complete_def
      net_set_state_def split: if_splits)

lemma update_state [simp]: "net_state (update_block_number st) = net_state st" "net_state (first_block sip src st) = net_state st"
  by (simp_all add: update_block_number_def first_block_def new_transfer_def Let_def)

lemma handle_data_cases:
  assumes "handle_data up pkt sip src len st = Some st'"
  shows "\<exists>st2. net_state st2 = net_state st \<and>
    (st' = st2 \<or> st' = NetStartAgain up st2 \<or> accept_block pkt (len - 2) st2 = Some st')"
proof (cases "len < 2")
  case True
  then show ?thesis using assms by (auto simp: handle_data_def)
next
  case False
  then obtain b where b: "get16 pkt 2 = Some b" using assms by (auto simp: handle_data_def bind_Some_iff)
  define st1 where "st1 = update_block_number (st\<lparr>TftpBlock := ucast b\<rparr>)"
  define st2 where "st2 = (if awaits_first st1 then first_block sip src st1 else st1)"
  have "net_state st2 = net_state st" by (simp add: st1_def st2_def)
  moreover have "st' = NetStartAgain up st2 \<or> accept_block pkt (len - 2) st2 = Some st'"
    using False b assms by (auto simp: handle_data_def st1_def [symmetric] st2_def Let_def split: if_splits)
  ultimately show ?thesis by blast
qed

lemma deliver_success:
  assumes "net_state st = NETLOOP_CONTINUE" and "udp_deliver up d st = Some st'" and "net_state st' = NETLOOP_SUCCESS"
  shows "\<not> timer_expired st'"
proof -
  obtain pkt dest sip src len where d: "d = (pkt, dest, sip, src, len)" by (cases d)
  have oack: "net_state st' = NETLOOP_CONTINUE" if "handle_oack pkt src (len - 2) st = Some st'"
    using that assms(1) by (auto simp: handle_oack_def bind_Some_iff TftpSend_def Let_def)
  have err: "net_state st' \<noteq> NETLOOP_SUCCESS" if "handle_error up pkt st = Some st'"
    using that NetStartAgain_state [OF assms(1), of up]
    by (auto simp: handle_error_def bind_Some_iff net_set_state_def split: if_splits)
  have "handle_data up pkt sip src (len - 2) st = Some st'"
    using assms oack err by (auto simp: d TftpHandler_def bind_Some_iff split: udp_handler.splits if_splits)
  then obtain st2 where "net_state st2 = NETLOOP_CONTINUE"
    and "st' = st2 \<or> st' = NetStartAgain up st2 \<or> accept_block pkt (len - 2 - 2) st2 = Some st'"
    using handle_data_cases [of up pkt sip src "len - 2" st st'] assms(1) by auto
  then show ?thesis using accept_success [OF _ _ assms(3)] NetStartAgain_state [of st2 up] assms(3) by auto
qed

lemma tftp_run_stopped: "net_state st \<noteq> NETLOOP_CONTINUE \<Longrightarrow> tftp_run up es st = Some st"
  by (cases es) auto

lemma iteration_timer:
  assumes "net_state st1 = NETLOOP_CONTINUE"
    and "tftp_run up ((if timer_expired st1 then [Tick] else []) @ es) st1 = Some st'" and "net_state st' = NETLOOP_SUCCESS"
  defines "st2 \<equiv> if timer_expired st1 then call_timeHandler up st1 else st1"
  shows "tftp_run up es st2 = Some st'" and "net_state st2 = NETLOOP_CONTINUE \<or> st' = st2"
  using assms tftp_run_stopped [of st2 up es] by (cases "net_state st2"; auto simp: st2_def split: if_splits)+

lemma handle_dgram [simp]: "handle_event up (dgram d) st = udp_deliver up d st"
  by (cases d) simp

lemma one_datagram:
  assumes "net_state st0 = NETLOOP_CONTINUE" and "length ds \<le> 1"
    and "tftp_run up (List.map dgram ds @ (case eth_rx up ds st0 of None \<Rightarrow> [] | Some st1 \<Rightarrow> ev st1)) st0 = Some st'"
    and "net_state st' = NETLOOP_SUCCESS"
  shows "\<exists>st1. eth_rx up ds st0 = Some st1 \<and>
    (net_state st1 = NETLOOP_CONTINUE \<and> tftp_run up (ev st1) st1 = Some st' \<or> st1 = st' \<and> \<not> timer_expired st1)"
proof (cases ds)
  case (Cons d ds')
  then have ds: "ds = [d]" using assms(2) by simp
  then obtain st1 where st1: "udp_deliver up d st0 = Some st1" and run: "tftp_run up (ev st1) st1 = Some st'"
    using assms(1,3) by (cases "udp_deliver up d st0") auto
  show ?thesis
  proof (cases "net_state st1 = NETLOOP_CONTINUE")
    case False
    then have "st1 = st'" using run tftp_run_stopped by simp
    then show ?thesis using deliver_success [OF assms(1) st1] assms(4) st1 ds by simp
  qed (use st1 run ds in simp)
qed (use assms in simp)

lemma loop_simulates:
  assumes "net_state st = NETLOOP_CONTINUE" and "\<forall>i \<in> set is. plain_input i"
    and "tftp_run up (trace up is st) st = Some st'" and "net_state st' = NETLOOP_SUCCESS"
  shows "loop_run up is st = Some (Inr (netloop_success st'))"
  using assms
proof (induction "is" arbitrary: st)
  case (Cons i "is")
  define st0 where "st0 = st\<lparr>clock := in_clock i\<rparr>"
  have c0: "net_state st0 = NETLOOP_CONTINUE" using Cons.prems(1) by (simp add: st0_def)
  have rx: "(let st0 = st\<lparr>clock := in_clock i\<rparr> in if eth_current st0 = None then Some st0 else eth_rx up (in_rx i) st0) =
      eth_rx up (rx_of i st) st0"
    by (simp add: st0_def rx_of_def Let_def)
  have nc: "\<not> in_ctrlc i" and one: "length (rx_of i st) \<le> 1" using Cons.prems(2) by (auto simp: plain_input_def rx_of_def)
  define more where "more = (case loop_body up i st of Some (Inl st') \<Rightarrow> trace up is st' | _ \<Rightarrow> [])"
  have run: "tftp_run up (List.map dgram (rx_of i st) @ (case eth_rx up (rx_of i st) st0 of None \<Rightarrow> [] |
      Some st1 \<Rightarrow> (if timer_expired st1 then [Tick] else []) @ more)) st0 = Some st'"
    using Cons.prems(1,3) unfolding more_def by (simp add: st0_def [symmetric])
  have "\<exists>st1. eth_rx up (rx_of i st) st0 = Some st1 \<and>
      (net_state st1 = NETLOOP_CONTINUE \<and> tftp_run up ((if timer_expired st1 then [Tick] else []) @ more) st1 = Some st' \<or>
       st1 = st' \<and> \<not> timer_expired st1)"
    by (rule one_datagram [OF c0 one run Cons.prems(4)])
  then obtain st1 where st1: "eth_rx up (rx_of i st) st0 = Some st1"
    and ev: "net_state st1 = NETLOOP_CONTINUE \<and> tftp_run up ((if timer_expired st1 then [Tick] else []) @ more) st1 = Some st' \<or>
      st1 = st' \<and> \<not> timer_expired st1"
    by blast
  define st2 where "st2 = (if timer_expired st1 then call_timeHandler up st1 else st1)"
  have body: "loop_body up i st = (case net_state st2 of
        NETLOOP_RESTART \<Rightarrow> loop_start up (st2\<lparr>NetRestarted := True\<rparr>)
      | NETLOOP_SUCCESS \<Rightarrow> Some (Inr (netloop_success st2))
      | NETLOOP_FAIL \<Rightarrow> Some (Inr (-1, (net_cleanup_loop st2)\<lparr>eth_last_protocol_tftp := False\<rparr>))
      | NETLOOP_CONTINUE \<Rightarrow> Some (Inl st2))"
    unfolding loop_body_def rx st1 unfolding bind.bind_lunit Let_def st2_def [symmetric] using nc by simp
  have "st' = st2 \<or> net_state st2 = NETLOOP_CONTINUE \<and> tftp_run up more st2 = Some st'"
    using ev iteration_timer [of st1 up more st'] Cons.prems(4) unfolding st2_def by auto
  then show ?case
  proof (elim disjE conjE)
    assume "st' = st2"
    then show ?thesis using body Cons.prems(4) by simp
  next
    assume c: "net_state st2 = NETLOOP_CONTINUE" and r: "tftp_run up more st2 = Some st'"
    have "loop_body up i st = Some (Inl st2)" using body c by simp
    then show ?thesis using Cons.IH [OF c] Cons.prems(2,4) r by (simp add: more_def)
  qed
qed simp

lemma netloop_success_effect:
  assumes "NetBootFileXferSize st = n" and "0 < n"
  shows "\<exists>st' s. netloop_success st = (sint n, st') \<and> ram st' = ram st \<and> \<not> armed st' \<and>
    env st' ''filesize'' = Some s \<and> simple_strtoul s 16 = (n, [])"
proof -
  define s where "s = cprintf ''%lX'' [VInt n]"
  have s: "s = number (ucast n) 16 (-1) (-1) 0" by (simp add: s_def cprintf_def sprintf_number)
  have rd: "simple_strtoul s 16 = (n, [])" unfolding s by (rule simple_strtoul_number) simp
  have ne: "s \<noteq> []"
  proof
    assume "s = []"
    moreover have "fst (simple_strtoul [] 16) = 0" by (simp add: simple_strtoul_def strtoul_base_def peek_def)
    ultimately show False using rd assms(2) by simp
  qed
  have h: "ram (eth_halt q) = ram q" "env (eth_halt q) = env q" for q :: tftp
    by (simp_all add: eth_halt_def set_dev_state_def split: option.split)
  define st' where "st' = snd (netloop_success st)"
  have "netloop_success st = (sint n, st')" "ram st' = ram st" "\<not> armed st'" "env st' ''filesize'' = Some s"
    using assms ne
    by (simp_all add: st'_def netloop_success_def Let_def net_cleanup_loop_def net_clear_handlers_def NetSetTimeout_def
        net_set_udp_handler_def armed_def h net_setenv_def flip: s_def)
  with rd show ?thesis by blast
qed

text \<open>When the loop is entered with the TFTP handler, it has just started the protocol.\<close>

lemma loop_start_cases:
  assumes "typed st" and "\<not> armed st" and "loop_start up st = Some (Inl st1)" and "udp_packet_handler st1 = Udp_TftpHandler"
  shows "\<exists>st0. st1 = TftpStart st0 \<and> net_state st0 = NETLOOP_CONTINUE \<and> NetBootFileXferSize st0 = 0"
proof -
  obtain sa where sa: "NetInitLoop (net_set_state NETLOOP_CONTINUE st) = Some sa"
    using assms(3) by (auto simp: loop_start_def bind_Some_iff)
  have ns: "net_state (net_read_env s) = net_state s" for s :: tftp by (simp add: net_read_env_def)
  have c: "net_state sa = NETLOOP_CONTINUE" and na: "\<not> armed sa" and e: "eth_ok sa"
    using sa assms(1,2) NetInitLoop_typed [OF _ sa]
    by (auto simp: NetInitLoop_def armed_def net_set_state_def ns typed_def split: option.splits)
  have "\<not> armed (NetStartAgain up sa)" using NetStartAgain_ok(3) [OF e] na by blast
  then have "st1 \<noteq> NetStartAgain up sa" using assms(4) by (auto simp: armed_def)
  then have "st1 = TftpStart (sa\<lparr>NetDevExists := True, NetBootFileXferSize := 0\<rparr>)"
    using assms(3) by (auto simp: loop_start_def sa net_check_prereq_def split: if_splits)
  then show ?thesis using c by (intro exI [of _ "sa\<lparr>NetDevExists := True, NetBootFileXferSize := 0\<rparr>"]) simp
qed

lemma NetLoop_enters:
  assumes "typed st" and "\<not> armed st" and "NetLoop up [] st = Some (Inl st1)"
  obtains st2 where "typed st2" and "\<not> armed st2" and "loop_start up st2 = Some (Inl st1)"
    and "\<And>is. NetLoop up is st = loop_run up is st1"
proof -
  define st0 where "st0 = st\<lparr>NetRestarted := False, NetDevExists := False, NetTryCount := 1\<rparr>"
  obtain sa where sa: "net_init st0 = Some sa" using assms(3) by (auto simp: NetLoop_def st0_def bind_Some_iff)
  have t0: "typed sa" using net_init_typed [OF _ sa] assms(1) by (simp add: st0_def)
  have a0: "\<not> armed sa"
    using sa assms(2) by (auto simp: net_init_def NetInitLoop_def st0_def armed_def net_clear_handlers_def NetSetTimeout_def
        net_set_udp_handler_def split: option.splits if_splits)
  have t1: "typed (eth_halt sa)" using t0 by (rule eth_halt_typed)
  then have e1: "eth_ok (eth_halt sa)" by (simp add: typed_def)
  note c = eth_set_current_ok [OF e1]
  let ?e = "eth_init up (eth_set_current (eth_halt sa))"
  note j = eth_init_ok [OF c(1), of up]
  have a3: "\<not> armed (snd ?e)" using a0 j(3,4) c(3,4) by (simp add: armed_def)
  then have t3: "typed (snd ?e)" using j(1) by (simp add: typed_def)
  have rc: "\<not> fst ?e < 0"
    using assms(3) by (auto simp: NetLoop_def st0_def [symmetric] sa case_prod_beta)
  then obtain r where "loop_start up (snd ?e) = Some r"
    "(case r of Inl st3 \<Rightarrow> loop_run up [] st3 | Inr r \<Rightarrow> Some (Inr r)) = Some (Inl st1)"
    using assms(3) by (auto simp: NetLoop_def st0_def [symmetric] sa case_prod_beta bind_Some_iff)
  then have "loop_start up (snd ?e) = Some (Inl st1)" by (cases r) auto
  then have "NetLoop up is st = loop_run up is st1" for "is"
    using rc by (simp add: NetLoop_def st0_def [symmetric] sa case_prod_beta)
  then show ?thesis using that [OF t3 a3] \<open>loop_start up (snd ?e) = Some (Inl st1)\<close> by blast
qed

text \<open>C2. A download through the whole loop: when the network is configured and the loop has sent its request, and the datagrams and
  time-outs of the following iterations are those of a correct server's session, \<open>NetLoop\<close> returns the size of the
  file; the file is at the load address, the variable \<open>filesize\<close> holds its size in hexadecimal, the text of which reads
  back as that size, and no handler is left installed.\<close>

theorem netloop_download:
  assumes "typed st" and "\<not> armed st" and "NetLoop up [] st = Some (Inl st1)" and "udp_packet_handler st1 = Udp_TftpHandler"
    and "\<forall>i \<in> set is. plain_input i" and "session f (TftpOurPort st1) port b t (trace up is st1)"
    and "f \<noteq> []" and "length f < 2 ^ 32" and "t \<le> 10" and "int t \<le> TftpTimeoutCountMax st1"
  shows "\<exists>st' s. NetLoop up is st = Some (Inr (sint (of_nat (length f) :: u32), st')) \<and>
    ram st' = store_bytes (net_load_addr st1) f (ram st1) \<and> \<not> armed st' \<and>
    env st' ''filesize'' = Some s \<and> simple_strtoul s 16 = (of_nat (length f), [])"
proof -
  obtain st2 where st2: "typed st2" "\<not> armed st2" "loop_start up st2 = Some (Inl st1)"
    "\<And>is. NetLoop up is st = loop_run up is st1"
    using NetLoop_enters [OF assms(1-3)] by blast
  obtain st0 where st0: "st1 = TftpStart st0" "net_state st0 = NETLOOP_CONTINUE" "NetBootFileXferSize st0 = 0"
    using loop_start_cases [OF st2(1-3) assms(4)] by blast
  have "int t \<le> TftpRRQTimeoutCountMax st0" using assms(10) by (simp add: st0 TftpStart_fields)
  then obtain s1 where s1: "tftp_run up (trace up is st1) st1 = Some s1" "transferred f b (TftpOurPort st1) port (net_load_addr st0) (ram st0) s1"
    using tftp_session_ends [OF st0(2,3), of f port b t "trace up is st1" up] assms(6,8,9) unfolding st0(1) by blast
  have "net_state st1 = NETLOOP_CONTINUE" by (simp add: st0 TftpStart_fields)
  then have run: "loop_run up is st1 = Some (Inr (netloop_success s1))"
    using loop_simulates [OF _ assms(5) s1(1)] s1(2) by (simp add: transferred_def)
  have "(0 :: u32) < of_nat (length f)" "NetBootFileXferSize s1 = of_nat (length f)"
    using s1(2) assms(7,8) by (simp_all add: transferred_def word_less_nat_alt unat_of_nat take_bit_nat_eq_self)
  from netloop_success_effect [OF this(2) this(1)] obtain st' s where st': "netloop_success s1 = (sint (of_nat (length f) :: u32), st')"
    "ram st' = ram s1" "\<not> armed st'" "env st' ''filesize'' = Some s" "simple_strtoul s 16 = (of_nat (length f), [])"
    by blast
  have "ram s1 = store_bytes (net_load_addr st1) f (ram st1)" using s1(2) by (simp add: transferred_def st0 TftpStart_fields)
  then show ?thesis using st' run st2(4) by auto
qed

text \<open>The example machine asks for its file and gets five bytes.\<close>

lemma tftp0_begins:
  "\<exists>st1. NetLoop (\<lambda>_ _. True) [] tftp0 = Some (Inl (TftpStart st1)) \<and> eth_current st1 = Some 0 \<and> clock st1 = 0 \<and>
     net_load_addr st1 = 0x90000000 \<and> ram st1 = (\<lambda>_. NUL) \<and> TftpRRQTimeoutCountMax st1 = 10"
proof -
  have ip: "string_to_ip (Some ''10.0.0.2'') = 0x0200000a" by code_simp
  have var: "eth_var ''eth'' 0 = ''ethaddr''" by code_simp
  have no: "is_valid_ether_addr (replicate 6 0) = False" by code_simp
  have mac: "[0, 24, 10, 0, 0, 1] \<noteq> replicate 6 (0 :: u8)" by code_simp
  show ?thesis
    unfolding NetLoop_def net_init_def
    by (simp add: tftp0_def net_clear_handlers_def NetSetTimeout_def net_set_udp_handler_def NetInitLoop_def net_read_env_def
        eth_halt_def set_dev_state_def eth_set_current_def cur_name_def eth_current_changed_def net_setenv_def eth_init_def
        sync_enetaddr_def eth_getenv_enetaddr_by_index_def eth_getenv_enetaddr_def var eth_parse_enetaddr_def no Let_def
        loop_start_def net_set_state_def net_check_prereq_def getenv_IPaddr_def ip mac)
      (intro exI conjI, rule refl, simp_all)
qed

definition hello_input :: loop_in where
  "hello_input = \<lparr>in_rx = [(data_pkt ''hello'' 512 1, 1024, 0, 5000, of_nat (length (data_pkt ''hello'' 512 1)))],
     in_clock = 0, in_ctrlc = False\<rparr>"

lemma hello_session:
  assumes "eth_current st \<noteq> None"
  shows "session ''hello'' 1024 5000 512 0 (trace up [hello_input] st)"
proof -
  have n: "n_blocks ''hello'' 512 = 1" by (simp add: n_blocks_def)
  have "schedule ''hello'' 512 1024 5000 1 0 (block_event ''hello'' 512 1 [] 1024 0 5000 # es)" for es
    using schedule.last_block [of "''hello''" 512 1024 5000 0 "[]" 0 es] unfolding n .
  then have "session ''hello'' 1024 5000 512 0 (Wait 0 # block_event ''hello'' 512 1 [] 1024 0 5000 # es)" for es
    by (intro session.noise session.plain) simp_all
  moreover have "rx_of hello_input st = in_rx hello_input" using assms by (auto simp: rx_of_def)
  ultimately show ?thesis by (simp add: hello_input_def block_event_def)
qed

theorem netloop_download_witness:
  "\<exists>st' s. NetLoop (\<lambda>_ _. True) [hello_input] tftp0 = Some (Inr (5, st')) \<and>
    ram st' = store_bytes 0x90000000 ''hello'' (\<lambda>_. NUL) \<and> env st' ''filesize'' = Some s \<and>
    simple_strtoul s 16 = (5, [])"
proof -
  obtain st1 where st1: "NetLoop (\<lambda>_ _. True) [] tftp0 = Some (Inl (TftpStart st1))" "eth_current st1 = Some 0" "clock st1 = 0"
    "net_load_addr st1 = 0x90000000" "ram st1 = (\<lambda>_. NUL)" "TftpRRQTimeoutCountMax st1 = 10"
    using tftp0_begins by blast
  have "eth_current (TftpStart st1) = eth_current st1"
    by (simp add: TftpStart_def TftpSend_def NetSetTimeout_def net_set_udp_handler_def set_filename_def set_options_def Let_def
        split: option.split list.split)
  then have "session ''hello'' (TftpOurPort (TftpStart st1)) 5000 512 0 (trace (\<lambda>_ _. True) [hello_input] (TftpStart st1))"
    using hello_session [of "TftpStart st1"] st1(2,3) by (simp add: TftpStart_fields del: trace.simps)
  moreover have "typed tftp0" "\<not> armed tftp0" by (simp_all add: typed_def armed_def eth_ok_def tftp0_def)
  ultimately show ?thesis
    using netloop_download [of tftp0 "\<lambda>_ _. True" "TftpStart st1" "[hello_input]" "''hello''" 5000 512 0] st1
    by (simp add: TftpStart_fields plain_input_def hello_input_def del: trace.simps) blast
qed

end
