(* ===== verification/Image.thy ===== *)
theory Image
  imports Crc Net
begin

text \<open>
  Boot images in the legacy format: the header with its fields in network byte order (\<^verbatim>\<open>include/image.h\<close>), the two
  checksums, images of several components, the acceptance of a kernel or ramdisk image (\<^verbatim>\<open>common/image.c\<close>,
  \<^verbatim>\<open>common/cmd_bootm.c\<close>), the placement of a ramdisk in memory, and the tool that builds an image
  (\<^verbatim>\<open>tools/default_image.c\<close>). A header is a pointer into the byte memory; messages are not modelled.
\<close>

section \<open>The header\<close>

definition IH_MAGIC :: u32 where "IH_MAGIC = 0x27051956"
definition IH_NMLEN :: nat where "IH_NMLEN = 32"
definition image_get_header_size :: nat where "image_get_header_size = 64"
definition CHUNKSZ_CRC32 :: nat where "CHUNKSZ_CRC32 = 64 * 1024"

definition IH_OS_LINUX :: u8 where "IH_OS_LINUX = 5"
definition IH_ARCH_ARM :: u8 where "IH_ARCH_ARM = 2"
definition IH_TYPE_RAMDISK :: u8 where "IH_TYPE_RAMDISK = 3"

text \<open>The fields of the structure by their offsets.\<close>

datatype hdr_l = ih_magic | ih_hcrc | ih_time | ih_size | ih_load | ih_ep | ih_dcrc
datatype hdr_b = ih_os | ih_arch | ih_type | ih_comp

primrec off_l :: "hdr_l \<Rightarrow> nat" where
  "off_l ih_magic = 0"
| "off_l ih_hcrc = 4"
| "off_l ih_time = 8"
| "off_l ih_size = 12"
| "off_l ih_load = 16"
| "off_l ih_ep = 20"
| "off_l ih_dcrc = 24"

primrec off_b :: "hdr_b \<Rightarrow> nat" where
  "off_b ih_os = 28"
| "off_b ih_arch = 29"
| "off_b ih_type = 30"
| "off_b ih_comp = 31"

definition image_get_l :: "hdr_l \<Rightarrow> mem \<Rightarrow> ptr \<Rightarrow> u32 option" where
  "image_get_l f m hdr = map_option htonl (ld32 m (hdr + off_l f))"

definition image_get_b :: "hdr_b \<Rightarrow> mem \<Rightarrow> ptr \<Rightarrow> u8 option" where
  "image_get_b f m hdr = map_option byte_of (rd m (hdr + off_b f))"

definition image_set_l :: "hdr_l \<Rightarrow> u32 \<Rightarrow> ptr \<Rightarrow> mem \<Rightarrow> mem option" where
  "image_set_l f val hdr m = st32 m (hdr + off_l f) (htonl val)"

definition image_set_b :: "hdr_b \<Rightarrow> u8 \<Rightarrow> ptr \<Rightarrow> mem \<Rightarrow> mem option" where
  "image_set_b f val hdr m = wr m (hdr + off_b f) (char_byte val)"

text \<open>\<open>strncpy\<close> from another object: the name cut or padded with NULs to 32 bytes.\<close>

fun name_bytes :: "nat \<Rightarrow> string \<Rightarrow> char list" where
  "name_bytes 0 s = []"
| "name_bytes (Suc n) [] = NUL # name_bytes n []"
| "name_bytes (Suc n) (c # cs) = (if c = NUL then NUL # name_bytes n [] else c # name_bytes n cs)"

definition image_set_name :: "string \<Rightarrow> ptr \<Rightarrow> mem \<Rightarrow> mem option" where
  "image_set_name name hdr m =
     (if hdr + 64 \<le> length m then Some (store m (hdr + 32) (name_bytes IH_NMLEN name)) else None)"

definition image_get_data :: "ptr \<Rightarrow> ptr" where
  "image_get_data hdr = hdr + image_get_header_size"

definition image_get_image_size :: "mem \<Rightarrow> ptr \<Rightarrow> u32 option" where
  "image_get_image_size m hdr = map_option (\<lambda>s. s + of_nat image_get_header_size) (image_get_l ih_size m hdr)"

section \<open>Checks\<close>

definition image_check_magic :: "mem \<Rightarrow> ptr \<Rightarrow> bool option" where
  "image_check_magic m hdr = map_option (\<lambda>x. x = IH_MAGIC) (image_get_l ih_magic m hdr)"

definition image_check_b :: "hdr_b \<Rightarrow> u8 \<Rightarrow> mem \<Rightarrow> ptr \<Rightarrow> bool option" where
  "image_check_b f val m hdr = map_option (\<lambda>x. x = val) (image_get_b f m hdr)"

definition image_check_hcrc :: "mem \<Rightarrow> ptr \<Rightarrow> bool option" where
  "image_check_hcrc m hdr =
     do { header \<leftarrow> (if hdr + image_get_header_size \<le> length m then Some (slice m hdr image_get_header_size) else None);
          header1 \<leftarrow> image_set_l ih_hcrc 0 0 header;
          hcrc \<leftarrow> crc32 0 header1 0 image_get_header_size;
          h \<leftarrow> image_get_l ih_hcrc m hdr;
          Some (hcrc = h) }"

definition image_check_dcrc :: "mem \<Rightarrow> ptr \<Rightarrow> bool option" where
  "image_check_dcrc m hdr =
     do { len \<leftarrow> image_get_l ih_size m hdr;
          dcrc \<leftarrow> crc32_wd 0 m (image_get_data hdr) (unat len) CHUNKSZ_CRC32;
          d \<leftarrow> image_get_l ih_dcrc m hdr;
          Some (dcrc = d) }"

datatype image_error = Bad_Magic | Bad_Header_Checksum | Bad_Data_CRC | Unsupported_Architecture | No_Ramdisk

text \<open>The steps that a kernel and a ramdisk share: \<open>None\<close> when all of them are passed.\<close>

definition image_verify :: "mem \<Rightarrow> ptr \<Rightarrow> bool \<Rightarrow> image_error option option" where
  "image_verify m hdr verify =
     do { ok \<leftarrow> image_check_magic m hdr;
          if \<not> ok then Some (Some Bad_Magic)
          else do { ok \<leftarrow> image_check_hcrc m hdr;
                    if \<not> ok then Some (Some Bad_Header_Checksum)
                    else if verify
                    then do { ok \<leftarrow> image_check_dcrc m hdr; Some (if \<not> ok then Some Bad_Data_CRC else None) }
                    else Some None } }"

definition image_get_kernel :: "mem \<Rightarrow> ptr \<Rightarrow> bool \<Rightarrow> (image_error + ptr) option" where
  "image_get_kernel m img_addr verify =
     do { r \<leftarrow> image_verify m img_addr verify;
          case r of
            Some e \<Rightarrow> Some (Inl e)
          | None \<Rightarrow> do { ok \<leftarrow> image_check_b ih_arch IH_ARCH_ARM m img_addr;
                         Some (if \<not> ok then Inl Unsupported_Architecture else Inr img_addr) } }"

definition image_get_ramdisk :: "mem \<Rightarrow> ptr \<Rightarrow> u8 \<Rightarrow> bool \<Rightarrow> (image_error + ptr) option" where
  "image_get_ramdisk m rd_addr arch verify =
     do { r \<leftarrow> image_verify m rd_addr verify;
          case r of
            Some e \<Rightarrow> Some (Inl e)
          | None \<Rightarrow> do { o1 \<leftarrow> image_check_b ih_os IH_OS_LINUX m rd_addr;
                         o2 \<leftarrow> image_check_b ih_arch arch m rd_addr;
                         o3 \<leftarrow> image_check_b ih_type IH_TYPE_RAMDISK m rd_addr;
                         Some (if \<not> o1 \<or> \<not> o2 \<or> \<not> o3 then Inl No_Ramdisk else Inr rd_addr) } }"

section \<open>Images of several components\<close>

function multi_count_loop :: "mem \<Rightarrow> ptr \<Rightarrow> nat option" where
  "multi_count_loop m a =
     (case ld32 m a of
        None \<Rightarrow> None
      | Some w \<Rightarrow> if w = 0 then Some 0 else map_option Suc (multi_count_loop m (a + 4)))"
  by pat_completeness auto
termination
proof (relation "measure (\<lambda>(m, a). length m - a)")
  fix m a w
  assume "ld32 m a = Some w"
  then have "a < length m" by (auto simp: ld32_def rd_def split: if_splits)
  then show "((m, a + 4), m, a) \<in> measure (\<lambda>(m, a). length m - a)" by simp
qed simp

declare multi_count_loop.simps [simp del]

definition image_multi_count :: "mem \<Rightarrow> ptr \<Rightarrow> nat option" where
  "image_multi_count m hdr = multi_count_loop m (image_get_data hdr)"

fun multi_offset :: "mem \<Rightarrow> ptr \<Rightarrow> nat \<Rightarrow> u32 \<Rightarrow> u32 option" where
  "multi_offset m sizes 0 offset = Some offset"
| "multi_offset m sizes (Suc i) offset =
     do { s \<leftarrow> ld32 m sizes; multi_offset m (sizes + 4) i (offset + ((htonl s + 3) AND NOT 3)) }"

definition image_multi_getimg :: "mem \<Rightarrow> ptr \<Rightarrow> nat \<Rightarrow> (u32 \<times> u32) option" where
  "image_multi_getimg m hdr idx =
     do { count \<leftarrow> image_multi_count m hdr;
          let img_data = image_get_data hdr + (count + 1) * 4;
          if idx < count
          then do { len \<leftarrow> ld32 m (image_get_data hdr + 4 * idx);
                    offset \<leftarrow> multi_offset m (image_get_data hdr) idx 0;
                    Some (of_nat img_data + offset, htonl len) }
          else Some (0, 0) }"

section \<open>Building an image\<close>

record mkimage_params =
  mk_os :: u32
  mk_arch :: u32
  mk_type :: u32
  mk_comp :: u32
  mk_addr :: u32
  mk_ep :: u32
  mk_name :: string

definition image_set_header :: "mkimage_params \<Rightarrow> u32 \<Rightarrow> mem \<Rightarrow> mem option" where
  "image_set_header params mtime m =
     do { let st_size = length m;
          checksum \<leftarrow> crc32 0 m image_get_header_size (st_size - image_get_header_size);
          m \<leftarrow> image_set_l ih_magic IH_MAGIC 0 m;
          m \<leftarrow> image_set_l ih_time mtime 0 m;
          m \<leftarrow> image_set_l ih_size (of_nat (st_size - image_get_header_size)) 0 m;
          m \<leftarrow> image_set_l ih_load (mk_addr params) 0 m;
          m \<leftarrow> image_set_l ih_ep (mk_ep params) 0 m;
          m \<leftarrow> image_set_l ih_dcrc checksum 0 m;
          m \<leftarrow> image_set_b ih_os (ucast (mk_os params)) 0 m;
          m \<leftarrow> image_set_b ih_arch (ucast (mk_arch params)) 0 m;
          m \<leftarrow> image_set_b ih_type (ucast (mk_type params)) 0 m;
          m \<leftarrow> image_set_b ih_comp (ucast (mk_comp params)) 0 m;
          m \<leftarrow> image_set_name (mk_name params) 0 m;
          checksum \<leftarrow> crc32 0 m 0 image_get_header_size;
          image_set_l ih_hcrc checksum 0 m }"

datatype verify_error = FDT_ERR_BADMAGIC | FDT_ERR_BADSTATE | FDT_ERR_BADSTRUCTURE

definition image_verify_header :: "mem \<Rightarrow> nat \<Rightarrow> verify_error option option" where
  "image_verify_header m image_size =
     do { hdr \<leftarrow> (if image_get_header_size \<le> length m then Some (slice m 0 image_get_header_size) else None);
          magic \<leftarrow> image_get_l ih_magic hdr 0;
          if magic \<noteq> IH_MAGIC then Some (Some FDT_ERR_BADMAGIC)
          else do { checksum \<leftarrow> image_get_l ih_hcrc hdr 0;
                    hdr \<leftarrow> image_set_l ih_hcrc 0 0 hdr;
                    c \<leftarrow> crc32 0 hdr 0 image_get_header_size;
                    if c \<noteq> checksum then Some (Some FDT_ERR_BADSTATE)
                    else do { checksum \<leftarrow> image_get_l ih_dcrc hdr 0;
                              c \<leftarrow> crc32 0 m image_get_header_size (image_size - image_get_header_size);
                              Some (if c \<noteq> checksum then Some FDT_ERR_BADSTRUCTURE else None) } } }"

section \<open>Fields in memory\<close>

lemma htonl_inject: "htonl x = htonl y \<longleftrightarrow> x = y"
  by (metis htonl_htonl)

lemma htonl_0 [simp]: "htonl 0 = 0"
  by (simp add: htonl_def)

lemma off_l_bound: "off_l f + 4 \<le> 28"
  by (cases f) simp_all

lemma get_l_Some: "hdr + 64 \<le> length m \<Longrightarrow> \<exists>x. image_get_l f m hdr = Some x"
  using ld32_Some [of "hdr + off_l f" m] off_l_bound [of f] by (auto simp: image_get_l_def)

lemma get_l_eq:
  assumes "p + 64 \<le> length m" and "q + 64 \<le> length m'"
  shows "image_get_l f m p = image_get_l f m' q \<longleftrightarrow> slice m (p + off_l f) 4 = slice m' (q + off_l f) 4"
proof -
  have a: "p + off_l f + 4 \<le> length m" "q + off_l f + 4 \<le> length m'" using assms off_l_bound [of f] by simp_all
  obtain w w' where "ld32 m (p + off_l f) = Some w" "ld32 m' (q + off_l f) = Some w'" using ld32_Some a by blast
  then show ?thesis using ld32_slice [OF a] by (simp add: image_get_l_def htonl_inject)
qed

section \<open>The checksum of the header\<close>

abbreviation crc_val :: "char list \<Rightarrow> u32" where
  "crc_val bs \<equiv> crc_fold 0xffffffff bs XOR 0xffffffff"

lemma crc32_val: "p + n \<le> length m \<Longrightarrow> crc32 0 m p n = Some (crc_val (slice m p n))"
  by (simp add: crc32_fold)

text \<open>The bytes that the header checksum covers: the header with its own checksum cleared.\<close>

definition blanked :: "char list \<Rightarrow> char list" where
  "blanked h = take 4 h @ replicate 4 NUL @ drop 8 h"

lemma set_hcrc_0: "length h = 64 \<Longrightarrow> image_set_l ih_hcrc 0 0 h = Some (blanked h)"
proof -
  have "char_byte 0 = NUL" by code_simp
  then show "length h = 64 \<Longrightarrow> image_set_l ih_hcrc 0 0 h = Some (blanked h)"
    by (simp add: image_set_l_def st32_store store_def blanked_def numeral_eq_Suc)
qed

lemma length_blanked: "length h = 64 \<Longrightarrow> length (blanked h) = 64"
  by (simp add: blanked_def)

lemma check_hcrc_iff:
  assumes "p + 64 \<le> length m"
  shows "image_check_hcrc m p = Some (image_get_l ih_hcrc m p = Some (crc_val (blanked (slice m p 64))))"
proof -
  obtain h where h: "image_get_l ih_hcrc m p = Some h" using get_l_Some [OF assms] by blast
  have l: "length (slice m p 64) = 64" using assms by simp
  have "crc32 0 (blanked (slice m p 64)) 0 64 = Some (crc_val (blanked (slice m p 64)))"
    using crc32_val [of 0 64 "blanked (slice m p 64)"] length_blanked [OF l] by (simp add: slice_def)
  then show ?thesis
    using assms h set_hcrc_0 [OF l] by (auto simp: image_check_hcrc_def image_get_header_size_def)
qed

lemma check_dcrc_iff:
  assumes "image_get_l ih_size m p = Some sz" and "p + 64 + unat sz \<le> length m"
  shows "image_check_dcrc m p = Some (image_get_l ih_dcrc m p = Some (crc_val (slice m (p + 64) (unat sz))))"
proof -
  obtain d where d: "image_get_l ih_dcrc m p = Some d" using get_l_Some [of p m ih_dcrc] assms(2) by auto
  have "crc32_wd 0 m (p + 64) (unat sz) CHUNKSZ_CRC32 = Some (crc_val (slice m (p + 64) (unat sz)))"
    using crc32_pieces [of "p + 64" "unat sz" m CHUNKSZ_CRC32 0] crc32_val [OF assms(2)] assms(2)
    by (simp add: CHUNKSZ_CRC32_def)
  then show ?thesis
    using assms(1) d by (auto simp: image_check_dcrc_def image_get_data_def image_get_header_size_def)
qed

section \<open>Damaged images\<close>

lemma slice_upd:
  "slice (m[i := c]) a n = (if a \<le> i \<and> i < a + n then (slice m a n)[i - a := c] else slice m a n)"
  by (auto simp: slice_def drop_update_swap take_update_swap list_update_beyond not_le not_less)

lemma crc_val_upd:
  assumes "j < length h" and "c \<noteq> h ! j"
  shows "crc_val (h[j := c]) \<noteq> crc_val h"
proof -
  have "h = take j h @ h ! j # drop (Suc j) h" "h[j := c] = take j h @ c # drop (Suc j) h"
    using assms(1) by (simp_all add: id_take_nth_drop upd_conv_take_nth_drop)
  then have "crc_fold 0xffffffff (h[j := c]) \<noteq> crc_fold 0xffffffff h"
    using crc_fold_one_byte [OF assms(2), of "0xffffffff" "take j h" "drop (Suc j) h"] by metis
  then show ?thesis by (simp add: xor.commute [of _ "0xffffffff"] word_xor_cancel)
qed

lemma blanked_upd:
  assumes "length h = 64"
  shows "blanked (h[j := c]) = (if 4 \<le> j \<and> j < 8 then blanked h else (blanked h)[j := c])"
proof (rule nth_equalityI)
  show "length (blanked (h[j := c])) = length (if 4 \<le> j \<and> j < 8 then blanked h else (blanked h)[j := c])"
    using assms by (simp add: length_blanked)
  fix k
  assume "k < length (blanked (h[j := c]))"
  then have k: "k < 64" using assms by (simp add: length_blanked)
  then show "blanked (h[j := c]) ! k = (if 4 \<le> j \<and> j < 8 then blanked h else (blanked h)[j := c]) ! k"
    using assms by (auto simp: blanked_def nth_append nth_list_update)
qed

lemma nth_blanked: "length h = 64 \<Longrightarrow> j < 64 \<Longrightarrow> \<not> (4 \<le> j \<and> j < 8) \<Longrightarrow> blanked h ! j = h ! j"
  by (auto simp: blanked_def nth_append)

text \<open>What acceptance means.\<close>

lemma verify_accepts:
  assumes "image_get_l ih_size m p = Some sz" and "p + 64 + unat sz \<le> length m"
  shows "image_verify m p True = Some None \<longleftrightarrow>
    image_get_l ih_magic m p = Some IH_MAGIC \<and>
    image_get_l ih_hcrc m p = Some (crc_val (blanked (slice m p 64))) \<and>
    image_get_l ih_dcrc m p = Some (crc_val (slice m (p + 64) (unat sz)))"
proof -
  have l: "p + 64 \<le> length m" using assms(2) by simp
  obtain mg where "image_get_l ih_magic m p = Some mg" using get_l_Some [OF l] by blast
  then show ?thesis
    by (auto simp: image_verify_def image_check_magic_def check_hcrc_iff [OF l] check_dcrc_iff [OF assms])
qed

lemma verify_total:
  assumes "p + 64 \<le> length m" and "\<And>sz. image_get_l ih_size m p = Some sz \<Longrightarrow>
    image_get_l ih_hcrc m p = Some (crc_val (blanked (slice m p 64))) \<Longrightarrow> p + 64 + unat sz \<le> length m"
  shows "image_verify m p True \<noteq> None"
proof -
  obtain mg sz where "image_get_l ih_magic m p = Some mg" "image_get_l ih_size m p = Some sz"
    using get_l_Some [OF assms(1)] by blast
  then show ?thesis using assms(2) [of sz] check_dcrc_iff [of m p sz]
    by (auto simp: image_verify_def image_check_magic_def check_hcrc_iff [OF assms(1)])
qed

lemma verify_detects:
  assumes sz: "image_get_l ih_size m p = Some sz" and len: "p + 64 + unat sz \<le> length m"
    and ok: "image_verify m p True = Some None" and i: "p \<le> i" "i < p + 64 + unat sz" and c: "c \<noteq> m ! i"
  shows "\<exists>e. image_verify (m[i := c]) p True = Some (Some e)"
proof -
  let ?m = "m[i := c]"
  note acc = verify_accepts [OF sz len, THEN iffD1, OF ok]
  have l: "p + 64 \<le> length m" using len by simp
  have h: "length (slice m p 64) = 64" using l by simp
  have hdr: "slice ?m p 64 = (if i < p + 64 then (slice m p 64)[i - p := c] else slice m p 64)" using i by (simp add: slice_upd)
  have nth: "slice m a n ! (i - a) = m ! i" if "a \<le> i" "i < a + n" for a n
    using that i len by (simp add: slice_def nth_append)
  have same: "image_get_l f ?m p = image_get_l f m p \<longleftrightarrow> \<not> (p + off_l f \<le> i \<and> i < p + off_l f + 4)" for f
  proof -
    have "slice ?m (p + off_l f) 4 \<noteq> slice m (p + off_l f) 4" if r: "p + off_l f \<le> i" "i < p + off_l f + 4"
    proof -
      have "slice ?m (p + off_l f) 4 ! (i - (p + off_l f)) = c"
        using r l off_l_bound [of f] by (simp add: slice_upd)
      then show ?thesis using nth [OF r] c by metis
    qed
    then show ?thesis using get_l_eq [of p ?m p m f] l by (auto simp: slice_upd)
  qed
  have hcrc: "image_get_l ih_hcrc ?m p \<noteq> Some (crc_val (blanked (slice ?m p 64)))" if r: "i < p + 64"
  proof (cases "p + 4 \<le> i \<and> i < p + 8")
    case True
    then have "blanked (slice ?m p 64) = blanked (slice m p 64)" using blanked_upd [OF h, of "i - p" c] r hdr by auto
    then show ?thesis using acc same [of ih_hcrc] True by auto
  next
    case False
    let ?b = "blanked (slice m p 64)"
    have "blanked (slice ?m p 64) = ?b[i - p := c]" using blanked_upd [OF h, of "i - p" c] r hdr False i(1) by auto
    moreover have "i - p < 64" "\<not> (4 \<le> i - p \<and> i - p < 8)" using r False i(1) by linarith+
    then have "?b ! (i - p) = m ! i" using nth_blanked [OF h, of "i - p"] nth [of p 64] r i(1) by simp
    then have "crc_val (?b[i - p := c]) \<noteq> crc_val ?b"
      using crc_val_upd [of "i - p" ?b c] length_blanked [OF h] r i(1) c by auto
    ultimately show ?thesis using acc same [of ih_hcrc] False by auto
  qed
  have data: "image_get_l ih_size ?m p = Some sz" "image_get_l ih_dcrc ?m p \<noteq> Some (crc_val (slice ?m (p + 64) (unat sz)))"
    if r: "p + 64 \<le> i"
  proof -
    show "image_get_l ih_size ?m p = Some sz" using same [of ih_size] r sz by simp
    have "slice ?m (p + 64) (unat sz) = (slice m (p + 64) (unat sz))[i - (p + 64) := c]" using r i(2) by (simp add: slice_upd)
    moreover have "crc_val ((slice m (p + 64) (unat sz))[i - (p + 64) := c]) \<noteq> crc_val (slice m (p + 64) (unat sz))"
      using crc_val_upd [of "i - (p + 64)" "slice m (p + 64) (unat sz)" c] nth [OF r, of "unat sz"] r i(2) len c by auto
    ultimately show "image_get_l ih_dcrc ?m p \<noteq> Some (crc_val (slice ?m (p + 64) (unat sz)))"
      using acc same [of ih_dcrc] r by auto
  qed
  have "image_verify ?m p True \<noteq> None"
    by (rule verify_total) (use l hcrc data len in \<open>auto simp: not_less [symmetric]\<close>)
  moreover have "image_verify ?m p True \<noteq> Some None"
  proof (cases "i < p + 64")
    case True
    then show ?thesis using hcrc check_hcrc_iff [of p ?m] l by (auto simp: image_verify_def bind_Some_iff split: if_splits)
  next
    case False
    then show ?thesis using verify_accepts [of ?m p sz] data len by auto
  qed
  ultimately show ?thesis by auto
qed

section \<open>Images that the tool builds\<close>

text \<open>What a header means: its fields, and the data after it.\<close>

definition image_fields :: "mem \<Rightarrow> (hdr_l \<rightharpoonup> u32) \<times> (hdr_b \<rightharpoonup> u8) \<times> char list \<times> char list" where
  "image_fields m = (\<lambda>f. image_get_l f m 0, \<lambda>f. image_get_b f m 0, slice m 32 32, drop 64 m)"

lemma off_l_apart: "f \<noteq> g \<Longrightarrow> off_l f + 4 \<le> off_l g \<or> off_l g + 4 \<le> off_l f"
  by (cases f; cases g) simp_all

lemma off_b_range: "28 \<le> off_b f" "off_b f < 32" "off_b f = off_b g \<longleftrightarrow> f = g"
  by (cases f; cases g; simp)+

lemma set_l_fields:
  assumes "64 \<le> length m" and "image_fields m = (l, b, n, d)"
  shows "\<exists>m'. image_set_l f v 0 m = Some m' \<and> length m' = length m \<and> image_fields m' = (l(f \<mapsto> v), b, n, d)"
proof -
  have r: "off_l f + 4 \<le> length m" "off_l f + 4 \<le> 28" using off_l_bound [of f] assms(1) by simp_all
  then obtain m' where m': "st32 m (off_l f) (htonl v) = Some m'" by (simp add: st32_store)
  then obtain bs where st: "m' = store m (off_l f) bs" "length bs = 4" using r(1) by (auto simp: st32_store)
  have len: "length m' = length m" using st r(1) by simp
  have "image_get_l g m' 0 = (l(f \<mapsto> v)) g" for g
  proof (cases "g = f")
    case True
    then show ?thesis using ld32_st32 [OF r(1) m'] by (simp add: image_get_l_def htonl_htonl)
  next
    case False
    then have "slice m' (off_l g) 4 = slice m (off_l g) 4"
      using off_l_apart [OF False] r(1) unfolding st(1) by (intro slice_store_apart) (auto simp: st(2))
    then show ?thesis using get_l_eq [of 0 m' 0 m g] False len assms by (auto simp: image_fields_def)
  qed
  moreover have "image_get_b g m' 0 = b g" for g
  proof -
    have "off_l f + 4 \<le> off_b g" "off_b g < length m" using r off_b_range(1,2) [of g] assms(1) by linarith+
    then have "rd m' (off_b g) = rd m (off_b g)" using st r(1) by (simp add: rd_def nth_store)
    then show ?thesis using assms(2) by (auto simp: image_get_b_def image_fields_def)
  qed
  moreover have "slice m' 32 32 = n" "drop 64 m' = d"
    using slice_store_apart [of 32 32 "off_l f" bs m] drop_store [of "off_l f" bs 64 m] r assms st(2)
    unfolding st(1) by (simp_all add: image_fields_def)
  ultimately show ?thesis using m' len by (auto simp: image_set_l_def image_fields_def)
qed

lemma set_b_fields:
  assumes "64 \<le> length m" and "image_fields m = (l, b, n, d)"
  shows "\<exists>m'. image_set_b f v 0 m = Some m' \<and> length m' = length m \<and> image_fields m' = (l, b(f \<mapsto> v), n, d)"
proof -
  have r: "off_b f < length m" "28 \<le> off_b f" "off_b f < 32" using off_b_range(1,2) [of f] assms(1) by linarith+
  let ?m = "m[off_b f := char_byte v]"
  have "image_get_l g ?m 0 = l g" for g
  proof -
    have "slice ?m (off_l g) 4 = slice m (off_l g) 4" using off_l_bound [of g] r by (simp add: slice_upd)
    then show ?thesis using get_l_eq [of 0 ?m 0 m g] assms by (auto simp: image_fields_def)
  qed
  moreover have "image_get_b g ?m 0 = (b(f \<mapsto> v)) g" for g
    using off_b_range(3) [of g f] r(1) assms off_b_range(2) [of g]
    by (auto simp: image_get_b_def image_fields_def rd_def nth_list_update fun_upd_def)
  moreover have "slice ?m 32 32 = n" "drop 64 ?m = d"
    using r assms(2) by (simp_all add: slice_upd image_fields_def)
  ultimately show ?thesis using r(1) by (auto simp: image_set_b_def wr_def image_fields_def)
qed

lemma length_name_bytes [simp]: "length (name_bytes n s) = n"
  by (induction n s rule: name_bytes.induct) simp_all

lemma set_name_fields:
  assumes "64 \<le> length m" and "image_fields m = (l, b, n, d)"
  shows "\<exists>m'. image_set_name s 0 m = Some m' \<and> length m' = length m \<and>
    image_fields m' = (l, b, name_bytes IH_NMLEN s, d)"
proof -
  let ?bs = "name_bytes IH_NMLEN s"
  let ?m = "store m 32 ?bs"
  have bs: "length ?bs = 32" by (simp add: IH_NMLEN_def)
  have len: "length ?m = length m" using assms(1) bs by simp
  have "image_get_l g ?m 0 = l g" for g
  proof -
    have "slice ?m (off_l g) 4 = slice m (off_l g) 4"
      using off_l_bound [of g] assms(1) bs by (intro slice_store_apart) auto
    then show ?thesis using get_l_eq [of 0 ?m 0 m g] len assms by (auto simp: image_fields_def)
  qed
  moreover have "image_get_b g ?m 0 = b g" for g
  proof -
    have "off_b g < 32" by (rule off_b_range)
    then have "rd ?m (off_b g) = rd m (off_b g)" using assms(1) bs by (simp add: rd_def nth_store)
    then show ?thesis using assms(2) by (auto simp: image_get_b_def image_fields_def)
  qed
  moreover have "slice ?m 32 32 = ?bs" using slice_store_same [of 32 ?bs m, unfolded bs] assms(1) by simp
  moreover have "drop 64 ?m = d" using drop_store [of 32 ?bs 64 m, unfolded bs] assms by (simp add: image_fields_def)
  ultimately show ?thesis using len assms(1) by (auto simp: image_set_name_def image_fields_def)
qed

lemma hcrc_blank:
  assumes "64 \<le> length m" and "image_get_l ih_hcrc m 0 = Some 0" and "image_set_l ih_hcrc v 0 m = Some m'"
  shows "blanked (slice m' 0 64) = slice m 0 64"
proof -
  let ?z = "replicate 64 NUL"
  have "byte_of NUL = 0" by code_simp
  then have "image_get_l ih_hcrc ?z 0 = Some 0" by (simp add: image_get_l_def ld32_def rd_def)
  then have "slice m 4 4 = slice ?z 4 4" using get_l_eq [of 0 m 0 ?z ih_hcrc] assms(1,2) by simp
  then have "slice m 4 4 = replicate 4 NUL" by (simp add: slice_def)
  moreover have "slice m 0 64 = slice m 0 4 @ slice m 4 4 @ slice m 8 56"
    by (rule nth_equalityI) (use assms(1) in \<open>auto simp: slice_def nth_append\<close>)
  moreover obtain bs where "m' = store m 4 bs" "length bs = 4"
    using assms(1,3) by (auto simp: image_set_l_def st32_store)
  then have "slice m' 0 4 = slice m 0 4" "slice m' 8 56 = slice m 8 56"
    using slice_store_apart [of 0 4 4 bs m] slice_store_apart [of 8 56 4 bs m] assms(1) by simp_all
  ultimately show ?thesis by (simp add: blanked_def slice_def drop_take min_def)
qed

text \<open>The header that the parameters describe.\<close>

definition header_words :: "mkimage_params \<Rightarrow> u32 \<Rightarrow> char list \<Rightarrow> hdr_l \<Rightarrow> u32" where
  "header_words params mtime data f =
     (case f of
        ih_magic \<Rightarrow> IH_MAGIC
      | ih_time \<Rightarrow> mtime
      | ih_size \<Rightarrow> of_nat (length data)
      | ih_load \<Rightarrow> mk_addr params
      | ih_ep \<Rightarrow> mk_ep params
      | ih_dcrc \<Rightarrow> crc_val data
      | ih_hcrc \<Rightarrow> 0)"

definition header_bytes :: "mkimage_params \<Rightarrow> hdr_b \<Rightarrow> u8" where
  "header_bytes params f =
     (case f of ih_os \<Rightarrow> ucast (mk_os params) | ih_arch \<Rightarrow> ucast (mk_arch params) | ih_type \<Rightarrow> ucast (mk_type params) | ih_comp \<Rightarrow> ucast (mk_comp params))"

text \<open>The setters in sequence: what holds of the memory once a step is done is what its continuation may use.\<close>

definition gives :: "mem option \<Rightarrow> (mem \<Rightarrow> bool) \<Rightarrow> bool" where
  "gives r P \<longleftrightarrow> (\<exists>m. r = Some m \<and> P m)"

definition hdr_at :: "nat \<Rightarrow> (hdr_l \<rightharpoonup> u32) \<Rightarrow> (hdr_b \<rightharpoonup> u8) \<Rightarrow> char list \<Rightarrow> char list \<Rightarrow> mem \<Rightarrow> bool" where
  "hdr_at N l b n d m \<longleftrightarrow> 64 \<le> length m \<and> length m = N \<and> image_fields m = (l, b, n, d)"

lemma set_l_gives:
  assumes "hdr_at N l b n d m" and "\<And>m'. image_set_l f v 0 m = Some m' \<Longrightarrow> hdr_at N (l(f \<mapsto> v)) b n d m' \<Longrightarrow> gives (k m') P"
  shows "gives (image_set_l f v 0 m \<bind> k) P"
  using assms set_l_fields [of m l b n d f v] by (auto simp: hdr_at_def)

lemma set_b_gives:
  assumes "hdr_at N l b n d m" and "\<And>m'. hdr_at N l (b(f \<mapsto> v)) n d m' \<Longrightarrow> gives (k m') P"
  shows "gives (image_set_b f v 0 m \<bind> k) P"
  using assms set_b_fields [of m l b n d f v] by (auto simp: hdr_at_def)

lemma set_name_gives:
  assumes "hdr_at N l b n d m" and "\<And>m'. hdr_at N l b (name_bytes IH_NMLEN s) d m' \<Longrightarrow> gives (k m') P"
  shows "gives (image_set_name s 0 m \<bind> k) P"
  using assms set_name_fields [of m l b n d s] by (auto simp: hdr_at_def)

lemma crc_gives:
  assumes "p + n \<le> length m" and "gives (k (crc_val (slice m p n))) P"
  shows "gives (crc32 0 m p n \<bind> k) P"
  using assms by (simp add: crc32_val)

lemma seal_gives:
  assumes "hdr_at N l b n d m" and "l ih_hcrc = Some 0"
  shows "gives (image_set_l ih_hcrc (crc_val (slice m 0 64)) 0 m)
    (\<lambda>m'. hdr_at N (l(ih_hcrc \<mapsto> crc_val (blanked (slice m' 0 64)))) b n d m')"
proof -
  have m: "64 \<le> length m" "image_get_l ih_hcrc m 0 = Some 0"
    using assms by (auto simp: hdr_at_def image_fields_def)
  let ?h = "crc_val (slice m 0 64)"
  obtain m' where m': "image_set_l ih_hcrc ?h 0 m = Some m'" "length m' = length m" "image_fields m' = (l(ih_hcrc \<mapsto> ?h), b, n, d)"
    using set_l_fields [of m l b n d ih_hcrc ?h] assms(1) by (auto simp: hdr_at_def)
  then show ?thesis using hcrc_blank [OF m m'(1)] assms(1) by (simp add: gives_def hdr_at_def)
qed

lemma set_header_fields:
  assumes len: "64 \<le> length m" and blank: "image_get_l ih_hcrc m 0 = Some 0"
  shows "gives (image_set_header params mtime m) (\<lambda>m'. hdr_at (length m)
    ((\<lambda>f. Some (header_words params mtime (drop 64 m) f))(ih_hcrc \<mapsto> crc_val (blanked (slice m' 0 64))))
    (\<lambda>f. Some (header_bytes params f)) (name_bytes IH_NMLEN (mk_name params)) (drop 64 m) m')"
proof -
  obtain l b n where h0: "hdr_at (length m) l b n (drop 64 m) m" "l ih_hcrc = Some 0"
    using blank len by (auto simp: image_fields_def hdr_at_def)
  let ?P = "\<lambda>m'. hdr_at (length m)
    ((\<lambda>f. Some (header_words params mtime (drop 64 m) f))(ih_hcrc \<mapsto> crc_val (blanked (slice m' 0 64))))
    (\<lambda>f. Some (header_bytes params f)) (name_bytes IH_NMLEN (mk_name params)) (drop 64 m) m'"
  have seal: "gives (crc32 0 m' 0 64 \<bind> (\<lambda>c. image_set_l ih_hcrc c 0 m')) ?P"
    if h: "hdr_at (length m) (l(ih_magic \<mapsto> IH_MAGIC, ih_time \<mapsto> mtime, ih_size \<mapsto> of_nat (length m - 64), ih_load \<mapsto> mk_addr params,
        ih_ep \<mapsto> mk_ep params, ih_dcrc \<mapsto> crc_val (slice m 64 (length m - 64))))
        (b(ih_os \<mapsto> ucast (mk_os params), ih_arch \<mapsto> ucast (mk_arch params), ih_type \<mapsto> ucast (mk_type params), ih_comp \<mapsto> ucast (mk_comp params)))
        (name_bytes IH_NMLEN (mk_name params)) (drop 64 m) m'" for m'
  proof -
    let ?w = "\<lambda>f. Some (header_words params mtime (drop 64 m) f)"
    have "l(ih_magic \<mapsto> IH_MAGIC, ih_time \<mapsto> mtime, ih_size \<mapsto> of_nat (length m - 64), ih_load \<mapsto> mk_addr params,
        ih_ep \<mapsto> mk_ep params, ih_dcrc \<mapsto> crc_val (slice m 64 (length m - 64))) = ?w"
      by (rule ext) (simp add: header_words_def h0(2) slice_def split: hdr_l.split)
    moreover have "b(ih_os \<mapsto> ucast (mk_os params), ih_arch \<mapsto> ucast (mk_arch params), ih_type \<mapsto> ucast (mk_type params), ih_comp \<mapsto> ucast (mk_comp params)) =
        (\<lambda>f. Some (header_bytes params f))"
      by (rule ext) (simp add: header_bytes_def split: hdr_b.split)
    ultimately have f: "hdr_at (length m) ?w (\<lambda>f. Some (header_bytes params f)) (name_bytes IH_NMLEN (mk_name params)) (drop 64 m) m'"
      using h by simp
    have z: "?w ih_hcrc = Some 0" by (simp add: header_words_def)
    show ?thesis
    proof (rule crc_gives)
      show "0 + 64 \<le> length m'" using f by (simp add: hdr_at_def)
    qed (rule seal_gives [OF f z])
  qed
  show ?thesis unfolding image_set_header_def image_get_header_size_def Let_def
    by (rule seal h0(1) | assumption | rule set_l_gives set_b_gives set_name_gives crc_gives | simp add: len)+
qed

text \<open>An image as a part of a larger memory.\<close>

lemma slice_placed:
  "a + n \<le> length m \<Longrightarrow> slice (pre @ m @ post) (length pre + a) n = slice m a n"
  by (simp add: slice_def)

lemma get_l_placed:
  assumes "64 \<le> length m"
  shows "image_get_l f (pre @ m @ post) (length pre) = image_get_l f m 0"
  using get_l_eq [of "length pre" "pre @ m @ post" 0 m f] slice_placed [of "off_l f" 4 m pre post] off_l_bound [of f] assms by simp

lemma get_b_placed:
  assumes "64 \<le> length m"
  shows "image_get_b f (pre @ m @ post) (length pre) = image_get_b f m 0"
  using off_b_range(2) [of f] assms by (simp add: image_get_b_def rd_def nth_append)

lemma get_l_slice: "64 \<le> length m \<Longrightarrow> image_get_l f (slice m 0 64) 0 = image_get_l f m 0"
  using get_l_placed [of "take 64 m" f "[]" "drop 64 m"] by (simp add: slice_def)

lemma get_l_blanked: "length h = 64 \<Longrightarrow> f \<noteq> ih_hcrc \<Longrightarrow> image_get_l f (blanked h) 0 = image_get_l f h 0"
  using set_l_fields [OF _ image_fields_def, of h ih_hcrc 0] set_hcrc_0 [of h]
  by (auto simp: image_fields_def fun_eq_iff)

lemma verify_header_iff:
  assumes "64 \<le> length m" and "64 \<le> n" and "n \<le> length m"
  shows "image_verify_header m n = Some None \<longleftrightarrow>
    image_get_l ih_magic m 0 = Some IH_MAGIC \<and> image_get_l ih_hcrc m 0 = Some (crc_val (blanked (slice m 0 64))) \<and>
    image_get_l ih_dcrc m 0 = Some (crc_val (slice m 64 (n - 64)))"
proof -
  have h: "length (slice m 0 64) = 64" using assms(1) by simp
  obtain a b c where "image_get_l ih_magic m 0 = Some a" "image_get_l ih_hcrc m 0 = Some b" "image_get_l ih_dcrc m 0 = Some c"
    using get_l_Some [of 0 m] assms(1) by fastforce
  moreover have "crc32 0 (blanked (slice m 0 64)) 0 64 = Some (crc_val (blanked (slice m 0 64)))"
    using crc32_val [of 0 64 "blanked (slice m 0 64)"] length_blanked [OF h] by (simp add: slice_def)
  moreover have "crc32 0 m 64 (n - 64) = Some (crc_val (slice m 64 (n - 64)))" using assms by (simp add: crc32_val)
  ultimately show ?thesis
    using assms(1) by (auto simp: image_verify_header_def image_get_header_size_def get_l_slice set_hcrc_0 [OF h] get_l_blanked [OF h])
qed

text \<open>What the tool builds, seen on its own and as a part of a memory.\<close>

lemma built_image:
  assumes "64 \<le> length m" and "length m < 2 ^ 32" and "image_get_l ih_hcrc m 0 = Some 0"
  obtains m' where "image_set_header params mtime m = Some m'" and "length m' = length m"
    and "slice m' 32 32 = name_bytes IH_NMLEN (mk_name params)" and "drop 64 m' = drop 64 m"
    and "image_verify_header m' (length m') = Some None"
    and "\<And>f pre post. f \<noteq> ih_hcrc \<Longrightarrow> image_get_l f (pre @ m' @ post) (length pre) = Some (header_words params mtime (drop 64 m) f)"
    and "\<And>f pre post. image_get_b f (pre @ m' @ post) (length pre) = Some (header_bytes params f)"
    and "\<And>pre post. image_verify (pre @ m' @ post) (length pre) True = Some None"
proof -
  obtain m' where m': "image_set_header params mtime m = Some m'" "length m' = length m"
    and l: "\<forall>f. image_get_l f m' 0 = ((\<lambda>f. Some (header_words params mtime (drop 64 m) f))(ih_hcrc \<mapsto> crc_val (blanked (slice m' 0 64)))) f"
    and b: "\<forall>f. image_get_b f m' 0 = Some (header_bytes params f)"
    and n: "slice m' 32 32 = name_bytes IH_NMLEN (mk_name params)" and d: "drop 64 m' = drop 64 m"
    using set_header_fields [OF assms(1,3), of params mtime] unfolding gives_def hdr_at_def image_fields_def prod.inject fun_eq_iff
    by blast
  let ?sz = "word_of_nat (length m - 64) :: u32"
  have sz: "unat ?sz = length m - 64" using assms(2) by (simp add: unat_of_nat take_bit_nat_eq_self)
  have data: "slice m' 64 (length m - 64) = drop 64 m" using d m'(2) by (simp add: slice_def)
  have h: "image_verify_header m' (length m') = Some None"
    using verify_header_iff [of m' "length m'"] assms(1) m'(2) l data by (simp add: header_words_def)
  have w: "image_get_l f (pre @ m' @ post) (length pre) = image_get_l f m' 0"
      "image_get_b g (pre @ m' @ post) (length pre) = image_get_b g m' 0" for f g pre post
    using get_l_placed get_b_placed assms(1) m'(2) by simp_all
  have v: "image_verify (pre @ m' @ post) (length pre) True = Some None" for pre post
  proof -
    have "image_get_l ih_size (pre @ m' @ post) (length pre) = Some ?sz" using l by (simp add: w header_words_def)
    from verify_accepts [OF this] show ?thesis
      using slice_placed [of 0 64 m' pre post] slice_placed [of 64 "length m - 64" m' pre post] assms(1) m'(2) sz data l
      by (simp add: w header_words_def)
  qed
  show ?thesis by (rule that [OF m' n d h _ _ v]) (use l b in \<open>simp_all add: w\<close>)
qed

section \<open>The components of an image\<close>

definition le_bytes :: "u32 \<Rightarrow> char list" where
  "le_bytes w = [char_byte (ucast w), char_byte (ucast (drop_bit 8 w)), char_byte (ucast (drop_bit 16 w)), char_byte (ucast (drop_bit 24 w))]"

definition round4 :: "nat \<Rightarrow> nat" where
  "round4 n = (n + 3) div 4 * 4"

definition pad4 :: "char list \<Rightarrow> char list" where
  "pad4 c = c @ replicate (round4 (length c) - length c) NUL"

text \<open>The data of an image of several components: the sizes in network order, a zero, and the components at multiples of four.\<close>

definition size_words :: "char list list \<Rightarrow> char list" where
  "size_words cs = concat (map (\<lambda>c. le_bytes (htonl (of_nat (length c)))) cs)"

definition multi_data :: "char list list \<Rightarrow> char list" where
  "multi_data cs = size_words cs @ le_bytes 0 @ concat (map pad4 cs)"

lemma length_le_bytes [simp]: "length (le_bytes w) = 4"
  by (simp add: le_bytes_def)

lemma length_pad4 [simp]: "length (pad4 c) = round4 (length c)"
  by (simp add: pad4_def round4_def)

lemma length_size_words [simp]: "length (size_words cs) = 4 * length cs"
  by (induction cs) (simp_all add: size_words_def)

lemma ld32_le_bytes: "ld32 (a @ le_bytes w @ z) (length a) = Some w"
proof -
  let ?m = "a @ replicate 4 NUL @ z"
  have "st32 ?m (length a) w = Some (a @ le_bytes w @ z)"
    by (simp add: st32_store store_def le_bytes_def)
  then show ?thesis by (rule ld32_st32 [rotated]) simp
qed

lemma and_not_mask: "(x :: u32) AND NOT (mask n) = push_bit n (drop_bit n x)"
  by (rule bit_word_eqI) (auto simp: bit_simps)

lemma unat_clear_low: "unat ((x :: u32) AND NOT (mask k)) = take_bit 32 (push_bit k (drop_bit k (unat x)))"
  unfolding and_not_mask by (simp add: unsigned_push_bit_eq unat_drop_bit_eq)

lemma unat_round4:
  assumes "n + 3 < 2 ^ 32"
  shows "unat ((word_of_nat n + 3 :: u32) AND NOT 3) = round4 n"
proof -
  let ?x = "word_of_nat (n + 3) :: u32"
  have x: "unat ?x = n + 3"
    unfolding unat_of_nat by (rule mod_less) (use assms in simp)
  have "(3 :: u32) = mask 2" by (simp add: mask_eq_exp_minus_1)
  then have "unat (?x AND NOT 3) = take_bit 32 (push_bit 2 (drop_bit 2 (n + 3)))"
    using unat_clear_low [of ?x 2] unfolding x by simp
  also have "\<dots> = round4 n"
  proof -
    have "push_bit 2 (drop_bit 2 (n + 3)) = round4 n" by (simp only: push_bit_eq_mult drop_bit_eq_div round4_def) simp
    moreover have "round4 n < 2 ^ 32" using assms unfolding round4_def by linarith
    ultimately show ?thesis by (simp only: take_bit_nat_eq_self)
  qed
  finally show ?thesis by simp
qed

lemma size_words_split:
  assumes "i < length cs"
  shows "\<exists>z. size_words cs = size_words (take i cs) @ le_bytes (htonl (of_nat (length (cs ! i)))) @ z"
proof -
  have "cs = take i cs @ cs ! i # drop (Suc i) cs" using assms by (rule id_take_nth_drop)
  then have "size_words cs = size_words (take i cs @ cs ! i # drop (Suc i) cs)" by simp
  then show ?thesis by (auto simp: size_words_def)
qed

text \<open>The table of sizes in memory.\<close>

definition sizes_at :: "mem \<Rightarrow> ptr \<Rightarrow> char list list \<Rightarrow> bool" where
  "sizes_at m a cs \<longleftrightarrow> ld32 m (a + 4 * length cs) = Some 0 \<and>
     (\<forall>i < length cs. ld32 m (a + 4 * i) = Some (htonl (of_nat (length (cs ! i)))))"

lemma sizes_at_multi: "sizes_at (a @ multi_data cs @ z) (length a) cs"
proof -
  have "ld32 (a @ multi_data cs @ z) (length a + 4 * length cs) = Some 0"
    using ld32_le_bytes [of "a @ size_words cs" 0 "concat (map pad4 cs) @ z"] by (simp add: multi_data_def)
  moreover have "ld32 (a @ multi_data cs @ z) (length a + 4 * i) = Some (htonl (of_nat (length (cs ! i))))" if i: "i < length cs" for i
  proof -
    obtain y where "size_words cs = size_words (take i cs) @ le_bytes (htonl (of_nat (length (cs ! i)))) @ y"
      using size_words_split [OF i] by blast
    then show ?thesis
      using ld32_le_bytes [of "a @ size_words (take i cs)" "htonl (of_nat (length (cs ! i)))" "y @ le_bytes 0 @ concat (map pad4 cs) @ z"] i
      by (simp add: multi_data_def min_def)
  qed
  ultimately show ?thesis by (simp add: sizes_at_def)
qed

lemma sizes_at_Cons:
  "sizes_at m a (c # cs) \<longleftrightarrow> ld32 m a = Some (htonl (of_nat (length c))) \<and> sizes_at m (a + 4) cs"
  unfolding sizes_at_def by (auto simp: less_Suc_eq_0_disj algebra_simps)

lemma component_word:
  assumes "c \<noteq> []" and "length c < 2 ^ 32"
  shows "htonl (of_nat (length c)) \<noteq> (0 :: u32)"
proof -
  have "unat (word_of_nat (length c) :: u32) = length c" unfolding unat_of_nat by (rule mod_less) (use assms in simp)
  then have "(word_of_nat (length c) :: u32) \<noteq> 0" using assms(1) by auto
  then show ?thesis using htonl_inject [of "word_of_nat (length c)" 0] by simp
qed

lemma multi_count_sizes:
  assumes "sizes_at m a cs" and "\<forall>c \<in> set cs. c \<noteq> [] \<and> length c < 2 ^ 32"
  shows "multi_count_loop m a = Some (length cs)"
  using assms
proof (induction cs arbitrary: a)
  case Nil
  then show ?case by (subst multi_count_loop.simps) (simp add: sizes_at_def)
next
  case (Cons c cs)
  then show ?case by (subst multi_count_loop.simps) (simp add: sizes_at_Cons component_word)
qed

lemma multi_offset_sizes:
  assumes "sizes_at m a cs" and "i \<le> length cs" and "\<forall>c \<in> set cs. length c + 3 < 2 ^ 32"
  shows "multi_offset m a i o0 = Some (o0 + of_nat (length (concat (map pad4 (take i cs)))))"
  using assms
proof (induction cs arbitrary: a i o0)
  case Nil
  then show ?case by simp
next
  case (Cons c cs)
  show ?case
  proof (cases i)
    case (Suc j)
    have "(word_of_nat (length c) + 3 :: u32) AND NOT 3 = of_nat (round4 (length c))"
      using arg_cong [OF unat_round4 [of "length c"], of "word_of_nat :: nat \<Rightarrow> u32"] Cons.prems(3)
      by (simp only: of_nat_unat ucast_id list.set_intros(1))
    then show ?thesis using Cons.IH [of "a + 4" j] Cons.prems Suc by (simp add: sizes_at_Cons htonl_htonl algebra_simps)
  qed simp
qed

lemma component_slice:
  assumes "i < length cs"
  shows "slice (a @ concat (map pad4 cs) @ z) (length a + length (concat (map pad4 (take i cs)))) (length (cs ! i)) = cs ! i"
proof -
  have "cs = take i cs @ cs ! i # drop (Suc i) cs" using assms by (rule id_take_nth_drop)
  then have "concat (map pad4 cs) = concat (map pad4 (take i cs)) @ pad4 (cs ! i) @ concat (map pad4 (drop (Suc i) cs))"
    by (metis append.assoc concat.simps(2) concat_append list.simps(9) map_append)
  then show ?thesis by (simp add: slice_def pad4_def)
qed

lemma take_components_le: "length (concat (map pad4 (take i cs))) \<le> length (concat (map pad4 cs))"
  by (metis append_take_drop_id concat_append le_add1 length_append map_append)

section \<open>The properties\<close>

text \<open>C5. Corruption of an image in memory never goes unnoticed when it is confined to one byte: if \<open>image_get_kernel\<close> or
  \<open>image_get_ramdisk\<close> accepts an image with verification on, then both refuse it, with an error, after any one byte of its header
  or data was changed to any other value.\<close>

theorem image_damage_refused:
  assumes "image_get_l ih_size m p = Some sz" and "p + 64 + unat sz \<le> length m"
    and "image_get_kernel m p True = Some (Inr q) \<or> image_get_ramdisk m p arch True = Some (Inr q)"
    and "p \<le> i" and "i < p + 64 + unat sz" and "c \<noteq> m ! i"
  shows "\<exists>e. image_get_kernel (m[i := c]) p True = Some (Inl e) \<and> image_get_ramdisk (m[i := c]) p arch True = Some (Inl e)"
proof -
  have "image_verify m p True = Some None"
    using assms(3) by (auto simp: image_get_kernel_def image_get_ramdisk_def bind_eq_Some_conv split: option.splits if_splits)
  from verify_detects [OF assms(1,2) this assms(4-6)] show ?thesis
    by (auto simp: image_get_kernel_def image_get_ramdisk_def)
qed

text \<open>C4. Building and checking an image agree: \<open>image_set_header\<close> on a file whose header is still clear succeeds, keeps the
  data, and the result passes \<open>image_verify_header\<close>; loaded anywhere in memory, every field reads back as the parameter it was built from, and
  \<open>image_get_kernel\<close> and \<open>image_get_ramdisk\<close> accept it, data checksum included, exactly when the architecture, system and type are the expected ones.\<close>

theorem image_set_header_accepted:
  assumes "64 \<le> length m" and "length m < 2 ^ 32" and "image_get_l ih_hcrc m 0 = Some 0"
  shows "\<exists>m'. image_set_header params mtime m = Some m' \<and> length m' = length m \<and> drop 64 m' = drop 64 m \<and>
    slice m' 32 32 = name_bytes IH_NMLEN (mk_name params) \<and> image_verify_header m' (length m') = Some None \<and>
    (\<forall>pre post. let M = pre @ m' @ post; p = length pre in
      (\<forall>f. f \<noteq> ih_hcrc \<longrightarrow> image_get_l f M p = Some (header_words params mtime (drop 64 m) f)) \<and>
      (\<forall>f. image_get_b f M p = Some (header_bytes params f)) \<and>
      image_get_kernel M p True = Some (if header_bytes params ih_arch = IH_ARCH_ARM then Inr p else Inl Unsupported_Architecture) \<and>
      image_get_ramdisk M p arch True =
        Some (if header_bytes params ih_os = IH_OS_LINUX \<and> header_bytes params ih_arch = arch \<and> header_bytes params ih_type = IH_TYPE_RAMDISK then Inr p else Inl No_Ramdisk))"
proof -
  obtain m' where m': "image_set_header params mtime m = Some m'" "length m' = length m"
    "slice m' 32 32 = name_bytes IH_NMLEN (mk_name params)" "drop 64 m' = drop 64 m" "image_verify_header m' (length m') = Some None"
    and placed: "\<And>f pre post. f \<noteq> ih_hcrc \<Longrightarrow> image_get_l f (pre @ m' @ post) (length pre) = Some (header_words params mtime (drop 64 m) f)"
      "\<And>f pre post. image_get_b f (pre @ m' @ post) (length pre) = Some (header_bytes params f)"
      "\<And>pre post. image_verify (pre @ m' @ post) (length pre) True = Some None"
    using built_image [OF assms] by metis
  show ?thesis
    using m' placed
    by (intro exI [of _ m'])
      (simp add: Let_def image_get_kernel_def image_get_ramdisk_def image_check_b_def)
qed

text \<open>Components are found where the tool puts them: in an image of several components, each not empty, \<open>image_multi_count\<close> is
  their number and \<open>image_multi_getimg\<close> yields, for each index below it, the address at which exactly the bytes of that component
  start and its length, and zeros for every other index.\<close>

lemma image_multi_getimg_component:
  assumes "length hdr = 64" and "\<forall>c \<in> set cs. c \<noteq> [] \<and> length c + 3 < 2 ^ 32"
    and "length pre + 64 + length (multi_data cs) < 2 ^ 32"
  shows "let M = pre @ hdr @ multi_data cs @ post; p = length pre in
    image_multi_count M p = Some (length cs) \<and>
    (\<forall>i. \<exists>a n. image_multi_getimg M p i = Some (a, n) \<and>
      (if i < length cs then slice M (unat a) (unat n) = cs ! i \<and> unat n = length (cs ! i) else a = 0 \<and> n = 0))"
proof -
  let ?M = "pre @ hdr @ multi_data cs @ post" and ?d = "length pre + 64"
  have s: "sizes_at ?M ?d cs" using sizes_at_multi [of "pre @ hdr" cs post] assms(1) by simp
  then have count: "multi_count_loop ?M ?d = Some (length cs)" by (rule multi_count_sizes) (use assms(2) in auto)
  have "\<exists>a n. image_multi_getimg ?M (length pre) i = Some (a, n) \<and> slice ?M (unat a) (unat n) = cs ! i \<and> unat n = length (cs ! i)"
    if i: "i < length cs" for i
  proof -
    let ?o = "length (concat (map pad4 (take i cs)))" and ?t = "?d + (length cs + 1) * 4"
    have "multi_offset ?M ?d i 0 = Some (of_nat ?o)" using multi_offset_sizes [OF s, of i 0] assms(2) i by simp
    then have g: "image_multi_getimg ?M (length pre) i = Some (of_nat (?t + ?o), of_nat (length (cs ! i)))"
      using s i count by (simp add: image_multi_getimg_def image_multi_count_def image_get_data_def image_get_header_size_def
          sizes_at_def htonl_htonl)
    have "length (cs ! i) + 3 < 2 ^ 32" using assms(2) nth_mem [OF i] by blast
    then have "length (cs ! i) < 2 ^ 32" by simp
    moreover have "?t + ?o < 2 ^ 32" using assms(3) take_components_le [of i cs] by (simp add: multi_data_def)
    ultimately have u: "unat (of_nat (?t + ?o) :: u32) = ?t + ?o" "unat (of_nat (length (cs ! i)) :: u32) = length (cs ! i)"
      unfolding unat_of_nat by (intro mod_less; simp)+
    have "?M = (pre @ hdr @ size_words cs @ le_bytes 0) @ concat (map pad4 cs) @ post" by (simp add: multi_data_def)
    then have "slice ?M (?t + ?o) (length (cs ! i)) = cs ! i"
      using component_slice [OF i, of "pre @ hdr @ size_words cs @ le_bytes 0" post] assms(1) by (simp add: algebra_simps)
    then show ?thesis using g u by auto
  qed
  moreover have "image_multi_getimg ?M (length pre) i = Some (0, 0)" if "\<not> i < length cs" for i
    using that count by (simp add: image_multi_getimg_def image_multi_count_def image_get_data_def image_get_header_size_def)
  ultimately have "\<exists>a n. image_multi_getimg ?M (length pre) i = Some (a, n) \<and>
      (if i < length cs then slice ?M (unat a) (unat n) = cs ! i \<and> unat n = length (cs ! i) else a = 0 \<and> n = 0)" for i
    by (cases "i < length cs") simp_all
  then show ?thesis
    using count unfolding Let_def by (simp add: image_multi_count_def image_get_data_def image_get_header_size_def)
qed

text \<open>A kernel of three bytes.\<close>

definition params1 :: mkimage_params where
  "params1 = \<lparr>mk_os = 5, mk_arch = 2, mk_type = 2, mk_comp = 0, mk_addr = 0x8000, mk_ep = 0x8040, mk_name = ''Linux''\<rparr>"

abbreviation file1 :: mem where
  "file1 \<equiv> replicate 64 NUL @ ''abc''"

lemma blank_header: "image_get_l ih_hcrc (replicate 64 NUL @ d) 0 = Some 0"
proof -
  have "byte_of NUL = 0" by code_simp
  then show ?thesis by (simp add: image_get_l_def ld32_def rd_def nth_append)
qed

theorem image_set_header_accepted_witness:
  "\<exists>m'. image_set_header params1 7 file1 = Some m' \<and> image_get_kernel (''xy'' @ m' @ ''z'') 2 True = Some (Inr 2)"
proof -
  have len: "64 \<le> length file1" "length file1 < 2 ^ 32" by simp_all
  from image_set_header_accepted [OF len blank_header, of params1 7 0]
  obtain m' where "image_set_header params1 7 file1 = Some m'"
    and all: "\<forall>pre post. image_get_kernel (pre @ m' @ post) (length pre) True =
      Some (if header_bytes params1 ih_arch = IH_ARCH_ARM then Inr (length pre) else Inl Unsupported_Architecture)"
    unfolding Let_def by auto
  moreover have "header_bytes params1 ih_arch = IH_ARCH_ARM" by (simp add: params1_def header_bytes_def IH_ARCH_ARM_def)
  ultimately show ?thesis using spec [OF spec [OF all, of "''xy''"], of "''z''"] by (auto simp: numeral_2_eq_2)
qed

theorem image_damage_refused_witness:
  "\<exists>m' e. image_set_header params1 7 file1 = Some m' \<and> image_get_kernel (m'[65 := CHR ''x'']) 0 True = Some (Inl e)"
proof -
  have len: "64 \<le> length file1" "length file1 < 2 ^ 32" by simp_all
  obtain m' where m': "image_set_header params1 7 file1 = Some m'" "length m' = length file1" "drop 64 m' = drop 64 file1"
    and l: "\<And>f pre post. f \<noteq> ih_hcrc \<Longrightarrow> image_get_l f (pre @ m' @ post) (length pre) = Some (header_words params1 7 (drop 64 file1) f)"
    and b: "\<And>f pre post. image_get_b f (pre @ m' @ post) (length pre) = Some (header_bytes params1 f)"
    and v: "\<And>pre post. image_verify (pre @ m' @ post) (length pre) True = Some None"
    using built_image [OF len blank_header, of params1 7] by metis
  have sz: "image_get_l ih_size m' 0 = Some 3" using l [of ih_size "[]" "[]"] by (simp add: header_words_def)
  have ok: "image_get_kernel m' 0 True = Some (Inr 0)"
    using v [of "[]" "[]"] b [of ih_arch "[]" "[]"]
    by (simp add: image_get_kernel_def image_check_b_def header_bytes_def params1_def IH_ARCH_ARM_def)
  have "m' ! 65 = drop 64 m' ! 1" using m'(2) by simp
  then have c: "CHR ''x'' \<noteq> m' ! 65" unfolding m'(3) by simp
  have len3: "0 + 64 + unat (3 :: u32) \<le> length m'" "65 < 0 + 64 + unat (3 :: u32)" using m'(2) by simp_all
  show ?thesis
    using image_damage_refused [OF sz len3(1) disjI1 [OF ok] _ len3(2) c, of 2] m'(1) by auto
qed

end
