(* ===== verification/Ramdisk.thy ===== *)
theory Ramdisk
  imports Image Env Lmb_Alloc
begin

text \<open>
  The memory that booting may use and the placement of the initial ramdisk (\<^verbatim>\<open>common/image.c\<close>): hints from the environment, a block
  from the logical memory blocks, and the copy. Messages, bootstage marks and cache maintenance are not modelled.
\<close>

section \<open>Hints from the environment\<close>

definition getenv_yesno :: "env_config \<Rightarrow> env_state \<Rightarrow> string \<Rightarrow> bool option" where
  "getenv_yesno cfg st var =
     do { s \<leftarrow> getenv cfg st var;
          Some (case s of Some (c # _) \<Rightarrow> c \<noteq> CHR ''n'' | _ \<Rightarrow> True) }"

definition getenv_bootm_low :: "env_config \<Rightarrow> env_state \<Rightarrow> u32 \<Rightarrow> u32 option" where
  "getenv_bootm_low cfg st sdram_base =
     do { s \<leftarrow> getenv cfg st ''bootm_low'';
          Some (case s of Some t \<Rightarrow> fst (simple_strtoul t 16) | None \<Rightarrow> sdram_base) }"

definition getenv_bootm_size :: "env_config \<Rightarrow> env_state \<Rightarrow> u32 \<Rightarrow> u32 option" where
  "getenv_bootm_size cfg st dram_size =
     do { s \<leftarrow> getenv cfg st ''bootm_size'';
          case s of
            Some t \<Rightarrow> Some (ucast (fst (simple_strtoull t 16)))
          | None \<Rightarrow> do { s \<leftarrow> getenv cfg st ''bootm_low'';
                         let tmp = (case s of Some t \<Rightarrow> ucast (fst (simple_strtoull t 16)) | None \<Rightarrow> 0);
                         Some (dram_size - tmp) } }"

definition getenv_bootm_mapsize :: "env_config \<Rightarrow> env_state \<Rightarrow> u32 \<Rightarrow> u32 option" where
  "getenv_bootm_mapsize cfg st dram_size =
     do { s \<leftarrow> getenv cfg st ''bootm_mapsize'';
          case s of
            Some t \<Rightarrow> Some (ucast (fst (simple_strtoull t 16)))
          | None \<Rightarrow> getenv_bootm_size cfg st dram_size }"

section \<open>Copying\<close>

text \<open>With a watchdog the copy is cut into chunks; with chunks of size zero it never ends.\<close>

function memmove_chunks :: "mem \<Rightarrow> ptr \<Rightarrow> ptr \<Rightarrow> nat \<Rightarrow> nat \<Rightarrow> mem option" where
  "memmove_chunks m to from len chunksz =
     (if len = 0 then Some m
      else if chunksz = 0 then None
      else let t = (if len > chunksz then chunksz else len) in
           case memmove m to from t of
             None \<Rightarrow> None
           | Some (m', _) \<Rightarrow> memmove_chunks m' (to + t) (from + t) (len - t) chunksz)"
  by pat_completeness auto
termination
  by (relation "measure (\<lambda>(m, to, from, len, chunksz). len)") auto

declare memmove_chunks.simps [simp del]

definition memmove_wd :: "bool \<Rightarrow> mem \<Rightarrow> ptr \<Rightarrow> ptr \<Rightarrow> nat \<Rightarrow> nat \<Rightarrow> mem option" where
  "memmove_wd watchdog m to from len chunksz =
     (if to = from then Some m
      else if watchdog then memmove_chunks m to from len chunksz
      else map_option fst (memmove m to from len))"

definition CHUNKSZ :: nat where "CHUNKSZ = 64 * 1024"

section \<open>Placing the ramdisk\<close>

text \<open>The limit for the block, and whether the ramdisk is copied at all.\<close>

definition initrd_hint :: "string option \<Rightarrow> u32 \<times> bool" where
  "initrd_hint s =
     (case s of
        Some t \<Rightarrow> let initrd_high = fst (simple_strtoul t 16) in (initrd_high, initrd_high \<noteq> NOT 0)
      | None \<Rightarrow> (NOT 0, True))"

definition boot_ramdisk_high ::
  "bool \<Rightarrow> env_config \<Rightarrow> env_state \<Rightarrow> mem \<Rightarrow> lmb \<Rightarrow> u32 \<Rightarrow> u32 \<Rightarrow> u32 \<Rightarrow> (int \<times> u32 \<times> u32 \<times> mem \<times> lmb) option" where
  "boot_ramdisk_high watchdog cfg st m l rd_data rd_len initrd_end =
     do { s \<leftarrow> getenv cfg st ''initrd_high'';
          let (initrd_high, initrd_copy_to_ram) = initrd_hint s;
          if rd_data \<noteq> 0
          then if \<not> initrd_copy_to_ram
               then do { (_, l') \<leftarrow> lmb_reserve l rd_data rd_len;
                         Some (0, rd_data, rd_data + rd_len, m, l') }
               else do { (initrd_start, l') \<leftarrow>
                           (if initrd_high \<noteq> 0 then lmb_alloc_base l rd_len 0x1000 initrd_high else lmb_alloc l rd_len 0x1000);
                         if initrd_start = 0 then Some (- 1, 0, initrd_end, m, l')
                         else do { m' \<leftarrow> memmove_wd watchdog m (unat initrd_start) (unat rd_data) (unat rd_len) CHUNKSZ;
                                   Some (0, initrd_start, initrd_start + rd_len, m', l') } }
          else Some (0, 0, 0, m, l) }"

section \<open>The copy in chunks\<close>

lemma slice_add: "a + i + n \<le> length m \<Longrightarrow> slice m a (i + n) = slice m a i @ slice m (a + i) n"
  by (rule nth_equalityI) (auto simp: slice_def nth_append)

text \<open>One chunk leaves the rest of the source as it was when the blocks do not overlap or the destination is the lower one.\<close>

lemma memmove_chunks_block:
  assumes "0 < chunksz" and "to + n \<le> length m" and "from + n \<le> length m" and "to \<le> from \<or> from + n \<le> to"
  shows "memmove_chunks m to from n chunksz = Some (store m to (slice m from n))"
  using assms(2-4)
proof (induction n arbitrary: m to "from" rule: less_induct)
  case (less n)
  show ?case
  proof (cases "n = 0")
    case True
    then show ?thesis by (subst memmove_chunks.simps) (simp add: store_def slice_def)
  next
    case False
    define t where "t = (if n > chunksz then chunksz else n)"
    have t: "0 < t" "t \<le> n" using False assms(1) by (auto simp: t_def)
    let ?m = "store m to (slice m from t)"
    have mv: "memmove m to from t = Some (?m, to)"
      using less.prems t by (auto simp: memmove_def copy_up_store copy_down_store store_slice_same)
    have len: "length (slice m from t) = t" "length ?m = length m" using less.prems t by simp_all
    have src: "slice ?m (from + t) (n - t) = slice m (from + t) (n - t)"
      using less.prems t len(1) by (intro slice_store_apart) auto
    have "memmove_chunks ?m (to + t) (from + t) (n - t) chunksz = Some (store ?m (to + t) (slice ?m (from + t) (n - t)))"
      using less.IH [of "n - t" "to + t" ?m "from + t"] less.prems t len(2) by auto
    also have "\<dots> = Some (store m to (slice m from n))"
      using store_append [of to "slice m from t" "slice m (from + t) (n - t)" m] slice_add [of "from" t "n - t" m] less.prems t len(1)
      by (simp add: src)
    finally show ?thesis
      using False assms(1) mv by (subst memmove_chunks.simps) (simp add: Let_def flip: t_def)
  qed
qed

lemma memmove_wd_block:
  assumes "to + n \<le> length m" and "from + n \<le> length m" and "watchdog \<Longrightarrow> to \<le> from \<or> from + n \<le> to" and "0 < chunksz"
  shows "memmove_wd watchdog m to from n chunksz = Some (store m to (slice m from n))"
  using assms memmove_chunks_block [OF assms(4,1,2)]
  by (auto simp: memmove_wd_def memmove_def copy_up_store copy_down_store store_slice_same)

text \<open>With a watchdog an overlapping move to a higher address copies bytes it has overwritten already.\<close>

lemma memmove_wd_overlap:
  "memmove_wd True ''abcdef'' 2 0 4 2 = Some ''ababab''" "memmove_wd False ''abcdef'' 2 0 4 2 = Some ''ababcd''"
  by code_simp+

section \<open>The placement\<close>

text \<open>A limit of zero is no limit for the allocator, so both calls are the same one.\<close>

lemma ramdisk_alloc:
  assumes "list_ok (lmb_reserved l)" and "list_ok (lmb_memory l)" and "0 < n" and "hi = 0 \<or> n \<le> hi"
  obtains b l' where "(if hi \<noteq> 0 then lmb_alloc_base l n 0x1000 hi else lmb_alloc l n 0x1000) = Some (b, l')"
    and "block_ok l n 0x1000 b l'"
    and "b \<noteq> 0 \<Longrightarrow> {unat b..<unat b + unat n} \<subseteq> covered (lmb_memory l) \<and> unat b + unat n < 2 ^ 32 \<and> (hi \<noteq> 0 \<longrightarrow> unat b + unat n \<le> unat hi)"
proof -
  obtain b l' where b: "alloc_regions l n 0x1000 hi (rg_cnt (lmb_memory l)) = Some (b, l')" "block_ok l n 0x1000 b l'"
    "b \<noteq> 0 \<longrightarrow> (\<exists>p \<in> set (regs (lmb_memory l)). {unat b..<unat b + unat n} \<subseteq> prange p) \<and> unat b + unat n < 2 ^ 32 \<and>
      (hi \<noteq> 0 \<longrightarrow> unat b + unat n \<le> unat hi)"
    using alloc_regions_ok [OF assms order.refl, of "0x1000"] by blast
  then have "b \<noteq> 0 \<Longrightarrow> {unat b..<unat b + unat n} \<subseteq> covered (lmb_memory l) \<and> unat b + unat n < 2 ^ 32 \<and> (hi \<noteq> 0 \<longrightarrow> unat b + unat n \<le> unat hi)"
    by (auto simp: covered_def)
  moreover have "(if hi \<noteq> 0 then lmb_alloc_base l n 0x1000 hi else lmb_alloc l n 0x1000) = Some (b, l')"
    using b(1) by (cases "hi = 0") (simp_all add: lmb_alloc_def lmb_alloc_base_def LMB_ALLOC_ANYWHERE_def)
  ultimately show ?thesis using that [of b l'] b(2) by blast
qed

lemma block_ok_page:
  assumes "block_ok l n 0x1000 b l'" and "b \<noteq> 0"
  shows "0x1000 dvd unat b"
proof -
  have "\<forall>k<32. (0x1000 :: u32) = 2 ^ k \<longrightarrow> 2 ^ k dvd unat b" using assms by (simp add: block_ok_def)
  from spec [OF this, of 12] show ?thesis by simp
qed

text \<open>The copy into a block that the allocator gave: the block holds the ramdisk and no other byte has changed.\<close>

lemma ramdisk_copied:
  assumes "block_ok l n align b l'" and "b \<noteq> 0" and "{unat b..<unat b + unat n} \<subseteq> {..<length m}" and "0 < n"
    and "unat d + unat n \<le> length m" and "watchdog \<longrightarrow> {unat d..<unat d + unat n} \<subseteq> covered (lmb_reserved l)"
  obtains m' where "memmove_wd watchdog m (unat b) (unat d) (unat n) CHUNKSZ = Some m'" "length m' = length m"
    "slice m' (unat b) (unat n) = slice m (unat d) (unat n)"
    "\<forall>a < length m. a \<notin> {unat b..<unat b + unat n} \<longrightarrow> m' ! a = m ! a"
proof -
  let ?d = "slice m (unat d) (unat n)" and ?B = "{unat b..<unat b + unat n}"
  have pos: "0 < unat n" using assms(4) by (simp add: word_less_nat_alt)
  then have "unat b + unat n - 1 \<in> ?B" by simp
  then have "unat b + unat n - 1 \<in> {..<length m}" using assms(3) by blast
  then have fit: "unat b + unat n \<le> length m" by auto
  have "unat b \<le> unat d \<or> unat d + unat n \<le> unat b" if watchdog
  proof (rule ccontr)
    assume "\<not> ?thesis"
    then have "unat b \<in> {unat d..<unat d + unat n}" by auto
    then have "unat b \<in> covered (lmb_reserved l)" using assms(6) that by blast
    moreover have "unat b \<in> ?B" using pos by simp
    moreover have "?B \<inter> covered (lmb_reserved l) = {}" using assms(1,2) by (simp add: block_ok_def)
    ultimately show False by blast
  qed
  then have mv: "memmove_wd watchdog m (unat b) (unat d) (unat n) CHUNKSZ = Some (store m (unat b) ?d)"
    using memmove_wd_block [OF fit assms(5)] by (simp add: CHUNKSZ_def)
  have len: "length ?d = unat n" using assms(5) by simp
  have "slice (store m (unat b) ?d) (unat b) (unat n) = ?d"
    using slice_store_same [of "unat b" ?d m] len fit by simp
  then show thesis using that [OF mv] len fit by (auto simp: nth_store)
qed

text \<open>C12. The ramdisk is placed without damage. The lists of memory and reservations are consistent, the ramdisk, of any length but zero, lies in
  memory, and the limit \<open>initrd_high\<close> is zero (none) or not below the length; then \<open>boot_ramdisk_high\<close> always returns. With the limit of all ones set in the
  environment the ramdisk stays in place, is reserved there and the memory does not change. Otherwise either the call fails and changes nothing, or the ramdisk now
  stands, byte for byte, in a page-aligned block of memory below the limit that was not reserved, and no byte outside of it, hence none of what was reserved
  before, has changed; the block rounded up to whole pages is reserved in addition if what the rounding adds was free. With a watchdog, whose copy goes in
  chunks, the source has to be reserved too.\<close>

theorem boot_ramdisk_high_places:
  assumes "list_ok (lmb_reserved l)" and "list_ok (lmb_memory l)" and "covered (lmb_memory l) \<subseteq> {..<length m}"
    and "getenv cfg st ''initrd_high'' = Some s" and "initrd_hint s = (hi, copy)" and "rd_data \<noteq> 0" and "0 < rd_len"
    and "hi = 0 \<or> rd_len \<le> hi" and "unat rd_data + unat rd_len \<le> length m"
    and "watchdog \<longrightarrow> {unat rd_data..<unat rd_data + unat rd_len} \<subseteq> covered (lmb_reserved l)"
  shows "if copy
    then boot_ramdisk_high watchdog cfg st m l rd_data rd_len end0 = Some (- 1, 0, end0, m, l) \<or>
      (\<exists>start m' l'. boot_ramdisk_high watchdog cfg st m l rd_data rd_len end0 = Some (0, start, start + rd_len, m', l') \<and>
        start \<noteq> 0 \<and> 0x1000 dvd unat start \<and> block_ok l rd_len 0x1000 start l' \<and>
        {unat start..<unat start + unat rd_len} \<subseteq> covered (lmb_memory l) - covered (lmb_reserved l) \<and>
        unat (start + rd_len) = unat start + unat rd_len \<and> (hi \<noteq> 0 \<longrightarrow> start + rd_len \<le> hi) \<and>
        slice m' (unat start) (unat rd_len) = slice m (unat rd_data) (unat rd_len) \<and> length m' = length m \<and>
        (\<forall>a < length m. a \<notin> {unat start..<unat start + unat rd_len} \<longrightarrow> m' ! a = m ! a))
    else \<exists>c l'. lmb_reserve l rd_data rd_len = Some (c, l') \<and>
      boot_ramdisk_high watchdog cfg st m l rd_data rd_len end0 = Some (0, rd_data, rd_data + rd_len, m, l')"
proof (cases copy)
  case False
  obtain c l' where "lmb_reserve l rd_data rd_len = Some (c, l')" by (rule lmb_reserve_total [OF list_ok_shape [OF assms(1)]])
  then show ?thesis using False assms(4-6) by (auto simp: boot_ramdisk_high_def)
next
  case copy: True
  obtain b l' where alloc: "(if hi \<noteq> 0 then lmb_alloc_base l rd_len 0x1000 hi else lmb_alloc l rd_len 0x1000) = Some (b, l')"
    and ok: "block_ok l rd_len 0x1000 b l'"
    and ins: "b \<noteq> 0 \<Longrightarrow> {unat b..<unat b + unat rd_len} \<subseteq> covered (lmb_memory l) \<and> unat b + unat rd_len < 2 ^ 32 \<and>
      (hi \<noteq> 0 \<longrightarrow> unat b + unat rd_len \<le> unat hi)"
    using ramdisk_alloc [OF assms(1,2,7,8)] by blast
  show ?thesis
  proof (cases "b = 0")
    case True
    then have "l' = l" using ok by (simp add: block_ok_def)
    then show ?thesis using True alloc assms(4-6) copy by (simp add: boot_ramdisk_high_def)
  next
    case False
    have B: "{unat b..<unat b + unat rd_len} \<subseteq> {..<length m}" using ins [OF False] assms(3) by blast
    obtain m' where m': "memmove_wd watchdog m (unat b) (unat rd_data) (unat rd_len) CHUNKSZ = Some m'" "length m' = length m"
      "slice m' (unat b) (unat rd_len) = slice m (unat rd_data) (unat rd_len)"
      "\<forall>a < length m. a \<notin> {unat b..<unat b + unat rd_len} \<longrightarrow> m' ! a = m ! a"
      using ramdisk_copied [OF ok False B assms(7,9,10)] .
    have u: "unat (b + rd_len) = unat b + unat rd_len" using ins [OF False] by (intro unat_plus) simp
    have al: "0x1000 dvd unat b" "{unat b..<unat b + unat rd_len} \<inter> covered (lmb_reserved l) = {}"
      using block_ok_page [OF ok False] ok False by (simp_all add: block_ok_def)
    have "boot_ramdisk_high watchdog cfg st m l rd_data rd_len end0 = Some (0, b, b + rd_len, m', l')"
      using alloc m'(1) False assms(4-6) copy by (simp add: boot_ramdisk_high_def)
    moreover have "hi \<noteq> 0 \<longrightarrow> b + rd_len \<le> hi" using ins [OF False] u by (simp add: word_le_nat_alt)
    ultimately show ?thesis using False ok ins [OF False] u al m'(2-4) copy by auto
  qed
qed

theorem boot_ramdisk_high_places_witness:
  "boot_ramdisk_high False cfg5 env5 (replicate 0x108000 NUL) lmb0 0x9000 0x1234 0 \<noteq> None"
proof -
  have e: "getenv cfg5 env5 ''initrd_high'' = Some None"
    using getenv_vars [of env5 "''initrd_high''" cfg5] by (simp add: env_ok_def env5_def table5_ok env_vars_def cstring_def)
  have h: "initrd_hint None = (NOT 0, True)" by (simp add: initrd_hint_def)
  have c: "covered (lmb_memory lmb0) \<subseteq> {..<length (replicate 0x108000 NUL)}"
    by (auto simp: covered_def lmb_at_def regs_def prange_def pend_def)
  show ?thesis
    using boot_ramdisk_high_places [OF lmb0_ok c e h, of "0x9000" "0x1234" False 0] by auto
qed

text \<open>Without a ramdisk nothing happens.\<close>

lemma boot_ramdisk_high_none:
  "getenv cfg st ''initrd_high'' = Some s \<Longrightarrow> boot_ramdisk_high watchdog cfg st m l 0 n end0 = Some (0, 0, 0, m, l)"
  by (simp add: boot_ramdisk_high_def split: prod.split)

end
