(* ===== verification/Packet.thy ===== *)
theory Packet
  imports Net Mem_String
begin

text \<open>
  Frames and packets (\<^verbatim>\<open>net/net.c\<close>, \<^verbatim>\<open>net/arp.c\<close>, \<^verbatim>\<open>include/net.h\<close>): Ethernet headers with and without VLAN tag, IP and UDP
  headers and their checksums, sending a datagram, address resolution with the one packet that waits for it, and the reception of a
  frame. A packet is a byte memory and a header a position in it; headers in the code are structures without padding. What \<open>eth_send\<close> is
  given is recorded in \<open>eth_out\<close>. Fragments are dropped, as without \<open>CONFIG_IP_DEFRAG\<close>, and ICMP messages have no effect but a
  printed line, as without \<open>CONFIG_CMD_PING\<close>; the ARP handler is the dummy one.
\<close>

section \<open>Constants\<close>

definition ETHER_HDR_SIZE :: nat where "ETHER_HDR_SIZE = 14"
definition E802_HDR_SIZE :: nat where "E802_HDR_SIZE = 22"
definition VLAN_ETHER_HDR_SIZE :: nat where "VLAN_ETHER_HDR_SIZE = 18"
definition IP_HDR_SIZE :: nat where "IP_HDR_SIZE = 20"
definition IP_UDP_HDR_SIZE :: nat where "IP_UDP_HDR_SIZE = 28"
definition UDP_HDR_SIZE :: nat where "UDP_HDR_SIZE = 8"
definition ARP_HDR_SIZE :: nat where "ARP_HDR_SIZE = 8 + 20"
definition PROT_IP :: u16 where "PROT_IP = 0x0800"
definition PROT_ARP :: u16 where "PROT_ARP = 0x0806"
definition PROT_VLAN :: u16 where "PROT_VLAN = 0x8100"
definition IPPROTO_ICMP :: u8 where "IPPROTO_ICMP = 1"
definition IPPROTO_UDP :: u8 where "IPPROTO_UDP = 17"
definition IP_OFFS :: u16 where "IP_OFFS = 0x1fff"
definition IP_FLAGS_DFRAG :: u16 where "IP_FLAGS_DFRAG = 0x4000"
definition IP_FLAGS_MFRAG :: u16 where "IP_FLAGS_MFRAG = 0x2000"
definition ARP_ETHER :: u16 where "ARP_ETHER = 1"
definition ARP_HLEN :: u8 where "ARP_HLEN = 6"
definition ARP_PLEN :: u8 where "ARP_PLEN = 4"
definition ARPOP_REQUEST :: u16 where "ARPOP_REQUEST = 1"
definition ARPOP_REPLY :: u16 where "ARPOP_REPLY = 2"
definition ARP_TIMEOUT :: u32 where "ARP_TIMEOUT = 5000"
definition ARP_TIMEOUT_COUNT :: u32 where "ARP_TIMEOUT_COUNT = 5"

definition NetEtherNullAddr :: "u8 list" where "NetEtherNullAddr = replicate 6 0"
definition NetBcastAddr :: "u8 list" where "NetBcastAddr = replicate 6 0xff"

section \<open>State\<close>

text \<open>An Ethernet address is passed by pointer: to that of the server, or to the constant broadcast address.\<close>

datatype mac_ptr = Server_p | Bcast_p

record link = net +
  NetIPID :: u32
  NetTxPacket :: mem
  NetRxPacket :: mem
  NetRxPacketLen :: u32
  NetArpTxPacket :: mem
  NetArpWaitPacketIP :: u32
  NetArpWaitReplyIP :: u32
  NetArpWaitPacketMAC :: "mac_ptr option"
  NetArpWaitTxPacketSize :: u32
  NetArpWaitTimerStart :: u32
  NetArpWaitTry :: u32
  eth_out :: "mem list"

fun mac_at :: "mac_ptr \<Rightarrow> 'a link_scheme \<Rightarrow> u8 list" where
  "mac_at Server_p st = NetServerEther st"
| "mac_at Bcast_p st = NetBcastAddr"

text \<open>Access to a packet: bytes, and halfwords and words in the byte order of the machine.\<close>

definition ld16 :: "mem \<Rightarrow> nat \<Rightarrow> u16 option" where
  "ld16 m a = (if a + 2 \<le> length m then Some (ucast (byte_of (m ! a)) OR push_bit 8 (ucast (byte_of (m ! (a + 1))))) else None)"

definition put :: "mem \<Rightarrow> nat \<Rightarrow> char list \<Rightarrow> mem option" where
  "put m a bs = (if a + length bs \<le> length m then Some (store m a bs) else None)"

definition st16 :: "mem \<Rightarrow> nat \<Rightarrow> u16 \<Rightarrow> mem option" where
  "st16 m a w = put m a [char_byte (ucast w), char_byte (ucast (drop_bit 8 w))]"

definition put_mac :: "mem \<Rightarrow> nat \<Rightarrow> u8 list \<Rightarrow> mem option" where
  "put_mac m a mac = put m a (map char_byte (take 6 mac))"

definition get_mac :: "mem \<Rightarrow> nat \<Rightarrow> u8 list option" where
  "get_mac m a = (if a + 6 \<le> length m then Some (map byte_of (slice m a 6)) else None)"

section \<open>Checksums\<close>

fun cksum_loop :: "mem \<Rightarrow> nat \<Rightarrow> nat \<Rightarrow> u32 \<Rightarrow> u32 option" where
  "cksum_loop m p 0 xsum = Some xsum"
| "cksum_loop m p (Suc len) xsum = do { w \<leftarrow> ld16 m p; cksum_loop m (p + 2) len (xsum + ucast w) }"

definition cksum_fold :: "u32 \<Rightarrow> u32" where
  "cksum_fold xsum = (xsum AND 0xffff) + drop_bit 16 xsum"

lemma two_16: "(2 :: nat) ^ 16 = 65536"
  by simp

lemma unat_low: "unat (x AND 0xffff :: u32) = unat x mod 2 ^ 16"
proof -
  have "(0xffff :: u32) = mask 16" by (simp add: mask_eq_exp_minus_1)
  then show ?thesis by (metis take_bit_eq_mask take_bit_eq_mod unsigned_take_bit_eq)
qed

lemma unat_cksum_fold: "unat (cksum_fold x) = unat x mod 2 ^ 16 + unat x div 2 ^ 16"
proof -
  have "unat x < 2 ^ 16 * 2 ^ 16" using unsigned_less [where ?'a = nat and w = x] by simp
  then have "unat x div 2 ^ 16 < 2 ^ 16" by (rule less_mult_imp_div_less)
  moreover have "unat x mod 2 ^ 16 < 2 ^ 16" by simp
  ultimately have "unat x mod 2 ^ 16 + unat x div 2 ^ 16 < 2 ^ 16 + 2 ^ 16" by (rule add_strict_mono [rotated])
  then have "unat x mod 2 ^ 16 + unat x div 2 ^ 16 < 2 ^ 32" by simp
  moreover have "unat (drop_bit 16 x) = unat x div 2 ^ 16" unfolding unat_drop_bit_eq by (rule drop_bit_eq_div)
  ultimately show ?thesis unfolding cksum_fold_def
    by (simp add: unat_word_ariths unat_low)
qed

definition NetCksum :: "mem \<Rightarrow> nat \<Rightarrow> nat \<Rightarrow> u32 option" where
  "NetCksum m ptr len = do { xsum \<leftarrow> cksum_loop m ptr len 0; Some (cksum_fold (cksum_fold xsum) AND 0xffff) }"

definition NetCksumOk :: "mem \<Rightarrow> nat \<Rightarrow> nat \<Rightarrow> bool option" where
  "NetCksumOk m ptr len = do { c \<leftarrow> NetCksum m ptr len; Some ((c + 1) AND 0xfffe = 0) }"

section \<open>Building headers\<close>

definition my_vlan :: "u16 \<Rightarrow> u16" where
  "my_vlan v = (let myvlanid = htons v in if myvlanid = - 1 then VLAN_NONE else myvlanid)"

definition NetEthHdrSize :: "'a link_scheme \<Rightarrow> nat" where
  "NetEthHdrSize st =
     (if my_vlan (NetOurVLAN st) AND VLAN_IDMASK = VLAN_NONE then ETHER_HDR_SIZE else VLAN_ETHER_HDR_SIZE)"

definition NetSetEther :: "mem \<Rightarrow> u8 list \<Rightarrow> u16 \<Rightarrow> 'a link_scheme \<Rightarrow> (mem \<times> nat) option" where
  "NetSetEther m addr prot st =
     do { let myvlanid = my_vlan (NetOurVLAN st);
          m \<leftarrow> put_mac m 0 addr;
          m \<leftarrow> put_mac m 6 (NetOurEther st);
          if myvlanid AND VLAN_IDMASK = VLAN_NONE
          then do { m \<leftarrow> st16 m 12 (htons prot); Some (m, ETHER_HDR_SIZE) }
          else do { m \<leftarrow> st16 m 12 (htons PROT_VLAN);
                    m \<leftarrow> st16 m 14 (htons (myvlanid AND VLAN_IDMASK));
                    m \<leftarrow> st16 m 16 (htons prot);
                    Some (m, VLAN_ETHER_HDR_SIZE) } }"

definition net_update_ether :: "mem \<Rightarrow> u8 list \<Rightarrow> u16 \<Rightarrow> 'a link_scheme \<Rightarrow> (mem \<times> nat) option" where
  "net_update_ether m addr prot st =
     do { m \<leftarrow> put_mac m 0 addr;
          m \<leftarrow> put_mac m 6 (NetOurEther st);
          p \<leftarrow> ld16 m 12;
          let protlen = htons p;
          if protlen = PROT_VLAN then do { m \<leftarrow> st16 m 16 (htons prot); Some (m, VLAN_ETHER_HDR_SIZE) }
          else if protlen > 1514 then do { m \<leftarrow> st16 m 12 (htons prot); Some (m, ETHER_HDR_SIZE) }
          else do { m \<leftarrow> st16 m 20 (htons prot); Some (m, E802_HDR_SIZE) } }"

definition net_set_ip_header :: "mem \<Rightarrow> nat \<Rightarrow> u32 \<Rightarrow> u32 \<Rightarrow> u32 \<Rightarrow> (mem \<times> u32) option" where
  "net_set_ip_header m ip dest source ipid =
     do { m \<leftarrow> put m ip [char_byte 0x45];
          m \<leftarrow> put m (ip + 1) [char_byte 0];
          m \<leftarrow> st16 m (ip + 2) (htons (of_nat IP_HDR_SIZE));
          m \<leftarrow> st16 m (ip + 4) (htons (ucast ipid));
          m \<leftarrow> st16 m (ip + 6) (htons IP_FLAGS_DFRAG);
          m \<leftarrow> put m (ip + 8) [char_byte 255];
          m \<leftarrow> st16 m (ip + 10) 0;
          m \<leftarrow> st32 m (ip + 12) source;
          m \<leftarrow> st32 m (ip + 16) dest;
          Some (m, ipid + 1) }"

definition net_set_udp_header :: "mem \<Rightarrow> nat \<Rightarrow> u32 \<Rightarrow> u32 \<Rightarrow> u32 \<Rightarrow> u32 \<Rightarrow> 'a link_scheme \<Rightarrow> (mem \<times> u32) option" where
  "net_set_udp_header m ip dest dport sport len st =
     do { m \<leftarrow> (if len AND 1 \<noteq> 0 then put m (ip + IP_UDP_HDR_SIZE + unat len) [char_byte 0] else Some m);
          (m, ipid) \<leftarrow> net_set_ip_header m ip dest (NetOurIP st) (NetIPID st);
          m \<leftarrow> st16 m (ip + 2) (htons (ucast (of_nat IP_UDP_HDR_SIZE + len)));
          m \<leftarrow> put m (ip + 9) [char_byte IPPROTO_UDP];
          c \<leftarrow> NetCksum m ip (IP_HDR_SIZE div 2);
          m \<leftarrow> st16 m (ip + 10) (ucast (NOT c));
          m \<leftarrow> st16 m (ip + 20) (htons (ucast sport));
          m \<leftarrow> st16 m (ip + 22) (htons (ucast dport));
          m \<leftarrow> st16 m (ip + 24) (htons (ucast (of_nat UDP_HDR_SIZE + len)));
          m \<leftarrow> st16 m (ip + 26) 0;
          Some (m, ipid) }"

section \<open>Sending\<close>

definition NetSendPacket :: "mem \<Rightarrow> nat \<Rightarrow> 'a link_scheme \<Rightarrow> 'a link_scheme option" where
  "NetSendPacket pkt len st = (if len \<le> length pkt then Some (st\<lparr>eth_out := eth_out st @ [take len pkt]\<rparr>) else None)"

definition arp_raw_request :: "u32 \<Rightarrow> u8 list \<Rightarrow> u32 \<Rightarrow> 'a link_scheme \<Rightarrow> 'a link_scheme option" where
  "arp_raw_request sourceIP targetEther targetIP st =
     do { (m, arp) \<leftarrow> NetSetEther (NetArpTxPacket st) NetBcastAddr PROT_ARP st;
          m \<leftarrow> st16 m arp (htons ARP_ETHER);
          m \<leftarrow> st16 m (arp + 2) (htons PROT_IP);
          m \<leftarrow> put m (arp + 4) [char_byte ARP_HLEN];
          m \<leftarrow> put m (arp + 5) [char_byte ARP_PLEN];
          m \<leftarrow> st16 m (arp + 6) (htons ARPOP_REQUEST);
          m \<leftarrow> put_mac m (arp + 8) (NetOurEther st);
          m \<leftarrow> st32 m (arp + 14) sourceIP;
          m \<leftarrow> put_mac m (arp + 18) targetEther;
          m \<leftarrow> st32 m (arp + 24) targetIP;
          NetSendPacket m (arp + ARP_HDR_SIZE) (st\<lparr>NetArpTxPacket := m\<rparr>) }"

definition ArpRequest :: "'a link_scheme \<Rightarrow> 'a link_scheme option" where
  "ArpRequest st =
     (let reply =
        (if NetArpWaitPacketIP st AND NetOurSubnetMask st \<noteq> NetOurIP st AND NetOurSubnetMask st
         then if NetOurGatewayIP st = 0 then NetArpWaitPacketIP st else NetOurGatewayIP st
         else NetArpWaitPacketIP st)
      in arp_raw_request (NetOurIP st) NetEtherNullAddr reply (st\<lparr>NetArpWaitReplyIP := reply\<rparr>))"

definition ArpInit :: "'a link_scheme \<Rightarrow> 'a link_scheme" where
  "ArpInit st =
     st\<lparr>NetArpWaitPacketMAC := None, NetArpWaitPacketIP := 0, NetArpWaitReplyIP := 0, NetArpWaitTxPacketSize := 0\<rparr>"

definition ArpTimeoutCheck :: "(nat \<Rightarrow> nat \<Rightarrow> bool) \<Rightarrow> 'a link_scheme \<Rightarrow> 'a link_scheme option" where
  "ArpTimeoutCheck up st =
     (if NetArpWaitPacketIP st = 0 then Some st
      else let t = clock st in
           if t - NetArpWaitTimerStart st > ARP_TIMEOUT
           then let st = st\<lparr>NetArpWaitTry := NetArpWaitTry st + 1\<rparr> in
                if sint (NetArpWaitTry st) \<ge> sint ARP_TIMEOUT_COUNT then Some (NetStartAgain up (st\<lparr>NetArpWaitTry := 0\<rparr>))
                else ArpRequest (st\<lparr>NetArpWaitTimerStart := t\<rparr>)
           else Some st)"

text \<open>The result is 1 while the packet waits for an address, 0 once it is sent.\<close>

definition NetSendUDPPacket :: "mac_ptr \<Rightarrow> u32 \<Rightarrow> u32 \<Rightarrow> u32 \<Rightarrow> u32 \<Rightarrow> 'a link_scheme \<Rightarrow> (int \<times> 'a link_scheme) option" where
  "NetSendUDPPacket ether dest dport sport payload_len st =
     do { let dest = (if dest = 0 then 0xFFFFFFFF else dest);
          let ether = (if dest = 0xFFFFFFFF then Bcast_p else ether);
          (m, eth_hdr_size) \<leftarrow> NetSetEther (NetTxPacket st) (mac_at ether st) PROT_IP st;
          (m, ipid) \<leftarrow> net_set_udp_header m eth_hdr_size dest dport sport payload_len st;
          let st = st\<lparr>NetTxPacket := m, NetIPID := ipid\<rparr>;
          let pkt_hdr_size = eth_hdr_size + IP_UDP_HDR_SIZE;
          if take 6 (mac_at ether st) = NetEtherNullAddr
          then do { st \<leftarrow> ArpRequest (st\<lparr>NetArpWaitPacketIP := dest, NetArpWaitPacketMAC := Some ether,
                            NetArpWaitTxPacketSize := of_nat pkt_hdr_size + payload_len, NetArpWaitTry := 1,
                            NetArpWaitTimerStart := clock st\<rparr>);
                    Some (1, st) }
          else do { st \<leftarrow> NetSendPacket m (unat (of_nat pkt_hdr_size + payload_len)) st; Some (0, st) } }"

section \<open>Receiving\<close>

text \<open>An answer to an ARP request is made in place, in the buffer of the frame received.\<close>

definition arp_answer :: "nat \<Rightarrow> 'a link_scheme \<Rightarrow> 'a link_scheme option" where
  "arp_answer arp st =
     do { src \<leftarrow> get_mac (NetRxPacket st) 6;
          (m, eth_hdr_size) \<leftarrow> net_update_ether (NetRxPacket st) src PROT_ARP st;
          m \<leftarrow> st16 m (arp + 6) (htons ARPOP_REPLY);
          sha \<leftarrow> get_mac m (arp + 8);
          m \<leftarrow> put_mac m (arp + 18) sha;
          spa \<leftarrow> ld32 m (arp + 14);
          m \<leftarrow> st32 m (arp + 24) spa;
          m \<leftarrow> put_mac m (arp + 8) (NetOurEther st);
          m \<leftarrow> st32 m (arp + 14) (NetOurIP st);
          NetSendPacket m (eth_hdr_size + ARP_HDR_SIZE) (st\<lparr>NetRxPacket := m\<rparr>) }"

definition arp_resolved :: "nat \<Rightarrow> 'a link_scheme \<Rightarrow> 'a link_scheme option" where
  "arp_resolved arp st =
     (if NetArpWaitPacketIP st = 0 then Some st
      else do { reply_ip_addr \<leftarrow> ld32 (NetRxPacket st) (arp + 14);
                if reply_ip_addr = NetArpWaitReplyIP st
                then do { sha \<leftarrow> get_mac (NetRxPacket st) (arp + 8);
                          let st = (if NetArpWaitPacketMAC st = Some Server_p then st\<lparr>NetServerEther := sha\<rparr> else st);
                          m \<leftarrow> put_mac (NetTxPacket st) 0 sha;
                          st \<leftarrow> NetSendPacket m (unat (NetArpWaitTxPacketSize st)) (st\<lparr>NetTxPacket := m\<rparr>);
                          Some (st\<lparr>NetArpWaitPacketIP := 0, NetArpWaitTxPacketSize := 0, NetArpWaitPacketMAC := None\<rparr>) }
                else Some st })"

definition ArpReceive :: "nat \<Rightarrow> u32 \<Rightarrow> 'a link_scheme \<Rightarrow> 'a link_scheme option" where
  "ArpReceive arp len st =
     (if sint len < int ARP_HDR_SIZE then Some st
      else do { hrd \<leftarrow> ld16 (NetRxPacket st) arp;
                pro \<leftarrow> ld16 (NetRxPacket st) (arp + 2);
                hln \<leftarrow> rd (NetRxPacket st) (arp + 4);
                pln \<leftarrow> rd (NetRxPacket st) (arp + 5);
                if htons hrd \<noteq> ARP_ETHER \<or> htons pro \<noteq> PROT_IP \<or> byte_of hln \<noteq> ARP_HLEN \<or> byte_of pln \<noteq> ARP_PLEN then Some st
                else if NetOurIP st = 0 then Some st
                else do { tpa \<leftarrow> ld32 (NetRxPacket st) (arp + 24);
                          op \<leftarrow> ld16 (NetRxPacket st) (arp + 6);
                          if tpa \<noteq> NetOurIP st then Some st
                          else if htons op = ARPOP_REQUEST then arp_answer arp st
                          else if htons op = ARPOP_REPLY then arp_resolved arp st
                          else Some st } })"

text \<open>The pseudo header and the datagram, summed and folded, when \<open>CONFIG_UDP_CHECKSUM\<close> is set.\<close>

fun udp_sum :: "mem \<Rightarrow> nat \<Rightarrow> nat \<Rightarrow> u32 \<Rightarrow> u32 option" where
  "udp_sum m p 0 xsum = Some xsum"
| "udp_sum m p (Suc 0) xsum = do { b \<leftarrow> rd m p; Some (xsum + push_bit 8 (ucast (byte_of b))) }"
| "udp_sum m p (Suc (Suc n)) xsum = do { w \<leftarrow> ld16 m p; udp_sum m (p + 2) n (xsum + ucast (htons w)) }"

function fold_carries :: "u32 \<Rightarrow> u32" where
  "fold_carries xsum = (if drop_bit 16 xsum \<noteq> 0 then fold_carries (cksum_fold xsum) else xsum)"
  by pat_completeness auto
termination
proof (relation "measure unat")
  fix x :: u32
  assume "drop_bit 16 x \<noteq> 0"
  then have d: "0 < unat x div 65536" by (metis two_16 drop_bit_eq_div gr0I unat_drop_bit_eq unsigned_eq_0_iff)
  have "unat x mod 65536 + unat x div 65536 < unat x div 65536 * 65536 + unat x mod 65536" using d by linarith
  then have "unat x mod 65536 + unat x div 65536 < unat x" unfolding div_mult_mod_eq .
  then show "(cksum_fold x, x) \<in> measure unat" by (simp add: unat_cksum_fold)
qed simp

declare fold_carries.simps [simp del]

definition udp_xsum_ok :: "mem \<Rightarrow> nat \<Rightarrow> bool option" where
  "udp_xsum_ok m ip =
     do { given \<leftarrow> ld16 m (ip + 26);
          if given = 0 then Some True
          else do { p \<leftarrow> rd m (ip + 9);
                    l \<leftarrow> ld16 m (ip + 24);
                    src \<leftarrow> ld32 m (ip + 12);
                    dst \<leftarrow> ld32 m (ip + 16);
                    let xsum = ucast (byte_of p) + ucast (htons l) + drop_bit 16 (htonl src) + (htonl src AND 0xffff) +
                               drop_bit 16 (htonl dst) + (htonl dst AND 0xffff);
                    xsum \<leftarrow> udp_sum m (ip + 20) (unat (htons l)) xsum;
                    let xsum = fold_carries xsum;
                    Some (xsum = 0 \<or> xsum = 0xffff) } }"

text \<open>A datagram as a handler gets it: the memory from its first byte on, the ports, the sender and the length, which the code computes from
  the length in the UDP header.\<close>

type_synonym udp_packet = "mem \<times> u32 \<times> u32 \<times> u32 \<times> u32"

definition udp_receive :: "bool \<Rightarrow> (udp_packet \<Rightarrow> 'a link_scheme \<Rightarrow> 'a link_scheme option) \<Rightarrow> nat \<Rightarrow> u32 \<Rightarrow> 'a link_scheme \<Rightarrow> 'a link_scheme option" where
  "udp_receive udp_checksum handler ip src_ip st =
     do { let m = NetRxPacket st;
          ok \<leftarrow> (if udp_checksum then udp_xsum_ok m ip else Some True);
          if \<not> ok then Some st
          else do { dport \<leftarrow> ld16 m (ip + 22);
                    sport \<leftarrow> ld16 m (ip + 20);
                    udp_len \<leftarrow> ld16 m (ip + 24);
                    handler (drop (ip + IP_UDP_HDR_SIZE) m, ucast (htons dport), src_ip, ucast (htons sport),
                             ucast (htons udp_len) - of_nat UDP_HDR_SIZE) st } }"

definition ip_receive :: "bool \<Rightarrow> (udp_packet \<Rightarrow> 'a link_scheme \<Rightarrow> 'a link_scheme option) \<Rightarrow> nat \<Rightarrow> u32 \<Rightarrow> 'a link_scheme \<Rightarrow> 'a link_scheme option" where
  "ip_receive udp_checksum handler ip len st =
     (if len < of_nat IP_UDP_HDR_SIZE then Some st
      else do { let m = NetRxPacket st;
                ip_len \<leftarrow> ld16 m (ip + 2);
                if sint len < int (unat (htons ip_len)) then Some st
                else do { hl_v \<leftarrow> rd m ip;
                          ok \<leftarrow> NetCksumOk m ip (IP_HDR_SIZE div 2);
                          if byte_of hl_v AND 0xf0 \<noteq> 0x40 \<or> byte_of hl_v AND 0x0f > 5 \<or> \<not> ok then Some st
                          else do { dst_ip \<leftarrow> ld32 m (ip + 16);
                                    src_ip \<leftarrow> ld32 m (ip + 12);
                                    ip_off \<leftarrow> ld16 m (ip + 6);
                                    ip_p \<leftarrow> rd m (ip + 9);
                                    if NetOurIP st \<noteq> 0 \<and> dst_ip \<noteq> NetOurIP st \<and> dst_ip \<noteq> 0xFFFFFFFF then Some st
                                    else if htons ip_off AND (IP_OFFS OR IP_FLAGS_MFRAG) \<noteq> 0 then Some st
                                    else if byte_of ip_p \<noteq> IPPROTO_UDP then Some st
                                    else udp_receive udp_checksum handler ip src_ip st } } })"

text \<open>The three forms of an Ethernet header: protocol, position and length of the packet and the VLAN it came on; \<open>None\<close> when it is dropped.\<close>

definition eth_classify :: "mem \<Rightarrow> u32 \<Rightarrow> 'a link_scheme \<Rightarrow> (u16 \<times> nat \<times> u32 \<times> u16) option option" where
  "eth_classify m len st =
     do { p \<leftarrow> ld16 m 12;
          let eth_proto = htons p;
          if eth_proto < 1514
          then do { p \<leftarrow> ld16 m 20; Some (Some (htons p, E802_HDR_SIZE, len - of_nat E802_HDR_SIZE, VLAN_NONE)) }
          else if eth_proto \<noteq> PROT_VLAN
          then Some (Some (eth_proto, ETHER_HDR_SIZE, len - of_nat ETHER_HDR_SIZE, VLAN_NONE))
          else if len < of_nat VLAN_ETHER_HDR_SIZE then Some None
          else if htons (NetOurVLAN st) AND VLAN_IDMASK = VLAN_NONE then Some None
          else do { cti \<leftarrow> ld16 m 14;
                    p \<leftarrow> ld16 m 16;
                    Some (Some (htons p, VLAN_ETHER_HDR_SIZE, len - of_nat VLAN_ETHER_HDR_SIZE, htons cti AND VLAN_IDMASK)) } }"

definition NetReceive :: "bool \<Rightarrow> (udp_packet \<Rightarrow> 'a link_scheme \<Rightarrow> 'a link_scheme option) \<Rightarrow> mem \<Rightarrow> u32 \<Rightarrow> 'a link_scheme \<Rightarrow> 'a link_scheme option" where
  "NetReceive udp_checksum handler inpkt len st =
     do { let st = st\<lparr>NetRxPacket := inpkt, NetRxPacketLen := len\<rparr>;
          if len < of_nat ETHER_HDR_SIZE then Some st
          else do { let myvlanid = my_vlan (NetOurVLAN st) AND VLAN_IDMASK;
                    let mynvlanid = my_vlan (NetOurNativeVLAN st) AND VLAN_IDMASK;
                    r \<leftarrow> eth_classify inpkt len st;
                    case r of
                      None \<Rightarrow> Some st
                    | Some (eth_proto, ip, len, vlanid) \<Rightarrow>
                        if myvlanid \<noteq> VLAN_NONE \<and> (if vlanid = VLAN_NONE then mynvlanid else vlanid) \<noteq> myvlanid then Some st
                        else if eth_proto = PROT_ARP then ArpReceive ip len st
                        else if eth_proto = PROT_IP then ip_receive udp_checksum handler ip len st
                        else Some st } }"

section \<open>Fields after writes\<close>

abbreviation le16 :: "u16 \<Rightarrow> char list" where
  "le16 w \<equiv> [char_byte (ucast w), char_byte (ucast (drop_bit 8 w))]"

abbreviation le32 :: "u32 \<Rightarrow> char list" where
  "le32 w \<equiv> [char_byte (ucast w), char_byte (ucast (drop_bit 8 w)), char_byte (ucast (drop_bit 16 w)), char_byte (ucast (drop_bit 24 w))]"

lemma st16_store: "a + 2 \<le> length m \<Longrightarrow> st16 m a w = Some (store m a (le16 w))"
  by (simp add: st16_def put_def)

lemma put_store: "a + length bs \<le> length m \<Longrightarrow> put m a bs = Some (store m a bs)"
  by (simp add: put_def)

lemma put_mac_store: "a + 6 \<le> length m \<Longrightarrow> length mac = 6 \<Longrightarrow> put_mac m a mac = Some (store m a (map char_byte mac))"
  by (simp add: put_mac_def put_def)

lemmas field_writes = st16_store put_store put_mac_store st32_store

lemma rd_apart:
  "b + length bs \<le> length m \<Longrightarrow> a < b \<or> b + length bs \<le> a \<Longrightarrow> rd (store m b bs) a = rd m a"
  by (auto simp: rd_def nth_store)

lemma rd_same: "a < length m \<Longrightarrow> rd (store m a [c]) a = Some c"
  by (simp add: rd_def nth_store)

lemma ld16_apart:
  "b + length bs \<le> length m \<Longrightarrow> a + 2 \<le> b \<or> b + length bs \<le> a \<Longrightarrow> ld16 (store m b bs) a = ld16 m a"
  by (auto simp: ld16_def nth_store)

lemma ld32_apart:
  "b + length bs \<le> length m \<Longrightarrow> a + 4 \<le> b \<or> b + length bs \<le> a \<Longrightarrow> ld32 (store m b bs) a = ld32 m a"
  by (auto simp: ld32_def nth_store)

lemma ld16_same: "a + 2 \<le> length m \<Longrightarrow> ld16 (store m a (le16 w)) a = Some w"
proof -
  have "(ucast (ucast w :: u8) :: u16) OR push_bit 8 (ucast (ucast (drop_bit 8 w) :: u8)) = w"
  proof (rule bit_word_eqI)
    fix n
    assume "n < LENGTH(16)"
    then show "bit ((ucast (ucast w :: u8) :: u16) OR push_bit 8 (ucast (ucast (drop_bit 8 w) :: u8))) n = bit w n"
      by (cases "n < 8") (auto simp: bit_simps)
  qed
  then show "a + 2 \<le> length m \<Longrightarrow> ld16 (store m a (le16 w)) a = Some w"
    by (simp add: ld16_def nth_store)
qed

lemma ld16_zero: "a + 2 \<le> length m \<Longrightarrow> ld16 (store m a [char_byte 0, char_byte 0]) a = Some 0"
  using ld16_same [of a m 0] by simp

lemma ld32_same: "a + 4 \<le> length m \<Longrightarrow> ld32 (store m a (le32 w)) a = Some w"
  using ld32_st32 [of a m w] by (simp add: st32_store)

lemmas field_reads = rd_apart rd_same ld16_apart ld16_same ld16_zero ld32_apart ld32_same slice_store_apart

lemma htons_htons [simp]: "htons (htons x) = x"
proof (rule bit_word_eqI)
  fix n
  assume "n < LENGTH(16)"
  then show "bit (htons (htons x)) n = bit x n" by (cases "n < 8") (auto simp: htons_def bit_simps)
qed

section \<open>The checksum\<close>

definition halfword :: "mem \<Rightarrow> nat \<Rightarrow> nat" where
  "halfword m a = (case ld16 m a of Some w \<Rightarrow> unat w | None \<Rightarrow> 0)"

definition hsum :: "mem \<Rightarrow> nat \<Rightarrow> nat \<Rightarrow> nat" where
  "hsum m p n = (\<Sum>i < n. halfword m (p + 2 * i))"

lemma hsum_add: "hsum m p (a + b) = hsum m p a + hsum m (p + 2 * a) b"
  by (induction b) (simp_all add: hsum_def algebra_simps)

lemma halfword_le: "halfword m a \<le> 65535"
proof (cases "ld16 m a")
  case (Some w)
  have "unat w < 2 ^ 16" using unsigned_less [where ?'a = nat and w = w] by simp
  then show ?thesis using Some by (simp add: halfword_def)
qed (simp add: halfword_def)

lemma hsum_le: "hsum m p n \<le> n * 65535"
  using sum_bounded_above [of "{..<n}" "\<lambda>i. halfword m (p + 2 * i)" 65535] halfword_le by (simp add: hsum_def)

lemma cksum_loop_hsum:
  "p + 2 * n \<le> length m \<Longrightarrow> cksum_loop m p n x = Some (x + of_nat (hsum m p n))"
proof (induction n arbitrary: p x)
  case (Suc n)
  then obtain w where w: "ld16 m p = Some w" by (auto simp: ld16_def)
  have "hsum m p (Suc n) = unat w + hsum m (p + 2) n"
    using hsum_add [of m p 1 n] w by (simp add: hsum_def halfword_def)
  then show ?case using Suc w by (simp add: add.assoc)
qed (simp add: hsum_def)

text \<open>The end-around carry on numbers.\<close>

definition carry :: "nat \<Rightarrow> nat" where
  "carry x = x mod 65536 + x div 65536"

lemma carry_mod: "carry x mod 65535 = x mod 65535"
proof -
  have "x = (x div 65536) * 65535 + carry x" using div_mult_mod_eq [of x 65536] by (simp add: carry_def)
  then show ?thesis by (metis mod_mult_self3)
qed

lemma carry_twice:
  assumes "x < 1048576"
  shows "carry (carry x) \<le> 65535"
proof -
  have "x div 65536 < 16" by (rule less_mult_imp_div_less) (use assms in simp)
  moreover have "x mod 65536 < 65536" by simp
  ultimately have y: "carry x \<le> 65550" unfolding carry_def by linarith
  show ?thesis
  proof (cases "carry x < 65536")
    case False
    then have "carry x div 65536 = 1" "carry x mod 65536 = carry x - 65536"
      using y by (simp_all add: div_nat_eqI le_mod_geq)
    then show ?thesis using y by (simp add: carry_def [of "carry x"])
  qed (simp add: carry_def [of "carry x"])
qed

lemma NetCksum_carry:
  assumes "p + 20 \<le> length m"
  shows "NetCksum m p 10 = Some (of_nat (carry (carry (hsum m p 10))))"
    and "carry (carry (hsum m p 10)) \<le> 65535" and "carry (carry (hsum m p 10)) mod 65535 = hsum m p 10 mod 65535"
proof -
  let ?x = "hsum m p 10"
  have x: "?x < 1048576" using hsum_le [of m p 10] by simp
  show s: "carry (carry ?x) \<le> 65535" using x by (rule carry_twice)
  show "carry (carry ?x) mod 65535 = ?x mod 65535" by (simp add: carry_mod)
  have fold: "unat (cksum_fold y) = carry (unat y)" for y by (simp add: unat_cksum_fold carry_def)
  have "unat (word_of_nat ?x :: u32) = ?x" using x by (simp add: unat_of_nat take_bit_nat_eq_self)
  then have "unat (cksum_fold (cksum_fold (word_of_nat ?x))) = carry (carry ?x)" by (simp add: fold)
  moreover have "unat (y AND 0xffff :: u32) = unat y" if "unat y \<le> 65535" for y using that by (simp add: unat_low)
  ultimately have "unat (cksum_fold (cksum_fold (word_of_nat ?x)) AND 0xffff) = carry (carry ?x)" using s by simp
  then have "cksum_fold (cksum_fold (word_of_nat ?x)) AND 0xffff = word_of_nat (carry (carry ?x))"
    by (metis of_nat_unat ucast_id)
  then show "NetCksum m p 10 = Some (of_nat (carry (carry ?x)))"
    using cksum_loop_hsum [of p 10 m 0] assms by (simp add: NetCksum_def)
qed

text \<open>A header with a cleared checksum field becomes valid when the complement of its checksum is put there.\<close>

lemma cksum_seals:
  assumes "p + 20 \<le> length m" and "ld16 m (p + 10) = Some 0" and "NetCksum m p 10 = Some c"
  shows "NetCksumOk (store m (p + 10) (le16 (ucast (NOT c)))) p 10 = Some True"
proof -
  let ?s = "carry (carry (hsum m p 10))" and ?w = "ucast (NOT c) :: u16"
  let ?m = "store m (p + 10) (le16 ?w)"
  note s = NetCksum_carry [OF assms(1)]
  have c: "c = of_nat ?s" using s(1) assms(3) by simp
  have uc: "unat c = ?s" using s(2) unfolding c by (simp add: unat_of_nat take_bit_nat_eq_self)
  have uw: "unat ?w = 65535 - ?s"
  proof -
    have "?w = NOT (ucast c)" by (rule bit_word_eqI) (simp add: bit_simps)
    then have "?w = - 1 - ucast c" by (simp add: not_eq_complement)
    moreover have "unat (ucast c :: u16) = ?s" using s(2) uc by (simp add: unsigned_ucast_eq take_bit_nat_eq_self)
    moreover have "(ucast c :: u16) \<le> - 1" "unat (- 1 :: u16) = 65535" by (simp_all add: unsigned_minus_1_eq_mask mask_eq_exp_minus_1)
    ultimately show ?thesis using unat_sub [of "ucast c :: u16" "- 1"] by simp
  qed
  have same: "halfword ?m (p + 2 * i) = halfword m (p + 2 * i)" if "i \<noteq> 5" "i < 10" for i
    unfolding halfword_def by (subst ld16_apart) (use that assms(1) in auto)
  have split: "hsum k p 10 = (\<Sum>i \<in> {..<10} - {5}. halfword k (p + 2 * i)) + halfword k (p + 10)" for k
    unfolding hsum_def by (subst sum.remove [of _ 5]) auto
  have "halfword ?m (p + 10) = 65535 - ?s" "halfword m (p + 10) = 0"
    using assms(1,2) uw by (simp_all add: halfword_def ld16_same)
  moreover have "(\<Sum>i \<in> {..<10} - {5}. halfword ?m (p + 2 * i)) = (\<Sum>i \<in> {..<10} - {5}. halfword m (p + 2 * i))"
    by (rule sum.cong) (use same in auto)
  ultimately have sum: "hsum ?m p 10 = hsum m p 10 + (65535 - ?s)" using split [of ?m] split [of m] by simp
  let ?r = "carry (carry (hsum ?m p 10))"
  have len: "p + 20 \<le> length ?m" using assms(1) by simp
  note r = NetCksum_carry [OF len]
  have "(hsum m p 10 + (65535 - ?s)) mod 65535 = (?s + (65535 - ?s)) mod 65535" using s(3) by (metis mod_add_left_eq)
  then have "?r mod 65535 = 0" using r(3) sum s(2) by simp
  then have "?r = 0 \<or> ?r = 65535" using r(2) by (metis le_neq_implies_less mod_less)
  then show ?thesis using r(1) by (auto simp: NetCksumOk_def)
qed

section \<open>What the headers hold\<close>

text \<open>The fields of a UDP packet at a position of a memory, as far as the receiver reads them.\<close>

definition udp_at :: "mem \<Rightarrow> nat \<Rightarrow> u32 \<Rightarrow> u32 \<Rightarrow> u16 \<Rightarrow> u16 \<Rightarrow> u16 \<Rightarrow> bool" where
  "udp_at m ip src dst sport dport n \<longleftrightarrow>
     rd m ip = Some (char_byte 0x45) \<and> ld16 m (ip + 2) = Some (htons (n + 28)) \<and> ld16 m (ip + 6) = Some (htons IP_FLAGS_DFRAG) \<and>
     rd m (ip + 9) = Some (char_byte IPPROTO_UDP) \<and> ld32 m (ip + 12) = Some src \<and> ld32 m (ip + 16) = Some dst \<and>
     NetCksumOk m ip 10 = Some True \<and> ld16 m (ip + 20) = Some (htons sport) \<and> ld16 m (ip + 22) = Some (htons dport) \<and>
     ld16 m (ip + 24) = Some (htons (n + 8)) \<and> ld16 m (ip + 26) = Some 0"

lemma NetCksumOk_apart:
  assumes "p + 20 \<le> b \<or> b + length bs \<le> p" and "b + length bs \<le> length m" and "p + 20 \<le> length m"
  shows "NetCksumOk (store m b bs) p 10 = NetCksumOk m p 10"
proof -
  have "hsum (store m b bs) p 10 = hsum m p 10"
    unfolding hsum_def by (rule sum.cong) (use assms in \<open>auto simp: halfword_def ld16_apart\<close>)
  then show ?thesis using NetCksum_carry [of p m] NetCksum_carry [of p "store m b bs"] assms by (simp add: NetCksumOk_def)
qed

lemma ucast_add_16: "(ucast (x + y :: u32) :: u16) = ucast x + ucast y"
proof -
  have "take_bit 16 (uint x + uint y) = take_bit 16 (take_bit 32 (uint x + uint y))" by (simp add: min_def)
  then show ?thesis by transfer (simp add: take_bit_add)
qed

lemma ip_header_built:
  assumes "ip + 28 + n < length m"
  obtains m' where "net_set_ip_header m ip dest source ipid = Some (m', ipid + 1)" and "length m' = length m"
    and "rd m' ip = Some (char_byte 0x45)" and "ld16 m' (ip + 6) = Some (htons IP_FLAGS_DFRAG)" and "ld16 m' (ip + 10) = Some 0"
    and "ld32 m' (ip + 12) = Some source" and "ld32 m' (ip + 16) = Some dest"
    and "slice m' 0 ip = slice m 0 ip" and "slice m' (ip + 28) n = slice m (ip + 28) n"
proof -
  define m1 where "m1 = store (store (store (store m ip [char_byte 0x45]) (ip + 1) [char_byte 0]) (ip + 2) (le16 (htons 20)))
    (ip + 4) (le16 (htons (ucast ipid)))"
  have l1: "length m1 = length m" using assms by (simp add: m1_def)
  define m2 where "m2 = store (store (store (store (store m1 (ip + 6) (le16 (htons IP_FLAGS_DFRAG))) (ip + 8) [char_byte 255])
    (ip + 10) (le16 0)) (ip + 12) (le32 source)) (ip + 16) (le32 dest)"
  have l2: "length m2 = length m" using assms l1 by (simp add: m2_def)
  have run: "net_set_ip_header m ip dest source ipid = Some (m2, ipid + 1)"
    using assms unfolding m2_def m1_def by (simp add: net_set_ip_header_def field_writes IP_HDR_SIZE_def)
  have "rd m1 ip = Some (char_byte 0x45)" "slice m1 0 ip = slice m 0 ip" "slice m1 (ip + 28) n = slice m (ip + 28) n"
    using assms unfolding m1_def by (simp_all add: field_reads)
  then have r2: "rd m2 ip = Some (char_byte 0x45)" "ld16 m2 (ip + 6) = Some (htons IP_FLAGS_DFRAG)" "ld16 m2 (ip + 10) = Some 0"
    "ld32 m2 (ip + 12) = Some source" "ld32 m2 (ip + 16) = Some dest" "slice m2 0 ip = slice m 0 ip" "slice m2 (ip + 28) n = slice m (ip + 28) n"
    using assms l1 unfolding m2_def by (simp_all add: field_reads)
  show ?thesis by (rule that [OF run l2 r2])
qed

lemma udp_header_built:
  assumes "ip + 28 + unat len < length m"
  obtains m' where "net_set_udp_header m ip dest dport sport len st = Some (m', NetIPID st + 1)"
    and "length m' = length m" and "udp_at m' ip (NetOurIP st) dest (ucast sport) (ucast dport) (ucast len)"
    and "slice m' 0 ip = slice m 0 ip" and "slice m' (ip + 28) (unat len) = slice m (ip + 28) (unat len)"
proof -
  define m0 where "m0 = (if len AND 1 \<noteq> 0 then store m (ip + 28 + unat len) [char_byte 0] else m)"
  have m0: "length m0 = length m" "slice m0 0 ip = slice m 0 ip" "slice m0 (ip + 28) (unat len) = slice m (ip + 28) (unat len)"
    using assms by (simp_all add: m0_def slice_store_apart)
  have "ip + 28 + unat len < length m0" using assms m0(1) by simp
  from ip_header_built [OF this, of dest "NetOurIP st" "NetIPID st"] obtain m2
    where ipset: "net_set_ip_header m0 ip dest (NetOurIP st) (NetIPID st) = Some (m2, NetIPID st + 1)" and l2: "length m2 = length m"
    and r2: "rd m2 ip = Some (char_byte 0x45)" "ld16 m2 (ip + 6) = Some (htons IP_FLAGS_DFRAG)" "ld16 m2 (ip + 10) = Some 0"
    "ld32 m2 (ip + 12) = Some (NetOurIP st)" "ld32 m2 (ip + 16) = Some dest"
    "slice m2 0 ip = slice m 0 ip" "slice m2 (ip + 28) (unat len) = slice m (ip + 28) (unat len)"
    using m0 by metis
  define m3 where "m3 = store (store m2 (ip + 2) (le16 (htons (ucast (28 + len))))) (ip + 9) [char_byte IPPROTO_UDP]"
  have l3: "length m3 = length m" using assms l2 by (simp add: m3_def)
  have ip3: "ip + 20 \<le> length m3" using assms l3 by simp
  have r3: "rd m3 ip = Some (char_byte 0x45)" "ld16 m3 (ip + 2) = Some (htons (ucast (28 + len)))"
    "ld16 m3 (ip + 6) = Some (htons IP_FLAGS_DFRAG)" "rd m3 (ip + 9) = Some (char_byte IPPROTO_UDP)" "ld16 m3 (ip + 10) = Some 0"
    "ld32 m3 (ip + 12) = Some (NetOurIP st)" "ld32 m3 (ip + 16) = Some dest"
    "slice m3 0 ip = slice m 0 ip" "slice m3 (ip + 28) (unat len) = slice m (ip + 28) (unat len)"
    using assms l2 r2 unfolding m3_def by (simp_all add: field_reads)
  obtain c where c: "NetCksum m3 ip 10 = Some c" using NetCksum_carry(1) [OF ip3] by blast
  define m4 where "m4 = store m3 (ip + 10) (le16 (ucast (NOT c)))"
  have l4: "length m4 = length m" using assms l3 by (simp add: m4_def)
  have ok4: "NetCksumOk m4 ip 10 = Some True" unfolding m4_def using cksum_seals [OF ip3 r3(5) c] .
  have r4: "rd m4 ip = Some (char_byte 0x45)" "ld16 m4 (ip + 2) = Some (htons (ucast (28 + len)))"
    "ld16 m4 (ip + 6) = Some (htons IP_FLAGS_DFRAG)" "rd m4 (ip + 9) = Some (char_byte IPPROTO_UDP)"
    "ld32 m4 (ip + 12) = Some (NetOurIP st)" "ld32 m4 (ip + 16) = Some dest"
    "slice m4 0 ip = slice m 0 ip" "slice m4 (ip + 28) (unat len) = slice m (ip + 28) (unat len)"
    using assms l3 r3 unfolding m4_def by (simp_all add: field_reads)
  define m' where "m' = store (store (store (store m4 (ip + 20) (le16 (htons (ucast sport)))) (ip + 22) (le16 (htons (ucast dport))))
    (ip + 24) (le16 (htons (ucast (8 + len))))) (ip + 26) (le16 0)"
  have l': "length m' = length m" using assms l4 by (simp add: m'_def)
  have pad: "(if len AND 1 \<noteq> 0 then put m (ip + IP_UDP_HDR_SIZE + unat len) [char_byte 0] else Some m) = Some m0"
    using assms by (simp add: m0_def put_store IP_UDP_HDR_SIZE_def)
  have run: "net_set_udp_header m ip dest dport sport len st = Some (m', NetIPID st + 1)"
    using assms c l2 l3 l4 unfolding net_set_udp_header_def pad m'_def m4_def m3_def
    by (simp add: ipset field_writes IP_UDP_HDR_SIZE_def UDP_HDR_SIZE_def IP_HDR_SIZE_def)
  have n: "ucast (28 + len) = (ucast len :: u16) + 28" "ucast (8 + len) = (ucast len :: u16) + 8"
    by (simp_all add: ucast_add_16)
  have "NetCksumOk m' ip 10 = Some True" using assms l4 ok4 unfolding m'_def by (simp add: NetCksumOk_apart)
  then have "udp_at m' ip (NetOurIP st) dest (ucast sport) (ucast dport) (ucast len)"
    "slice m' 0 ip = slice m 0 ip" "slice m' (ip + 28) (unat len) = slice m (ip + 28) (unat len)"
    using assms l4 r4 unfolding udp_at_def m'_def n by (simp_all add: field_reads n)
  with run l' show ?thesis by (intro that)
qed

text \<open>The Ethernet header, with a tag or without.\<close>

definition untagged :: "u16 \<Rightarrow> bool" where
  "untagged v \<longleftrightarrow> my_vlan v AND VLAN_IDMASK = VLAN_NONE"

definition eth_size :: "u16 \<Rightarrow> nat" where
  "eth_size v = (if untagged v then 14 else 18)"

definition eth_at :: "mem \<Rightarrow> u16 \<Rightarrow> u16 \<Rightarrow> bool" where
  "eth_at m v prot \<longleftrightarrow>
     (if untagged v then ld16 m 12 = Some (htons prot)
      else ld16 m 12 = Some (htons PROT_VLAN) \<and> ld16 m 14 = Some (htons (my_vlan v AND VLAN_IDMASK)) \<and> ld16 m 16 = Some (htons prot))"

lemma NetEthHdrSize_eq: "NetEthHdrSize st = eth_size (NetOurVLAN st)"
  by (simp add: NetEthHdrSize_def eth_size_def untagged_def ETHER_HDR_SIZE_def VLAN_ETHER_HDR_SIZE_def)

lemma eth_size_le: "14 \<le> eth_size v" "eth_size v \<le> 18"
  by (simp_all add: eth_size_def)

lemma NetSetEther_built:
  assumes "18 \<le> length m" and "length addr = 6" and "length (NetOurEther st) = 6"
  obtains m' where "NetSetEther m addr prot st = Some (m', eth_size (NetOurVLAN st))" and "length m' = length m"
    and "slice m' 0 6 = map char_byte addr" and "slice m' 6 6 = map char_byte (NetOurEther st)"
    and "eth_at m' (NetOurVLAN st) prot" and "\<And>a n. eth_size (NetOurVLAN st) \<le> a \<Longrightarrow> slice m' a n = slice m a n"
proof -
  define m1 where "m1 = store (store m 0 (map char_byte addr)) 6 (map char_byte (NetOurEther st))"
  have m1: "length m1 = length m" "slice m1 0 6 = map char_byte addr" "slice m1 6 6 = map char_byte (NetOurEther st)"
    "\<And>a n. 12 \<le> a \<Longrightarrow> slice m1 a n = slice m a n"
    using assms slice_store_same [of 0 "map char_byte addr" m]
      slice_store_same [of 6 "map char_byte (NetOurEther st)" "store m 0 (map char_byte addr)"]
    by (simp_all add: m1_def slice_store_apart)
  have start: "put_mac m 0 addr = Some (store m 0 (map char_byte addr))"
    "put_mac (store m 0 (map char_byte addr)) 6 (NetOurEther st) = Some m1"
    using assms by (simp_all add: m1_def put_mac_store)
  let ?v = "my_vlan (NetOurVLAN st) AND VLAN_IDMASK"
  show ?thesis
  proof (cases "untagged (NetOurVLAN st)")
    case True
    show ?thesis
      by (rule that [of "store m1 12 (le16 (htons prot))"])
        (use assms m1 start True in \<open>simp_all add: NetSetEther_def Let_def st16_store ETHER_HDR_SIZE_def field_reads eth_size_def
          eth_at_def untagged_def\<close>)
  next
    case False
    show ?thesis
      by (rule that [of "store (store (store m1 12 (le16 (htons PROT_VLAN))) 14 (le16 (htons ?v))) 16 (le16 (htons prot))"])
        (use assms m1 start False in \<open>simp_all add: NetSetEther_def Let_def st16_store VLAN_ETHER_HDR_SIZE_def field_reads eth_size_def
          eth_at_def untagged_def\<close>)
  qed
qed

section \<open>What the receiver reads\<close>

text \<open>A frame stands at the start of the receive buffer, which may be larger.\<close>

lemma rd_take: "a < k \<Longrightarrow> k \<le> length m \<Longrightarrow> rd (take k m @ z) a = rd m a"
  by (simp add: rd_def nth_append)

lemma ld16_take: "a + 2 \<le> k \<Longrightarrow> k \<le> length m \<Longrightarrow> ld16 (take k m @ z) a = ld16 m a"
  by (simp add: ld16_def nth_append)

lemma ld32_take: "a + 4 \<le> k \<Longrightarrow> k \<le> length m \<Longrightarrow> ld32 (take k m @ z) a = ld32 m a"
  by (simp add: ld32_def nth_append)

lemma slice_take: "a + n \<le> k \<Longrightarrow> k \<le> length m \<Longrightarrow> slice (take k m @ z) a n = slice m a n"
  by (auto simp: slice_def drop_take min_def)

lemmas take_reads = rd_take ld16_take ld32_take slice_take

lemma NetCksumOk_take:
  assumes "p + 20 \<le> k" and "k \<le> length m"
  shows "NetCksumOk (take k m @ z) p 10 = NetCksumOk m p 10"
proof -
  have "hsum (take k m @ z) p 10 = hsum m p 10"
    unfolding hsum_def by (rule sum.cong) (use assms in \<open>auto simp: halfword_def ld16_take\<close>)
  then show ?thesis using NetCksum_carry [of p m] NetCksum_carry [of p "take k m @ z"] assms by (simp add: NetCksumOk_def)
qed

lemma udp_at_before:
  "b + length bs \<le> ip \<Longrightarrow> ip + 28 \<le> length m \<Longrightarrow>
   udp_at (store m b bs) ip src dst sport dport n = udp_at m ip src dst sport dport n"
  by (simp add: udp_at_def rd_apart ld16_apart ld32_apart NetCksumOk_apart)

lemma udp_at_take: "ip + 28 \<le> k \<Longrightarrow> k \<le> length m \<Longrightarrow> udp_at (take k m @ z) ip src dst sport dport n = udp_at m ip src dst sport dport n"
  by (simp add: udp_at_def take_reads NetCksumOk_take)

lemma sint_u32_small:
  assumes "unat (x :: u32) < 2 ^ 31"
  shows "sint x = int (unat x)"
proof -
  have "int (unat x) < int (2 ^ 31)" using assms by (simp only: of_nat_less_iff)
  then have "uint x < 2 ^ 31" by simp
  moreover have "- (2 ^ 31) \<le> uint x" by (rule order_trans [OF _ unsigned_greater_eq]) simp
  ultimately have "signed_take_bit 31 (uint x) = uint x" by (intro signed_take_bit_int_eq_self)
  then show ?thesis by (simp add: sint_uint)
qed

lemma ip_receive_udp:
  assumes "udp_at (NetRxPacket st) ip src dst sport dport (of_nat n)" and "n < 65508"
    and "NetOurIP st = 0 \<or> dst = NetOurIP st \<or> dst = 0xFFFFFFFF" and "unat len = 28 + n"
  shows "ip_receive xs handler ip len st =
    handler (drop (ip + 28) (NetRxPacket st), ucast dport, src, ucast sport, of_nat n) st"
proof -
  have w: "unat (word_of_nat k :: u16) = k" if "k < 65536" for k using that by (simp add: unat_of_nat take_bit_nat_eq_self)
  have c: "(ucast y :: u32) = word_of_nat (unat y)" for y :: u16 by simp
  have u: "unat (word_of_nat n + 28 :: u16) = n + 28" "(ucast (word_of_nat n + 8 :: u16) :: u32) = of_nat n + 8"
    using w [of "n + 28"] w [of "n + 8"] c [of "word_of_nat (n + 8)"] assms(2) by simp_all
  have l: "\<not> len < 28" "sint len = 28 + int n"
    using sint_u32_small [of len] assms(2,4) by (simp_all add: word_less_nat_alt)
  have v: "(0x45 :: u8) AND 0xf0 = 0x40" "\<not> (0x45 :: u8) AND 0x0f > 5" by simp_all
  have "IP_FLAGS_DFRAG AND (IP_OFFS OR IP_FLAGS_MFRAG) = 0"
    by (simp add: IP_FLAGS_DFRAG_def IP_OFFS_def IP_FLAGS_MFRAG_def)
  then show ?thesis
    using assms(1,3) u u(1) [THEN arg_cong, of int, folded uint_nat] l v unfolding Let_def
    by (auto simp: Let_def udp_at_def ip_receive_def udp_receive_def udp_xsum_ok_def IP_UDP_HDR_SIZE_def IP_HDR_SIZE_def UDP_HDR_SIZE_def IPPROTO_UDP_def)
qed

lemma eth_at_take: "eth_size v \<le> k \<Longrightarrow> k \<le> length m \<Longrightarrow> eth_at (take k m @ z) v prot = eth_at m v prot"
  by (auto simp: eth_at_def eth_size_def ld16_take)

lemma eth_at_before: "b + length bs \<le> 12 \<Longrightarrow> 18 \<le> length m \<Longrightarrow> eth_at (store m b bs) v prot = eth_at m v prot"
  by (simp add: eth_at_def ld16_apart)

lemma eth_at_after:
  "eth_size v \<le> b \<Longrightarrow> b + length bs \<le> length m \<Longrightarrow> eth_at (store m b bs) v prot = eth_at m v prot"
  by (auto simp: eth_at_def eth_size_def ld16_apart)

lemma eth_at_slice:
  assumes "eth_size v \<le> length m" and "length m' = length m" and "\<And>a n. 12 \<le> a \<Longrightarrow> a + n \<le> eth_size v \<Longrightarrow> slice m' a n = slice m a n"
  shows "eth_at m' v prot = eth_at m v prot"
proof -
  have "ld16 m' a = ld16 m a" if a: "12 \<le> a" "a + 2 \<le> eth_size v" for a
  proof -
    have "slice m' a 1 = slice m a 1" "slice m' (a + 1) 1 = slice m (a + 1) 1" using assms(3) a by auto
    then have "m' ! a = m ! a" "m' ! (a + 1) = m ! (a + 1)"
      using slice_Suc [of a m 0] slice_Suc [of a m' 0] slice_Suc [of "a + 1" m 0] slice_Suc [of "a + 1" m' 0] assms(1,2) a by simp_all
    then show ?thesis using assms(2) by (simp add: ld16_def)
  qed
  then show ?thesis using eth_size_le(1) [of v] by (auto simp: eth_at_def eth_size_def)
qed

text \<open>A receiver on the same VLAN takes the frame apart.\<close>

lemma NetReceive_frame:
  assumes "eth_at inpkt (NetOurVLAN st) prot" and "prot = PROT_IP \<or> prot = PROT_ARP" and "eth_size (NetOurVLAN st) \<le> unat len"
  shows "NetReceive xs handler inpkt len st =
    (let st = st\<lparr>NetRxPacket := inpkt, NetRxPacketLen := len\<rparr>; ip = eth_size (NetOurVLAN st); n = len - of_nat ip in
     if prot = PROT_ARP then ArpReceive ip n st else ip_receive xs handler ip n st)"
proof -
  have p: "\<not> prot < 1514" "prot \<noteq> PROT_VLAN" "\<not> PROT_VLAN < 1514" using assms(2) by (auto simp: PROT_IP_def PROT_ARP_def PROT_VLAN_def)
  have big: "\<not> len < 14" "\<not> untagged (NetOurVLAN st) \<Longrightarrow> \<not> len < 18"
    using assms(3) eth_size_le(1) [of "NetOurVLAN st"] by (auto simp: word_less_nat_alt eth_size_def)
  have "htons (NetOurVLAN st) AND VLAN_IDMASK \<noteq> VLAN_NONE" if "\<not> untagged (NetOurVLAN st)"
    using that by (auto simp: untagged_def my_vlan_def Let_def VLAN_NONE_def VLAN_IDMASK_def split: if_splits)
  then show ?thesis
    using assms(1,2) p big
    by (auto simp: NetReceive_def Let_def eth_classify_def eth_at_def eth_size_def untagged_def ETHER_HDR_SIZE_def
        VLAN_ETHER_HDR_SIZE_def and.assoc PROT_IP_def PROT_ARP_def)
qed

section \<open>ARP packets\<close>

definition arp_at :: "mem \<Rightarrow> nat \<Rightarrow> u16 \<Rightarrow> u8 list \<Rightarrow> u32 \<Rightarrow> u8 list \<Rightarrow> u32 \<Rightarrow> bool" where
  "arp_at m arp op sha spa tha tpa \<longleftrightarrow>
     ld16 m arp = Some (htons ARP_ETHER) \<and> ld16 m (arp + 2) = Some (htons PROT_IP) \<and> rd m (arp + 4) = Some (char_byte ARP_HLEN) \<and>
     rd m (arp + 5) = Some (char_byte ARP_PLEN) \<and> ld16 m (arp + 6) = Some (htons op) \<and> get_mac m (arp + 8) = Some sha \<and>
     ld32 m (arp + 14) = Some spa \<and> get_mac m (arp + 18) = Some tha \<and> ld32 m (arp + 24) = Some tpa"

lemma get_mac_apart:
  "b + length bs \<le> length m \<Longrightarrow> a + 6 \<le> b \<or> b + length bs \<le> a \<Longrightarrow> get_mac (store m b bs) a = get_mac m a"
  by (auto simp: get_mac_def slice_store_apart)

lemma get_mac_same: "a + 6 \<le> length m \<Longrightarrow> length mac = 6 \<Longrightarrow> get_mac (store m a (map char_byte mac)) a = Some mac"
  using slice_store_same [of a "map char_byte mac" m] by (simp add: get_mac_def comp_def)

lemma get_mac_take: "a + 6 \<le> k \<Longrightarrow> k \<le> length m \<Longrightarrow> get_mac (take k m @ z) a = get_mac m a"
  by (simp add: get_mac_def slice_take)

lemma arp_at_take:
  "arp + 28 \<le> k \<Longrightarrow> k \<le> length m \<Longrightarrow> arp_at (take k m @ z) arp op sha spa tha tpa = arp_at m arp op sha spa tha tpa"
  by (simp add: arp_at_def take_reads get_mac_take)

text \<open>The request.\<close>

lemma arp_request_built:
  assumes "eth_size (NetOurVLAN st) + 28 \<le> length (NetArpTxPacket st)" and "length (NetOurEther st) = 6" and "length mac = 6"
  obtains m where "arp_raw_request source mac target st =
      Some (st\<lparr>NetArpTxPacket := m, eth_out := eth_out st @ [take (eth_size (NetOurVLAN st) + 28) m]\<rparr>)"
    and "length m = length (NetArpTxPacket st)" and "eth_at m (NetOurVLAN st) PROT_ARP" and "get_mac m 6 = Some (NetOurEther st)"
    and "arp_at m (eth_size (NetOurVLAN st)) ARPOP_REQUEST (NetOurEther st) source mac target"
proof -
  define e where "e = eth_size (NetOurVLAN st)"
  have e: "14 \<le> e" "e \<le> 18" unfolding e_def by (rule eth_size_le)+
  have "18 \<le> length (NetArpTxPacket st)" "length NetBcastAddr = 6" using assms(1) e by (simp_all add: e_def NetBcastAddr_def)
  from NetSetEther_built [OF this assms(2), of PROT_ARP] obtain m0
    where m0: "NetSetEther (NetArpTxPacket st) NetBcastAddr PROT_ARP st = Some (m0, e)" "length m0 = length (NetArpTxPacket st)"
    "slice m0 6 6 = map char_byte (NetOurEther st)" "eth_at m0 (NetOurVLAN st) PROT_ARP"
    unfolding e_def by metis
  have g0: "get_mac m0 6 = Some (NetOurEther st)" using m0(2,3) assms(1) e by (simp add: get_mac_def e_def comp_def)
  have len: "e + 28 \<le> length m0" using assms(1) m0(2) by (simp add: e_def)
  define m1 where "m1 = store (store (store (store (store m0 e (le16 (htons ARP_ETHER))) (e + 2) (le16 (htons PROT_IP)))
    (e + 4) [char_byte ARP_HLEN]) (e + 5) [char_byte ARP_PLEN]) (e + 6) (le16 (htons ARPOP_REQUEST))"
  have l1: "length m1 = length m0" using len by (simp add: m1_def)
  have r1: "ld16 m1 e = Some (htons ARP_ETHER)" "ld16 m1 (e + 2) = Some (htons PROT_IP)" "rd m1 (e + 4) = Some (char_byte ARP_HLEN)"
    "rd m1 (e + 5) = Some (char_byte ARP_PLEN)" "ld16 m1 (e + 6) = Some (htons ARPOP_REQUEST)" "get_mac m1 6 = Some (NetOurEther st)"
    "eth_at m1 (NetOurVLAN st) PROT_ARP"
    using len e g0 m0(4) unfolding m1_def by (simp_all add: field_reads get_mac_apart eth_at_after flip: e_def)
  define m2 where "m2 = store (store (store (store m1 (e + 8) (map char_byte (NetOurEther st))) (e + 14) (le32 source))
    (e + 18) (map char_byte mac)) (e + 24) (le32 target)"
  have l2: "length m2 = length m0" using len l1 assms(2,3) by (simp add: m2_def)
  have r2: "arp_at m2 e ARPOP_REQUEST (NetOurEther st) source mac target" "get_mac m2 6 = Some (NetOurEther st)"
    "eth_at m2 (NetOurVLAN st) PROT_ARP"
    using len e l1 r1 assms(2,3) unfolding arp_at_def m2_def
    by (simp_all add: field_reads get_mac_apart get_mac_same eth_at_after flip: e_def)
  have "arp_raw_request source mac target st = NetSendPacket m2 (e + 28) (st\<lparr>NetArpTxPacket := m2\<rparr>)"
    using len l1 m0(1) assms(2,3) unfolding arp_raw_request_def m2_def m1_def
    by (simp add: field_writes ARP_HDR_SIZE_def)
  then have "arp_raw_request source mac target st = Some (st\<lparr>NetArpTxPacket := m2, eth_out := eth_out st @ [take (e + 28) m2]\<rparr>)"
    using len l2 by (simp add: NetSendPacket_def)
  then show ?thesis using that [of m2] r2 l2 m0(2) by (simp add: e_def)
qed

end
