(* ===== verification/Packet_Trip.thy ===== *)
theory Packet_Trip
  imports Packet
begin

text \<open>
  Packets between two machines that run the code of \<open>Packet\<close>: a datagram sent by one is delivered by the other, also when the
  Ethernet address has to be asked for first, and what the checks of the receiver leave open.
\<close>

section \<open>The frame of a datagram\<close>

lemma slice_all: "slice m a (length m - a) = drop a m"
  by (simp add: slice_def)

lemma udp_frame_built:
  assumes "length mac = 6" and "length (NetOurEther st) = 6" and "length h = eth_size (NetOurVLAN st) + 28"
    and "m = h @ payload @ z" and "z \<noteq> []" and "length payload < 65508"
  obtains m1 m2 where "NetSetEther m mac PROT_IP st = Some (m1, eth_size (NetOurVLAN st))"
    and "net_set_udp_header m1 (eth_size (NetOurVLAN st)) dest dport sport (of_nat (length payload)) st = Some (m2, NetIPID st + 1)"
    and "length m2 = length m" and "eth_at m2 (NetOurVLAN st) PROT_IP" and "slice m2 0 6 = map char_byte mac"
    and "udp_at m2 (eth_size (NetOurVLAN st)) (NetOurIP st) dest (ucast sport) (ucast dport) (of_nat (length payload))"
    and "slice m2 (eth_size (NetOurVLAN st) + 28) (length payload) = payload"
proof -
  let ?e = "eth_size (NetOurVLAN st)" and ?n = "word_of_nat (length payload) :: u32"
  have e: "14 \<le> ?e" "?e \<le> 18" by (rule eth_size_le)+
  have n: "unat ?n = length payload" using assms(6) by (simp add: unat_of_nat take_bit_nat_eq_self)
  have len: "18 \<le> length m" "?e + 28 + length payload < length m" using assms(3-5) e by auto
  obtain m1 where m1: "NetSetEther m mac PROT_IP st = Some (m1, ?e)" "length m1 = length m" "slice m1 0 6 = map char_byte mac"
    "eth_at m1 (NetOurVLAN st) PROT_IP" "\<And>a n. ?e \<le> a \<Longrightarrow> slice m1 a n = slice m a n"
    using NetSetEther_built [OF len(1) assms(1,2), of PROT_IP] by metis
  have "?e + 28 + unat ?n < length m1" using len(2) m1(2) n by simp
  from udp_header_built [OF this, of dest dport sport st] obtain m2
    where m2: "net_set_udp_header m1 ?e dest dport sport ?n st = Some (m2, NetIPID st + 1)" "length m2 = length m"
      "udp_at m2 ?e (NetOurIP st) dest (ucast sport) (ucast dport) (ucast ?n)"
      "slice m2 0 ?e = slice m1 0 ?e" "slice m2 (?e + 28) (length payload) = slice m1 (?e + 28) (length payload)"
    unfolding n m1(2) by metis
  have sub: "slice m2 a k = slice m1 a k" if "a + k \<le> ?e" for a k
  proof -
    have "slice m' a k = slice (slice m' 0 ?e) a k" for m' :: mem using that by (simp add: slice_def drop_take min_def)
    then show ?thesis using m2(4) by metis
  qed
  have "eth_at m2 (NetOurVLAN st) PROT_IP"
    using eth_at_slice [of "NetOurVLAN st" m1 m2 PROT_IP] m1(2,4) m2(2) sub len e by simp
  moreover have "slice m2 0 6 = map char_byte mac" using sub [of 0 6] m1(3) e by simp
  moreover have "slice m2 (?e + 28) (length payload) = payload" using m2(5) m1(5) [of "?e + 28"] assms(3,4) by (simp add: slice_def)
  moreover have "(ucast ?n :: u16) = of_nat (length payload)" by transfer simp
  ultimately show ?thesis using that [OF m1(1) m2(1,2)] m2(3) by simp
qed

text \<open>Its reception, from a buffer that may be longer than the frame.\<close>

lemma udp_frame_received:
  assumes "eth_at m v PROT_IP" and "udp_at m (eth_size v) src dst sport dport (of_nat (length payload))"
    and "slice m (eth_size v + 28) (length payload) = payload" and "eth_size v + 28 + length payload \<le> length m" and "length payload < 65508"
    and "NetOurVLAN b = v" and "NetOurIP b = 0 \<or> dst = NetOurIP b \<or> dst = 0xFFFFFFFF"
    and "frame = take (eth_size v + 28 + length payload) m"
  shows "NetReceive xs handler (frame @ rest) (of_nat (length frame)) b =
    handler (payload @ rest, ucast dport, src, ucast sport, of_nat (length payload))
      (b\<lparr>NetRxPacket := frame @ rest, NetRxPacketLen := of_nat (length frame)\<rparr>)"
proof -
  let ?e = "eth_size v" and ?len = "word_of_nat (length frame) :: u32"
  have e: "?e \<le> 18" by (rule eth_size_le)
  have fl: "length frame = ?e + 28 + length payload" using assms(4,8) by simp
  have "length frame < 2 ^ LENGTH(32)" using assms(5) e fl by simp
  then have u: "unat ?len = length frame" unfolding unat_of_nat by (rule mod_less)
  have n: "unat (?len - of_nat ?e) = 28 + length payload"
  proof -
    have "unat (of_nat ?e :: u32) = ?e" using e by (simp add: unat_of_nat take_bit_nat_eq_self)
    then show ?thesis using u fl unat_sub [of "of_nat ?e" ?len] by (simp add: word_le_nat_alt)
  qed
  have eth: "eth_at (frame @ rest) v PROT_IP" using assms(1,4) by (simp add: assms(8) eth_at_take)
  have udp: "udp_at (frame @ rest) ?e src dst sport dport (of_nat (length payload))" using assms(2,4) by (simp add: assms(8) udp_at_take)
  have "drop (?e + 28) frame = payload" using assms(3) by (simp add: assms(8) slice_def drop_take)
  then have pay: "drop (?e + 28) (frame @ rest) = payload @ rest" using fl by simp
  show ?thesis
    using NetReceive_frame [of "frame @ rest" b PROT_IP ?len xs handler] eth assms(6) u fl
      ip_receive_udp [of "b\<lparr>NetRxPacket := frame @ rest, NetRxPacketLen := ?len\<rparr>" ?e src dst sport dport "length payload" "?len - of_nat ?e" xs handler]
      udp assms(5,7) n pay
    by (simp add: Let_def PROT_IP_def PROT_ARP_def)
qed

section \<open>The exchange of addresses\<close>

lemma get_mac_length: "get_mac m a = Some mac \<Longrightarrow> length mac = 6"
  by (auto simp: get_mac_def split: if_splits)

lemma update_ether_built:
  assumes "eth_at m (NetOurVLAN st) PROT_ARP" and "eth_size (NetOurVLAN st) + 28 \<le> length m" and "length mac = 6" and "length (NetOurEther st) = 6"
  obtains m' where "net_update_ether m mac PROT_ARP st = Some (m', eth_size (NetOurVLAN st))" and "length m' = length m"
    and "slice m' 0 6 = map char_byte mac" and "eth_at m' (NetOurVLAN st) PROT_ARP"
    and "\<And>op sha spa tha tpa. arp_at m' (eth_size (NetOurVLAN st)) op sha spa tha tpa = arp_at m (eth_size (NetOurVLAN st)) op sha spa tha tpa"
proof -
  define e where "e = eth_size (NetOurVLAN st)"
  have e: "14 \<le> e" "e \<le> 18" unfolding e_def by (rule eth_size_le)+
  have len: "e + 28 \<le> length m" using assms(2) by (simp add: e_def)
  define m1 where "m1 = store (store m 0 (map char_byte mac)) 6 (map char_byte (NetOurEther st))"
  have l1: "length m1 = length m" using len assms(3,4) by (simp add: m1_def)
  have e1: "eth_at m1 (NetOurVLAN st) PROT_ARP" using assms(1,3,4) len e by (simp add: m1_def eth_at_before)
  have s1: "slice m1 0 6 = map char_byte mac"
    using slice_store_same [of 0 "map char_byte mac" m] assms(3,4) len e by (simp add: m1_def slice_store_apart)
  define k where "k = (if untagged (NetOurVLAN st) then 12 else 16 :: nat)"
  define m2 where "m2 = store m1 k (le16 (htons PROT_ARP))"
  have k: "k + 2 = e" "12 \<le> k" by (simp_all add: k_def e_def eth_size_def)
  have l2: "length m2 = length m" using k e len l1 by (simp add: m2_def)
  have "eth_at m2 (NetOurVLAN st) PROT_ARP" using e1 l1 len e unfolding eth_at_def m2_def k_def by (simp add: field_reads)
  moreover have "slice m2 0 6 = map char_byte mac" using s1 k e len l1 by (simp add: m2_def slice_store_apart)
  moreover have "arp_at m2 e op sha spa tha tpa = arp_at m e op sha spa tha tpa" for op sha spa tha tpa
    using assms(3,4) k e len l1 unfolding arp_at_def m2_def m1_def
    by (simp add: rd_apart ld16_apart ld32_apart get_mac_apart)
  moreover have "net_update_ether m mac PROT_ARP st = Some (m2, e)"
    using assms(3,4) e1 len e l1 unfolding net_update_ether_def m2_def k_def e_def eth_at_def eth_size_def
    by (simp add: put_mac_store st16_store Let_def PROT_VLAN_def PROT_ARP_def ETHER_HDR_SIZE_def VLAN_ETHER_HDR_SIZE_def flip: m1_def split: if_splits)
  ultimately show ?thesis using that [of m2] l2 by (simp add: e_def)
qed

lemma arp_answered:
  assumes "eth_at (NetRxPacket st) (NetOurVLAN st) PROT_ARP" and "get_mac (NetRxPacket st) 6 = Some src"
    and "arp_at (NetRxPacket st) (eth_size (NetOurVLAN st)) ARPOP_REQUEST sha spa tha (NetOurIP st)" and "NetOurIP st \<noteq> 0"
    and "eth_size (NetOurVLAN st) + 28 \<le> length (NetRxPacket st)" and "length (NetOurEther st) = 6" and "28 \<le> sint len"
  obtains m where "ArpReceive (eth_size (NetOurVLAN st)) len st =
      Some (st\<lparr>NetRxPacket := m, eth_out := eth_out st @ [take (eth_size (NetOurVLAN st) + 28) m]\<rparr>)"
    and "length m = length (NetRxPacket st)" and "slice m 0 6 = map char_byte src" and "eth_at m (NetOurVLAN st) PROT_ARP"
    and "arp_at m (eth_size (NetOurVLAN st)) ARPOP_REPLY (NetOurEther st) (NetOurIP st) sha spa"
proof -
  define e where "e = eth_size (NetOurVLAN st)"
  have e: "14 \<le> e" unfolding e_def by (rule eth_size_le)
  obtain m0 where m0: "net_update_ether (NetRxPacket st) src PROT_ARP st = Some (m0, e)" "length m0 = length (NetRxPacket st)"
    "slice m0 0 6 = map char_byte src" "eth_at m0 (NetOurVLAN st) PROT_ARP" "arp_at m0 e ARPOP_REQUEST sha spa tha (NetOurIP st)"
    using update_ether_built [OF assms(1,5) get_mac_length [OF assms(2)] assms(6)] assms(3) unfolding e_def by metis
  have len: "e + 28 \<le> length m0" using assms(5) m0(2) by (simp add: e_def)
  have sha: "length sha = 6" using m0(5) by (auto simp: arp_at_def dest: get_mac_length)
  define m1 where "m1 = store m0 (e + 6) (le16 (htons ARPOP_REPLY))"
  define m2 where "m2 = store (store m1 (e + 18) (map char_byte sha)) (e + 24) (le32 spa)"
  define m3 where "m3 = store (store m2 (e + 8) (map char_byte (NetOurEther st))) (e + 14) (le32 (NetOurIP st))"
  have l: "length m1 = length m0" "length m2 = length m0" "length m3 = length m0"
    using len sha assms(6) by (simp_all add: m1_def m2_def m3_def)
  have r1: "get_mac m1 (e + 8) = Some sha" "ld32 m1 (e + 14) = Some spa"
    using m0(5) len by (simp_all add: m1_def arp_at_def get_mac_apart field_reads)
  have "arp_at m1 e ARPOP_REPLY sha spa tha (NetOurIP st)"
    using m0(5) len unfolding arp_at_def m1_def by (simp add: field_reads get_mac_apart)
  then have "arp_at m2 e ARPOP_REPLY sha spa sha spa"
    using len l(1) sha unfolding arp_at_def m2_def by (simp add: field_reads get_mac_apart get_mac_same)
  then have "arp_at m3 e ARPOP_REPLY (NetOurEther st) (NetOurIP st) sha spa"
    using len l(2) assms(6) unfolding arp_at_def m3_def by (simp add: field_reads get_mac_apart get_mac_same)
  moreover have "slice m3 0 6 = map char_byte src" "eth_at m3 (NetOurVLAN st) PROT_ARP"
    using m0(3,4) len l sha assms(6) e unfolding m3_def m2_def m1_def
    by (simp_all add: slice_store_apart eth_at_after flip: e_def)
  moreover have "arp_answer e st = Some (st\<lparr>NetRxPacket := m3, eth_out := eth_out st @ [take (e + 28) m3]\<rparr>)"
  proof -
    have "arp_answer e st = NetSendPacket m3 (e + 28) (st\<lparr>NetRxPacket := m3\<rparr>)"
      using assms(2,6) m0(1) r1 len l sha unfolding arp_answer_def
      by (simp add: st16_store put_mac_store st32_store ARP_HDR_SIZE_def ld32_apart flip: m1_def) (simp add: m3_def m2_def)
    then show ?thesis using len l(3) by (simp add: NetSendPacket_def)
  qed
  then have "ArpReceive e len st = Some (st\<lparr>NetRxPacket := m3, eth_out := eth_out st @ [take (e + 28) m3]\<rparr>)"
    using assms(3,4,7) by (simp add: ArpReceive_def arp_at_def ARP_HDR_SIZE_def flip: e_def)
  ultimately show ?thesis using that [of m3] l(3) m0(2) by (simp add: e_def)
qed

lemma arp_resolves:
  assumes "arp_at (NetRxPacket st) arp ARPOP_REPLY sha (NetArpWaitReplyIP st) tha (NetOurIP st)" and "NetOurIP st \<noteq> 0"
    and "NetArpWaitPacketIP st \<noteq> 0" and "NetArpWaitPacketMAC st = Some Server_p" and "28 \<le> sint len"
    and "6 \<le> length (NetTxPacket st)" and "unat (NetArpWaitTxPacketSize st) \<le> length (NetTxPacket st)"
  shows "ArpReceive arp len st =
    (let m = store (NetTxPacket st) 0 (map char_byte sha) in
     Some (st\<lparr>NetServerEther := sha, NetTxPacket := m, eth_out := eth_out st @ [take (unat (NetArpWaitTxPacketSize st)) m],
       NetArpWaitPacketIP := 0, NetArpWaitTxPacketSize := 0, NetArpWaitPacketMAC := None\<rparr>))"
proof -
  have "length sha = 6" using assms(1) by (auto simp: arp_at_def dest: get_mac_length)
  then have "arp_resolved arp st = (let m = store (NetTxPacket st) 0 (map char_byte sha) in
     Some (st\<lparr>NetServerEther := sha, NetTxPacket := m, eth_out := eth_out st @ [take (unat (NetArpWaitTxPacketSize st)) m],
       NetArpWaitPacketIP := 0, NetArpWaitTxPacketSize := 0, NetArpWaitPacketMAC := None\<rparr>))"
    using assms(1,3,4,6,7) by (simp add: arp_resolved_def arp_at_def Let_def put_mac_store NetSendPacket_def)
  then show ?thesis
    using assms(1,2,5) by (simp add: ArpReceive_def arp_at_def ARP_HDR_SIZE_def ARPOP_REPLY_def ARPOP_REQUEST_def)
qed

text \<open>The frame of an ARP packet on its way.\<close>

lemma arp_frame_received:
  assumes "eth_at m (NetOurVLAN b) PROT_ARP" and "arp_at m (eth_size (NetOurVLAN b)) op sha spa tha tpa"
    and "eth_size (NetOurVLAN b) + 28 \<le> length m" and "frame = take (eth_size (NetOurVLAN b) + 28) m"
  shows "NetReceive xs handler (frame @ rest) (of_nat (length frame)) b =
      ArpReceive (eth_size (NetOurVLAN b)) 28 (b\<lparr>NetRxPacket := frame @ rest, NetRxPacketLen := of_nat (length frame)\<rparr>)"
    and "eth_at (frame @ rest) (NetOurVLAN b) PROT_ARP" and "arp_at (frame @ rest) (eth_size (NetOurVLAN b)) op sha spa tha tpa"
proof -
  let ?e = "eth_size (NetOurVLAN b)"
  have fl: "length frame = ?e + 28" using assms(3,4) by simp
  have "length frame < 2 ^ LENGTH(32)" using fl eth_size_le(2) [of "NetOurVLAN b"] by simp
  then have "unat (word_of_nat (length frame) :: u32) = length frame" unfolding unat_of_nat by (rule mod_less)
  then have u: "?e \<le> unat (word_of_nat (length frame) :: u32)" using fl by simp
  show e: "eth_at (frame @ rest) (NetOurVLAN b) PROT_ARP" "arp_at (frame @ rest) ?e op sha spa tha tpa"
    using assms(1-3) by (simp_all add: assms(4) eth_at_take arp_at_take)
  show "NetReceive xs handler (frame @ rest) (of_nat (length frame)) b =
      ArpReceive ?e 28 (b\<lparr>NetRxPacket := frame @ rest, NetRxPacketLen := of_nat (length frame)\<rparr>)"
    using NetReceive_frame [OF e(1) _ u] fl by (simp add: Let_def)
qed

section \<open>The properties\<close>

text \<open>C6. A datagram arrives as it was sent: when the Ethernet address is known, \<open>NetSendUDPPacket\<close> transmits one frame, and \<open>NetReceive\<close> of any machine on
  the same VLAN that has the destination address, or has none yet, passes its checks of both headers and hands exactly the payload, the two ports, the sender's
  address and the length to the handler, from a buffer of any size, with or without the UDP checksum configured.\<close>

theorem udp_frame_delivered:
  fixes a :: "'a link_scheme" and b :: "'b link_scheme"
  assumes "length (NetOurEther a) = 6" and "length (NetServerEther a) = 6" and "NetServerEther a \<noteq> NetEtherNullAddr"
    and "NetTxPacket a = h @ payload @ z" and "length h = NetEthHdrSize a + 28" and "z \<noteq> []" and "length payload < 65508"
    and "dest \<noteq> 0" and "dest \<noteq> 0xFFFFFFFF" and "NetOurVLAN b = NetOurVLAN a" and "NetOurIP b = 0 \<or> NetOurIP b = dest"
  shows "\<exists>a' frame. NetSendUDPPacket Server_p dest dport sport (of_nat (length payload)) a = Some (0, a') \<and>
    eth_out a' = eth_out a @ [frame] \<and>
    (\<forall>rest. NetReceive xs handler (frame @ rest) (of_nat (length frame)) b =
      handler (payload @ rest, ucast (ucast dport :: u16), NetOurIP a, ucast (ucast sport :: u16), of_nat (length payload))
        (b\<lparr>NetRxPacket := frame @ rest, NetRxPacketLen := of_nat (length frame)\<rparr>))"
proof -
  let ?e = "eth_size (NetOurVLAN a)"
  obtain m1 m2 where m: "NetSetEther (NetTxPacket a) (NetServerEther a) PROT_IP a = Some (m1, ?e)"
    "net_set_udp_header m1 ?e dest dport sport (of_nat (length payload)) a = Some (m2, NetIPID a + 1)"
    "length m2 = length (NetTxPacket a)" "eth_at m2 (NetOurVLAN a) PROT_IP"
    "udp_at m2 ?e (NetOurIP a) dest (ucast sport) (ucast dport) (of_nat (length payload))" "slice m2 (?e + 28) (length payload) = payload"
    using udp_frame_built [OF assms(2,1,5) [unfolded NetEthHdrSize_eq] assms(4,6,7)] by metis
  have n: "?e + 28 + length payload \<le> length m2" using assms(4,5) m(3) by (simp add: NetEthHdrSize_eq)
  have "?e + 28 + length payload < 2 ^ LENGTH(32)" using assms(7) eth_size_le(2) [of "NetOurVLAN a"] by simp
  then have u: "unat (of_nat (?e + 28) + of_nat (length payload) :: u32) = ?e + 28 + length payload"
    unfolding of_nat_add [symmetric] unat_of_nat by (rule mod_less)
  let ?f = "take (?e + 28 + length payload) m2"
  have "NetSendUDPPacket Server_p dest dport sport (of_nat (length payload)) a =
      Some (0, a\<lparr>NetTxPacket := m2, NetIPID := NetIPID a + 1, eth_out := eth_out a @ [?f]\<rparr>)"
    using m(1,2) u n assms(2,3,8,9)
    by (simp add: NetSendUDPPacket_def Let_def NetSendPacket_def IP_UDP_HDR_SIZE_def)
  moreover have "NetReceive xs handler (?f @ rest) (of_nat (length ?f)) b =
      handler (payload @ rest, ucast (ucast dport :: u16), NetOurIP a, ucast (ucast sport :: u16), of_nat (length payload))
        (b\<lparr>NetRxPacket := ?f @ rest, NetRxPacketLen := of_nat (length ?f)\<rparr>)" for rest
    using udp_frame_received [OF m(4-6) n assms(7,10) _ refl, of xs handler rest] assms(11) by auto
  ultimately show ?thesis by (intro exI [of _ "a\<lparr>NetTxPacket := m2, NetIPID := NetIPID a + 1, eth_out := eth_out a @ [?f]\<rparr>"] exI [of _ ?f]) auto
qed

lemma NetSendUDPPacket_waits:
  fixes a :: "'a link_scheme"
  assumes "length (NetOurEther a) = 6" and "NetServerEther a = NetEtherNullAddr" and "NetTxPacket a = h @ payload @ z"
    and "length h = NetEthHdrSize a + 28" and "z \<noteq> []" and "length payload < 65508" and "dest \<noteq> 0" and "dest \<noteq> 0xFFFFFFFF"
    and "NetEthHdrSize a + 28 \<le> length (NetArpTxPacket a)"
    and "hop = (if dest AND NetOurSubnetMask a \<noteq> NetOurIP a AND NetOurSubnetMask a \<and> NetOurGatewayIP a \<noteq> 0 then NetOurGatewayIP a else dest)"
  obtains m q where "NetSendUDPPacket Server_p dest dport sport (of_nat (length payload)) a =
      Some (1, a\<lparr>NetTxPacket := m, NetIPID := NetIPID a + 1, NetArpWaitPacketIP := dest, NetArpWaitPacketMAC := Some Server_p,
        NetArpWaitTxPacketSize := of_nat (NetEthHdrSize a + 28 + length payload), NetArpWaitTry := 1, NetArpWaitTimerStart := clock a,
        NetArpWaitReplyIP := hop, NetArpTxPacket := q, eth_out := eth_out a @ [take (NetEthHdrSize a + 28) q]\<rparr>)"
    and "length m = length (NetTxPacket a)" and "eth_at m (NetOurVLAN a) PROT_IP"
    and "udp_at m (NetEthHdrSize a) (NetOurIP a) dest (ucast sport) (ucast dport) (of_nat (length payload))"
    and "slice m (NetEthHdrSize a + 28) (length payload) = payload"
    and "length q = length (NetArpTxPacket a)" and "eth_at q (NetOurVLAN a) PROT_ARP" and "get_mac q 6 = Some (NetOurEther a)"
    and "arp_at q (NetEthHdrSize a) ARPOP_REQUEST (NetOurEther a) (NetOurIP a) NetEtherNullAddr hop"
proof -
  let ?e = "eth_size (NetOurVLAN a)"
  have z6: "length NetEtherNullAddr = 6" by (simp add: NetEtherNullAddr_def)
  obtain m1 m where m: "NetSetEther (NetTxPacket a) NetEtherNullAddr PROT_IP a = Some (m1, ?e)"
    "net_set_udp_header m1 ?e dest dport sport (of_nat (length payload)) a = Some (m, NetIPID a + 1)"
    "length m = length (NetTxPacket a)" "eth_at m (NetOurVLAN a) PROT_IP"
    "udp_at m ?e (NetOurIP a) dest (ucast sport) (ucast dport) (of_nat (length payload))" "slice m (?e + 28) (length payload) = payload"
    using udp_frame_built [OF z6 assms(1) assms(4) [unfolded NetEthHdrSize_eq] assms(3,5,6)] by metis
  define w0 where "w0 = a\<lparr>NetTxPacket := m, NetIPID := NetIPID a + 1, NetArpWaitPacketIP := dest, NetArpWaitPacketMAC := Some Server_p,
        NetArpWaitTxPacketSize := of_nat (?e + 28 + length payload), NetArpWaitTry := 1, NetArpWaitTimerStart := clock a\<rparr>"
  define a0 where "a0 = w0\<lparr>NetArpWaitReplyIP := hop\<rparr>"
  have w0: "ArpRequest w0 = arp_raw_request (NetOurIP a) NetEtherNullAddr hop a0"
    using assms(10) by (auto simp: ArpRequest_def Let_def a0_def w0_def)
  have "eth_size (NetOurVLAN a0) + 28 \<le> length (NetArpTxPacket a0)" "length (NetOurEther a0) = 6"
    using assms(1,9) by (simp_all add: a0_def w0_def NetEthHdrSize_eq)
  from arp_request_built [OF this z6, of "NetOurIP a" hop] obtain q
    where q: "arp_raw_request (NetOurIP a) NetEtherNullAddr hop a0 = Some (a0\<lparr>NetArpTxPacket := q, eth_out := eth_out a @ [take (?e + 28) q]\<rparr>)"
    "length q = length (NetArpTxPacket a)" "eth_at q (NetOurVLAN a) PROT_ARP" "get_mac q 6 = Some (NetOurEther a)"
    "arp_at q ?e ARPOP_REQUEST (NetOurEther a) (NetOurIP a) NetEtherNullAddr hop"
    by (auto simp: a0_def w0_def)
  have "NetSendUDPPacket Server_p dest dport sport (of_nat (length payload)) a = do { st \<leftarrow> ArpRequest w0; Some (1, st) }"
    using m(1,2) assms(2,7,8) z6 by (simp add: NetSendUDPPacket_def Let_def IP_UDP_HDR_SIZE_def w0_def)
  then have "NetSendUDPPacket Server_p dest dport sport (of_nat (length payload)) a =
      Some (1, a0\<lparr>NetArpTxPacket := q, eth_out := eth_out a @ [take (?e + 28) q]\<rparr>)"
    using q(1) by (simp add: w0)
  then have s: "NetSendUDPPacket Server_p dest dport sport (of_nat (length payload)) a =
      Some (1, a\<lparr>NetTxPacket := m, NetIPID := NetIPID a + 1, NetArpWaitPacketIP := dest, NetArpWaitPacketMAC := Some Server_p,
        NetArpWaitTxPacketSize := of_nat (NetEthHdrSize a + 28 + length payload), NetArpWaitTry := 1, NetArpWaitTimerStart := clock a,
        NetArpWaitReplyIP := hop, NetArpTxPacket := q, eth_out := eth_out a @ [take (NetEthHdrSize a + 28) q]\<rparr>)"
    unfolding a0_def w0_def NetEthHdrSize_eq .
  note E = NetEthHdrSize_eq [of a, symmetric]
  show ?thesis by (rule that [OF s m(3,4) m(5,6) [unfolded E] q(2-4) q(5) [unfolded E]])
qed

lemma request_answered:
  assumes "eth_at q (NetOurVLAN b) PROT_ARP" and "get_mac q 6 = Some src" and "eth_size (NetOurVLAN b) + 28 \<le> length q"
    and "arp_at q (eth_size (NetOurVLAN b)) ARPOP_REQUEST src spa tha (NetOurIP b)" and "NetOurIP b \<noteq> 0" and "length (NetOurEther b) = 6"
    and "f = take (eth_size (NetOurVLAN b) + 28) q"
  obtains b1 r where "NetReceive xs handler (f @ rest) (of_nat (length f)) b = Some b1"
    and "eth_out b1 = eth_out b @ [take (eth_size (NetOurVLAN b) + 28) r]" and "eth_size (NetOurVLAN b) + 28 \<le> length r"
    and "eth_at r (NetOurVLAN b) PROT_ARP" and "arp_at r (eth_size (NetOurVLAN b)) ARPOP_REPLY (NetOurEther b) (NetOurIP b) src spa"
proof -
  define e where "e = eth_size (NetOurVLAN b)"
  have e: "14 \<le> e" unfolding e_def by (rule eth_size_le)
  have lq: "e + 28 \<le> length q" using assms(3) by (simp add: e_def)
  note atb = arp_frame_received [OF assms(1,4,3,7), folded e_def]
  define b0 where "b0 = b\<lparr>NetRxPacket := f @ rest, NetRxPacketLen := of_nat (length f)\<rparr>"
  have b0: "NetRxPacket b0 = f @ rest" "NetOurVLAN b0 = NetOurVLAN b" "NetOurIP b0 = NetOurIP b" "NetOurEther b0 = NetOurEther b" "eth_out b0 = eth_out b"
    by (simp_all add: b0_def)
  have "get_mac (f @ rest) 6 = Some src" "e + 28 \<le> length (f @ rest)" using assms(2,7) lq e by (simp_all add: get_mac_take e_def)
  then obtain r where r: "ArpReceive e 28 b0 = Some (b0\<lparr>NetRxPacket := r, eth_out := eth_out b @ [take (e + 28) r]\<rparr>)"
    "length r = length (f @ rest)" "eth_at r (NetOurVLAN b) PROT_ARP" "arp_at r e ARPOP_REPLY (NetOurEther b) (NetOurIP b) src spa"
    using arp_answered [of b0, unfolded b0, folded e_def, OF atb(2) _ atb(3) assms(5) _ assms(6), of _ 28] by (auto simp: b0)
  let ?b = "b0\<lparr>NetRxPacket := r, eth_out := eth_out b @ [take (e + 28) r]\<rparr>"
  have run: "NetReceive xs handler (f @ rest) (of_nat (length f)) b = Some ?b" unfolding atb(1) b0_def [symmetric] by (rule r(1))
  have "eth_out ?b = eth_out b @ [take (e + 28) r]" "e + 28 \<le> length r" using r(2) assms(7) lq by (simp_all add: e_def)
  then show ?thesis using that [OF run] r(3,4) unfolding e_def by blast
qed

lemma reply_completes:
  assumes "eth_at r (NetOurVLAN a) PROT_ARP" and "eth_size (NetOurVLAN a) + 28 \<le> length r"
    and "arp_at r (eth_size (NetOurVLAN a)) ARPOP_REPLY mac (NetArpWaitReplyIP a) tha (NetOurIP a)" and "NetOurIP a \<noteq> 0"
    and "NetArpWaitPacketIP a \<noteq> 0" and "NetArpWaitPacketMAC a = Some Server_p" and "6 \<le> length (NetTxPacket a)"
    and "unat (NetArpWaitTxPacketSize a) \<le> length (NetTxPacket a)" and "f = take (eth_size (NetOurVLAN a) + 28) r"
  obtains a2 where "NetReceive xs handler (f @ rest) (of_nat (length f)) a = Some a2"
    and "eth_out a2 = eth_out a @ [take (unat (NetArpWaitTxPacketSize a)) (store (NetTxPacket a) 0 (map char_byte mac))]"
    and "NetServerEther a2 = mac" and "NetArpWaitPacketIP a2 = 0"
  using arp_frame_received [OF assms(1,3,2,9)] assms(4-8)
    arp_resolves [of "a\<lparr>NetRxPacket := f @ rest, NetRxPacketLen := of_nat (length f)\<rparr>" "eth_size (NetOurVLAN a)" mac tha 28]
  by (simp add: Let_def)

text \<open>C7. Address resolution succeeds and loses nothing: when the server's Ethernet address is not known, \<open>NetSendUDPPacket\<close> keeps the packet and broadcasts a request
  for the address of the next hop, the destination or the gateway by the subnet mask; the machine with that address answers the request, and on the answer the
  first one learns its Ethernet address, sends the packet kept to it, and waits no longer. That packet is delivered like one sent directly, to
  any machine on the VLAN that has the destination address.\<close>

theorem arp_exchange:
  fixes a :: "'a link_scheme" and b :: "'b link_scheme"
  assumes "length (NetOurEther a) = 6" and "NetServerEther a = NetEtherNullAddr" and "NetTxPacket a = h @ payload @ z"
    and "length h = NetEthHdrSize a + 28" and "z \<noteq> []" and "length payload < 65508" and "dest \<noteq> 0" and "dest \<noteq> 0xFFFFFFFF"
    and "NetEthHdrSize a + 28 \<le> length (NetArpTxPacket a)" and "NetOurIP a \<noteq> 0"
    and "length (NetOurEther b) = 6" and "NetOurVLAN b = NetOurVLAN a"
    and "NetOurIP b = (if dest AND NetOurSubnetMask a \<noteq> NetOurIP a AND NetOurSubnetMask a \<and> NetOurGatewayIP a \<noteq> 0 then NetOurGatewayIP a else dest)"
  shows "\<exists>a1 q b1 r a2 f.
    NetSendUDPPacket Server_p dest dport sport (of_nat (length payload)) a = Some (1, a1) \<and> eth_out a1 = eth_out a @ [q] \<and>
    NetReceive xs hb (q @ zb) (of_nat (length q)) b = Some b1 \<and> eth_out b1 = eth_out b @ [r] \<and>
    NetReceive xs ha (r @ za) (of_nat (length r)) a1 = Some a2 \<and> eth_out a2 = eth_out a1 @ [f] \<and>
    NetServerEther a2 = NetOurEther b \<and> NetArpWaitPacketIP a2 = 0 \<and> take 6 f = map char_byte (NetOurEther b) \<and>
    (\<forall>(c :: 'c link_scheme) hc rest. NetOurVLAN c = NetOurVLAN a \<and> NetOurIP c = dest \<longrightarrow>
      NetReceive xs hc (f @ rest) (of_nat (length f)) c =
      hc (payload @ rest, ucast (ucast dport :: u16), NetOurIP a, ucast (ucast sport :: u16), of_nat (length payload))
        (c\<lparr>NetRxPacket := f @ rest, NetRxPacketLen := of_nat (length f)\<rparr>))"
proof -
  define v where "v = NetOurVLAN a"
  define e where "e = eth_size v"
  have e: "14 \<le> e" "e \<le> 18" unfolding e_def by (rule eth_size_le)+
  have E: "NetEthHdrSize a = e" by (simp add: NetEthHdrSize_eq e_def v_def)
  define hop where "hop = NetOurIP b"
  have hop: "hop \<noteq> 0" using assms(7,13) by (auto simp: hop_def)
  let ?n = "e + 28 + length payload"
  obtain m q a1 where send: "NetSendUDPPacket Server_p dest dport sport (of_nat (length payload)) a = Some (1, a1)"
    and a1: "a1 = a\<lparr>NetTxPacket := m, NetIPID := NetIPID a + 1, NetArpWaitPacketIP := dest, NetArpWaitPacketMAC := Some Server_p,
        NetArpWaitTxPacketSize := of_nat ?n, NetArpWaitTry := 1, NetArpWaitTimerStart := clock a,
        NetArpWaitReplyIP := hop, NetArpTxPacket := q, eth_out := eth_out a @ [take (e + 28) q]\<rparr>"
    and m: "length m = length (NetTxPacket a)" "eth_at m v PROT_IP" "udp_at m e (NetOurIP a) dest (ucast sport) (ucast dport) (of_nat (length payload))"
      "slice m (e + 28) (length payload) = payload"
    and q: "length q = length (NetArpTxPacket a)" "eth_at q v PROT_ARP" "get_mac q 6 = Some (NetOurEther a)"
      "arp_at q e ARPOP_REQUEST (NetOurEther a) (NetOurIP a) NetEtherNullAddr hop"
    using NetSendUDPPacket_waits [OF assms(1-9), of hop dport sport] assms(13) unfolding E v_def hop_def by metis
  have bv: "NetOurVLAN b = v" using assms(12) by (simp add: v_def)
  have lq: "e + 28 \<le> length q" using assms(9) q(1) by (simp add: E)
  obtain b1 r where b1: "NetReceive xs hb (take (e + 28) q @ zb) (of_nat (length (take (e + 28) q))) b = Some b1"
      "eth_out b1 = eth_out b @ [take (e + 28) r]"
    and r: "e + 28 \<le> length r" "eth_at r v PROT_ARP" "arp_at r e ARPOP_REPLY (NetOurEther b) hop (NetOurEther a) (NetOurIP a)"
    using request_answered [of q b, unfolded bv, folded e_def hop_def, OF q(2,3) lq q(4) hop assms(11) refl] by metis
  have "?n < 2 ^ LENGTH(32)" using assms(6) e by simp
  then have u: "unat (of_nat ?n :: u32) = ?n" unfolding unat_of_nat by (rule mod_less)
  have lm: "?n \<le> length m" using m(1) assms(3,4) by (simp add: E)
  let ?m = "store m 0 (map char_byte (NetOurEther b))"
  have w: "NetOurVLAN a1 = v" "NetArpWaitReplyIP a1 = hop" "NetOurIP a1 = NetOurIP a" "NetArpWaitPacketIP a1 = dest"
    "NetArpWaitPacketMAC a1 = Some Server_p" "NetTxPacket a1 = m" "NetArpWaitTxPacketSize a1 = of_nat ?n"
    by (simp_all add: a1 v_def)
  obtain a2 where a2: "NetReceive xs ha (take (e + 28) r @ za) (of_nat (length (take (e + 28) r))) a1 = Some a2"
      "eth_out a2 = eth_out a1 @ [take ?n ?m]" "NetServerEther a2 = NetOurEther b" "NetArpWaitPacketIP a2 = 0"
    using reply_completes [of r a1, unfolded w u, folded e_def, OF r(2,1,3) assms(10,7) refl _ lm refl, of xs ha za] lm e by auto
  have keep: "eth_at ?m v PROT_IP" "udp_at ?m e (NetOurIP a) dest (ucast sport) (ucast dport) (of_nat (length payload))"
    "slice ?m (e + 28) (length payload) = payload" "?n \<le> length ?m"
    using m(2-4) lm e assms(11) by (simp_all add: eth_at_before udp_at_before slice_store_apart)
  have "NetReceive xs hc (take ?n ?m @ rest) (of_nat (length (take ?n ?m))) c =
      hc (payload @ rest, ucast (ucast dport :: u16), NetOurIP a, ucast (ucast sport :: u16), of_nat (length payload))
        (c\<lparr>NetRxPacket := take ?n ?m @ rest, NetRxPacketLen := of_nat (length (take ?n ?m))\<rparr>)"
    if "NetOurVLAN c = NetOurVLAN a" "NetOurIP c = dest" for c :: "'c link_scheme" and hc rest
    by (rule udp_frame_received [where v = v and dst = dest, folded e_def]) (use keep that assms(6) in \<open>simp_all add: v_def\<close>)
  moreover have "take 6 (take ?n ?m) = map char_byte (NetOurEther b)"
    using slice_store_same [of 0 "map char_byte (NetOurEther b)" m] lm e assms(11) by (simp add: slice_def min_def)
  moreover have "eth_out a1 = eth_out a @ [take (e + 28) q]" by (simp add: a1)
  ultimately show ?thesis using send b1 a2 by blast
qed

section \<open>Examples\<close>

text \<open>A machine with the address 10.0.0.2, buffers of 100 bytes and no tagging.\<close>

definition link0 :: link where
  "link0 = \<lparr>env = Map.empty, envid = 1, clock = 0, eth_devices = [], eth_next_index = 0, eth_current = None, first_failed = None,
     eth_act = None, eth_env_id = 0, eth_inits = 0, eth_last_protocol_tftp = False, net_state = NETLOOP_CONTINUE,
     udp_packet_handler = dummy_handler, timeHandler = None, timeStart = 0, timeDelta = 0, NetTryCount = 0, NetRestarted = False,
     NetRestartWrap = False, NetDevExists = False, net_first_call = True, net_env_id = 0, NetOurIP = 0x0200000a, NetOurGatewayIP = 0,
     NetOurSubnetMask = 0x00ffffff, NetServerIP = 0, NetOurNativeVLAN = 0xffff, NetOurVLAN = 0xffff, NetOurEther = [0, 0x18, 0x0a, 0, 0, 1],
     NetServerEther = replicate 6 0, BootFile = [], NetBootFileXferSize = 0, net_load_addr = 0, ram = (\<lambda>_. NUL), udp_out = [],
     NetIPID = 0, NetTxPacket = replicate 100 NUL, NetRxPacket = [], NetRxPacketLen = 0, NetArpTxPacket = replicate 100 NUL,
     NetArpWaitPacketIP = 0, NetArpWaitReplyIP = 0, NetArpWaitPacketMAC = None, NetArpWaitTxPacketSize = 0, NetArpWaitTimerStart = 0,
     NetArpWaitTry = 0, eth_out = []\<rparr>"

definition link1 :: link where
  "link1 = link0\<lparr>NetOurIP := 0x0100000a, NetOurEther := [0, 0x18, 0x0a, 0, 0, 2]\<rparr>"

lemma link0_size: "NetEthHdrSize link0 = 14"
  by (simp add: NetEthHdrSize_def my_vlan_def Let_def link0_def htons_def VLAN_NONE_def VLAN_IDMASK_def ETHER_HDR_SIZE_def VLAN_ETHER_HDR_SIZE_def)

lemma link0_buffer: "NetTxPacket link0 = replicate 42 NUL @ replicate 3 NUL @ replicate 55 NUL"
  by (simp add: link0_def replicate_add [symmetric])

theorem arp_exchange_witness:
  "\<exists>a1 q b1. NetSendUDPPacket Server_p 0x0100000a 69 1000 3 link0 = Some (1, a1) \<and> eth_out a1 = [q] \<and>
     NetReceive False (\<lambda>_. Some) q (of_nat (length q)) link1 = Some b1 \<and> length (eth_out b1) = 1"
proof -
  have l: "length (NetOurEther link0) = 6" "NetServerEther link0 = NetEtherNullAddr" "length (replicate 42 NUL) = NetEthHdrSize link0 + 28"
    "replicate 55 NUL \<noteq> []" "length (replicate 3 NUL) < 65508" "(0x0100000a :: u32) \<noteq> 0" "(0x0100000a :: u32) \<noteq> 0xFFFFFFFF"
    "NetEthHdrSize link0 + 28 \<le> length (NetArpTxPacket link0)" "NetOurIP link0 \<noteq> 0"
    by (simp_all add: link0_size) (simp_all add: link0_def NetEtherNullAddr_def)
  have r: "length (NetOurEther link1) = 6" "NetOurVLAN link1 = NetOurVLAN link0"
    "NetOurIP link1 = (if 0x0100000a AND NetOurSubnetMask link0 \<noteq> NetOurIP link0 AND NetOurSubnetMask link0 \<and> NetOurGatewayIP link0 \<noteq> 0
      then NetOurGatewayIP link0 else 0x0100000a)" "eth_out link0 = []" "eth_out link1 = []"
    by (simp_all add: link0_def link1_def)
  from arp_exchange [OF l(1,2) link0_buffer l(3-9) r(1-3), of 69 1000 False "\<lambda>_. Some" "[]" "\<lambda>_. Some" "[]"]
  show ?thesis by (auto simp: r)
qed

theorem udp_frame_delivered_witness:
  "\<exists>a' frame. NetSendUDPPacket Server_p 0x0100000a 69 1000 3 (link0\<lparr>NetServerEther := replicate 6 7\<rparr>) = Some (0, a') \<and> eth_out a' = [frame] \<and>
     NetReceive True (\<lambda>p st. if fst p = replicate 3 NUL then Some st else None) frame (of_nat (length frame)) link1 \<noteq> None"
proof -
  let ?a = "link0\<lparr>NetServerEther := replicate 6 7\<rparr>"
  have h: "NetEthHdrSize ?a = NetEthHdrSize link0" by (simp add: NetEthHdrSize_def)
  have l: "length (NetOurEther ?a) = 6" "length (NetServerEther ?a) = 6" "NetServerEther ?a \<noteq> NetEtherNullAddr"
    "NetTxPacket ?a = replicate 42 NUL @ replicate 3 NUL @ replicate 55 NUL" "length (replicate 42 NUL) = NetEthHdrSize ?a + 28"
    "replicate 55 NUL \<noteq> []" "length (replicate 3 NUL) < 65508" "(0x0100000a :: u32) \<noteq> 0" "(0x0100000a :: u32) \<noteq> 0xFFFFFFFF"
    "NetOurVLAN link1 = NetOurVLAN ?a" "NetOurIP link1 = 0 \<or> NetOurIP link1 = 0x0100000a" "eth_out ?a = []"
    by (simp_all add: h link0_size link0_buffer) (simp_all add: link0_def link1_def NetEtherNullAddr_def)
  from udp_frame_delivered [OF l(1-11), of 69 1000 True "\<lambda>p st. if fst p = replicate 3 NUL then Some st else None"]
  obtain a' frame where f: "NetSendUDPPacket Server_p 0x0100000a 69 1000 (of_nat (length (replicate 3 NUL))) ?a = Some (0, a')" "eth_out a' = [frame]"
    and all: "\<forall>rest. NetReceive True (\<lambda>p st. if fst p = replicate 3 NUL then Some st else None) (frame @ rest) (of_nat (length frame)) link1 =
      (if replicate 3 NUL @ rest = replicate 3 NUL then Some (link1\<lparr>NetRxPacket := frame @ rest, NetRxPacketLen := of_nat (length frame)\<rparr>) else None)"
    unfolding l(12) append_Nil fst_conv by blast
  have "NetReceive True (\<lambda>p st. if fst p = replicate 3 NUL then Some st else None) frame (of_nat (length frame)) link1 \<noteq> None"
    using spec [OF all, of "[]"] by simp
  with f show ?thesis by auto
qed

text \<open>A frame with an empty datagram whose UDP length is zero.\<close>

definition bad_frame :: mem where
  "bad_frame = map char_byte [24, 24, 24, 24, 24, 24, 25, 25, 25, 25, 25, 25, 8, 0, 69, 0, 0, 28, 0, 0, 64, 0, 255, 17, 103, 206,
     10, 0, 0, 1, 10, 0, 0, 2, 3, 232, 0, 69, 0, 0, 0, 0]"

lemma bad_frame_fields:
  "ld16 bad_frame 12 = Some 0x0008" "rd bad_frame 14 = Some (char_byte 0x45)" "ld16 bad_frame 16 = Some 0x1c00"
  "ld16 bad_frame 20 = Some 0x0040" "rd bad_frame 23 = Some (char_byte 17)" "ld32 bad_frame 26 = Some 0x0100000a"
  "ld32 bad_frame 30 = Some 0x0200000a" "ld16 bad_frame 34 = Some 0xe803" "ld16 bad_frame 36 = Some 0x4500" "ld16 bad_frame 38 = Some 0"
  "length bad_frame = 42"
  by (simp_all add: bad_frame_def ld16_def ld32_def rd_def)

lemma bad_frame_words:
  "ld16 bad_frame 14 = Some 0x0045" "ld16 bad_frame 18 = Some 0" "ld16 bad_frame 22 = Some 0x11ff" "ld16 bad_frame 24 = Some 0xce67"
  "ld16 bad_frame 26 = Some 0x000a" "ld16 bad_frame 28 = Some 0x0100" "ld16 bad_frame 30 = Some 0x000a" "ld16 bad_frame 32 = Some 0x0200"
  by (simp_all add: bad_frame_def ld16_def)

lemma bad_frame_sum: "NetCksumOk bad_frame 14 10 = Some True"
proof -
  have ten: "(10 :: nat) = Suc (Suc (Suc (Suc (Suc (Suc (Suc (Suc (Suc (Suc 0)))))))))" by simp
  show ?thesis
    unfolding NetCksumOk_def NetCksum_def ten cksum_loop.simps
    by (simp add: bad_frame_fields bad_frame_words cksum_fold_def)
qed

text \<open>The length in the UDP header is not checked: a frame of 42 bytes, with correct IP checksum and a UDP length of zero, is handed to the
  handler with a payload of 4294967288 bytes, eight less than nothing.\<close>

lemma udp_length_unchecked:
  "\<exists>frame. length frame = 42 \<and>
     NetReceive False handler frame 42 link0 =
     handler ([], 69, 0x0100000a, 1000, - 8) (link0\<lparr>NetRxPacket := frame, NetRxPacketLen := 42\<rparr>)"
proof -
  have l: "NetOurIP link0 = 0x0200000a" "NetOurVLAN link0 = 0xffff" "NetOurNativeVLAN link0 = 0xffff" by (simp_all add: link0_def)
  have e: "eth_size 0xffff = 14" "eth_at bad_frame 0xffff PROT_IP"
    by (simp_all add: eth_size_def eth_at_def untagged_def my_vlan_def htons_def VLAN_NONE_def VLAN_IDMASK_def PROT_IP_def bad_frame_fields)
  have "ip_receive False handler 14 28 (link0\<lparr>NetRxPacket := bad_frame, NetRxPacketLen := 42\<rparr>) =
      handler ([], 69, 0x0100000a, 1000, - 8) (link0\<lparr>NetRxPacket := bad_frame, NetRxPacketLen := 42\<rparr>)"
    by (simp add: l bad_frame_fields bad_frame_sum ip_receive_def udp_receive_def Let_def htons_def IP_HDR_SIZE_def IP_UDP_HDR_SIZE_def
        UDP_HDR_SIZE_def IP_OFFS_def IP_FLAGS_MFRAG_def IPPROTO_UDP_def)
  then have "NetReceive False handler bad_frame 42 link0 =
     handler ([], 69, 0x0100000a, 1000, - 8) (link0\<lparr>NetRxPacket := bad_frame, NetRxPacketLen := 42\<rparr>)"
    using NetReceive_frame [of bad_frame link0 PROT_IP 42 False handler] e by (simp add: l Let_def PROT_IP_def PROT_ARP_def)
  then show ?thesis using bad_frame_fields(11) by blast
qed

end
