(* ===== verification/Nand_Ecc.thy ===== *)
theory Nand_Ecc
  imports Prelude
begin

text \<open>
  The error-correcting code of NAND pages (\<^verbatim>\<open>drivers/mtd/nand/nand_ecc.c\<close>): three bytes for each 256 bytes of data, with the parities of the
  lines and of the columns and their complements. \<open>smc\<close> is \<open>CONFIG_MTD_NAND_ECC_SMC\<close>, the order of the first two bytes.
\<close>

section \<open>The code\<close>

definition nand_ecc_precalc_table :: "u8 list" where
  "nand_ecc_precalc_table =
   [0x00, 0x55, 0x56, 0x03, 0x59, 0x0c, 0x0f, 0x5a, 0x5a, 0x0f, 0x0c, 0x59, 0x03, 0x56, 0x55, 0x00,
    0x65, 0x30, 0x33, 0x66, 0x3c, 0x69, 0x6a, 0x3f, 0x3f, 0x6a, 0x69, 0x3c, 0x66, 0x33, 0x30, 0x65,
    0x66, 0x33, 0x30, 0x65, 0x3f, 0x6a, 0x69, 0x3c, 0x3c, 0x69, 0x6a, 0x3f, 0x65, 0x30, 0x33, 0x66,
    0x03, 0x56, 0x55, 0x00, 0x5a, 0x0f, 0x0c, 0x59, 0x59, 0x0c, 0x0f, 0x5a, 0x00, 0x55, 0x56, 0x03,
    0x69, 0x3c, 0x3f, 0x6a, 0x30, 0x65, 0x66, 0x33, 0x33, 0x66, 0x65, 0x30, 0x6a, 0x3f, 0x3c, 0x69,
    0x0c, 0x59, 0x5a, 0x0f, 0x55, 0x00, 0x03, 0x56, 0x56, 0x03, 0x00, 0x55, 0x0f, 0x5a, 0x59, 0x0c,
    0x0f, 0x5a, 0x59, 0x0c, 0x56, 0x03, 0x00, 0x55, 0x55, 0x00, 0x03, 0x56, 0x0c, 0x59, 0x5a, 0x0f,
    0x6a, 0x3f, 0x3c, 0x69, 0x33, 0x66, 0x65, 0x30, 0x30, 0x65, 0x66, 0x33, 0x69, 0x3c, 0x3f, 0x6a,
    0x6a, 0x3f, 0x3c, 0x69, 0x33, 0x66, 0x65, 0x30, 0x30, 0x65, 0x66, 0x33, 0x69, 0x3c, 0x3f, 0x6a,
    0x0f, 0x5a, 0x59, 0x0c, 0x56, 0x03, 0x00, 0x55, 0x55, 0x00, 0x03, 0x56, 0x0c, 0x59, 0x5a, 0x0f,
    0x0c, 0x59, 0x5a, 0x0f, 0x55, 0x00, 0x03, 0x56, 0x56, 0x03, 0x00, 0x55, 0x0f, 0x5a, 0x59, 0x0c,
    0x69, 0x3c, 0x3f, 0x6a, 0x30, 0x65, 0x66, 0x33, 0x33, 0x66, 0x65, 0x30, 0x6a, 0x3f, 0x3c, 0x69,
    0x03, 0x56, 0x55, 0x00, 0x5a, 0x0f, 0x0c, 0x59, 0x59, 0x0c, 0x0f, 0x5a, 0x00, 0x55, 0x56, 0x03,
    0x66, 0x33, 0x30, 0x65, 0x3f, 0x6a, 0x69, 0x3c, 0x3c, 0x69, 0x6a, 0x3f, 0x65, 0x30, 0x33, 0x66,
    0x65, 0x30, 0x33, 0x66, 0x3c, 0x69, 0x6a, 0x3f, 0x3f, 0x6a, 0x69, 0x3c, 0x66, 0x33, 0x30, 0x65,
    0x00, 0x55, 0x56, 0x03, 0x59, 0x0c, 0x0f, 0x5a, 0x5a, 0x0f, 0x0c, 0x59, 0x03, 0x56, 0x55, 0x00]"

fun ecc_loop :: "nat \<Rightarrow> u8 list \<Rightarrow> u8 \<times> u8 \<times> u8 \<Rightarrow> u8 \<times> u8 \<times> u8" where
  "ecc_loop i [] r = r"
| "ecc_loop i (d # dat) (reg1, reg2, reg3) =
     (let idx = nand_ecc_precalc_table ! unat d;
          reg1 = reg1 XOR (idx AND 0x3f)
      in if idx AND 0x40 \<noteq> 0 then ecc_loop (i + 1) dat (reg1, reg2 XOR NOT (word_of_nat i), reg3 XOR word_of_nat i)
         else ecc_loop (i + 1) dat (reg1, reg2, reg3))"

definition ecc_tmp1 :: "u8 \<Rightarrow> u8 \<Rightarrow> u8" where
  "ecc_tmp1 reg3 reg2 =
     (reg3 AND 0x80) OR drop_bit 1 (reg2 AND 0x80) OR drop_bit 1 (reg3 AND 0x40) OR drop_bit 2 (reg2 AND 0x40) OR
     drop_bit 2 (reg3 AND 0x20) OR drop_bit 3 (reg2 AND 0x20) OR drop_bit 3 (reg3 AND 0x10) OR drop_bit 4 (reg2 AND 0x10)"

definition ecc_tmp2 :: "u8 \<Rightarrow> u8 \<Rightarrow> u8" where
  "ecc_tmp2 reg3 reg2 =
     push_bit 4 (reg3 AND 0x08) OR push_bit 3 (reg2 AND 0x08) OR push_bit 3 (reg3 AND 0x04) OR push_bit 2 (reg2 AND 0x04) OR
     push_bit 2 (reg3 AND 0x02) OR push_bit 1 (reg2 AND 0x02) OR push_bit 1 (reg3 AND 0x01) OR (reg2 AND 0x01)"

definition nand_calculate_ecc :: "bool \<Rightarrow> u8 list \<Rightarrow> (u8 \<times> u8 \<times> u8) option" where
  "nand_calculate_ecc smc dat =
     (if 256 \<le> length dat
      then let (reg1, reg2, reg3) = ecc_loop 0 (take 256 dat) (0, 0, 0);
               tmp1 = ecc_tmp1 reg3 reg2;
               tmp2 = ecc_tmp2 reg3 reg2;
               c2 = push_bit 2 (NOT reg1) OR 0x03
           in Some (if smc then (NOT tmp2, NOT tmp1, c2) else (NOT tmp1, NOT tmp2, c2))
      else None)"

function countbits :: "u32 \<Rightarrow> nat" where
  "countbits b = (if b = 0 then 0 else (if bit b 0 then 1 else 0) + countbits (drop_bit 1 b))"
  by pat_completeness auto
termination
proof (relation "measure unat")
  fix b :: u32
  assume "b \<noteq> 0"
  then have "0 < unat b" by (metis gr0I unsigned_eq_0_iff)
  moreover have "unat (drop_bit 1 b) = unat b div 2" unfolding unat_drop_bit_eq by (simp add: drop_bit_Suc)
  ultimately show "(drop_bit 1 b, b) \<in> measure unat" by simp
qed simp

declare countbits.simps [simp del]

definition EBADMSG :: int where "EBADMSG = 74"

definition single_error :: "u8 \<Rightarrow> u8 \<Rightarrow> u8 \<Rightarrow> bool" where
  "single_error s0 s1 s2 \<longleftrightarrow>
     (s0 XOR drop_bit 1 s0) AND 0x55 = 0x55 \<and> (s1 XOR drop_bit 1 s1) AND 0x55 = 0x55 \<and> (s2 XOR drop_bit 1 s2) AND 0x54 = 0x54"

definition ecc_byteoffs :: "u8 \<Rightarrow> u8 \<Rightarrow> u32" where
  "ecc_byteoffs s0 s1 =
     (ucast s1 AND 0x80) OR (push_bit 1 (ucast s1) AND 0x40) OR (push_bit 2 (ucast s1) AND 0x20) OR (push_bit 3 (ucast s1) AND 0x10) OR
     (drop_bit 4 (ucast s0) AND 0x08) OR (drop_bit 3 (ucast s0) AND 0x04) OR (drop_bit 2 (ucast s0) AND 0x02) OR (drop_bit 1 (ucast s0) AND 0x01)"

definition ecc_bitnum :: "u8 \<Rightarrow> u32" where
  "ecc_bitnum s2 = (drop_bit 5 (ucast s2) AND 0x04) OR (drop_bit 4 (ucast s2) AND 0x02) OR (drop_bit 3 (ucast s2) AND 0x01)"

fun nand_correct_data :: "bool \<Rightarrow> u8 list \<Rightarrow> u8 \<times> u8 \<times> u8 \<Rightarrow> u8 \<times> u8 \<times> u8 \<Rightarrow> (int \<times> u8 list) option" where
  "nand_correct_data smc dat (r0, r1, r2) (c0, c1, c2) =
     (let (s0, s1) = (if smc then (c0 XOR r0, c1 XOR r1) else (c1 XOR r1, c0 XOR r0));
          s2 = c2 XOR r2
      in if s0 OR s1 OR s2 = 0 then Some (0, dat)
         else if single_error s0 s1 s2
         then let byteoffs = unat (ecc_byteoffs s0 s1); bitnum = unat (ecc_bitnum s2)
              in if byteoffs < length dat then Some (1, dat[byteoffs := dat ! byteoffs XOR push_bit bitnum 1]) else None
         else if countbits (ucast s0 OR push_bit 8 (ucast s1) OR push_bit 16 (ucast s2)) = 1 then Some (1, dat)
         else Some (- EBADMSG, dat))"

section \<open>The table\<close>

text \<open>An entry is the sum of the entries of its bits.\<close>

definition column :: "nat \<Rightarrow> u8" where
  "column k = [0x55, 0x56, 0x59, 0x5a, 0x65, 0x66, 0x69, 0x6a] ! k"

definition columns :: "u8 \<Rightarrow> u8" where
  "columns d = foldr (\<lambda>k r. (if bit d k then column k else 0) XOR r) [0..<8] 0"

lemma precalc_table: "nand_ecc_precalc_table = map (\<lambda>n. columns (word_of_nat n)) [0..<256]"
  by code_simp

lemma table_columns: "nand_ecc_precalc_table ! unat d = columns d"
proof -
  have "unat d < 256" using unsigned_less [where ?'a = nat and w = d] by simp
  then show ?thesis by (simp add: precalc_table)
qed

lemma bit_one_push: "bit (2 ^ k :: u8) j \<longleftrightarrow> j = k \<and> k < 8"
  by (auto simp: bit_exp_iff)

lemma columns_flip:
  assumes "k < 8"
  shows "columns (d XOR 2 ^ k) = columns d XOR column k"
proof -
  have b: "bit (d XOR 2 ^ k) j = (if j = k then \<not> bit d j else bit d j)" for j
    using assms by (auto simp: bit_xor_iff bit_one_push)
  have "foldr (\<lambda>j r. (if bit (d XOR 2 ^ k) j then column j else 0) XOR r) xs 0 =
      foldr (\<lambda>j r. (if bit d j then column j else 0) XOR r) xs 0 XOR (if k \<in> set xs then column k else 0)" if "distinct xs" for xs
    using that
  proof (induction xs)
    case (Cons x xs)
    then show ?case by (auto simp: b xor.assoc xor.left_commute [of "column x"] xor.commute [of _ "column x"])
  qed simp
  from this [of "[0..<8]"] show ?thesis using assms by (simp add: columns_def)
qed

lemma column_parity: "k < 8 \<Longrightarrow> bit (column k) 6"
proof -
  assume "k < 8"
  then have "k \<in> {0, 1, 2, 3, 4, 5, 6, 7}" by auto
  then show "bit (column k) 6" by (auto simp: column_def)
qed

section \<open>Sums over the data\<close>

abbreviation xor3 :: "u8 \<times> u8 \<times> u8 \<Rightarrow> u8 \<times> u8 \<times> u8 \<Rightarrow> u8 \<times> u8 \<times> u8" where
  "xor3 p q \<equiv> (fst p XOR fst q, fst (snd p) XOR fst (snd q), snd (snd p) XOR snd (snd q))"

text \<open>What one byte adds to the registers.\<close>

definition contrib :: "nat \<Rightarrow> u8 \<Rightarrow> u8 \<times> u8 \<times> u8" where
  "contrib i d = (columns d AND 0x3f, if bit (columns d) 6 then NOT (word_of_nat i) else 0, if bit (columns d) 6 then word_of_nat i else 0)"

lemma and_bit_6: "(x :: u8) AND 0x40 \<noteq> 0 \<longleftrightarrow> bit x 6"
proof -
  have "(0x40 :: u8) = push_bit 6 1" by simp
  then show ?thesis by (simp add: bit_iff_and_push_bit_not_eq_0)
qed

lemma ecc_loop_step: "ecc_loop i (d # dat) r = ecc_loop (i + 1) dat (xor3 r (contrib i d))"
  by (cases r) (simp add: Let_def table_columns and_bit_6 contrib_def)

lemma ecc_loop_xor: "ecc_loop i dat (xor3 r s) = xor3 (ecc_loop i dat r) s"
proof (induction dat arbitrary: i r)
  case (Cons d dat)
  have "xor3 (xor3 r s) (contrib i d) = xor3 (xor3 r (contrib i d)) s" by (simp add: xor.assoc xor.commute xor.left_commute)
  then show ?case unfolding ecc_loop_step using Cons.IH [of "i + 1" "xor3 r (contrib i d)"] by simp
qed simp

text \<open>Flipping one bit changes the registers by the column of the bit and the number of the byte.\<close>

definition flip_sum :: "nat \<Rightarrow> nat \<Rightarrow> u8 \<times> u8 \<times> u8" where
  "flip_sum i k = (column k AND 0x3f, NOT (word_of_nat i), word_of_nat i)"

lemma contrib_flip:
  assumes "k < 8"
  shows "contrib i (d XOR 2 ^ k) = xor3 (contrib i d) (flip_sum i k)"
  using column_parity [OF assms]
  by (simp add: contrib_def flip_sum_def columns_flip [OF assms] bit_xor_iff and.commute [of _ "0x3f"] bit.conj_xor_distrib)

lemma ecc_loop_flip:
  assumes "j < length dat" and "k < 8"
  shows "ecc_loop i (dat[j := dat ! j XOR 2 ^ k]) r = xor3 (ecc_loop i dat r) (flip_sum (i + j) k)"
  using assms(1)
proof (induction dat arbitrary: i j r)
  case (Cons d dat)
  show ?case
  proof (cases j)
    case 0
    have "xor3 r (xor3 (contrib i d) (flip_sum i k)) = xor3 (xor3 r (contrib i d)) (flip_sum i k)" by (simp add: xor.assoc)
    then show ?thesis
      using ecc_loop_xor [of "i + 1" dat "xor3 r (contrib i d)" "flip_sum i k"]
      by (simp only: 0 list_update_code nth_Cons_0 ecc_loop_step contrib_flip [OF assms(2)] add_0_right)
  next
    case (Suc l)
    then show ?thesis using Cons.IH [of l "i + 1"] Cons.prems by (simp add: ecc_loop_step)
  qed
qed simp

section \<open>Pairs of bits\<close>

lemma below_4: "(n :: nat) < 4 \<Longrightarrow> n = 0 \<or> n = 1 \<or> n = 2 \<or> n = 3"
  by auto

lemma tmp1_powers:
  "ecc_tmp1 reg3 reg2 =
     (reg3 AND 2 ^ 7) OR drop_bit 1 (reg2 AND 2 ^ 7) OR drop_bit 1 (reg3 AND 2 ^ 6) OR drop_bit 2 (reg2 AND 2 ^ 6) OR
     drop_bit 2 (reg3 AND 2 ^ 5) OR drop_bit 3 (reg2 AND 2 ^ 5) OR drop_bit 3 (reg3 AND 2 ^ 4) OR drop_bit 4 (reg2 AND 2 ^ 4)"
  by (simp add: ecc_tmp1_def)

lemma tmp2_powers:
  "ecc_tmp2 reg3 reg2 =
     push_bit 4 (reg3 AND 2 ^ 3) OR push_bit 3 (reg2 AND 2 ^ 3) OR push_bit 3 (reg3 AND 2 ^ 2) OR push_bit 2 (reg2 AND 2 ^ 2) OR
     push_bit 2 (reg3 AND 2 ^ 1) OR push_bit 1 (reg2 AND 2 ^ 1) OR push_bit 1 (reg3 AND 2 ^ 0) OR push_bit 0 (reg2 AND 2 ^ 0)"
  by (simp add: ecc_tmp2_def)

lemma bit_shifted:
  "bit (x AND 2 ^ k :: u8) j \<longleftrightarrow> j = k \<and> bit x k"
  "bit (drop_bit a (x AND 2 ^ k) :: u8) j \<longleftrightarrow> j + a = k \<and> bit x k"
  "bit (push_bit a (x AND 2 ^ k) :: u8) j \<longleftrightarrow> j = k + a \<and> j < 8 \<and> bit x k"
  by (auto simp: bit_and_iff bit_drop_bit_eq bit_push_bit_iff bit_one_push add.commute dest: bit_imp_le_length)

lemma bit_tmp1:
  assumes "n < 4"
  shows "bit (ecc_tmp1 r3 r2) (2 * n) = bit r2 (n + 4)" "bit (ecc_tmp1 r3 r2) (2 * n + 1) = bit r3 (n + 4)"
  using below_4 [OF assms] by (elim disjE; simp only: tmp1_powers bit_or_iff bit_shifted; simp)+

lemma bit_tmp2:
  assumes "n < 4"
  shows "bit (ecc_tmp2 r3 r2) (2 * n) = bit r2 n" "bit (ecc_tmp2 r3 r2) (2 * n + 1) = bit r3 n"
  using below_4 [OF assms] by (elim disjE; simp only: tmp2_powers bit_or_iff bit_shifted; simp)+

lemma u8_pairs_eqI:
  assumes "\<And>n. n < 4 \<Longrightarrow> bit x (2 * n) = bit y (2 * n) \<and> bit x (2 * n + 1) = bit y (2 * n + 1)"
  shows "x = (y :: u8)"
proof (rule bit_word_eqI)
  fix m
  assume "m < LENGTH(8)"
  then have "m div 2 < 4" by simp
  from assms [OF this] show "bit x m = bit y m" by (cases "even m") (auto elim: oddE)
qed

lemma tmp_xor:
  "ecc_tmp1 (a XOR b) (c XOR d) = ecc_tmp1 a c XOR ecc_tmp1 b d" "ecc_tmp2 (a XOR b) (c XOR d) = ecc_tmp2 a c XOR ecc_tmp2 b d"
  by (rule u8_pairs_eqI, simp add: bit_xor_iff bit_tmp1 bit_tmp1 [simplified])
    (rule u8_pairs_eqI, simp add: bit_xor_iff bit_tmp2 bit_tmp2 [simplified])

lemma and_eq_right_iff: "x AND y = (y :: u8) \<longleftrightarrow> (\<forall>j. bit y j \<longrightarrow> bit x j)"
  by (metis bit_and_iff bit_eqI)

lemma all_below_4: "(\<forall>n < (4 :: nat). P n) \<longleftrightarrow> P 0 \<and> P 1 \<and> P 2 \<and> P 3"
  by (auto dest: below_4)

lemma pair_test: "(s XOR drop_bit 1 s) AND 0x55 = (0x55 :: u8) \<longleftrightarrow> (\<forall>n < 4. bit s (2 * n) \<noteq> bit s (2 * n + 1))"
proof -
  have p: "(0x55 :: u8) = 2 ^ 0 OR 2 ^ 2 OR 2 ^ 4 OR 2 ^ 6" by simp
  have m: "bit (0x55 :: u8) j \<longleftrightarrow> j = 0 \<or> j = 2 \<or> j = 4 \<or> j = 6" for j
    unfolding p by (simp only: bit_or_iff bit_one_push) simp
  have "(s XOR drop_bit 1 s) AND 0x55 = (0x55 :: u8) \<longleftrightarrow> (\<forall>j. bit (0x55 :: u8) j \<longrightarrow> bit s j \<noteq> bit s (j + 1))"
    unfolding and_eq_right_iff by (simp only: bit_xor_iff bit_drop_bit_eq add.commute comp_def)
  also have "\<dots> \<longleftrightarrow> (\<forall>n < 4. bit s (2 * n) \<noteq> bit s (2 * n + 1))"
    unfolding m all_below_4 by auto
  finally show ?thesis .
qed

lemma column_tests:
  assumes "k < 8" and "s2 = push_bit 2 (column k AND 0x3f)"
  shows "(s2 XOR drop_bit 1 s2) AND 0x54 = 0x54" and "unat (ecc_bitnum s2) = k"
proof -
  have "k = 0 \<or> k = 1 \<or> k = 2 \<or> k = 3 \<or> k = 4 \<or> k = 5 \<or> k = 6 \<or> k = 7" using assms(1) by auto
  then show "(s2 XOR drop_bit 1 s2) AND 0x54 = 0x54" "unat (ecc_bitnum s2) = k"
    unfolding assms(2) by (elim disjE; simp add: column_def ecc_bitnum_def)+
qed

text \<open>The position of a byte out of the sums of the lines.\<close>

lemma byteoffs_line: "ecc_byteoffs (ecc_tmp2 i j) (ecc_tmp1 i j) = ucast i"
proof -
  have p: "ecc_byteoffs s0 s1 = (ucast s1 AND 2 ^ 7) OR (push_bit 1 (ucast s1) AND 2 ^ 6) OR (push_bit 2 (ucast s1) AND 2 ^ 5) OR
      (push_bit 3 (ucast s1) AND 2 ^ 4) OR (drop_bit 4 (ucast s0) AND 2 ^ 3) OR (drop_bit 3 (ucast s0) AND 2 ^ 2) OR
      (drop_bit 2 (ucast s0) AND 2 ^ 1) OR (drop_bit 1 (ucast s0) AND 2 ^ 0)" for s0 s1
    by (simp add: ecc_byteoffs_def)
  have b: "bit (x AND 2 ^ k :: u32) m \<longleftrightarrow> m = k \<and> bit x k" for x k m
    by (auto simp: bit_and_iff bit_exp_iff dest: bit_imp_le_length)
  have s: "bit (push_bit a (ucast (s :: u8)) :: u32) m \<longleftrightarrow> a \<le> m \<and> m < 32 \<and> m - a < 8 \<and> bit s (m - a)"
    "bit (drop_bit a (ucast s) :: u32) m \<longleftrightarrow> bit s (a + m) \<and> a + m < 8" "bit (ucast s :: u32) m \<longleftrightarrow> m < 8 \<and> bit s m" for s a m
    by (auto simp: bit_push_bit_iff bit_drop_bit_eq bit_ucast_iff dest: bit_imp_le_length)
  note e = bit_tmp1(2) [of 3, simplified] bit_tmp1(2) [of 2, simplified] bit_tmp1(2) [of 1, simplified] bit_tmp1(2) [of 0, simplified]
    bit_tmp2(2) [of 3, simplified] bit_tmp2(2) [of 2, simplified] bit_tmp2(2) [of 1, simplified] bit_tmp2(2) [of 0, simplified]
  show ?thesis
  proof (rule bit_word_eqI)
    fix m
    assume "m < LENGTH(32)"
    show "bit (ecc_byteoffs (ecc_tmp2 i j) (ecc_tmp1 i j)) m = bit (ucast i :: u32) m"
    proof (cases "m < 8")
      case True
      then have "m = 0 \<or> m = 1 \<or> m = 2 \<or> m = 3 \<or> m = 4 \<or> m = 5 \<or> m = 6 \<or> m = 7" by auto
      then show ?thesis unfolding p bit_or_iff b s by (elim disjE) (simp_all add: e)
    next
      case False
      then show ?thesis unfolding p bit_or_iff b s by auto
    qed
  qed
qed

section \<open>Counting bits\<close>

lemma countbits_card: "countbits b = card {n. bit b n}"
proof (induction b rule: countbits.induct)
  case (1 b)
  show ?case
  proof (cases "b = 0")
    case True
    then show ?thesis by (subst countbits.simps) (simp add: bot_fun_def)
  next
    case False
    have fin: "finite {n. bit (drop_bit 1 b) n}"
      by (rule finite_subset [of _ "{..<32}"]) (auto dest: bit_imp_le_length)
    have "{n. bit b n} = (if bit b 0 then {0} else {}) \<union> Suc ` {n. bit (drop_bit 1 b) n}"
      by (auto simp: bit_drop_bit_eq image_iff) (metis gr0_conv_Suc not_gr_zero)+
    also have "card \<dots> = (if bit b 0 then 1 else 0) + card {n. bit (drop_bit 1 b) n}"
      using fin by (auto simp: card_image card_insert_if)
    finally show ?thesis using 1 False by (subst countbits.simps) simp
  qed
qed

lemma countbits_one: "countbits (2 ^ n :: u32) = 1" if "n < 32"
proof -
  have "{m. bit (2 ^ n :: u32) m} = {n}" using that by (auto simp: bit_exp_iff)
  then show ?thesis by (simp add: countbits_card)
qed

text \<open>A word whose bits come in equal pairs does not have exactly one.\<close>

lemma countbits_pairs:
  assumes "\<And>n. bit (x :: u32) (2 * n) = bit x (2 * n + 1)"
  shows "countbits x \<noteq> 1"
proof
  assume "countbits x = 1"
  then obtain m where m: "{n. bit x n} = {m}" unfolding countbits_card by (auto simp: card_1_singleton_iff)
  then have "bit x m" by auto
  show False
  proof (cases "even m")
    case True
    then have "bit x (m + 1)" using assms [of "m div 2"] \<open>bit x m\<close> by simp
    then have "m + 1 = m" using m by blast
    then show False by simp
  next
    case False
    then have "bit x (m - 1)" using assms [of "m div 2"] \<open>bit x m\<close> by (metis odd_two_times_div_two_nat odd_two_times_div_two_succ)
    then have "m - 1 = m" using m by blast
    then show False using False by (cases m) auto
  qed
qed

section \<open>The syndrome\<close>

definition ecc_of :: "bool \<Rightarrow> u8 \<times> u8 \<times> u8 \<Rightarrow> u8 \<times> u8 \<times> u8" where
  "ecc_of smc r =
     (let tmp1 = ecc_tmp1 (snd (snd r)) (fst (snd r)); tmp2 = ecc_tmp2 (snd (snd r)) (fst (snd r)); c2 = push_bit 2 (NOT (fst r)) OR 0x03
      in if smc then (NOT tmp2, NOT tmp1, c2) else (NOT tmp1, NOT tmp2, c2))"

lemma calculate_ecc_of: "length dat = 256 \<Longrightarrow> nand_calculate_ecc smc dat = Some (ecc_of smc (ecc_loop 0 dat (0, 0, 0)))"
  by (cases "ecc_loop 0 dat (0, 0, 0)") (simp add: nand_calculate_ecc_def ecc_of_def Let_def)

definition ecc_decide :: "u8 list \<Rightarrow> u8 \<Rightarrow> u8 \<Rightarrow> u8 \<Rightarrow> (int \<times> u8 list) option" where
  "ecc_decide dat s0 s1 s2 =
     (if s0 OR s1 OR s2 = 0 then Some (0, dat)
      else if single_error s0 s1 s2
      then let byteoffs = unat (ecc_byteoffs s0 s1); bitnum = unat (ecc_bitnum s2)
           in if byteoffs < length dat then Some (1, dat[byteoffs := dat ! byteoffs XOR 2 ^ bitnum]) else None
      else if countbits (ucast s0 OR push_bit 8 (ucast s1) OR push_bit 16 (ucast s2)) = 1 then Some (1, dat)
      else Some (- EBADMSG, dat))"

lemma not_xor_not: "NOT (a XOR b) XOR NOT a = (b :: u8)"
  by (rule bit_word_eqI) (auto simp: bit_simps)

lemma c2_xor: "(push_bit 2 (NOT (a XOR b)) OR 3) XOR (push_bit 2 (NOT a) OR 3) = (push_bit 2 b :: u8)"
proof (rule bit_word_eqI)
  fix n
  assume "n < LENGTH(8)"
  have "(3 :: u8) = mask 2" by (simp add: mask_eq_exp_minus_1)
  then have "bit (3 :: u8) n \<longleftrightarrow> n < 2" by (metis \<open>n < LENGTH(8)\<close> bit_mask_iff possible_bit_word)
  then show "bit ((push_bit 2 (NOT (a XOR b)) OR 3) XOR (push_bit 2 (NOT a) OR 3)) n = bit (push_bit 2 b :: u8) n"
    using \<open>n < LENGTH(8)\<close> by (auto simp: bit_or_iff bit_xor_iff bit_push_bit_iff bit_not_iff)
qed

lemma correct_decide:
  "nand_correct_data smc dat (r0, r1, r2) (c0, c1, c2) =
   (if smc then ecc_decide dat (c0 XOR r0) (c1 XOR r1) (c2 XOR r2) else ecc_decide dat (c1 XOR r1) (c0 XOR r0) (c2 XOR r2))"
  by (simp add: ecc_decide_def Let_def)

lemma correct_syndrome:
  "nand_correct_data smc dat (ecc_of smc r) (ecc_of smc (xor3 r x)) =
   ecc_decide dat (ecc_tmp2 (snd (snd x)) (fst (snd x))) (ecc_tmp1 (snd (snd x)) (fst (snd x))) (push_bit 2 (fst x))"
  by (cases smc) (simp_all only: ecc_of_def Let_def if_True if_False correct_decide tmp_xor not_xor_not c2_xor fst_conv snd_conv)

section \<open>Corrected and detected errors\<close>

lemma decide_single:
  assumes "i < length dat" and "length dat = 256" and "k < 8"
  shows "ecc_decide dat (ecc_tmp2 (word_of_nat i) (NOT (word_of_nat i))) (ecc_tmp1 (word_of_nat i) (NOT (word_of_nat i)))
      (push_bit 2 (column k AND 0x3f)) = Some (1, dat[i := dat ! i XOR 2 ^ k])"
proof -
  let ?i = "word_of_nat i :: u8"
  let ?s0 = "ecc_tmp2 ?i (NOT ?i)" and ?s1 = "ecc_tmp1 ?i (NOT ?i)" and ?s2 = "push_bit 2 (column k AND 0x3f)"
  have "bit ?s0 (2 * n) \<noteq> bit ?s0 (2 * n + 1)" "bit ?s1 (2 * n) \<noteq> bit ?s1 (2 * n + 1)" if "n < 4" for n
    using that by (simp_all only: bit_tmp1 bit_tmp2) (simp_all add: bit_not_iff)
  then have single: "single_error ?s0 ?s1 ?s2"
    using column_tests(1) [OF assms(3) refl] unfolding single_error_def pair_test by blast
  have "unat ?i = i" using assms(1,2) by (simp add: unat_of_nat take_bit_nat_eq_self)
  then have "unat (ecc_byteoffs ?s0 ?s1) = i" unfolding byteoffs_line using assms(1,2) by (simp add: unsigned_ucast_eq take_bit_nat_eq_self)
  moreover have "?s0 OR ?s1 OR ?s2 \<noteq> 0"
  proof
    assume "?s0 OR ?s1 OR ?s2 = 0"
    then have "?s2 = 0" by (simp add: or_eq_0_iff)
    then show False using column_tests(1) [OF assms(3) refl] by simp
  qed
  ultimately show ?thesis
    using assms(1) single column_tests(2) [OF assms(3) refl] unfolding ecc_decide_def Let_def by simp
qed

text \<open>The sums of two errors come in equal pairs.\<close>

lemma column_pairs:
  assumes "k < 8" and "n < 4"
  shows "bit (push_bit 2 (column k AND 0x3f)) (2 * n) \<longleftrightarrow> n \<noteq> 0 \<and> \<not> bit (push_bit 2 (column k AND 0x3f)) (2 * n + 1)"
proof -
  have "k = 0 \<or> k = 1 \<or> k = 2 \<or> k = 3 \<or> k = 4 \<or> k = 5 \<or> k = 6 \<or> k = 7" using assms(1) by auto
  then show ?thesis using below_4 [OF assms(2)] by (elim disjE) (simp_all add: column_def)
qed

lemma column_pair_0: "bit (push_bit 2 (x :: u8)) (2 * 0) = False" "bit (push_bit 2 (x :: u8)) (2 * 0 + 1) = False"
  by (simp_all add: bit_push_bit_iff)

lemma decide_pairs:
  assumes "\<And>n. n < 4 \<Longrightarrow> bit s0 (2 * n) = bit s0 (2 * n + 1)" and "\<And>n. n < 4 \<Longrightarrow> bit s1 (2 * n) = bit s1 (2 * n + 1)"
    and "\<And>n. n < 4 \<Longrightarrow> bit s2 (2 * n) = bit s2 (2 * n + 1)" and "s0 \<noteq> 0 \<or> s1 \<noteq> 0 \<or> s2 \<noteq> 0"
  shows "ecc_decide dat s0 s1 s2 = Some (- EBADMSG, dat)"
proof -
  let ?x = "ucast s0 OR push_bit 8 (ucast s1) OR push_bit 16 (ucast s2) :: u32"
  have "\<not> single_error s0 s1 s2" using assms(1) [of 0] unfolding single_error_def pair_test all_below_4 by simp
  moreover have "bit ?x (2 * n) = bit ?x (2 * n + 1)" for n
  proof -
    have b: "bit ?x m \<longleftrightarrow> m < 8 \<and> bit s0 m \<or> 8 \<le> m \<and> m < 16 \<and> bit s1 (m - 8) \<or> 16 \<le> m \<and> m < 24 \<and> bit s2 (m - 16)" for m
      by (auto simp: bit_or_iff bit_push_bit_iff bit_ucast_iff dest: bit_imp_le_length)
    consider "n < 4" | "4 \<le> n" "n < 8" | "8 \<le> n" "n < 12" | "12 \<le> n" by linarith
    then show ?thesis
    proof cases
      case 1
      then show ?thesis using assms(1) [of n] by (simp add: b)
    next
      case 2
      then have "2 * n - 8 = 2 * (n - 4)" "2 * n + 1 - 8 = 2 * (n - 4) + 1" by auto
      then show ?thesis using 2 assms(2) [of "n - 4"] unfolding b by auto
    next
      case 3
      then have "2 * n - 16 = 2 * (n - 8)" "2 * n + 1 - 16 = 2 * (n - 8) + 1" by auto
      then show ?thesis using 3 assms(3) [of "n - 8"] unfolding b by auto
    qed (simp add: b)
  qed
  then have "countbits ?x \<noteq> 1" by (rule countbits_pairs)
  moreover have "s0 OR s1 OR s2 \<noteq> 0" using assms(4) by (auto simp: or_eq_0_iff)
  ultimately show ?thesis by (simp add: ecc_decide_def)
qed

lemma u8_xor_0_iff: "x XOR y = 0 \<longleftrightarrow> x = (y :: u8)"
proof
  assume "x XOR y = 0"
  moreover have "x = (x XOR y) XOR y" by (simp add: xor.assoc)
  ultimately show "x = y" by simp
qed simp

lemma ucast_0_D: "ucast (x :: u8) = (0 :: u32) \<Longrightarrow> x = 0"
proof (rule bit_word_eqI)
  fix n
  assume "ucast x = (0 :: u32)" "n < LENGTH(8)"
  then have "\<not> bit (ucast x :: u32) n" by simp
  then show "bit x n = bit 0 n" using \<open>n < LENGTH(8)\<close> by (simp add: bit_ucast_iff)
qed

lemma decide_double:
  assumes "i < 256" and "j < 256" and "k < 8" and "l < 8" and "(i, k) \<noteq> (j, l)" and "x = xor3 (flip_sum i k) (flip_sum j l)"
  shows "ecc_decide dat (ecc_tmp2 (snd (snd x)) (fst (snd x))) (ecc_tmp1 (snd (snd x)) (fst (snd x))) (push_bit 2 (fst x)) = Some (- EBADMSG, dat)"
proof -
  let ?d = "word_of_nat i XOR word_of_nat j :: u8"
  have x: "snd (snd x) = ?d" "fst (snd x) = ?d" "push_bit 2 (fst x) = push_bit 2 (column k AND 0x3f) XOR push_bit 2 (column l AND 0x3f)"
    by (simp_all add: assms(6) flip_sum_def push_bit_xor)
  show ?thesis
  proof (rule decide_pairs)
    fix n :: nat
    assume n: "n < 4"
    show "bit (ecc_tmp2 (snd (snd x)) (fst (snd x))) (2 * n) = bit (ecc_tmp2 (snd (snd x)) (fst (snd x))) (2 * n + 1)"
      "bit (ecc_tmp1 (snd (snd x)) (fst (snd x))) (2 * n) = bit (ecc_tmp1 (snd (snd x)) (fst (snd x))) (2 * n + 1)"
      unfolding x bit_tmp1 [OF n] bit_tmp2 [OF n] by simp_all
    show "bit (push_bit 2 (fst x)) (2 * n) = bit (push_bit 2 (fst x)) (2 * n + 1)"
    proof (cases "n = 0")
      case True
      show ?thesis unfolding x(3) bit_xor_iff True column_pair_0 [of "column k AND 0x3f"] column_pair_0 [of "column l AND 0x3f"] ..
    next
      case False
      then show ?thesis unfolding x(3) bit_xor_iff column_pairs [OF assms(3) n] column_pairs [OF assms(4) n] by blast
    qed
  next
    show "ecc_tmp2 (snd (snd x)) (fst (snd x)) \<noteq> 0 \<or> ecc_tmp1 (snd (snd x)) (fst (snd x)) \<noteq> 0 \<or> push_bit 2 (fst x) \<noteq> 0"
    proof (rule ccontr)
      assume "\<not> ?thesis"
      then have z: "ecc_tmp2 ?d ?d = 0" "ecc_tmp1 ?d ?d = 0" "push_bit 2 (column k AND 0x3f) = (push_bit 2 (column l AND 0x3f) :: u8)"
        by (simp_all add: x u8_xor_0_iff)
      have "ucast ?d = (0 :: u32)" using byteoffs_line [of ?d ?d] z(1,2) by (simp add: ecc_byteoffs_def)
      then have "?d = 0" by (rule ucast_0_D)
      then have "(word_of_nat i :: u8) = word_of_nat j" by (simp add: u8_xor_0_iff)
      moreover have "unat (word_of_nat m :: u8) = m" if "m < 256" for m using that by (simp add: unat_of_nat take_bit_nat_eq_self)
      ultimately have "i = j" using assms(1,2) by metis
      moreover have "k = l"
        using column_tests(2) [OF assms(3) refl, unfolded z(3)] column_tests(2) [OF assms(4) refl] by (rule trans [OF sym])
      ultimately show False using assms(5) by simp
    qed
  qed
qed

text \<open>One wrong bit in the code read back.\<close>

lemma decide_code_bit:
  assumes "n < 8"
  shows "ecc_decide dat (2 ^ n) 0 0 = Some (1, dat)" "ecc_decide dat 0 (2 ^ n) 0 = Some (1, dat)" "ecc_decide dat 0 0 (2 ^ n) = Some (1, dat)"
proof -
  have u: "ucast (2 ^ n :: u8) = (2 ^ n :: u32)"
    by (rule bit_word_eqI) (use assms in \<open>auto simp: bit_ucast_iff bit_exp_iff\<close>)
  have "countbits (ucast (2 ^ n :: u8)) = 1" "countbits (push_bit 8 (ucast (2 ^ n :: u8))) = 1" "countbits (push_bit 16 (ucast (2 ^ n :: u8))) = 1"
    using countbits_one [of n] countbits_one [of "n + 8"] countbits_one [of "n + 16"] assms unfolding u
    by (simp_all add: push_bit_eq_mult power_add mult.commute)
  moreover have "(2 ^ n :: u8) \<noteq> 0" using assms by (auto simp: bit_eq_iff bit_exp_iff)
  ultimately show "ecc_decide dat (2 ^ n) 0 0 = Some (1, dat)" "ecc_decide dat 0 (2 ^ n) 0 = Some (1, dat)" "ecc_decide dat 0 0 (2 ^ n) = Some (1, dat)"
    by (simp_all add: ecc_decide_def single_error_def)
qed

text \<open>C14. One wrong bit is corrected: for each block of 256 bytes and the code computed for it, \<open>nand_correct_data\<close> reports no error for the block
  itself, restores it exactly after any one of its 2048 bits was flipped, and leaves it alone, reporting a correction, after any one bit of the code
  was flipped.\<close>

theorem nand_ecc_corrects:
  assumes "length dat = 256" and "i < 256" and "k < 8"
  shows "\<exists>e0 e1 e2. nand_calculate_ecc smc dat = Some (e0, e1, e2) \<and> nand_correct_data smc dat (e0, e1, e2) (e0, e1, e2) = Some (0, dat) \<and>
    (let bad = dat[i := dat ! i XOR 2 ^ k] in
      \<exists>c. nand_calculate_ecc smc bad = Some c \<and> nand_correct_data smc bad (e0, e1, e2) c = Some (1, dat)) \<and>
    nand_correct_data smc dat (e0 XOR 2 ^ k, e1, e2) (e0, e1, e2) = Some (1, dat) \<and>
    nand_correct_data smc dat (e0, e1 XOR 2 ^ k, e2) (e0, e1, e2) = Some (1, dat) \<and>
    nand_correct_data smc dat (e0, e1, e2 XOR 2 ^ k) (e0, e1, e2) = Some (1, dat)"
proof -
  let ?r = "ecc_loop 0 dat (0, 0, 0)" and ?bad = "dat[i := dat ! i XOR 2 ^ k]"
  obtain e0 e1 e2 where e: "ecc_of smc ?r = (e0, e1, e2)" by (cases "ecc_of smc ?r") auto
  have c: "nand_calculate_ecc smc ?bad = Some (ecc_of smc (xor3 ?r (flip_sum i k)))"
    using calculate_ecc_of [of ?bad smc] ecc_loop_flip [of i dat k 0 "(0, 0, 0)"] assms by simp
  have "nand_correct_data smc ?bad (ecc_of smc ?r) (ecc_of smc (xor3 ?r (flip_sum i k))) = Some (1, ?bad[i := ?bad ! i XOR 2 ^ k])"
    unfolding correct_syndrome using decide_single [of i ?bad k] assms by (simp add: flip_sum_def)
  moreover have "?bad[i := ?bad ! i XOR 2 ^ k] = dat" using assms by (simp add: xor.assoc)
  moreover have x: "a XOR (a XOR b) = b" for a b :: u8 by (simp flip: xor.assoc)
  ultimately show ?thesis
    using calculate_ecc_of [OF assms(1), of smc] c decide_code_bit [OF assms(3), of dat]
    unfolding e Let_def by (auto simp: correct_decide x ecc_decide_def [of dat 0 0 0] simp del: nand_correct_data.simps)
qed


theorem nand_ecc_corrects_witness:
  "\<exists>e c. nand_calculate_ecc False (replicate 256 7) = Some e \<and> nand_calculate_ecc False ((replicate 256 7)[3 := 7 XOR 2 ^ 5]) = Some c \<and>
     nand_correct_data False ((replicate 256 7)[3 := 7 XOR 2 ^ 5]) e c = Some (1, replicate 256 7)"
  using nand_ecc_corrects [of "replicate 256 7" 3 5 False] unfolding Let_def by (auto simp del: nand_correct_data.simps)


end
