(* ===== verification/Circbuf.thy ===== *)
theory Circbuf
  imports Prelude
begin

text \<open>
  The circular buffer of \<^verbatim>\<open>lib/circbuf.c\<close>, a queue of characters that drops the oldest ones when it is full. The pointers \<open>top\<close>, \<open>tail\<close> and
  \<open>end\<close> are offsets into the data. \<open>assert\<close> does nothing in the configuration of the board. \<open>buf_init\<close> is given the block that \<open>malloc\<close>
  returns; after a failed allocation the data is the empty block, through which every access fails. \<open>buf_pop\<close> returns the characters that it stores at
  \<open>dest\<close>; their number, the result of the C function, is the length of the list.
\<close>

section \<open>The buffer\<close>

record circbuf =
  cb_size :: nat
  cb_totalsize :: nat
  cb_data :: mem
  cb_top :: ptr
  cb_tail :: ptr
  cb_end :: ptr

definition buf_init :: "nat \<Rightarrow> mem option \<Rightarrow> int \<times> circbuf" where
  "buf_init n block =
     (1, \<lparr>cb_size = 0, cb_totalsize = n, cb_data = (case block of None \<Rightarrow> [] | Some d \<Rightarrow> d), cb_top = 0, cb_tail = 0, cb_end = n\<rparr>)"

definition buf_free :: "circbuf \<Rightarrow> int \<times> circbuf" where
  "buf_free buf = (1, \<lparr>cb_size = 0, cb_totalsize = 0, cb_data = [], cb_top = 0, cb_tail = 0, cb_end = 0\<rparr>)"

definition buf_wrap :: "circbuf \<Rightarrow> ptr \<Rightarrow> ptr" where
  "buf_wrap buf p = (if p = cb_end buf then 0 else p)"

fun pop_loop :: "circbuf \<Rightarrow> nat \<Rightarrow> ptr \<Rightarrow> (char list \<times> ptr) option" where
  "pop_loop buf 0 p = Some ([], p)"
| "pop_loop buf (Suc n) p =
     do { c \<leftarrow> rd (cb_data buf) p;
          (cs, p') \<leftarrow> pop_loop buf n (buf_wrap buf (p + 1));
          Some (c # cs, p') }"

definition buf_pop :: "circbuf \<Rightarrow> nat \<Rightarrow> (char list \<times> circbuf) option" where
  "buf_pop buf len =
     (let len = (if len > cb_size buf then cb_size buf else len)
      in do { (dest, p) \<leftarrow> pop_loop buf len (cb_top buf);
              Some (dest, buf\<lparr>cb_top := p, cb_size := cb_size buf - len\<rparr>) })"

fun push_loop :: "char list \<Rightarrow> circbuf \<Rightarrow> ptr \<Rightarrow> (circbuf \<times> ptr) option" where
  "push_loop [] buf p = Some (buf, p)"
| "push_loop (c # src) buf p =
     do { d \<leftarrow> wr (cb_data buf) p c;
          let p = buf_wrap buf (p + 1);
          let buf = buf\<lparr>cb_data := d\<rparr>;
          let buf = (if cb_size buf < cb_totalsize buf then buf\<lparr>cb_size := cb_size buf + 1\<rparr>
                     else buf\<lparr>cb_top := buf_wrap buf (cb_top buf + 1)\<rparr>);
          push_loop src buf p }"

definition buf_push :: "circbuf \<Rightarrow> char list \<Rightarrow> circbuf option" where
  "buf_push buf src = do { (buf, p) \<leftarrow> push_loop src buf (cb_tail buf); Some (buf\<lparr>cb_tail := p\<rparr>) }"

section \<open>A bounded queue\<close>

text \<open>What a user relies on: the items in order; a push appends and keeps the newest; a pop takes the oldest.\<close>

locale bounded_queue =
  fixes inv :: "'q \<Rightarrow> bool"
    and cap :: "'q \<Rightarrow> nat"
    and items :: "'q \<Rightarrow> 'a list"
    and push :: "'q \<Rightarrow> 'a list \<Rightarrow> 'q option"
    and pop :: "'q \<Rightarrow> nat \<Rightarrow> ('a list \<times> 'q) option"
  assumes push_law: "inv q \<Longrightarrow> \<exists>q'. push q xs = Some q' \<and> inv q' \<and> cap q' = cap q \<and>
      items q' = drop (length (items q) + length xs - cap q) (items q @ xs)"
    and pop_law: "inv q \<Longrightarrow> \<exists>q'. pop q n = Some (take n (items q), q') \<and> inv q' \<and> cap q' = cap q \<and> items q' = drop n (items q)"
    and cap_law: "inv q \<Longrightarrow> length (items q) \<le> cap q"
begin

text \<open>Nothing is lost and nothing is reordered while there is room.\<close>

lemma fifo:
  assumes "inv q" and "length (items q) + length xs \<le> cap q"
  obtains q' q'' where "push q xs = Some q'" and "pop q' (length (items q) + length xs) = Some (items q @ xs, q'')"
    and "inv q''" and "items q'' = []"
proof -
  obtain q' where q': "push q xs = Some q'" "inv q'" "items q' = items q @ xs"
    using push_law [OF assms(1), of xs] assms(2) by auto
  obtain q'' where q'': "pop q' (length (items q) + length xs) = Some (items q @ xs, q'')" "inv q''" "items q'' = []"
    using pop_law [OF q'(2), of "length (items q) + length xs"] by (auto simp: q'(3))
  show ?thesis by (rule that [OF q'(1) q''])
qed

text \<open>Pushing in pieces is pushing at once, as far as the items are concerned.\<close>

lemma push_append:
  assumes "inv q"
  obtains q1 q2 q3 where "push q xs = Some q1" and "push q1 ys = Some q2" and "push q (xs @ ys) = Some q3" and "items q2 = items q3"
proof -
  obtain q1 where q1: "push q xs = Some q1" "inv q1" "cap q1 = cap q" "items q1 = drop (length (items q) + length xs - cap q) (items q @ xs)"
    using push_law [OF assms, of xs] by blast
  obtain q2 where q2: "push q1 ys = Some q2" "items q2 = drop (length (items q1) + length ys - cap q) (items q1 @ ys)"
    using push_law [OF q1(2), of ys] q1(3) by auto
  obtain q3 where q3: "push q (xs @ ys) = Some q3" "items q3 = drop (length (items q) + length (xs @ ys) - cap q) (items q @ xs @ ys)"
    using push_law [OF assms, of "xs @ ys"] by auto
  have "items q2 = items q3"
  proof -
    let ?n = "length (items q) + length xs - cap q"
    have "items q1 @ ys = drop ?n (items q @ xs @ ys)" using q1(4) by (simp add: drop_append)
    moreover have "length (items q1) = length (items q) + length xs - ?n" using q1(4) by simp
    then have "length (items q1) + length ys - cap q + ?n = length (items q) + length (xs @ ys) - cap q" by simp
    ultimately show ?thesis unfolding q2(2) q3(2) by (simp only: drop_drop)
  qed
  then show ?thesis using that q1(1) q2(1) q3(1) by blast
qed

end

section \<open>The buffer is a bounded queue\<close>

definition buf_ok :: "circbuf \<Rightarrow> bool" where
  "buf_ok b \<longleftrightarrow> 0 < cb_totalsize b \<and> length (cb_data b) = cb_totalsize b \<and> cb_top b < cb_totalsize b \<and> cb_size b \<le> cb_totalsize b \<and>
     cb_tail b = (cb_top b + cb_size b) mod cb_totalsize b \<and> cb_end b = cb_totalsize b"

definition buf_items :: "circbuf \<Rightarrow> char list" where
  "buf_items b = map (\<lambda>i. cb_data b ! ((cb_top b + i) mod cb_totalsize b)) [0..<cb_size b]"

lemma length_buf_items [simp]: "length (buf_items b) = cb_size b"
  by (simp add: buf_items_def)

lemma buf_wrap_mod: "p < cb_totalsize b \<Longrightarrow> cb_end b = cb_totalsize b \<Longrightarrow> buf_wrap b (Suc p) = Suc p mod cb_totalsize b"
  by (auto simp: buf_wrap_def)

lemma pop_loop_items:
  assumes "length (cb_data b) = cb_totalsize b" and "p < cb_totalsize b" and "cb_end b = cb_totalsize b"
  shows "pop_loop b n p = Some (map (\<lambda>i. cb_data b ! ((p + i) mod cb_totalsize b)) [0..<n], (p + n) mod cb_totalsize b)"
  using assms(2)
proof (induction n arbitrary: p)
  case (Suc n)
  let ?m = "cb_totalsize b"
  have "map (\<lambda>i. cb_data b ! ((p + i) mod ?m)) [0..<Suc n] =
      cb_data b ! p # map (\<lambda>i. cb_data b ! (((p + 1) mod ?m + i) mod ?m)) [0..<n]"
    using Suc.prems by (simp add: map_upt_Suc mod_simps add.commute del: upt_Suc)
  moreover have "(p + 1) mod ?m < ?m" using Suc.prems by simp
  ultimately show ?case
    using Suc.IH [of "(p + 1) mod ?m"] Suc.prems assms(1,3) by (simp add: rd_def buf_wrap_mod mod_simps)
qed simp

lemma buf_pop_items:
  assumes "buf_ok b"
  shows "\<exists>b'. buf_pop b n = Some (take n (buf_items b), b') \<and> buf_ok b' \<and> cb_totalsize b' = cb_totalsize b \<and> buf_items b' = drop n (buf_items b)"
proof -
  let ?m = "cb_totalsize b" and ?n = "min n (cb_size b)"
  let ?b = "b\<lparr>cb_top := (cb_top b + ?n) mod ?m, cb_size := cb_size b - ?n\<rparr>"
  have ok: "0 < ?m" "length (cb_data b) = ?m" "cb_top b < ?m" "cb_size b \<le> ?m" "cb_tail b = (cb_top b + cb_size b) mod ?m" "cb_end b = ?m"
    using assms by (simp_all add: buf_ok_def)
  have "buf_pop b n = Some (map (\<lambda>i. cb_data b ! ((cb_top b + i) mod ?m)) [0..<?n], ?b)"
    using pop_loop_items [OF ok(2,3,6)] by (simp add: buf_pop_def Let_def min_def)
  moreover have "map (\<lambda>i. cb_data b ! ((cb_top b + i) mod ?m)) [0..<?n] = take n (buf_items b)"
    by (simp add: buf_items_def take_map min_def)
  moreover have "buf_items ?b = drop n (buf_items b)"
    by (rule nth_equalityI) (auto simp: buf_items_def mod_simps min_def add.assoc)
  moreover have "((cb_top b + ?n) mod ?m + (cb_size b - ?n)) mod ?m = (cb_top b + cb_size b) mod ?m"
    by (simp only: mod_add_left_eq add.assoc) simp
  then have "buf_ok ?b" using ok by (simp add: buf_ok_def)
  ultimately show ?thesis by auto
qed

text \<open>One character: the pushed one is the newest; when the buffer is full the oldest goes.\<close>

definition push1 :: "char \<Rightarrow> circbuf \<Rightarrow> circbuf" where
  "push1 c b =
     (let b1 = b\<lparr>cb_data := (cb_data b)[cb_tail b := c], cb_tail := Suc (cb_tail b) mod cb_totalsize b\<rparr>
      in if cb_size b < cb_totalsize b then b1\<lparr>cb_size := cb_size b + 1\<rparr> else b1\<lparr>cb_top := Suc (cb_top b) mod cb_totalsize b\<rparr>)"

lemma push1_ok:
  assumes "buf_ok b"
  shows "buf_ok (push1 c b)" and "cb_totalsize (push1 c b) = cb_totalsize b"
    and "buf_items (push1 c b) = drop (Suc (cb_size b) - cb_totalsize b) (buf_items b @ [c])"
proof -
  let ?m = "cb_totalsize b"
  have ok: "0 < ?m" "length (cb_data b) = ?m" "cb_top b < ?m" "cb_size b \<le> ?m" "cb_tail b = (cb_top b + cb_size b) mod ?m" "cb_end b = ?m"
    using assms by (simp_all add: buf_ok_def)
  show "buf_ok (push1 c b)"
  proof (cases "cb_size b < ?m")
    case True
    then show ?thesis using ok by (simp add: buf_ok_def push1_def Let_def mod_simps)
  next
    case False
    then have "cb_size b = ?m" using ok(4) by simp
    moreover from this have "cb_tail b = cb_top b" using ok(3,5) by simp
    ultimately show ?thesis using ok by (simp add: buf_ok_def push1_def Let_def)
  qed
  show "cb_totalsize (push1 c b) = ?m" by (simp add: push1_def Let_def)
  have apart: "(cb_top b + i) mod ?m \<noteq> (cb_top b + j) mod ?m" if "i < j" "j < i + ?m" for i j
  proof
    assume "(cb_top b + i) mod ?m = (cb_top b + j) mod ?m"
    then have "?m dvd (cb_top b + j) - (cb_top b + i)" using that(1) by (intro mod_eq_dvd_iff_nat [THEN iffD1]) auto
    then have "?m \<le> j - i" using that(1) by (auto dest: dvd_imp_le)
    then show False using that by simp
  qed
  show "buf_items (push1 c b) = drop (Suc (cb_size b) - ?m) (buf_items b @ [c])"
  proof (cases "cb_size b < ?m")
    case True
    have "(cb_data b)[cb_tail b := c] ! ((cb_top b + i) mod ?m) = cb_data b ! ((cb_top b + i) mod ?m)" if "i < cb_size b" for i
      using apart [of i "cb_size b"] that True ok(5) by simp
    moreover have "(cb_data b)[cb_tail b := c] ! ((cb_top b + cb_size b) mod ?m) = c" using ok by simp
    ultimately show ?thesis using True by (simp add: buf_items_def push1_def Let_def)
  next
    case False
    then have full: "cb_size b = ?m" "cb_tail b = cb_top b" using ok by simp_all
    have "(cb_data b)[cb_top b := c] ! (Suc (cb_top b + i) mod ?m) = (if i < ?m - 1 then cb_data b ! (Suc (cb_top b + i) mod ?m) else c)"
      if "i < ?m" for i
    proof (cases "i < ?m - 1")
      case True
      then have "Suc i < ?m" by simp
      then have "Suc (cb_top b + i) mod ?m \<noteq> cb_top b" using apart [of 0 "Suc i"] ok(3) by auto
      then show ?thesis using True by simp
    next
      case last: False
      then have "Suc i = ?m" using that by simp
      then have "Suc (cb_top b + i) mod ?m = cb_top b" using ok(3) by (metis add_Suc_right mod_add_self2 mod_less)
      then show ?thesis using last ok by simp
    qed
    then show ?thesis using full ok(1)
      by (intro nth_equalityI) (auto simp: buf_items_def push1_def Let_def mod_simps nth_append)
  qed
qed

text \<open>The loop of \<open>buf_push\<close> is a fold of this step, with the tail kept outside of the record.\<close>

lemma push_loop_fold:
  assumes "buf_ok b"
  shows "push_loop src (b\<lparr>cb_tail := t\<rparr>) (cb_tail b) = Some ((fold push1 src b)\<lparr>cb_tail := t\<rparr>, cb_tail (fold push1 src b))"
  using assms
proof (induction src arbitrary: b)
  case (Cons c src)
  have ok: "cb_tail b < cb_totalsize b" "length (cb_data b) = cb_totalsize b" "cb_top b < cb_totalsize b" "cb_end b = cb_totalsize b"
    using Cons.prems by (auto simp: buf_ok_def)
  have "push_loop (c # src) (b\<lparr>cb_tail := t\<rparr>) (cb_tail b) = push_loop src ((push1 c b)\<lparr>cb_tail := t\<rparr>) (cb_tail (push1 c b))"
    using ok by (cases b) (auto simp: wr_def push1_def Let_def buf_wrap_def)
  then show ?case using Cons.IH [OF push1_ok(1) [OF Cons.prems]] by simp
qed simp

lemma fold_push1:
  assumes "buf_ok b"
  shows "buf_ok (fold push1 src b) \<and> cb_totalsize (fold push1 src b) = cb_totalsize b \<and>
    buf_items (fold push1 src b) = drop (cb_size b + length src - cb_totalsize b) (buf_items b @ src)"
proof (induction src rule: rev_induct)
  case Nil
  then show ?case using assms by (simp add: buf_ok_def)
next
  case (snoc c src)
  let ?b = "fold push1 src b" and ?m = "cb_totalsize b" and ?n = "cb_size b + length src - cb_totalsize b"
  have items: "buf_items ?b = drop ?n (buf_items b @ src)" using snoc by blast
  then have sz: "cb_size ?b = cb_size b + length src - ?n" by (metis length_append length_buf_items length_drop)
  have "buf_items (push1 c ?b) = drop (Suc (cb_size ?b) - ?m) (drop ?n (buf_items b @ src) @ [c])"
    using push1_ok(3) [of ?b c] snoc items by simp
  also have "\<dots> = drop (Suc (cb_size ?b) - ?m + ?n) ((buf_items b @ src) @ [c])"
  proof -
    have "?n \<le> length (buf_items b @ src)" by simp
    then have "drop ?n (buf_items b @ src) @ [c] = drop ?n ((buf_items b @ src) @ [c])" by (simp only: drop_append) simp
    then show ?thesis by (simp only: drop_drop)
  qed
  also have "Suc (cb_size ?b) - ?m + ?n = cb_size b + length (src @ [c]) - ?m" using sz by simp
  finally show ?case using push1_ok(1,2) [of ?b c] snoc by simp
qed

lemma buf_push_items:
  assumes "buf_ok b"
  shows "\<exists>b'. buf_push b src = Some b' \<and> buf_ok b' \<and> cb_totalsize b' = cb_totalsize b \<and>
    buf_items b' = drop (cb_size b + length src - cb_totalsize b) (buf_items b @ src)"
proof -
  have "buf_push b src = Some (fold push1 src b)"
    using push_loop_fold [OF assms, of src "cb_tail b"] by (simp add: buf_push_def)
  then show ?thesis using fold_push1 [OF assms] by simp
qed

interpretation cb: bounded_queue buf_ok cb_totalsize buf_items buf_push buf_pop
proof
  fix q :: circbuf and xs n
  assume "buf_ok q"
  then show "\<exists>q'. buf_push q xs = Some q' \<and> buf_ok q' \<and> cb_totalsize q' = cb_totalsize q \<and>
      buf_items q' = drop (length (buf_items q) + length xs - cb_totalsize q) (buf_items q @ xs)"
    using buf_push_items by simp
  show "\<exists>q'. buf_pop q n = Some (take n (buf_items q), q') \<and> buf_ok q' \<and> cb_totalsize q' = cb_totalsize q \<and> buf_items q' = drop n (buf_items q)"
    using buf_pop_items [OF \<open>buf_ok q\<close>] by blast
  show "length (buf_items q) \<le> cb_totalsize q" using \<open>buf_ok q\<close> by (simp add: buf_ok_def)
qed

section \<open>The queue\<close>

lemma buf_init_ok: "length d = n \<Longrightarrow> 0 < n \<Longrightarrow> buf_ok (snd (buf_init n (Some d))) \<and> buf_items (snd (buf_init n (Some d))) = []"
  by (simp add: buf_init_def buf_ok_def buf_items_def)

text \<open>A user of the buffer sees a list: a sequence of pushes and pops, with what was popped.\<close>

datatype buf_op = Push "char list" | Pop nat

fun buf_run :: "buf_op list \<Rightarrow> circbuf \<Rightarrow> (char list list \<times> circbuf) option" where
  "buf_run [] b = Some ([], b)"
| "buf_run (Push xs # ops) b = do { b \<leftarrow> buf_push b xs; buf_run ops b }"
| "buf_run (Pop n # ops) b = do { (out, b) \<leftarrow> buf_pop b n; (outs, b) \<leftarrow> buf_run ops b; Some (out # outs, b) }"

fun queue_run :: "nat \<Rightarrow> buf_op list \<Rightarrow> char list \<Rightarrow> char list list \<times> char list" where
  "queue_run m [] q = ([], q)"
| "queue_run m (Push xs # ops) q = queue_run m ops (drop (length q + length xs - m) (q @ xs))"
| "queue_run m (Pop n # ops) q = (let (outs, q') = queue_run m ops (drop n q) in (take n q # outs, q'))"

lemma buf_run_queue:
  "buf_ok b \<Longrightarrow> \<exists>b'. buf_run ops b = Some (fst (queue_run (cb_totalsize b) ops (buf_items b)), b') \<and> buf_ok b' \<and>
    buf_items b' = snd (queue_run (cb_totalsize b) ops (buf_items b))"
proof (induction ops arbitrary: b)
  case (Cons p ops)
  show ?case
  proof (cases p)
    case (Push xs)
    obtain b1 where b1: "buf_push b xs = Some b1" "buf_ok b1" "cb_totalsize b1 = cb_totalsize b"
      "buf_items b1 = drop (length (buf_items b) + length xs - cb_totalsize b) (buf_items b @ xs)"
      using cb.push_law [OF Cons.prems] by blast
    show ?thesis using Cons.IH [OF b1(2)] b1 Push by simp
  next
    case (Pop n)
    obtain b1 where b1: "buf_pop b n = Some (take n (buf_items b), b1)" "buf_ok b1" "cb_totalsize b1 = cb_totalsize b"
      "buf_items b1 = drop n (buf_items b)"
      using cb.pop_law [OF Cons.prems] by blast
    show ?thesis using Cons.IH [OF b1(2)] b1 Pop by (auto simp: split_beta)
  qed
qed simp

text \<open>C24. A circular buffer is a bounded queue: from a fresh buffer, any sequence of pushes and pops succeeds without leaving the data, and what is popped is
  what a list of at most the capacity gives, which appends what is pushed, drops the oldest characters when there are too many, and takes
  the oldest first.\<close>

theorem circbuf_is_queue:
  assumes "0 < n" and "length d = n"
  shows "\<exists>b. buf_run ops (snd (buf_init n (Some d))) = Some (fst (queue_run n ops []), b) \<and> buf_ok b \<and> buf_items b = snd (queue_run n ops [])"
  using buf_run_queue [of "snd (buf_init n (Some d))" ops] buf_init_ok [OF assms(2,1)] by (simp add: buf_init_def)

theorem circbuf_is_queue_witness:
  "\<exists>b. buf_run [Push ''abc'', Pop 1, Push ''defg'', Pop 9] (snd (buf_init 4 (Some ''....''))) = Some ([''a'', ''defg''], b) \<and>
     buf_items b = []"
  using circbuf_is_queue [of 4 "''....''" "[Push ''abc'', Pop 1, Push ''defg'', Pop 9]"] by auto

end
