(* ===== verification/Parse_Args.thy ===== *)
theory Parse_Args
  imports Mem_String
begin

text \<open>
  Splitting a line into arguments: \<open>parse_line\<close> of \<^verbatim>\<open>common/main.c\<close> and \<open>make_argv\<close> of \<^verbatim>\<open>common/command.c\<close>, whose loops are the same up to the
  limit on the number of arguments. The line is changed in place: a blank after an argument becomes NUL, and the arguments are pointers into the line.
\<close>

section \<open>The loops\<close>

definition CONFIG_SYS_MAXARGS :: nat where "CONFIG_SYS_MAXARGS = 64"

function skip_blank :: "mem \<Rightarrow> ptr \<Rightarrow> ptr option" where
  "skip_blank m p = (if p < length m then if isblank (m ! p) then skip_blank m (Suc p) else Some p else None)"
  by pat_completeness auto
termination
  by (relation "measure (\<lambda>(m, p). length m - p)") auto

function skip_word :: "mem \<Rightarrow> ptr \<Rightarrow> ptr option" where
  "skip_word m p = (if p < length m then if m ! p \<noteq> NUL \<and> \<not> isblank (m ! p) then skip_word m (Suc p) else Some p else None)"
  by pat_completeness auto
termination
  by (relation "measure (\<lambda>(m, p). length m - p)") auto

declare skip_blank.simps [simp del] skip_word.simps [simp del]

text \<open>The result is the changed memory, the arguments, and whether the loop ended at the end of the line and not at the limit.\<close>

fun arg_loop :: "nat \<Rightarrow> mem \<Rightarrow> ptr \<Rightarrow> (mem \<times> ptr list \<times> bool) option" where
  "arg_loop 0 m line = Some (m, [], False)"
| "arg_loop (Suc n) m line =
     do { line \<leftarrow> skip_blank m line;
          c \<leftarrow> rd m line;
          if c = NUL then Some (m, [], True)
          else do { e \<leftarrow> skip_word m line;
                    c \<leftarrow> rd m e;
                    if c = NUL then Some (m, [line], True)
                    else do { m \<leftarrow> wr m e NUL;
                              (m, argv, ended) \<leftarrow> arg_loop n m (Suc e);
                              Some (m, line # argv, ended) } } }"

text \<open>At the limit \<open>parse_line\<close> prints a message and stores no NULL pointer after the arguments; the third component of the result says whether it stored one.\<close>

definition parse_line :: "mem \<Rightarrow> ptr \<Rightarrow> (mem \<times> ptr list \<times> bool) option" where
  "parse_line m line = arg_loop CONFIG_SYS_MAXARGS m line"

definition make_argv :: "mem \<Rightarrow> ptr \<Rightarrow> nat \<Rightarrow> (mem \<times> ptr list) option" where
  "make_argv m s argvsz = do { (m, argv, ended) \<leftarrow> arg_loop (argvsz - 1) m s; Some (m, argv) }"

text \<open>The string at a pointer.\<close>

definition getstr :: "mem \<Rightarrow> ptr \<Rightarrow> string option" where
  "getstr m p = do { n \<leftarrow> strlen m p; Some (slice m p n) }"

fun getstrs :: "mem \<Rightarrow> ptr list \<Rightarrow> string list option" where
  "getstrs m [] = Some []"
| "getstrs m (p # ps) = do { s \<leftarrow> getstr m p; ss \<leftarrow> getstrs m ps; Some (s # ss) }"

section \<open>Words\<close>

text \<open>The words of a string, the longest runs of characters that are not blank.\<close>

lemma dropWhile_word_shorter:
  "x \<noteq> [] \<Longrightarrow> \<not> isblank (hd x) \<Longrightarrow> length (dropWhile (\<lambda>c. \<not> isblank c) x) < length x"
  by (cases x) (simp_all add: le_imp_less_Suc length_dropWhile_le)

function blank_words :: "string \<Rightarrow> string list" where
  "blank_words s =
     (let s = dropWhile isblank s
      in if s = [] then [] else takeWhile (\<lambda>c. \<not> isblank c) s # blank_words (dropWhile (\<lambda>c. \<not> isblank c) s))"
  by pat_completeness auto
termination
proof (relation "measure length")
  fix s x :: string
  assume "x = dropWhile isblank s" and "x \<noteq> []"
  then have "length (dropWhile (\<lambda>c. \<not> isblank c) x) < length x"
    using hd_dropWhile [of isblank s] by (intro dropWhile_word_shorter) auto
  then show "(dropWhile (\<lambda>c. \<not> isblank c) x, s) \<in> measure length"
    using length_dropWhile_le [of isblank s] \<open>x = dropWhile isblank s\<close> by simp
qed simp

declare blank_words.simps [simp del]

lemma blank_words_Nil: "blank_words s = [] \<longleftrightarrow> (\<forall>c \<in> set s. isblank c)"
  by (simp add: blank_words.simps [of s] Let_def)

lemma getstr_cstr: "cstr m p s \<Longrightarrow> getstr m p = Some s"
  by (simp add: getstr_def strlen_cstr cstr_slice)

lemma getstrs_cstr: "list_all2 (cstr m) ps ss \<Longrightarrow> getstrs m ps = Some ss"
  by (induction ps ss rule: list_all2_induct) (simp_all add: getstr_cstr)

lemma skip_blank_cstr: "cstr m p s \<Longrightarrow> skip_blank m p = Some (p + length (takeWhile isblank s))"
  by (induction s arbitrary: p) (auto simp: skip_blank.simps)

lemma skip_word_cstr: "cstr m p s \<Longrightarrow> skip_word m p = Some (p + length (takeWhile (\<lambda>c. \<not> isblank c) s))"
  by (induction s arbitrary: p) (auto simp: skip_word.simps)

lemma rd_cstr: "cstr m p s \<Longrightarrow> rd m p = Some (if s = [] then NUL else hd s)"
  by (cases s) (auto simp: rd_def)

lemma dropWhile_cstr: "cstr m p s \<Longrightarrow> cstr m (p + length (takeWhile P s)) (dropWhile P s)"
  using cstr_append_drop [of m p "takeWhile P s" "dropWhile P s"] by simp

text \<open>What the loop leaves alone: only blanks of the line become NUL.\<close>

definition only_cut :: "mem \<Rightarrow> ptr \<Rightarrow> nat \<Rightarrow> mem \<Rightarrow> bool" where
  "only_cut m p n m' \<longleftrightarrow> length m' = length m \<and>
     (\<forall>a < length m. m' ! a = m ! a \<or> p \<le> a \<and> a < p + n \<and> isblank (m ! a) \<and> m' ! a = NUL)"

lemma only_cut_refl: "only_cut m p n m"
  by (simp add: only_cut_def)

lemma only_cut_cstr: "only_cut m p n m' \<Longrightarrow> cstr m a s \<Longrightarrow> a + length s < p \<or> p + n \<le> a \<Longrightarrow> cstr m' a s"
proof -
  assume c: "only_cut m p n m'" and s: "cstr m a s" and o: "a + length s < p \<or> p + n \<le> a"
  have "m' ! (a + i) = m ! (a + i)" if "i \<le> length s" for i
  proof -
    have "a + i < length m" using cstr_bound [OF s] that by simp
    then have "m' ! (a + i) = m ! (a + i) \<or> p \<le> a + i \<and> a + i < p + n" using c unfolding only_cut_def by blast
    moreover have "\<not> (p \<le> a + i \<and> a + i < p + n)" using o that by linarith
    ultimately show ?thesis by blast
  qed
  then show "cstr m' a s" using s c by (simp add: cstr_iff only_cut_def)
qed

lemma only_cut_step:
  assumes "only_cut (m[e := NUL]) (Suc e) k m'" and "isblank (m ! e)" and "p \<le> e" and "Suc e + k \<le> p + n"
  shows "only_cut m p n m'"
  unfolding only_cut_def
proof (intro conjI allI impI)
  show "length m' = length m" using assms(1) by (simp add: only_cut_def)
  fix a
  assume "a < length m"
  then have "m' ! a = m[e := NUL] ! a \<or> Suc e \<le> a \<and> a < Suc e + k \<and> isblank (m[e := NUL] ! a) \<and> m' ! a = NUL"
    using assms(1) unfolding only_cut_def by simp
  then show "m' ! a = m ! a \<or> p \<le> a \<and> a < p + n \<and> isblank (m ! a) \<and> m' ! a = NUL"
    using assms(2-4) \<open>a < length m\<close> by (cases "a = e") auto
qed

lemma arg_loop_words:
  assumes "cstr m p s"
  shows "\<exists>m' argv. arg_loop n m p = Some (m', argv, length (blank_words s) < n \<or> (length (blank_words s) = n \<and> 0 < n \<and> \<not> isblank (last s))) \<and>
    list_all2 (cstr m') argv (take n (blank_words s)) \<and> only_cut m p (length s) m' \<and> list_all (\<lambda>a. p \<le> a \<and> a < p + length s) argv"
  using assms
proof (induction n arbitrary: m p s)
  case 0
  then show ?case by (simp add: only_cut_refl)
next
  case (Suc n)
  define b where "b = takeWhile isblank s"
  define t where "t = dropWhile isblank s"
  define w where "w = takeWhile (\<lambda>c. \<not> isblank c) t"
  define r where "r = dropWhile (\<lambda>c. \<not> isblank c) t"
  have s: "s = b @ t" and t: "t = w @ r" by (simp_all add: b_def t_def w_def r_def)
  have ct: "cstr m (p + length b) t" using dropWhile_cstr [OF Suc.prems] by (simp add: b_def t_def)
  have cr: "cstr m (p + length b + length w) r" using dropWhile_cstr [OF ct] by (simp add: w_def r_def)
  have bl: "skip_blank m p = Some (p + length b)" using skip_blank_cstr [OF Suc.prems] by (simp add: b_def)
  have wd: "skip_word m (p + length b) = Some (p + length b + length w)" using skip_word_cstr [OF ct] by (simp add: w_def)
  show ?case
  proof (cases "t = []")
    case True
    then have "blank_words s = []" by (simp add: blank_words.simps [of s] t_def)
    moreover have "rd m (p + length b) = Some NUL" using rd_cstr [OF ct] True by simp
    ultimately show ?thesis using bl only_cut_refl by simp
  next
    case False
    then have hd: "\<not> isblank (hd t)" using hd_dropWhile [of isblank s] by (simp add: t_def)
    then have wn: "w \<noteq> []" using False by (cases t) (simp_all add: w_def)
    have ws: "blank_words s = w # blank_words r" using False by (simp add: blank_words.simps [of s] Let_def w_def r_def flip: t_def)
    have nz: "rd m (p + length b) = Some (hd t)" "hd t \<noteq> NUL" using rd_cstr [OF ct] ct False by (cases t, simp_all)+
    show ?thesis
    proof (cases "r = []")
      case True
      then have "rd m (p + length b + length w) = Some NUL" using rd_cstr [OF cr] by simp
      moreover have "blank_words r = []" using True by (simp add: blank_words.simps)
      moreover have "\<not> isblank (last s)"
      proof -
        have "last s = last w" using s t True wn by simp
        then show ?thesis using wn by (metis last_in_set set_takeWhileD w_def)
      qed
      moreover have "cstr m (p + length b) w" using ct t True by simp
      ultimately show ?thesis using bl wd nz ws only_cut_refl s t wn by (auto simp: Suc_le_eq)
    next
      case rn: False
      let ?e = "p + length b + length w"
      let ?m = "m[?e := NUL]"
      obtain c u where r: "r = c # u" using rn by (cases r) auto
      have cb: "isblank c" using rn r hd_dropWhile [of "\<lambda>c. \<not> isblank c" t] by (simp add: r_def)
      have e: "rd m ?e = Some c" "c \<noteq> NUL" "?e < length m" "m ! ?e = c" using cr r by (auto simp: rd_def)
      have cut: "cstr ?m (p + length b) w" "cstr ?m (Suc ?e) u" using cstr_cut [of m "p + length b" w c u] ct t r by simp_all
      obtain m' argv where IH: "arg_loop n ?m (Suc ?e) = Some (m', argv, length (blank_words u) < n \<or> (length (blank_words u) = n \<and> 0 < n \<and> \<not> isblank (last u)))"
        "list_all2 (cstr m') argv (take n (blank_words u))" "only_cut ?m (Suc ?e) (length u) m'" "list_all (\<lambda>a. Suc ?e \<le> a \<and> a < Suc ?e + length u) argv"
        using Suc.IH [OF cut(2)] by blast
      have ru: "blank_words r = blank_words u" using cb unfolding r by (simp add: blank_words.simps [of "c # u"] blank_words.simps [of u])
      have "cstr m' (p + length b) w" using only_cut_cstr [OF IH(3) cut(1)] by simp
      moreover have "only_cut m p (length s) m'"
        using only_cut_step [OF IH(3)] e(4) cb s t r by simp
      moreover have "(length (blank_words u) = n \<and> 0 < n \<and> \<not> isblank (last u)) = (length (blank_words u) = n \<and> \<not> isblank (last s))"
        using s t r cb by (cases "u = []") (auto simp: blank_words_Nil)
      ultimately show ?thesis using IH bl wd nz ws ru e s t r by (auto simp: wr_def list_all_iff)
    qed
  qed
qed

section \<open>Properties\<close>

text \<open>\<open>parse_line\<close> returns the words of the line: the first 64 of them, in order, as strings inside of the line; nothing but blanks of the line is overwritten,
  and a NULL pointer follows the arguments exactly when the line ended before the limit was noticed.\<close>

lemma parse_line_words:
  assumes "cstr m p s"
  shows "\<exists>m' argv ended. parse_line m p = Some (m', argv, ended) \<and> list_all2 (cstr m') argv (take 64 (blank_words s)) \<and>
    list_all (\<lambda>a. p \<le> a \<and> a < p + length s) argv \<and> only_cut m p (length s) m' \<and>
    (ended \<longleftrightarrow> length (blank_words s) < 64 \<or> length (blank_words s) = 64 \<and> \<not> isblank (last s))"
  using arg_loop_words [OF assms, of 64] by (auto simp: parse_line_def CONFIG_SYS_MAXARGS_def)

lemma make_argv_words:
  assumes "cstr m p s"
  shows "\<exists>m' argv. make_argv m p n = Some (m', argv) \<and> list_all2 (cstr m') argv (take (n - 1) (blank_words s)) \<and>
    getstrs m' argv = Some (take (n - 1) (blank_words s))"
  using arg_loop_words [OF assms, of "n - 1"] by (auto simp: make_argv_def getstrs_cstr)

end
