(* ===== verification/Command.thy ===== *)
theory Command
  imports Parse_Args "HOL-Library.Sublist"
begin

text \<open>
  The command table (\<^verbatim>\<open>common/command.c\<close>, \<^verbatim>\<open>include/command.h\<close>): finding a command by its name or an abbreviation, calling it, and
  completing a command on the console. The table is the linker section between \<open>__u_boot_cmd_start\<close> and \<open>__u_boot_cmd_end\<close>, here a list. The
  pointers to functions in it are numbers, and \<open>call\<close> and \<open>compl\<close> say what the functions do: \<open>call\<close> maps the state of the rest of the
  program, and \<open>compl\<close> returns the possible completions of the arguments of one command. Names are strings without their NUL; to take a pointer
  beyond the NUL is \<open>None\<close>. What is printed is left out.
\<close>

section \<open>The table\<close>

record cmd_tbl =
  cmd_name :: string
  cmd_maxargs :: int
  cmd_repeatable :: int
  cmd_fn :: nat
  cmd_help :: "string option"
  cmd_complete :: "nat option"

definition CMD_FLAG_REPEAT :: int where "CMD_FLAG_REPEAT = 0x0001"

definition CMD_FLAG_BOOTD :: int where "CMD_FLAG_BOOTD = 0x0002"

definition CMD_RET_SUCCESS :: int where "CMD_RET_SUCCESS = 0"

definition CMD_RET_FAILURE :: int where "CMD_RET_FAILURE = 1"

definition CMD_RET_USAGE :: int where "CMD_RET_USAGE = - 1"

definition CONFIG_SYS_PROMPT :: string where "CONFIG_SYS_PROMPT = ''u-boot> ''"

definition CONFIG_SYS_CBSIZE :: nat where "CONFIG_SYS_CBSIZE = 1024"

section \<open>Finding a command\<close>

text \<open>The first character of a string with its NUL, and \<open>strncmp\<close> on two strings.\<close>

definition chr0 :: "string \<Rightarrow> char" where
  "chr0 s = (case s of [] \<Rightarrow> NUL | c # _ \<Rightarrow> c)"

fun sncmp :: "string \<Rightarrow> string \<Rightarrow> nat \<Rightarrow> int" where
  "sncmp s t 0 = 0"
| "sncmp s t (Suc n) =
     (let res = schar_diff (chr0 s) (chr0 t)
      in if res \<noteq> 0 \<or> chr0 s = NUL then res else sncmp (tl s) (tl t) n)"

definition cmd_len :: "string \<Rightarrow> nat" where
  "cmd_len cmd = length (takeWhile (\<lambda>c. c \<noteq> CHR ''.'') cmd)"

fun find_cmd_loop :: "string \<Rightarrow> nat \<Rightarrow> cmd_tbl list \<Rightarrow> cmd_tbl option \<Rightarrow> nat \<Rightarrow> cmd_tbl option" where
  "find_cmd_loop cmd len [] cmdtp_temp n_found = (if n_found = 1 then cmdtp_temp else None)"
| "find_cmd_loop cmd len (cmdtp # table) cmdtp_temp n_found =
     (if sncmp cmd (cmd_name cmdtp) len = 0
      then if len = length (cmd_name cmdtp) then Some cmdtp else find_cmd_loop cmd len table (Some cmdtp) (n_found + 1)
      else find_cmd_loop cmd len table cmdtp_temp n_found)"

definition find_cmd_tbl :: "string option \<Rightarrow> cmd_tbl list \<Rightarrow> cmd_tbl option" where
  "find_cmd_tbl cmd table = (case cmd of None \<Rightarrow> None | Some cmd \<Rightarrow> find_cmd_loop cmd (cmd_len cmd) table None 0)"

section \<open>Calling a command\<close>

definition cmd_usage :: "cmd_tbl \<Rightarrow> int" where
  "cmd_usage cmdtp = 1"

definition cmd_call :: "(nat \<Rightarrow> cmd_tbl \<Rightarrow> int \<Rightarrow> string list \<Rightarrow> 's \<Rightarrow> int \<times> 's) \<Rightarrow> cmd_tbl \<Rightarrow> int \<Rightarrow> string list \<Rightarrow> 's \<Rightarrow> int \<times> 's" where
  "cmd_call call cmdtp flag argv st = call (cmd_fn cmdtp) cmdtp flag argv st"

definition argv0 :: "string list \<Rightarrow> string option" where
  "argv0 argv = (case argv of [] \<Rightarrow> None | a # _ \<Rightarrow> Some a)"

definition cmd_check :: "nat \<Rightarrow> cmd_tbl \<Rightarrow> int \<Rightarrow> string list \<Rightarrow> int \<times> int" where
  "cmd_check do_bootd cmdtp flags argv =
     (if int (length argv) > cmd_maxargs cmdtp then (CMD_RET_USAGE, flags)
      else if cmd_fn cmdtp = do_bootd
      then if flags AND CMD_FLAG_BOOTD \<noteq> 0 then (CMD_RET_FAILURE, flags) else (CMD_RET_SUCCESS, flags OR CMD_FLAG_BOOTD)
      else (CMD_RET_SUCCESS, flags))"

definition cmd_process ::
    "(nat \<Rightarrow> cmd_tbl \<Rightarrow> int \<Rightarrow> string list \<Rightarrow> 's \<Rightarrow> int \<times> 's) \<Rightarrow> nat \<Rightarrow> cmd_tbl list \<Rightarrow> int \<Rightarrow> string list \<Rightarrow> int \<Rightarrow> 's \<Rightarrow> int \<times> int \<times> 's" where
  "cmd_process call do_bootd table flags argv repeatable st =
     (case find_cmd_tbl (argv0 argv) table of
        None \<Rightarrow> (1, repeatable, st)
      | Some cmdtp \<Rightarrow>
          let (rc, flags) = cmd_check do_bootd cmdtp flags argv;
              (rc, repeatable, st) =
                (if rc = 0
                 then let (rc, st) = cmd_call call cmdtp flags argv st in (rc, repeatable AND cmd_repeatable cmdtp, st)
                 else (rc, repeatable, st))
          in (if rc = CMD_RET_USAGE then cmd_usage cmdtp else rc, repeatable, st))"

definition cmd_get_data_size :: "string \<Rightarrow> int \<Rightarrow> int" where
  "cmd_get_data_size arg default_size =
     (let len = length arg
      in if len > 2 \<and> arg ! (len - 2) = CHR ''.''
         then if arg ! (len - 1) = CHR ''b'' then 1
              else if arg ! (len - 1) = CHR ''w'' then 2
              else if arg ! (len - 1) = CHR ''l'' then 4
              else if arg ! (len - 1) = CHR ''s'' then - 2
              else - 1
         else default_size)"

section \<open>Completing a command\<close>

type_synonym completer = "nat \<Rightarrow> string list \<Rightarrow> char \<Rightarrow> nat \<Rightarrow> string list"

fun all_cmds :: "nat \<Rightarrow> nat \<Rightarrow> cmd_tbl list \<Rightarrow> string list" where
  "all_cmds maxv n_found [] = []"
| "all_cmds maxv n_found (cmdtp # table) =
     (if n_found \<ge> maxv - 2 then [''...''] else cmd_name cmdtp # all_cmds maxv (n_found + 1) table)"

fun partial_cmds :: "string \<Rightarrow> nat \<Rightarrow> nat \<Rightarrow> nat \<Rightarrow> cmd_tbl list \<Rightarrow> string list" where
  "partial_cmds cmd len maxv n_found [] = []"
| "partial_cmds cmd len maxv n_found (cmdtp # table) =
     (if length (cmd_name cmdtp) < len then partial_cmds cmd len maxv n_found table
      else if take len cmd \<noteq> take len (cmd_name cmdtp) then partial_cmds cmd len maxv n_found table
      else if n_found \<ge> maxv - 2 then [''...'']
      else cmd_name cmdtp # partial_cmds cmd len maxv (n_found + 1) table)"

definition complete_cmdv :: "completer \<Rightarrow> cmd_tbl list \<Rightarrow> string list \<Rightarrow> char \<Rightarrow> nat \<Rightarrow> int \<times> string list" where
  "complete_cmdv compl table argv last_char maxv =
     (if maxv < 2 then (- 2, [])
      else let cmdv = (case argv of
               [] \<Rightarrow> all_cmds maxv 0 table
             | cmd # _ \<Rightarrow>
                 if length argv > 1 \<or> last_char = NUL \<or> isblank last_char
                 then (case find_cmd_tbl (Some cmd) table of
                         None \<Rightarrow> []
                       | Some cmdtp \<Rightarrow> (case cmd_complete cmdtp of None \<Rightarrow> [] | Some f \<Rightarrow> compl f argv last_char maxv))
                 else partial_cmds cmd (cmd_len cmd) maxv 0 table)
           in (int (length cmdv), cmdv))"

fun common_run :: "nat \<Rightarrow> string \<Rightarrow> string \<Rightarrow> nat" where
  "common_run 0 s t = 0"
| "common_run (Suc n) s t = (if chr0 t \<noteq> chr0 s then 0 else Suc (common_run n (tl s) (tl t)))"

fun common_loop :: "string \<Rightarrow> nat \<Rightarrow> string list \<Rightarrow> nat" where
  "common_loop anchor len [] = len"
| "common_loop anchor len (t # ts) = common_loop anchor (common_run len anchor t) ts"

definition find_common_prefix :: "string list \<Rightarrow> nat" where
  "find_common_prefix argv = (case argv of [] \<Rightarrow> 0 | anchor # ts \<Rightarrow> common_loop anchor (length anchor) ts)"

text \<open>\<open>strcpy\<close> from one object to another, and a loop that stores characters.\<close>

definition strcpy_obj :: "mem \<Rightarrow> mem \<Rightarrow> mem option" where
  "strcpy_obj dest src = do { n \<leftarrow> strlen src 0; if n < length dest then Some (store dest 0 (slice src 0 (Suc n))) else None }"

fun put_chars :: "mem \<Rightarrow> ptr \<Rightarrow> string \<Rightarrow> mem option" where
  "put_chars m t [] = Some m"
| "put_chars m t (c # s) = do { m \<leftarrow> wr m t c; put_chars m (Suc t) s }"

definition last_arg :: "string list \<Rightarrow> string option" where
  "last_arg args = (if args = [] then None else Some (last args))"

definition past :: "nat \<Rightarrow> string \<Rightarrow> string option" where
  "past k s = (if k \<le> length s then Some (drop k s) else None)"

text \<open>The text to append and its separator; \<open>None\<close> inside is the null pointer of \<open>s\<close>.\<close>

definition completion_text :: "int \<Rightarrow> string list \<Rightarrow> string list \<Rightarrow> (string \<times> string) option option" where
  "completion_text i cmdv args =
     (if i = 1
      then do { arg \<leftarrow> last_arg args; s \<leftarrow> past (length arg) (hd cmdv); Some (Some (s, '' '')) }
      else if i > 1 \<and> find_common_prefix cmdv \<noteq> 0
      then do { arg \<leftarrow> last_arg args;
                let k = length arg;
                if find_common_prefix cmdv > k
                then do { s \<leftarrow> past k (hd cmdv); Some (Some (take (find_common_prefix cmdv - k) s, [])) }
                else Some None }
      else Some None)"

definition apply_completion :: "string list \<Rightarrow> int \<times> string list \<Rightarrow> nat \<Rightarrow> mem \<Rightarrow> nat \<Rightarrow> nat \<Rightarrow> (int \<times> mem \<times> nat \<times> nat) option" where
  "apply_completion args r cnt buf n col =
     (if fst r = 0 then Some (if length args > 1 then 0 else 1, buf, n, col)
      else do {
        c \<leftarrow> completion_text (fst r) (snd r) args;
        case c of
          None \<Rightarrow> Some (1, buf, n, col)
        | Some (s, sep) \<Rightarrow>
            let k = length s + length sep
            in if n + k \<ge> CONFIG_SYS_CBSIZE - 2 then Some (1, buf, n, col)
               else do { buf \<leftarrow> put_chars buf cnt (s @ sep @ [NUL]); Some (1, buf, n + k, col + k) } })"

definition cmd_auto_complete :: "completer \<Rightarrow> cmd_tbl list \<Rightarrow> mem \<Rightarrow> string \<Rightarrow> mem \<Rightarrow> nat \<Rightarrow> nat \<Rightarrow> (int \<times> mem \<times> nat \<times> nat) option" where
  "cmd_auto_complete compl table tmp_buf prompt buf n col =
     (if scmp prompt CONFIG_SYS_PROMPT \<noteq> 0 then Some (0, buf, n, col)
      else do {
        cnt \<leftarrow> strlen buf 0;
        last_char \<leftarrow> (if cnt \<ge> 1 then rd buf (cnt - 1) else Some NUL);
        tmp_buf \<leftarrow> strcpy_obj tmp_buf buf;
        (tmp_buf, argv) \<leftarrow> make_argv tmp_buf 0 (CONFIG_SYS_MAXARGS + 1);
        args \<leftarrow> getstrs tmp_buf argv;
        apply_completion args (complete_cmdv compl table args last_char 20) cnt buf n col })"

section \<open>Lookup\<close>

lemma chr0_simps [simp]: "chr0 [] = NUL" "chr0 (c # s) = c"
  by (simp_all add: chr0_def)

lemma schar_diff_same [simp]: "schar_diff c c = 0"
  by simp

lemma strncmp_sncmp: "cstr m p s \<Longrightarrow> cstr m q t \<Longrightarrow> strncmp m p q n = Some (sncmp s t n)"
proof -
  have "strncmp_loop m p q n r = Some (if n = 0 then r else sncmp s t n)" if "cstr m p s" "cstr m q t" "n = 0 \<or> r = 0" for r
    using that
  proof (induction n arbitrary: p q s t r)
    case (Suc n)
    show ?case using Suc.prems Suc.IH [of "Suc p" "tl s" "Suc q" "tl t" 0]
      by (cases s; cases t) (cases n, auto simp: Let_def)+
  qed simp
  then show "cstr m p s \<Longrightarrow> cstr m q t \<Longrightarrow> ?thesis" by (auto simp: strncmp_def)
qed

lemma sncmp_0: "NUL \<notin> set s \<Longrightarrow> NUL \<notin> set t \<Longrightarrow> sncmp s t n = 0 \<longleftrightarrow> take n s = take n t"
proof (induction n arbitrary: s t)
  case (Suc n)
  then show ?case by (cases s; cases t) (auto simp: Let_def)
qed simp

text \<open>What a command line names: the command of exactly this name, or else the only one that the name abbreviates.\<close>

definition cmd_word :: "string \<Rightarrow> string" where
  "cmd_word cmd = takeWhile (\<lambda>c. c \<noteq> CHR ''.'') cmd"

definition named_cmd :: "string \<Rightarrow> cmd_tbl list \<Rightarrow> cmd_tbl option" where
  "named_cmd w table =
     (case filter (\<lambda>c. cmd_name c = w) table of
        c # _ \<Rightarrow> Some c
      | [] \<Rightarrow> (case filter (\<lambda>c. prefix w (cmd_name c)) table of [c] \<Rightarrow> Some c | _ \<Rightarrow> None))"

definition names_ok :: "cmd_tbl list \<Rightarrow> bool" where
  "names_ok table \<longleftrightarrow> list_all (\<lambda>c. NUL \<notin> set (cmd_name c)) table"

lemma cmd_word_len: "length (cmd_word cmd) = cmd_len cmd" "take (cmd_len cmd) cmd = cmd_word cmd" "cmd_len cmd \<le> length cmd"
  by (simp_all add: cmd_word_def cmd_len_def takeWhile_eq_take [symmetric] length_takeWhile_le)

lemma take_word_iff: "cmd_word cmd = take (cmd_len cmd) t \<longleftrightarrow> prefix (cmd_word cmd) t"
  using cmd_word_len(1) [of cmd] by (auto simp: prefix_def) (metis append_take_drop_id)

lemma sncmp_word:
  "NUL \<notin> set cmd \<Longrightarrow> NUL \<notin> set t \<Longrightarrow> sncmp cmd t (cmd_len cmd) = 0 \<longleftrightarrow> prefix (cmd_word cmd) t"
  by (simp add: sncmp_0 cmd_word_len take_word_iff)

lemma find_cmd_loop_spec:
  assumes "names_ok table" and "NUL \<notin> set cmd"
  shows "find_cmd_loop cmd (cmd_len cmd) table temp n =
    (case filter (\<lambda>c. cmd_name c = cmd_word cmd) table of
       c # _ \<Rightarrow> Some c
     | [] \<Rightarrow> (let ms = filter (\<lambda>c. prefix (cmd_word cmd) (cmd_name c)) table
              in if n + length ms = 1 then if ms = [] then temp else Some (last ms) else None))"
  using assms(1)
proof (induction table arbitrary: temp n)
  case (Cons c table)
  have nn: "NUL \<notin> set (cmd_name c)" and ok: "names_ok table" using Cons.prems by (simp_all add: names_ok_def)
  have m: "sncmp cmd (cmd_name c) (cmd_len cmd) = 0 \<longleftrightarrow> prefix (cmd_word cmd) (cmd_name c)" using sncmp_word [OF assms(2) nn] .
  have e: "cmd_name c = cmd_word cmd \<longleftrightarrow> prefix (cmd_word cmd) (cmd_name c) \<and> cmd_len cmd = length (cmd_name c)"
    using cmd_word_len(1) [of cmd] by (auto simp: prefix_def)
  show ?case unfolding find_cmd_loop.simps m Cons.IH [OF ok] by (auto simp: e Let_def split: list.splits)
qed simp

lemma find_cmd_named:
  assumes "names_ok table" and "NUL \<notin> set cmd"
  shows "find_cmd_tbl (Some cmd) table = named_cmd (cmd_word cmd) table"
  unfolding find_cmd_tbl_def option.case find_cmd_loop_spec [OF assms] named_cmd_def
  by (auto simp: Let_def length_Suc_conv split: list.splits)

section \<open>Completion\<close>

lemma common_run_lcp: "n \<le> length s \<Longrightarrow> NUL \<notin> set s \<Longrightarrow> common_run n s t = length (longest_common_prefix (take n s) t)"
proof (induction n arbitrary: s t)
  case (Suc n)
  then show ?case by (cases s; cases t) auto
qed simp

lemma prefix_take: "prefix p s \<Longrightarrow> take (length p) s = p"
  by (auto simp: prefix_def)

lemma common_loop_lcp:
  assumes "n \<le> length s" and "NUL \<notin> set s"
  shows "common_loop s n ts = length (foldl longest_common_prefix (take n s) ts)"
  using assms(1)
proof (induction ts arbitrary: n)
  case (Cons t ts)
  let ?l = "longest_common_prefix (take n s) t"
  have p: "prefix ?l s" using longest_common_prefix_prefix1 [of "take n s" t] take_is_prefix prefix_order.trans by blast
  then have "take (length ?l) s = ?l" by (rule prefix_take)
  then show ?case using Cons.IH [of "length ?l"] prefix_length_le [OF p] common_run_lcp [OF Cons.prems assms(2)] by simp
qed simp

definition lcp_all :: "string list \<Rightarrow> string" where
  "lcp_all xs = (case xs of [] \<Rightarrow> [] | x # xs \<Rightarrow> foldl longest_common_prefix x xs)"

lemma find_common_prefix_lcp: "list_all (\<lambda>x. NUL \<notin> set x) xs \<Longrightarrow> find_common_prefix xs = length (lcp_all xs)"
  by (cases xs) (simp_all add: find_common_prefix_def lcp_all_def common_loop_lcp)

lemma foldl_lcp_prefix: "prefix p (foldl longest_common_prefix x xs) \<longleftrightarrow> prefix p x \<and> (\<forall>y \<in> set xs. prefix p y)"
proof (induction xs arbitrary: x)
  case (Cons y xs)
  have "prefix p (longest_common_prefix x y) \<longleftrightarrow> prefix p x \<and> prefix p y"
    by (meson longest_common_prefix_max_prefix longest_common_prefix_prefix1 longest_common_prefix_prefix2 prefix_order.trans)
  then show ?case using Cons.IH by auto
qed simp

lemma lcp_all_prefix: "xs \<noteq> [] \<Longrightarrow> prefix p (lcp_all xs) \<longleftrightarrow> (\<forall>x \<in> set xs. prefix p x)"
  by (cases xs) (simp_all add: lcp_all_def foldl_lcp_prefix)

lemma partial_cmds_filter:
  assumes "n + length (filter (\<lambda>c. prefix (cmd_word cmd) (cmd_name c)) table) \<le> maxv - 2"
  shows "partial_cmds cmd (cmd_len cmd) maxv n table = map cmd_name (filter (\<lambda>c. prefix (cmd_word cmd) (cmd_name c)) table)"
  using assms
proof (induction table arbitrary: n)
  case (Cons c table)
  have "length (cmd_name c) < cmd_len cmd \<or> take (cmd_len cmd) cmd \<noteq> take (cmd_len cmd) (cmd_name c) \<longleftrightarrow> \<not> prefix (cmd_word cmd) (cmd_name c)"
    using prefix_length_le [of "cmd_word cmd" "cmd_name c"] by (auto simp: cmd_word_len take_word_iff)
  then show ?case using Cons.IH [of n] Cons.IH [of "Suc n"] Cons.prems by (auto split: if_splits)
qed simp

lemma put_chars_store: "t + length s \<le> length m \<Longrightarrow> put_chars m t s = Some (store m t s)"
  by (induction s arbitrary: m t) (simp_all add: wr_def store_Cons)

lemma strcpy_obj_cstr:
  assumes "cstr src 0 s" and "length s < length dest"
  shows "\<exists>d. strcpy_obj dest src = Some d \<and> cstr d 0 s \<and> length d = length dest"
proof -
  have "slice src 0 (Suc (length s)) = s @ [NUL]"
    using slice_snoc [of 0 "length s" src] cstr_slice [OF assms(1), of "length s"] cstr_end [OF assms(1)] cstr_bound [OF assms(1)] by simp
  then show ?thesis using assms cstr_store [of s 0 dest] cstr_no_NUL [OF assms(1)]
    by (simp add: strcpy_obj_def strlen_cstr)
qed

lemma auto_complete_eq:
  assumes "cstr buf 0 s" and "length s < length tmp"
  shows "cmd_auto_complete compl table tmp CONFIG_SYS_PROMPT buf n col =
    apply_completion (take CONFIG_SYS_MAXARGS (blank_words s))
      (complete_cmdv compl table (take CONFIG_SYS_MAXARGS (blank_words s)) (if s = [] then NUL else last s) 20) (length s) buf n col"
proof -
  obtain d where d: "strcpy_obj tmp buf = Some d" "cstr d 0 s" using strcpy_obj_cstr [OF assms] by blast
  obtain d' argv where a: "make_argv d 0 (CONFIG_SYS_MAXARGS + 1) = Some (d', argv)"
      "getstrs d' argv = Some (take CONFIG_SYS_MAXARGS (blank_words s))"
    using make_argv_words [OF d(2), of "CONFIG_SYS_MAXARGS + 1"] by auto
  have l: "(if length s \<ge> 1 then rd buf (length s - 1) else Some NUL) = Some (if s = [] then NUL else last s)"
    using cstr_nth [OF assms(1), of "length s - 1"] cstr_bound [OF assms(1)] by (auto simp: rd_def last_conv_nth Suc_le_eq)
  have "scmp CONFIG_SYS_PROMPT CONFIG_SYS_PROMPT = 0" by (subst scmp_0) (simp_all add: CONFIG_SYS_PROMPT_def)
  then show ?thesis unfolding cmd_auto_complete_def strlen_cstr [OF assms(1)] bind.bind_lunit l d(1) a
    by (simp add: a)
qed

text \<open>A line with one word, at its end.\<close>

lemma one_word:
  assumes "list_all isblank pre" and "w \<noteq> []" and "list_all (\<lambda>c. \<not> isblank c) w"
  shows "blank_words (pre @ w) = [w]" and "last (pre @ w) = last w" and "\<not> isblank (last w)"
proof -
  have "dropWhile isblank (pre @ w) = w" using assms by (cases w) (auto simp: list_all_iff dropWhile_append2)
  moreover have "takeWhile (\<lambda>c. \<not> isblank c) w = w" using assms(3) by (simp add: list_all_iff)
  moreover have "dropWhile (\<lambda>c. \<not> isblank c) w = []" using assms(3) by (simp add: list_all_iff)
  then have "blank_words (dropWhile (\<lambda>c. \<not> isblank c) w) = []" by (simp only: blank_words_Nil) simp
  ultimately show "blank_words (pre @ w) = [w]" using assms(2)
    by (simp add: blank_words.simps [of "pre @ w"] Let_def)
  show "last (pre @ w) = last w" using assms(2) by simp
  show "\<not> isblank (last w)" using assms(2,3) by (simp add: list_all_iff)
qed

definition candidates :: "string \<Rightarrow> cmd_tbl list \<Rightarrow> string list" where
  "candidates w table = map cmd_name (filter (\<lambda>c. prefix w (cmd_name c)) table)"

lemma complete_one_word:
  assumes "list_all (\<lambda>c. \<not> isblank c) w" and "w \<noteq> []" and "NUL \<notin> set w" and "length (candidates (cmd_word w) table) \<le> 18"
  shows "complete_cmdv compl table [w] (last w) 20 = (int (length (candidates (cmd_word w) table)), candidates (cmd_word w) table)"
proof -
  have "\<not> isblank (last w)" "last w \<noteq> NUL" using assms(1-3) by (auto simp: list_all_iff) (metis last_in_set)
  then show ?thesis using partial_cmds_filter [of 0 w table 20] assms(4) by (simp add: complete_cmdv_def candidates_def)
qed

section \<open>Properties\<close>

text \<open>C20. A command line is given to the command that its first word names, up to the first dot: the one of exactly this name, or else the only one that
  it abbreviates. The command is called exactly once, with the flags and all arguments, unless no or several commands are meant, there are too many arguments,
  or \<open>bootd\<close> is called from \<open>bootd\<close>; then nothing changes and the result is a failure. A usage error of the command becomes a failure.\<close>

theorem cmd_process_dispatch:
  assumes "names_ok table" and "NUL \<notin> set a"
  shows "cmd_process call do_bootd table flags (a # args) repeatable st =
    (case named_cmd (cmd_word a) table of
       None \<Rightarrow> (1, repeatable, st)
     | Some c \<Rightarrow>
         if 1 + int (length args) > cmd_maxargs c \<or> cmd_fn c = do_bootd \<and> flags AND 2 \<noteq> 0 then (1, repeatable, st)
         else let (rc, st') = call (cmd_fn c) c (if cmd_fn c = do_bootd then flags OR 2 else flags) (a # args) st
              in (if rc = - 1 then 1 else rc, repeatable AND cmd_repeatable c, st'))"
  using find_cmd_named [OF assms]
  by (auto simp: cmd_process_def argv0_def cmd_check_def cmd_call_def cmd_usage_def CMD_RET_USAGE_def CMD_RET_FAILURE_def CMD_RET_SUCCESS_def
      CMD_FLAG_BOOTD_def Let_def split: option.splits prod.splits)

definition cmds0 :: "cmd_tbl list" where
  "cmds0 = map (\<lambda>n. \<lparr>cmd_name = n, cmd_maxargs = 3, cmd_repeatable = 1, cmd_fn = length n, cmd_help = None, cmd_complete = None\<rparr>)
     [''bootm'', ''boot'', ''cmp'', ''crc32'', ''printenv'', ''protect'']"

lemma names_ok_cmds0: "names_ok cmds0"
  by (simp add: names_ok_def cmds0_def)

theorem cmd_process_dispatch_witness:
  "cmd_process (\<lambda>f c flags argv st. (0, length argv)) 0 cmds0 0 [''cm.b'', ''a0000''] 1 (7 :: nat) = (0, 1, 2) \<and>
   cmd_process (\<lambda>f c flags argv st. (0, length argv)) 0 cmds0 0 [''pr''] 1 (7 :: nat) = (1, 1, 7)"
  using cmd_process_dispatch [OF names_ok_cmds0, of "''cm.b''" "\<lambda>f c flags argv st. (0, length argv)" 0 0 "[''a0000'']" 1 7]
    cmd_process_dispatch [OF names_ok_cmds0, of "''pr''" "\<lambda>f c flags argv st. (0, length argv)" 0 0 "[]" 1 7]
  by (simp add: named_cmd_def cmd_word_def cmds0_def)

text \<open>What completion promises to append to the word \<open>w\<close>.\<close>

definition extension :: "string \<Rightarrow> string list \<Rightarrow> string" where
  "extension w cs = (case cs of [] \<Rightarrow> [] | [x] \<Rightarrow> drop (length w) x @ '' '' | _ \<Rightarrow> drop (length w) (lcp_all cs))"

lemma completion_extension:
  assumes "list_all (\<lambda>x. NUL \<notin> set x) cs" and "list_all (prefix w) cs" and "cs \<noteq> []" and "w \<noteq> []"
  shows "\<exists>s sep. completion_text (int (length cs)) cs [w] = Some (if extension w cs = [] then None else Some (s, sep)) \<and>
    s @ sep = extension w cs"
proof (cases cs)
  case (Cons x xs)
  show ?thesis
  proof (cases "xs = []")
    case True
    then have "length w \<le> length x" using assms(2) Cons prefix_length_le by auto
    then show ?thesis using True Cons by (simp add: completion_text_def last_arg_def past_def extension_def)
  next
    case False
    let ?p = "lcp_all cs"
    have w: "prefix w ?p" using lcp_all_prefix [of cs w] assms(2,3) by (simp add: list_all_iff)
    have x: "prefix ?p x" using lcp_all_prefix [of cs ?p] assms(3) Cons by simp
    have n: "find_common_prefix cs = length ?p" using assms(1) by (rule find_common_prefix_lcp)
    have k: "length w \<le> length ?p" "length ?p \<le> length x" using w x by (simp_all add: prefix_length_le)
    have "0 < length ?p" using k(1) assms(4) by (cases w) auto
    moreover have "extension w cs = drop (length w) ?p" using False Cons by (cases xs) (simp_all add: extension_def)
    moreover have "take (length ?p - length w) (drop (length w) x) = drop (length w) ?p"
      using prefix_take [OF x] by (metis take_drop drop_take)
    ultimately show ?thesis using False Cons k n by (auto simp: completion_text_def last_arg_def past_def Let_def)
  qed
qed (use assms(3) in simp)

lemma extension_no_NUL: "list_all (\<lambda>x. NUL \<notin> set x) cs \<Longrightarrow> NUL \<notin> set (extension w cs)"
proof (cases cs rule: remdups_adj.cases)
  case (3 x y xs)
  assume ok: "list_all (\<lambda>x. NUL \<notin> set x) cs"
  have "prefix (lcp_all cs) x" using lcp_all_prefix [of cs "lcp_all cs"] 3 by simp
  then have "set (lcp_all cs) \<subseteq> set x" by (rule set_mono_prefix)
  then show ?thesis using ok 3 by (auto simp: extension_def dest: in_set_dropD)
qed (auto simp: extension_def dest: in_set_dropD)

lemma cstr_append:
  assumes "cstr m 0 s" and "NUL \<notin> set e" and "length s + length e < length m"
  shows "cstr (store m (length s) (e @ [NUL])) 0 (s @ e)"
  using assms by (auto simp: cstr_iff nth_store nth_append)

lemma apply_extension:
  assumes "list_all (\<lambda>x. NUL \<notin> set x) cs" and "list_all (prefix w) cs" and "w \<noteq> []" and "cstr buf 0 s" and "length buf = CONFIG_SYS_CBSIZE + 1"
  shows "\<exists>buf' ext. apply_completion [w] (int (length cs), cs) (length s) buf (length s) col =
      Some (1, buf', length s + length ext, col + length ext) \<and> length buf' = length buf \<and> cstr buf' 0 (s @ ext) \<and>
    ext = (if length s + length (extension w cs) < CONFIG_SYS_CBSIZE - 2 then extension w cs else [])"
proof (cases "cs = [] \<or> extension w cs = []")
  case True
  then have "apply_completion [w] (int (length cs), cs) (length s) buf (length s) col = Some (1, buf, length s, col)"
    using completion_extension [OF assms(1,2) _ assms(3)] by (cases "cs = []") (auto simp: apply_completion_def)
  moreover have "extension w cs = []" using True by (auto simp: extension_def)
  ultimately show ?thesis using assms(4) by auto
next
  case False
  let ?e = "extension w cs"
  obtain t sep where t: "completion_text (int (length cs)) cs [w] = Some (Some (t, sep))" "t @ sep = ?e"
    using completion_extension [OF assms(1,2) _ assms(3)] False by auto
  then have l: "length t + length sep = length ?e" by (metis length_append)
  show ?thesis
  proof (cases "length s + length ?e < CONFIG_SYS_CBSIZE - 2")
    case True
    then have fit: "length s + length (?e @ [NUL]) \<le> length buf" using assms(5) by simp
    have "cstr (store buf (length s) (?e @ [NUL])) 0 (s @ ?e)"
      using cstr_append [OF assms(4) extension_no_NUL [OF assms(1)]] fit by simp
    moreover have "put_chars buf (length s) (t @ sep @ [NUL]) = Some (store buf (length s) (?e @ [NUL]))"
      using put_chars_store [OF fit] t(2) by (metis append_assoc)
    ultimately show ?thesis using t(1) False True l fit by (simp add: apply_completion_def Let_def)
  next
    case no: False
    then show ?thesis using t(1) False l assms(4) by (simp add: apply_completion_def Let_def)
  qed
qed

text \<open>C22. Completing a command on the console only appends to the line: for a line that is shorter than its buffer and consists of a single word without a dot, possibly after blanks, that
  at most 18 commands begin with, the line becomes what it was and the rest of the only command that the word begins, with a space, or the longest text that all such commands share; a result that would
  not fit, or no such command, leaves the line as it is. The text stays inside of the buffer.\<close>

theorem auto_complete_appends:
  assumes "cstr buf 0 (pre @ w)" and "list_all isblank pre" and "list_all (\<lambda>c. \<not> isblank c \<and> c \<noteq> CHR ''.'') w" and "w \<noteq> []"
    and "length (pre @ w) < CONFIG_SYS_CBSIZE" and "length tmp = CONFIG_SYS_CBSIZE" and "length buf = CONFIG_SYS_CBSIZE + 1"
    and "names_ok table" and "length (candidates w table) \<le> 18"
  shows "\<exists>buf' ext. cmd_auto_complete compl table tmp CONFIG_SYS_PROMPT buf (length (pre @ w)) col =
      Some (1, buf', length (pre @ w) + length ext, col + length ext) \<and> length buf' = length buf \<and> cstr buf' 0 (pre @ w @ ext) \<and>
    ext = (if length (pre @ w) + length (extension w (candidates w table)) < CONFIG_SYS_CBSIZE - 2 then extension w (candidates w table) else [])"
proof -
  let ?cs = "candidates w table" and ?s = "pre @ w"
  have nb: "list_all (\<lambda>c. \<not> isblank c) w" and dot: "cmd_word w = w" using assms(3) by (simp_all add: list_all_iff cmd_word_def)
  have nul: "NUL \<notin> set w" using cstr_no_NUL [OF assms(1)] by simp
  note one = one_word [OF assms(2,4) nb]
  have c: "complete_cmdv compl table [w] (last w) 20 = (int (length ?cs), ?cs)"
    using complete_one_word [OF nb assms(4) nul] assms(9) by (simp add: dot)
  have "cmd_auto_complete compl table tmp CONFIG_SYS_PROMPT buf (length ?s) col = apply_completion [w] (int (length ?cs), ?cs) (length ?s) buf (length ?s) col"
    using auto_complete_eq [OF assms(1), of tmp compl table "length ?s" col] assms(4,5,6) one(1) c by (simp add: CONFIG_SYS_MAXARGS_def)
  moreover have "list_all (\<lambda>x. NUL \<notin> set x) ?cs" "list_all (prefix w) ?cs"
    using assms(8) by (auto simp: candidates_def names_ok_def list_all_iff)
  ultimately show ?thesis using apply_extension [OF _ _ assms(4,1,7), of ?cs col] by simp
qed

theorem auto_complete_appends_witness:
  "\<exists>buf'. cmd_auto_complete (\<lambda>f argv c n. []) cmds0 (replicate 1024 NUL) CONFIG_SYS_PROMPT (''  pri'' @ replicate 1020 NUL) (length ''  pri'') 13 =
     Some (1, buf', length ''  printenv '', 19) \<and> cstr buf' 0 ''  printenv ''"
proof -
  have "candidates ''pri'' cmds0 = [''printenv'']" by (simp add: candidates_def cmds0_def)
  moreover have "cstr (''  pri'' @ replicate 1020 NUL) 0 (''  '' @ ''pri'')" by simp
  ultimately show ?thesis
    using auto_complete_appends [of "''  pri'' @ replicate 1020 NUL" "''  ''" "''pri''" "replicate 1024 NUL" cmds0 "\<lambda>f argv c n. []" 13] names_ok_cmds0
    by (auto simp: CONFIG_SYS_CBSIZE_def isblank_def extension_def simp del: cstr.simps)
qed

text \<open>Completion can leave its buffers. A line that fills the console buffer is copied with its NUL into a buffer one byte too short, and after a name with a
  length modifier, as in \<open>cmp.b\<close>, the text to append is read from behind the end of the only command that the name means.\<close>

lemma auto_complete_overruns:
  assumes "cstr buf 0 s" and "length tmp = CONFIG_SYS_CBSIZE"
    and "length s = CONFIG_SYS_CBSIZE \<or>
      length s < CONFIG_SYS_CBSIZE \<and> s \<noteq> [] \<and> list_all (\<lambda>c. \<not> isblank c) s \<and> candidates (cmd_word s) table = [x] \<and> length x < length s"
  shows "cmd_auto_complete compl table tmp CONFIG_SYS_PROMPT buf n col = None"
  using assms(3)
proof (elim disjE conjE)
  have "scmp CONFIG_SYS_PROMPT CONFIG_SYS_PROMPT = 0" by (subst scmp_0) (simp_all add: CONFIG_SYS_PROMPT_def)
  then show ?thesis if "length s = CONFIG_SYS_CBSIZE"
    using that assms by (auto simp: cmd_auto_complete_def strlen_cstr strcpy_obj_def rd_def)
  show ?thesis
    if "length s < CONFIG_SYS_CBSIZE" "s \<noteq> []" "list_all (\<lambda>c. \<not> isblank c) s" "candidates (cmd_word s) table = [x]" "length x < length s"
    using auto_complete_eq [OF assms(1), of tmp compl table n col] that assms(2) one_word(1) [of "[]" s]
      complete_one_word [OF that(3,2) cstr_no_NUL [OF assms(1)], of table compl]
    by (simp add: apply_completion_def completion_text_def last_arg_def past_def CONFIG_SYS_MAXARGS_def)
qed

end
