(* ===== verification/Line_Edit.thy ===== *)
theory Line_Edit
  imports Command
begin

text \<open>
  Reading a line from the console (\<^verbatim>\<open>common/main.c\<close>, with \<open>CONFIG_CMDLINE_EDITING\<close>): the history of lines and the line editor \<open>cread_line\<close>. The input is
  the list of keys that \<open>getc\<close> returns; the echo is left out. \<open>num\<close> is the position of the cursor and \<open>eol_num\<close> the length of the line in the
  buffer. The counters never exceed the size of the buffer and are natural numbers.
\<close>

section \<open>The history\<close>

record history =
  hist_max :: nat
  hist_add_idx :: nat
  hist_cur :: int
  hist_num :: u32
  hist_lines :: "mem list"

definition HIST_MAX :: nat where "HIST_MAX = 20"

definition hist_init :: "history \<Rightarrow> history" where
  "hist_init h = h\<lparr>hist_max := 0, hist_add_idx := 0, hist_cur := - 1, hist_num := 0, hist_lines := map (\<lambda>l. l[0 := NUL]) (hist_lines h)\<rparr>"

definition hist_line :: "history \<Rightarrow> nat \<Rightarrow> mem option" where
  "hist_line h i = (if i < length (hist_lines h) then Some (hist_lines h ! i) else None)"

definition cread_add_to_hist :: "mem \<Rightarrow> history \<Rightarrow> history option" where
  "cread_add_to_hist line h =
     do { old \<leftarrow> hist_line h (hist_add_idx h);
          new \<leftarrow> strcpy_obj old line;
          let idx = (if hist_add_idx h + 1 \<ge> HIST_MAX then 0 else hist_add_idx h + 1);
          Some (h\<lparr>hist_lines := (hist_lines h)[hist_add_idx h := new], hist_add_idx := idx,
                  hist_max := (if idx > hist_max h then idx else hist_max h), hist_num := hist_num h + 1\<rparr>) }"

text \<open>The line that the functions return is \<open>None\<close> for the null pointer, inside of the option for a failed access.\<close>

definition hist_prev :: "history \<Rightarrow> (mem option \<times> history) option" where
  "hist_prev h =
     (if hist_cur h < 0 then Some (None, h)
      else let cur = (if hist_cur h - 1 < 0 then int (hist_max h) else hist_cur h - 1)
           in if cur = int (hist_add_idx h) then Some (None, h)
              else do { l \<leftarrow> hist_line h (nat cur); Some (Some l, h\<lparr>hist_cur := cur\<rparr>) })"

definition hist_next :: "history \<Rightarrow> (mem option \<times> history) option" where
  "hist_next h =
     (if hist_cur h < 0 then Some (None, h)
      else if hist_cur h = int (hist_add_idx h) then Some (None, h)
      else let cur = (if hist_cur h + 1 > int (hist_max h) then 0 else hist_cur h + 1)
           in if cur = int (hist_add_idx h) then Some (Some [NUL], h\<lparr>hist_cur := cur\<rparr>)
              else do { l \<leftarrow> hist_line h (nat cur); Some (Some l, h\<lparr>hist_cur := cur\<rparr>) })"

section \<open>The editor\<close>

text \<open>\<open>ed_esc\<close> is the part of \<open>esc_save\<close> in use, \<open>esc_len\<close> characters of it.\<close>

record editor =
  ed_buf :: mem
  ed_num :: nat
  ed_eol :: nat
  ed_insert :: bool
  ed_esc :: string
  ed_hist :: history

definition BEGINNING_OF_LINE :: "editor \<Rightarrow> editor" where
  "BEGINNING_OF_LINE e = e\<lparr>ed_num := 0\<rparr>"

definition ERASE_TO_EOL :: "editor \<Rightarrow> editor" where
  "ERASE_TO_EOL e = (if ed_num e < ed_eol e then e\<lparr>ed_eol := ed_num e\<rparr> else e)"

definition REFRESH_TO_EOL :: "editor \<Rightarrow> editor" where
  "REFRESH_TO_EOL e = (if ed_num e < ed_eol e then e\<lparr>ed_num := ed_eol e\<rparr> else e)"

definition cread_add_char :: "char \<Rightarrow> bool \<Rightarrow> nat \<Rightarrow> editor \<Rightarrow> editor option" where
  "cread_add_char ichar ins len e =
     (let grow = ins \<or> ed_num e = ed_eol e
      in if grow \<and> ed_eol e > len - 1 then Some e
         else let eol = (if grow then ed_eol e + 1 else ed_eol e)
              in if ins
                 then do { let wlen = eol - ed_num e;
                           buf \<leftarrow> (if wlen > 1 then map_option fst (memmove (ed_buf e) (ed_num e + 1) (ed_num e) (wlen - 1)) else Some (ed_buf e));
                           buf \<leftarrow> wr buf (ed_num e) ichar;
                           Some (e\<lparr>ed_buf := buf, ed_num := ed_num e + 1, ed_eol := eol\<rparr>) }
                 else do { buf \<leftarrow> wr (ed_buf e) (ed_num e) ichar;
                           Some (e\<lparr>ed_buf := buf, ed_num := ed_num e + 1, ed_eol := eol\<rparr>) })"

text \<open>The characters to add are read one by one through \<open>src\<close>, from the escape sequence or, for a line that is already in the buffer, from
  the buffer that is being edited.\<close>

fun cread_add_str :: "(editor \<Rightarrow> nat \<Rightarrow> char option) \<Rightarrow> nat \<Rightarrow> nat \<Rightarrow> bool \<Rightarrow> nat \<Rightarrow> editor \<Rightarrow> editor option" where
  "cread_add_str src str 0 ins len e = Some e"
| "cread_add_str src str (Suc strsize) ins len e =
     do { c \<leftarrow> src e str; e \<leftarrow> cread_add_char c ins len e; cread_add_str src (str + 1) strsize ins len e }"

definition add_esc :: "nat \<Rightarrow> editor \<Rightarrow> editor option" where
  "add_esc len e =
     do { e \<leftarrow> cread_add_str (\<lambda>e i. rd (ed_esc e) i) 0 (length (ed_esc e)) (ed_insert e) len e; Some (e\<lparr>ed_esc := []\<rparr>) }"

definition CTL_CH :: "char \<Rightarrow> char" where
  "CTL_CH c = char_of ((of_char c :: nat) - of_char (CHR ''a'') + 1)"

text \<open>Escape sequences: \<open>Inl\<close> when the key is used up, \<open>Inr\<close> with the key to handle.\<close>

definition esc_key :: "nat \<Rightarrow> char \<Rightarrow> editor \<Rightarrow> (editor + char \<times> editor) option" where
  "esc_key len ichar e =
     (if ed_esc e = [] then Some (Inr (ichar, e))
      else if length (ed_esc e) = 1
      then if ichar = CHR ''['' then Some (Inl (e\<lparr>ed_esc := ed_esc e @ [ichar]\<rparr>)) else map_option Inl (add_esc len e)
      else if ichar = CHR ''D'' then Some (Inr (CTL_CH CHR ''b'', e\<lparr>ed_esc := []\<rparr>))
      else if ichar = CHR ''C'' then Some (Inr (CTL_CH CHR ''f'', e\<lparr>ed_esc := []\<rparr>))
      else if ichar = CHR ''H'' then Some (Inr (CTL_CH CHR ''a'', e\<lparr>ed_esc := []\<rparr>))
      else if ichar = CHR ''A'' then Some (Inr (CTL_CH CHR ''p'', e\<lparr>ed_esc := []\<rparr>))
      else if ichar = CHR ''B'' then Some (Inr (CTL_CH CHR ''n'', e\<lparr>ed_esc := []\<rparr>))
      else map_option Inl (add_esc len (e\<lparr>ed_esc := ed_esc e @ [ichar]\<rparr>)))"

datatype 'e key_out = Go (out: 'e) | Enter (out: 'e) | Break (out: 'e)

definition delete_at :: "editor \<Rightarrow> editor option" where
  "delete_at e =
     (if ed_num e < ed_eol e
      then do { let wlen = ed_eol e - ed_num e - 1;
                buf \<leftarrow> (if wlen \<noteq> 0 then map_option fst (memmove (ed_buf e) (ed_num e) (ed_num e + 1) wlen) else Some (ed_buf e));
                Some (e\<lparr>ed_buf := buf, ed_eol := ed_eol e - 1\<rparr>) }
      else Some e)"

definition backspace :: "editor \<Rightarrow> editor option" where
  "backspace e =
     (if ed_num e \<noteq> 0
      then do { let wlen = ed_eol e - ed_num e;
                let num = ed_num e - 1;
                (buf, _) \<leftarrow> memmove (ed_buf e) num (num + 1) wlen;
                Some (e\<lparr>ed_buf := buf, ed_num := num, ed_eol := ed_eol e - 1\<rparr>) }
      else Some e)"

definition recall_line :: "(history \<Rightarrow> (mem option \<times> history) option) \<Rightarrow> editor \<Rightarrow> editor option" where
  "recall_line step e =
     do { let e = e\<lparr>ed_esc := []\<rparr>;
          (hline, h) \<leftarrow> step (ed_hist e);
          let e = e\<lparr>ed_hist := h\<rparr>;
          case hline of
            None \<Rightarrow> Some e
          | Some l \<Rightarrow> do { let e = ERASE_TO_EOL (BEGINNING_OF_LINE e);
                           buf \<leftarrow> strcpy_obj (ed_buf e) l;
                           n \<leftarrow> strlen buf 0;
                           Some (REFRESH_TO_EOL (e\<lparr>ed_buf := buf, ed_eol := n\<rparr>)) } }"

definition complete_key :: "(mem \<Rightarrow> nat \<Rightarrow> nat \<Rightarrow> (int \<times> mem \<times> nat \<times> nat) option) \<Rightarrow> string \<Rightarrow> editor \<Rightarrow> editor option" where
  "complete_key ac prompt e =
     (if ed_num e < ed_eol e then Some e
      else do { buf \<leftarrow> wr (ed_buf e) (ed_num e) NUL;
                (rc, buf, num2, col) \<leftarrow> ac buf (ed_num e) (length prompt + ed_eol e);
                if rc \<noteq> 0 then Some (e\<lparr>ed_buf := buf, ed_num := num2, ed_eol := ed_eol e + (num2 - ed_num e)\<rparr>)
                else Some (e\<lparr>ed_buf := buf\<rparr>) })"

definition plain_key ::
    "(mem \<Rightarrow> nat \<Rightarrow> nat \<Rightarrow> (int \<times> mem \<times> nat \<times> nat) option) \<Rightarrow> string \<Rightarrow> nat \<Rightarrow> char \<Rightarrow> editor \<Rightarrow> editor key_out option" where
  "plain_key ac prompt len ichar e =
     (if ichar = CHR 0x1b then Some (Go (e\<lparr>ed_esc := (if ed_esc e = [] then [ichar] else [])\<rparr>))
      else if ichar = CTL_CH CHR ''a'' then Some (Go (BEGINNING_OF_LINE e))
      else if ichar = CTL_CH CHR ''c'' then do { buf \<leftarrow> wr (ed_buf e) 0 NUL; Some (Break (e\<lparr>ed_buf := buf\<rparr>)) }
      else if ichar = CTL_CH CHR ''f'' then Some (Go (if ed_num e < ed_eol e then e\<lparr>ed_num := ed_num e + 1\<rparr> else e))
      else if ichar = CTL_CH CHR ''b'' then Some (Go (if ed_num e \<noteq> 0 then e\<lparr>ed_num := ed_num e - 1\<rparr> else e))
      else if ichar = CTL_CH CHR ''d'' then map_option Go (delete_at e)
      else if ichar = CTL_CH CHR ''k'' then Some (Go (ERASE_TO_EOL e))
      else if ichar = CTL_CH CHR ''e'' then Some (Go (REFRESH_TO_EOL e))
      else if ichar = CTL_CH CHR ''o'' then Some (Go (e\<lparr>ed_insert := \<not> ed_insert e\<rparr>))
      else if ichar = CTL_CH CHR ''x'' \<or> ichar = CTL_CH CHR ''u'' then Some (Go (ERASE_TO_EOL (BEGINNING_OF_LINE e)))
      else if ichar = CHR 0xFF \<or> ichar = CHR 0x7F \<or> ichar = CHR 0x08 then map_option Go (backspace e)
      else if ichar = CTL_CH CHR ''p'' then map_option Go (recall_line hist_prev e)
      else if ichar = CTL_CH CHR ''n'' then map_option Go (recall_line hist_next e)
      else if ichar = CHR 0x09 then map_option Go (complete_key ac prompt e)
      else map_option Go (cread_add_char ichar (ed_insert e) len e))"

definition cread_key ::
    "(mem \<Rightarrow> nat \<Rightarrow> nat \<Rightarrow> (int \<times> mem \<times> nat \<times> nat) option) \<Rightarrow> string \<Rightarrow> nat \<Rightarrow> char \<Rightarrow> editor \<Rightarrow> editor key_out option" where
  "cread_key ac prompt len ichar e =
     (if ichar = CHR 0x0A \<or> ichar = CHR 0x0D then Some (Enter e)
      else do { r \<leftarrow> esc_key len ichar e;
                case r of Inl e \<Rightarrow> Some (Go e) | Inr (ichar, e) \<Rightarrow> plain_key ac prompt len ichar e })"

fun cread_loop ::
    "(mem \<Rightarrow> nat \<Rightarrow> nat \<Rightarrow> (int \<times> mem \<times> nat \<times> nat) option) \<Rightarrow> string \<Rightarrow> nat \<Rightarrow> char list \<Rightarrow> editor \<Rightarrow> editor key_out option" where
  "cread_loop ac prompt len [] e = Some (Go e)"
| "cread_loop ac prompt len (k # keys) e =
     do { r \<leftarrow> cread_key ac prompt len k e;
          case r of Go e \<Rightarrow> cread_loop ac prompt len keys e | _ \<Rightarrow> Some r }"

text \<open>\<open>Waiting\<close>: the keys are used up and the line is not finished. \<open>Done\<close> has the result, the buffer, the length, and the history.\<close>

datatype read_result = Waiting editor | Done int mem nat history

definition CREAD_HIST_CHAR :: char where "CREAD_HIST_CHAR = CHR ''!''"

definition finish_line :: "editor \<Rightarrow> read_result option" where
  "finish_line e =
     do { buf \<leftarrow> wr (ed_buf e) (ed_eol e) NUL;
          c \<leftarrow> rd buf 0;
          h \<leftarrow> (if c \<noteq> NUL \<and> c \<noteq> CREAD_HIST_CHAR then cread_add_to_hist buf (ed_hist e) else Some (ed_hist e));
          Some (Done 0 buf (ed_eol e) (h\<lparr>hist_cur := int (hist_add_idx h)\<rparr>)) }"

text \<open>\<open>timed_out\<close>: a time-out was given and passed before the first key.\<close>

definition cread_line ::
    "(mem \<Rightarrow> nat \<Rightarrow> nat \<Rightarrow> (int \<times> mem \<times> nat \<times> nat) option) \<Rightarrow> bool \<Rightarrow> string \<Rightarrow> mem \<Rightarrow> nat \<Rightarrow> char list \<Rightarrow> history \<Rightarrow> read_result option" where
  "cread_line ac timed_out prompt buf len keys h =
     do { init_len \<leftarrow> strlen buf 0;
          e \<leftarrow> cread_add_str (\<lambda>e i. rd (ed_buf e) i) 0 init_len True len
                \<lparr>ed_buf = buf, ed_num = 0, ed_eol = 0, ed_insert = True, ed_esc = [], ed_hist = h\<rparr>;
          if timed_out then Some (Done (- 2) (ed_buf e) len (ed_hist e))
          else do { r \<leftarrow> cread_loop ac prompt len keys e;
                    case r of
                      Go e \<Rightarrow> Some (Waiting e)
                    | Enter e \<Rightarrow> finish_line e
                    | Break e \<Rightarrow> Some (Done (- 1) (ed_buf e) len (ed_hist e)) } }"

text \<open>After relocation \<open>readline_into_buffer\<close> is the line editor, with a history that is made at the first call; \<open>readline\<close> starts with an empty line.\<close>

definition readline_into_buffer ::
    "completer \<Rightarrow> cmd_tbl list \<Rightarrow> mem \<Rightarrow> bool \<Rightarrow> string \<Rightarrow> mem \<Rightarrow> char list \<Rightarrow> bool \<times> history \<Rightarrow> read_result option" where
  "readline_into_buffer compl table tmp_buf timed_out prompt buffer keys st =
     (let h = (if fst st then snd st else hist_init (snd st))
      in cread_line (cmd_auto_complete compl table tmp_buf prompt) timed_out prompt buffer CONFIG_SYS_CBSIZE keys h)"

definition readline :: "completer \<Rightarrow> cmd_tbl list \<Rightarrow> mem \<Rightarrow> string \<Rightarrow> mem \<Rightarrow> char list \<Rightarrow> bool \<times> history \<Rightarrow> read_result option" where
  "readline compl table tmp_buf prompt console_buffer keys st =
     do { buf \<leftarrow> wr console_buffer 0 NUL; readline_into_buffer compl table tmp_buf False prompt buf keys st }"

section \<open>What the user sees\<close>

text \<open>
  The line as the text before and behind the cursor, the lines that can be recalled, the latest first, and how many steps the user has gone
  back in them (\<open>None\<close> before the first line was read).
\<close>

record line =
  before :: string
  after :: string
  ins :: bool
  esc :: string
  recent :: "string list"
  steps :: "nat option"

definition type_char :: "nat \<Rightarrow> char \<Rightarrow> line \<Rightarrow> line" where
  "type_char len c l =
     (if ins l \<or> after l = []
      then if length (before l) + length (after l) < len then l\<lparr>before := before l @ [c]\<rparr> else l
      else l\<lparr>before := before l @ [c], after := tl (after l)\<rparr>)"

definition set_line :: "string \<Rightarrow> line \<Rightarrow> line" where
  "set_line s l = l\<lparr>before := s, after := []\<rparr>"

definition go_back :: "line \<Rightarrow> line" where
  "go_back l =
     (case steps l of
        None \<Rightarrow> l
      | Some k \<Rightarrow> if k < length (recent l) then (set_line (recent l ! k) l)\<lparr>steps := Some (k + 1)\<rparr> else l)"

definition go_forward :: "line \<Rightarrow> line" where
  "go_forward l =
     (case steps l of
        None \<Rightarrow> l
      | Some k \<Rightarrow>
          if k = 0 then l
          else (set_line (if k = 1 then [] else recent l ! (k - 2)) l)\<lparr>steps := Some (k - 1)\<rparr>)"

definition edit_key :: "nat \<Rightarrow> char \<Rightarrow> line \<Rightarrow> line key_out" where
  "edit_key len c l =
     (if c = CHR 0x1b then Go (l\<lparr>esc := [c]\<rparr>)
      else if c = CHR 0x01 then Go (l\<lparr>before := [], after := before l @ after l\<rparr>)
      else if c = CHR 0x03 then Break l
      else if c = CHR 0x06 then Go (if after l = [] then l else l\<lparr>before := before l @ [hd (after l)], after := tl (after l)\<rparr>)
      else if c = CHR 0x02 then Go (if before l = [] then l else l\<lparr>before := butlast (before l), after := last (before l) # after l\<rparr>)
      else if c = CHR 0x04 then Go (l\<lparr>after := tl (after l)\<rparr>)
      else if c = CHR 0x0B then Go (l\<lparr>after := []\<rparr>)
      else if c = CHR 0x05 then Go (l\<lparr>before := before l @ after l, after := []\<rparr>)
      else if c = CHR 0x0F then Go (l\<lparr>ins := \<not> ins l\<rparr>)
      else if c = CHR 0x18 \<or> c = CHR 0x15 then Go (set_line [] l)
      else if c = CHR 0xFF \<or> c = CHR 0x7F \<or> c = CHR 0x08 then Go (l\<lparr>before := butlast (before l)\<rparr>)
      else if c = CHR 0x10 then Go (go_back l)
      else if c = CHR 0x0E then Go (go_forward l)
      else Go (type_char len c l))"

text \<open>The cursor keys, as the last character of an escape sequence.\<close>

definition arrow :: "char \<Rightarrow> char option" where
  "arrow = map_of [(CHR ''D'', CHR 0x02), (CHR ''C'', CHR 0x06), (CHR ''H'', CHR 0x01), (CHR ''A'', CHR 0x10), (CHR ''B'', CHR 0x0E)]"

definition line_key :: "nat \<Rightarrow> char \<Rightarrow> line \<Rightarrow> line key_out" where
  "line_key len c l =
     (if c = CHR 0x0A \<or> c = CHR 0x0D then Enter l
      else if esc l = [] then edit_key len c l
      else if length (esc l) = 1
      then Go (if c = CHR ''['' then l\<lparr>esc := esc l @ [c]\<rparr> else (fold (type_char len) (esc l) l)\<lparr>esc := []\<rparr>)
      else case arrow c of
             Some k \<Rightarrow> edit_key len k (l\<lparr>esc := []\<rparr>)
           | None \<Rightarrow> Go ((fold (type_char len) (esc l @ [c]) l)\<lparr>esc := []\<rparr>))"

fun line_keys :: "nat \<Rightarrow> char list \<Rightarrow> line \<Rightarrow> line key_out" where
  "line_keys len [] l = Go l"
| "line_keys len (k # keys) l = (case line_key len k l of Go l \<Rightarrow> line_keys len keys l | r \<Rightarrow> r)"

section \<open>The history is a list\<close>

definition hist_idx :: "history \<Rightarrow> nat \<Rightarrow> nat" where
  "hist_idx h k = (hist_add_idx h + hist_max h + 1 - k) mod (hist_max h + 1)"

definition hist_rel :: "nat \<Rightarrow> history \<Rightarrow> string list \<Rightarrow> nat option \<Rightarrow> bool" where
  "hist_rel len h rs k \<longleftrightarrow>
     hist_max h < HIST_MAX \<and> hist_add_idx h \<le> hist_max h \<and> (hist_max h = HIST_MAX - 1 \<or> hist_add_idx h = hist_max h) \<and>
     length (hist_lines h) = HIST_MAX \<and> list_all (\<lambda>l. length l = len + 1) (hist_lines h) \<and>
     length rs = hist_max h \<and> (\<forall>i < hist_max h. cstr (hist_lines h ! hist_idx h (i + 1)) 0 (rs ! i)) \<and>
     (case k of None \<Rightarrow> hist_cur h < 0 | Some j \<Rightarrow> j \<le> hist_max h \<and> hist_cur h = int (hist_idx h j))"

lemma hist_idx_less: "hist_idx h k \<le> hist_max h"
  by (simp add: hist_idx_def less_Suc_eq_le [symmetric])

lemma hist_idx_eq:
  assumes "hist_add_idx h \<le> hist_max h" and "k \<le> hist_max h"
  shows "hist_idx h k = (if k \<le> hist_add_idx h then hist_add_idx h - k else hist_add_idx h + hist_max h + 1 - k)"
proof (cases "k \<le> hist_add_idx h")
  case True
  then have "hist_add_idx h + hist_max h + 1 - k = (hist_add_idx h - k) + (hist_max h + 1)" by simp
  then show ?thesis unfolding hist_idx_def using True assms by (simp only: mod_add_self2) simp
next
  case False
  then show ?thesis unfolding hist_idx_def using assms by simp
qed

lemma hist_rel_bounds:
  assumes "hist_rel len h rs k"
  shows "hist_max h < HIST_MAX" "hist_add_idx h \<le> hist_max h" "hist_max h = HIST_MAX - 1 \<or> hist_add_idx h = hist_max h"
    "length (hist_lines h) = HIST_MAX" "length rs = hist_max h" "i < HIST_MAX \<Longrightarrow> length (hist_lines h ! i) = len + 1"
    "i < hist_max h \<Longrightarrow> cstr (hist_lines h ! hist_idx h (i + 1)) 0 (rs ! i)"
  using assms by (auto simp: hist_rel_def list_all_length)

lemma hist_prev_rel:
  assumes "hist_rel len h rs k"
  shows "hist_prev h = Some (None, h) \<and> (k = None \<or> k = Some (length rs)) \<or>
    (\<exists>j l h'. k = Some j \<and> j < length rs \<and> hist_prev h = Some (Some l, h') \<and> length l = len + 1 \<and> cstr l 0 (rs ! j) \<and> hist_rel len h' rs (Some (j + 1)))"
proof (cases k)
  case (Some j)
  note b = hist_rel_bounds [OF assms]
  have j: "j \<le> hist_max h" "hist_cur h = int (hist_idx h j)" using assms Some by (simp_all add: hist_rel_def)
  let ?cur = "if hist_cur h - 1 < 0 then int (hist_max h) else hist_cur h - 1"
  show ?thesis
  proof (cases "j < hist_max h")
    case True
    have c: "?cur = int (hist_idx h (j + 1))" using b(2) j True by (auto simp: hist_idx_eq split: if_splits)
    have n: "hist_idx h (j + 1) \<noteq> hist_add_idx h" using b(2) True by (auto simp: hist_idx_eq)
    have l: "hist_idx h (j + 1) < HIST_MAX" using hist_idx_less [of h "j + 1"] b(1) by simp
    have "hist_prev h = Some (Some (hist_lines h ! hist_idx h (j + 1)), h\<lparr>hist_cur := int (hist_idx h (j + 1))\<rparr>)"
      using c n l b(4) j(2) by (simp add: hist_prev_def Let_def hist_line_def)
    moreover have "hist_rel len (h\<lparr>hist_cur := int (hist_idx h (j + 1))\<rparr>) rs (Some (j + 1))"
      using assms True Some by (simp add: hist_rel_def hist_idx_def)
    ultimately show ?thesis using Some True b(5-7) l by auto
  next
    case False
    then have "j = hist_max h" using j(1) by simp
    moreover have "?cur = int (hist_add_idx h)" using b(2) j \<open>j = hist_max h\<close> by (auto simp: hist_idx_eq split: if_splits)
    ultimately show ?thesis using Some b(5) j(2) by (simp add: hist_prev_def Let_def)
  qed
qed (use assms in \<open>simp add: hist_prev_def hist_rel_def\<close>)

lemma hist_next_rel:
  assumes "hist_rel len h rs k"
  shows "hist_next h = Some (None, h) \<and> (k = None \<or> k = Some 0) \<or>
    (\<exists>j l h'. k = Some (Suc j) \<and> hist_next h = Some (Some l, h') \<and> length l \<le> len + 1 \<and> cstr l 0 (if j = 0 then [] else rs ! (j - 1)) \<and> hist_rel len h' rs (Some j))"
proof (cases k)
  case (Some m)
  note b = hist_rel_bounds [OF assms]
  have m: "m \<le> hist_max h" "hist_cur h = int (hist_idx h m)" using assms Some by (simp_all add: hist_rel_def)
  show ?thesis
  proof (cases m)
    case 0
    then have "hist_idx h m = hist_add_idx h" using b(2) by (simp add: hist_idx_eq)
    then show ?thesis using Some 0 m(2) by (simp add: hist_next_def)
  next
    case (Suc j)
    let ?cur = "if hist_cur h + 1 > int (hist_max h) then 0 else hist_cur h + 1"
    have c: "?cur = int (hist_idx h j)" using b(2) m Suc by (auto simp: hist_idx_eq split: if_splits)
    have n: "hist_idx h j = hist_add_idx h \<longleftrightarrow> j = 0" and o: "hist_idx h m \<noteq> hist_add_idx h" using b(2) m(1) Suc by (auto simp: hist_idx_eq)
    have l: "hist_idx h j < HIST_MAX" using hist_idx_less [of h j] b(1) by simp
    have r: "hist_rel len (h\<lparr>hist_cur := int (hist_idx h j)\<rparr>) rs (Some j)" using assms m(1) Suc by (simp add: hist_rel_def hist_idx_def)
    have "hist_next h = Some (Some (if j = 0 then [NUL] else hist_lines h ! hist_idx h j), h\<lparr>hist_cur := int (hist_idx h j)\<rparr>)"
      using c n o l b(4) m(2) by (simp add: hist_next_def Let_def hist_line_def)
    moreover have "0 < j \<Longrightarrow> cstr (hist_lines h ! hist_idx h j) 0 (rs ! (j - 1))" using b(7) [of "j - 1"] m(1) Suc by simp
    ultimately show ?thesis using Some Suc r b(6) [OF l] by auto
  qed
qed (use assms in \<open>simp add: hist_next_def hist_rel_def\<close>)

text \<open>A new line goes to the front; at most 19 lines can be recalled.\<close>

lemma add_to_hist_rel:
  assumes "hist_rel len h rs k" and "cstr buf 0 s" and "length s \<le> len"
  shows "\<exists>h'. cread_add_to_hist buf h = Some h' \<and> hist_rel len (h'\<lparr>hist_cur := int (hist_add_idx h')\<rparr>) (take (HIST_MAX - 1) (s # rs)) (Some 0)"
proof -
  note b = hist_rel_bounds [OF assms(1)]
  let ?a = "hist_add_idx h" and ?m = "hist_max h"
  have a: "?a < HIST_MAX" using b(1,2) by simp
  then obtain d where d: "strcpy_obj (hist_lines h ! ?a) buf = Some d" "cstr d 0 s" "length d = len + 1"
    using strcpy_obj_cstr [OF assms(2), of "hist_lines h ! ?a"] assms(3) b(6) by auto
  define idx where "idx = (if ?a + 1 \<ge> HIST_MAX then 0 else ?a + 1)"
  define h' where "h' = h\<lparr>hist_lines := (hist_lines h)[?a := d], hist_add_idx := idx, hist_max := max idx ?m, hist_num := hist_num h + 1\<rparr>"
  have run: "cread_add_to_hist buf h = Some h'"
    using a d(1) b(4) by (simp add: cread_add_to_hist_def hist_line_def h'_def idx_def max_def)
  have sh: "hist_add_idx h' = idx" "hist_max h' = max idx ?m" "hist_lines h' = (hist_lines h)[?a := d]" by (simp_all add: h'_def)
  consider (room) "?m < 19" "?a = ?m" "idx = ?m + 1" "max idx ?m = ?m + 1"
    | (full) "?m = 19" "?a < 19" "idx = ?a + 1" "max idx ?m = 19"
    | (wrap) "?m = 19" "?a = 19" "idx = 0" "max idx ?m = 19"
    using b(1-3) unfolding idx_def HIST_MAX_def by (cases "?m = 19"; cases "?a = 19") (simp_all split: if_splits)
  then have x: "idx \<le> max idx ?m" "max idx ?m < HIST_MAX" "max idx ?m = min (HIST_MAX - 1) (?m + 1)"
      "max idx ?m = HIST_MAX - 1 \<or> idx = max idx ?m"
    and i1: "hist_idx h' 1 = ?a"
    and iS: "i + 1 < max idx ?m \<Longrightarrow> hist_idx h' (i + 2) = hist_idx h (i + 1) \<and> hist_idx h (i + 1) \<noteq> ?a" for i
    by (cases; simp add: HIST_MAX_def hist_idx_eq sh; arith?)+
  have cs: "cstr (hist_lines h' ! hist_idx h' (i + 1)) 0 ((s # rs) ! i)" if "i < max idx ?m" for i
  proof (cases i)
    case 0
    then show ?thesis using i1 a b(4) d(2) by (simp add: h'_def)
  next
    case (Suc j)
    then have "j < ?m" using that x(3) by simp
    then show ?thesis using iS [of j] that Suc b(7) [of j] by (simp add: h'_def)
  qed
  have "hist_rel len (h'\<lparr>hist_cur := int (hist_add_idx h')\<rparr>) (take (HIST_MAX - 1) (s # rs)) (Some 0)"
  proof -
    have "hist_idx (h'\<lparr>hist_cur := int (hist_add_idx h')\<rparr>) = hist_idx h'" by (simp add: hist_idx_def fun_eq_iff)
    moreover have "hist_idx h' 0 = hist_add_idx h'" using x(1) by (simp add: hist_idx_eq sh)
    moreover have "list_all (\<lambda>l. length l = len + 1) (hist_lines h')" using a b(4,6) d(3) by (simp add: sh list_all_length nth_list_update)
    ultimately show ?thesis unfolding hist_rel_def using x cs b(4,5) by (simp add: sh)
  qed
  then show ?thesis using run by blast
qed

section \<open>The editor edits the line\<close>

definition ed_rel :: "nat \<Rightarrow> editor \<Rightarrow> line \<Rightarrow> bool" where
  "ed_rel len e l \<longleftrightarrow>
     length (ed_buf e) = len + 1 \<and> ed_num e = length (before l) \<and> ed_eol e = length (before l) + length (after l) \<and> ed_eol e \<le> len \<and>
     take (ed_eol e) (ed_buf e) = before l @ after l \<and> ed_insert e = ins l \<and> ed_esc e = esc l \<and>
     hist_rel len (ed_hist e) (recent l) (steps l)"

lemma ed_relE:
  assumes "ed_rel len e l"
  obtains r where "ed_buf e = before l @ after l @ r" and "length (before l) + length (after l) + length r = len + 1" and "r \<noteq> []"
    and "ed_num e = length (before l)" and "ed_eol e = length (before l) + length (after l)"
    and "ed_insert e = ins l" and "ed_esc e = esc l" and "hist_rel len (ed_hist e) (recent l) (steps l)"
proof -
  let ?r = "drop (ed_eol e) (ed_buf e)"
  have "take (ed_eol e) (ed_buf e) = before l @ after l" using assms unfolding ed_rel_def by blast
  then have "ed_buf e = before l @ after l @ ?r" by (metis append_assoc append_take_drop_id)
  moreover have "length ?r = len + 1 - ed_eol e" using assms by (simp add: ed_rel_def)
  then have "length (before l) + length (after l) + length ?r = len + 1" "?r \<noteq> []" using assms by (auto simp: ed_rel_def)
  ultimately show ?thesis using assms by (intro that [of ?r]) (auto simp: ed_rel_def)
qed

lemma ed_relI:
  assumes "ed_buf e = before l @ after l @ r" and "length (before l) + length (after l) + length r = len + 1" and "r \<noteq> []"
    and "ed_num e = length (before l)" and "ed_eol e = length (before l) + length (after l)"
    and "ed_insert e = ins l" and "ed_esc e = esc l" and "hist_rel len (ed_hist e) (recent l) (steps l)"
  shows "ed_rel len e l"
  using assms by (cases r) (auto simp: ed_rel_def)

lemma memmove_store: "d + n \<le> length m \<Longrightarrow> s + n \<le> length m \<Longrightarrow> map_option fst (memmove m d s n) = Some (store m d (slice m s n))"
  by (auto simp: memmove_def copy_up_store copy_down_store store_slice_same)

lemma add_char_rel:
  assumes "ed_rel len e l" and "0 < len"
  shows "\<exists>e'. cread_add_char c (ins l) len e = Some e' \<and> ed_rel len e' (type_char len c l)"
proof -
  obtain r where r: "ed_buf e = before l @ after l @ r" "length (before l) + length (after l) + length r = len + 1" "r \<noteq> []"
    "ed_num e = length (before l)" "ed_eol e = length (before l) + length (after l)"
    "ed_insert e = ins l" "ed_esc e = esc l" "hist_rel len (ed_hist e) (recent l) (steps l)"
    using assms(1) by (rule ed_relE)
  let ?b = "before l" and ?a = "after l"
  have full: "(ed_eol e > len - 1) = (length ?b + length ?a \<ge> len)" using r(5) assms(2) by auto
  consider (full) "ins l \<or> ?a = []" "length ?b + length ?a \<ge> len" | (grow) "ins l \<or> ?a = []" "length ?b + length ?a < len" | (over) "\<not> ins l" "?a \<noteq> []"
    by fastforce
  then show ?thesis
  proof cases
    case full
    then show ?thesis using assms(1) r(4,5) \<open>(ed_eol e > len - 1) = _\<close> by (auto simp: cread_add_char_def type_char_def Let_def)
  next
    case grow
    then obtain x y r' where r': "r = x # y # r'" using r(2,3) by (cases r; cases "tl r") auto
    let ?e = "e\<lparr>ed_buf := (?b @ [c]) @ ?a @ y # r', ed_num := length ?b + 1, ed_eol := length ?b + length ?a + 1\<rparr>"
    have "cread_add_char c (ins l) len e = Some ?e"
    proof (cases "ins l \<and> ?a \<noteq> []")
      case True
      have "map_option fst (memmove (ed_buf e) (length ?b + 1) (length ?b) (length ?a)) = Some (store (ed_buf e) (length ?b + 1) ?a)"
        using r(1) r' by (subst memmove_store) (auto simp: slice_def)
      moreover have "(store (ed_buf e) (length ?b + 1) ?a)[length ?b := c] = (?b @ [c]) @ ?a @ y # r'"
        using r(1) r' True by (cases ?a) (auto simp: store_def list_update_append)
      ultimately show ?thesis using True grow full r(1,4,5) r' by (auto simp: cread_add_char_def Let_def wr_def neq_Nil_conv)
    next
      case False
      then have "?a = []" using grow by blast
      then show ?thesis using grow full r(1,4,5) r' by (auto simp: cread_add_char_def Let_def wr_def list_update_append)
    qed
    moreover have "ed_rel len ?e (type_char len c l)"
      using grow r r' by (intro ed_relI [where r = "y # r'"]) (auto simp: type_char_def)
    ultimately show ?thesis by blast
  next
    case over
    then obtain x a' where a: "?a = x # a'" by (cases ?a) auto
    let ?e = "e\<lparr>ed_buf := (?b @ [c]) @ a' @ r, ed_num := length ?b + 1\<rparr>"
    have "cread_add_char c (ins l) len e = Some ?e"
      using over r(1,4,5) a by (auto simp: cread_add_char_def Let_def wr_def list_update_append)
    moreover have "ed_rel len ?e (type_char len c l)"
      using over r a by (intro ed_relI [where r = r]) (auto simp: type_char_def)
    ultimately show ?thesis by blast
  qed
qed

lemma type_char_fields [simp]: "ins (type_char len c l) = ins l" "esc (type_char len c l) = esc l"
  "recent (type_char len c l) = recent l" "steps (type_char len c l) = steps l"
  by (simp_all add: type_char_def)

text \<open>Adding the characters of a string that stays readable while they are added.\<close>

lemma add_str_rel:
  assumes "ed_rel len e l" and "0 < len" and "\<And>e' l' i. ed_rel len e' l' \<Longrightarrow> esc l' = esc l \<Longrightarrow> i < length s \<Longrightarrow> src e' (k + i) = Some (s ! i)"
  shows "\<exists>e'. cread_add_str src k (length s) (ins l) len e = Some e' \<and> ed_rel len e' (fold (type_char len) s l)"
  using assms(1,3)
proof (induction s arbitrary: k e l)
  case (Cons c s)
  obtain e1 where e1: "cread_add_char c (ins l) len e = Some e1" "ed_rel len e1 (type_char len c l)"
    using add_char_rel [OF Cons.prems(1) assms(2)] by blast
  have "\<exists>e'. cread_add_str src (Suc k) (length s) (ins (type_char len c l)) len e1 = Some e' \<and> ed_rel len e' (fold (type_char len) s (type_char len c l))"
  proof (rule Cons.IH [OF e1(2)])
    show "src e' (Suc k + i) = Some (s ! i)" if "ed_rel len e' l'" "esc l' = esc (type_char len c l)" "i < length s" for e' l' i
      using Cons.prems(2) [of e' l' "Suc i"] that by simp
  qed
  then show ?case using e1(1) Cons.prems(2) [OF Cons.prems(1) refl, of 0] by simp
qed simp

lemma ed_rel_esc: "ed_rel len e l \<Longrightarrow> ed_rel len (e\<lparr>ed_esc := x\<rparr>) (l\<lparr>esc := x\<rparr>)"
  by (auto simp: ed_rel_def)

lemma add_esc_rel:
  assumes "ed_rel len e l" and "0 < len"
  shows "\<exists>e'. add_esc len e = Some e' \<and> ed_rel len e' ((fold (type_char len) (esc l) l)\<lparr>esc := []\<rparr>)"
proof -
  have r: "ed_esc e' = esc l'" if "ed_rel len e' l'" for e' l' using that by (simp add: ed_rel_def)
  have i: "ed_insert e = ins l" using assms(1) by (simp add: ed_rel_def)
  obtain e' where "cread_add_str (\<lambda>e i. rd (ed_esc e) i) 0 (length (esc l)) (ins l) len e = Some e'" "ed_rel len e' (fold (type_char len) (esc l) l)"
    using add_str_rel [OF assms, of "esc l" "\<lambda>e i. rd (ed_esc e) i" 0] by (auto simp: r rd_def)
  then show ?thesis using r [OF assms(1)] i ed_rel_esc by (auto simp: add_esc_def)
qed

lemma shift_left: "map_option fst (memmove (b @ x # a @ r) (length b) (length b + 1) (length a)) = Some (b @ a @ drop (length a) (x # a @ r))"
  by (subst memmove_store) (simp_all add: slice_def store_def)

lemma delete_rel:
  assumes "ed_rel len e l"
  shows "\<exists>e'. delete_at e = Some e' \<and> ed_rel len e' (l\<lparr>after := tl (after l)\<rparr>)"
proof -
  obtain r where r: "ed_buf e = before l @ after l @ r" "length (before l) + length (after l) + length r = len + 1" "r \<noteq> []"
    "ed_num e = length (before l)" "ed_eol e = length (before l) + length (after l)"
    "ed_insert e = ins l" "ed_esc e = esc l" "hist_rel len (ed_hist e) (recent l) (steps l)"
    using assms by (rule ed_relE)
  let ?b = "before l"
  show ?thesis
  proof (cases "after l")
    case (Cons x a)
    let ?r = "drop (length a) (x # a @ r)"
    let ?e = "e\<lparr>ed_buf := ?b @ a @ ?r, ed_eol := length ?b + length a\<rparr>"
    have "delete_at e = Some ?e" using r(1,4,5) Cons shift_left [of ?b x a r] by (auto simp: delete_at_def Let_def)
    moreover have "ed_rel len ?e (l\<lparr>after := tl (after l)\<rparr>)"
      using r Cons by (intro ed_relI [where r = ?r]) auto
    ultimately show ?thesis by blast
  next
    case Nil
    then have "delete_at e = Some e" using r(4,5) by (simp add: delete_at_def)
    then show ?thesis using assms Nil by (auto simp: ed_rel_def)
  qed
qed

lemma backspace_rel:
  assumes "ed_rel len e l"
  shows "\<exists>e'. backspace e = Some e' \<and> ed_rel len e' (l\<lparr>before := butlast (before l)\<rparr>)"
proof -
  obtain r where r: "ed_buf e = before l @ after l @ r" "length (before l) + length (after l) + length r = len + 1" "r \<noteq> []"
    "ed_num e = length (before l)" "ed_eol e = length (before l) + length (after l)"
    "ed_insert e = ins l" "ed_esc e = esc l" "hist_rel len (ed_hist e) (recent l) (steps l)"
    using assms by (rule ed_relE)
  let ?a = "after l"
  show ?thesis
  proof (cases "before l" rule: rev_cases)
    case (snoc b x)
    let ?r = "drop (length ?a) (x # ?a @ r)"
    let ?e = "e\<lparr>ed_buf := b @ ?a @ ?r, ed_num := length b, ed_eol := length b + length ?a\<rparr>"
    have "backspace e = Some ?e" using r(1,4,5) snoc shift_left [of b x ?a r] by (auto simp: backspace_def Let_def)
    moreover have "ed_rel len ?e (l\<lparr>before := butlast (before l)\<rparr>)"
      using r snoc by (intro ed_relI [where r = ?r]) auto
    ultimately show ?thesis by blast
  next
    case Nil
    then have "backspace e = Some e" using r(4,5) by (simp add: backspace_def)
    then show ?thesis using assms Nil by (auto simp: ed_rel_def)
  qed
qed

lemma recall_rel:
  assumes "ed_rel len e l" and "step (ed_hist e) = Some (hline, h)" and "hist_rel len h (recent l) k"
    and "\<And>m. hline = Some m \<Longrightarrow> cstr m 0 s \<and> length m \<le> len + 1"
  shows "\<exists>e'. recall_line step e = Some e' \<and>
    ed_rel len e' (if hline = None then l\<lparr>esc := [], steps := k\<rparr> else (set_line s l)\<lparr>esc := [], steps := k\<rparr>)"
proof (cases hline)
  case None
  then show ?thesis using assms(1-3) by (auto simp: recall_line_def ed_rel_def)
next
  case (Some m)
  have m: "cstr m 0 s" "length s < len + 1" using assms(4) [OF Some] cstr_bound [of m 0 s] by auto
  have b: "length (ed_buf e) = len + 1" "ed_insert e = ins l" using assms(1) by (simp_all add: ed_rel_def)
  obtain d where d: "strcpy_obj (ed_buf e) m = Some d" "cstr d 0 s" "length d = len + 1"
    using strcpy_obj_cstr [OF m(1), of "ed_buf e"] m(2) b(1) by auto
  have t: "take (length s) d = s" using cstr_slice [OF d(2), of "length s"] by (simp add: slice_def)
  let ?e = "e\<lparr>ed_esc := [], ed_hist := h, ed_num := length s, ed_eol := length s, ed_buf := d\<rparr>"
  have "recall_line step e = Some ?e"
    using assms(2) Some d strlen_cstr [OF d(2)]
    by (cases e) (simp add: recall_line_def Let_def ERASE_TO_EOL_def BEGINNING_OF_LINE_def REFRESH_TO_EOL_def)
  moreover have "ed_rel len ?e ((set_line s l)\<lparr>esc := [], steps := k\<rparr>)"
    using t b assms(3) d(3) m(2) by (simp add: ed_rel_def set_line_def)
  ultimately show ?thesis using Some by simp
qed

lemma back_rel:
  assumes "ed_rel len e l" and "esc l = []"
  shows "\<exists>e'. recall_line hist_prev e = Some e' \<and> ed_rel len e' (go_back l)"
proof -
  have h: "hist_rel len (ed_hist e) (recent l) (steps l)" using assms(1) by (simp add: ed_rel_def)
  from hist_prev_rel [OF h] show ?thesis
  proof (elim disjE conjE exE)
    assume n: "hist_prev (ed_hist e) = Some (None, ed_hist e)" and "steps l = None"
    then have "go_back l = l\<lparr>esc := [], steps := steps l\<rparr>" using assms(2) by (cases l) (simp add: go_back_def)
    then show ?thesis using recall_rel [where step = hist_prev, OF assms(1) n h] by simp
  next
    assume n: "hist_prev (ed_hist e) = Some (None, ed_hist e)" and "steps l = Some (length (recent l))"
    then have "go_back l = l\<lparr>esc := [], steps := steps l\<rparr>" using assms(2) by (cases l) (simp add: go_back_def)
    then show ?thesis using recall_rel [where step = hist_prev, OF assms(1) n h] by simp
  next
    fix j m h'
    assume j: "steps l = Some j" "j < length (recent l)" and p: "hist_prev (ed_hist e) = Some (Some m, h')"
      and m: "length m = len + 1" "cstr m 0 (recent l ! j)" and h': "hist_rel len h' (recent l) (Some (j + 1))"
    have "go_back l = (set_line (recent l ! j) l)\<lparr>esc := [], steps := Some (j + 1)\<rparr>"
      using j assms(2) by (cases l) (simp add: go_back_def set_line_def)
    then show ?thesis using recall_rel [where step = hist_prev, OF assms(1) p h'] m by auto
  qed
qed

lemma forward_rel:
  assumes "ed_rel len e l" and "esc l = []"
  shows "\<exists>e'. recall_line hist_next e = Some e' \<and> ed_rel len e' (go_forward l)"
proof -
  have h: "hist_rel len (ed_hist e) (recent l) (steps l)" using assms(1) by (simp add: ed_rel_def)
  from hist_next_rel [OF h] show ?thesis
  proof (elim disjE conjE exE)
    assume n: "hist_next (ed_hist e) = Some (None, ed_hist e)" and "steps l = None"
    then have "go_forward l = l\<lparr>esc := [], steps := steps l\<rparr>" using assms(2) by (cases l) (simp add: go_forward_def)
    then show ?thesis using recall_rel [where step = hist_next, OF assms(1) n h] by simp
  next
    assume n: "hist_next (ed_hist e) = Some (None, ed_hist e)" and "steps l = Some 0"
    then have "go_forward l = l\<lparr>esc := [], steps := steps l\<rparr>" using assms(2) by (cases l) (simp add: go_forward_def)
    then show ?thesis using recall_rel [where step = hist_next, OF assms(1) n h] by simp
  next
    fix j m h'
    assume j: "steps l = Some (Suc j)" and p: "hist_next (ed_hist e) = Some (Some m, h')"
      and m: "length m \<le> len + 1" "cstr m 0 (if j = 0 then [] else recent l ! (j - 1))" and h': "hist_rel len h' (recent l) (Some j)"
    have "go_forward l = (set_line (if j = 0 then [] else recent l ! (j - 1)) l)\<lparr>esc := [], steps := Some j\<rparr>"
      using j assms(2) by (cases l) (simp add: go_forward_def set_line_def)
    then show ?thesis using recall_rel [where step = hist_next, OF assms(1) p h'] m by auto
  qed
qed

text \<open>Moving the cursor and cutting the line.\<close>

lemma ed_rel_cut:
  assumes "ed_rel len e l" and "prefix (b @ a) (before l @ after l)"
  shows "ed_rel len (e\<lparr>ed_num := length b, ed_eol := length b + length a\<rparr>) (l\<lparr>before := b, after := a\<rparr>)"
proof -
  obtain z where z: "before l @ after l = b @ a @ z" using assms(2) by (auto simp: prefix_def)
  then have "length (before l) + length (after l) = length b + length a + length z" by (metis length_append add.assoc)
  moreover obtain r where "ed_buf e = (b @ a @ z) @ r" using assms(1) z by (elim ed_relE) (metis append_assoc)
  ultimately show ?thesis using assms(1) by (auto simp: ed_rel_def)
qed

fun out_rel :: "nat \<Rightarrow> editor key_out \<Rightarrow> line key_out \<Rightarrow> bool" where
  "out_rel len (Go e) (Go l) \<longleftrightarrow> ed_rel len e l"
| "out_rel len (Enter e) (Enter l) \<longleftrightarrow> ed_rel len e l"
| "out_rel len (Break e) (Break l) \<longleftrightarrow> cstr (ed_buf e) 0 [] \<and> length (ed_buf e) = len + 1 \<and> hist_rel len (ed_hist e) (recent l) (steps l)"
| "out_rel len _ _ \<longleftrightarrow> False"

lemma CTL_CH_simps [simp]:
  "CTL_CH CHR ''a'' = CHR 0x01" "CTL_CH CHR ''b'' = CHR 0x02" "CTL_CH CHR ''c'' = CHR 0x03" "CTL_CH CHR ''d'' = CHR 0x04" "CTL_CH CHR ''e'' = CHR 0x05"
  "CTL_CH CHR ''f'' = CHR 0x06" "CTL_CH CHR ''k'' = CHR 0x0B" "CTL_CH CHR ''n'' = CHR 0x0E" "CTL_CH CHR ''o'' = CHR 0x0F" "CTL_CH CHR ''p'' = CHR 0x10"
  "CTL_CH CHR ''u'' = CHR 0x15" "CTL_CH CHR ''x'' = CHR 0x18"
  by (simp_all add: CTL_CH_def char_of_def bit_simps) (code_simp)+

lemma home_rel: "ed_rel len e l \<Longrightarrow> ed_rel len (BEGINNING_OF_LINE e) (l\<lparr>before := [], after := before l @ after l\<rparr>)"
  by (auto simp: ed_rel_def BEGINNING_OF_LINE_def)

lemma erase_rel: "ed_rel len e l \<Longrightarrow> ed_rel len (ERASE_TO_EOL e) (l\<lparr>after := []\<rparr>)"
proof -
  assume "ed_rel len e l"
  then obtain r where "ed_buf e = before l @ after l @ r" "length (before l) + length (after l) + length r = len + 1" "r \<noteq> []"
    "ed_num e = length (before l)" "ed_eol e = length (before l) + length (after l)"
    "ed_insert e = ins l" "ed_esc e = esc l" "hist_rel len (ed_hist e) (recent l) (steps l)" by (rule ed_relE)
  then show ?thesis by (intro ed_relI [where r = "after l @ r"]) (auto simp: ERASE_TO_EOL_def)
qed

lemma end_rel: "ed_rel len e l \<Longrightarrow> ed_rel len (REFRESH_TO_EOL e) (l\<lparr>before := before l @ after l, after := []\<rparr>)"
  by (auto simp: ed_rel_def REFRESH_TO_EOL_def)

lemma kill_rel: "ed_rel len e l \<Longrightarrow> ed_rel len (ERASE_TO_EOL (BEGINNING_OF_LINE e)) (set_line [] l)"
  using erase_rel [OF home_rel] by (simp add: set_line_def)

lemma right_rel:
  "ed_rel len e l \<Longrightarrow> ed_rel len (if ed_num e < ed_eol e then e\<lparr>ed_num := ed_num e + 1\<rparr> else e)
    (if after l = [] then l else l\<lparr>before := before l @ [hd (after l)], after := tl (after l)\<rparr>)"
  by (cases "after l") (auto simp: ed_rel_def)

lemma left_rel:
  "ed_rel len e l \<Longrightarrow> ed_rel len (if ed_num e \<noteq> 0 then e\<lparr>ed_num := ed_num e - 1\<rparr> else e)
    (if before l = [] then l else l\<lparr>before := butlast (before l), after := last (before l) # after l\<rparr>)"
  by (cases "before l" rule: rev_cases) (auto simp: ed_rel_def)

lemma insert_rel: "ed_rel len e l \<Longrightarrow> ed_rel len (e\<lparr>ed_insert := \<not> ed_insert e\<rparr>) (l\<lparr>ins := \<not> ins l\<rparr>)"
  by (auto simp: ed_rel_def)

lemmas key_rels = home_rel erase_rel end_rel kill_rel right_rel left_rel insert_rel ed_rel_esc

lemma break_rel:
  assumes "ed_rel len e l"
  shows "\<exists>b. wr (ed_buf e) 0 NUL = Some b \<and> out_rel len (Break (e\<lparr>ed_buf := b\<rparr>)) (Break l)"
  using assms by (auto simp: ed_rel_def wr_def)

definition key_rel :: "nat \<Rightarrow> editor key_out option \<Rightarrow> line key_out \<Rightarrow> bool" where
  "key_rel len x l \<longleftrightarrow> (\<exists>r. x = Some r \<and> out_rel len r l)"

lemma key_rel_if: "(P \<Longrightarrow> key_rel len x l) \<Longrightarrow> (\<not> P \<Longrightarrow> key_rel len y m) \<Longrightarrow> key_rel len (if P then x else y) (if P then l else m)"
  by simp

lemma key_rel_Some: "out_rel len r l \<Longrightarrow> key_rel len (Some r) l"
  by (simp add: key_rel_def)

lemma plain_key_rel:
  assumes "ed_rel len e l" and "0 < len" and "esc l = []" and "c \<noteq> CHR 0x09"
  shows "key_rel len (plain_key ac prompt len c e) (edit_key len c l)"
proof -
  have i: "ed_insert e = ins l" "ed_esc e = []" using assms(1,3) by (simp_all add: ed_rel_def)
  obtain e1 where e1: "cread_add_char c (ins l) len e = Some e1" "ed_rel len e1 (type_char len c l)"
    using add_char_rel [OF assms(1,2)] by blast
  obtain e2 where e2: "delete_at e = Some e2" "ed_rel len e2 (l\<lparr>after := tl (after l)\<rparr>)" using delete_rel [OF assms(1)] by blast
  obtain e3 where e3: "backspace e = Some e3" "ed_rel len e3 (l\<lparr>before := butlast (before l)\<rparr>)" using backspace_rel [OF assms(1)] by blast
  obtain e4 where e4: "recall_line hist_prev e = Some e4" "ed_rel len e4 (go_back l)" using back_rel [OF assms(1,3)] by blast
  obtain e5 where e5: "recall_line hist_next e = Some e5" "ed_rel len e5 (go_forward l)" using forward_rel [OF assms(1,3)] by blast
  obtain b where b: "wr (ed_buf e) 0 NUL = Some b" "out_rel len (Break (e\<lparr>ed_buf := b\<rparr>)) (Break l)" using break_rel [OF assms(1)] by blast
  show ?thesis unfolding plain_key_def edit_key_def CTL_CH_simps i e2(1) e3(1) e4(1) e5(1) b(1) e1(1) bind.bind_lunit option.map simp_thms if_True
      if_not_P [OF assms(4)]
    using b(2) e1(2) e2(2) e3(2) e4(2) e5(2) key_rels [OF assms(1)]
    by (intro key_rel_if key_rel_Some) (simp_all only: out_rel.simps i)
qed

lemma cread_key_rel:
  assumes "ed_rel len e l" and "0 < len" and "c \<noteq> CHR 0x09"
  shows "key_rel len (cread_key ac prompt len c e) (line_key len c l)"
proof -
  have x: "ed_esc e = esc l" using assms(1) by (simp add: ed_rel_def)
  obtain e1 where e1: "add_esc len e = Some e1" "ed_rel len e1 ((fold (type_char len) (esc l) l)\<lparr>esc := []\<rparr>)"
    using add_esc_rel [OF assms(1,2)] by blast
  have el: "ed_rel len (e\<lparr>ed_esc := esc l @ [c]\<rparr>) (l\<lparr>esc := esc l @ [c]\<rparr>)" by (rule ed_rel_esc [OF assms(1)])
  obtain e2 where e2: "add_esc len (e\<lparr>ed_esc := esc l @ [c]\<rparr>) = Some e2"
      "ed_rel len e2 ((fold (type_char len) (esc l @ [c]) (l\<lparr>esc := esc l @ [c]\<rparr>))\<lparr>esc := []\<rparr>)"
    using add_esc_rel [OF el assms(2)] by auto
  have f: "(fold (type_char len) s (m\<lparr>esc := y\<rparr>))\<lparr>esc := []\<rparr> = (fold (type_char len) s m)\<lparr>esc := []\<rparr>" for s m y
  proof (induction s arbitrary: m)
    case (Cons d s)
    have "type_char len d (m\<lparr>esc := y\<rparr>) = (type_char len d m)\<lparr>esc := y\<rparr>" by (simp add: type_char_def)
    then show ?case using Cons.IH [of "type_char len d m"] by simp
  qed simp
  have nil: "ed_rel len (e\<lparr>ed_esc := []\<rparr>) (l\<lparr>esc := []\<rparr>)" by (rule ed_rel_esc [OF assms(1)])
  note plain = plain_key_rel [OF nil assms(2), of _ ac prompt]
  consider "c = CHR 0x0A \<or> c = CHR 0x0D" | "c \<noteq> CHR 0x0A" "c \<noteq> CHR 0x0D" "esc l = []" | "c \<noteq> CHR 0x0A" "c \<noteq> CHR 0x0D" "length (esc l) = 1"
    | "c \<noteq> CHR 0x0A" "c \<noteq> CHR 0x0D" "length (esc l) > 1" by (cases "esc l") auto
  then show ?thesis
  proof cases
    case 2
    then show ?thesis using plain_key_rel [OF assms(1,2) _ assms(3)] x by (simp add: cread_key_def line_key_def esc_key_def)
  next
    case 3
    then have "esc l \<noteq> []" by auto
    then show ?thesis using 3 x e1 el by (auto simp: cread_key_def line_key_def esc_key_def key_rel_def)
  next
    case 4
    then have "esc l \<noteq> []" "length (esc l) \<noteq> 1" by auto
    then show ?thesis using 4 x e2(1) e2(2) [unfolded f] plain by (auto simp: cread_key_def line_key_def esc_key_def key_rel_def arrow_def)
  qed (use assms(1) in \<open>auto simp: cread_key_def line_key_def key_rel_def\<close>)
qed

lemma cread_loop_rel:
  "ed_rel len e l \<Longrightarrow> 0 < len \<Longrightarrow> CHR 0x09 \<notin> set keys \<Longrightarrow> key_rel len (cread_loop ac prompt len keys e) (line_keys len keys l)"
proof (induction keys arbitrary: e l)
  case (Cons k keys)
  obtain r where r: "cread_key ac prompt len k e = Some r" "out_rel len r (line_key len k l)"
    using cread_key_rel [OF Cons.prems(1,2), of k ac prompt] Cons.prems(3) by (auto simp: key_rel_def)
  show ?case
  proof (cases r)
    case (Go e')
    then obtain l' where "line_key len k l = Go l'" "ed_rel len e' l'" using r(2) by (cases "line_key len k l") auto
    then show ?thesis using r(1) Go Cons.IH Cons.prems(2,3) by simp
  next
    case (Enter e')
    then show ?thesis using r by (cases "line_key len k l") (simp_all add: key_rel_def)
  next
    case (Break e')
    then show ?thesis using r by (cases "line_key len k l") (simp_all add: key_rel_def)
  qed
qed (simp add: key_rel_def)

text \<open>The line that is in the buffer before the first key.\<close>

lemma add_own_line:
  assumes "ed_num e = k" and "ed_eol e = k" and "k + n \<le> len" and "length (ed_buf e) = len + 1"
  shows "cread_add_str (\<lambda>e i. rd (ed_buf e) i) k n True len e = Some (e\<lparr>ed_num := k + n, ed_eol := k + n\<rparr>)"
  using assms
proof (induction n arbitrary: e k)
  case (Suc n)
  have "cread_add_char (ed_buf e ! k) True len e = Some (e\<lparr>ed_num := Suc k, ed_eol := Suc k\<rparr>)"
    using Suc.prems by (cases e) (auto simp: cread_add_char_def Let_def wr_def)
  then show ?case using Suc.prems Suc.IH [of "e\<lparr>ed_num := Suc k, ed_eol := Suc k\<rparr>" "Suc k"] by (simp add: rd_def)
next
  case 0
  then show ?case by (cases e) simp
qed

lemma own_line_rel:
  assumes "cstr buf 0 s" and "length buf = len + 1" and "hist_rel len h rs k"
  shows "ed_rel len \<lparr>ed_buf = buf, ed_num = length s, ed_eol = length s, ed_insert = True, ed_esc = [], ed_hist = h\<rparr>
    \<lparr>before = s, after = [], ins = True, esc = [], recent = rs, steps = k\<rparr>"
  using assms cstr_bound [OF assms(1)] cstr_slice [OF assms(1), of "length s"] by (simp add: ed_rel_def slice_def)

text \<open>What is remembered of a finished line: its text up to the first NUL, if there is one and it does not start with an exclamation mark.\<close>

definition remember :: "string \<Rightarrow> string list \<Rightarrow> string list" where
  "remember text rs =
     (let s = takeWhile (\<lambda>c. c \<noteq> NUL) text
      in if s = [] \<or> hd s = CHR ''!'' then rs else take (HIST_MAX - 1) (s # rs))"

lemma cstr_takeWhile:
  assumes "length t < length b" and "take (length t) b = t" and "b ! length t = NUL"
  shows "cstr b 0 (takeWhile (\<lambda>c. c \<noteq> NUL) t)"
proof -
  let ?s = "takeWhile (\<lambda>c. c \<noteq> NUL) t"
  have n: "b ! i = t ! i" if "i < length t" for i using assms(2) that by (metis nth_take)
  have "?s ! i = b ! i" if "i < length ?s" for i
    using n [of i] that length_takeWhile_le [of "\<lambda>c. c \<noteq> NUL" t] by (simp add: takeWhile_nth)
  moreover have "b ! length ?s = NUL"
  proof (cases "length ?s < length t")
    case True
    then show ?thesis using n [of "length ?s"] nth_length_takeWhile [of "\<lambda>c. c \<noteq> NUL" t] by simp
  next
    case False
    then have "length ?s = length t" using length_takeWhile_le [of "\<lambda>c. c \<noteq> NUL" t] by simp
    then show ?thesis using assms(3) by simp
  qed
  ultimately show ?thesis using assms(1) length_takeWhile_le [of "\<lambda>c. c \<noteq> NUL" t]
    by (auto simp: cstr_iff dest: set_takeWhileD)
qed

lemma finish_line_rel:
  assumes "ed_rel len e l"
  shows "\<exists>buf h. finish_line e = Some (Done 0 buf (length (before l @ after l)) h) \<and> length buf = len + 1 \<and>
    take (length (before l @ after l)) buf = before l @ after l \<and> buf ! length (before l @ after l) = NUL \<and>
    hist_rel len h (remember (before l @ after l) (recent l)) (Some 0)"
proof -
  let ?t = "before l @ after l"
  have e: "length (ed_buf e) = len + 1" "ed_eol e = length ?t" "length ?t \<le> len" "take (length ?t) (ed_buf e) = ?t"
    and h: "hist_rel len (ed_hist e) (recent l) (steps l)" using assms by (auto simp: ed_rel_def)
  let ?b = "(ed_buf e)[length ?t := NUL]" and ?s = "takeWhile (\<lambda>c. c \<noteq> NUL) ?t"
  have b: "wr (ed_buf e) (ed_eol e) NUL = Some ?b" "length ?b = len + 1" "take (length ?t) ?b = ?t" "?b ! length ?t = NUL"
    using e by (auto simp: wr_def)
  have c: "cstr ?b 0 ?s" using cstr_takeWhile [OF _ b(3,4)] b(2) e(3) by simp
  have sl: "length ?s \<le> len" using length_takeWhile_le [of "\<lambda>c. c \<noteq> NUL" ?t] e(3) by simp
  have r: "rd ?b 0 = Some (if ?s = [] then NUL else hd ?s)" using rd_cstr [OF c] .
  show ?thesis
  proof (cases "?s = [] \<or> hd ?s = CHR ''!''")
    case True
    have "hist_rel len ((ed_hist e)\<lparr>hist_cur := int (hist_add_idx (ed_hist e))\<rparr>) (recent l) (Some 0)"
      using h hist_idx_eq [of "ed_hist e" 0] by (auto simp: hist_rel_def hist_idx_def)
    then show ?thesis using True b r e(2) by (auto simp: finish_line_def remember_def CREAD_HIST_CHAR_def)
  next
    case False
    have "hd ?s \<in> set ?s" using False by (intro hd_in_set) blast
    then have nz: "hd ?s \<noteq> NUL" by (blast dest: set_takeWhileD)
    obtain h' where h': "cread_add_to_hist ?b (ed_hist e) = Some h'"
        "hist_rel len (h'\<lparr>hist_cur := int (hist_add_idx h')\<rparr>) (take (HIST_MAX - 1) (?s # recent l)) (Some 0)"
      using add_to_hist_rel [OF h c sl] by blast
    have "finish_line e = Some (Done 0 ?b (length ?t) (h'\<lparr>hist_cur := int (hist_add_idx h')\<rparr>))"
      unfolding finish_line_def b(1) bind.bind_lunit r using False nz h'(1) e(2) by (simp add: CREAD_HIST_CHAR_def)
    moreover have "remember ?t (recent l) = take (HIST_MAX - 1) (?s # recent l)" using False by (simp only: remember_def Let_def if_False)
    ultimately show ?thesis using b(2-4) h'(2) by auto
  qed
qed

lemma recent_go [simp]: "recent (set_line s l) = recent l" "recent (go_back l) = recent l" "recent (go_forward l) = recent l"
  by (simp_all add: set_line_def go_back_def go_forward_def split: option.split)

lemma recent_edit_key: "recent (out (edit_key len c l)) = recent l"
  by (simp add: edit_key_def)

lemma recent_type: "recent (fold (type_char len) s l) = recent l"
  by (induction s arbitrary: l) simp_all

lemma recent_line_key: "recent (out (line_key len c l)) = recent l"
  using recent_type [of len "esc l @ [c]" l] by (simp add: line_key_def recent_edit_key recent_type split: option.split)

lemma recent_kept: "recent (out (line_keys len keys l)) = recent l"
proof (induction keys arbitrary: l)
  case (Cons k keys)
  then show ?case using recent_line_key [of len k l] by (auto split: key_out.split)
qed simp

section \<open>Properties\<close>

text \<open>The history of the console: made at the first call.\<close>

definition console_hist :: "bool \<times> history \<Rightarrow> string list \<Rightarrow> nat option \<Rightarrow> bool" where
  "console_hist st rs k \<longleftrightarrow>
     (if fst st then hist_rel CONFIG_SYS_CBSIZE (snd st) rs k
      else rs = [] \<and> k = None \<and> length (hist_lines (snd st)) = HIST_MAX \<and> list_all (\<lambda>l. length l = CONFIG_SYS_CBSIZE + 1) (hist_lines (snd st)))"

lemma console_hist_rel: "console_hist st rs k \<Longrightarrow> hist_rel CONFIG_SYS_CBSIZE (if fst st then snd st else hist_init (snd st)) rs k"
  by (auto simp: console_hist_def hist_init_def hist_rel_def HIST_MAX_def list_all_iff)

text \<open>C18. The line editor edits a line. For every sequence of keys without the tabulator (completion is not part of this; on a full line it overruns a buffer), every access stays
  inside of the buffers, and the outcome is that of editing a text with a cursor: on return the buffer holds the text with its NUL, the result is its length, and the line is remembered as the latest of at most 19;
  on control-C the buffer is empty; before that the editor waits with the text and the cursor where they should be.\<close>

theorem readline_edits:
  assumes "cstr buffer 0 s" and "length buffer = CONFIG_SYS_CBSIZE + 1" and "CHR 0x09 \<notin> set keys" and "console_hist st rs k"
  shows "\<exists>r. readline_into_buffer compl table tmp False prompt buffer keys st = Some r \<and>
    (case line_keys CONFIG_SYS_CBSIZE keys \<lparr>before = s, after = [], ins = True, esc = [], recent = rs, steps = k\<rparr> of
       Go l \<Rightarrow> \<exists>e. r = Waiting e \<and> ed_num e = length (before l) \<and> take (ed_eol e) (ed_buf e) = before l @ after l
     | Break l \<Rightarrow> \<exists>buf h. r = Done (- 1) buf CONFIG_SYS_CBSIZE h \<and> cstr buf 0 [] \<and> hist_rel CONFIG_SYS_CBSIZE h rs (steps l)
     | Enter l \<Rightarrow> let text = before l @ after l
                 in \<exists>buf h. r = Done 0 buf (length text) h \<and> length buf = CONFIG_SYS_CBSIZE + 1 \<and> take (length text) buf = text \<and>
                      buf ! length text = NUL \<and> hist_rel CONFIG_SYS_CBSIZE h (remember text rs) (Some 0))"
proof -
  let ?len = CONFIG_SYS_CBSIZE and ?h = "if fst st then snd st else hist_init (snd st)"
  let ?l = "\<lparr>before = s, after = [], ins = True, esc = [], recent = rs, steps = k\<rparr>"
  let ?e = "\<lparr>ed_buf = buffer, ed_num = length s, ed_eol = length s, ed_insert = True, ed_esc = [], ed_hist = ?h\<rparr>"
  let ?ac = "cmd_auto_complete compl table tmp prompt"
  have s: "length s \<le> ?len" using cstr_bound [OF assms(1)] assms(2) by simp
  have e: "ed_rel ?len ?e ?l" using own_line_rel [OF assms(1,2) console_hist_rel [OF assms(4)]] .
  obtain r where r: "cread_loop ?ac prompt ?len keys ?e = Some r" "out_rel ?len r (line_keys ?len keys ?l)"
    using cread_loop_rel [OF e _ assms(3), of ?ac prompt] by (auto simp: key_rel_def CONFIG_SYS_CBSIZE_def)
  have run: "readline_into_buffer compl table tmp False prompt buffer keys st =
      (case r of Go e \<Rightarrow> Some (Waiting e) | Enter e \<Rightarrow> finish_line e | Break e \<Rightarrow> Some (Done (- 1) (ed_buf e) ?len (ed_hist e)))"
    using r(1) add_own_line [of "\<lparr>ed_buf = buffer, ed_num = 0, ed_eol = 0, ed_insert = True, ed_esc = [], ed_hist = ?h\<rparr>" 0 "length s" ?len] s assms(2)
    by (simp add: readline_into_buffer_def cread_line_def Let_def strlen_cstr [OF assms(1)])
  show ?thesis
  proof (cases "line_keys ?len keys ?l")
    case (Go l)
    then obtain e' where "r = Go e'" "ed_rel ?len e' l" using r(2) by (cases r) auto
    then show ?thesis using run Go by (auto simp: ed_rel_def)
  next
    case (Enter l)
    then obtain e' where e': "r = Enter e'" "ed_rel ?len e' l" using r(2) by (cases r) auto
    have "recent l = rs" using recent_kept [of ?len keys ?l] Enter by simp
    then show ?thesis using run Enter e'(1) finish_line_rel [OF e'(2)] by (auto simp: Let_def)
  next
    case (Break l)
    then obtain e' where e': "r = Break e'" "out_rel ?len r (Break l)" using r(2) by (cases r) auto
    have "recent l = rs" using recent_kept [of ?len keys ?l] Break by simp
    then show ?thesis using run Break e' by auto
  qed
qed

definition hist0 :: history where
  "hist0 = \<lparr>hist_max = 0, hist_add_idx = 0, hist_cur = 0, hist_num = 0, hist_lines = replicate HIST_MAX (replicate (CONFIG_SYS_CBSIZE + 1) NUL)\<rparr>"

lemma console_hist0: "console_hist (False, hist0) [] None"
  by (simp add: console_hist_def hist0_def list_all_iff)

theorem readline_edits_witness:
  "\<exists>buf h. readline_into_buffer (\<lambda>f argv c n. []) cmds0 [] False CONFIG_SYS_PROMPT (replicate (CONFIG_SYS_CBSIZE + 1) NUL)
      (''bot'' @ [CHR 0x02, CHR ''o'', CHR 0x0D]) (False, hist0) = Some (Done 0 buf (length ''boot'') h) \<and> take (length ''boot'') buf = ''boot'' \<and>
     hist_rel CONFIG_SYS_CBSIZE h [''boot''] (Some 0)"
proof -
  have "cstr (replicate (CONFIG_SYS_CBSIZE + 1) NUL) 0 []" by (simp add: CONFIG_SYS_CBSIZE_def)
  moreover have "line_keys CONFIG_SYS_CBSIZE (''bot'' @ [CHR 0x02, CHR ''o'', CHR 0x0D])
      \<lparr>before = [], after = [], ins = True, esc = [], recent = [], steps = None\<rparr> =
      Enter \<lparr>before = ''boo'', after = ''t'', ins = True, esc = [], recent = [], steps = None\<rparr>"
    by (simp add: line_key_def edit_key_def type_char_def CONFIG_SYS_CBSIZE_def)
  ultimately show ?thesis
    using readline_edits [of "replicate (CONFIG_SYS_CBSIZE + 1) NUL" "[]" "''bot'' @ [CHR 0x02, CHR ''o'', CHR 0x0D]" "(False, hist0)" "[]" None
        "\<lambda>f argv c n. []" cmds0 "[]" CONFIG_SYS_PROMPT] console_hist0
    by (auto simp: remember_def HIST_MAX_def Let_def)
qed

end
