(* ===== verification/Shell.thy ===== *)
theory Shell
  imports Command
begin

text \<open>
  The built-in command parser (\<^verbatim>\<open>common/main.c\<close>, without \<open>CONFIG_SYS_HUSH_PARSER\<close>): expanding variables in a command, splitting a line into commands and running
  them. The rest of the program is a state \<open>'s\<close>; \<open>shell\<close> holds what the parser uses of it: the command table and the functions that it
  names, the variables, and the note that control-C was pressed.
\<close>

section \<open>Variables in a command\<close>

text \<open>The output of \<open>process_macros\<close>: the buffer, the position and the room that is left.\<close>

type_synonym out_buf = "mem \<times> ptr \<times> nat"

definition out_char :: "char \<Rightarrow> out_buf \<Rightarrow> out_buf option" where
  "out_char c ob = (case ob of (m, output, outputcnt) \<Rightarrow> do { m \<leftarrow> wr m output c; Some (m, output + 1, outputcnt - 1) })"

definition out_room :: "out_buf \<Rightarrow> bool" where
  "out_room ob \<longleftrightarrow> snd (snd ob) \<noteq> 0"

text \<open>Copying the value of a variable, while there is room.\<close>

fun out_value :: "string \<Rightarrow> out_buf \<Rightarrow> out_buf option" where
  "out_value [] ob = Some ob"
| "out_value (c # s) ob = (if out_room ob then do { ob \<leftarrow> out_char c ob; out_value s ob } else Some ob)"

definition macro_var :: "(string \<Rightarrow> string option) \<Rightarrow> string \<Rightarrow> out_buf \<Rightarrow> out_buf option" where
  "macro_var getenv envname ob =
     (if length envname < CONFIG_SYS_CBSIZE
      then (case getenv envname of None \<Rightarrow> Some ob | Some envval \<Rightarrow> out_value envval ob)
      else None)"

text \<open>One character, after escapes were removed: the new state, the start of the name of a variable, and the output. \<open>i\<close> is the position behind the character.\<close>

definition macro_char ::
    "(string \<Rightarrow> string option) \<Rightarrow> string \<Rightarrow> nat \<Rightarrow> char \<Rightarrow> char \<Rightarrow> nat \<Rightarrow> nat \<Rightarrow> out_buf \<Rightarrow> (nat \<times> nat \<times> out_buf) option" where
  "macro_char getenv input i prev c state varname_start ob =
     (if state = 0
      then if c = CHR 0x27 \<and> prev \<noteq> CHR 0x5C then Some (3, varname_start, ob)
           else if c = CHR ''$'' \<and> prev \<noteq> CHR 0x5C then Some (1, varname_start, ob)
           else do { ob \<leftarrow> out_char c ob; Some (0, varname_start, ob) }
      else if state = 1
      then if c = CHR ''('' \<or> c = CHR ''{'' then Some (2, i, ob)
           else do { ob \<leftarrow> out_char CHR ''$'' ob;
                     ob \<leftarrow> (if out_room ob then out_char c ob else Some ob);
                     Some (0, varname_start, ob) }
      else if state = 2
      then if c = CHR '')'' \<or> c = CHR ''}''
           then do { ob \<leftarrow> macro_var getenv (take (i - varname_start - 1) (drop varname_start input)) ob; Some (0, varname_start, ob) }
           else Some (2, varname_start, ob)
      else if c = CHR 0x27 \<and> prev \<noteq> CHR 0x5C then Some (0, varname_start, ob)
      else do { ob \<leftarrow> out_char c ob; Some (3, varname_start, ob) })"

function macro_loop ::
    "(string \<Rightarrow> string option) \<Rightarrow> string \<Rightarrow> nat \<Rightarrow> char \<Rightarrow> nat \<Rightarrow> nat \<Rightarrow> out_buf \<Rightarrow> out_buf option" where
  "macro_loop getenv input i prev state varname_start ob =
     (if i < length input \<and> out_room ob
      then let c = input ! i
           in if state \<noteq> 3 \<and> c = CHR 0x5C \<and> prev \<noteq> CHR 0x5C
              then if i + 1 < length input
                   then do { (state, varname_start, ob) \<leftarrow> macro_char getenv input (i + 2) c (input ! (i + 1)) state varname_start ob;
                             macro_loop getenv input (i + 2) (input ! (i + 1)) state varname_start ob }
                   else Some ob
              else do { (state, varname_start, ob) \<leftarrow> macro_char getenv input (i + 1) prev c state varname_start ob;
                        macro_loop getenv input (i + 1) c state varname_start ob }
      else Some ob)"
  by pat_completeness auto
termination
  by (relation "measure (\<lambda>(getenv, input, i, prev, state, varname_start, ob). length input - i)") auto

declare macro_loop.simps [simp del]

definition process_macros :: "(string \<Rightarrow> string option) \<Rightarrow> string \<Rightarrow> mem \<Rightarrow> mem option" where
  "process_macros getenv input out =
     do { (m, output, outputcnt) \<leftarrow> macro_loop getenv input 0 NUL 0 0 (out, 0, CONFIG_SYS_CBSIZE);
          if outputcnt \<noteq> 0 then wr m output NUL else wr m (output - 1) NUL }"

section \<open>Running commands\<close>

record 's shell =
  sh_call :: "nat \<Rightarrow> cmd_tbl \<Rightarrow> int \<Rightarrow> string list \<Rightarrow> 's \<Rightarrow> int \<times> 's"
  sh_bootd :: nat
  sh_table :: "cmd_tbl list"
  sh_getenv :: "'s \<Rightarrow> string \<Rightarrow> string option"
  sh_clear_ctrlc :: "'s \<Rightarrow> 's"
  sh_had_ctrlc :: "'s \<Rightarrow> bool"

text \<open>The separator that ends the command at \<open>str\<close>: \<open>sep\<close> is the current position. For a quote, and for a semicolon behind the start, the character before is read.\<close>

definition before_sep :: "mem \<Rightarrow> ptr \<Rightarrow> char option" where
  "before_sep m sep = (if sep = 0 then None else rd m (sep - 1))"

function find_sep :: "mem \<Rightarrow> ptr \<Rightarrow> ptr \<Rightarrow> bool \<Rightarrow> ptr option" where
  "find_sep m str sep inquotes =
     (if sep < length m
      then let c = m ! sep
           in if c = NUL then Some sep
              else do { inquotes \<leftarrow> (if c = CHR 0x27 then do { p \<leftarrow> before_sep m sep; Some (if p \<noteq> CHR 0x5C then \<not> inquotes else inquotes) }
                                    else Some inquotes);
                        stop \<leftarrow> (if \<not> inquotes \<and> c = CHR '';'' \<and> sep \<noteq> str then do { p \<leftarrow> before_sep m sep; Some (p \<noteq> CHR 0x5C) }
                                else Some False);
                        if stop then Some sep else find_sep m str (sep + 1) inquotes }
      else None)"
  by pat_completeness auto
termination
  by (relation "measure (\<lambda>(m, str, sep, inquotes). length m - sep)") auto

declare find_sep.simps [simp del]

definition run_token :: "'s shell \<Rightarrow> int \<Rightarrow> string \<Rightarrow> mem \<Rightarrow> int \<times> int \<times> 's \<Rightarrow> (mem \<times> bool \<times> int \<times> int \<times> 's) option" where
  "run_token sh flags token finaltoken s =
     (case s of (rc, repeatable, st) \<Rightarrow>
        do { finaltoken \<leftarrow> process_macros (sh_getenv sh st) token finaltoken;
             (m, argv, _) \<leftarrow> parse_line finaltoken 0;
             args \<leftarrow> getstrs m argv;
             if args = [] then Some (m, False, - 1, repeatable, st)
             else let (r, repeatable, st) = cmd_process (sh_call sh) (sh_bootd sh) (sh_table sh) flags args repeatable st;
                      rc = (if r \<noteq> 0 then - 1 else rc)
                  in Some (m, sh_had_ctrlc sh st, rc, repeatable, st) })"

lemma find_sep_ge: "find_sep m str sep q = Some r \<Longrightarrow> sep \<le> r \<and> r < length m"
proof (induction "length m - sep" arbitrary: sep q rule: less_induct)
  case less
  have "sep < length m \<and> (r = sep \<or> (\<exists>q'. find_sep m str (Suc sep) q' = Some r))"
    using less.prems unfolding find_sep.simps [of m str sep q] by (auto simp: Let_def bind_Some_iff split: if_splits)
  then show ?case
  proof (elim conjE disjE exE)
    fix q'
    assume "sep < length m" and "find_sep m str (Suc sep) q' = Some r"
    then have "Suc sep \<le> r \<and> r < length m" by (intro less.hyps) auto
    then show ?thesis by simp
  qed simp
qed

function run_loop :: "'s shell \<Rightarrow> int \<Rightarrow> mem \<Rightarrow> ptr \<Rightarrow> mem \<Rightarrow> int \<times> int \<times> 's \<Rightarrow> (int \<times> 's) option" where
  "run_loop sh flags m str finaltoken s =
     do { c \<leftarrow> rd m str;
          if c = NUL then (case s of (rc, repeatable, st) \<Rightarrow> Some (if rc \<noteq> 0 then rc else repeatable, st))
          else do { sep \<leftarrow> find_sep m str str False;
                    let ended = (m ! sep = NUL);
                    let m = m[sep := NUL];
                    token \<leftarrow> getstr m str;
                    (finaltoken, stop, rc, repeatable, st) \<leftarrow> run_token sh flags token finaltoken s;
                    if stop then Some (- 1, st)
                    else run_loop sh flags m (if ended then sep else sep + 1) finaltoken (rc, repeatable, st) } }"
  by pat_completeness auto
termination
proof (relation "measure (\<lambda>(sh, flags, m, str, finaltoken, s). 2 * (length m - str) + (if str < length m \<and> m ! str = NUL then 0 else 1))", goal_cases)
  case (2 sh flags m str finaltoken s c sep ended m' token r finaltoken' x stop y rc z repeatable st)
  then show ?case using find_sep_ge [of m str str False sep] by (auto simp: rd_Some_iff)
qed simp

declare run_loop.simps [simp del]

text \<open>\<open>cmdbuf\<close> and \<open>finaltoken\<close> are the two buffers on the stack.\<close>

definition builtin_run_command :: "'s shell \<Rightarrow> mem \<Rightarrow> mem \<Rightarrow> string option \<Rightarrow> int \<Rightarrow> 's \<Rightarrow> (int \<times> 's) option" where
  "builtin_run_command sh cmdbuf finaltoken cmd flags st =
     (let st = sh_clear_ctrlc sh st
      in case cmd of
           None \<Rightarrow> Some (- 1, st)
         | Some cmd \<Rightarrow>
             if cmd = [] then Some (- 1, st)
             else if length cmd \<ge> CONFIG_SYS_CBSIZE then Some (- 1, st)
             else do { cmdbuf \<leftarrow> strcpy_obj cmdbuf (cmd @ [NUL]);
                       run_loop sh flags cmdbuf 0 finaltoken (0, 1, st) })"

definition run_command :: "'s shell \<Rightarrow> mem \<Rightarrow> mem \<Rightarrow> string option \<Rightarrow> int \<Rightarrow> 's \<Rightarrow> (int \<times> 's) option" where
  "run_command sh cmdbuf finaltoken cmd flags st =
     do { (rc, st) \<leftarrow> builtin_run_command sh cmdbuf finaltoken cmd flags st;
          Some (if rc = - 1 then 1 else 0, st) }"

text \<open>The lines of a list of commands; \<open>line\<close> and \<open>next\<close> are positions in the memory of the list, in which a newline becomes NUL.\<close>

function list_loop :: "'s shell \<Rightarrow> mem \<Rightarrow> mem \<Rightarrow> mem \<Rightarrow> ptr \<Rightarrow> ptr \<Rightarrow> 's \<Rightarrow> (int \<times> mem \<times> ptr \<times> 's) option" where
  "list_loop sh cmdbuf finaltoken m line next st =
     do { c \<leftarrow> rd m next;
          if c = NUL then Some (0, m, line, st)
          else if c = CHR 0x0A
          then do { let m = m[next := NUL];
                    cmd \<leftarrow> getstr m line;
                    (rc, st) \<leftarrow> (if cmd \<noteq> [] then builtin_run_command sh cmdbuf finaltoken (Some cmd) 0 st else Some (0, st));
                    if rc < 0 then Some (1, m, line, st) else list_loop sh cmdbuf finaltoken m (next + 1) (next + 1) st }
          else list_loop sh cmdbuf finaltoken m line (next + 1) st }"
  by pat_completeness auto
termination
  by (relation "measure (\<lambda>(sh, cmdbuf, finaltoken, m, line, next, st). length m - next)") (auto simp: rd_Some_iff)

declare list_loop.simps [simp del]

definition builtin_run_command_list :: "'s shell \<Rightarrow> mem \<Rightarrow> mem \<Rightarrow> mem \<Rightarrow> int \<Rightarrow> 's \<Rightarrow> (int \<times> 's) option" where
  "builtin_run_command_list sh cmdbuf finaltoken m flags st =
     do { (rcode, m, line, st) \<leftarrow> list_loop sh cmdbuf finaltoken m 0 0 st;
          cmd \<leftarrow> getstr m line;
          if rcode = 0 \<and> cmd \<noteq> []
          then do { (rc, st) \<leftarrow> builtin_run_command sh cmdbuf finaltoken (Some cmd) 0 st; Some (if rc \<ge> 0 then 1 else 0, st) }
          else Some (rcode, st) }"

text \<open>\<open>len\<close> is \<open>None\<close> for the value \<open>- 1\<close>; \<open>alloc\<close> says whether \<open>malloc\<close> succeeds. Without a copy of its own the command has no newline, and is not changed.\<close>

definition run_command_list :: "'s shell \<Rightarrow> mem \<Rightarrow> mem \<Rightarrow> bool \<Rightarrow> mem \<Rightarrow> nat option \<Rightarrow> int \<Rightarrow> 's \<Rightarrow> (int \<times> 's) option" where
  "run_command_list sh cmdbuf finaltoken alloc cmd len flags st =
     do { n \<leftarrow> (case len of None \<Rightarrow> strlen cmd 0 | Some n \<Rightarrow> Some n);
          if length cmd < n then None
          else let need_buff = (len \<noteq> None \<or> CHR 0x0A \<in> set (take n cmd))
               in if need_buff
                  then if alloc then builtin_run_command_list sh cmdbuf finaltoken (take n cmd @ [NUL]) flags st else Some (1, st)
                  else builtin_run_command_list sh cmdbuf finaltoken cmd flags st }"

text \<open>The commands stored in variables.\<close>

fun do_run_loop :: "'s shell \<Rightarrow> mem \<Rightarrow> mem \<Rightarrow> int \<Rightarrow> string list \<Rightarrow> 's \<Rightarrow> (int \<times> 's) option" where
  "do_run_loop sh cmdbuf finaltoken flags [] st = Some (0, st)"
| "do_run_loop sh cmdbuf finaltoken flags (a # args) st =
     (case sh_getenv sh st a of
        None \<Rightarrow> Some (1, st)
      | Some arg \<Rightarrow> do { (rc, st) \<leftarrow> run_command sh cmdbuf finaltoken (Some arg) flags st;
                        if rc \<noteq> 0 then Some (1, st) else do_run_loop sh cmdbuf finaltoken flags args st })"

definition do_run :: "'s shell \<Rightarrow> mem \<Rightarrow> mem \<Rightarrow> int \<Rightarrow> string list \<Rightarrow> 's \<Rightarrow> (int \<times> 's) option" where
  "do_run sh cmdbuf finaltoken flags argv st =
     (if length argv < 2 then Some (CMD_RET_USAGE, st) else do_run_loop sh cmdbuf finaltoken flags (tl argv) st)"

section \<open>Expansion\<close>

text \<open>
  What \<open>process_macros\<close> computes, without buffers: one character gives a new state and text to output. In state 2 \<open>nm\<close> is what was read
  since the opening bracket.
\<close>

definition expand_char :: "(string \<Rightarrow> string option) \<Rightarrow> char \<Rightarrow> char \<Rightarrow> nat \<Rightarrow> string \<Rightarrow> nat \<times> string" where
  "expand_char getenv prev c state nm =
     (if state = 0
      then if c = CHR 0x27 \<and> prev \<noteq> CHR 0x5C then (3, []) else if c = CHR ''$'' \<and> prev \<noteq> CHR 0x5C then (1, []) else (0, [c])
      else if state = 1 then if c = CHR ''('' \<or> c = CHR ''{'' then (2, []) else (0, [CHR ''$'', c])
      else if state = 2 then if c = CHR '')'' \<or> c = CHR ''}'' then (0, case getenv nm of None \<Rightarrow> [] | Some v \<Rightarrow> v) else (2, [])
      else if c = CHR 0x27 \<and> prev \<noteq> CHR 0x5C then (0, []) else (3, [c]))"

fun expand :: "(string \<Rightarrow> string option) \<Rightarrow> char \<Rightarrow> nat \<Rightarrow> string \<Rightarrow> string \<Rightarrow> string" where
  "expand getenv prev state nm [] = []"
| "expand getenv prev state nm [c] =
     (if state \<noteq> 3 \<and> c = CHR 0x5C \<and> prev \<noteq> CHR 0x5C then [] else snd (expand_char getenv prev c state nm))"
| "expand getenv prev state nm (c # d # s) =
     (if state \<noteq> 3 \<and> c = CHR 0x5C \<and> prev \<noteq> CHR 0x5C
      then let (state', text') = expand_char getenv c d state (nm @ [c])
           in text' @ expand getenv d state' (if state = 2 \<and> state' = 2 then nm @ [c, d] else []) s
      else let (state', text') = expand_char getenv prev c state nm
           in text' @ expand getenv c state' (if state = 2 \<and> state' = 2 then nm @ [c] else []) (d # s))"

definition expand_macros :: "(string \<Rightarrow> string option) \<Rightarrow> string \<Rightarrow> string" where
  "expand_macros getenv input = expand getenv NUL 0 [] input"

text \<open>The output buffer holds the text so far, as far as it fits.\<close>

definition text_rel :: "out_buf \<Rightarrow> string \<Rightarrow> bool" where
  "text_rel ob t \<longleftrightarrow>
     (case ob of (m, output, outputcnt) \<Rightarrow>
        length m = CONFIG_SYS_CBSIZE \<and> output = min CONFIG_SYS_CBSIZE (length t) \<and> outputcnt = CONFIG_SYS_CBSIZE - output \<and>
        take output m = take CONFIG_SYS_CBSIZE t)"

lemma out_room_iff: "text_rel ob t \<Longrightarrow> out_room ob \<longleftrightarrow> length t < CONFIG_SYS_CBSIZE"
  by (auto simp: text_rel_def out_room_def)

lemma text_rel_full: "text_rel ob t \<Longrightarrow> \<not> out_room ob \<Longrightarrow> text_rel ob (t @ u)"
  by (auto simp: text_rel_def out_room_def)

lemma out_char_rel:
  assumes "text_rel ob t" and "out_room ob"
  shows "\<exists>ob'. out_char c ob = Some ob' \<and> text_rel ob' (t @ [c])"
proof -
  obtain m p n where ob: "ob = (m, p, n)" by (cases ob)
  have l: "length t < CONFIG_SYS_CBSIZE" using out_room_iff assms by blast
  then have m: "p = length t" "length m = CONFIG_SYS_CBSIZE" "n = CONFIG_SYS_CBSIZE - length t" "take (length t) m = t"
    using assms(1) by (auto simp: text_rel_def ob)
  have "take (Suc (length t)) (m[length t := c]) = t @ [c]" using m l by (simp add: take_Suc_conv_app_nth)
  then show ?thesis using m l by (simp add: ob out_char_def wr_def text_rel_def)
qed

lemma out_value_rel: "text_rel ob t \<Longrightarrow> \<exists>ob'. out_value v ob = Some ob' \<and> text_rel ob' (t @ v)"
proof (induction v arbitrary: ob t)
  case (Cons c v)
  show ?case
  proof (cases "out_room ob")
    case True
    then obtain ob1 where "out_char c ob = Some ob1" "text_rel ob1 (t @ [c])" using out_char_rel [OF Cons.prems] by blast
    then show ?thesis using True Cons.IH [of ob1 "t @ [c]"] by simp
  next
    case False
    then show ?thesis using text_rel_full [OF Cons.prems] by simp
  qed
qed simp

lemma macro_char_rel:
  assumes "text_rel ob t" and "out_room ob" and "state = 2 \<Longrightarrow> take (i - vs - 1) (drop vs input) = nm \<and> length nm < CONFIG_SYS_CBSIZE"
  shows "\<exists>ob'. macro_char getenv input i prev c state vs ob =
      Some (fst (expand_char getenv prev c state nm), if state = 1 \<and> fst (expand_char getenv prev c state nm) = 2 then i else vs, ob') \<and>
    text_rel ob' (t @ snd (expand_char getenv prev c state nm))"
proof -
  obtain ob1 where o1: "out_char c ob = Some ob1" "text_rel ob1 (t @ [c])" using out_char_rel [OF assms(1,2)] by blast
  obtain ob2 where o2: "out_char CHR ''$'' ob = Some ob2" "text_rel ob2 (t @ ''$'')" using out_char_rel [OF assms(1,2)] by blast
  obtain ob3 where o3: "(if out_room ob2 then out_char c ob2 else Some ob2) = Some ob3" "text_rel ob3 (t @ [CHR ''$'', c])"
    using out_char_rel [OF o2(2), of c] text_rel_full [OF o2(2), of "[c]"] by (cases "out_room ob2") auto
  obtain ob4 where o4: "out_value (the (getenv nm)) ob = Some ob4" "text_rel ob4 (t @ the (getenv nm))" using out_value_rel [OF assms(1)] by blast
  have v: "macro_var getenv nm ob = Some (if getenv nm = None then ob else ob4)" if "state = 2"
    using o4(1) assms(3) [OF that] by (auto simp: macro_var_def split: option.split)
  consider "state = 0" | "state = 1" | "state = 2" | "state > 2" by linarith
  then show ?thesis
  proof cases
    case 2
    then show ?thesis using assms(1) o2(1) o3 by (auto simp: macro_char_def expand_char_def simp del: split_paired_Ex)
  next
    case 3
    then show ?thesis using assms(1,3) v o4(2) by (auto simp: macro_char_def expand_char_def simp del: split_paired_Ex split: option.split)
  qed (use assms(1) o1 in \<open>auto simp: macro_char_def expand_char_def simp del: split_paired_Ex\<close>)
qed

lemma expand_one:
  assumes "\<not> (state \<noteq> 3 \<and> c = CHR 0x5C \<and> prev \<noteq> CHR 0x5C)" and "x = expand_char getenv prev c state nm"
  shows "expand getenv prev state nm (c # s) = snd x @ expand getenv c (fst x) (if fst x = 2 \<and> state = 2 then nm @ [c] else []) s"
  using assms by (cases s) (auto simp: split_beta)

lemma expand_two:
  assumes "state \<noteq> 3" and "c = CHR 0x5C" and "prev \<noteq> CHR 0x5C" and "x = expand_char getenv c d state (nm @ [c])"
  shows "expand getenv prev state nm (c # d # s) = snd x @ expand getenv d (fst x) (if fst x = 2 \<and> state = 2 then nm @ [c, d] else []) s"
  using assms by (auto simp: split_beta)

lemma name_grow: "vs \<le> i \<Longrightarrow> take (i + n - vs) (drop vs input) = take (i - vs) (drop vs input) @ take n (drop i input)"
proof -
  assume "vs \<le> i"
  then have "i + n - vs = (i - vs) + n" and "drop (i - vs) (drop vs input) = drop i input" by simp_all
  then show ?thesis by (simp only: take_add)
qed

text \<open>One step of the loop, over the \<open>n\<close> characters \<open>raw\<close> of the input.\<close>

lemma macro_step:
  assumes "text_rel ob t" and "out_room ob" and "state = 2 \<Longrightarrow> vs \<le> i \<and> take (i - vs) (drop vs input) = nm"
    and "i + n \<le> length input" and "length input < CONFIG_SYS_CBSIZE" and "take n (drop i input) = raw @ [c]" and "n = Suc (length raw)"
  shows "\<exists>vs' ob'. macro_char getenv input (i + n) prev c state vs ob = Some (fst (expand_char getenv prev c state (nm @ raw)), vs', ob') \<and>
    text_rel ob' (t @ snd (expand_char getenv prev c state (nm @ raw))) \<and>
    (fst (expand_char getenv prev c state (nm @ raw)) = 2 \<longrightarrow>
      vs' \<le> i + n \<and> take (i + n - vs') (drop vs' input) = (if state = 2 then nm @ raw @ [c] else []))"
proof -
  let ?x = "expand_char getenv prev c state (nm @ raw)"
  have g: "take (i + n - vs) (drop vs input) = nm @ raw @ [c]" if "state = 2"
    using name_grow [of vs i n input] assms(3) [OF that] assms(6) by simp
  have nm: "take (i + n - vs - 1) (drop vs input) = nm @ raw \<and> length (nm @ raw) < CONFIG_SYS_CBSIZE" if "state = 2"
  proof -
    have "take (i + n - vs - 1) (drop vs input) = butlast (take (i + n - vs) (drop vs input))"
      using assms(3) [OF that] assms(4) by (simp add: butlast_take)
    moreover have "length (take (i + n - vs) (drop vs input)) \<le> length input" by simp
    ultimately show ?thesis using g [OF that] assms(5) by (simp add: butlast_append)
  qed
  obtain ob1 where "macro_char getenv input (i + n) prev c state vs ob = Some (fst ?x, if state = 1 \<and> fst ?x = 2 then i + n else vs, ob1)"
      "text_rel ob1 (t @ snd ?x)"
    using macro_char_rel [OF assms(1,2) nm] by blast
  moreover have "state = 1 \<or> state = 2" if "fst ?x = 2" using that by (auto simp: expand_char_def split: if_splits)
  ultimately show ?thesis using g assms(3) by (auto simp del: split_paired_Ex)
qed

lemma macro_loop_rel:
  assumes "text_rel ob t" and "i \<le> length input" and "length input < CONFIG_SYS_CBSIZE"
    and "state = 2 \<Longrightarrow> vs \<le> i \<and> take (i - vs) (drop vs input) = nm"
  shows "\<exists>ob'. macro_loop getenv input i prev state vs ob = Some ob' \<and> text_rel ob' (t @ expand getenv prev state nm (drop i input))"
  using assms
proof (induction "length input - i" arbitrary: ob t i prev state vs nm rule: less_induct)
  case less
  note step = macro_step [where state = state and vs = vs and i = i and nm = nm and input = input, OF less.prems(1) _ less.prems(4) _ less.prems(3), simplified]
  note unfold = macro_loop.simps [of getenv input i prev state vs ob]
  consider (stop) "i = length input" | (full) "\<not> out_room ob" | (last) "out_room ob" "Suc i = length input" "state \<noteq> 3 \<and> input ! i = CHR 0x5C \<and> prev \<noteq> CHR 0x5C"
    | (two) "out_room ob" "Suc i < length input" "state \<noteq> 3 \<and> input ! i = CHR 0x5C \<and> prev \<noteq> CHR 0x5C"
    | (one) "out_room ob" "i < length input" "\<not> (state \<noteq> 3 \<and> input ! i = CHR 0x5C \<and> prev \<noteq> CHR 0x5C)"
    using less.prems(2) by linarith
  then show ?case
  proof cases
    case stop
    then show ?thesis using less.prems(1) unfold by (auto simp del: split_paired_Ex)
  next
    case full
    then show ?thesis using text_rel_full [OF less.prems(1)] unfold by (auto simp del: split_paired_Ex)
  next
    case last
    then have "drop i input = [input ! i]" by (simp add: Cons_nth_drop_Suc [symmetric])
    then show ?thesis using last less.prems(1) unfold by (auto simp del: split_paired_Ex)
  next
    case two
    let ?c = "input ! i" and ?d = "input ! Suc i"
    have dr: "drop i input = ?c # ?d # drop (i + 2) input" using two(2) by (simp add: Cons_nth_drop_Suc)
    let ?x = "expand_char getenv ?c ?d state (nm @ [?c])"
    obtain vs' ob' where o: "macro_char getenv input (i + 2) ?c ?d state vs ob = Some (fst ?x, vs', ob')" "text_rel ob' (t @ snd ?x)"
        "fst ?x = 2 \<longrightarrow> vs' \<le> i + 2 \<and> take (i + 2 - vs') (drop vs' input) = (if state = 2 then nm @ [?c, ?d] else [])"
      using step [where getenv = getenv and n = 2 and raw = "[?c]" and c = ?d and prev = ?c] two dr by (auto simp del: split_paired_Ex)
    let ?nm = "if fst ?x = 2 \<and> state = 2 then nm @ [?c, ?d] else []"
    have "\<exists>ob2. macro_loop getenv input (i + 2) ?d (fst ?x) vs' ob' = Some ob2 \<and>
        text_rel ob2 ((t @ snd ?x) @ expand getenv ?d (fst ?x) ?nm (drop (i + 2) input))"
      by (rule less.hyps) (use two(2) o(2,3) less.prems(3) in auto)
    moreover have "expand getenv prev state nm (drop i input) = snd ?x @ expand getenv ?d (fst ?x) ?nm (drop (i + 2) input)"
      unfolding dr using two(3) by (intro expand_two) auto
    ultimately show ?thesis using two o(1) unfold by (auto simp: Let_def simp del: split_paired_Ex)
  next
    case one
    let ?c = "input ! i"
    have dr: "drop i input = ?c # drop (i + 1) input" using one(2) by (simp add: Cons_nth_drop_Suc)
    let ?x = "expand_char getenv prev ?c state nm"
    obtain vs' ob' where o: "macro_char getenv input (i + 1) prev ?c state vs ob = Some (fst ?x, vs', ob')" "text_rel ob' (t @ snd ?x)"
        "fst ?x = 2 \<longrightarrow> vs' \<le> i + 1 \<and> take (i + 1 - vs') (drop vs' input) = (if state = 2 then nm @ [?c] else [])"
      using step [where getenv = getenv and n = 1 and raw = "[]" and c = ?c and prev = prev] one dr by (auto simp del: split_paired_Ex)
    let ?nm = "if fst ?x = 2 \<and> state = 2 then nm @ [?c] else []"
    have "\<exists>ob2. macro_loop getenv input (i + 1) ?c (fst ?x) vs' ob' = Some ob2 \<and>
        text_rel ob2 ((t @ snd ?x) @ expand getenv ?c (fst ?x) ?nm (drop (i + 1) input))"
      by (rule less.hyps) (use one(2) o(2,3) less.prems(3) in auto)
    moreover have "expand getenv prev state nm (drop i input) = snd ?x @ expand getenv ?c (fst ?x) ?nm (drop (i + 1) input)"
      unfolding dr using one(3) by (intro expand_one) auto
    ultimately show ?thesis using one o(1) unfold by (auto simp: Let_def simp del: split_paired_Ex)
  qed
qed

lemma process_macros_text:
  assumes "length input < CONFIG_SYS_CBSIZE" and "length out = CONFIG_SYS_CBSIZE" and "NUL \<notin> set (expand_macros getenv input)"
  shows "\<exists>out'. process_macros getenv input out = Some out' \<and> length out' = CONFIG_SYS_CBSIZE \<and>
    cstr out' 0 (take (CONFIG_SYS_CBSIZE - 1) (expand_macros getenv input))"
proof -
  let ?t = "expand_macros getenv input"
  have "text_rel (out, 0, CONFIG_SYS_CBSIZE) []" using assms(2) by (simp add: text_rel_def)
  then obtain m p n where r: "macro_loop getenv input 0 NUL 0 0 (out, 0, CONFIG_SYS_CBSIZE) = Some (m, p, n)" "text_rel (m, p, n) ?t"
    using macro_loop_rel [of "(out, 0, CONFIG_SYS_CBSIZE)" "[]" 0 input 0 0 "[]" getenv NUL] assms(1) by (auto simp: expand_macros_def)
  have m: "length m = CONFIG_SYS_CBSIZE" "p = min CONFIG_SYS_CBSIZE (length ?t)" "n = CONFIG_SYS_CBSIZE - p" "take p m = take CONFIG_SYS_CBSIZE ?t"
    using r(2) by (auto simp: text_rel_def)
  have c: "0 < CONFIG_SYS_CBSIZE" by (simp add: CONFIG_SYS_CBSIZE_def)
  define q where "q = (if n \<noteq> 0 then p else p - 1)"
  have q: "q = min (length ?t) (CONFIG_SYS_CBSIZE - 1)" "q < length m" "q \<le> p" using m c by (auto simp: q_def)
  have "process_macros getenv input out = wr m q NUL" using r(1) by (simp add: process_macros_def q_def)
  then have "process_macros getenv input out = Some (m[q := NUL])" using q(2) by (simp add: wr_def)
  moreover have "cstr (m[q := NUL]) 0 (take (CONFIG_SYS_CBSIZE - 1) ?t)"
  proof -
    have "m ! i = ?t ! i" if "i < q" for i
    proof -
      have "take p m ! i = take CONFIG_SYS_CBSIZE ?t ! i" using m(4) by simp
      then show ?thesis using that q m(2) by (metis less_le_trans min.strict_boundedE nth_take)
    qed
    then show ?thesis using q(1,2) assms(3) by (auto simp: cstr_iff dest: in_set_takeD)
  qed
  ultimately show ?thesis using m(1) by simp
qed

text \<open>A text without quotes, backslashes and dollar signs stands for itself, and a variable in brackets for its value.\<close>

definition plain_text :: "string \<Rightarrow> bool" where
  "plain_text s \<longleftrightarrow> list_all (\<lambda>c. c \<noteq> CHR 0x27 \<and> c \<noteq> CHR 0x5C \<and> c \<noteq> CHR ''$'') s"

lemma expand_plain: "plain_text a \<Longrightarrow> prev \<noteq> CHR 0x5C \<Longrightarrow> \<exists>prev'. prev' \<noteq> CHR 0x5C \<and> expand getenv prev 0 nm (a @ s) = a @ expand getenv prev' 0 (if a = [] then nm else []) s"
proof (induction a arbitrary: prev nm)
  case (Cons c a)
  have c: "c \<noteq> CHR 0x27" "c \<noteq> CHR 0x5C" "c \<noteq> CHR ''$''" "plain_text a" using Cons.prems(1) by (simp_all add: plain_text_def)
  then show ?case using Cons.IH [OF c(4,2), of "[]"] expand_one [of 0 c prev "(0, [c])" getenv nm "a @ s"] by (auto simp: expand_char_def)
qed auto

lemma expand_name:
  "list_all (\<lambda>c. c \<noteq> CHR '')'' \<and> c \<noteq> CHR ''}'' \<and> c \<noteq> CHR 0x5C) n \<Longrightarrow> prev \<noteq> CHR 0x5C \<Longrightarrow> e = CHR '')'' \<or> e = CHR ''}'' \<Longrightarrow>
   expand getenv prev 2 nm (n @ e # s) = (case getenv (nm @ n) of None \<Rightarrow> [] | Some v \<Rightarrow> v) @ expand getenv e 0 [] s"
proof (induction n arbitrary: prev nm)
  case Nil
  then show ?case using expand_one [of 2 e prev "expand_char getenv prev e 2 nm" getenv nm s] by (auto simp: expand_char_def)
next
  case (Cons c n)
  then have "c \<noteq> CHR 0x5C" "expand_char getenv prev c 2 nm = (2, [])" by (auto simp: expand_char_def)
  then show ?case using Cons expand_one [of 2 c prev "expand_char getenv prev c 2 nm" getenv nm "n @ e # s"] by simp
qed

lemma expand_irrelevant: "prev \<noteq> CHR 0x5C \<Longrightarrow> prev' \<noteq> CHR 0x5C \<Longrightarrow> expand getenv prev 0 nm s = expand getenv prev' 0 nm' s"
proof (cases s)
  case (Cons c t)
  assume p: "prev \<noteq> CHR 0x5C" "prev' \<noteq> CHR 0x5C"
  have "expand_char getenv prev c 0 nm = expand_char getenv prev' c 0 nm'" using p by (simp add: expand_char_def)
  moreover have "expand_char getenv c d 0 (nm @ [c]) = expand_char getenv c d 0 (nm' @ [c])" for d by (simp add: expand_char_def)
  ultimately show ?thesis using p Cons by (cases t) (auto simp: split_beta)
qed simp

lemma expand_macros_laws:
  assumes "plain_text a"
  shows "expand_macros getenv a = a"
    and "list_all (\<lambda>c. c \<noteq> CHR '')'' \<and> c \<noteq> CHR ''}'' \<and> c \<noteq> CHR 0x5C) n \<Longrightarrow>
      expand_macros getenv (a @ ''${'' @ n @ ''}'' @ s) = a @ (case getenv n of None \<Rightarrow> [] | Some v \<Rightarrow> v) @ expand_macros getenv s"
proof -
  show "expand_macros getenv a = a" using expand_plain [OF assms, of NUL getenv "[]" "[]"] by (auto simp: expand_macros_def)
  assume n: "list_all (\<lambda>c. c \<noteq> CHR '')'' \<and> c \<noteq> CHR ''}'' \<and> c \<noteq> CHR 0x5C) n"
  obtain p where p: "p \<noteq> CHR 0x5C" "expand_macros getenv (a @ ''${'' @ n @ ''}'' @ s) = a @ expand getenv p 0 [] (''${'' @ n @ ''}'' @ s)"
    using expand_plain [OF assms, of NUL getenv "[]" "''${'' @ n @ ''}'' @ s"] by (auto simp: expand_macros_def)
  have "expand getenv p 0 [] (''${'' @ n @ ''}'' @ s) = expand getenv CHR ''{'' 2 [] (n @ CHR ''}'' # s)"
    using p(1) expand_one [of 1 "CHR ''{''" "CHR ''$''" "(2, [])" getenv "[]" "n @ CHR ''}'' # s"] by (simp add: expand_char_def)
  also have "\<dots> = (case getenv n of None \<Rightarrow> [] | Some v \<Rightarrow> v) @ expand_macros getenv s"
    using expand_name [OF n, of "CHR ''{''" "CHR ''}''" getenv "[]" s] expand_irrelevant [of "CHR ''}''" NUL getenv "[]" s "[]"] by (simp add: expand_macros_def)
  finally show "expand_macros getenv (a @ ''${'' @ n @ ''}'' @ s) = a @ (case getenv n of None \<Rightarrow> [] | Some v \<Rightarrow> v) @ expand_macros getenv s"
    using p(2) by simp
qed

section \<open>Running a line\<close>

text \<open>The commands of a line without quotes and backslashes: a semicolon ends a command, unless the command would be empty.\<close>

function commands :: "string \<Rightarrow> string list" where
  "commands [] = []"
| "commands (c # s) = (c # takeWhile (\<lambda>x. x \<noteq> CHR '';'') s) # commands (drop 1 (dropWhile (\<lambda>x. x \<noteq> CHR '';'') s))"
  by pat_completeness auto
termination
proof (relation "measure length")
  fix c :: char and s :: string
  have "length (drop 1 (dropWhile (\<lambda>x. x \<noteq> CHR '';'') s)) \<le> length s" using length_dropWhile_le [of "\<lambda>x. x \<noteq> CHR '';''" s] by simp
  then show "(drop 1 (dropWhile (\<lambda>x. x \<noteq> CHR '';'') s), c # s) \<in> measure length" by simp
qed simp

text \<open>The arguments of a command: the words of its expansion.\<close>

definition cmd_args :: "'s shell \<Rightarrow> 's \<Rightarrow> string \<Rightarrow> string list" where
  "cmd_args sh st tok = take CONFIG_SYS_MAXARGS (blank_words (take (CONFIG_SYS_CBSIZE - 1) (expand_macros (sh_getenv sh st) tok)))"

fun run_seq :: "'s shell \<Rightarrow> int \<Rightarrow> string list \<Rightarrow> int \<times> int \<times> 's \<Rightarrow> int \<times> 's" where
  "run_seq sh flags [] (rc, rep, st) = (if rc \<noteq> 0 then rc else rep, st)"
| "run_seq sh flags (tok # toks) (rc, rep, st) =
     (if cmd_args sh st tok = [] then run_seq sh flags toks (- 1, rep, st)
      else let (r, rep', st') = cmd_process (sh_call sh) (sh_bootd sh) (sh_table sh) flags (cmd_args sh st tok) rep st
           in if sh_had_ctrlc sh st' then (- 1, st') else run_seq sh flags toks (if r \<noteq> 0 then - 1 else rc, rep', st'))"

definition env_clean :: "'s shell \<Rightarrow> bool" where
  "env_clean sh \<longleftrightarrow> (\<forall>st n v. sh_getenv sh st n = Some v \<longrightarrow> NUL \<notin> set v)"

lemma expand_no_NUL:
  "env_clean sh \<Longrightarrow> NUL \<notin> set s \<Longrightarrow> NUL \<notin> set (expand (sh_getenv sh st) prev state nm s)"
proof (induction "length s" arbitrary: prev state nm s rule: less_induct)
  case less
  let ?g = "sh_getenv sh st"
  have x: "NUL \<notin> set (snd (expand_char ?g p x q m))" if "x \<noteq> NUL" for p x q m
    using that less.prems(1) by (auto simp: expand_char_def env_clean_def split: option.splits)
  show ?case
  proof (cases s)
    case (Cons c t)
    show ?thesis
    proof (cases "state \<noteq> 3 \<and> c = CHR 0x5C \<and> prev \<noteq> CHR 0x5C")
      case True
      then show ?thesis using Cons less.prems x less.hyps expand_two [of state c prev _ ?g _ nm, OF _ _ _ refl] by (cases t) auto
    next
      case False
      then show ?thesis using Cons less.prems x less.hyps expand_one [OF False refl, of ?g nm t] by auto
    qed
  qed simp
qed

lemma run_token_seq:
  assumes "env_clean sh" and "NUL \<notin> set tok" and "length tok < CONFIG_SYS_CBSIZE" and "length ft = CONFIG_SYS_CBSIZE"
  shows "\<exists>ft'. length ft' = CONFIG_SYS_CBSIZE \<and> run_token sh flags tok ft (rc, rep, st) =
    (if cmd_args sh st tok = [] then Some (ft', False, - 1, rep, st)
     else let (r, rep', st') = cmd_process (sh_call sh) (sh_bootd sh) (sh_table sh) flags (cmd_args sh st tok) rep st
          in Some (ft', sh_had_ctrlc sh st', if r \<noteq> 0 then - 1 else rc, rep', st'))"
proof -
  have "NUL \<notin> set (expand_macros (sh_getenv sh st) tok)" unfolding expand_macros_def by (rule expand_no_NUL [OF assms(1,2)])
  then obtain ft1 where f1: "process_macros (sh_getenv sh st) tok ft = Some ft1" "length ft1 = CONFIG_SYS_CBSIZE"
      "cstr ft1 0 (take (CONFIG_SYS_CBSIZE - 1) (expand_macros (sh_getenv sh st) tok))"
    using process_macros_text [OF assms(3,4)] by blast
  obtain ft2 argv e where f2: "parse_line ft1 0 = Some (ft2, argv, e)" "list_all2 (cstr ft2) argv (cmd_args sh st tok)" "length ft2 = length ft1"
    using arg_loop_words [OF f1(3), of CONFIG_SYS_MAXARGS] by (auto simp: parse_line_def cmd_args_def only_cut_def)
  show ?thesis
    by (rule exI [of _ ft2]) (use f1 f2 getstrs_cstr [OF f2(2)] in \<open>auto simp: run_token_def Let_def split_beta\<close>)
qed

lemma find_sep_behind:
  assumes "cstr m sep s" and "list_all (\<lambda>c. c \<noteq> CHR 0x27 \<and> c \<noteq> CHR 0x5C) s" and "str < sep" and "m ! (sep - 1) \<noteq> CHR 0x5C"
  shows "find_sep m str sep False = Some (sep + length (takeWhile (\<lambda>c. c \<noteq> CHR '';'') s))"
  using assms
proof (induction s arbitrary: sep)
  case Nil
  then show ?case by (simp add: find_sep.simps [of m str sep])
next
  case (Cons c s)
  have "sep - 1 < length m" using Cons.prems(1) by auto
  then have "find_sep m str sep False = (if c = CHR '';'' then Some sep else find_sep m str (sep + 1) False)"
    using Cons.prems unfolding find_sep.simps [of m str sep] by (auto simp: Let_def before_sep_def rd_def)
  moreover have "find_sep m str (Suc sep) False = Some (Suc sep + length (takeWhile (\<lambda>c. c \<noteq> CHR '';'') s))"
    using Cons.prems by (intro Cons.IH) auto
  ultimately show ?case by simp
qed

lemma find_sep_plain:
  assumes "cstr m str (c # s)" and "list_all (\<lambda>c. c \<noteq> CHR 0x27 \<and> c \<noteq> CHR 0x5C) (c # s)"
  shows "find_sep m str str False = Some (Suc (str + length (takeWhile (\<lambda>c. c \<noteq> CHR '';'') s)))"
proof -
  have "find_sep m str str False = find_sep m str (Suc str) False"
    using assms unfolding find_sep.simps [of m str str] by (auto simp: Let_def)
  then show ?thesis using find_sep_behind [of m "Suc str" s str] assms by auto
qed

text \<open>One command of the line.\<close>

lemma cut_command:
  assumes "cstr m str (c # s)" and "list_all (\<lambda>c. c \<noteq> CHR 0x27 \<and> c \<noteq> CHR 0x5C) (c # s)"
  obtains sep m' where "find_sep m str str False = Some sep" and "m' = m[sep := NUL]"
    and "getstr m' str = Some (c # takeWhile (\<lambda>c. c \<noteq> CHR '';'') s)"
    and "cstr m' (if m ! sep = NUL then sep else sep + 1) (drop 1 (dropWhile (\<lambda>c. c \<noteq> CHR '';'') s))"
proof -
  define t where "t = takeWhile (\<lambda>c. c \<noteq> CHR '';'') s"
  define r where "r = dropWhile (\<lambda>c. c \<noteq> CHR '';'') s"
  let ?sep = "str + length (c # t)"
  have f: "find_sep m str str False = Some ?sep" using find_sep_plain [OF assms] by (simp add: t_def)
  have s: "cstr m str ((c # t) @ r)" using assms(1) by (simp add: t_def r_def)
  have cr: "cstr m ?sep r" using cstr_append_drop [OF s] .
  show ?thesis
  proof (cases r)
    case Nil
    then have z: "m ! ?sep = NUL" using cr by simp
    then have "m[?sep := NUL] = m" by (metis list_update_id)
    then show ?thesis using that [OF f refl] getstr_cstr [OF s] cr z Nil unfolding t_def [symmetric] r_def [symmetric] by simp
  next
    case (Cons d u)
    from cstr_cut [OF s [unfolded Cons]] have "cstr (m[?sep := NUL]) str (c # t)" "cstr (m[?sep := NUL]) (Suc ?sep) u" by simp_all
    moreover have "m ! ?sep \<noteq> NUL" using cr Cons by auto
    ultimately show ?thesis using that [OF f refl] getstr_cstr Cons unfolding t_def [symmetric] r_def [symmetric] by simp
  qed
qed

lemma run_loop_seq:
  assumes "cstr m str s" and "list_all (\<lambda>c. c \<noteq> CHR 0x27 \<and> c \<noteq> CHR 0x5C) s" and "length s < CONFIG_SYS_CBSIZE" and "length ft = CONFIG_SYS_CBSIZE"
    and "env_clean sh"
  shows "run_loop sh flags m str ft q = Some (run_seq sh flags (commands s) q)"
  using assms(1-4)
proof (induction s arbitrary: m str ft q rule: commands.induct)
  case 1
  obtain rc rep st where q: "q = (rc, rep, st)" by (cases q)
  have "rd m str = Some NUL" using rd_cstr [OF "1.prems"(1)] by simp
  then show ?case by (subst run_loop.simps) (simp add: q)
next
  case (2 c s)
  obtain rc rep st where q: "q = (rc, rep, st)" by (cases q)
  define t where "t = c # takeWhile (\<lambda>c. c \<noteq> CHR '';'') s"
  define r where "r = drop 1 (dropWhile (\<lambda>c. c \<noteq> CHR '';'') s)"
  obtain sep m' where cut: "find_sep m str str False = Some sep" "m' = m[sep := NUL]" "getstr m' str = Some t"
      "cstr m' (if m ! sep = NUL then sep else sep + 1) r"
    using cut_command [OF 2(2,3)] unfolding t_def r_def by blast
  have c: "rd m str = Some c" "c \<noteq> NUL" using 2(2) by (auto simp: rd_def)
  have "set t \<subseteq> set (c # s)" "length t \<le> length (c # s)" unfolding t_def by (auto dest: set_takeWhileD simp: length_takeWhile_le)
  then have "NUL \<notin> set t" "length t < CONFIG_SYS_CBSIZE" using cstr_no_NUL [OF 2(2)] 2(4) by auto
  then obtain ft' where rt: "length ft' = CONFIG_SYS_CBSIZE" "run_token sh flags t ft (rc, rep, st) =
    (if cmd_args sh st t = [] then Some (ft', False, - 1, rep, st)
     else let (r, rep', st') = cmd_process (sh_call sh) (sh_bootd sh) (sh_table sh) flags (cmd_args sh st t) rep st
          in Some (ft', sh_had_ctrlc sh st', if r \<noteq> 0 then - 1 else rc, rep', st'))"
    using run_token_seq [OF assms(5) _ _ 2(5)] by blast
  have sub: "set r \<subseteq> set s" "length r \<le> length s"
    using length_dropWhile_le [of "\<lambda>c. c \<noteq> CHR '';''" s] unfolding r_def by (auto dest!: in_set_dropD set_dropWhileD)
  have "list_all (\<lambda>c. c \<noteq> CHR 0x27 \<and> c \<noteq> CHR 0x5C) r" using sub(1) 2(3) by (auto simp: list_all_iff)
  moreover have "length r < CONFIG_SYS_CBSIZE" using sub(2) 2(4) by simp
  ultimately have IH: "run_loop sh flags m' (if m ! sep = NUL then sep else sep + 1) ft' q' = Some (run_seq sh flags (commands r) q')" for q'
    using 2(1) [folded r_def, OF cut(4) _ _ rt(1)] by blast
  obtain r1 rep1 st1 where p: "cmd_process (sh_call sh) (sh_bootd sh) (sh_table sh) flags (cmd_args sh st t) rep st = (r1, rep1, st1)"
    by (cases "cmd_process (sh_call sh) (sh_bootd sh) (sh_table sh) flags (cmd_args sh st t) rep st")
  have "run_loop sh flags m str ft q =
      (case run_token sh flags t ft (rc, rep, st) of None \<Rightarrow> None
       | Some (ft, stop, rc, rep, st) \<Rightarrow> if stop then Some (- 1, st) else run_loop sh flags m' (if m ! sep = NUL then sep else sep + 1) ft (rc, rep, st))"
    using cut(3) c unfolding q cut(2) by (subst run_loop.simps) (simp add: cut(1) split: option.split)
  also have "\<dots> = Some (run_seq sh flags (t # commands r) (rc, rep, st))"
    unfolding rt(2) p run_seq.simps using IH by (cases "cmd_args sh st t = []") simp_all
  finally show ?case by (simp only: q commands.simps flip: t_def r_def)
qed

section \<open>Properties\<close>

lemma builtin_run_seq:
  assumes "env_clean sh" and "cmd \<noteq> []" and "length cmd < CONFIG_SYS_CBSIZE" and "list_all (\<lambda>c. c \<noteq> CHR 0x27 \<and> c \<noteq> CHR 0x5C \<and> c \<noteq> NUL) cmd"
    and "length cmdbuf = CONFIG_SYS_CBSIZE" and "length finaltoken = CONFIG_SYS_CBSIZE"
  shows "builtin_run_command sh cmdbuf finaltoken (Some cmd) flags st = Some (run_seq sh flags (commands cmd) (0, 1, sh_clear_ctrlc sh st))"
proof -
  have "NUL \<notin> set cmd" using assms(4) by (auto simp: list_all_iff)
  then have "cstr (cmd @ [NUL]) 0 cmd" by (simp add: cstr_iff nth_append)
  then obtain d where d: "strcpy_obj cmdbuf (cmd @ [NUL]) = Some d" "cstr d 0 cmd" using strcpy_obj_cstr assms(3,5) by metis
  moreover have "list_all (\<lambda>c. c \<noteq> CHR 0x27 \<and> c \<noteq> CHR 0x5C) cmd" using assms(4) by (simp add: list_all_iff)
  ultimately show ?thesis using run_loop_seq [OF d(2) _ assms(3,6,1)] assms(2,3) by (simp add: builtin_run_command_def Let_def)
qed


definition shell0 :: "string list shell" where
  "shell0 = \<lparr>sh_call = (\<lambda>f c flags argv st. (if argv ! 0 = ''crc32'' then 1 else 0, st @ argv)), sh_bootd = 0, sh_table = cmds0,
     sh_getenv = (\<lambda>st n. if n = ''a'' then Some ''80'' else None), sh_clear_ctrlc = (\<lambda>st. st), sh_had_ctrlc = (\<lambda>st. False)\<rparr>"

lemma env_clean_shell0: "env_clean shell0"
  by (auto simp: env_clean_def shell0_def split: if_splits)

lemma shell0_args:
  "cmd_args shell0 st ''cmp ${a}'' = [''cmp'', ''80'']" "cmd_args shell0 st ''pri x'' = [''pri'', ''x'']"
  by (simp_all add: shell0_def cmd_args_def expand_macros_def expand_char_def CONFIG_SYS_CBSIZE_def CONFIG_SYS_MAXARGS_def blank_words.simps isblank_def)

lemma shell0_process:
  "cmd_process (sh_call shell0) (sh_bootd shell0) (sh_table shell0) 0 [''cmp'', ''80''] 1 st = (0, 1, st @ [''cmp'', ''80''])"
  "cmd_process (sh_call shell0) (sh_bootd shell0) (sh_table shell0) 0 [''pri'', ''x''] 1 st = (0, 1, st @ [''pri'', ''x''])"
proof -
  have "find_cmd_tbl (Some ''cmp'') cmds0 = Some (cmds0 ! 2)" "find_cmd_tbl (Some ''pri'') cmds0 = Some (cmds0 ! 4)"
    using find_cmd_named [OF names_ok_cmds0, of "''cmp''"] find_cmd_named [OF names_ok_cmds0, of "''pri''"]
    by (simp_all add: named_cmd_def cmd_word_def cmds0_def)
  then show "cmd_process (sh_call shell0) (sh_bootd shell0) (sh_table shell0) 0 [''cmp'', ''80''] 1 st = (0, 1, st @ [''cmp'', ''80''])"
    "cmd_process (sh_call shell0) (sh_bootd shell0) (sh_table shell0) 0 [''pri'', ''x''] 1 st = (0, 1, st @ [''pri'', ''x''])"
    by (simp_all add: shell0_def cmd_process_def argv0_def cmd_check_def cmd_call_def CMD_RET_SUCCESS_def CMD_RET_USAGE_def) (simp_all add: cmds0_def)
qed

lemma shell0_state: "sh_clear_ctrlc shell0 st = st" "\<not> sh_had_ctrlc shell0 st"
  by (simp_all add: shell0_def)


text \<open>The result of a list of commands is the wrong way round: for a last line without a newline \<open>builtin_run_command_list\<close> returns 1 when the command
  succeeds and 0 when it fails, and so does \<open>run_command_list\<close>, which is to return 0 on success.\<close>

lemma run_command_list_inverted:
  assumes "cstr m 0 s" and "s \<noteq> []" and "CHR 0x0A \<notin> set s" and "builtin_run_command sh cmdbuf finaltoken (Some s) 0 st = Some (rc, st')"
  shows "run_command_list sh cmdbuf finaltoken alloc m None flags st = Some (if rc \<ge> 0 then 1 else 0, st')"
proof -
  have l: "list_loop sh cmdbuf finaltoken m 0 i st = Some (0, m, 0, st)" if "cstr m i t" "CHR 0x0A \<notin> set t" for i t
    using that by (induction t arbitrary: i) (auto simp: list_loop.simps [of sh cmdbuf finaltoken m 0] rd_def)
  have "take (length s) m = s" using cstr_slice [OF assms(1), of "length s"] by (simp add: slice_def)
  moreover have "length s \<le> length m" using cstr_bound [OF assms(1)] by simp
  ultimately show ?thesis using l [OF assms(1,3)] assms getstr_cstr [OF assms(1)]
    by (auto simp: run_command_list_def builtin_run_command_list_def strlen_cstr Let_def)
qed

text \<open>A quote at the start of a command makes the parser read the byte before its buffer.\<close>

lemma leading_quote_underruns:
  assumes "length (CHR 0x27 # cmd) < CONFIG_SYS_CBSIZE" and "NUL \<notin> set cmd" and "length cmdbuf = CONFIG_SYS_CBSIZE"
  shows "builtin_run_command sh cmdbuf finaltoken (Some (CHR 0x27 # cmd)) flags st = None"
proof -
  have "cstr ((CHR 0x27 # cmd) @ [NUL]) 0 (CHR 0x27 # cmd)" using assms(2) by (subst cstr_iff) (auto simp: nth_append nth_Cons split: nat.splits)
  then obtain d where d: "strcpy_obj cmdbuf ((CHR 0x27 # cmd) @ [NUL]) = Some d" "cstr d 0 (CHR 0x27 # cmd)" using strcpy_obj_cstr assms(1,3) by metis
  then have "find_sep d 0 0 False = None" by (subst find_sep.simps) (auto simp: before_sep_def)
  then show ?thesis using assms(1) d by (auto simp: builtin_run_command_def Let_def run_loop.simps [of sh flags d 0] rd_def)
qed

end
