(* ===== verification/Atags.thy ===== *)
theory Atags
  imports Command
begin

text \<open>
  The list of tags by which a kernel gets its parameters (\<^verbatim>\<open>arch/arm/lib/bootm.c\<close>, \<^verbatim>\<open>arch/arm/include/asm/setup.h\<close>). The variable \<open>params\<close>, the
  place of the next tag, is passed on. The lemmas follow the code by a notion of writer: a piece of code that appends given
  tags at \<open>params\<close> and leaves all other memory as it was. Writers compose, and the kernel finds what they wrote.
\<close>

section \<open>Writing tags\<close>

definition ATAG_NONE :: u32 where "ATAG_NONE = 0x00000000"

definition ATAG_CORE :: u32 where "ATAG_CORE = 0x54410001"

definition ATAG_MEM :: u32 where "ATAG_MEM = 0x54410002"

definition ATAG_INITRD2 :: u32 where "ATAG_INITRD2 = 0x54420005"

definition ATAG_SERIAL :: u32 where "ATAG_SERIAL = 0x54410006"

definition ATAG_REVISION :: u32 where "ATAG_REVISION = 0x54410007"

definition ATAG_CMDLINE :: u32 where "ATAG_CMDLINE = 0x54410009"

definition tag_next :: "mem \<Rightarrow> ptr \<Rightarrow> ptr option" where
  "tag_next m t = do { sz \<leftarrow> ld32 m t; Some (t + 4 * unat sz) }"

fun put_words :: "mem \<Rightarrow> ptr \<Rightarrow> u32 list \<Rightarrow> mem option" where
  "put_words m p [] = Some m"
| "put_words m p (w # ws) = do { m \<leftarrow> st32 m p w; put_words m (p + 4) ws }"

text \<open>A tag whose data are words: the code, the size \<open>tag_size\<close>, the data, and the step to the next tag.\<close>

definition put_tag :: "u32 \<Rightarrow> u32 list \<Rightarrow> mem \<Rightarrow> ptr \<Rightarrow> (mem \<times> ptr) option" where
  "put_tag tag ws m params =
     do { m \<leftarrow> st32 m (params + 4) tag;
          m \<leftarrow> st32 m params (word_of_nat ((8 + 4 * length ws) div 4));
          m \<leftarrow> put_words m (params + 8) ws;
          params \<leftarrow> tag_next m params;
          Some (m, params) }"

definition setup_start_tag :: "mem \<Rightarrow> ptr \<Rightarrow> (mem \<times> ptr) option" where
  "setup_start_tag m bi_boot_params = put_tag ATAG_CORE [0, push_bit 12 1, 0] m bi_boot_params"

fun setup_memory_tags :: "(u32 \<times> u32) list \<Rightarrow> mem \<Rightarrow> ptr \<Rightarrow> (mem \<times> ptr) option" where
  "setup_memory_tags [] m params = Some (m, params)"
| "setup_memory_tags ((start, sz) # bi_dram) m params =
     do { (m, params) \<leftarrow> put_tag ATAG_MEM [sz, start] m params; setup_memory_tags bi_dram m params }"

definition setup_commandline_tag :: "string option \<Rightarrow> mem \<Rightarrow> ptr \<Rightarrow> (mem \<times> ptr) option" where
  "setup_commandline_tag commandline m params =
     (case commandline of
        None \<Rightarrow> Some (m, params)
      | Some s \<Rightarrow>
          let p = dropWhile (\<lambda>c. c = CHR '' '') s
          in if p = [] then Some (m, params)
             else do { m \<leftarrow> st32 m (params + 4) ATAG_CMDLINE;
                       m \<leftarrow> st32 m params (word_of_nat ((8 + length p + 1 + 4) div 4));
                       m \<leftarrow> put_chars m (params + 8) (p @ [NUL]);
                       params \<leftarrow> tag_next m params;
                       Some (m, params) })"

definition setup_initrd_tag :: "u32 \<Rightarrow> u32 \<Rightarrow> mem \<Rightarrow> ptr \<Rightarrow> (mem \<times> ptr) option" where
  "setup_initrd_tag initrd_start initrd_end = put_tag ATAG_INITRD2 [initrd_start, initrd_end - initrd_start]"

definition setup_serial_tag :: "u32 \<times> u32 \<Rightarrow> mem \<Rightarrow> ptr \<Rightarrow> (mem \<times> ptr) option" where
  "setup_serial_tag serialnr = (case serialnr of (low, high) \<Rightarrow> put_tag ATAG_SERIAL [low, high])"

definition setup_revision_tag :: "u32 \<Rightarrow> mem \<Rightarrow> ptr \<Rightarrow> (mem \<times> ptr) option" where
  "setup_revision_tag board_rev = put_tag ATAG_REVISION [board_rev]"

definition setup_end_tag :: "mem \<Rightarrow> ptr \<Rightarrow> mem option" where
  "setup_end_tag m params = do { m \<leftarrow> st32 m (params + 4) ATAG_NONE; st32 m params 0 }"

text \<open>Which tags are configured; the serial number and the revision are those that the board gives. Then the whole list, as \<open>boot_prep_linux\<close> writes it.\<close>

record tag_config =
  tc_serial :: "(u32 \<times> u32) option"
  tc_cmdline :: bool
  tc_revision :: "u32 option"
  tc_memory :: bool
  tc_initrd :: bool

definition setup_tags :: "tag_config \<Rightarrow> (u32 \<times> u32) list \<Rightarrow> string option \<Rightarrow> u32 \<Rightarrow> u32 \<Rightarrow> mem \<Rightarrow> ptr \<Rightarrow> mem option" where
  "setup_tags tc bi_dram commandline rd_start rd_end m bi_boot_params =
     do { (m, params) \<leftarrow> setup_start_tag m bi_boot_params;
          (m, params) \<leftarrow> (case tc_serial tc of None \<Rightarrow> Some (m, params) | Some nr \<Rightarrow> setup_serial_tag nr m params);
          (m, params) \<leftarrow> (if tc_cmdline tc then setup_commandline_tag commandline m params else Some (m, params));
          (m, params) \<leftarrow> (case tc_revision tc of None \<Rightarrow> Some (m, params) | Some board_rev \<Rightarrow> setup_revision_tag board_rev m params);
          (m, params) \<leftarrow> (if tc_memory tc then setup_memory_tags bi_dram m params else Some (m, params));
          (m, params) \<leftarrow> (if tc_initrd tc \<and> rd_start \<noteq> 0 \<and> rd_end \<noteq> 0 then setup_initrd_tag rd_start rd_end m params else Some (m, params));
          setup_end_tag m params }"

section \<open>What a store leaves as it was\<close>

definition kept :: "mem \<Rightarrow> ptr \<Rightarrow> nat \<Rightarrow> mem \<Rightarrow> bool" where
  "kept m p k m' \<longleftrightarrow> length m' = length m \<and> (\<forall>a n. a + n \<le> p \<or> p + k \<le> a \<longrightarrow> slice m' a n = slice m a n)"

lemma kept_refl: "kept m p k m"
  by (simp add: kept_def)

lemma kept_store: "p + length bs \<le> length m \<Longrightarrow> kept m p (length bs) (store m p bs)"
  by (simp add: kept_def slice_store_apart)

lemma kept_trans: "kept m p k m1 \<Longrightarrow> kept m1 q l m2 \<Longrightarrow> r \<le> p \<Longrightarrow> p + k \<le> r + n \<Longrightarrow> r \<le> q \<Longrightarrow> q + l \<le> r + n \<Longrightarrow> kept m r n m2"
  unfolding kept_def by (smt (verit) add_leD1 le_trans)

lemma kept_more: "kept m p k m' \<Longrightarrow> k \<le> l \<Longrightarrow> kept m p l m'"
  by (simp add: kept_def)

lemma kept_slice: "kept m p k m' \<Longrightarrow> a + n \<le> p \<or> p + k \<le> a \<Longrightarrow> slice m' a n = slice m a n"
  by (auto simp: kept_def)

lemma kept_ld32: "kept m p k m' \<Longrightarrow> a + 4 \<le> length m \<Longrightarrow> a + 4 \<le> p \<or> p + k \<le> a \<Longrightarrow> ld32 m' a = ld32 m a"
  by (auto simp: kept_def ld32_slice)

lemma kept_length: "kept m p k m' \<Longrightarrow> length m' = length m"
  by (simp add: kept_def)

lemma kept_nth: "kept m p k m' \<Longrightarrow> i < length m \<Longrightarrow> i < p \<or> p + k \<le> i \<Longrightarrow> m' ! i = m ! i"
  using slice_Suc [of i m 0] slice_Suc [of i m' 0] unfolding kept_def by (metis One_nat_def Suc_eq_plus1 Suc_leI list.inject)

lemma kept_cstr: "kept m p k m' \<Longrightarrow> cstr m a s \<Longrightarrow> a + length s < p \<or> p + k \<le> a \<Longrightarrow> cstr m' a s"
  using kept_nth [of m p k m'] kept_length [of m p k m'] by (auto simp: cstr_iff)

lemma st32_kept:
  assumes "p + 4 \<le> length m"
  obtains m' where "st32 m p w = Some m'" "ld32 m' p = Some w" "kept m p 4 m'"
proof -
  obtain bs where bs: "st32 m p w = Some (store m p bs)" "length bs = 4" using st32_store [OF assms] by simp
  then show ?thesis using that [of "store m p bs"] ld32_st32 [OF assms bs(1)] kept_store [of p bs m] assms by simp
qed

section \<open>Reading tags\<close>

text \<open>A tag as the kernel sees it, its length in words, and the list from an address on: every tag gives the way to the next.\<close>

datatype atag = Words u32 "u32 list" | Cmdline string

primrec tag_words :: "atag \<Rightarrow> nat" where
  "tag_words (Words c ws) = 2 + length ws"
| "tag_words (Cmdline s) = (length s + 13) div 4"

primrec tag_at :: "mem \<Rightarrow> ptr \<Rightarrow> atag \<Rightarrow> bool" where
  "tag_at m p (Words c ws) \<longleftrightarrow> ld32 m (p + 4) = Some c \<and> (\<forall>i < length ws. ld32 m (p + 8 + 4 * i) = Some (ws ! i))"
| "tag_at m p (Cmdline s) \<longleftrightarrow> ld32 m (p + 4) = Some ATAG_CMDLINE \<and> cstr m (p + 8) s"

definition tags_len :: "atag list \<Rightarrow> nat" where
  "tags_len ts = (\<Sum>t\<leftarrow>ts. 4 * tag_words t)"

fun tag_seg :: "mem \<Rightarrow> ptr \<Rightarrow> atag list \<Rightarrow> bool" where
  "tag_seg m p [] \<longleftrightarrow> True"
| "tag_seg m p (t # ts) \<longleftrightarrow>
     (\<exists>w. ld32 m p = Some w \<and> w \<noteq> 0 \<and> unat w = tag_words t \<and> tag_at m p t \<and> tag_seg m (p + 4 * unat w) ts)"

definition tag_list :: "mem \<Rightarrow> ptr \<Rightarrow> atag list \<Rightarrow> bool" where
  "tag_list m p ts \<longleftrightarrow>
     tag_seg m p ts \<and> ld32 m (p + tags_len ts) = Some 0 \<and> ld32 m (p + tags_len ts + 4) = Some ATAG_NONE"

lemma tags_len_simps [simp]:
  "tags_len [] = 0" "tags_len (t # ts) = 4 * tag_words t + tags_len ts" "tags_len (ts @ us) = tags_len ts + tags_len us"
  by (simp_all add: tags_len_def)

lemma tag_words_pos: "2 \<le> tag_words t" "length s + 9 \<le> 4 * tag_words (Cmdline s)"
proof -
  have "3 \<le> (length s + 13) div 4" for s :: string by (simp add: div_le_mono [of 12 _ 4, simplified])
  then show "2 \<le> tag_words t" by (cases t) (auto intro: order_trans [of 2 3])
  show "length s + 9 \<le> 4 * tag_words (Cmdline s)" by simp
qed

lemma tag_seg_append: "tag_seg m p (ts @ us) \<longleftrightarrow> tag_seg m p ts \<and> tag_seg m (p + tags_len ts) us"
  by (induction ts arbitrary: p) (auto simp: add.assoc)

lemma tag_at_kept:
  assumes "kept m q k m'" and "p + 4 * tag_words t \<le> q" and "q \<le> length m" and "tag_at m p t"
  shows "tag_at m' p t"
proof (cases t)
  case (Words c ws)
  then show ?thesis using assms kept_ld32 [OF assms(1)] by auto
next
  case (Cmdline s)
  then show ?thesis using assms kept_ld32 [OF assms(1), of "p + 4"] kept_cstr [OF assms(1), of "p + 8" s] tag_words_pos(2) [of s] by auto
qed

lemma tag_seg_kept:
  assumes "kept m q k m'" and "p + tags_len ts \<le> q" and "q \<le> length m" and "tag_seg m p ts"
  shows "tag_seg m' p ts"
  using assms(2,4)
proof (induction ts arbitrary: p)
  case (Cons t ts)
  have "ld32 m' p = ld32 m p" using kept_ld32 [OF assms(1), of p] Cons.prems(1) assms(3) tag_words_pos(1) [of t] by auto
  then show ?case using Cons tag_at_kept [OF assms(1) _ assms(3), of p t] by auto
qed simp
section \<open>Writers\<close>

text \<open>
  The contract of the routines that append tags: where there is room they end behind the tags, the tags can be read there, and nothing else
  has changed.
\<close>

locale tag_writer =
  fixes emit :: "mem \<Rightarrow> ptr \<Rightarrow> (mem \<times> ptr) option" and ts :: "atag list"
  assumes writes: "p + tags_len ts \<le> length m \<Longrightarrow>
    \<exists>m'. emit m p = Some (m', p + tags_len ts) \<and> tag_seg m' p ts \<and> kept m p (tags_len ts) m'"
begin

lemma then_writer:
  assumes "tag_writer emit' us"
  shows "tag_writer (\<lambda>m p. emit m p \<bind> (\<lambda>(m, p). emit' m p)) (ts @ us)"
proof
  fix m :: mem and p
  assume room: "p + tags_len (ts @ us) \<le> length m"
  then obtain m1 where 1: "emit m p = Some (m1, p + tags_len ts)" "tag_seg m1 p ts" "kept m p (tags_len ts) m1" using writes [of p m] by auto
  then obtain m2 where 2: "emit' m1 (p + tags_len ts) = Some (m2, p + tags_len ts + tags_len us)" "tag_seg m2 (p + tags_len ts) us"
      "kept m1 (p + tags_len ts) (tags_len us) m2"
    using tag_writer.writes [OF assms, of "p + tags_len ts" m1] room kept_length [OF 1(3)] by (auto simp: add.assoc)
  have "tag_seg m2 p ts" by (rule tag_seg_kept [OF 2(3) _ _ 1(2)]) (use room kept_length [OF 1(3)] in auto)
  moreover have "kept m p (tags_len (ts @ us)) m2" by (rule kept_trans [OF 1(3) 2(3)]) simp_all
  ultimately show "\<exists>m'. (emit m p \<bind> (\<lambda>(m, p). emit' m p)) = Some (m', p + tags_len (ts @ us)) \<and> tag_seg m' p (ts @ us) \<and>
      kept m p (tags_len (ts @ us)) m'"
    using 1(1) 2(1,2) by (auto simp: tag_seg_append add.assoc)
qed

lemma list_written:
  assumes room: "p + tags_len ts + 8 \<le> length m"
  obtains m' where "(emit m p \<bind> (\<lambda>(m, p). setup_end_tag m p)) = Some m'" "tag_list m' p ts" "kept m p (tags_len ts + 8) m'"
proof -
  let ?q = "p + tags_len ts"
  obtain m1 where 1: "emit m p = Some (m1, ?q)" "tag_seg m1 p ts" "kept m p (tags_len ts) m1" using writes [of p m] room by auto
  obtain m2 where 2: "st32 m1 (?q + 4) ATAG_NONE = Some m2" "ld32 m2 (?q + 4) = Some ATAG_NONE" "kept m1 (?q + 4) 4 m2"
    using st32_kept [of "?q + 4" m1 ATAG_NONE] room kept_length [OF 1(3)] by auto
  obtain m3 where 3: "st32 m2 ?q 0 = Some m3" "ld32 m3 ?q = Some 0" "kept m2 ?q 4 m3"
    using st32_kept [of ?q m2 0] room kept_length [OF 1(3)] kept_length [OF 2(3)] by auto
  have k: "kept m1 ?q 8 m3" by (rule kept_trans [OF 2(3) 3(3)]) simp_all
  have "tag_seg m3 p ts" by (rule tag_seg_kept [OF k _ _ 1(2)]) (use room kept_length [OF 1(3)] in auto)
  moreover have "ld32 m3 (?q + 4) = Some ATAG_NONE"
    using 2(2) kept_ld32 [OF 3(3), of "?q + 4"] room kept_length [OF 1(3)] kept_length [OF 2(3)] by simp
  moreover have "kept m p (tags_len ts + 8) m3" by (rule kept_trans [OF 1(3) k]) simp_all
  ultimately show ?thesis using that [of m3] 1(1) 2(1) 3(1,2) by (simp add: tag_list_def setup_end_tag_def)
qed

end

lemma put_words_written:
  "p + 4 * length ws \<le> length m \<Longrightarrow>
   \<exists>m'. put_words m p ws = Some m' \<and> (\<forall>i < length ws. ld32 m' (p + 4 * i) = Some (ws ! i)) \<and> kept m p (4 * length ws) m'"
proof (induction ws arbitrary: m p)
  case Nil
  then show ?case by (simp add: kept_refl)
next
  case (Cons w ws)
  obtain m1 where 1: "st32 m p w = Some m1" "ld32 m1 p = Some w" "kept m p 4 m1" using st32_kept [of p m w] Cons.prems by auto
  obtain m2 where 2: "put_words m1 (p + 4) ws = Some m2" "\<forall>i < length ws. ld32 m2 (p + 4 + 4 * i) = Some (ws ! i)" "kept m1 (p + 4) (4 * length ws) m2"
    using Cons.IH [of "p + 4" m1] Cons.prems kept_length [OF 1(3)] by auto
  have "ld32 m2 p = Some w" using 1(2) kept_ld32 [OF 2(3), of p] Cons.prems kept_length [OF 1(3)] by simp
  then have "\<forall>i < length (w # ws). ld32 m2 (p + 4 * i) = Some ((w # ws) ! i)" using 2(2) by (auto simp: nth_Cons add.assoc split: nat.splits)
  moreover have "kept m p (4 * length (w # ws)) m2" by (rule kept_trans [OF 1(3) 2(3)]) simp_all
  ultimately show ?case using 1(1) 2(1) by auto
qed

text \<open>The code and the size of a tag, which both kinds of tags begin with.\<close>

lemma header_written:
  assumes "p + 8 \<le> length m"
  obtains m1 m2 where "st32 m (p + 4) c = Some m1" "st32 m1 p n = Some m2" "ld32 m2 (p + 4) = Some c" "ld32 m2 p = Some n" "kept m p 8 m2"
proof -
  obtain m1 where 1: "st32 m (p + 4) c = Some m1" "ld32 m1 (p + 4) = Some c" "kept m (p + 4) 4 m1"
    using st32_kept [of "p + 4" m c] assms by auto
  obtain m2 where 2: "st32 m1 p n = Some m2" "ld32 m2 p = Some n" "kept m1 p 4 m2"
    using st32_kept [of p m1 n] assms kept_length [OF 1(3)] by auto
  have "kept m p 8 m2" by (rule kept_trans [OF 1(3) 2(3)]) simp_all
  moreover have "ld32 m2 (p + 4) = Some c" using 1(2) kept_ld32 [OF 2(3), of "p + 4"] assms kept_length [OF 1(3)] by simp
  ultimately show ?thesis using that 1(1) 2(1,2) by blast
qed

lemma size_word: "n < 2 ^ 32 \<Longrightarrow> unat (word_of_nat n :: u32) = n"
  by (simp add: unat_of_nat take_bit_nat_eq_self)

lemma put_tag_writer:
  assumes "length ws < 2 ^ 16"
  shows "tag_writer (put_tag c ws) [Words c ws]"
proof
  fix m :: mem and p
  assume room: "p + tags_len [Words c ws] \<le> length m"
  let ?n = "word_of_nat ((8 + 4 * length ws) div 4) :: u32"
  have n: "unat ?n = 2 + length ws" using assms size_word [of "2 + length ws"] by simp
  then have n0: "?n \<noteq> 0" by force
  obtain m1 m2 where h: "st32 m (p + 4) c = Some m1" "st32 m1 p ?n = Some m2" "ld32 m2 (p + 4) = Some c" "ld32 m2 p = Some ?n" "kept m p 8 m2"
    by (rule header_written [of p m c ?n]) (use room in auto)
  obtain m3 where 3: "put_words m2 (p + 8) ws = Some m3" "\<forall>i < length ws. ld32 m3 (p + 8 + 4 * i) = Some (ws ! i)" "kept m2 (p + 8) (4 * length ws) m3"
    using put_words_written [of "p + 8" ws m2] room kept_length [OF h(5)] by auto
  have l: "ld32 m3 (p + 4) = Some c" "ld32 m3 p = Some ?n"
    using h(3,4) kept_ld32 [OF 3(3), of "p + 4"] kept_ld32 [OF 3(3), of p] room kept_length [OF h(5)] by auto
  have "kept m p (tags_len [Words c ws]) m3" by (rule kept_trans [OF h(5) 3(3)]) simp_all
  moreover have "put_tag c ws m p = Some (m3, p + tags_len [Words c ws])"
    using h(1,2) 3(1) l(2) n by (simp add: put_tag_def tag_next_def)
  ultimately show "\<exists>m'. put_tag c ws m p = Some (m', p + tags_len [Words c ws]) \<and> tag_seg m' p [Words c ws] \<and> kept m p (tags_len [Words c ws]) m'"
    using 3(2) l n n0 by auto
qed

text \<open>The command line without its leading blanks; an empty one gives no tag.\<close>

definition cmdline_tags :: "string option \<Rightarrow> atag list" where
  "cmdline_tags c =
     (case c of None \<Rightarrow> [] | Some s \<Rightarrow> let p = dropWhile (\<lambda>c. c = CHR '' '') s in if p = [] then [] else [Cmdline p])"

lemma skip_writer: "tag_writer (\<lambda>m p. Some (m, p)) []"
  by unfold_locales (simp add: kept_refl)

lemma commandline_writer:
  assumes "\<forall>s. c = Some s \<longrightarrow> NUL \<notin> set s \<and> length s < 2 ^ 16"
  shows "tag_writer (setup_commandline_tag c) (cmdline_tags c)"
proof (cases "cmdline_tags c")
  case Nil
  then have "setup_commandline_tag c = (\<lambda>m p. Some (m, p))"
    by (auto simp: setup_commandline_tag_def cmdline_tags_def fun_eq_iff Let_def split: option.splits if_splits)
  then show ?thesis using Nil skip_writer by simp
next
  case (Cons t us)
  then obtain s where c: "c = Some s" by (auto simp: cmdline_tags_def split: option.splits)
  define d where "d = dropWhile (\<lambda>c. c = CHR '' '') s"
  have d: "d \<noteq> []" "cmdline_tags c = [Cmdline d]" using Cons c by (auto simp: cmdline_tags_def d_def Let_def split: if_splits)
  have nul: "NUL \<notin> set d" using assms c by (auto simp: d_def dest: set_dropWhileD)
  have "length d \<le> length s" by (simp add: d_def length_dropWhile_le)
  then have ld: "length d < 2 ^ 16" using assms c by auto
  show ?thesis
  proof
    fix m :: mem and p
    assume room: "p + tags_len (cmdline_tags c) \<le> length m"
    let ?n = "word_of_nat ((8 + length d + 1 + 4) div 4) :: u32"
    have n: "unat ?n = tag_words (Cmdline d)" using ld size_word [of "(13 + length d) div 4"] by (simp add: add.commute)
    then have n0: "?n \<noteq> 0" using tag_words_pos(1) [of "Cmdline d"] by force
    have r: "p + length d + 9 \<le> length m" using room d(2) tag_words_pos(2) [of d] by auto
    obtain m1 m2 where h: "st32 m (p + 4) ATAG_CMDLINE = Some m1" "st32 m1 p ?n = Some m2" "ld32 m2 (p + 4) = Some ATAG_CMDLINE"
        "ld32 m2 p = Some ?n" "kept m p 8 m2"
      by (rule header_written [of p m ATAG_CMDLINE ?n]) (use r in auto)
    let ?m = "store m2 (p + 8) (d @ [NUL])"
    have k: "kept m2 (p + 8) (length (d @ [NUL])) ?m" by (rule kept_store) (use r kept_length [OF h(5)] in simp)
    have l: "ld32 ?m (p + 4) = Some ATAG_CMDLINE" "ld32 ?m p = Some ?n"
      using h(3,4) kept_ld32 [OF k, of "p + 4"] kept_ld32 [OF k, of p] r kept_length [OF h(5)] by auto
    have "kept m p (length d + 9) ?m" by (rule kept_trans [OF h(5) k]) simp_all
    then have "kept m p (tags_len (cmdline_tags c)) ?m" using kept_more tag_words_pos(2) [of d] unfolding d(2) by simp
    moreover have "cstr ?m (p + 8) d" by (rule cstr_store [OF nul]) (use r kept_length [OF h(5)] in simp)
    moreover have "put_chars m2 (p + 8) (d @ [NUL]) = Some ?m" by (rule put_chars_store) (use r kept_length [OF h(5)] in simp)
    then have "setup_commandline_tag c m p = Some (?m, p + tags_len (cmdline_tags c))"
      using h(1,2) l(2) n d c by (simp add: setup_commandline_tag_def tag_next_def flip: d_def)
    ultimately show "\<exists>m'. setup_commandline_tag c m p = Some (m', p + tags_len (cmdline_tags c)) \<and> tag_seg m' p (cmdline_tags c) \<and>
        kept m p (tags_len (cmdline_tags c)) m'"
      using l n n0 d(2) by auto
  qed
qed

interpretation core_tag: tag_writer setup_start_tag "[Words ATAG_CORE [0, 0x1000, 0]]"
  using put_tag_writer [of "[0, 0x1000, 0]" ATAG_CORE] by (simp add: setup_start_tag_def [abs_def])

interpretation serial_tag: tag_writer "setup_serial_tag (low, high)" "[Words ATAG_SERIAL [low, high]]" for low high
  using put_tag_writer [of "[low, high]" ATAG_SERIAL] by (simp add: setup_serial_tag_def)

interpretation revision_tag: tag_writer "setup_revision_tag r" "[Words ATAG_REVISION [r]]" for r
  using put_tag_writer [of "[r]" ATAG_REVISION] by (simp add: setup_revision_tag_def)

interpretation initrd_tag: tag_writer "setup_initrd_tag a b" "[Words ATAG_INITRD2 [a, b - a]]" for a b
  using put_tag_writer [of "[a, b - a]" ATAG_INITRD2] by (simp add: setup_initrd_tag_def)

interpretation memory_tags: tag_writer "setup_memory_tags banks" "map (\<lambda>(start, sz). Words ATAG_MEM [sz, start]) banks" for banks
proof (induction banks)
  case Nil
  then show ?case using skip_writer by (simp add: setup_memory_tags.simps [abs_def])
next
  case (Cons b banks)
  obtain start sz where b: "b = (start, sz)" by (cases b)
  have "tag_writer (\<lambda>m p. put_tag ATAG_MEM [sz, start] m p \<bind> (\<lambda>(m, p). setup_memory_tags banks m p))
      ([Words ATAG_MEM [sz, start]] @ map (\<lambda>(start, sz). Words ATAG_MEM [sz, start]) banks)"
    by (rule tag_writer.then_writer [OF put_tag_writer Cons]) simp
  then show ?case by (simp add: b setup_memory_tags.simps [abs_def])
qed

text \<open>The tags of a boot.\<close>

definition boot_tags :: "tag_config \<Rightarrow> (u32 \<times> u32) list \<Rightarrow> string option \<Rightarrow> u32 \<Rightarrow> u32 \<Rightarrow> atag list" where
  "boot_tags tc bi_dram commandline rd_start rd_end =
     [Words ATAG_CORE [0, 0x1000, 0]] @
     ((case tc_serial tc of None \<Rightarrow> [] | Some (low, high) \<Rightarrow> [Words ATAG_SERIAL [low, high]]) @
     ((if tc_cmdline tc then cmdline_tags commandline else []) @
     ((case tc_revision tc of None \<Rightarrow> [] | Some r \<Rightarrow> [Words ATAG_REVISION [r]]) @
     ((if tc_memory tc then map (\<lambda>(start, sz). Words ATAG_MEM [sz, start]) bi_dram else []) @
      (if tc_initrd tc \<and> rd_start \<noteq> 0 \<and> rd_end \<noteq> 0 then [Words ATAG_INITRD2 [rd_start, rd_end - rd_start]] else [])))))"

lemma optional_writers:
  "tag_writer (\<lambda>m p. case s of None \<Rightarrow> Some (m, p) | Some nr \<Rightarrow> setup_serial_tag nr m p)
     (case s of None \<Rightarrow> [] | Some (low, high) \<Rightarrow> [Words ATAG_SERIAL [low, high]])"
  "tag_writer (\<lambda>m p. case r of None \<Rightarrow> Some (m, p) | Some nr \<Rightarrow> setup_revision_tag nr m p) (case r of None \<Rightarrow> [] | Some r \<Rightarrow> [Words ATAG_REVISION [r]])"
  using skip_writer serial_tag.tag_writer_axioms revision_tag.tag_writer_axioms by (auto split: option.splits)

lemma if_writer: "tag_writer f ts \<Longrightarrow> tag_writer (\<lambda>m p. if b then f m p else Some (m, p)) (if b then ts else [])"
  using skip_writer by simp

lemma setup_tags_list:
  assumes c: "\<forall>s. commandline = Some s \<longrightarrow> NUL \<notin> set s \<and> length s < 2 ^ 16"
    and room: "p + tags_len (boot_tags tc banks commandline a b) + 8 \<le> length m"
  obtains m' where "setup_tags tc banks commandline a b m p = Some m'" "tag_list m' p (boot_tags tc banks commandline a b)"
    "kept m p (tags_len (boot_tags tc banks commandline a b) + 8) m'"
proof -
  note ws = core_tag.then_writer [OF tag_writer.then_writer [OF optional_writers(1) [of "tc_serial tc"]
    tag_writer.then_writer [OF if_writer [OF commandline_writer [OF c], of "tc_cmdline tc"]
    tag_writer.then_writer [OF optional_writers(2) [of "tc_revision tc"]
    tag_writer.then_writer [OF if_writer [OF memory_tags.tag_writer_axioms, of "tc_memory tc" banks]
      if_writer [OF initrd_tag.tag_writer_axioms, of "tc_initrd tc \<and> a \<noteq> 0 \<and> b \<noteq> 0" a b]]]]]]
  obtain m' where m': "tag_list m' p (boot_tags tc banks commandline a b)" "kept m p (tags_len (boot_tags tc banks commandline a b) + 8) m'"
    and e: "setup_tags tc banks commandline a b m p = Some m'"
  proof (rule tag_writer.list_written [OF ws [folded boot_tags_def] room])
    fix m'
    assume e: "(setup_start_tag m p \<bind> (\<lambda>(m, p). (case tc_serial tc of None \<Rightarrow> Some (m, p) | Some nr \<Rightarrow> setup_serial_tag nr m p) \<bind>
      (\<lambda>(m, p). (if tc_cmdline tc then setup_commandline_tag commandline m p else Some (m, p)) \<bind>
      (\<lambda>(m, p). (case tc_revision tc of None \<Rightarrow> Some (m, p) | Some nr \<Rightarrow> setup_revision_tag nr m p) \<bind>
      (\<lambda>(m, p). (if tc_memory tc then setup_memory_tags banks m p else Some (m, p)) \<bind>
      (\<lambda>(m, p). if tc_initrd tc \<and> a \<noteq> 0 \<and> b \<noteq> 0 then setup_initrd_tag a b m p else Some (m, p)))))) \<bind> (\<lambda>(m, p). setup_end_tag m p)) = Some m'"
      and "tag_list m' p (boot_tags tc banks commandline a b)" "kept m p (tags_len (boot_tags tc banks commandline a b) + 8) m'"
    moreover have "setup_tags tc banks commandline a b m p = Some m'" using e by (simp only: setup_tags_def Option.bind_assoc case_prod_beta')
    ultimately show thesis using that by blast
  qed
  then show ?thesis using that by blast
qed

end
