(* ===== verification/Bootbk.thy ===== *)
theory Bootbk
  imports Image Atags
begin

text \<open>
  The command of the board that starts a kernel (\<open>do_bootbk\<close> in \<^verbatim>\<open>board/broadcom/bcm95302x/kingpin.c\<close>): it checks an image in memory with a header and a checksum,
  writes the list of tags by which the kernel gets its command line, and jumps to the image. The parameter \<open>vsn\<close> says whether \<open>CONFIG_SYS_VSNPRINTF\<close> is
  configured. Without it, as on this board, \<open>snprintf\<close> is the macro of \<^verbatim>\<open>include/vsprintf.h\<close> that ignores the size, and a text that does not fit into
  its buffer is \<open>None\<close>; with it the text is cut. The result is the value returned, or the jump with the registers of the kernel: a kernel that returns, after which the
  code would run the text of the go command, is not modelled.
\<close>

section \<open>The command\<close>

definition LOADER_MAGIC :: u32 where "LOADER_MAGIC = 0x4d495053"

definition atags_addr :: ptr where "atags_addr = 0x100"

text \<open>Fields of \<open>struct meraki_image_header\<close>, by their offsets.\<close>

definition mh_size :: nat where "mh_size = 8"

definition mh_crc :: nat where "mh_crc = 16"

definition meraki_header_size :: nat where "meraki_header_size = 32"

definition snprintf_buf :: "bool \<Rightarrow> nat \<Rightarrow> string \<Rightarrow> va_arg list \<Rightarrow> string option" where
  "snprintf_buf vsn n fmt args =
     do { (t, len, _) \<leftarrow> sprintf fmt args;
          if vsn then Some (take (n - 1) (take len t)) else if length t \<le> n then Some (take len t) else None }"

datatype bk_result = Returned int mem | Kernel u32 u32 u32 u32 mem

definition bk_start :: "bool \<Rightarrow> u32 \<Rightarrow> u32 \<Rightarrow> string \<Rightarrow> mem \<Rightarrow> bk_result option" where
  "bk_start vsn machid addr part m =
     do { bootcmd \<leftarrow> snprintf_buf vsn 10 ''go %x'' [VInt addr];
          (m, params) \<leftarrow> setup_start_tag m atags_addr;
          cmdline \<leftarrow> snprintf_buf vsn 128 ''loader=u-boot part=%s'' [VStr (Some part)];
          (m, params) \<leftarrow> setup_commandline_tag (Some cmdline) m params;
          m \<leftarrow> setup_end_tag m params;
          Some (Kernel addr 0 machid (word_of_nat atags_addr) m) }"

definition do_bootbk :: "bool \<Rightarrow> u32 \<Rightarrow> string list \<Rightarrow> mem \<Rightarrow> bk_result option" where
  "do_bootbk vsn machid argv m =
     (if length argv \<noteq> 3 then Some (Returned CMD_RET_USAGE m)
      else do { let addr = fst (simple_strtoul (argv ! 1) 16);
                magic \<leftarrow> ld32 m (unat addr);
                if magic \<noteq> LOADER_MAGIC then Some (Returned CMD_RET_FAILURE m)
                else do { hdr_crc \<leftarrow> ld32 m (unat addr + mh_crc);
                          m \<leftarrow> st32 m (unat addr + mh_crc) 0;
                          sz \<leftarrow> ld32 m (unat addr + mh_size);
                          let length = sz + word_of_nat meraki_header_size;
                          calc_crc \<leftarrow> crc32_wd 0 m (unat addr) (unat length) CHUNKSZ_CRC32;
                          if calc_crc \<noteq> hdr_crc then Some (Returned CMD_RET_FAILURE m)
                          else bk_start vsn machid (addr + word_of_nat meraki_header_size) (argv ! 2) m } })"

section \<open>The texts\<close>

lemma rdigits_length: "2 \<le> b \<Longrightarrow> 0 < k \<Longrightarrow> length (rdigits ch b n) \<le> k \<longleftrightarrow> n < b ^ k"
proof (induction k arbitrary: n)
  case (Suc k)
  show ?case
  proof (cases "n < b")
    case True
    have "b ^ 1 \<le> b ^ Suc k" using Suc.prems by (intro power_increasing) auto
    then have "n < b ^ Suc k" using True order_less_le_trans by (metis power_one_right)
    then show ?thesis using True by (subst rdigits.simps) simp
  next
    case False
    have l: "length (rdigits ch b n) = Suc (length (rdigits ch b (n div b)))" using False Suc.prems by (subst rdigits.simps) simp
    show ?thesis
    proof (cases "k = 0")
      case True
      then show ?thesis using l False by (cases "rdigits ch b (n div b)") (auto simp: rdigits_not_Nil dest: arg_cong [of _ "[]" "\<lambda>x. x = []"])
    next
      case k: False
      have "n div b < b ^ k \<longleftrightarrow> n < b ^ k * b" using Suc.prems by (simp add: div_less_iff_less_mult)
      then show ?thesis using l Suc.IH [of "n div b"] Suc.prems k by (simp add: mult.commute)
    qed
  qed
qed simp

lemma go_text: "snprintf_buf vsn 10 ''go %x'' [VInt w] = None \<longleftrightarrow> \<not> vsn \<and> 16 ^ 6 \<le> unat w"
proof -
  let ?n = "number (ucast w) 16 (-1) (-1) SMALL"
  have s: "sprintf ''go %x'' [VInt w] = Some ((''go '' @ ?n) @ [NUL], length (''go '' @ ?n), [])"
    by (simp add: sprintf_def vsprintf_def directive_def flag_of_def fmt_width_def fmt_precision_def fmt_qualifier_def
      convert_def fmt_base_def fmt_number_def peek_def is_digit_def Let_def SIGN_def SMALL_def)
  have u: "unat (ucast w :: u64) = unat w"
    using unsigned_less [of w, where 'a = nat] by (simp add: unsigned_ucast_eq take_bit_nat_eq_self)
  have "length ?n \<le> 6 \<longleftrightarrow> unat w < 16 ^ 6"
  proof (cases "w = 0")
    case True
    then show ?thesis by (simp add: number_plain number_digits_def)
  next
    case False
    then have "(ucast w :: u64) \<noteq> 0" using u by (metis unsigned_0 unsigned_eq_0_iff)
    then have "length ?n = length (rdigits (\<lambda>d. digit_char d SMALL) 16 (unat w))"
      using shift_digits_rdigits [of 4 SMALL "ucast w"] u by (simp add: number_plain number_digits_def)
    then show ?thesis using rdigits_length [of 16 6] by simp
  qed
  then show ?thesis using s by (simp add: snprintf_buf_def)
qed

lemma part_text:
  "snprintf_buf vsn 128 ''loader=u-boot part=%s'' [VStr (Some part)] = (if vsn then Some (take 127 (''loader=u-boot part='' @ part)) else if length part \<le> 108 then Some (''loader=u-boot part='' @ part) else None)"
proof -
  have "sprintf ''loader=u-boot part=%s'' [VStr (Some part)] = Some ((''loader=u-boot part='' @ part) @ [NUL], length (''loader=u-boot part='' @ part), [])"
    by (simp add: sprintf_def vsprintf_def directive_def flag_of_def fmt_width_def fmt_precision_def fmt_qualifier_def
      convert_def peek_def is_digit_def Let_def string_out_def LEFT_def)
  then show ?thesis by (simp add: snprintf_buf_def)
qed

section \<open>The list of tags\<close>

abbreviation bk_tags :: "string \<Rightarrow> atag list" where
  "bk_tags part \<equiv> [Words ATAG_CORE [0, 0x1000, 0], Cmdline (''loader=u-boot part='' @ part)]"

lemma kernel_tags:
  assumes part: "NUL \<notin> set part" "length part \<le> 108" and m: "0x200 \<le> length m" and a: "vsn \<or> unat addr < 16 ^ 6"
  obtains m' where "bk_start vsn machid addr part m = Some (Kernel addr 0 machid 0x100 m')" "tag_list m' 0x100 (bk_tags part)" "kept m 0x100 0x100 m'"
proof -
  let ?s = "''loader=u-boot part='' @ part"
  have t: "cmdline_tags (Some ?s) = [Cmdline ?s]" by (simp add: cmdline_tags_def)
  have "tag_writer (setup_commandline_tag (Some ?s)) (cmdline_tags (Some ?s))" by (rule commandline_writer) (use part in auto)
  then have "tag_writer (setup_commandline_tag (Some ?s)) [Cmdline ?s]" unfolding t .
  note w = core_tag.then_writer [OF this, unfolded append_Cons [of _ "[]"] append_Nil [of "[_]"]]
  have "4 * ((length ?s + 13) div 4) \<le> length ?s + 13" by presburger
  then have len: "tags_len (bk_tags part) + 8 \<le> 0x100" using part(2) by simp
  obtain m' where m': "tag_list m' 0x100 (bk_tags part)" "kept m 0x100 (tags_len (bk_tags part) + 8) m'"
    "((setup_start_tag m 0x100 \<bind> (\<lambda>(m, p). setup_commandline_tag (Some ?s) m p)) \<bind> (\<lambda>(m, p). setup_end_tag m p)) = Some m'"
    by (rule tag_writer.list_written [OF w, of "0x100" m]) (use m len in auto)
  obtain t where "snprintf_buf vsn 10 ''go %x'' [VInt addr] = Some t" using go_text [of vsn addr] a by force
  moreover have "snprintf_buf vsn 128 ''loader=u-boot part=%s'' [VStr (Some part)] = Some ?s" using part(2) by (simp add: part_text)
  ultimately have "bk_start vsn machid addr part m = Some (Kernel addr 0 machid 0x100 m')"
    using m'(3) by (auto simp: bk_start_def atags_addr_def Option.bind_eq_Some_conv)
  then show ?thesis using that m'(1) kept_more [OF m'(2) len] by blast
qed

section \<open>The checksum\<close>

text \<open>The memory with the checksum of the header at \<open>a\<close> cleared, and an image that passes the checks.\<close>

definition bk_clear :: "mem \<Rightarrow> ptr \<Rightarrow> mem" where
  "bk_clear m a = store m (a + mh_crc) (replicate 4 NUL)"

definition bk_image :: "mem \<Rightarrow> ptr \<Rightarrow> u32 \<Rightarrow> bool" where
  "bk_image m a sz \<longleftrightarrow>
     length m < 2 ^ 32 \<and> a + 32 + unat sz \<le> length m \<and> ld32 m a = Some LOADER_MAGIC \<and> ld32 m (a + mh_size) = Some sz \<and>
     ld32 m (a + mh_crc) = Some (crc_val (slice (bk_clear m a) a (32 + unat sz)))"

lemma st32_clear: "a + 20 \<le> length m \<Longrightarrow> st32 m (a + mh_crc) 0 = Some (bk_clear m a)"
proof -
  have "char_byte 0 = NUL" by code_simp
  then show "a + 20 \<le> length m \<Longrightarrow> st32 m (a + mh_crc) 0 = Some (bk_clear m a)"
    by (simp add: st32_store bk_clear_def mh_crc_def numeral_eq_Suc)
qed

lemma kept_clear: "a + 20 \<le> length m \<Longrightarrow> kept m (a + mh_crc) 4 (bk_clear m a)"
  using kept_store [of "a + mh_crc" "replicate 4 NUL" m] by (simp add: bk_clear_def mh_crc_def)

lemma bootbk_checks:
  assumes argv: "length argv = 3" "fst (simple_strtoul (argv ! 1) 16) = addr" and m: "length m < 2 ^ 32" "unat addr + 32 + unat sz \<le> length m"
    and f: "ld32 m (unat addr) = Some magic" "ld32 m (unat addr + mh_size) = Some sz"
  shows "do_bootbk vsn machid argv m =
     (if magic \<noteq> LOADER_MAGIC then Some (Returned CMD_RET_FAILURE m)
      else if ld32 m (unat addr + mh_crc) \<noteq> Some (crc_val (slice (bk_clear m (unat addr)) (unat addr) (32 + unat sz)))
      then Some (Returned CMD_RET_FAILURE (bk_clear m (unat addr)))
      else bk_start vsn machid (addr + 32) (argv ! 2) (bk_clear m (unat addr)))"
proof -
  let ?a = "unat addr"
  let ?m = "bk_clear m ?a"
  have k: "kept m (?a + mh_crc) 4 ?m" using m(2) by (intro kept_clear) simp
  have l: "unat (sz + word_of_nat meraki_header_size) = 32 + unat sz"
    using m by (simp add: meraki_header_size_def unat_word_ariths)
  obtain c where c: "ld32 m (?a + mh_crc) = Some c" using ld32_Some [of "?a + mh_crc" m] m(2) by (auto simp: mh_crc_def)
  have "ld32 ?m (?a + mh_size) = Some sz" using f(2) kept_ld32 [OF k, of "?a + mh_size"] m(2) by (simp add: mh_crc_def mh_size_def)
  moreover have "crc32_wd 0 ?m ?a (32 + unat sz) CHUNKSZ_CRC32 = Some (crc_val (slice ?m ?a (32 + unat sz)))"
    using crc32_pieces [of ?a "32 + unat sz" ?m CHUNKSZ_CRC32 0] crc32_val [of ?a "32 + unat sz" ?m] m(2) kept_length [OF k]
    by (simp add: CHUNKSZ_CRC32_def)
  moreover have "st32 m (?a + mh_crc) 0 = Some ?m" using m(2) by (intro st32_clear) simp
  ultimately show ?thesis using argv f(1) c l by (auto simp: do_bootbk_def Let_def meraki_header_size_def)
qed

lemmas bootbk_valid = bootbk_checks [where magic = LOADER_MAGIC]

text \<open>C9. A checked image is started, in a configuration with \<open>CONFIG_SYS_VSNPRINTF\<close> (which this board does not have) at any address above the tags, and without it only if the
  entry address has at most six hexadecimal digits: for the higher addresses of this board the command overruns its buffer instead. When the image at the address
  has the magic number, its bytes fit the memory and its checksum is the CRC of header and data with the checksum field zero, and the name of the partition has at most 108 characters, \<open>bootbk\<close>
  jumps behind the header with r0 zero, the machine number in r1 and the address of the tags in r2; the tags there are a core tag and the command line with the name of
  the partition, then the end; and the data of the image are unchanged.\<close>

theorem bootbk_boots:
  assumes "length argv = 3" and "fst (simple_strtoul (argv ! 1) 16) = addr" and "bk_image m (unat addr) sz"
    and "0x200 \<le> unat addr" and "vsn \<or> unat (addr + 32) < 16 ^ 6" and "NUL \<notin> set (argv ! 2)" and "length (argv ! 2) \<le> 108"
  shows "\<exists>m'. do_bootbk vsn machid argv m = Some (Kernel (addr + 32) 0 machid 0x100 m') \<and>
    slice m' (unat addr + 32) (unat sz) = slice m (unat addr + 32) (unat sz) \<and>
    tag_list m' 0x100 (bk_tags (argv ! 2))"
proof -
  let ?m = "bk_clear m (unat addr)"
  have v: "length m < 2 ^ 32" "unat addr + 32 + unat sz \<le> length m" using assms(3) by (simp_all add: bk_image_def)
  have "do_bootbk vsn machid argv m = bk_start vsn machid (addr + 32) (argv ! 2) ?m"
    using bootbk_valid [OF assms(1,2) v] assms(3) by (simp add: bk_image_def)
  moreover have k: "kept m (unat addr + mh_crc) 4 ?m" using v(2) by (intro kept_clear) simp
  moreover obtain m' where "bk_start vsn machid (addr + 32) (argv ! 2) ?m = Some (Kernel (addr + 32) 0 machid 0x100 m')"
      "tag_list m' 0x100 (bk_tags (argv ! 2))" "kept ?m 0x100 0x100 m'"
    using kernel_tags [OF assms(6,7) _ assms(5), of ?m machid] kept_length [OF k] v(2) assms(4) by auto
  moreover have "slice m' (unat addr + 32) (unat sz) = slice ?m (unat addr + 32) (unat sz)"
    using calculation(5) assms(4) unfolding kept_def by simp
  moreover have "slice ?m (unat addr + 32) (unat sz) = slice m (unat addr + 32) (unat sz)" using k unfolding kept_def by (simp add: mh_crc_def)
  ultimately show ?thesis by metis
qed

section \<open>Damaged and misplaced images\<close>

lemma ld32_upd:
  assumes "p + 4 \<le> length m" and "i < length m" and "c \<noteq> m ! i"
  shows "ld32 (m[i := c]) p = ld32 m p \<longleftrightarrow> i < p \<or> p + 4 \<le> i"
proof -
  have "slice (m[i := c]) p 4 = slice m p 4 \<longleftrightarrow> i < p \<or> p + 4 \<le> i"
  proof (cases "p \<le> i \<and> i < p + 4")
    case True
    then have "slice m p 4 ! (i - p) = m ! i" "i - p < length (slice m p 4)" using assms by (auto simp: slice_def)
    then have "(slice m p 4)[i - p := c] \<noteq> slice m p 4" using assms(3) by (metis nth_list_update_eq)
    then show ?thesis using True by (simp add: slice_upd)
  qed (auto simp: slice_upd)
  then show ?thesis using assms(1) by (simp add: ld32_slice)
qed

lemma clear_upd:
  assumes "a + 20 \<le> length m"
  shows "bk_clear (m[i := c]) a = (if a + 16 \<le> i \<and> i < a + 20 then bk_clear m a else (bk_clear m a)[i := c])"
proof (rule nth_equalityI)
  show "length (bk_clear (m[i := c]) a) = length (if a + 16 \<le> i \<and> i < a + 20 then bk_clear m a else (bk_clear m a)[i := c])"
    using assms by (simp add: bk_clear_def mh_crc_def store_def)
  fix k assume "k < length (bk_clear (m[i := c]) a)"
  then have "k < length m" using assms by (simp add: bk_clear_def mh_crc_def store_def)
  then show "bk_clear (m[i := c]) a ! k = (if a + 16 \<le> i \<and> i < a + 20 then bk_clear m a else (bk_clear m a)[i := c]) ! k"
    using assms by (auto simp: bk_clear_def mh_crc_def nth_store nth_list_update)
qed

text \<open>C10. Damage is noticed: a change of one byte of an image that \<open>bootbk\<close> would start, anywhere in header or data but in the field of the size,
  makes it fail, and the kernel is not entered. (A changed size selects another range for the checksum, where nothing can be said.)\<close>

theorem bootbk_damage_refused:
  assumes "length argv = 3" and "fst (simple_strtoul (argv ! 1) 16) = addr" and v: "bk_image m (unat addr) sz"
    and i: "unat addr \<le> i" "i < unat addr + 32 + unat sz" "i < unat addr + 8 \<or> unat addr + 12 \<le> i" and c: "c \<noteq> m ! i"
  shows "\<exists>m'. do_bootbk vsn machid argv (m[i := c]) = Some (Returned CMD_RET_FAILURE m')"
proof -
  let ?a = "unat addr" and ?m = "m[i := c]"
  note b = v [unfolded bk_image_def]
  have l: "length ?m < 2 ^ 32" "?a + 32 + unat sz \<le> length ?m" and len: "i < length m" "?a + 20 \<le> length m" using b i(2) by auto
  have sz: "ld32 ?m (?a + mh_size) = Some sz"
    using b i(3) ld32_upd [of "?a + mh_size" m i c] len c by (auto simp: mh_size_def)
  obtain magic where magic: "ld32 ?m ?a = Some magic" using ld32_Some [of ?a ?m] l(2) by auto
  note checks = bootbk_checks [OF assms(1,2) l magic sz]
  consider "i < ?a + 4" | "?a + 16 \<le> i" "i < ?a + 20" | "?a + 4 \<le> i" "i < ?a + 16 \<or> ?a + 20 \<le> i" by linarith
  then show ?thesis
  proof cases
    case 1
    then have "magic \<noteq> LOADER_MAGIC" using magic b i(1) ld32_upd [of ?a m i c] len c by auto
    then show ?thesis using checks by simp
  next
    case 2
    have "ld32 ?m (?a + mh_crc) \<noteq> ld32 m (?a + mh_crc)" using 2 ld32_upd [of "?a + mh_crc" m i c] len c by (simp add: mh_crc_def)
    then show ?thesis using checks 2 b clear_upd [OF len(2), of i c] by simp
  next
    case 3
    let ?s = "slice (bk_clear m ?a) ?a (32 + unat sz)"
    have n: "length (bk_clear m ?a) = length m" using kept_length [OF kept_clear] len(2) by simp
    have "bk_clear m ?a ! i = m ! i" using kept_nth [OF kept_clear [OF len(2)] len(1)] 3 by (auto simp: mh_crc_def)
    then have "?s ! (i - ?a) = m ! i" using i n len(1) by (simp add: slice_def)
    then have "crc_val (?s[i - ?a := c]) \<noteq> crc_val ?s" using crc_val_upd [of "i - ?a" ?s c] i(1,2) n l(2) c by simp
    moreover have "slice (bk_clear ?m ?a) ?a (32 + unat sz) = ?s[i - ?a := c]" using 3 i(1,2) clear_upd [OF len(2), of i c] by (auto simp: slice_upd)
    moreover have "ld32 ?m (?a + mh_crc) = ld32 m (?a + mh_crc)" using 3 ld32_upd [of "?a + mh_crc" m i c] len c by (auto simp: mh_crc_def)
    ultimately show ?thesis using checks b by (auto simp: word_xor_cancel)
  qed
qed

text \<open>C40. The buffer for the command \<open>go <address>\<close> has ten bytes, and the macro \<open>snprintf\<close> of this configuration ignores that size: with a valid image
  whose entry has more than six hexadecimal digits, as every address of the memory of the board has, \<open>bootbk\<close> writes behind it.\<close>

theorem bootbk_overruns:
  assumes "length argv = 3" and "fst (simple_strtoul (argv ! 1) 16) = addr" and "bk_image m (unat addr) sz" and "16 ^ 6 \<le> unat (addr + 32)"
  shows "do_bootbk False machid argv m = None"
proof -
  have v: "length m < 2 ^ 32" "unat addr + 32 + unat sz \<le> length m" using assms(3) by (simp_all add: bk_image_def)
  have "do_bootbk False machid argv m = bk_start False machid (addr + 32) (argv ! 2) (bk_clear m (unat addr))"
    using bootbk_valid [OF assms(1,2) v] assms(3) by (simp add: bk_image_def)
  moreover have "snprintf_buf False 10 ''go %x'' [VInt (addr + 32)] = None" using assms(4) by (simp add: go_text)
  ultimately show ?thesis by (simp add: bk_start_def)
qed

text \<open>An image is valid wherever it lies; a small one.\<close>

lemma clear_placed: "20 \<le> length i \<Longrightarrow> bk_clear (pre @ i) (length pre) = pre @ bk_clear i 0"
  by (simp add: bk_clear_def mh_crc_def store_def)

lemma bk_image_placed:
  assumes "bk_image i 0 sz" and "length pre + length i < 2 ^ 32"
  shows "bk_image (pre @ i) (length pre) sz"
proof -
  note b = assms(1) [unfolded bk_image_def]
  have l: "ld32 (pre @ i) (length pre + p) = ld32 i p" if "p + 4 \<le> length i" for p
    using that slice_placed [of p 4 i pre "[]"] by (simp add: ld32_slice)
  have c: "length (bk_clear i 0) = length i" using b by (simp add: bk_clear_def mh_crc_def store_def)
  have "slice (pre @ bk_clear i 0) (length pre) (32 + unat sz) = slice (bk_clear i 0) 0 (32 + unat sz)"
    using slice_placed [of 0 "32 + unat sz" "bk_clear i 0" pre "[]"] b c by simp
  then show ?thesis using b assms(2) l [of 0] l [of mh_size] l [of mh_crc] clear_placed [of i pre]
    by (simp add: bk_image_def mh_size_def mh_crc_def)
qed

definition bk_seal :: "mem \<Rightarrow> mem" where
  "bk_seal i = (case st32 i mh_crc (crc_val (bk_clear i 0)) of None \<Rightarrow> i | Some i' \<Rightarrow> i')"

lemma bk_seal_image:
  assumes "length i < 2 ^ 32" and "32 + unat sz = length i" and "ld32 i 0 = Some LOADER_MAGIC" and "ld32 i mh_size = Some sz"
  shows "bk_image (bk_seal i) 0 sz" and "kept i mh_crc 4 (bk_seal i)"
proof -
  have "mh_crc + 4 \<le> length i" using assms(2) by (simp add: mh_crc_def)
  then obtain i' where i': "st32 i mh_crc (crc_val (bk_clear i 0)) = Some i'" "ld32 i' mh_crc = Some (crc_val (bk_clear i 0))" "kept i mh_crc 4 i'"
    by (rule st32_kept)
  have l: "length i' = length i" using i'(3) by (simp add: kept_def)
  have "slice i' 0 16 = slice i 0 16" "slice i' 20 (length i) = slice i 20 (length i)"
    using i'(3) unfolding kept_def by (simp_all add: mh_crc_def)
  then have "take 16 i' = take 16 i" "drop 20 i' = drop 20 i" using l by (simp_all add: slice_def)
  then have c: "bk_clear i' 0 = bk_clear i 0" by (simp add: bk_clear_def mh_crc_def store_def)
  have "length (bk_clear i 0) = length i" using assms(2) by (simp add: bk_clear_def mh_crc_def store_def)
  then have "slice (bk_clear i 0) 0 (32 + unat sz) = bk_clear i 0" using assms(2) by (simp add: slice_def)
  then show "bk_image (bk_seal i) 0 sz" and "kept i mh_crc 4 (bk_seal i)"
    using assms i' l c kept_ld32 [OF i'(3), of 0] kept_ld32 [OF i'(3), of mh_size] by (simp_all add: bk_seal_def bk_image_def mh_crc_def mh_size_def)
qed

definition bk_raw :: mem where
  "bk_raw = [CHR 0x53, CHR 0x50, CHR 0x49, CHR 0x4d] @ replicate 4 NUL @ [CHR 0x02] @ replicate 23 NUL @ ''OK''"

definition bk_sample :: mem where
  "bk_sample = bk_seal bk_raw"

lemma bk_sample_image: "bk_image bk_sample 0 2" and bk_sample_raw: "kept bk_raw mh_crc 4 bk_sample"
proof -
  have "length bk_raw < 2 ^ 32" "32 + unat (2 :: u32) = length bk_raw" by (simp_all add: bk_raw_def)
  moreover have "ld32 bk_raw 0 = Some LOADER_MAGIC" "ld32 bk_raw mh_size = Some 2" by code_simp+
  ultimately show "bk_image bk_sample 0 2" and "kept bk_raw mh_crc 4 bk_sample" unfolding bk_sample_def by (rule bk_seal_image)+
qed

lemma bk_sample_at: "n < 0x70000000 \<Longrightarrow> bk_image (replicate n NUL @ bk_sample) n 2"
  using bk_image_placed [OF bk_sample_image, of "replicate n NUL"] kept_length [OF bk_sample_raw] by (simp add: bk_raw_def)

lemma high_sample: "bk_image (replicate 0x60008000 NUL @ bk_sample) (unat (0x60008000 :: u32)) 2"
proof -
  have "unat (0x60008000 :: u32) = 0x60008000" by simp
  then show ?thesis using bk_sample_at [of "unat (0x60008000 :: u32)"] by simp
qed

theorem bootbk_boots_witness:
  "(\<exists>m'. do_bootbk True 4735 [''bootbk'', ''60008000'', ''bootkernel1''] (replicate 0x60008000 NUL @ bk_sample) = Some (Kernel 0x60008020 0 4735 0x100 m') \<and>
    tag_list m' 0x100 (bk_tags ''bootkernel1'')) \<and>
   (\<exists>m'. do_bootbk False 4735 [''bootbk'', ''200'', ''bootkernel1''] (replicate 0x200 NUL @ bk_sample) = Some (Kernel 0x220 0 4735 0x100 m') \<and>
    slice m' 0x220 2 = slice (replicate 0x200 NUL @ bk_sample) 0x220 2 \<and> tag_list m' 0x100 (bk_tags ''bootkernel1''))"
proof
  define m where "m = replicate 0x60008000 NUL @ bk_sample"
  have a: "fst (simple_strtoul ([''bootbk'', ''60008000'', ''bootkernel1''] ! 1) 16) = 0x60008000" by code_simp
  have v: "bk_image m (unat (0x60008000 :: u32)) 2" unfolding m_def by (rule high_sample)
  have "\<exists>m'. do_bootbk True 4735 [''bootbk'', ''60008000'', ''bootkernel1''] m = Some (Kernel 0x60008020 0 4735 0x100 m') \<and>
    slice m' 0x60008020 2 = slice m 0x60008020 2 \<and>
    tag_list m' 0x100 (bk_tags ''bootkernel1'')"
    using bootbk_boots [OF _ a v, of True 4735] by simp
  then show "\<exists>m'. do_bootbk True 4735 [''bootbk'', ''60008000'', ''bootkernel1''] (replicate 0x60008000 NUL @ bk_sample) = Some (Kernel 0x60008020 0 4735 0x100 m') \<and>
    tag_list m' 0x100 (bk_tags ''bootkernel1'')" unfolding m_def by blast
next
  define m where "m = replicate 0x200 NUL @ bk_sample"
  have a: "fst (simple_strtoul ([''bootbk'', ''200'', ''bootkernel1''] ! 1) 16) = 0x200" by code_simp
  have v: "bk_image m (unat (0x200 :: u32)) 2" using bk_sample_at [of "0x200"] by (simp add: m_def)
  have "\<exists>m'. do_bootbk False 4735 [''bootbk'', ''200'', ''bootkernel1''] m = Some (Kernel 0x220 0 4735 0x100 m') \<and>
    slice m' 0x220 2 = slice m 0x220 2 \<and> tag_list m' 0x100 (bk_tags ''bootkernel1'')"
    using bootbk_boots [OF _ a v, of False 4735] by simp
  then show "\<exists>m'. do_bootbk False 4735 [''bootbk'', ''200'', ''bootkernel1''] (replicate 0x200 NUL @ bk_sample) = Some (Kernel 0x220 0 4735 0x100 m') \<and>
    slice m' 0x220 2 = slice (replicate 0x200 NUL @ bk_sample) 0x220 2 \<and> tag_list m' 0x100 (bk_tags ''bootkernel1'')" unfolding m_def .
qed

theorem bootbk_damage_refused_witness:
  "\<exists>m'. do_bootbk False 4735 [''bootbk'', ''200'', ''bootkernel1''] ((replicate 0x200 NUL @ bk_sample)[0x221 := CHR ''X'']) = Some (Returned CMD_RET_FAILURE m')"
proof -
  have a: "fst (simple_strtoul ''200'' 16) = 0x200" by code_simp
  have "(replicate 0x200 NUL @ bk_sample) ! 0x221 = CHR ''K''" using kept_nth [OF bk_sample_raw, of 33] by (simp add: bk_raw_def nth_append mh_crc_def)
  moreover define m where "m = replicate 0x200 NUL @ bk_sample"
  moreover have "bk_image m (unat (0x200 :: u32)) 2" using bk_sample_at [of "0x200"] by (simp add: m_def)
  ultimately show ?thesis using bootbk_damage_refused [of "[''bootbk'', ''200'', ''bootkernel1'']" "0x200" m 2 "0x221" "CHR ''X''" False 4735] a by simp
qed

theorem bootbk_overruns_witness:
  "do_bootbk False 4735 [''bootbk'', ''0x60008000'', ''bootkernel1''] (replicate 0x60008000 NUL @ bk_sample) = None"
proof -
  have a: "fst (simple_strtoul ([''bootbk'', ''0x60008000'', ''bootkernel1''] ! 1) 16) = 0x60008000" by code_simp
  show ?thesis by (rule bootbk_overruns [OF _ a high_sample]) simp_all
qed

end
