(* ===== verification/Bootm.thy ===== *)
theory Bootm
  imports Ramdisk Atags
begin

text \<open>
  The command \<open>bootm\<close> (\<^verbatim>\<open>common/cmd_bootm.c\<close>) with the start of Linux on ARM (\<^verbatim>\<open>arch/arm/lib/bootm.c\<close>): finding and checking the kernel, loading it,
  the ramdisk, the parameters, and the jump; and the subcommands that run the stages one by one. Configured as for ARM
  (logical memory blocks, ramdisk relocation) without device trees and the image format built on them; the decompressors are parameters. Foreign code that is
  entered ends the command: the result says where, and with which arguments. Caches, interrupts, USB and messages are not modelled.
\<close>

section \<open>State and configuration\<close>

record image_info =
  os_start :: u32
  os_end :: u32
  os_image_start :: u32
  os_image_len :: u32
  os_load :: u32
  os_comp :: u8
  os_type :: u8
  os_os :: u8

record bootm_headers =
  legacy_hdr_os :: u32
  legacy_hdr_os_copy :: mem
  legacy_hdr_valid :: bool
  bh_os :: image_info
  bh_ep :: u32
  bh_rd_start :: u32
  bh_rd_end :: u32
  bh_initrd_start :: u32
  bh_initrd_end :: u32
  bh_verify :: bool
  bh_state :: u32
  bh_lmb :: lmb

record boot_world =
  bw_mem :: mem
  bw_images :: bootm_headers
  bw_env :: env_state

text \<open>
  A decompressor gets the memory, the destination, the room there, the source and its length, and returns whether it succeeded, the length of the
  result, and the memory; without one the kind of compression is not compiled in. \<open>bc_dram\<close> are the banks \<open>gd->bd->bi_dram\<close>, \<open>bc_sp\<close> the stack
  pointer, \<open>bc_bd\<close> the address of \<open>gd->bd\<close>, \<open>bc_malloc\<close> the success of the allocations when a variable is set.
\<close>

type_synonym decompressor = "mem \<Rightarrow> u32 \<Rightarrow> u32 \<Rightarrow> u32 \<Rightarrow> u32 \<Rightarrow> (bool \<times> u32 \<times> mem) option"

record boot_config =
  bc_env :: env_config
  bc_watchdog :: bool
  bc_tags :: tag_config
  bc_dram :: "(u32 \<times> u32) list"
  bc_arch_number :: u32
  bc_boot_params :: u32
  bc_bd :: u32
  bc_sdram_base :: u32
  bc_sp :: u32
  bc_decompress :: "u8 \<Rightarrow> decompressor option"
  bc_malloc :: "string \<Rightarrow> mallocs"

definition CONFIG_SYS_BOOTM_LEN :: u32 where "CONFIG_SYS_BOOTM_LEN = 0x800000"

definition IH_TYPE_STANDALONE :: u8 where "IH_TYPE_STANDALONE = 1"
definition IH_TYPE_KERNEL :: u8 where "IH_TYPE_KERNEL = 2"
definition IH_TYPE_MULTI :: u8 where "IH_TYPE_MULTI = 4"
definition IH_TYPE_KERNEL_NOLOAD :: u8 where "IH_TYPE_KERNEL_NOLOAD = 14"
definition IH_OS_RTEMS :: u8 where "IH_OS_RTEMS = 18"
definition IH_COMP_NONE :: u8 where "IH_COMP_NONE = 0"

definition BOOTM_STATE_START :: u32 where "BOOTM_STATE_START = 0x01"
definition BOOTM_STATE_LOADOS :: u32 where "BOOTM_STATE_LOADOS = 0x02"
definition BOOTM_STATE_RAMDISK :: u32 where "BOOTM_STATE_RAMDISK = 0x04"
definition BOOTM_STATE_OS_CMDLINE :: u32 where "BOOTM_STATE_OS_CMDLINE = 0x10"
definition BOOTM_STATE_OS_BD_T :: u32 where "BOOTM_STATE_OS_BD_T = 0x20"
definition BOOTM_STATE_OS_PREP :: u32 where "BOOTM_STATE_OS_PREP = 0x40"
definition BOOTM_STATE_OS_GO :: u32 where "BOOTM_STATE_OS_GO = 0x80"

definition BOOTM_ERR_RESET :: int where "BOOTM_ERR_RESET = -1"
definition BOOTM_ERR_OVERLAP :: int where "BOOTM_ERR_OVERLAP = -2"
definition BOOTM_ERR_UNIMPLEMENTED :: int where "BOOTM_ERR_UNIMPLEMENTED = -3"

text \<open>How the command ends: with a value, in a kernel or program with its arguments, in a reset, or in an endless loop.\<close>

datatype boot_out = Ret int boot_world | Enter u32 "u32 list" boot_world | Appl u32 "string list" boot_world | Reset boot_world | Hang boot_world

section \<open>Starting\<close>

text \<open>The structure \<open>images\<close> after \<open>memset\<close>.\<close>

definition zero_region :: lmb_region where
  "zero_region = \<lparr>rg_cnt = 0, rg_size = 0, rg_region = replicate (MAX_LMB_REGIONS + 1) \<lparr>lp_base = 0, lp_size = 0\<rparr>\<rparr>"

definition zero_images :: bootm_headers where
  "zero_images =
     \<lparr>legacy_hdr_os = 0, legacy_hdr_os_copy = replicate 64 NUL, legacy_hdr_valid = False,
      bh_os = \<lparr>os_start = 0, os_end = 0, os_image_start = 0, os_image_len = 0, os_load = 0, os_comp = 0, os_type = 0, os_os = 0\<rparr>,
      bh_ep = 0, bh_rd_start = 0, bh_rd_end = 0, bh_initrd_start = 0, bh_initrd_end = 0, bh_verify = False, bh_state = 0,
      bh_lmb = \<lparr>lmb_memory = zero_region, lmb_reserved = zero_region\<rparr>\<rparr>"

definition arch_lmb_reserve :: "boot_config \<Rightarrow> lmb \<Rightarrow> lmb option" where
  "arch_lmb_reserve cfg l =
     (case bc_dram cfg of
        [] \<Rightarrow> None
      | (start, sz) # _ \<Rightarrow> let sp = bc_sp cfg - 4096 in map_option snd (lmb_reserve l sp (start + sz - sp)))"

definition boot_start_lmb :: "boot_config \<Rightarrow> env_state \<Rightarrow> lmb \<Rightarrow> lmb option" where
  "boot_start_lmb cfg ev l =
     (case bc_dram cfg of
        [] \<Rightarrow> None
      | (start, sz) # _ \<Rightarrow>
          do { mem_start \<leftarrow> getenv_bootm_low (bc_env cfg) ev (bc_sdram_base cfg);
               mem_size \<leftarrow> getenv_bootm_size (bc_env cfg) ev sz;
               (_, l) \<leftarrow> lmb_add (lmb_init l) mem_start mem_size;
               arch_lmb_reserve cfg l })"

text \<open>The value is the address of the header, zero for \<open>NULL\<close>.\<close>

definition boot_get_kernel :: "u32 \<Rightarrow> string list \<Rightarrow> mem \<Rightarrow> bootm_headers \<Rightarrow> (u32 \<times> bootm_headers) option" where
  "boot_get_kernel dflt argv m images =
     do { let img_addr = (if length argv < 2 then dflt else fst (simple_strtoul (argv ! 1) 16));
          let images = images\<lparr>bh_os := (bh_os images)\<lparr>os_image_start := 0, os_image_len := 0\<rparr>\<rparr>;
          legacy \<leftarrow> image_check_magic m (unat img_addr);
          if \<not> legacy then Some (0, images)
          else do { r \<leftarrow> image_get_kernel m (unat img_addr) (bh_verify images);
                    case r of
                      Inl _ \<Rightarrow> Some (0, images)
                    | Inr hdr \<Rightarrow>
                        do { ty \<leftarrow> image_get_b ih_type m hdr;
                             data \<leftarrow>
                               (if ty = IH_TYPE_KERNEL \<or> ty = IH_TYPE_KERNEL_NOLOAD \<or> ty = IH_TYPE_STANDALONE
                                then map_option (\<lambda>len. Some (word_of_nat (image_get_data hdr), len)) (image_get_l ih_size m hdr)
                                else if ty = IH_TYPE_MULTI then map_option Some (image_multi_getimg m hdr 0)
                                else Some None);
                             case data of
                               None \<Rightarrow> Some (0, images)
                             | Some (os_data, len) \<Rightarrow>
                                 Some (img_addr, images\<lparr>bh_os := (bh_os images)\<lparr>os_image_start := os_data, os_image_len := len\<rparr>,
                                   legacy_hdr_os_copy := slice m hdr image_get_header_size, legacy_hdr_os := img_addr, legacy_hdr_valid := True\<rparr>) } } }"

text \<open>The ramdisk at the address of the second argument; \<open>None\<close> inside is the return of an error.\<close>

definition ramdisk_arg :: "string list \<Rightarrow> mem \<Rightarrow> bool \<Rightarrow> u8 \<Rightarrow> (u32 \<times> u32) option option" where
  "ramdisk_arg argv m verify arch =
     do { let rd_addr = fst (simple_strtoul (argv ! 2) 16);
          legacy \<leftarrow> image_check_magic m (unat rd_addr);
          if \<not> legacy then Some None
          else do { rd \<leftarrow> image_get_ramdisk m (unat rd_addr) arch verify;
                    case rd of
                      Inl _ \<Rightarrow> Some None
                    | Inr rd_hdr \<Rightarrow> map_option (\<lambda>len. Some (word_of_nat (image_get_data rd_hdr), len)) (image_get_l ih_size m rd_hdr) } }"

definition boot_get_ramdisk :: "string list \<Rightarrow> mem \<Rightarrow> bootm_headers \<Rightarrow> u8 \<Rightarrow> (int \<times> u32 \<times> u32) option" where
  "boot_get_ramdisk argv m images arch =
     do { r \<leftarrow>
            (if length argv \<ge> 3 \<and> argv ! 2 = ''-'' then Some (Some (0, 0))
             else if length argv \<ge> 3 then ramdisk_arg argv m (bh_verify images) arch
             else do { ty \<leftarrow> image_get_b ih_type (legacy_hdr_os_copy images) 0;
                       if legacy_hdr_valid images \<and> ty = IH_TYPE_MULTI
                       then map_option Some (image_multi_getimg m (unat (legacy_hdr_os images)) 1)
                       else Some (Some (0, 0)) });
          Some (case r of
                  None \<Rightarrow> (1, 0, 0)
                | Some (rd_data, rd_len) \<Rightarrow> if rd_data = 0 then (0, 0, 0) else (0, rd_data, rd_data + rd_len)) }"

definition bootm_start :: "boot_config \<Rightarrow> string list \<Rightarrow> boot_world \<Rightarrow> (int \<times> boot_world) option" where
  "bootm_start cfg argv st =
     do { verify \<leftarrow> getenv_yesno (bc_env cfg) (bw_env st) ''verify'';
          l \<leftarrow> boot_start_lmb cfg (bw_env st) (bh_lmb zero_images);
          (os_hdr, images) \<leftarrow> boot_get_kernel (load_addr (bw_env st)) argv (bw_mem st) (zero_images\<lparr>bh_verify := verify, bh_lmb := l\<rparr>);
          if os_image_len (bh_os images) = 0 then Some (1, st\<lparr>bw_images := images\<rparr>)
          else do { ty \<leftarrow> image_get_b ih_type (bw_mem st) (unat os_hdr);
                    co \<leftarrow> image_get_b ih_comp (bw_mem st) (unat os_hdr);
                    os \<leftarrow> image_get_b ih_os (bw_mem st) (unat os_hdr);
                    sz \<leftarrow> image_get_image_size (bw_mem st) (unat os_hdr);
                    load \<leftarrow> image_get_l ih_load (bw_mem st) (unat os_hdr);
                    ep \<leftarrow> image_get_l ih_ep (legacy_hdr_os_copy images) 0;
                    let noload = (ty = IH_TYPE_KERNEL_NOLOAD);
                    let load = (if noload then os_image_start (bh_os images) else load);
                    let images = images\<lparr>bh_os := (bh_os images)\<lparr>os_type := ty, os_comp := co, os_os := os, os_end := os_hdr + sz, os_load := load\<rparr>,
                          bh_ep := if noload then ep + load else ep\<rparr>;
                    (r, rd_start, rd_end) \<leftarrow>
                      (if (ty = IH_TYPE_KERNEL \<or> noload \<or> ty = IH_TYPE_MULTI) \<and> os = IH_OS_LINUX
                       then boot_get_ramdisk argv (bw_mem st) images IH_ARCH_ARM else Some (0, 0, 0));
                    let images = images\<lparr>bh_rd_start := rd_start, bh_rd_end := rd_end\<rparr>;
                    if r \<noteq> 0 then Some (1, st\<lparr>bw_images := images\<rparr>)
                    else Some (0, st\<lparr>bw_images := images\<lparr>bh_os := (bh_os images)\<lparr>os_start := os_hdr\<rparr>, bh_state := BOOTM_STATE_START\<rparr>\<rparr>) } }"

section \<open>Loading\<close>

text \<open>The value returned, \<open>*load_end\<close> (zero where it is not assigned), and the memory.\<close>

definition bootm_load_os :: "boot_config \<Rightarrow> mem \<Rightarrow> image_info \<Rightarrow> (int \<times> u32 \<times> mem) option" where
  "bootm_load_os cfg m os =
     do { let load = os_load os;
          let no_overlap = (os_comp os = IH_COMP_NONE \<and> (load = os_start os \<or> load = os_image_start os));
          r \<leftarrow> (if os_comp os = IH_COMP_NONE
               then if no_overlap then Some (Inr (load + os_image_len os, m))
                    else map_option (\<lambda>m. Inr (load + os_image_len os, m))
                           (memmove_wd (bc_watchdog cfg) m (unat load) (unat (os_image_start os)) (unat (os_image_len os)) CHUNKSZ)
               else case bc_decompress cfg (os_comp os) of
                      None \<Rightarrow> Some (Inl (BOOTM_ERR_UNIMPLEMENTED, m))
                    | Some unc \<Rightarrow> do { (ok, unc_len, m) \<leftarrow> unc m load CONFIG_SYS_BOOTM_LEN (os_image_start os) (os_image_len os);
                                       Some (if ok then Inr (load + unc_len, m) else Inl (BOOTM_ERR_RESET, m)) });
          Some (case r of
                  Inl (e, m) \<Rightarrow> (e, 0, m)
                | Inr (load_end, m) \<Rightarrow>
                    (if \<not> no_overlap \<and> load < os_end os \<and> os_start os < load_end then BOOTM_ERR_OVERLAP else 0, load_end, m)) }"

section \<open>Linux and other systems\<close>

definition any_tag :: "tag_config \<Rightarrow> bool" where
  "any_tag tc \<longleftrightarrow> tc_memory tc \<or> tc_cmdline tc \<or> tc_initrd tc \<or> tc_serial tc \<noteq> None \<or> tc_revision tc \<noteq> None"

text \<open>\<open>None\<close> inside is the call of \<open>hang\<close>.\<close>

definition boot_prep_linux :: "boot_config \<Rightarrow> boot_world \<Rightarrow> boot_world option option" where
  "boot_prep_linux cfg st =
     do { commandline \<leftarrow> (if tc_cmdline (bc_tags cfg) then getenv (bc_env cfg) (bw_env st) ''bootargs'' else Some None);
          if any_tag (bc_tags cfg)
          then do { m \<leftarrow> setup_tags (bc_tags cfg) (bc_dram cfg) commandline (bh_rd_start (bw_images st)) (bh_rd_end (bw_images st)) (bw_mem st)
                          (unat (bc_boot_params cfg));
                    Some (Some (st\<lparr>bw_mem := m\<rparr>)) }
          else Some None }"

definition boot_jump_linux :: "boot_config \<Rightarrow> boot_world \<Rightarrow> boot_out option" where
  "boot_jump_linux cfg st =
     do { s \<leftarrow> getenv (bc_env cfg) (bw_env st) ''machid'';
          let machid = (case s of
                          None \<Rightarrow> bc_arch_number cfg
                        | Some t \<Rightarrow> (case strict_strtoul t 16 of Some v \<Rightarrow> v | None \<Rightarrow> 0));
          Some (Enter (bh_ep (bw_images st)) [0, machid, bc_boot_params cfg] st) }"

definition do_bootm_linux :: "boot_config \<Rightarrow> u32 \<Rightarrow> boot_world \<Rightarrow> boot_out option" where
  "do_bootm_linux cfg fl st =
     (if fl AND BOOTM_STATE_OS_BD_T \<noteq> 0 \<or> fl AND BOOTM_STATE_OS_CMDLINE \<noteq> 0 then Some (Ret (-1) st)
      else if fl AND BOOTM_STATE_OS_PREP \<noteq> 0
      then do { r \<leftarrow> boot_prep_linux cfg st; Some (case r of None \<Rightarrow> Hang st | Some st \<Rightarrow> Ret 0 st) }
      else if fl AND BOOTM_STATE_OS_GO \<noteq> 0 then boot_jump_linux cfg st
      else do { r \<leftarrow> boot_prep_linux cfg st;
                case r of None \<Rightarrow> Some (Hang st) | Some st \<Rightarrow> boot_jump_linux cfg st })"

definition do_bootm_rtems :: "boot_config \<Rightarrow> u32 \<Rightarrow> boot_world \<Rightarrow> boot_out option" where
  "do_bootm_rtems cfg fl st =
     Some (if fl \<noteq> 0 \<and> fl \<noteq> BOOTM_STATE_OS_GO then Ret 1 st else Enter (bh_ep (bw_images st)) [bc_bd cfg] st)"

text \<open>The table \<open>boot_os\<close>: its last entry is that of RTEMS, and nothing is there behind it; \<open>None\<close> inside is \<open>NULL\<close>.\<close>

datatype boot_fn = Do_Linux | Do_Rtems

definition boot_os :: "u8 \<Rightarrow> boot_fn option option" where
  "boot_os os =
     (if os > IH_OS_RTEMS then None
      else Some (if os = IH_OS_LINUX then Some Do_Linux else if os = IH_OS_RTEMS then Some Do_Rtems else None))"

primrec call_boot_fn :: "boot_fn \<Rightarrow> boot_config \<Rightarrow> u32 \<Rightarrow> boot_world \<Rightarrow> boot_out option" where
  "call_boot_fn Do_Linux = do_bootm_linux"
| "call_boot_fn Do_Rtems = do_bootm_rtems"

definition bootm_start_standalone :: "boot_config \<Rightarrow> string list \<Rightarrow> boot_world \<Rightarrow> boot_out option" where
  "bootm_start_standalone cfg argv st =
     do { s \<leftarrow> getenv (bc_env cfg) (bw_env st) ''autostart'';
          if s = Some ''no''
          then do { (_, ev) \<leftarrow> setenv (bc_env cfg) ''filesize'' (Some (cprintf ''%lX'' [VInt (os_image_len (bh_os (bw_images st)))]))
                                  (bc_malloc cfg ''filesize'') (bw_env st);
                    Some (Ret 0 (st\<lparr>bw_env := ev\<rparr>)) }
          else Some (Appl (htonl (bh_ep (bw_images st))) (tl argv) st) }"

section \<open>The command\<close>

definition cmd_bootm_sub :: "cmd_tbl list" where
  "cmd_bootm_sub = map (\<lambda>(n, s). \<lparr>cmd_name = n, cmd_maxargs = 0, cmd_repeatable = 1, cmd_fn = unat s, cmd_help = Some [], cmd_complete = None\<rparr>)
     [(''start'', BOOTM_STATE_START), (''loados'', BOOTM_STATE_LOADOS), (''ramdisk'', BOOTM_STATE_RAMDISK), (''cmdline'', BOOTM_STATE_OS_CMDLINE),
      (''bdt'', BOOTM_STATE_OS_BD_T), (''prep'', BOOTM_STATE_OS_PREP), (''go'', BOOTM_STATE_OS_GO)]"

text \<open>The stages after the check of the order. \<open>fn\<close> is \<open>boot_fn\<close>, and a call of it when it is \<open>NULL\<close> is \<open>None\<close>.\<close>

definition boot_stage :: "boot_config \<Rightarrow> u32 \<Rightarrow> boot_fn option \<Rightarrow> boot_world \<Rightarrow> boot_out option" where
  "boot_stage cfg state fn st =
     (if state = BOOTM_STATE_LOADOS
      then do { (ret, load_end, m) \<leftarrow> bootm_load_os cfg (bw_mem st) (bh_os (bw_images st));
                let st = st\<lparr>bw_mem := m\<rparr>;
                if ret \<noteq> 0 then Some (Ret ret st)
                else do { let load = os_load (bh_os (bw_images st));
                          (_, l) \<leftarrow> lmb_reserve (bh_lmb (bw_images st)) load (load_end - load);
                          Some (Ret 0 (st\<lparr>bw_images := (bw_images st)\<lparr>bh_lmb := l\<rparr>\<rparr>)) } }
      else if state = BOOTM_STATE_RAMDISK
      then do { let images = bw_images st;
                (ret, initrd_start, initrd_end, m, l) \<leftarrow> boot_ramdisk_high (bc_watchdog cfg) (bc_env cfg) (bw_env st) (bw_mem st) (bh_lmb images)
                  (bh_rd_start images) (bh_rd_end images - bh_rd_start images) (bh_initrd_end images);
                let st = st\<lparr>bw_mem := m, bw_images := images\<lparr>bh_lmb := l, bh_initrd_start := initrd_start, bh_initrd_end := initrd_end\<rparr>\<rparr>;
                if ret \<noteq> 0 then Some (Ret ret st)
                else do { (_, ev) \<leftarrow> setenv (bc_env cfg) ''initrd_start'' (Some (cprintf ''%lx'' [VInt initrd_start])) (bc_malloc cfg ''initrd_start'') (bw_env st);
                          (_, ev) \<leftarrow> setenv (bc_env cfg) ''initrd_end'' (Some (cprintf ''%lx'' [VInt initrd_end])) (bc_malloc cfg ''initrd_end'') ev;
                          Some (Ret 0 (st\<lparr>bw_env := ev\<rparr>)) } }
      else if state = BOOTM_STATE_OS_GO
      then do { f \<leftarrow> fn; out \<leftarrow> call_boot_fn f cfg state st; Some (case out of Ret _ st \<Rightarrow> Ret 0 st | _ \<Rightarrow> out) }
      else do { f \<leftarrow> fn; call_boot_fn f cfg state st })"

definition do_bootm_subcommand :: "boot_config \<Rightarrow> string list \<Rightarrow> boot_world \<Rightarrow> boot_out option" where
  "do_bootm_subcommand cfg argv st =
     (case find_cmd_tbl (Some (argv ! 1)) cmd_bootm_sub of
        None \<Rightarrow> Some (Ret CMD_RET_USAGE st)
      | Some c \<Rightarrow>
          let state = word_of_nat (cmd_fn c)
          in if state = BOOTM_STATE_START then map_option (\<lambda>(r, st). Ret r st) (bootm_start cfg (tl argv) st)
             else if bh_state (bw_images st) \<ge> state then Some (Ret CMD_RET_USAGE st)
             else do { let st = st\<lparr>bw_images := (bw_images st)\<lparr>bh_state := bh_state (bw_images st) OR state\<rparr>\<rparr>;
                       fn \<leftarrow> boot_os (os_os (bh_os (bw_images st)));
                       boot_stage cfg state fn st })"

definition do_bootm :: "boot_config \<Rightarrow> string list \<Rightarrow> boot_world \<Rightarrow> boot_out option" where
  "do_bootm cfg argv st =
     (if 1 < length argv \<and> peek (snd (simple_strtoul (argv ! 1) 16)) \<notin> {NUL, CHR '':'', CHR ''#''} then do_bootm_subcommand cfg argv st
      else do { (r, st) \<leftarrow> bootm_start cfg argv st;
                if r \<noteq> 0 then Some (Ret 1 st)
                else do { (ret, load_end, m) \<leftarrow> bootm_load_os cfg (bw_mem st) (bh_os (bw_images st));
                          let st = st\<lparr>bw_mem := m\<rparr>;
                          if ret = BOOTM_ERR_RESET \<or> ret = BOOTM_ERR_OVERLAP \<and> \<not> legacy_hdr_valid (bw_images st) then Some (Reset st)
                          else if ret = BOOTM_ERR_UNIMPLEMENTED then Some (Ret 1 st)
                          else do { let load = os_load (bh_os (bw_images st));
                                    (_, l) \<leftarrow> lmb_reserve (bh_lmb (bw_images st)) load (load_end - load);
                                    let st = st\<lparr>bw_images := (bw_images st)\<lparr>bh_lmb := l\<rparr>\<rparr>;
                                    if os_type (bh_os (bw_images st)) = IH_TYPE_STANDALONE then bootm_start_standalone cfg argv st
                                    else do { fn \<leftarrow> boot_os (os_os (bh_os (bw_images st)));
                                              case fn of
                                                None \<Rightarrow> Some (Ret 1 st)
                                              | Some f \<Rightarrow> do { out \<leftarrow> call_boot_fn f cfg 0 st;
                                                              Some (case out of Ret _ st \<Rightarrow> Reset st | _ \<Rightarrow> out) } } } } })"

definition bootm_maybe_autostart :: "boot_config \<Rightarrow> string \<Rightarrow> boot_world \<Rightarrow> boot_out option" where
  "bootm_maybe_autostart cfg cmd st =
     do { ep \<leftarrow> getenv (bc_env cfg) (bw_env st) ''autostart'';
          if ep = Some ''yes'' then do_bootm cfg [cmd] st else Some (Ret 0 st) }"

section \<open>Memory blocks\<close>

lemma boot_start_lmb_total:
  assumes "env_ok ev" and "bc_dram cfg \<noteq> []"
  obtains l where "boot_start_lmb cfg ev (bh_lmb zero_images) = Some l" "rgn_shape (lmb_reserved l)"
proof -
  let ?l = "lmb_init (bh_lmb zero_images)"
  obtain start sz rest where d: "bc_dram cfg = (start, sz) # rest" using assms(2) by (cases "bc_dram cfg") auto
  have g: "getenv c ev n = Some (env_vars ev n)" if "cstring n" for c n using getenv_vars [OF assms(1) that] .
  obtain lo where lo: "getenv_bootm_low (bc_env cfg) ev (bc_sdram_base cfg) = Some lo" by (simp add: getenv_bootm_low_def g cstring_def)
  obtain sz' where sz': "getenv_bootm_size (bc_env cfg) ev sz = Some sz'"
    using g [of "''bootm_size''" "bc_env cfg"] g [of "''bootm_low''" "bc_env cfg"] by (cases "env_vars ev ''bootm_size''") (auto simp: getenv_bootm_size_def cstring_def Let_def)
  have shape: "rgn_shape (lmb_memory ?l)" "rgn_shape (lmb_reserved ?l)"
    by (simp_all add: lmb_init_def zero_images_def zero_region_def dummy_region_def rgn_shape_def MAX_LMB_REGIONS_def)
  obtain c r where "lmb_add_region (lmb_memory ?l) lo sz' = Some (c, r)" using lmb_add_region_total [OF shape(1)] by blast
  then have "lmb_add ?l lo sz' = Some (c, ?l\<lparr>lmb_memory := r\<rparr>)" by (simp add: lmb_add_def)
  moreover obtain c' l' where "lmb_reserve (?l\<lparr>lmb_memory := r\<rparr>) (bc_sp cfg - 4096) (start + sz - (bc_sp cfg - 4096)) = Some (c', l')"
      "rgn_shape (lmb_reserved l')"
    by (rule lmb_reserve_total [of "?l\<lparr>lmb_memory := r\<rparr>"]) (use shape(2) in auto)
  ultimately show ?thesis using that d lo sz' by (simp add: boot_start_lmb_def arch_lmb_reserve_def Let_def)
qed

section \<open>Booting Linux\<close>

text \<open>An accepted, uncompressed kernel or standalone program at \<open>a\<close>.\<close>

definition kernel_image :: "mem \<Rightarrow> ptr \<Rightarrow> u8 \<Rightarrow> u8 \<Rightarrow> u32 \<Rightarrow> u32 \<Rightarrow> u32 \<Rightarrow> bool" where
  "kernel_image m a ty os sz load ep \<longleftrightarrow>
     image_get_kernel m a True = Some (Inr a) \<and> image_get_b ih_type m a = Some ty \<and> ty \<in> {IH_TYPE_KERNEL, IH_TYPE_STANDALONE} \<and>
     image_get_b ih_os m a = Some os \<and> image_get_b ih_comp m a = Some IH_COMP_NONE \<and>
     image_get_l ih_size m a = Some sz \<and> image_get_l ih_load m a = Some load \<and> image_get_l ih_ep m a = Some ep \<and>
     sz \<noteq> 0 \<and> a + 64 + unat sz \<le> length m \<and> length m < 2 ^ 32"

lemma image_get_kernel_facts:
  assumes "image_get_kernel m a True = Some (Inr h)"
  shows "image_check_magic m a = Some True" "image_get_kernel m a v = Some (Inr h)"
  using assms by (auto simp: image_get_kernel_def image_verify_def Option.bind_eq_Some_conv split: if_splits option.splits)

lemma copy_fields:
  assumes "a + 64 \<le> length m"
  shows "image_get_l f (slice m a 64) 0 = image_get_l f m a" "image_get_b g (slice m a 64) 0 = image_get_b g m a"
proof -
  have m: "m = take a m @ slice m a 64 @ drop (a + 64) m" by (metis add.commute append_take_drop_id drop_drop slice_def)
  have n: "length (take a m) = a" "64 \<le> length (slice m a 64)" using assms by simp_all
  show "image_get_l f (slice m a 64) 0 = image_get_l f m a" "image_get_b g (slice m a 64) 0 = image_get_b g m a"
    using get_l_placed [OF n(2), of f "take a m" "drop (a + 64) m"] get_b_placed [OF n(2), of g "take a m" "drop (a + 64) m"] n(1)
    by (simp_all flip: m)
qed

text \<open>\<open>images\<close> after a successful start: only the lists of memory blocks depend on the configuration.\<close>

definition started :: "mem \<Rightarrow> u8 \<Rightarrow> u8 \<Rightarrow> u32 \<Rightarrow> u32 \<Rightarrow> u32 \<Rightarrow> u32 \<Rightarrow> bool \<Rightarrow> lmb \<Rightarrow> bootm_headers" where
  "started m ty os a sz load ep v l =
     zero_images\<lparr>bh_verify := v, bh_lmb := l, legacy_hdr_os_copy := slice m (unat a) 64, legacy_hdr_os := a, legacy_hdr_valid := True,
       bh_os := \<lparr>os_start = a, os_end = a + (sz + 64), os_image_start = a + 64, os_image_len = sz, os_load = load, os_comp = IH_COMP_NONE,
         os_type = ty, os_os = os\<rparr>, bh_ep := ep, bh_state := BOOTM_STATE_START\<rparr>"

lemma bootm_start_kernel:
  assumes img: "kernel_image (bw_mem st) (unat a) ty os sz load ep" and env: "env_ok (bw_env st)" and dram: "bc_dram cfg \<noteq> []"
    and argv: "length argv = 2" "fst (simple_strtoul (argv ! 1) 16) = a"
  obtains v l where "bootm_start cfg argv st = Some (0, st\<lparr>bw_images := started (bw_mem st) ty os a sz load ep v l\<rparr>)" "rgn_shape (lmb_reserved l)"
proof -
  note i = img [unfolded kernel_image_def]
  have len: "unat a + 64 \<le> length (bw_mem st)" using i by simp
  obtain v where v: "getenv_yesno (bc_env cfg) (bw_env st) ''verify'' = Some v"
    using getenv_vars [OF env, of "''verify''" "bc_env cfg"] by (auto simp: getenv_yesno_def cstring_def)
  obtain l where l: "boot_start_lmb cfg (bw_env st) (bh_lmb zero_images) = Some l" "rgn_shape (lmb_reserved l)"
    by (rule boot_start_lmb_total [OF env dram])
  have k: "image_check_magic (bw_mem st) (unat a) = Some True" "image_get_kernel (bw_mem st) (unat a) v = Some (Inr (unat a))"
    using image_get_kernel_facts [of "bw_mem st" "unat a" "unat a"] i by simp_all
  have c: "image_get_l ih_ep (slice (bw_mem st) (unat a) 64) 0 = Some ep" "image_get_b ih_type (slice (bw_mem st) (unat a) 64) 0 = Some ty"
    using copy_fields [OF len] i by simp_all
  have d: "word_of_nat (image_get_data (unat a)) = a + 64" by (simp add: image_get_data_def image_get_header_size_def)
  have z: "image_get_image_size (bw_mem st) (unat a) = Some (sz + 64)" using i by (simp add: image_get_image_size_def image_get_header_size_def)
  have "bootm_start cfg argv st = Some (0, st\<lparr>bw_images := started (bw_mem st) ty os a sz load ep v l\<rparr>)"
    using v l(1) k c d z i argv
    by (auto simp: bootm_start_def boot_get_kernel_def boot_get_ramdisk_def Let_def started_def zero_images_def image_get_header_size_def
      IH_TYPE_KERNEL_def IH_TYPE_KERNEL_NOLOAD_def IH_TYPE_MULTI_def IH_TYPE_STANDALONE_def)
  then show ?thesis using that l(2) by blast
qed

lemma load_kernel:
  assumes img: "kernel_image m (unat a) ty os sz load ep" and room: "unat load + unat sz \<le> length m"
    and apart: "load = a + 64 \<or> unat load + unat sz \<le> unat a \<or> unat a + 64 + unat sz \<le> unat load"
  shows "bootm_load_os cfg m (bh_os (started m ty os a sz load ep v l)) = Some (0, load + sz, store m (unat load) (slice m (unat a + 64) (unat sz)))"
proof -
  note i = img [unfolded kernel_image_def]
  have u: "unat (a + 64) = unat a + 64" "unat (load + sz) = unat load + unat sz" "unat (a + (sz + 64)) = unat a + 64 + unat sz"
    using i room by (simp_all add: unat_word_ariths)
  show ?thesis
  proof (cases "load = a + 64")
    case True
    have "store m (unat load) (slice m (unat a + 64) (unat sz)) = m" using True u(1) i by (simp add: store_slice_same)
    then show ?thesis using True by (simp add: bootm_load_os_def started_def)
  next
    case False
    have pos: "0 < unat sz" using i by (simp add: unat_gt_0)
    then have "load \<noteq> a" using apart False by auto
    moreover have "memmove_wd (bc_watchdog cfg) m (unat load) (unat a + 64) (unat sz) CHUNKSZ = Some (store m (unat load) (slice m (unat a + 64) (unat sz)))"
      by (rule memmove_wd_block) (use i room apart False in \<open>auto simp: CHUNKSZ_def\<close>)
    moreover have "\<not> (load < a + (sz + 64) \<and> a < load + sz)" using apart False u by (auto simp: word_less_nat_alt)
    ultimately show ?thesis using False u(1) by (auto simp: bootm_load_os_def started_def)
  qed
qed

definition boot_machid :: "boot_config \<Rightarrow> env_state \<Rightarrow> u32" where
  "boot_machid cfg ev =
     (case env_vars ev ''machid'' of
        None \<Rightarrow> bc_arch_number cfg
      | Some t \<Rightarrow> (case strict_strtoul t 16 of Some v \<Rightarrow> v | None \<Rightarrow> 0))"

abbreviation linux_tags :: "boot_config \<Rightarrow> env_state \<Rightarrow> atag list" where
  "linux_tags cfg ev \<equiv> boot_tags (bc_tags cfg) (bc_dram cfg) (if tc_cmdline (bc_tags cfg) then env_vars ev ''bootargs'' else None) 0 0"

lemma linux_fn:
  assumes env: "env_ok (bw_env st)" and any: "any_tag (bc_tags cfg)" and rd: "bh_rd_start (bw_images st) = 0" "bh_rd_end (bw_images st) = 0"
    and args: "\<forall>s. env_vars (bw_env st) ''bootargs'' = Some s \<longrightarrow> NUL \<notin> set s \<and> length s < 2 ^ 16"
    and room: "unat (bc_boot_params cfg) + tags_len (linux_tags cfg (bw_env st)) + 8 \<le> length (bw_mem st)"
  obtains m' where "do_bootm_linux cfg 0 st =
      Some (Enter (bh_ep (bw_images st)) [0, boot_machid cfg (bw_env st), bc_boot_params cfg] (st\<lparr>bw_mem := m'\<rparr>))"
    "tag_list m' (unat (bc_boot_params cfg)) (linux_tags cfg (bw_env st))"
    "kept (bw_mem st) (unat (bc_boot_params cfg)) (tags_len (linux_tags cfg (bw_env st)) + 8) m'"
proof -
  let ?c = "if tc_cmdline (bc_tags cfg) then env_vars (bw_env st) ''bootargs'' else None"
  have g: "getenv (bc_env cfg) (bw_env st) n = Some (env_vars (bw_env st) n)" if "cstring n" for n using getenv_vars [OF env that] .
  have c: "\<forall>s. ?c = Some s \<longrightarrow> NUL \<notin> set s \<and> length s < 2 ^ 16" using args by simp
  obtain m' where m': "setup_tags (bc_tags cfg) (bc_dram cfg) ?c 0 0 (bw_mem st) (unat (bc_boot_params cfg)) = Some m'"
    "tag_list m' (unat (bc_boot_params cfg)) (linux_tags cfg (bw_env st))"
    "kept (bw_mem st) (unat (bc_boot_params cfg)) (tags_len (linux_tags cfg (bw_env st)) + 8) m'"
    by (rule setup_tags_list [OF c room])
  have "boot_prep_linux cfg st = Some (Some (st\<lparr>bw_mem := m'\<rparr>))"
    using m'(1) any rd g [of "''bootargs''"] by (cases "tc_cmdline (bc_tags cfg)") (simp_all add: boot_prep_linux_def cstring_def)
  moreover have "boot_jump_linux cfg (st\<lparr>bw_mem := m'\<rparr>) =
      Some (Enter (bh_ep (bw_images st)) [0, boot_machid cfg (bw_env st), bc_boot_params cfg] (st\<lparr>bw_mem := m'\<rparr>))"
    using g [of "''machid''"] by (simp add: boot_jump_linux_def boot_machid_def cstring_def)
  ultimately have "do_bootm_linux cfg 0 st =
      Some (Enter (bh_ep (bw_images st)) [0, boot_machid cfg (bw_env st), bc_boot_params cfg] (st\<lparr>bw_mem := m'\<rparr>))"
    by (simp add: do_bootm_linux_def)
  then show ?thesis using that m'(2,3) by blast
qed

text \<open>What the command has done when it hands over: the image is loaded and its block reserved.\<close>

definition loaded :: "boot_world \<Rightarrow> u8 \<Rightarrow> u8 \<Rightarrow> u32 \<Rightarrow> u32 \<Rightarrow> u32 \<Rightarrow> u32 \<Rightarrow> bool \<Rightarrow> lmb \<Rightarrow> boot_world" where
  "loaded st ty os a sz load ep v l =
     st\<lparr>bw_mem := store (bw_mem st) (unat load) (slice (bw_mem st) (unat a + 64) (unat sz)), bw_images := started (bw_mem st) ty os a sz load ep v l\<rparr>"

lemma bootm_kernel:
  assumes img: "kernel_image (bw_mem st) (unat a) ty os sz load ep" and env: "env_ok (bw_env st)" and dram: "bc_dram cfg \<noteq> []"
    and argv: "length argv = 2" "simple_strtoul (argv ! 1) 16 = (a, [])"
    and load: "unat load + unat sz \<le> length (bw_mem st)"
      "load = a + 64 \<or> unat load + unat sz \<le> unat a \<or> unat a + 64 + unat sz \<le> unat load"
  obtains v l where "do_bootm cfg argv st =
    (if ty = IH_TYPE_STANDALONE then bootm_start_standalone cfg argv (loaded st ty os a sz load ep v l)
     else boot_os os \<bind> (\<lambda>fn. case fn of
            None \<Rightarrow> Some (Ret 1 (loaded st ty os a sz load ep v l))
          | Some f \<Rightarrow> call_boot_fn f cfg 0 (loaded st ty os a sz load ep v l) \<bind> (\<lambda>out. Some (case out of Ret _ st \<Rightarrow> Reset st | _ \<Rightarrow> out))))"
proof -
  let ?m = "bw_mem st"
  obtain v l where st: "bootm_start cfg argv st = Some (0, st\<lparr>bw_images := started ?m ty os a sz load ep v l\<rparr>)" "rgn_shape (lmb_reserved l)"
    using bootm_start_kernel [OF img env dram argv(1), of thesis] argv(2) by auto
  obtain c l' where l': "lmb_reserve l load sz = Some (c, l')" by (rule lmb_reserve_total [OF st(2)])
  have f: "bh_lmb (started ?m ty os a sz load ep v l) = l" "os_load (bh_os (started ?m ty os a sz load ep v l)) = load"
    "os_type (bh_os (started ?m ty os a sz load ep v l)) = ty" "os_os (bh_os (started ?m ty os a sz load ep v l)) = os"
    "(started ?m ty os a sz load ep v l)\<lparr>bh_lmb := l'\<rparr> = started ?m ty os a sz load ep v l'" for l ty
    by (simp_all add: started_def zero_images_def)
  show ?thesis
    by (rule that [of v l'])
      (use argv st(1) load_kernel [OF img load, of cfg v l] l' f in
        \<open>simp add: do_bootm_def peek_def Let_def BOOTM_ERR_RESET_def BOOTM_ERR_OVERLAP_def BOOTM_ERR_UNIMPLEMENTED_def loaded_def
          cong: option.case_cong\<close>)
qed

lemma bootm_linux:
  assumes img: "kernel_image (bw_mem st) (unat a) IH_TYPE_KERNEL IH_OS_LINUX sz load ep" and env: "env_ok (bw_env st)" and dram: "bc_dram cfg \<noteq> []"
    and any: "any_tag (bc_tags cfg)" and argv: "length argv = 2" "simple_strtoul (argv ! 1) 16 = (a, [])"
    and load: "unat load + unat sz \<le> length (bw_mem st)"
      "load = a + 64 \<or> unat load + unat sz \<le> unat a \<or> unat a + 64 + unat sz \<le> unat load"
    and args: "\<forall>s. env_vars (bw_env st) ''bootargs'' = Some s \<longrightarrow> NUL \<notin> set s \<and> length s < 2 ^ 16"
    and tags: "unat (bc_boot_params cfg) + tags_len (linux_tags cfg (bw_env st)) + 8 \<le> length (bw_mem st)"
      "unat (bc_boot_params cfg) + tags_len (linux_tags cfg (bw_env st)) + 8 \<le> unat load \<or> unat load + unat sz \<le> unat (bc_boot_params cfg)"
  shows "\<exists>st'. do_bootm cfg argv st = Some (Enter ep [0, boot_machid cfg (bw_env st), bc_boot_params cfg] st') \<and>
    slice (bw_mem st') (unat load) (unat sz) = slice (bw_mem st) (unat a + 64) (unat sz) \<and>
    tag_list (bw_mem st') (unat (bc_boot_params cfg)) (linux_tags cfg (bw_env st))"
proof -
  let ?m = "bw_mem st" and ?p = "unat (bc_boot_params cfg)" and ?n = "tags_len (linux_tags cfg (bw_env st)) + 8"
  let ?d = "slice ?m (unat a + 64) (unat sz)"
  have d: "length ?d = unat sz" using img by (simp add: kernel_image_def)
  obtain v l where b: "do_bootm cfg argv st =
    (if IH_TYPE_KERNEL = IH_TYPE_STANDALONE then bootm_start_standalone cfg argv (loaded st IH_TYPE_KERNEL IH_OS_LINUX a sz load ep v l)
     else boot_os IH_OS_LINUX \<bind> (\<lambda>fn. case fn of
            None \<Rightarrow> Some (Ret 1 (loaded st IH_TYPE_KERNEL IH_OS_LINUX a sz load ep v l))
          | Some f \<Rightarrow> call_boot_fn f cfg 0 (loaded st IH_TYPE_KERNEL IH_OS_LINUX a sz load ep v l) \<bind>
              (\<lambda>out. Some (case out of Ret _ st \<Rightarrow> Reset st | _ \<Rightarrow> out))))"
    by (rule bootm_kernel [OF img env dram argv load])
  define st1 where "st1 = loaded st IH_TYPE_KERNEL IH_OS_LINUX a sz load ep v l"
  have s1: "bw_env st1 = bw_env st" "bw_mem st1 = store ?m (unat load) ?d" "length (bw_mem st1) = length ?m"
    "bh_ep (bw_images st1) = ep" "bh_rd_start (bw_images st1) = 0" "bh_rd_end (bw_images st1) = 0"
    using load(1) d by (simp_all add: st1_def loaded_def started_def zero_images_def)
  obtain m' where m': "do_bootm_linux cfg 0 st1 = Some (Enter ep [0, boot_machid cfg (bw_env st), bc_boot_params cfg] (st1\<lparr>bw_mem := m'\<rparr>))"
    "tag_list m' ?p (linux_tags cfg (bw_env st))" "kept (bw_mem st1) ?p ?n m'"
    by (rule linux_fn [of st1 cfg, unfolded s1(1,4-6)]) (use env any args tags(1) s1(3) in simp_all)
  have "slice m' (unat load) (unat sz) = ?d"
    using kept_slice [OF m'(3), of "unat load" "unat sz"] tags(2) s1(2) slice_store_same [of "unat load" ?d ?m] load(1) d by auto
  moreover have "boot_os IH_OS_LINUX = Some (Some Do_Linux)" "IH_TYPE_KERNEL \<noteq> IH_TYPE_STANDALONE" by code_simp+
  then have "do_bootm cfg argv st = Some (Enter ep [0, boot_machid cfg (bw_env st), bc_boot_params cfg] (st1\<lparr>bw_mem := m'\<rparr>))"
    using b m'(1) by (simp flip: st1_def)
  ultimately show ?thesis using m'(2) by auto
qed

text \<open>The images of the tool.\<close>

lemma built_kernel:
  assumes "64 < length file" and "length file < 2 ^ 32" and "image_get_l ih_hcrc file 0 = Some 0"
    and "mk_arch params = 2" "mk_comp params = 0" "ucast (mk_type params) = ty" "ty \<in> {IH_TYPE_KERNEL, IH_TYPE_STANDALONE}" "ucast (mk_os params) = os"
  obtains img where "image_set_header params mtime file = Some img" "length img = length file" "drop 64 img = drop 64 file"
    "\<And>pre post. length (pre @ img @ post) < 2 ^ 32 \<Longrightarrow>
       kernel_image (pre @ img @ post) (length pre) ty os (word_of_nat (length file - 64)) (mk_addr params) (mk_ep params)"
proof -
  let ?n = "length file - 64"
  have f: "64 \<le> length file" using assms(1) by simp
  obtain img where b: "image_set_header params mtime file = Some img" "length img = length file" "drop 64 img = drop 64 file"
    and l: "\<And>f pre post. f \<noteq> ih_hcrc \<Longrightarrow> image_get_l f (pre @ img @ post) (length pre) = Some (header_words params mtime (drop 64 file) f)"
    and h: "\<And>f pre post. image_get_b f (pre @ img @ post) (length pre) = Some (header_bytes params f)"
    and v: "\<And>pre post. image_verify (pre @ img @ post) (length pre) True = Some None"
    by (rule built_image [OF f assms(2,3), of params mtime]) blast
  have bytes: "header_bytes params ih_type = ty" "header_bytes params ih_os = os" "header_bytes params ih_comp = IH_COMP_NONE"
      "header_bytes params ih_arch = IH_ARCH_ARM"
    using assms(4-8) by (simp_all add: header_bytes_def IH_COMP_NONE_def IH_ARCH_ARM_def)
  have u: "unat (word_of_nat ?n :: u32) = ?n" using assms(2) by (intro size_word) simp
  then have nz: "(word_of_nat ?n :: u32) \<noteq> 0" using assms(1) by force
  have "kernel_image (pre @ img @ post) (length pre) ty os (word_of_nat ?n) (mk_addr params) (mk_ep params)"
    if "length (pre @ img @ post) < 2 ^ 32" for pre post
  proof -
    let ?m = "pre @ img @ post"
    have "image_get_kernel ?m (length pre) True = Some (Inr (length pre))"
      using v [of pre post] h [of ih_arch pre post] bytes(4) by (simp add: image_get_kernel_def image_check_b_def)
    moreover have "image_get_l ih_size ?m (length pre) = Some (word_of_nat ?n)" using l [of ih_size pre post] by (simp add: header_words_def)
    moreover have "length pre + 64 + unat (word_of_nat ?n :: u32) \<le> length ?m" using u b(2) assms(1) by simp
    ultimately show ?thesis
      using that nz l [of ih_load pre post] l [of ih_ep pre post] h [of ih_type pre post] h [of ih_os pre post] h [of ih_comp pre post] bytes assms(7)
      by (simp add: kernel_image_def header_words_def)
  qed
  then show ?thesis using that b by blast
qed

text \<open>C3. From the tool to the kernel: an image that \<open>mkimage\<close> makes of an uncompressed Linux kernel for ARM, put anywhere into memory where it does not overlap its own load area (or with
  its data already there), is booted by \<open>bootm <address>\<close>. The command checks header and data, puts the data at the load address, and enters the kernel at the entry point of the image with zero, the
  machine number (of the board, or of the variable \<open>machid\<close>) and the address of the parameters; there the kernel finds the configured tags, with the command line of \<open>bootargs\<close> and
  the memory banks, in a proper list. The environment is a usable table, and the tags lie outside the load area.\<close>

theorem bootm_boots_image:
  assumes "64 < length file" and "length file < 2 ^ 32" and "image_get_l ih_hcrc file 0 = Some 0" and "image_set_header params mtime file = Some img"
    and "mk_os params = 5" "mk_arch params = 2" "mk_type params = 2" "mk_comp params = 0"
    and "bw_mem st = pre @ img @ post" and "length (bw_mem st) < 2 ^ 32"
    and "length argv = 2" and "simple_strtoul (argv ! 1) 16 = (word_of_nat (length pre), [])"
    and "env_ok (bw_env st)" and "bc_dram cfg \<noteq> []" and "any_tag (bc_tags cfg)"
    and "unat (mk_addr params) + length file \<le> length (bw_mem st) + 64"
    and "mk_addr params = word_of_nat (length pre) + 64 \<or> unat (mk_addr params) + length file \<le> length pre + 64 \<or> length pre + length file \<le> unat (mk_addr params)"
    and "\<forall>s. env_vars (bw_env st) ''bootargs'' = Some s \<longrightarrow> NUL \<notin> set s \<and> length s < 2 ^ 16"
    and "unat (bc_boot_params cfg) + tags_len (linux_tags cfg (bw_env st)) + 8 \<le> length (bw_mem st)"
    and "unat (bc_boot_params cfg) + tags_len (linux_tags cfg (bw_env st)) + 8 \<le> unat (mk_addr params) \<or>
      unat (mk_addr params) + length file \<le> unat (bc_boot_params cfg) + 64"
  shows "\<exists>st'. do_bootm cfg argv st = Some (Enter (mk_ep params) [0, boot_machid cfg (bw_env st), bc_boot_params cfg] st') \<and>
    slice (bw_mem st') (unat (mk_addr params)) (length file - 64) = drop 64 file \<and>
    tag_list (bw_mem st') (unat (bc_boot_params cfg)) (linux_tags cfg (bw_env st))"
proof -
  have ty: "ucast (mk_type params) = IH_TYPE_KERNEL" "ucast (mk_os params) = IH_OS_LINUX"
    using assms(5,7) by (simp_all add: IH_TYPE_KERNEL_def IH_OS_LINUX_def)
  obtain img' where b: "image_set_header params mtime file = Some img'" "length img' = length file" "drop 64 img' = drop 64 file"
    and k: "\<And>pre post. length (pre @ img' @ post) < 2 ^ 32 \<Longrightarrow> kernel_image (pre @ img' @ post) (length pre) IH_TYPE_KERNEL IH_OS_LINUX
      (word_of_nat (length file - 64)) (mk_addr params) (mk_ep params)"
    by (rule built_kernel [OF assms(1-3,6,8) ty(1) _ ty(2), of mtime]) auto
  have i: "img' = img" using b(1) assms(4) by simp
  let ?n = "length file - 64"
  have u: "unat (word_of_nat (length pre) :: u32) = length pre" "unat (word_of_nat ?n :: u32) = ?n"
    using assms(2,9,10) b(2) i by (auto intro!: size_word)
  have "kernel_image (pre @ img @ post) (length pre) IH_TYPE_KERNEL IH_OS_LINUX (word_of_nat ?n) (mk_addr params) (mk_ep params)"
    using k [of pre post] assms(9,10) i by simp
  then have "kernel_image (bw_mem st) (unat (word_of_nat (length pre) :: u32)) IH_TYPE_KERNEL IH_OS_LINUX (word_of_nat ?n) (mk_addr params) (mk_ep params)"
    using assms(9) u(1) by simp
  note boot = bootm_linux [OF this assms(13-15,11,12) _ _ assms(18,19), unfolded u]
  have "unat (mk_addr params) + ?n \<le> length (bw_mem st)" using assms(1,16) by linarith
  moreover have "mk_addr params = word_of_nat (length pre) + 64 \<or> unat (mk_addr params) + ?n \<le> length pre \<or> length pre + 64 + ?n \<le> unat (mk_addr params)"
    using assms(1,17) by linarith
  moreover have "unat (bc_boot_params cfg) + tags_len (linux_tags cfg (bw_env st)) + 8 \<le> unat (mk_addr params) \<or>
      unat (mk_addr params) + ?n \<le> unat (bc_boot_params cfg)"
    using assms(1,20) by linarith
  ultimately have "\<exists>st'. do_bootm cfg argv st = Some (Enter (mk_ep params) [0, boot_machid cfg (bw_env st), bc_boot_params cfg] st') \<and>
      slice (bw_mem st') (unat (mk_addr params)) ?n = slice (bw_mem st) (length pre + 64) ?n \<and>
      tag_list (bw_mem st') (unat (bc_boot_params cfg)) (linux_tags cfg (bw_env st))" by (rule boot)
  moreover have "slice (bw_mem st) (length pre + 64) ?n = drop 64 file"
    using slice_placed [of 64 ?n img pre post] assms(1,9) b(2,3) i by (simp add: slice_def)
  ultimately show ?thesis by simp
qed

text \<open>A board with one bank of memory and an empty environment.\<close>

definition board1 :: boot_config where
  "board1 = \<lparr>bc_env = cfg5, bc_watchdog = True, bc_tags = \<lparr>tc_serial = None, tc_cmdline = True, tc_revision = None, tc_memory = True, tc_initrd = False\<rparr>,
     bc_dram = [(0, 0x20000)], bc_arch_number = 4735, bc_boot_params = 0x100, bc_bd = 0x1f000, bc_sdram_base = 0, bc_sp = 0x1e000,
     bc_decompress = (\<lambda>_. None), bc_malloc = (\<lambda>_. [])\<rparr>"

definition world1 :: "mem \<Rightarrow> boot_world" where
  "world1 img = \<lparr>bw_mem = replicate 0x1000 NUL @ img @ replicate 0x8000 NUL, bw_images = zero_images, bw_env = env5\<rparr>"

lemma env5_empty: "env_ok env5" "env_vars env5 = Map.empty"
  by (simp_all add: env_ok_def env5_def env_vars_def table5_ok)

theorem bootm_boots_image_witness:
  "\<exists>img st'. image_set_header params1 7 file1 = Some img \<and>
    do_bootm board1 [''bootm'', ''1000''] (world1 img) = Some (Enter 0x8040 [0, 4735, 0x100] st') \<and> slice (bw_mem st') 0x8000 3 = ''abc''"
proof -
  have len: "64 \<le> length file1" "64 < length file1" "length file1 < 2 ^ 32" by simp_all
  obtain img where img: "image_set_header params1 7 file1 = Some img" "length img = length file1"
    by (rule built_image [OF len(1,3) blank_header, of params1 7]) blast
  have m: "bw_mem (world1 img) = replicate 0x1000 NUL @ img @ replicate 0x8000 NUL" "length (bw_mem (world1 img)) = 0x9043"
    using img(2) by (simp_all add: world1_def)
  have e: "bw_env (world1 img) = env5" by (simp add: world1_def)
  have a: "simple_strtoul ([''bootm'', ''1000''] ! 1) 16 = (word_of_nat (length (replicate 0x1000 NUL)), [])"
  proof -
    have "simple_strtoul ''1000'' 16 = (0x1000, [])" by code_simp
    then show ?thesis by simp
  qed
  have "\<exists>st'. do_bootm board1 [''bootm'', ''1000''] (world1 img) =
      Some (Enter (mk_ep params1) [0, boot_machid board1 (bw_env (world1 img)), bc_boot_params board1] st') \<and>
    slice (bw_mem st') (unat (mk_addr params1)) (length file1 - 64) = drop 64 file1 \<and>
    tag_list (bw_mem st') (unat (bc_boot_params board1)) (linux_tags board1 (bw_env (world1 img)))"
    by (rule bootm_boots_image [OF len(2,3) blank_header img(1) _ _ _ _ m(1) _ _ a])
      (simp_all add: params1_def e m(2) env5_empty board1_def any_tag_def boot_tags_def cmdline_tags_def)
  then show ?thesis using img(1) by (auto simp: params1_def board1_def boot_machid_def e env5_empty)
qed

section \<open>The stages\<close>

definition stage_of :: "string list \<Rightarrow> u32 option" where
  "stage_of argv = map_option (\<lambda>c. word_of_nat (cmd_fn c)) (find_cmd_tbl (Some (argv ! 1)) cmd_bootm_sub)"

primrec out_world :: "boot_out \<Rightarrow> boot_world" where
  "out_world (Ret r st) = st"
| "out_world (Enter ep args st) = st"
| "out_world (Appl ep args st) = st"
| "out_world (Reset st) = st"
| "out_world (Hang st) = st"

text \<open>
  A session of subcommands: \<open>stages cfg st ss st'\<close> says that from \<open>st\<close> on the stages \<open>ss\<close> were carried out and led to \<open>st'\<close>. A subcommand is refused when it
  returns the usage error and leaves everything as it was; with any other outcome it was carried out. A stage may leave for the kernel and then ends the
  session. Between them there may be other commands, which may change memory and environment but not \<open>images\<close>. Nothing is said of the order.
\<close>

inductive stages :: "boot_config \<Rightarrow> boot_world \<Rightarrow> u32 list \<Rightarrow> boot_world \<Rightarrow> bool" for cfg where
  stages_none: "stages cfg st [] st"
| stages_run: "stage_of argv = Some s \<Longrightarrow> s \<noteq> BOOTM_STATE_START \<Longrightarrow> do_bootm_subcommand cfg argv st = Some (Ret r st1) \<Longrightarrow>
    Ret r st1 \<noteq> Ret CMD_RET_USAGE st \<Longrightarrow> stages cfg st1 ss st' \<Longrightarrow> stages cfg st (s # ss) st'"
| stages_leave: "stage_of argv = Some s \<Longrightarrow> s \<noteq> BOOTM_STATE_START \<Longrightarrow> do_bootm_subcommand cfg argv st = Some out \<Longrightarrow>
    out \<noteq> Ret CMD_RET_USAGE st \<Longrightarrow> stages cfg st [s] (out_world out)"
| stages_refused: "do_bootm_subcommand cfg argv st = Some (Ret CMD_RET_USAGE st) \<Longrightarrow> stages cfg st ss st' \<Longrightarrow> stages cfg st ss st'"
| stages_other: "bw_images st1 = bw_images st \<Longrightarrow> stages cfg st1 ss st' \<Longrightarrow> stages cfg st ss st'"

lemma boot_prep_images: "boot_prep_linux cfg st = Some (Some st1) \<Longrightarrow> bw_images st1 = bw_images st"
  by (auto simp: boot_prep_linux_def Option.bind_eq_Some_conv split: if_splits)

lemma boot_jump_images: "boot_jump_linux cfg st = Some out \<Longrightarrow> bw_images (out_world out) = bw_images st"
  by (auto simp: boot_jump_linux_def Option.bind_eq_Some_conv Let_def)

lemma boot_fn_state:
  assumes "call_boot_fn f cfg fl st = Some out"
  shows "bh_state (bw_images (out_world out)) = bh_state (bw_images st)"
proof (cases f)
  case Do_Linux
  then show ?thesis using assms boot_jump_images [of cfg _ out]
    by (auto simp: do_bootm_linux_def Option.bind_eq_Some_conv split: if_splits option.splits dest!: boot_prep_images)
next
  case Do_Rtems
  then show ?thesis using assms by (auto simp: do_bootm_rtems_def)
qed

lemma out_world_go: "out_world (case out of Ret r st \<Rightarrow> Ret 0 st | _ \<Rightarrow> out) = out_world out"
  by (cases out) simp_all

lemma boot_stage_state:
  assumes "boot_stage cfg s fn st = Some out"
  shows "bh_state (bw_images (out_world out)) = bh_state (bw_images st)"
proof -
  consider "s = BOOTM_STATE_LOADOS" | "s = BOOTM_STATE_RAMDISK" | f o' where "call_boot_fn f cfg s st = Some o'" "out_world out = out_world o'"
    using assms by (auto simp: boot_stage_def Option.bind_eq_Some_conv out_world_go split: if_splits)
  then show ?thesis
  proof cases
    case 1
    then show ?thesis using assms by (auto simp: boot_stage_def Option.bind_eq_Some_conv Let_def split: if_splits)
  next
    case 2
    then have "s \<noteq> BOOTM_STATE_LOADOS" by (simp add: BOOTM_STATE_RAMDISK_def BOOTM_STATE_LOADOS_def)
    then show ?thesis using 2 assms by (auto simp: boot_stage_def Option.bind_eq_Some_conv Let_def split: if_splits)
  next
    case 3
    then show ?thesis using boot_fn_state by metis
  qed
qed

lemma subcommand_accepted:
  assumes "stage_of argv = Some s" and "s \<noteq> BOOTM_STATE_START" and "bh_state (bw_images st) < s" and "do_bootm_subcommand cfg argv st = Some out"
  shows "bh_state (bw_images (out_world out)) = bh_state (bw_images st) OR s"
proof -
  let ?st = "st\<lparr>bw_images := (bw_images st)\<lparr>bh_state := bh_state (bw_images st) OR s\<rparr>\<rparr>"
  obtain fn where "boot_stage cfg s fn ?st = Some out"
    using assms by (auto simp: stage_of_def do_bootm_subcommand_def Let_def Option.bind_eq_Some_conv not_le split: option.splits if_splits)
  then show ?thesis using boot_stage_state by fastforce
qed

lemma subcommand_refused:
  assumes "stage_of argv \<noteq> Some BOOTM_STATE_START" and "\<forall>s. stage_of argv = Some s \<longrightarrow> \<not> bh_state (bw_images st) < s"
  shows "do_bootm_subcommand cfg argv st = Some (Ret CMD_RET_USAGE st)"
  using assms by (auto simp: stage_of_def do_bootm_subcommand_def Let_def not_less split: option.splits)

lemma le_or: "(s :: u32) \<le> t OR s"
proof -
  have "s = (t OR s) AND s" by (rule bit_word_eqI) (auto simp: bit_simps)
  then show ?thesis by (metis and.commute word_and_le1)
qed

text \<open>What was not refused passed the test of the order.\<close>

lemma carried_out_later:
  assumes "stage_of argv = Some s" and "s \<noteq> BOOTM_STATE_START" and "do_bootm_subcommand cfg argv st = Some out" and "out \<noteq> Ret CMD_RET_USAGE st"
  shows "bh_state (bw_images st) < s" and "s \<le> bh_state (bw_images (out_world out))"
proof -
  show less: "bh_state (bw_images st) < s"
    using subcommand_refused [of argv st cfg] assms by auto
  show "s \<le> bh_state (bw_images (out_world out))"
    using subcommand_accepted [OF assms(1,2) less assms(3)] le_or by simp
qed

lemma stages_above:
  assumes "stages cfg st ss st'"
  shows "sorted_wrt (<) (bh_state (bw_images st) # ss)"
  using assms
proof (induction rule: stages.induct)
  case (stages_run argv s st r st1 ss st')
  then have "bh_state (bw_images st) < s" "s \<le> bh_state (bw_images st1)" using carried_out_later [OF stages_run(1-4)] by simp_all
  then show ?case using stages_run by (auto intro: le_less_trans less_trans)
next
  case (stages_leave argv s st out)
  then show ?case using carried_out_later(1) [OF stages_leave(1-4)] by simp
qed simp_all

text \<open>C11. The stages run in order: in a session of subcommands, with any other commands between, every stage that is carried out (whose subcommand is not refused with
  the usage error and without any effect) is later in the order loados, ramdisk, cmdline, bdt, prep, go than all stages carried out before since the start; so none
  runs twice, and none after go. (Stages may be left out, as documented.)\<close>

theorem bootm_stages_ordered:
  assumes "stages cfg st ss st'"
  shows "sorted_wrt (<) ss \<and> distinct ss \<and> (\<forall>s \<in> set ss. bh_state (bw_images st) < s)"
proof -
  have "sorted_wrt (<) ss" "\<forall>s \<in> set ss. bh_state (bw_images st) < s" using stages_above [OF assms] by simp_all
  then show ?thesis using strict_sorted_iff by blast
qed

text \<open>A session with the stages cmdline, which Linux on ARM does not support, and go.\<close>

definition world2 :: "u32 \<Rightarrow> boot_world" where
  "world2 s = (world1 [])\<lparr>bw_images := zero_images\<lparr>bh_os := (bh_os zero_images)\<lparr>os_os := IH_OS_LINUX\<rparr>, bh_ep := 0x8040, bh_state := s\<rparr>\<rparr>"

lemma sub_stages:
  "stage_of [''bootm'', ''cmdline''] = Some BOOTM_STATE_OS_CMDLINE" "stage_of [''bootm'', ''go''] = Some BOOTM_STATE_OS_GO"
  "stage_of [''bootm'', ''loados''] = Some BOOTM_STATE_LOADOS"
  by code_simp+

lemma subcommand_stage:
  assumes "stage_of argv = Some s" and "s \<noteq> BOOTM_STATE_START" and "bh_state (bw_images st) < s"
  shows "do_bootm_subcommand cfg argv st =
    boot_os (os_os (bh_os (bw_images st))) \<bind>
      (\<lambda>fn. boot_stage cfg s fn (st\<lparr>bw_images := (bw_images st)\<lparr>bh_state := bh_state (bw_images st) OR s\<rparr>\<rparr>))"
  using assms by (auto simp: stage_of_def do_bootm_subcommand_def Let_def)

lemma session_cmdline: "do_bootm_subcommand board1 [''bootm'', ''cmdline''] (world2 BOOTM_STATE_START) = Some (Ret (-1) (world2 0x11))"
proof -
  have "boot_os IH_OS_LINUX = Some (Some Do_Linux)" by code_simp
  then show ?thesis
    by (subst subcommand_stage [OF sub_stages(1)])
      (simp_all add: boot_stage_def do_bootm_linux_def world2_def BOOTM_STATE_OS_CMDLINE_def BOOTM_STATE_OS_BD_T_def BOOTM_STATE_LOADOS_def
        BOOTM_STATE_RAMDISK_def BOOTM_STATE_OS_GO_def BOOTM_STATE_START_def)
qed

lemma session_go: "do_bootm_subcommand board1 [''bootm'', ''go''] (world2 0x11) = Some (Enter 0x8040 [0, 4735, 0x100] (world2 0x91))"
proof -
  have "boot_os IH_OS_LINUX = Some (Some Do_Linux)" by code_simp
  moreover have "getenv cfg5 env5 ''machid'' = Some None" using getenv_vars [of env5 "''machid''" cfg5] env5_empty by (simp add: cstring_def)
  ultimately show ?thesis
    by (subst subcommand_stage [OF sub_stages(2)])
      (simp_all add: boot_stage_def do_bootm_linux_def boot_jump_linux_def world2_def world1_def board1_def BOOTM_STATE_OS_CMDLINE_def
        BOOTM_STATE_OS_BD_T_def BOOTM_STATE_OS_PREP_def BOOTM_STATE_LOADOS_def BOOTM_STATE_RAMDISK_def BOOTM_STATE_OS_GO_def BOOTM_STATE_START_def)
qed

theorem bootm_stages_ordered_witness:
  "stages board1 (world2 BOOTM_STATE_START) [BOOTM_STATE_OS_CMDLINE, BOOTM_STATE_OS_GO] (world2 0x91) \<and>
    sorted_wrt (<) [BOOTM_STATE_OS_CMDLINE, BOOTM_STATE_OS_GO]"
proof -
  have go: "stages board1 (world2 0x11) [BOOTM_STATE_OS_GO] (world2 0x91)"
    using stages_leave [OF sub_stages(2) _ session_go] by (simp add: BOOTM_STATE_OS_GO_def BOOTM_STATE_START_def)
  have "bh_state (bw_images (world2 0x11)) \<noteq> bh_state (bw_images (world2 BOOTM_STATE_START))"
    by (simp add: world2_def BOOTM_STATE_START_def)
  then have "world2 0x11 \<noteq> world2 BOOTM_STATE_START" by metis
  then have "stages board1 (world2 BOOTM_STATE_START) [BOOTM_STATE_OS_CMDLINE, BOOTM_STATE_OS_GO] (world2 0x91)"
    by (intro stages_run [OF sub_stages(1) _ session_cmdline _ go]) (simp_all add: BOOTM_STATE_OS_CMDLINE_def BOOTM_STATE_START_def)
  then show ?thesis using bootm_stages_ordered by blast
qed

section \<open>What the checks do not cover\<close>

lemma remove_loop_overrun: "length reg \<le> i + n \<Longrightarrow> 0 < n \<Longrightarrow> remove_loop reg i n = None"
proof (induction n arbitrary: i reg)
  case (Suc n)
  show ?case
  proof (cases "Suc i < length reg")
    case True
    then have "0 < n" using Suc.prems(1) by simp
    then show ?thesis using True Suc.IH [of "reg[i := reg ! Suc i]" "Suc i"] Suc.prems by (simp add: rget_def rput_def)
  qed (simp add: rget_def)
qed simp

lemma zero_lmb_reserve: "lmb_reserve \<lparr>lmb_memory = r, lmb_reserved = zero_region\<rparr> 0 sz = None"
proof -
  let ?reg = "replicate 9 \<lparr>lp_base = 0, lp_size = 0 :: u32\<rparr>"
  have z: "zero_region = \<lparr>rg_cnt = 0, rg_size = 0, rg_region = ?reg\<rparr>" by (simp add: zero_region_def MAX_LMB_REGIONS_def)
  have g: "rget ?reg 0 = Some \<lparr>lp_base = 0, lp_size = 0\<rparr>" "rget ?reg 1 = Some \<lparr>lp_base = 0, lp_size = 0\<rparr>" by (simp_all add: rget_def)
  have u: "?reg[0 := \<lparr>lp_base = 0, lp_size = 0\<rparr>] = ?reg" by code_simp
  have "remove_loop ?reg 1 (pred32 0 - 1) = None" by (rule remove_loop_overrun) (simp_all add: pred32_def)
  then have "lmb_coalesce_regions zero_region 0 1 = None"
    using g u by (simp add: z lmb_coalesce_regions_def lmb_remove_region_def rput_def)
  then have "merge_next zero_region 0 = None" using g by (simp add: merge_next_def lmb_regions_adjacent_def z pred32_def lmb_addrs_adjacent_def)
  then show ?thesis using g by (simp add: lmb_reserve_def lmb_add_region_def z)
qed

text \<open>The order of the stages is checked, but not that there was a start: as the first command after power-on a stage works on the zeroed \<open>images\<close>. The stage
  loados then walks over the memory behind the empty list of memory blocks, and the stages that call the operating system call \<open>NULL\<close>.\<close>

lemma stage_without_start:
  assumes "bw_images st = zero_images"
  shows "do_bootm_subcommand cfg [''bootm'', ''loados''] st = None" "do_bootm_subcommand cfg [''bootm'', ''go''] st = None"
proof -
  have o: "boot_os 0 = Some None" by code_simp
  note e = assms zero_images_def BOOTM_STATE_LOADOS_def BOOTM_STATE_RAMDISK_def BOOTM_STATE_OS_GO_def BOOTM_STATE_START_def
  have "bootm_load_os cfg m (bh_os zero_images) = Some (0, 0, m)" for m by (simp add: bootm_load_os_def zero_images_def IH_COMP_NONE_def)
  then show "do_bootm_subcommand cfg [''bootm'', ''loados''] st = None"
    using zero_lmb_reserve [of zero_region 0] o by (subst subcommand_stage [OF sub_stages(3)]) (simp_all add: boot_stage_def e)
  show "do_bootm_subcommand cfg [''bootm'', ''go''] st = None"
    using o by (subst subcommand_stage [OF sub_stages(2)]) (simp_all add: boot_stage_def e)
qed


text \<open>C39. The table of operating systems is indexed with the byte of the header: a valid image with a system between the known ones is refused with the value 1 after it has been loaded,
  but one with a number behind the last entry makes the command read, and call, what lies behind the table.\<close>

theorem bootm_os_unchecked:
  assumes "kernel_image (bw_mem st) (unat a) IH_TYPE_KERNEL os sz load ep" and "env_ok (bw_env st)" and "bc_dram cfg \<noteq> []"
    and "length argv = 2" and "simple_strtoul (argv ! 1) 16 = (a, [])" and "unat load + unat sz \<le> length (bw_mem st)"
    and "load = a + 64 \<or> unat load + unat sz \<le> unat a \<or> unat a + 64 + unat sz \<le> unat load"
    and "os \<noteq> IH_OS_LINUX" and "os \<noteq> IH_OS_RTEMS"
  shows "if os < IH_OS_RTEMS then \<exists>st'. do_bootm cfg argv st = Some (Ret 1 st') else do_bootm cfg argv st = None"
proof -
  have "IH_TYPE_KERNEL \<noteq> IH_TYPE_STANDALONE" by code_simp
  moreover have "boot_os os = (if os < IH_OS_RTEMS then Some None else None)" using assms(8,9) by (auto simp: boot_os_def not_less)
  moreover obtain st' where "do_bootm cfg argv st = boot_os os \<bind> (\<lambda>fn. case fn of None \<Rightarrow> Some (Ret 1 st')
      | Some f \<Rightarrow> call_boot_fn f cfg 0 st' \<bind> (\<lambda>out. Some (case out of Ret _ st \<Rightarrow> Reset st | _ \<Rightarrow> out)))"
    by (rule bootm_kernel [OF assms(1-7)]) (use calculation(1) in auto)
  ultimately show ?thesis by auto
qed

theorem bootm_os_unchecked_witness:
  "\<exists>img. image_set_header (params1\<lparr>mk_os := 19\<rparr>) 7 file1 = Some img \<and> do_bootm board1 [''bootm'', ''1000''] (world1 img) = None"
proof -
  have len: "64 < length file1" "length file1 < 2 ^ 32" by simp_all
  obtain img where img: "image_set_header (params1\<lparr>mk_os := 19\<rparr>) 7 file1 = Some img" "length img = length file1"
    and k: "\<And>pre post. length (pre @ img @ post) < 2 ^ 32 \<Longrightarrow> kernel_image (pre @ img @ post) (length pre) IH_TYPE_KERNEL 19
      (word_of_nat (length file1 - 64)) 0x8000 0x8040"
    by (rule built_kernel [OF len blank_header, of "params1\<lparr>mk_os := 19\<rparr>" IH_TYPE_KERNEL 19 7]) (auto simp: params1_def IH_TYPE_KERNEL_def)
  have w: "bw_env (world1 img) = env5" "length (bw_mem (world1 img)) = 0x9043" using img(2) by (simp_all add: world1_def)
  have u: "unat (0x1000 :: u32) = length (replicate 0x1000 NUL)" "(word_of_nat (length file1 - 64) :: u32) = 3" by simp_all
  have "kernel_image (replicate 0x1000 NUL @ img @ replicate 0x8000 NUL) (length (replicate 0x1000 NUL)) IH_TYPE_KERNEL 19 3 0x8000 0x8040"
    using k [of "replicate 0x1000 NUL" "replicate 0x8000 NUL"] img(2) unfolding u(2) by simp
  then have k1: "kernel_image (bw_mem (world1 img)) (unat (0x1000 :: u32)) IH_TYPE_KERNEL 19 3 0x8000 0x8040" unfolding u(1) by (simp add: world1_def)
  have a: "simple_strtoul ([''bootm'', ''1000''] ! 1) 16 = (0x1000, [])" by code_simp
  have d: "bc_dram board1 \<noteq> []" by (simp add: board1_def)
  have "if 19 < IH_OS_RTEMS then \<exists>st'. do_bootm board1 [''bootm'', ''1000''] (world1 img) = Some (Ret 1 st')
      else do_bootm board1 [''bootm'', ''1000''] (world1 img) = None"
    by (rule bootm_os_unchecked [OF k1 _ d _ a]) (simp_all add: w env5_empty IH_OS_LINUX_def IH_OS_RTEMS_def)
  then show ?thesis using img(1) by (simp add: IH_OS_RTEMS_def)
qed

text \<open>A standalone program is started at the entry point with its bytes exchanged once more than they should be.\<close>

lemma bootm_standalone_swapped:
  assumes "kernel_image (bw_mem st) (unat a) IH_TYPE_STANDALONE os sz load ep" and "env_ok (bw_env st)" and "bc_dram cfg \<noteq> []"
    and "length argv = 2" and "simple_strtoul (argv ! 1) 16 = (a, [])" and "unat load + unat sz \<le> length (bw_mem st)"
    and "load = a + 64 \<or> unat load + unat sz \<le> unat a \<or> unat a + 64 + unat sz \<le> unat load"
    and "env_vars (bw_env st) ''autostart'' \<noteq> Some ''no''"
  shows "\<exists>st'. do_bootm cfg argv st = Some (Appl (htonl ep) (tl argv) st')"
proof -
  obtain v l where "do_bootm cfg argv st = bootm_start_standalone cfg argv (loaded st IH_TYPE_STANDALONE os a sz load ep v l)"
    by (rule bootm_kernel [OF assms(1-7)]) auto
  then show ?thesis using getenv_vars [OF assms(2), of "''autostart''" "bc_env cfg"] assms(8)
    by (simp add: bootm_start_standalone_def loaded_def started_def cstring_def)
qed

end
