(* ===== verification/Spec2Isabelle.thy ===== *)
theory Spec2Isabelle
  imports Lmb_Alloc Env Sha256 Sha1 Md5 Tftp_Transfer Ramdisk Packet_Trip Nand_Ecc Circbuf Line_Edit Shell Bootbk Bootm
begin

text \<open>
  \<^bold>\<open>The program.\<close> \<^verbatim>\<open>src/U-boot.MX64\<close> is the U-Boot boot loader (release 2012.10) with the port to the Broadcom
  iProc family and the board of the MX64 (\<^verbatim>\<open>include/configs/kingpin.h\<close>), a 32-bit little-endian ARM with unsigned plain
  characters. After start-up the loader reads its environment, a set of named strings, from NAND flash; it loads a boot image, from flash or over the
  network, checks it, places a ramdisk, and starts the system. This development models the parts that carry this logic and do not depend on
  registers of the hardware, and proves what they promise to each other.

  \<^bold>\<open>Conventions.\<close> A byte memory is a list of characters (\<open>mem\<close>) and a pointer an index into it; every read and write is checked, and
  an access outside of the memory is the result \<open>None\<close>. Unsigned and signed machine integers are words of their width, with wrap-around;
  comparisons that C makes signed use \<open>sint\<close>. Global and static variables are fields of a record that is passed through, and the result of
  \<open>malloc\<close>, of a driver or of the console is an argument. Errors are values: \<open>Inl\<close>, a code, or \<open>None\<close>. A loop is a total recursive
  function with a termination proof, with these exceptions: the allocation loop of the memory blocks, the prime test of the hash table and its search for a
  size are partial functions, and their theorems show that they return; the probing of the hash table has fuel for the size of the table, which it is shown never to use up on a well-formed table;
  \<open>eth_init\<close> has fuel for the number of devices, after which the ring is closed; and \<open>loop_run\<close> of the network takes the list of what happens
  outside, one element for each iteration.

  \<^bold>\<open>Strings and memory.\<close> \<open>Prelude\<close> holds the types, the checked accesses and shared lemmas. \<open>Ctype\<close>
  (\<^verbatim>\<open>lib/ctype.c\<close>), \<open>Mem_String\<close> (\<^verbatim>\<open>lib/string.c\<close>), \<open>Qsort\<close> (\<^verbatim>\<open>lib/qsort.c\<close>),
  \<open>Div64\<close> (\<^verbatim>\<open>lib/div64.c\<close>) and \<open>Vsprintf\<close> (\<^verbatim>\<open>lib/vsprintf.c\<close>) are the libraries below everything else. They show that
  the optimised routines (word-wise copying, filling and searching, division-free decimal conversion, shift-and-subtract division, the shell sort with
  the code's gaps, proved in a locale for any total preorder and interpreted for the comparison of keys) do what plain definitions say,
  and that numbers survive printing and parsing.

  \<^bold>\<open>Checksums and digests.\<close> \<open>Crc\<close> (\<^verbatim>\<open>lib/crc32.c\<close>, \<^verbatim>\<open>lib/crc16.c\<close>, \<^verbatim>\<open>lib/crc7.c\<close>): the tables are the generated ones, the
  word-wise loop is the bit-serial register, and no change of a single byte is missed; the locale \<open>byte_crc\<close> carries what CRC-32 and CRC-16
  share. \<open>Digest\<close>, \<open>Sha256\<close>, \<open>Sha1\<close>, \<open>Md5\<close>: a message fed in any pieces has the digest of the standard, written
  out with its own byte order and constants, independently of the code's unrolled and rotated form (the constants of SHA-256 are characterised as
  fractions of roots); the buffering is proved once, in the locale \<open>block_stream\<close>.

  \<^bold>\<open>The environment.\<close> \<open>Store_Spec\<close> is the contract of a store of named strings (locale \<open>kv_store\<close>). \<open>Hashtable\<close>,
  \<open>Hashtable_Map\<close> and \<open>Hashtable_IO\<close> (\<^verbatim>\<open>lib/hashtable.c\<close>) model the table with open addressing; it refines a finite map under an
  invariant that every operation keeps, probing ends because the size is prime (the search for it wraps around in 32 bits and is shown to end), the import
  reads the language of its comment, given as a grammar that spells lines, and import of an export gives the same variables. \<open>Env\<close> (\<^verbatim>\<open>common/env_common.c\<close>, \<^verbatim>\<open>common/env_nand.c\<close>, \<^verbatim>\<open>common/cmd_nvedit.c\<close>) is the client: setting, reading, saving, loading
  and the fall back to the defaults. The loop of \<open>nand_erase_opts\<close> (\<^verbatim>\<open>drivers/mtd/nand/nand_util.c\<close>) is part of the model; the driver below it is a parameter,
  with the behaviour of flash as hypothesis: erasing a good block makes it read as 0xFF, a write to an erased block reads back, and nothing is assumed of a
  write over other contents.

  \<^bold>\<open>Memory blocks.\<close> \<open>Lmb\<close>, \<open>Lmb_Alloc\<close> (\<^verbatim>\<open>lib/lmb.c\<close>): the lists stay sorted and disjoint, and reserving and freeing change exactly the block named. An allocation
  of any size and alignment returns a free block of memory below its limit, if the limit is none or not below the size; what it reserves is the size rounded
  up, and if that stays clear of other reservations, the blocks of a sequence of allocations are disjoint (locale \<open>block_allocator\<close>).

  \<^bold>\<open>Boot images.\<close> \<open>Image\<close> (\<^verbatim>\<open>common/image.c\<close>, \<^verbatim>\<open>include/image.h\<close>, \<^verbatim>\<open>common/cmd_bootm.c\<close>,
  \<^verbatim>\<open>tools/default_image.c\<close>): what the tool builds the loader accepts, at any address and with every field as given; an accepted image
  is refused after a change of any one byte; the components of an image are found where they are. \<open>Ramdisk\<close> composes the environment, the
  memory blocks and \<open>memmove\<close>: the ramdisk, of any length, is moved into a fresh block without damage to itself or to anything reserved, or kept in place.

  \<^bold>\<open>Starting a system.\<close> \<open>Atags\<close> (\<^verbatim>\<open>arch/arm/lib/bootm.c\<close>): the list of parameters for a kernel. Its routines satisfy one contract (locale \<open>tag_writer\<close>): they append
  their tags and touch nothing else; writers compose, and a kernel finds the list. \<open>Bootm\<close> (\<^verbatim>\<open>common/cmd_bootm.c\<close>, \<^verbatim>\<open>arch/arm/lib/bootm.c\<close>) composes images, environment, memory blocks,
  the command table and the tags: an image from the tool is checked, loaded and entered with the right registers and parameters; and the subcommands, a state machine
  with an inductive relation for its sessions that knows nothing of the order, run only in order. \<open>Bootbk\<close> (\<^verbatim>\<open>board/broadcom/bcm95302x/kingpin.c\<close>) is the command of the board for its own image format.
  Entering foreign code ends the model: the result says where and with which arguments.

  \<^bold>\<open>The network.\<close> \<open>Net\<close> (\<^verbatim>\<open>net/net.c\<close>, \<^verbatim>\<open>net/eth.c\<close>, \<^verbatim>\<open>lib/net_utils.c\<close>): addresses and their text, the ring of devices, the state of
  the loop. \<open>Tftp\<close> (\<^verbatim>\<open>net/tftp.c\<close>) and \<open>Netloop\<close> (\<open>NetLoop\<close>): the client and the loop around it. \<open>Netloop_Types\<close>: the types
  of the state hold in every run. \<open>Tftp_Transfer\<close>: for every schedule of option acknowledgements, blocks, repetitions (except of a block with the 16-bit number 0), foreign datagrams and at most ten time-outs
  (inductive relations) the transfer ends with the file in memory, and the run of the loop ends in success with the variables set. \<open>Packet\<close> (\<^verbatim>\<open>net/arp.c\<close>, the packet
  functions of \<^verbatim>\<open>net/net.c\<close>) and \<open>Packet_Trip\<close>: frames, checksums and address resolution; a datagram sent by one machine is delivered by another, directly
  or after the exchange of addresses. The loop takes datagrams, in the form in which \<open>NetReceive\<close> hands them to the handler.

  \<^bold>\<open>The console.\<close> \<open>Parse_Args\<close> and \<open>Shell\<close> (\<^verbatim>\<open>common/main.c\<close>): splitting a line into arguments, variables in commands, and the built-in parser, which is shown to
  run the commands of a line in order with their expanded arguments. \<open>Command\<close> (\<^verbatim>\<open>common/command.c\<close>): a command is found by its name or its only completion, and completion on
  the console appends what the candidates share. \<open>Line_Edit\<close> (\<^verbatim>\<open>common/main.c\<close>): the line editor with its history refines an editor of a text with a cursor, for
  every sequence of keys but the tabulator, which starts completion. \<open>Circbuf\<close> (\<^verbatim>\<open>lib/circbuf.c\<close>): the circular buffer satisfies the contract of a bounded queue (locale \<open>bounded_queue\<close>).

  \<^bold>\<open>Flash.\<close> \<open>Nand_Ecc\<close> (\<^verbatim>\<open>drivers/mtd/nand/nand_ecc.c\<close>): the code corrects each wrong bit of a page and reports any two.

  \<^bold>\<open>Defects shown.\<close> Theorems at the end of their theories state where the code breaks its promises: entering into a full table
  overwrites a live entry, an export can write past its buffer, an allocation with a limit below its size wraps around, a failed erasure does not keep the environment from being reported as saved, a reservation
  after the last one was freed is lost, the UDP length of a packet is not checked, completion on the console leaves its buffers after a length modifier,
  the result of a list of commands is inverted, the address of the board's kernel overruns a buffer, and \<open>bootm\<close> neither checks the number of the operating system nor that
  its stages were preceded by a start.

  \<^bold>\<open>Not modelled.\<close> The hush parser (a port of the Busybox shell), the countdown before booting, the simple editor used before relocation and what is echoed; what foreign code does, FIT images and device
  trees (\<^verbatim>\<open>lib/libfdt\<close>, third-party); decompressors (third-party); file systems and UBI; the allocator \<^verbatim>\<open>common/dlmalloc.c\<close> (third-party, a
  parameter); BOOTP, NFS, DNS, SNTP and ping (not configured for the board); board, processor and driver code (register
  access). Messages on the console are left out throughout, as are the calls that reset a watchdog.
\<close>

end
